(* ===== verification/Prelude.thy ===== *)
theory Prelude
  imports Main "HOL-Library.Word" "HOL-Library.Multiset"
begin

unbundle bit_operations_syntax

text \<open>
  Shared vocabulary of the development: the machine types of the C++ code on its 64-bit
  targets, the lemma collections the component proofs use, and facts on lists, multisets
  and words that several components need.
\<close>

section \<open>Machine types\<close>

text \<open>
  \<open>size_t\<close>, \<open>uint64_t\<close> and \<open>uintptr_t\<close> are 64-bit unsigned values that wrap around;
  \<open>ptrdiff_t\<close> is a 64-bit signed value, read with \<open>sint\<close>.
\<close>

type_synonym u64 = "64 word"
type_synonym uintptr = "64 word"
type_synonym ptrdiff = "64 word"

text \<open>
  A coroutine handle is the address of a coroutine frame; the null handle is address 0.
\<close>

type_synonym coro = "64 word"

section \<open>Lemma collections\<close>

text \<open>
  \<open>step_defs\<close> collects the equations that unfold an atomic step, \<open>inv_intros\<close> the
  preservation lemmas of the invariants.
\<close>

named_theorems step_defs
named_theorems inv_intros

section \<open>Lists\<close>

lemma length_filter_update:
  "i < length xs \<Longrightarrow>
    length (filter P (xs[i := y])) + (if P (xs ! i) then 1 else 0) =
    length (filter P xs) + (if P y then 1 else 0)"
proof (induction xs arbitrary: i)
  case (Cons x xs)
  then show ?case by (cases i) auto
qed simp

lemma length_filter_update_same:
  assumes "i < length xs" "P y \<longleftrightarrow> P (xs ! i)"
  shows "length (filter P (xs[i := y])) = length (filter P xs)"
  using length_filter_update [OF assms(1), of P y] assms(2) by simp

lemma length_filter_update_new:
  assumes "i < length xs" "P y" "\<not> P (xs ! i)"
  shows "length (filter P (xs[i := y])) = Suc (length (filter P xs))"
  using length_filter_update [OF assms(1), of P y] assms(2,3) by simp

lemma sum_list_map_update:
  fixes f :: "'a \<Rightarrow> 'b::comm_monoid_add"
  assumes "i < length xs"
  shows "sum_list (map f (xs[i := y])) + f (xs ! i) = sum_list (map f xs) + f y"
  using assms
proof (induction xs arbitrary: i)
  case (Cons x xs)
  then show ?case by (cases i) (auto simp: ac_simps)
qed simp

lemma nth_map_upt_shift [simp]: "i < b - a \<Longrightarrow> map f [a..<b] ! i = f (a + i)"
  by simp

lemma upt_join: "i \<le> j \<Longrightarrow> j \<le> k \<Longrightarrow> [i..<j] @ [j..<k] = [i..<k]"
  by (metis le_add_diff_inverse upt_add_eq_append)

lemma count_list_replicate: "count_list (replicate n x) y = (if x = y then n else 0)"
  by (induction n) auto

section \<open>Indices into a power-of-two ring\<close>

lemma mod_window_inj_le:
  fixes i j c lo :: nat
  assumes "i mod c = j mod c" "lo \<le> i" "i \<le> j" "j < lo + c"
  shows "i = j"
proof -
  have "c dvd j - i" using assms(1,3) by (metis mod_eq_dvd_iff_nat)
  moreover have "j - i < c" using assms by simp
  ultimately have "j - i = 0" using nat_dvd_not_less by blast
  with assms(3) show ?thesis by simp
qed

lemma mod_window_inj:
  fixes i j c lo :: nat
  assumes "i mod c = j mod c" "lo \<le> i" "i < lo + c" "lo \<le> j" "j < lo + c"
  shows "i = j"
  using assms mod_window_inj_le [of i c j lo] mod_window_inj_le [of j c i lo] by fastforce

section \<open>Words\<close>

lemma unat_and_mask:
  fixes i :: u64
  shows "unat (i AND mask k) = unat i mod 2 ^ k"
  by (simp add: take_bit_eq_mask [symmetric] unsigned_take_bit_eq take_bit_nat_def)

lemma unat_exp:
  assumes "k < 64"
  shows "unat (2 ^ k :: u64) = 2 ^ k"
proof -
  have "(2::nat) ^ k < 2 ^ 64" using assms by (intro power_strict_increasing) auto
  then have "unat (of_nat (2 ^ k) :: u64) = 2 ^ k"
    by (intro of_nat_inverse [OF refl]) simp
  then show ?thesis by (simp only: of_nat_power of_nat_numeral)
qed

lemma unat_u64_less: "unat w < 2 ^ 64" for w :: u64
  using unsigned_less [of w] by simp

lemma unat_minus: "unat t \<le> unat b \<Longrightarrow> unat (b - t) = unat b - unat t" for t b :: u64
  by (simp add: unat_sub word_le_nat_alt)

lemma unat_plus_one: "unat b < 2 ^ 64 - 1 \<Longrightarrow> unat (b + 1) = Suc (unat b)" for b :: u64
  by (simp add: unat_word_ariths)

lemma unat_minus_one: "b \<noteq> 0 \<Longrightarrow> unat (b - 1) = unat b - 1" for b :: u64
  using unat_minus [of 1 b] by (simp add: Suc_le_eq unat_gt_0)

lemma sint_add_fits:
  fixes a b :: "64 word"
  assumes "- (2 ^ 63) \<le> sint a + sint b" "sint a + sint b < 2 ^ 63"
  shows "sint (a + b) = sint a + sint b"
proof -
  have "signed_take_bit 63 (sint a + sint b) = sint a + sint b"
    using assms by (intro signed_take_bit_int_eq_self) simp_all
  then show ?thesis by (simp add: sint_word_ariths)
qed

lemma sint_sub_fits:
  fixes a b :: "64 word"
  assumes "- (2 ^ 63) \<le> sint a - sint b" "sint a - sint b < 2 ^ 63"
  shows "sint (a - b) = sint a - sint b"
proof -
  have "signed_take_bit 63 (sint a - sint b) = sint a - sint b"
    using assms by (intro signed_take_bit_int_eq_self) simp_all
  then show ?thesis by (simp add: sint_word_ariths)
qed

lemma sint_bounds:
  fixes a :: "64 word"
  shows "- (2 ^ 63) \<le> sint a" "sint a < 2 ^ 63"
  using sint_ge [of a] sint_lt [of a] by simp_all

lemma sint_dec:
  fixes a :: "64 word"
  shows "- (2 ^ 63) < sint a \<Longrightarrow> sint (a - 1) = sint a - 1"
  using sint_bounds [of a] by (subst sint_sub_fits) simp_all

end
