(* ===== verification/Handoff.thy ===== *)
theory Handoff
  imports Prelude
begin

text \<open>
  \<open>continuation_handoff\<close> of \<^verbatim>\<open>include/shared_state/continuation_handoff.hpp\<close>: one atomic
  word holds a READY flag (bit 0) and a continuation address (the other bits).  Each
  operation is given as its atomic steps (a load, then rounds of a weak compare-exchange
  that may fail spuriously), and a system of any number of callers interleaves them.
\<close>

section \<open>The state word\<close>

definition READY_FLAG :: uintptr where
  "READY_FLAG = 1"

definition ADDR_MASK :: uintptr where
  "ADDR_MASK = NOT 1"

text \<open>
  What a caller gets back: the no-op coroutine, or a coroutine it has to resume.
\<close>

datatype resume = Noop | Resume coro

definition is_ready :: "uintptr \<Rightarrow> bool" where
  "is_ready st \<longleftrightarrow> st AND READY_FLAG \<noteq> 0"

definition has_continuation :: "uintptr \<Rightarrow> bool" where
  "has_continuation st \<longleftrightarrow> st AND ADDR_MASK \<noteq> 0"

definition get_continuation :: "uintptr \<Rightarrow> resume" where
  "get_continuation st =
     (let addr = st AND ADDR_MASK in if addr \<noteq> 0 then Resume addr else Noop)"

definition reset :: "uintptr \<Rightarrow> uintptr" where
  "reset st = 0"

text \<open>
  A usable continuation: a non-null frame address with bit 0 clear (frames are naturally
  aligned).
\<close>

definition aligned :: "coro \<Rightarrow> bool" where
  "aligned h \<longleftrightarrow> h \<noteq> 0 \<and> h AND READY_FLAG = 0"

section \<open>Atomic steps of the two operations\<close>

text \<open>
  The program counter of a call of \<open>set_ready\<close>: before its load, at the head of the loop
  with the value \<open>old_val\<close>, returned.
\<close>

datatype ready_pc = SR_Load | SR_Loop uintptr | SR_Ret bool

text \<open>
  One atomic step.  \<open>spur\<close> says that a weak compare-exchange fails although the values
  agree.  A failed exchange loads the current value into \<open>old_val\<close>.
\<close>

fun set_ready_step :: "bool \<Rightarrow> uintptr \<Rightarrow> ready_pc \<Rightarrow> uintptr \<times> ready_pc" where
  "set_ready_step spur st SR_Load = (st, SR_Loop st)"
| "set_ready_step spur st (SR_Loop old_val) =
     (if old_val AND READY_FLAG \<noteq> 0 then (st, SR_Ret False)
      else let new_val = old_val OR READY_FLAG
           in if st = old_val \<and> \<not> spur
              then (new_val, SR_Ret (old_val AND ADDR_MASK \<noteq> 0))
              else (st, SR_Loop st))"
| "set_ready_step spur st (SR_Ret b) = (st, SR_Ret b)"

datatype cont_pc = SC_Load | SC_Loop uintptr | SC_Ret resume

fun set_continuation_step ::
  "bool \<Rightarrow> coro \<Rightarrow> uintptr \<Rightarrow> cont_pc \<Rightarrow> uintptr \<times> cont_pc" where
  "set_continuation_step spur h st SC_Load = (st, SC_Loop st)"
| "set_continuation_step spur h st (SC_Loop old_val) =
     (if old_val AND ADDR_MASK \<noteq> 0 then (st, SC_Ret Noop)
      else let new_val = (old_val AND READY_FLAG) OR h
           in if st = old_val \<and> \<not> spur
              then (new_val, SC_Ret (if old_val AND READY_FLAG \<noteq> 0 then Resume h else Noop))
              else (st, SC_Loop st))"
| "set_continuation_step spur h st (SC_Ret r) = (st, SC_Ret r)"

section \<open>The operations run alone\<close>

text \<open>
  A call that no other caller disturbs and whose exchange does not fail spuriously takes
  two steps: the load and one round of the loop.
\<close>

definition set_ready :: "uintptr \<Rightarrow> uintptr \<times> ready_pc" where
  "set_ready st = (let (st1, pc1) = set_ready_step False st SR_Load
                   in set_ready_step False st1 pc1)"

definition set_continuation :: "coro \<Rightarrow> uintptr \<Rightarrow> uintptr \<times> cont_pc" where
  "set_continuation h st =
     (let (st1, pc1) = set_continuation_step False h st SC_Load
      in set_continuation_step False h st1 pc1)"

section \<open>Bits of the state word\<close>

named_theorems handoff_bits

lemma or_flag_ready [handoff_bits]: "is_ready (st OR READY_FLAG)"
proof -
  have "bit ((st OR 1) AND 1) 0" by (simp add: bit_simps)
  then show ?thesis unfolding is_ready_def READY_FLAG_def by (metis bit_0_eq bot_apply bot_bool_def)
qed

lemma or_flag_addr [handoff_bits]: "(st OR READY_FLAG) AND ADDR_MASK = st AND ADDR_MASK"
  by (simp add: READY_FLAG_def ADDR_MASK_def bit_eq_iff bit_simps) blast

lemma cont_addr [handoff_bits]:
  "aligned h \<Longrightarrow> ((st AND READY_FLAG) OR h) AND ADDR_MASK = h"
  unfolding aligned_def READY_FLAG_def ADDR_MASK_def bit_eq_iff
  by (auto simp: bit_simps)

lemma cont_ready [handoff_bits]:
  "aligned h \<Longrightarrow> is_ready ((st AND READY_FLAG) OR h) = is_ready st"
  unfolding aligned_def READY_FLAG_def is_ready_def bit_eq_iff
  by (auto simp: bit_simps dest: spec [of _ 0])

lemma or_flag_cont [handoff_bits]: "has_continuation (st OR READY_FLAG) = has_continuation st"
  by (simp add: has_continuation_def or_flag_addr)

lemma cont_cont [handoff_bits]: "aligned h \<Longrightarrow> has_continuation ((st AND READY_FLAG) OR h)"
  by (simp add: has_continuation_def cont_addr aligned_def)

lemma ready_or_flag: "is_ready st \<Longrightarrow> st OR READY_FLAG = st"
  unfolding is_ready_def READY_FLAG_def bit_eq_iff
  by (auto simp: bit_simps)

lemma initial_bits [simp]: "\<not> is_ready 0" "\<not> has_continuation 0"
  by (simp_all add: is_ready_def has_continuation_def)

section \<open>Behaviour of an undisturbed call\<close>

lemma set_ready_alone:
  "set_ready st = (st OR READY_FLAG, SR_Ret (\<not> is_ready st \<and> has_continuation st))"
  by (auto simp: set_ready_def is_ready_def has_continuation_def ready_or_flag Let_def)

lemma set_continuation_alone:
  "set_continuation h st =
     (if has_continuation st then (st, SC_Ret Noop)
      else ((st AND READY_FLAG) OR h, SC_Ret (if is_ready st then Resume h else Noop)))"
  by (auto simp: set_continuation_def is_ready_def has_continuation_def Let_def)

section \<open>Interleaved callers\<close>

record handoff_sys =
  slot :: uintptr
  producers :: "ready_pc list"
  consumers :: "(coro \<times> cont_pc) list"

definition handoff_init :: "nat \<Rightarrow> coro list \<Rightarrow> handoff_sys" where
  "handoff_init n hs =
     \<lparr>slot = 0, producers = replicate n SR_Load, consumers = map (\<lambda>h. (h, SC_Load)) hs\<rparr>"

text \<open>
  A call that has not returned makes one atomic step; \<open>spur\<close> marks the steps in which a
  weak exchange fails spuriously.
\<close>

inductive handoff_step :: "bool \<Rightarrow> handoff_sys \<Rightarrow> handoff_sys \<Rightarrow> bool" for spur where
  producer:
    "i < length (producers s) \<Longrightarrow> producers s ! i = pc \<Longrightarrow> (\<forall>b. pc \<noteq> SR_Ret b) \<Longrightarrow>
     set_ready_step spur (slot s) pc = (st', pc') \<Longrightarrow>
     handoff_step spur s (s\<lparr>slot := st', producers := (producers s)[i := pc']\<rparr>)"
| consumer:
    "i < length (consumers s) \<Longrightarrow> consumers s ! i = (h, pc) \<Longrightarrow> (\<forall>r. pc \<noteq> SC_Ret r) \<Longrightarrow>
     set_continuation_step spur h (slot s) pc = (st', pc') \<Longrightarrow>
     handoff_step spur s (s\<lparr>slot := st', consumers := (consumers s)[i := (h, pc')]\<rparr>)"

inductive handoff_reach :: "nat \<Rightarrow> coro list \<Rightarrow> handoff_sys \<Rightarrow> bool" for n hs where
  start: "handoff_reach n hs (handoff_init n hs)"
| step: "handoff_reach n hs s \<Longrightarrow> handoff_step spur s t \<Longrightarrow> handoff_reach n hs t"

text \<open>
  The callers that have been told to resume the continuation, and the condition that every
  call has returned.
\<close>

fun consumer_wins :: "coro \<times> cont_pc \<Rightarrow> bool" where
  "consumer_wins (h, SC_Ret (Resume r)) = True"
| "consumer_wins _ = False"

definition winners :: "handoff_sys \<Rightarrow> nat" where
  "winners s = length (filter (\<lambda>pc. pc = SR_Ret True) (producers s))
             + length (filter consumer_wins (consumers s))"

definition all_returned :: "handoff_sys \<Rightarrow> bool" where
  "all_returned s \<longleftrightarrow> (\<forall>pc \<in> set (producers s). case pc of SR_Ret _ \<Rightarrow> True | _ \<Rightarrow> False)
                    \<and> (\<forall>(h, pc) \<in> set (consumers s). case pc of SC_Ret _ \<Rightarrow> True | _ \<Rightarrow> False)"

section \<open>The invariant\<close>

text \<open>
  Flags are only ever added: a value a producer (consumer) has read with the flag (the
  address) set is a sign that the flag (the address) is still set.
\<close>

fun producer_ok :: "uintptr \<Rightarrow> ready_pc \<Rightarrow> bool" where
  "producer_ok st SR_Load = True"
| "producer_ok st (SR_Loop v) = (is_ready v \<longrightarrow> is_ready st)"
| "producer_ok st (SR_Ret b) = is_ready st"

fun consumer_ok :: "uintptr \<Rightarrow> coro \<times> cont_pc \<Rightarrow> bool" where
  "consumer_ok st (h, SC_Load) = True"
| "consumer_ok st (h, SC_Loop v) = (has_continuation v \<longrightarrow> has_continuation st)"
| "consumer_ok st (h, SC_Ret r) =
     (has_continuation st \<and> (case r of Noop \<Rightarrow> True | Resume a \<Rightarrow> a = h \<and> st AND ADDR_MASK = h))"

definition handoff_inv :: "nat \<Rightarrow> coro list \<Rightarrow> handoff_sys \<Rightarrow> bool" where
  "handoff_inv n hs s \<longleftrightarrow>
     length (producers s) = n \<and> map fst (consumers s) = hs \<and>
     (\<forall>pc \<in> set (producers s). producer_ok (slot s) pc) \<and>
     (\<forall>c \<in> set (consumers s). consumer_ok (slot s) c) \<and>
     (has_continuation (slot s) \<longrightarrow> slot s AND ADDR_MASK \<in> set hs) \<and>
     winners s = (if is_ready (slot s) \<and> has_continuation (slot s) then 1 else 0)"

lemma winners_init: "winners (handoff_init n hs) = 0"
  by (simp add: winners_def handoff_init_def filter_empty_conv)

lemma handoff_inv_init: "handoff_inv n hs (handoff_init n hs)"
  by (auto simp: handoff_inv_def winners_init) (auto simp: handoff_init_def o_def)

text \<open>How the callers' facts survive a change of the word.\<close>

lemma producer_ok_mono: "producer_ok st pc \<Longrightarrow> (is_ready st \<Longrightarrow> is_ready st') \<Longrightarrow> producer_ok st' pc"
  by (cases pc) auto

lemma consumer_ok_mono:
  "consumer_ok st c \<Longrightarrow>
   (has_continuation st \<Longrightarrow> has_continuation st' \<and> st' AND ADDR_MASK = st AND ADDR_MASK) \<Longrightarrow>
   consumer_ok st' c"
  by (cases "(st, c)" rule: consumer_ok.cases) (auto split: resume.splits)

text \<open>
  What one step of a producer (a consumer) does: it only moves its program counter, or its
  exchange succeeds and it adds its part of the word.
\<close>

lemma set_ready_step_loop:
  "set_ready_step spur st (SR_Loop v) =
     (if is_ready v then (st, SR_Ret False)
      else if st = v \<and> \<not> spur then (v OR READY_FLAG, SR_Ret (has_continuation v))
      else (st, SR_Loop st))"
  by (simp add: is_ready_def has_continuation_def)

lemma set_continuation_step_loop:
  "set_continuation_step spur h st (SC_Loop v) =
     (if has_continuation v then (st, SC_Ret Noop)
      else if st = v \<and> \<not> spur
      then ((v AND READY_FLAG) OR h, SC_Ret (if is_ready v then Resume h else Noop))
      else (st, SC_Loop st))"
  by (simp add: is_ready_def has_continuation_def)

lemma set_ready_step_cases:
  assumes "set_ready_step spur st pc = (st', pc')" "\<forall>b. pc \<noteq> SR_Ret b" "producer_ok st pc"
  obtains (move) "st' = st" "producer_ok st pc'" "pc' \<noteq> SR_Ret True"
  | (publish) "\<not> is_ready st" "st' = st OR READY_FLAG" "pc' = SR_Ret (has_continuation st)"
proof (cases pc)
  case SR_Load
  with assms(1) have "st' = st" "pc' = SR_Loop st" by auto
  then show ?thesis by (intro that(1)) simp_all
next
  case (SR_Loop v)
  with assms(1) have "(if is_ready v then (st, SR_Ret False)
      else if st = v \<and> \<not> spur then (v OR READY_FLAG, SR_Ret (has_continuation v))
      else (st, SR_Loop st)) = (st', pc')"
    by (simp only: set_ready_step_loop)
  with SR_Loop assms(3) show ?thesis
    by (auto split: if_split_asm intro: that)
next
  case (SR_Ret b)
  with assms(2) show ?thesis by blast
qed

lemma set_continuation_step_cases:
  assumes "set_continuation_step spur h st pc = (st', pc')" "\<forall>r. pc \<noteq> SC_Ret r"
    "consumer_ok st (h, pc)"
  obtains (move) "st' = st" "consumer_ok st (h, pc')" "\<not> consumer_wins (h, pc')"
  | (install) "\<not> has_continuation st" "st' = (st AND READY_FLAG) OR h"
      "pc' = SC_Ret (if is_ready st then Resume h else Noop)"
proof (cases pc)
  case SC_Load
  with assms(1) have "st' = st" "pc' = SC_Loop st" by auto
  then show ?thesis by (intro that(1)) simp_all
next
  case (SC_Loop v)
  with assms(1) have "(if has_continuation v then (st, SC_Ret Noop)
      else if st = v \<and> \<not> spur
      then ((v AND READY_FLAG) OR h, SC_Ret (if is_ready v then Resume h else Noop))
      else (st, SC_Loop st)) = (st', pc')"
    by (simp only: set_continuation_step_loop)
  with SC_Loop assms(3) show ?thesis
    by (auto split: if_split_asm intro: that)
next
  case (SC_Ret b)
  with assms(2) show ?thesis by blast
qed

lemma winners_producer:
  assumes "i < length (producers s)" "producers s ! i \<noteq> SR_Ret True"
  shows "winners (s\<lparr>slot := st', producers := (producers s)[i := pc']\<rparr>) =
           winners s + (if pc' = SR_Ret True then 1 else 0)"
  using length_filter_update [OF assms(1), of "\<lambda>pc. pc = SR_Ret True" pc'] assms(2)
  by (simp add: winners_def)

lemma winners_consumer:
  assumes "i < length (consumers s)" "\<not> consumer_wins (consumers s ! i)"
  shows "winners (s\<lparr>slot := st', consumers := (consumers s)[i := c']\<rparr>) =
           winners s + (if consumer_wins c' then 1 else 0)"
  using length_filter_update [OF assms(1), of consumer_wins c'] assms(2)
  by (simp add: winners_def)

lemma handoff_inv_producer:
  assumes inv: "handoff_inv n hs s" and i: "i < length (producers s)" "producers s ! i = pc"
    and pc: "\<forall>b. pc \<noteq> SR_Ret b"
    and st: "set_ready_step spur (slot s) pc = (st', pc')"
  shows "handoff_inv n hs (s\<lparr>slot := st', producers := (producers s)[i := pc']\<rparr>)"
proof -
  have ok: "producer_ok (slot s) pc" using inv i by (auto simp: handoff_inv_def)
  have win: "winners (s\<lparr>slot := st', producers := (producers s)[i := pc']\<rparr>) =
      winners s + (if pc' = SR_Ret True then 1 else 0)"
    by (rule winners_producer) (use i pc in auto)
  show ?thesis
  proof (rule set_ready_step_cases [OF st pc ok])
    assume "st' = slot s" "producer_ok (slot s) pc'" "pc' \<noteq> SR_Ret True"
    then show ?thesis
      using inv win set_update_subset_insert [of "producers s" i pc']
      by (auto simp: handoff_inv_def)
  next
    assume new: "\<not> is_ready (slot s)" "st' = slot s OR READY_FLAG"
      "pc' = SR_Ret (has_continuation (slot s))"
    have "\<forall>p \<in> set (producers s). producer_ok st' p" "producer_ok st' pc'"
      using inv new by (auto simp: handoff_inv_def handoff_bits intro: producer_ok_mono)
    then have "\<forall>p \<in> set ((producers s)[i := pc']). producer_ok st' p"
      using set_update_subset_insert [of "producers s" i pc'] by blast
    moreover have "\<forall>c \<in> set (consumers s). consumer_ok st' c"
      using inv new by (auto simp: handoff_inv_def handoff_bits intro: consumer_ok_mono)
    ultimately show ?thesis
      using inv new win by (auto simp: handoff_inv_def handoff_bits)
  qed
qed

lemma consumer_address:
  assumes "handoff_inv n hs s" "i < length (consumers s)" "consumers s ! i = (h, pc)"
  shows "h \<in> set hs"
  using assms by (force simp: handoff_inv_def in_set_conv_nth)

lemma handoff_inv_consumer:
  assumes inv: "handoff_inv n hs s" and al: "\<forall>h \<in> set hs. aligned h"
    and i: "i < length (consumers s)" "consumers s ! i = (h, pc)"
    and pc: "\<forall>r. pc \<noteq> SC_Ret r"
    and st: "set_continuation_step spur h (slot s) pc = (st', pc')"
  shows "handoff_inv n hs (s\<lparr>slot := st', consumers := (consumers s)[i := (h, pc')]\<rparr>)"
proof -
  have h: "h \<in> set hs" "aligned h" using consumer_address [OF inv i] al by auto
  have ok: "consumer_ok (slot s) (h, pc)"
    using inv nth_mem [OF i(1)] i(2) by (simp add: handoff_inv_def)
  have "\<not> consumer_wins (consumers s ! i)" using i pc by (cases pc) auto
  with i have win: "winners (s\<lparr>slot := st', consumers := (consumers s)[i := (h, pc')]\<rparr>) =
      winners s + (if consumer_wins (h, pc') then 1 else 0)"
    by (intro winners_consumer) auto
  have fst: "map fst ((consumers s)[i := (h, pc')]) = map fst (consumers s)"
    using i by (simp add: map_update list_update_same_conv)
  show ?thesis
  proof (rule set_continuation_step_cases [OF st pc ok])
    assume "st' = slot s" "consumer_ok (slot s) (h, pc')" "\<not> consumer_wins (h, pc')"
    then show ?thesis
      using inv win fst set_update_subset_insert [of "consumers s" i "(h, pc')"]
      by (auto simp: handoff_inv_def)
  next
    assume new: "\<not> has_continuation (slot s)" "st' = (slot s AND READY_FLAG) OR h"
      "pc' = SC_Ret (if is_ready (slot s) then Resume h else Noop)"
    have mono: "producer_ok st' p" if "p \<in> set (producers s)" for p
      using inv new that h by (auto simp: handoff_inv_def handoff_bits intro: producer_ok_mono)
    have "\<forall>c \<in> set (consumers s). consumer_ok st' c" "consumer_ok st' (h, pc')"
      using inv new h by (auto simp: handoff_inv_def handoff_bits intro: consumer_ok_mono)
    then have "\<forall>c \<in> set ((consumers s)[i := (h, pc')]). consumer_ok st' c"
      using set_update_subset_insert [of "consumers s" i "(h, pc')"] by blast
    then show ?thesis
      using inv new win fst mono h by (auto simp: handoff_inv_def handoff_bits)
  qed
qed

lemma handoff_inv_step [inv_intros]:
  "handoff_step spur s t \<Longrightarrow> \<forall>h \<in> set hs. aligned h \<Longrightarrow> handoff_inv n hs s \<Longrightarrow> handoff_inv n hs t"
  by (induction rule: handoff_step.induct) (blast intro: handoff_inv_producer handoff_inv_consumer)+

lemma handoff_reach_inv:
  "handoff_reach n hs s \<Longrightarrow> \<forall>h \<in> set hs. aligned h \<Longrightarrow> handoff_inv n hs s"
  by (induction rule: handoff_reach.induct) (auto intro: handoff_inv_init handoff_inv_step)

section \<open>Properties\<close>

text \<open>
  The word never forgets: once a continuation is installed every later step leaves it in
  place, so \<open>get_continuation\<close> after a successful \<open>set_ready\<close> returns the coroutine that
  was there when the exchange succeeded.
\<close>

lemma handoff_step_keeps_continuation:
  assumes "handoff_step spur s t" "handoff_inv n hs s" "get_continuation (slot s) = Resume h"
  shows "get_continuation (slot t) = Resume h"
proof -
  have has: "has_continuation (slot s)" "slot s AND ADDR_MASK = h"
    using assms(3) by (auto simp: get_continuation_def has_continuation_def Let_def split: if_splits)
  have "slot t AND ADDR_MASK = slot s AND ADDR_MASK"
    using assms(1)
  proof cases
    case (producer i pc st' pc')
    have ok: "producer_ok (slot s) pc" using assms(2) producer by (auto simp: handoff_inv_def)
    show ?thesis
      by (rule set_ready_step_cases [OF producer(5,4) ok]) (simp_all add: producer(1) handoff_bits)
  next
    case (consumer i h pc st' pc')
    have ok: "consumer_ok (slot s) (h, pc)"
      using assms(2) nth_mem [OF consumer(2)] consumer(3) by (simp add: handoff_inv_def)
    show ?thesis
      by (rule set_continuation_step_cases [OF consumer(5,4) ok]) (simp_all add: consumer(1) has(1))
  qed
  with has show ?thesis by (simp add: get_continuation_def has_continuation_def)
qed

text \<open>
  C1. Exactly one caller is told to resume: in any interleaving of any number of producers
  and consumers, spurious failures included, once every call has returned there is one
  continuation installed, it is one of the consumers' handles, exactly one call won, and a
  consumer that won won with that handle.
\<close>

theorem handoff_exactly_one:
  assumes "handoff_reach n hs s" "\<forall>h \<in> set hs. aligned h" "0 < n" "hs \<noteq> []" "all_returned s"
  shows "winners s = 1 \<and> (\<exists>h \<in> set hs. get_continuation (slot s) = Resume h \<and>
           (\<forall>c r. (c, SC_Ret (Resume r)) \<in> set (consumers s) \<longrightarrow> c = h \<and> r = h))"
proof -
  have inv: "handoff_inv n hs s" using assms(1,2) by (rule handoff_reach_inv)
  have len: "length (producers s) = n" "length (consumers s) = length hs"
    using inv by (auto simp: handoff_inv_def)
  obtain p where "p \<in> set (producers s)" using len assms(3) by (cases "producers s") auto
  with assms(5) inv have ready: "is_ready (slot s)"
    by (cases p) (auto simp: all_returned_def handoff_inv_def)
  obtain h pc where "(h, pc) \<in> set (consumers s)" using len assms(4) by (cases "consumers s") auto
  with assms(5) inv have cont: "has_continuation (slot s)"
    by (cases pc) (auto simp: all_returned_def handoff_inv_def)
  have "get_continuation (slot s) = Resume (slot s AND ADDR_MASK)"
    using cont by (simp add: get_continuation_def has_continuation_def)
  with inv ready cont show ?thesis by (fastforce simp: handoff_inv_def)
qed

text \<open>
  In no reachable state have two callers been told to resume.
\<close>

theorem handoff_at_most_one:
  assumes "handoff_reach n hs s" "\<forall>h \<in> set hs. aligned h"
  shows "winners s \<le> 1"
  using handoff_reach_inv [OF assms] by (simp add: handoff_inv_def)

section \<open>Termination\<close>

text \<open>
  The word changes at most twice, and between two changes a caller needs at most two
  steps; so without spurious failures a run of all callers is finite.
\<close>

fun producer_rank :: "uintptr \<Rightarrow> ready_pc \<Rightarrow> nat" where
  "producer_rank st SR_Load = 2"
| "producer_rank st (SR_Loop v) = (if is_ready v \<or> v = st then 1 else 2)"
| "producer_rank st (SR_Ret b) = 0"

fun consumer_rank :: "uintptr \<Rightarrow> cont_pc \<Rightarrow> nat" where
  "consumer_rank st SC_Load = 2"
| "consumer_rank st (SC_Loop v) = (if has_continuation v \<or> v = st then 1 else 2)"
| "consumer_rank st (SC_Ret r) = 0"

definition changes_left :: "uintptr \<Rightarrow> nat" where
  "changes_left st = (if is_ready st then 0 else 1) + (if has_continuation st then 0 else 1)"

definition handoff_rank :: "uintptr \<Rightarrow> ready_pc list \<Rightarrow> (coro \<times> cont_pc) list \<Rightarrow> nat" where
  "handoff_rank st ps cs =
     sum_list (map (producer_rank st) ps) + sum_list (map (\<lambda>c. consumer_rank st (snd c)) cs)"

definition handoff_measure :: "handoff_sys \<Rightarrow> nat" where
  "handoff_measure s = changes_left (slot s) * Suc (length (producers s) + length (consumers s))
     + handoff_rank (slot s) (producers s) (consumers s)"

lemma producer_rank_change: "producer_rank st' pc \<le> Suc (producer_rank st pc)"
  by (cases pc) auto

lemma consumer_rank_change: "consumer_rank st' pc \<le> Suc (consumer_rank st pc)"
  by (cases pc) auto

lemma sum_list_map_le_Suc:
  assumes "\<And>x. f x \<le> Suc (g x)"
  shows "sum_list (map f xs) \<le> length xs + sum_list (map g xs)"
proof (induction xs)
  case (Cons x xs)
  with assms [of x] show ?case by simp
qed simp

lemma handoff_rank_change:
  "handoff_rank st' ps cs \<le> length ps + length cs + handoff_rank st ps cs"
proof -
  have "sum_list (map (producer_rank st') ps) \<le> length ps + sum_list (map (producer_rank st) ps)"
    by (rule sum_list_map_le_Suc) (rule producer_rank_change)
  moreover have "sum_list (map (\<lambda>c. consumer_rank st' (snd c)) cs)
      \<le> length cs + sum_list (map (\<lambda>c. consumer_rank st (snd c)) cs)"
    by (rule sum_list_map_le_Suc) (rule consumer_rank_change)
  ultimately show ?thesis by (simp add: handoff_rank_def)
qed

lemma measure_drop:
  fixes d d' N r r' q :: nat
  assumes "d' < d" "r' \<le> N + q" "q < r"
  shows "d' * Suc N + r' < d * Suc N + r"
proof -
  have "Suc d' * Suc N \<le> d * Suc N" using assms(1) by (intro mult_le_mono1) simp
  with assms(2,3) show ?thesis by simp
qed

lemma handoff_measure_producer:
  assumes inv: "handoff_inv n hs s" and i: "i < length (producers s)" "producers s ! i = pc"
    and pc: "\<forall>b. pc \<noteq> SR_Ret b"
    and st: "set_ready_step False (slot s) pc = (st', pc')"
  shows "handoff_measure (s\<lparr>slot := st', producers := (producers s)[i := pc']\<rparr>) < handoff_measure s"
proof -
  let ?ps = "(producers s)[i := pc']"
  have ok: "producer_ok (slot s) pc" using inv i by (auto simp: handoff_inv_def)
  have drop: "producer_rank (slot s) pc' < producer_rank (slot s) pc"
    using st pc by (cases pc) (auto simp: set_ready_step_loop simp del: set_ready_step.simps(2)
        split: if_splits)
  have rank: "handoff_rank (slot s) ?ps (consumers s) + producer_rank (slot s) pc =
      handoff_rank (slot s) (producers s) (consumers s) + producer_rank (slot s) pc'"
    using sum_list_map_update [OF i(1), of "producer_rank (slot s)" pc'] i(2)
    by (simp add: handoff_rank_def)
  show ?thesis
  proof (rule set_ready_step_cases [OF st pc ok])
    assume "st' = slot s"
    with rank drop show ?thesis by (simp add: handoff_measure_def)
  next
    assume new: "\<not> is_ready (slot s)" "st' = slot s OR READY_FLAG"
    have "changes_left st' < changes_left (slot s)"
      using new by (simp add: changes_left_def handoff_bits)
    moreover have "handoff_rank st' ?ps (consumers s) \<le> (length (producers s) + length (consumers s))
        + handoff_rank (slot s) ?ps (consumers s)"
      using handoff_rank_change [of st' ?ps "consumers s" "slot s"] by simp
    moreover have "handoff_rank (slot s) ?ps (consumers s)
        < handoff_rank (slot s) (producers s) (consumers s)"
      using rank drop by linarith
    ultimately show ?thesis by (simp add: handoff_measure_def measure_drop del: mult_Suc_right)
  qed
qed

lemma handoff_measure_consumer:
  assumes inv: "handoff_inv n hs s" and al: "\<forall>h \<in> set hs. aligned h"
    and i: "i < length (consumers s)" "consumers s ! i = (h, pc)"
    and pc: "\<forall>r. pc \<noteq> SC_Ret r"
    and st: "set_continuation_step False h (slot s) pc = (st', pc')"
  shows "handoff_measure (s\<lparr>slot := st', consumers := (consumers s)[i := (h, pc')]\<rparr>)
    < handoff_measure s"
proof -
  let ?cs = "(consumers s)[i := (h, pc')]"
  have h: "aligned h" using consumer_address [OF inv i] al by auto
  have ok: "consumer_ok (slot s) (h, pc)"
    using inv nth_mem [OF i(1)] i(2) by (simp add: handoff_inv_def)
  have drop: "consumer_rank (slot s) pc' < consumer_rank (slot s) pc"
    using st pc by (cases pc) (auto simp: set_continuation_step_loop
        simp del: set_continuation_step.simps(2) split: if_splits)
  have rank: "handoff_rank (slot s) (producers s) ?cs + consumer_rank (slot s) pc =
      handoff_rank (slot s) (producers s) (consumers s) + consumer_rank (slot s) pc'"
    using sum_list_map_update [OF i(1), of "\<lambda>c. consumer_rank (slot s) (snd c)" "(h, pc')"] i(2)
    by (simp add: handoff_rank_def)
  show ?thesis
  proof (rule set_continuation_step_cases [OF st pc ok])
    assume "st' = slot s"
    with rank drop show ?thesis by (simp add: handoff_measure_def)
  next
    assume new: "\<not> has_continuation (slot s)" "st' = (slot s AND READY_FLAG) OR h"
    have "changes_left st' < changes_left (slot s)"
      using new h by (simp add: changes_left_def handoff_bits)
    moreover have "handoff_rank st' (producers s) ?cs \<le> (length (producers s) + length (consumers s))
        + handoff_rank (slot s) (producers s) ?cs"
      using handoff_rank_change [of st' "producers s" ?cs "slot s"] by simp
    moreover have "handoff_rank (slot s) (producers s) ?cs
        < handoff_rank (slot s) (producers s) (consumers s)"
      using rank drop by linarith
    ultimately show ?thesis by (simp add: handoff_measure_def measure_drop del: mult_Suc_right)
  qed
qed

lemma handoff_measure_step:
  assumes "handoff_step False s t" "handoff_inv n hs s" "\<forall>h \<in> set hs. aligned h"
  shows "handoff_measure t < handoff_measure s"
  using assms(1)
proof cases
  case (producer i pc st' pc')
  then show ?thesis using handoff_measure_producer [OF assms(2)] by blast
next
  case (consumer i h pc st' pc')
  then show ?thesis using handoff_measure_consumer [OF assms(2,3)] by blast
qed

lemma handoff_run:
  assumes "(handoff_step False ^^ k) (handoff_init n hs) s" "\<forall>h \<in> set hs. aligned h"
  shows "handoff_inv n hs s \<and> k + handoff_measure s \<le> handoff_measure (handoff_init n hs)"
  using assms(1)
proof (induction k arbitrary: s)
  case 0
  then show ?case by (auto simp: handoff_inv_init)
next
  case (Suc k)
  then obtain t where t: "(handoff_step False ^^ k) (handoff_init n hs) t" "handoff_step False t s"
    by auto
  with Suc.IH have IH: "handoff_inv n hs t" "k + handoff_measure t \<le> handoff_measure (handoff_init n hs)"
    by auto
  show ?case
    using handoff_measure_step [OF t(2) IH(1) assms(2)] handoff_inv_step [OF t(2) assms(2) IH(1)] IH(2)
    by simp
qed

lemma handoff_measure_init:
  "handoff_measure (handoff_init n hs) = 4 * (n + length hs) + 2"
  by (simp add: handoff_measure_def handoff_init_def handoff_rank_def changes_left_def
      sum_list_replicate o_def sum_list_triv)

lemma handoff_progress:
  assumes "\<not> all_returned s"
  shows "\<exists>t. handoff_step False s t"
proof -
  consider (p) pc where "pc \<in> set (producers s)" "\<forall>b. pc \<noteq> SR_Ret b"
    | (c) h pc where "(h, pc) \<in> set (consumers s)" "\<forall>r. pc \<noteq> SC_Ret r"
    using assms by (fastforce simp: all_returned_def split: ready_pc.splits cont_pc.splits)
  then show ?thesis
  proof cases
    case p
    then obtain i where "i < length (producers s)" "producers s ! i = pc" by (auto simp: in_set_conv_nth)
    with p show ?thesis by (metis handoff_step.producer surj_pair)
  next
    case c
    then obtain i where "i < length (consumers s)" "consumers s ! i = (h, pc)"
      by (auto simp: in_set_conv_nth)
    with c show ?thesis by (metis handoff_step.consumer surj_pair)
  qed
qed

text \<open>
  Without spurious failures every run of \<open>n\<close> producers and \<open>m\<close> consumers has at most
  \<open>4 (n + m) + 2\<close> steps, and a run that can make no further step has every call returned:
  the retry loops terminate under any interleaving.
\<close>

theorem handoff_terminates:
  assumes "(handoff_step False ^^ k) (handoff_init n hs) s" "\<forall>h \<in> set hs. aligned h"
  shows "k \<le> 4 * (n + length hs) + 2 \<and> ((\<nexists>t. handoff_step False s t) \<longrightarrow> all_returned s)"
  using handoff_run [OF assms] handoff_progress [of s] by (auto simp: handoff_measure_init)

text \<open>
  A call that runs alone returns after its load and one exchange: \<open>set_ready\<close> sets the
  flag and reports a waiting continuation exactly when it is the first to set it;
  \<open>set_continuation\<close> installs the handle in a word without one, keeps the flag, and tells
  the caller to resume itself exactly when the flag was already set.
\<close>

theorem handoff_alone:
  assumes "aligned h"
  shows "set_ready st = (st OR READY_FLAG, SR_Ret (\<not> is_ready st \<and> has_continuation st))
    \<and> is_ready (fst (set_ready st))
    \<and> get_continuation (fst (set_ready st)) = get_continuation st
    \<and> (if has_continuation st
       then set_continuation h st = (st, SC_Ret Noop)
       else snd (set_continuation h st) = SC_Ret (if is_ready st then Resume h else Noop)
         \<and> get_continuation (fst (set_continuation h st)) = Resume h
         \<and> is_ready (fst (set_continuation h st)) = is_ready st)"
proof -
  have "h \<noteq> 0" using assms by (simp add: aligned_def)
  with assms show ?thesis
    by (simp add: set_ready_alone set_continuation_alone handoff_bits get_continuation_def)
qed

section \<open>Witnesses\<close>

text \<open>
  A concrete race of one producer and one consumer with frame address 16: the consumer
  loads, the producer sets the flag, the consumer's first exchange fails and its second
  succeeds.
\<close>

definition race_end :: handoff_sys where
  "race_end = \<lparr>slot = 17, producers = [SR_Ret False], consumers = [(16, SC_Ret (Resume 16))]\<rparr>"

lemma aligned_16: "\<forall>h \<in> set [16]. aligned h"
  by (simp add: aligned_def READY_FLAG_def)

lemma race_run: "(handoff_step False ^^ 5) (handoff_init 1 [16]) race_end"
proof -
  let ?s = "\<lambda>st p c. \<lparr>slot = st, producers = [p], consumers = [(16, c)]\<rparr>"
  have 1: "handoff_step False (handoff_init 1 [16]) (?s 0 SR_Load (SC_Loop 0))"
    using handoff_step.consumer [of 0 "?s 0 SR_Load SC_Load" 16 SC_Load False 0 "SC_Loop 0"]
    by (simp add: handoff_init_def)
  have 2: "handoff_step False (?s 0 SR_Load (SC_Loop 0)) (?s 0 (SR_Loop 0) (SC_Loop 0))"
    using handoff_step.producer [of 0 "?s 0 SR_Load (SC_Loop 0)" SR_Load False 0 "SR_Loop 0"]
    by simp
  have 3: "handoff_step False (?s 0 (SR_Loop 0) (SC_Loop 0)) (?s 1 (SR_Ret False) (SC_Loop 0))"
    using handoff_step.producer [of 0 "?s 0 (SR_Loop 0) (SC_Loop 0)" "SR_Loop 0" False 1 "SR_Ret False"]
    by (simp add: READY_FLAG_def)
  have 4: "handoff_step False (?s 1 (SR_Ret False) (SC_Loop 0)) (?s 1 (SR_Ret False) (SC_Loop 1))"
    using handoff_step.consumer [of 0 "?s 1 (SR_Ret False) (SC_Loop 0)" 16 "SC_Loop 0" False 1 "SC_Loop 1"]
    by simp
  have 5: "handoff_step False (?s 1 (SR_Ret False) (SC_Loop 1)) race_end"
    using handoff_step.consumer [of 0 "?s 1 (SR_Ret False) (SC_Loop 1)" 16 "SC_Loop 1" False 17
        "SC_Ret (Resume 16)"]
    by (simp add: READY_FLAG_def ADDR_MASK_def race_end_def)
  note app = relpowp_Suc_I [where P = "handoff_step False"]
  have "(handoff_step False ^^ Suc (Suc (Suc (Suc (Suc 0))))) (handoff_init 1 [16]) race_end"
    by (rule app [OF app [OF app [OF app [OF app [OF relpowp_0_I 1] 2] 3] 4] 5])
  then show ?thesis by (simp add: numeral_eq_Suc)
qed

lemma handoff_run_reach: "(handoff_step spur ^^ k) (handoff_init n hs) s \<Longrightarrow> handoff_reach n hs s"
  by (induction k arbitrary: s) (auto intro: handoff_reach.intros)

lemma race_reach: "handoff_reach 1 [16] race_end"
  by (rule handoff_run_reach [OF race_run])

theorem handoff_exactly_one_witness:
  "all_returned race_end \<and> winners race_end = 1 \<and> get_continuation (slot race_end) = Resume 16"
proof -
  have "all_returned race_end" by (simp add: all_returned_def race_end_def)
  with handoff_exactly_one [OF race_reach aligned_16] show ?thesis by simp
qed

theorem handoff_at_most_one_witness: "winners race_end \<le> 1"
  by (rule handoff_at_most_one [OF race_reach aligned_16])

theorem handoff_terminates_witness: "(5::nat) \<le> 4 * (1 + length [16 :: coro]) + 2"
  using handoff_terminates [OF race_run aligned_16] by blast

theorem handoff_alone_witness:
  "aligned 16 \<and> get_continuation (fst (set_ready 16)) = get_continuation 16"
proof -
  have "aligned 16" using aligned_16 by simp
  with handoff_alone [of 16 16] show ?thesis by blast
qed

end
