(* ===== verification/WsDeque.thy ===== *)
theory WsDeque
  imports Prelude "HOL-Library.Monad_Syntax"
begin

text \<open>
  \<open>ws_deque\<close> of \<^verbatim>\<open>include/ws_deque.hpp\<close>, run by one thread: the Chase-Lev deque over a
  growing ring of power-of-two capacity, with \<open>size_t\<close> indices.  An access to the ring
  outside its vector is undefined behaviour in the code and the result \<open>None\<close> here; the
  invariant shows that it does not occur.  The theory \<open>WsDequeConc\<close> interleaves the atomic
  steps of the same operations.
\<close>

section \<open>The ring\<close>

record 'a circular_array =
  mask_v :: u64
  buffer_v :: "'a list"

text \<open>\<open>dflt\<close> is the value-initialised \<open>T\<close> with which the vector is filled.\<close>

definition new_array :: "'a \<Rightarrow> u64 \<Rightarrow> 'a circular_array" where
  "new_array dflt n = \<lparr>mask_v = n - 1, buffer_v = replicate (unat n) dflt\<rparr>"

definition array_capacity :: "'a circular_array \<Rightarrow> u64" where
  "array_capacity arr = of_nat (length (buffer_v arr))"

definition array_get :: "'a circular_array \<Rightarrow> u64 \<Rightarrow> 'a option" where
  "array_get arr i =
     (let k = unat (i AND mask_v arr)
      in if k < length (buffer_v arr) then Some (buffer_v arr ! k) else None)"

definition array_put :: "'a circular_array \<Rightarrow> u64 \<Rightarrow> 'a \<Rightarrow> 'a circular_array option" where
  "array_put arr i item =
     (let k = unat (i AND mask_v arr)
      in if k < length (buffer_v arr)
         then Some (arr\<lparr>buffer_v := (buffer_v arr)[k := item]\<rparr>) else None)"

lemma word_less_plus_one:
  fixes i b :: u64
  assumes "i < b"
  shows "unat (i + 1) = Suc (unat i)"
proof -
  have "unat i < unat b" using assms by (simp add: word_less_nat_alt)
  moreover have "unat b < 2 ^ 64" by (rule unat_u64_less)
  ultimately show ?thesis by (intro unat_plus_one) simp
qed

text \<open>The copying loop of \<open>grow\<close>, from index \<open>i\<close> up to \<open>b\<close>.\<close>

function grow_loop ::
  "'a circular_array \<Rightarrow> u64 \<Rightarrow> u64 \<Rightarrow> 'a circular_array \<Rightarrow> 'a circular_array option" where
  "grow_loop arr b i new_arr =
     (if i < b
      then do { x \<leftarrow> array_get arr i; new_arr' \<leftarrow> array_put new_arr i x;
                grow_loop arr b (i + 1) new_arr' }
      else Some new_arr)"
  by pat_completeness auto

termination
  by (relation "measure (\<lambda>(arr, b, i, new_arr). unat b - unat i)")
    (auto simp: word_less_plus_one word_less_nat_alt)

declare grow_loop.simps [simp del]

definition grow :: "'a \<Rightarrow> 'a circular_array \<Rightarrow> u64 \<Rightarrow> u64 \<Rightarrow> 'a circular_array option" where
  "grow dflt arr b t = grow_loop arr b t (new_array dflt (array_capacity arr * 2))"

section \<open>The deque\<close>

record 'a ws_deque =
  top_v :: u64
  bottom_v :: u64
  array_v :: "'a circular_array"

definition new_deque :: "'a \<Rightarrow> u64 \<Rightarrow> 'a ws_deque" where
  "new_deque dflt initial_capacity =
     \<lparr>top_v = 0, bottom_v = 0, array_v = new_array dflt initial_capacity\<rparr>"

definition push :: "'a \<Rightarrow> 'a \<Rightarrow> 'a ws_deque \<Rightarrow> 'a ws_deque option" where
  "push dflt item q =
     (let b = bottom_v q; t = top_v q; arr = array_v q
      in do { arr \<leftarrow> (if b - t > array_capacity arr - 1 then grow dflt arr b t else Some arr);
              arr \<leftarrow> array_put arr b item;
              Some (q\<lparr>array_v := arr, bottom_v := b + 1\<rparr>) })"

text \<open>
  Alone, the exchange on \<open>top_v\<close> succeeds: \<open>top_v\<close> still is the value \<open>t\<close> just loaded.
\<close>

definition pop :: "'a ws_deque \<Rightarrow> ('a option \<times> 'a ws_deque) option" where
  "pop q =
     (let b = bottom_v q
      in if b = 0 then Some (None, q)
         else let b = b - 1; arr = array_v q; q1 = q\<lparr>bottom_v := b\<rparr>; t = top_v q1
              in if t \<le> b
                 then do { item \<leftarrow> array_get arr b;
                           Some (Some item,
                             if t = b then q1\<lparr>top_v := t + 1, bottom_v := b + 1\<rparr> else q1) }
                 else Some (None, q1\<lparr>bottom_v := b + 1\<rparr>))"

definition steal :: "'a ws_deque \<Rightarrow> ('a option \<times> 'a ws_deque) option" where
  "steal q =
     (let t = top_v q; b = bottom_v q
      in if t < b
         then do { item \<leftarrow> array_get (array_v q) t; Some (Some item, q\<lparr>top_v := t + 1\<rparr>) }
         else Some (None, q))"

definition deque_empty :: "'a ws_deque \<Rightarrow> bool" where
  "deque_empty q \<longleftrightarrow> bottom_v q \<le> top_v q"

definition deque_size :: "'a ws_deque \<Rightarrow> u64" where
  "deque_size q = (let b = bottom_v q; t = top_v q in if b > t then b - t else 0)"

section \<open>The ring as a map from absolute positions\<close>

text \<open>
  A ring of capacity \<open>2 ^ k\<close>; position \<open>n\<close> lives in slot \<open>n mod 2 ^ k\<close>.
\<close>

definition ring_ok :: "nat \<Rightarrow> 'a circular_array \<Rightarrow> bool" where
  "ring_ok k arr \<longleftrightarrow> k < 64 \<and> mask_v arr = mask k \<and> length (buffer_v arr) = 2 ^ k"

definition ring_at :: "'a circular_array \<Rightarrow> nat \<Rightarrow> 'a" where
  "ring_at arr n = buffer_v arr ! (n mod length (buffer_v arr))"

named_theorems ring_rules

lemma ring_ok_new [ring_rules]: "k < 64 \<Longrightarrow> ring_ok k (new_array dflt (2 ^ k))"
  by (simp add: ring_ok_def new_array_def mask_eq_exp_minus_1 unat_exp)

lemma unat_capacity [ring_rules]: "ring_ok k arr \<Longrightarrow> unat (array_capacity arr) = 2 ^ k"
  by (simp add: ring_ok_def array_capacity_def unat_exp)

lemma capacity_double: "ring_ok k arr \<Longrightarrow> array_capacity arr * 2 = 2 ^ Suc k"
  by (simp add: ring_ok_def array_capacity_def)

lemma array_get_ring [ring_rules]:
  "ring_ok k arr \<Longrightarrow> array_get arr i = Some (ring_at arr (unat i))"
  by (simp add: ring_ok_def array_get_def ring_at_def unat_and_mask Let_def)

lemma array_put_ring:
  assumes "ring_ok k arr"
  obtains arr' where "array_put arr i x = Some arr'" "ring_ok k arr'"
    "\<And>n. n mod 2 ^ k = unat i mod 2 ^ k \<Longrightarrow> ring_at arr' n = x"
    "\<And>n. n mod 2 ^ k \<noteq> unat i mod 2 ^ k \<Longrightarrow> ring_at arr' n = ring_at arr n"
  using assms by (simp add: ring_ok_def array_put_def ring_at_def unat_and_mask Let_def)

text \<open>
  Copying: the new ring agrees with the old one on the positions copied so far, and the
  window fits the new ring, so no position overwrites another.
\<close>

lemma grow_loop_ring:
  assumes "ring_ok k arr" "ring_ok k' new_arr"
    and "unat i \<le> unat b" "lo \<le> unat i" "unat b \<le> lo + 2 ^ k'"
    and "\<forall>n. lo \<le> n \<and> n < unat i \<longrightarrow> ring_at new_arr n = ring_at arr n"
  shows "\<exists>res. grow_loop arr b i new_arr = Some res \<and> ring_ok k' res
    \<and> (\<forall>n. lo \<le> n \<and> n < unat b \<longrightarrow> ring_at res n = ring_at arr n)"
  using assms
proof (induction arr b i new_arr rule: grow_loop.induct)
  case (1 arr b i new_arr)
  show ?case
  proof (cases "i < b")
    case False
    with "1.prems" show ?thesis
      by (auto simp: grow_loop.simps [of arr b i] word_less_nat_alt)
  next
    case True
    then have nat_less: "unat i < unat b" by (simp add: word_less_nat_alt)
    obtain new' where put: "array_put new_arr i (ring_at arr (unat i)) = Some new'" "ring_ok k' new'"
        "\<And>n. n mod 2 ^ k' = unat i mod 2 ^ k' \<Longrightarrow> ring_at new' n = ring_at arr (unat i)"
        "\<And>n. n mod 2 ^ k' \<noteq> unat i mod 2 ^ k' \<Longrightarrow> ring_at new' n = ring_at new_arr n"
      using array_put_ring [OF "1.prems"(2)] by blast
    have agree: "\<forall>n. lo \<le> n \<and> n < unat (i + 1) \<longrightarrow> ring_at new' n = ring_at arr n"
    proof (intro allI impI)
      fix n assume n: "lo \<le> n \<and> n < unat (i + 1)"
      show "ring_at new' n = ring_at arr n"
      proof (cases "n = unat i")
        case False
        with n have "n < unat i" by (simp add: word_less_plus_one [OF True])
        moreover have "n mod 2 ^ k' \<noteq> unat i mod 2 ^ k'"
          using mod_window_inj [of n "2 ^ k'" "unat i" lo] False n calculation "1.prems"(4,5) nat_less
          by fastforce
        ultimately show ?thesis using put(4) "1.prems"(6) n by auto
      qed (simp add: put(3))
    qed
    have "\<exists>res. grow_loop arr b (i + 1) new' = Some res \<and> ring_ok k' res
        \<and> (\<forall>n. lo \<le> n \<and> n < unat b \<longrightarrow> ring_at res n = ring_at arr n)"
      by (rule "1.IH" [OF True array_get_ring [OF "1.prems"(1)] put(1) "1.prems"(1) put(2)])
        (use nat_less agree "1.prems" in \<open>auto simp: word_less_plus_one [OF True]\<close>)
    then show ?thesis
      using True put(1) by (simp add: grow_loop.simps [of arr b i] array_get_ring [OF "1.prems"(1)])
  qed
qed

lemma grow_ring:
  assumes "ring_ok k arr" "Suc k < 64" "unat t \<le> unat b" "unat b \<le> unat t + 2 ^ k"
  obtains res where "grow dflt arr b t = Some res" "ring_ok (Suc k) res"
    "\<And>n. unat t \<le> n \<Longrightarrow> n < unat b \<Longrightarrow> ring_at res n = ring_at arr n"
proof -
  have "ring_ok (Suc k) (new_array dflt (array_capacity arr * 2))"
    unfolding capacity_double [OF assms(1)] using assms(2) by (rule ring_ok_new)
  then have "\<exists>res. grow dflt arr b t = Some res \<and> ring_ok (Suc k) res
      \<and> (\<forall>n. unat t \<le> n \<and> n < unat b \<longrightarrow> ring_at res n = ring_at arr n)"
    unfolding grow_def using assms by (intro grow_loop_ring) auto
  then show ?thesis using that by blast
qed

section \<open>Contents and invariant\<close>

text \<open>The items from the top (the oldest) to the bottom (the newest).\<close>

definition contents :: "'a ws_deque \<Rightarrow> 'a list" where
  "contents q = map (ring_at (array_v q)) [unat (top_v q)..<unat (bottom_v q)]"

definition ws_inv :: "'a ws_deque \<Rightarrow> bool" where
  "ws_inv q \<longleftrightarrow> (\<exists>k. ring_ok k (array_v q) \<and> unat (top_v q) \<le> unat (bottom_v q)
     \<and> unat (bottom_v q) \<le> unat (top_v q) + 2 ^ k)"

text \<open>
  Pushes that are certain to meet neither a wrap of \<open>bottom_\<close> nor a capacity beyond
  \<open>2 ^ 63\<close>.
\<close>

definition push_budget :: "'a ws_deque \<Rightarrow> nat" where
  "push_budget q = 2 ^ 63 - unat (bottom_v q)"

lemma length_contents: "length (contents q) = unat (bottom_v q) - unat (top_v q)"
  by (simp add: contents_def)

lemma contents_Nil: "contents q = [] \<longleftrightarrow> bottom_v q \<le> top_v q"
  by (auto simp: contents_def word_le_nat_alt)

lemma new_deque_inv:
  "k < 64 \<Longrightarrow> ws_inv (new_deque dflt (2 ^ k)) \<and> contents (new_deque dflt (2 ^ k)) = []"
  using ring_ok_new [of k dflt] by (auto simp: ws_inv_def new_deque_def contents_def)

lemma full_iff:
  assumes "ring_ok k arr" "unat t \<le> unat b"
  shows "b - t > array_capacity arr - 1 \<longleftrightarrow> 2 ^ k \<le> unat b - unat t"
proof -
  have "array_capacity arr \<noteq> 0"
    using unat_capacity [OF assms(1)] by (metis power_not_zero unsigned_0 zero_neq_numeral)
  then have "unat (array_capacity arr - 1) = 2 ^ k - 1"
    by (simp add: unat_minus_one unat_capacity [OF assms(1)])
  then have "b - t > array_capacity arr - 1 \<longleftrightarrow> 2 ^ k - 1 < unat b - unat t"
    by (simp add: word_less_nat_alt unat_minus [OF assms(2)])
  moreover have "(0::nat) < 2 ^ k" by simp
  ultimately show ?thesis by linarith
qed

text \<open>The ring into which \<open>push\<close> writes: grown when the old one is full.\<close>

lemma grow_when_full:
  assumes "ring_ok k arr" "unat t \<le> unat b" "unat b \<le> unat t + 2 ^ k" "unat b < 2 ^ 63"
    and "2 ^ k \<le> unat b - unat t"
  obtains res where "grow dflt arr b t = Some res" "ring_ok (Suc k) res"
    "unat b < unat t + 2 ^ Suc k"
    "\<And>n. unat t \<le> n \<Longrightarrow> n < unat b \<Longrightarrow> ring_at res n = ring_at arr n"
proof -
  have "(2::nat) ^ k < 2 ^ 63" using assms(4,5) by linarith
  then have "k < 63" by (rule power_less_imp_less_exp [rotated]) simp
  then have k: "Suc k < 64" by simp
  have "unat b < unat t + 2 ^ Suc k" using assms(3) by (simp add: order_le_less_trans)
  then show ?thesis using grow_ring [OF assms(1) k assms(2,3), of dflt] that by blast
qed

lemma push_ring:
  assumes "ring_ok k arr" "unat t \<le> unat b" "unat b \<le> unat t + 2 ^ k" "unat b < 2 ^ 63"
  obtains res k' where
    "(if b - t > array_capacity arr - 1 then grow dflt arr b t else Some arr) = Some res"
    "ring_ok k' res" "unat b < unat t + 2 ^ k'"
    "\<And>n. unat t \<le> n \<Longrightarrow> n < unat b \<Longrightarrow> ring_at res n = ring_at arr n"
proof (cases "2 ^ k \<le> unat b - unat t")
  case True
  obtain res where "grow dflt arr b t = Some res" "ring_ok (Suc k) res"
    "unat b < unat t + 2 ^ Suc k"
    "\<And>n. unat t \<le> n \<Longrightarrow> n < unat b \<Longrightarrow> ring_at res n = ring_at arr n"
    by (rule grow_when_full [OF assms True, of dflt]) blast
  with that [of res "Suc k"] True full_iff [OF assms(1,2)] show ?thesis by simp
next
  case False
  with that [of arr k] assms full_iff [OF assms(1,2)] show ?thesis by simp
qed

text \<open>Writing at the bottom of a ring with room leaves the live positions alone.\<close>

lemma put_at_bottom:
  assumes "ring_ok k arr" "unat b < lo + 2 ^ k"
  obtains arr' where "array_put arr b x = Some arr'" "ring_ok k arr'" "ring_at arr' (unat b) = x"
    "\<And>n. lo \<le> n \<Longrightarrow> n < unat b \<Longrightarrow> ring_at arr' n = ring_at arr n"
proof -
  obtain arr' where arr': "array_put arr b x = Some arr'" "ring_ok k arr'"
      "\<And>n. n mod 2 ^ k = unat b mod 2 ^ k \<Longrightarrow> ring_at arr' n = x"
      "\<And>n. n mod 2 ^ k \<noteq> unat b mod 2 ^ k \<Longrightarrow> ring_at arr' n = ring_at arr n"
    using array_put_ring [OF assms(1)] by blast
  moreover have "ring_at arr' n = ring_at arr n" if n: "lo \<le> n" "n < unat b" for n
    using mod_window_inj_le [of n "2 ^ k" "unat b" lo] n assms(2) arr'(4) by auto
  ultimately show ?thesis using that by blast
qed

section \<open>Each operation against the list of contents\<close>

lemma push_contents:
  assumes "ws_inv q" "0 < push_budget q"
  shows "\<exists>q'. push dflt x q = Some q' \<and> ws_inv q' \<and> contents q' = contents q @ [x]
    \<and> push_budget q' = push_budget q - 1"
proof -
  let ?t = "unat (top_v q)" and ?b = "unat (bottom_v q)"
  obtain k where k: "ring_ok k (array_v q)" "?t \<le> ?b" "?b \<le> ?t + 2 ^ k"
    using assms(1) by (auto simp: ws_inv_def)
  have b: "?b < 2 ^ 63" using assms(2) by (simp add: push_budget_def)
  obtain arr k' where arr: "(if bottom_v q - top_v q > array_capacity (array_v q) - 1
        then grow dflt (array_v q) (bottom_v q) (top_v q) else Some (array_v q)) = Some arr"
      "ring_ok k' arr" "?b < ?t + 2 ^ k'"
      "\<And>n. ?t \<le> n \<Longrightarrow> n < ?b \<Longrightarrow> ring_at arr n = ring_at (array_v q) n"
    by (rule push_ring [OF k b, of dflt]) blast
  obtain arr' where arr': "array_put arr (bottom_v q) x = Some arr'" "ring_ok k' arr'"
      "ring_at arr' ?b = x" "\<And>n. ?t \<le> n \<Longrightarrow> n < ?b \<Longrightarrow> ring_at arr' n = ring_at arr n"
    by (rule put_at_bottom [OF arr(2,3)]) blast
  let ?q = "q\<lparr>array_v := arr', bottom_v := bottom_v q + 1\<rparr>"
  have b1: "unat (bottom_v q + 1) = Suc ?b" using b by (intro unat_plus_one) simp
  have "push dflt x q = Some ?q"
    unfolding push_def Let_def arr(1) by (simp add: arr'(1))
  moreover have "ws_inv ?q" using arr'(2) arr(3) k(2) b1 by (auto simp: ws_inv_def)
  moreover have "contents ?q = contents q @ [x]"
    using k(2) arr(4) arr'(3,4) by (simp add: contents_def b1)
  moreover have "push_budget ?q = push_budget q - 1" by (simp add: push_budget_def b1)
  ultimately show ?thesis by blast
qed

lemma pop_contents_empty:
  assumes "contents q = []"
  shows "pop q = Some (None, q)"
proof (cases "bottom_v q = 0")
  case False
  then have "unat (bottom_v q - 1) < unat (top_v q)"
    using assms by (simp add: contents_Nil unat_minus_one word_le_nat_alt)
      (metis False diff_Suc_less less_le_trans unat_gt_0)
  then have "\<not> top_v q \<le> bottom_v q - 1" by (simp add: word_le_nat_alt)
  with False show ?thesis by (simp add: pop_def Let_def)
qed (simp add: pop_def)

lemma pop_contents:
  assumes "ws_inv q" "contents q \<noteq> []"
  shows "\<exists>q'. pop q = Some (Some (last (contents q)), q') \<and> ws_inv q'
    \<and> contents q' = butlast (contents q) \<and> push_budget q \<le> push_budget q'"
proof -
  let ?t = "unat (top_v q)" and ?b = "unat (bottom_v q)"
  obtain k where k: "ring_ok k (array_v q)" "?t \<le> ?b" "?b \<le> ?t + 2 ^ k"
    using assms(1) by (auto simp: ws_inv_def)
  have less: "?t < ?b" using assms(2) by (simp add: contents_Nil word_less_nat_alt word_le_nat_alt)
  then have nz: "bottom_v q \<noteq> 0" by auto
  define b where "b = bottom_v q - 1"
  have ub: "unat b = ?b - 1" unfolding b_def using nz by (rule unat_minus_one)
  have b1: "b + 1 = bottom_v q" by (simp add: b_def)
  have tb: "top_v q \<le> b" using less ub by (simp add: word_le_nat_alt)
  have upt: "[?t..<?b] = [?t..<?b - 1] @ [?b - 1]"
    using less by (metis Suc_diff_1 le_Suc_eq less_imp_le_nat not_less_eq_eq upt_Suc_append
        less_nat_zero_code not_gr0 Suc_leI Suc_le_mono)
  have last: "last (contents q) = ring_at (array_v q) (unat b)"
    and butlast: "butlast (contents q) = map (ring_at (array_v q)) [?t..<?b - 1]"
    by (simp_all add: contents_def upt ub)
  let ?q = "if top_v q = b then q\<lparr>bottom_v := b + 1, top_v := top_v q + 1\<rparr> else q\<lparr>bottom_v := b\<rparr>"
  have "pop q = Some (Some (last (contents q)), ?q)"
    using nz tb by (simp add: pop_def Let_def b_def [symmetric] array_get_ring [OF k(1)] last)
  moreover have "ws_inv ?q \<and> contents ?q = butlast (contents q) \<and> push_budget q \<le> push_budget ?q"
  proof (cases "top_v q = b")
    case True
    then have "top_v q + 1 = bottom_v q" by (simp add: b1)
    with True k butlast ub show ?thesis by (auto simp: ws_inv_def contents_def push_budget_def b1)
  next
    case False
    with k tb butlast ub less show ?thesis
      by (auto simp: ws_inv_def contents_def push_budget_def word_le_nat_alt)
  qed
  ultimately show ?thesis by blast
qed

lemma steal_contents_empty: "contents q = [] \<Longrightarrow> steal q = Some (None, q)"
  by (auto simp: steal_def contents_Nil Let_def dest: leD)

lemma steal_contents:
  assumes "ws_inv q" "contents q \<noteq> []"
  shows "\<exists>q'. steal q = Some (Some (hd (contents q)), q') \<and> ws_inv q'
    \<and> contents q' = tl (contents q) \<and> push_budget q' = push_budget q"
proof -
  let ?t = "unat (top_v q)" and ?b = "unat (bottom_v q)"
  obtain k where k: "ring_ok k (array_v q)" "?t \<le> ?b" "?b \<le> ?t + 2 ^ k"
    using assms(1) by (auto simp: ws_inv_def)
  have less: "top_v q < bottom_v q" using assms(2) by (simp add: contents_Nil)
  then have ut: "unat (top_v q + 1) = Suc ?t" by (rule word_less_plus_one)
  have nless: "?t < ?b" using less by (simp add: word_less_nat_alt)
  let ?q = "q\<lparr>top_v := top_v q + 1\<rparr>"
  have "contents q = ring_at (array_v q) ?t # map (ring_at (array_v q)) [Suc ?t..<?b]"
    using nless by (simp add: contents_def upt_conv_Cons)
  moreover have "steal q = Some (Some (ring_at (array_v q) ?t), ?q)"
    using less by (simp add: steal_def Let_def array_get_ring [OF k(1)])
  moreover have "ws_inv ?q" "push_budget ?q = push_budget q"
    using k nless ut by (auto simp: ws_inv_def push_budget_def)
  ultimately show ?thesis by (simp add: contents_def ut)
qed

lemma deque_size_contents:
  assumes "ws_inv q"
  shows "unat (deque_size q) = length (contents q)" "deque_empty q \<longleftrightarrow> contents q = []"
  using assms by (auto simp: ws_inv_def deque_size_def deque_empty_def contents_Nil length_contents
      unat_minus word_less_nat_alt word_le_nat_alt Let_def)

section \<open>The interface to its clients\<close>

text \<open>
  Sequences of operations and what they return, over any implementation (\<open>None\<close>: undefined
  behaviour) and over the abstract deque, a list with the oldest item first.
\<close>

datatype 'a deque_op = Push 'a | Pop | Steal

fun deque_step ::
  "('a \<Rightarrow> 'q \<Rightarrow> 'q option) \<Rightarrow> ('q \<Rightarrow> ('a option \<times> 'q) option) \<Rightarrow>
   ('q \<Rightarrow> ('a option \<times> 'q) option) \<Rightarrow> 'a deque_op \<Rightarrow> 'q \<Rightarrow> ('a option \<times> 'q) option" where
  "deque_step psh pp stl (Push x) q = map_option (\<lambda>q'. (None, q')) (psh x q)"
| "deque_step psh pp stl Pop q = pp q"
| "deque_step psh pp stl Steal q = stl q"

fun deque_run ::
  "('a \<Rightarrow> 'q \<Rightarrow> 'q option) \<Rightarrow> ('q \<Rightarrow> ('a option \<times> 'q) option) \<Rightarrow>
   ('q \<Rightarrow> ('a option \<times> 'q) option) \<Rightarrow> 'a deque_op list \<Rightarrow> 'q \<Rightarrow>
   ('a option list \<times> 'q) option" where
  "deque_run psh pp stl [] q = Some ([], q)"
| "deque_run psh pp stl (p # ps) q =
     do { (r, q1) \<leftarrow> deque_step psh pp stl p q;
          (rs, q2) \<leftarrow> deque_run psh pp stl ps q1;
          Some (r # rs, q2) }"

fun spec_step :: "'a deque_op \<Rightarrow> 'a list \<Rightarrow> 'a option \<times> 'a list" where
  "spec_step (Push x) xs = (None, xs @ [x])"
| "spec_step Pop xs = (if xs = [] then (None, []) else (Some (last xs), butlast xs))"
| "spec_step Steal xs = (if xs = [] then (None, []) else (Some (hd xs), tl xs))"

fun spec_run :: "'a deque_op list \<Rightarrow> 'a list \<Rightarrow> 'a option list \<times> 'a list" where
  "spec_run [] xs = ([], xs)"
| "spec_run (p # ps) xs =
     (let (r, ys) = spec_step p xs; (rs, zs) = spec_run ps ys in (r # rs, zs))"

fun pushed :: "'a deque_op list \<Rightarrow> 'a list" where
  "pushed [] = []"
| "pushed (Push x # ps) = x # pushed ps"
| "pushed (_ # ps) = pushed ps"

definition taken :: "'a option list \<Rightarrow> 'a list" where
  "taken rs = map the (filter (\<lambda>r. r \<noteq> None) rs)"

lemma taken_simps [simp]: "taken [] = []" "taken (None # rs) = taken rs"
  "taken (Some x # rs) = x # taken rs"
  by (simp_all add: taken_def)

lemma spec_step_mset:
  "spec_step p xs = (r, ys) \<Longrightarrow>
   mset xs + mset (pushed [p]) = mset (taken [r]) + mset ys"
proof (cases p)
  case Pop
  moreover assume "spec_step p xs = (r, ys)"
  ultimately show ?thesis
    by (cases xs rule: rev_cases) auto
next
  case Steal
  moreover assume "spec_step p xs = (r, ys)"
  ultimately show ?thesis by (cases xs) auto
qed auto

lemma pushed_Cons: "pushed (p # ps) = pushed [p] @ pushed ps"
  by (cases p) auto

lemma taken_Cons: "taken (r # rs) = taken [r] @ taken rs"
  by (cases r) auto

lemma spec_run_mset:
  "spec_run ps xs = (rs, zs) \<Longrightarrow> mset xs + mset (pushed ps) = mset (taken rs) + mset zs"
proof (induction ps arbitrary: xs rs)
  case (Cons p ps)
  obtain r ys where r: "spec_step p xs = (r, ys)" by fastforce
  obtain rs' zs' where rs': "spec_run ps ys = (rs', zs')" by fastforce
  have "rs = r # rs'" "zs = zs'" using Cons.prems r rs' by auto
  moreover have "mset ys + mset (pushed ps) = mset (taken rs') + mset zs'"
    using Cons.IH [OF rs'[unfolded \<open>zs = zs'\<close>[symmetric]]] \<open>zs = zs'\<close> by simp
  ultimately show ?case
    using spec_step_mset [OF r] pushed_Cons [of p ps] taken_Cons [of r rs']
    by (simp add: ac_simps) (metis add.left_commute add.commute)
qed simp

text \<open>
  The contract of a work-stealing deque: every operation acts on the list of items as the
  abstract operation does, as long as the push budget lasts.
\<close>

locale work_stealing_deque =
  fixes inv :: "'q \<Rightarrow> bool"
    and items :: "'q \<Rightarrow> 'a list"
    and budget :: "'q \<Rightarrow> nat"
    and psh :: "'a \<Rightarrow> 'q \<Rightarrow> 'q option"
    and pp :: "'q \<Rightarrow> ('a option \<times> 'q) option"
    and stl :: "'q \<Rightarrow> ('a option \<times> 'q) option"
  assumes push_law: "inv q \<Longrightarrow> 0 < budget q \<Longrightarrow>
      \<exists>q'. psh x q = Some q' \<and> inv q' \<and> items q' = items q @ [x] \<and> budget q' = budget q - 1"
    and pop_law: "inv q \<Longrightarrow> items q \<noteq> [] \<Longrightarrow>
      \<exists>q'. pp q = Some (Some (last (items q)), q') \<and> inv q' \<and> items q' = butlast (items q)
        \<and> budget q \<le> budget q'"
    and pop_empty_law: "inv q \<Longrightarrow> items q = [] \<Longrightarrow> pp q = Some (None, q)"
    and steal_law: "inv q \<Longrightarrow> items q \<noteq> [] \<Longrightarrow>
      \<exists>q'. stl q = Some (Some (hd (items q)), q') \<and> inv q' \<and> items q' = tl (items q)
        \<and> budget q' = budget q"
    and steal_empty_law: "inv q \<Longrightarrow> items q = [] \<Longrightarrow> stl q = Some (None, q)"
begin

lemma step_refines:
  assumes "inv q" "length (pushed [p]) \<le> budget q"
  shows "\<exists>r q'. deque_step psh pp stl p q = Some (r, q') \<and> inv q'
    \<and> spec_step p (items q) = (r, items q') \<and> budget q \<le> length (pushed [p]) + budget q'"
proof (cases p)
  case (Push x)
  with push_law [OF assms(1), of x] assms(2) show ?thesis by auto
next
  case Pop
  with pop_law [OF assms(1)] pop_empty_law [OF assms(1)] assms(1) show ?thesis
    by (cases "items q = []") auto
next
  case Steal
  with steal_law [OF assms(1)] steal_empty_law [OF assms(1)] assms(1) show ?thesis
    by (cases "items q = []") auto
qed

lemma run_refines:
  assumes "inv q" "length (pushed ps) \<le> budget q"
  shows "\<exists>rs q'. deque_run psh pp stl ps q = Some (rs, q') \<and> inv q'
    \<and> spec_run ps (items q) = (rs, items q')"
  using assms
proof (induction ps arbitrary: q)
  case (Cons p ps)
  have len: "length (pushed [p]) + length (pushed ps) \<le> budget q"
    using Cons.prems(2) pushed_Cons [of p ps] by simp
  then obtain r q1 where q1: "deque_step psh pp stl p q = Some (r, q1)" "inv q1"
      "spec_step p (items q) = (r, items q1)" "budget q \<le> length (pushed [p]) + budget q1"
    using step_refines [OF Cons.prems(1), of p] by auto
  obtain rs q2 where "deque_run psh pp stl ps q1 = Some (rs, q2)" "inv q2"
      "spec_run ps (items q1) = (rs, items q2)"
    using Cons.IH [OF q1(2)] len q1(4) by fastforce
  with q1 show ?case by simp
qed simp

lemma run_conserves:
  assumes "inv q" "length (pushed ps) \<le> budget q" "deque_run psh pp stl ps q = Some (rs, q')"
  shows "mset (items q) + mset (pushed ps) = mset (taken rs) + mset (items q')"
  using run_refines [OF assms(1,2)] assms(3) by (auto dest: spec_run_mset)

end

interpretation ws: work_stealing_deque ws_inv contents push_budget "push dflt" pop steal
  for dflt
proof (unfold_locales, goal_cases)
  case (1 q x)
  then show ?case by (rule push_contents)
next
  case (2 q)
  then show ?case by (rule pop_contents)
next
  case (3 q)
  then show ?case by (intro pop_contents_empty)
next
  case (4 q)
  then show ?case by (rule steal_contents)
next
  case (5 q)
  then show ?case by (intro steal_contents_empty)
qed

section \<open>Properties\<close>

text \<open>
  C11. A deque made with a power-of-two capacity and used by one thread refines the list
  deque: for every sequence of fewer than \<open>2 ^ 63\<close> pushes, pops and steals no access leaves
  the ring, the results are those of the list (pops take the newest item, steals the
  oldest), and what is left are the items of the list.  This covers growth at any point.
\<close>

theorem deque_refines_list:
  assumes "k < 64" "length (pushed ps) \<le> 2 ^ 63"
  shows "\<exists>rs q. deque_run (push dflt) pop steal ps (new_deque dflt (2 ^ k)) = Some (rs, q)
    \<and> ws_inv q \<and> spec_run ps [] = (rs, contents q)"
proof -
  have "push_budget (new_deque dflt (2 ^ k)) = 2 ^ 63" by (simp add: push_budget_def new_deque_def)
  with ws.run_refines [of "new_deque dflt (2 ^ k)" ps dflt] new_deque_inv [OF assms(1), of dflt]
    assms(2) show ?thesis by auto
qed

text \<open>
  Every pushed item is handed out at most once and none is lost: the items pushed are,
  as a multiset, those returned by pops and steals together with those still held.
\<close>

theorem deque_conserves_items:
  assumes "ws_inv q" "length (pushed ps) \<le> push_budget q"
    "deque_run (push dflt) pop steal ps q = Some (rs, q')"
  shows "mset (contents q) + mset (pushed ps) = mset (taken rs) + mset (contents q')"
  using assms by (rule ws.run_conserves)

text \<open>
  Growing a full ring keeps every live item at its position: the new ring has twice
  the capacity and agrees with the old one on all positions from top to bottom.
\<close>

theorem grow_keeps_items:
  assumes "ring_ok k arr" "Suc k < 64" "unat t \<le> unat b" "unat b \<le> unat t + 2 ^ k"
  shows "\<exists>res. grow dflt arr b t = Some res \<and> ring_ok (Suc k) res
    \<and> (\<forall>n. unat t \<le> n \<and> n < unat b \<longrightarrow> ring_at res n = ring_at arr n)"
  by (rule grow_ring [OF assms, of dflt]) blast

section \<open>Witnesses\<close>

definition sample_ops :: "nat deque_op list" where
  "sample_ops = [Push 1, Push 2, Push 3, Steal, Pop, Pop, Pop, Push 4, Steal]"

theorem deque_refines_list_witness:
  "\<exists>rs q. deque_run (push 0) pop steal sample_ops (new_deque 0 (2 ^ 1)) = Some (rs, q)
    \<and> rs = [None, None, None, Some 1, Some 3, Some 2, None, None, Some 4] \<and> contents q = []"
proof -
  have spec: "spec_run sample_ops [] =
      ([None, None, None, Some 1, Some 3, Some 2, None, None, Some 4], [])"
    by (simp add: sample_ops_def)
  have "length (pushed sample_ops) \<le> 2 ^ 63" by (simp add: sample_ops_def)
  then obtain rs q where
    "deque_run (push 0) pop steal sample_ops (new_deque 0 (2 ^ 1)) = Some (rs, q)"
    "spec_run sample_ops [] = (rs, contents q)"
    using deque_refines_list [of 1 sample_ops 0] by auto
  with spec show ?thesis by simp
qed

theorem deque_conserves_items_witness:
  "\<exists>rs q. deque_run (push 0) pop steal [Push 5, Push 6, Steal] (new_deque 0 (2 ^ 1)) = Some (rs, q)
    \<and> mset [5, 6 :: nat] = mset (taken rs) + mset (contents q)"
proof -
  let ?q0 = "new_deque (0 :: nat) (2 ^ 1)" and ?ps = "[Push 5, Push 6, Steal]"
  have inv: "ws_inv ?q0" "contents ?q0 = []" using new_deque_inv [of 1 "0 :: nat"] by auto
  have len: "length (pushed ?ps) \<le> push_budget ?q0" by (simp add: push_budget_def new_deque_def)
  obtain rs q where run: "deque_run (push 0) pop steal ?ps ?q0 = Some (rs, q)"
    using ws.run_refines [OF inv(1) len, of 0] by blast
  with deque_conserves_items [OF inv(1) len run] inv(2) show ?thesis by auto
qed

theorem grow_keeps_items_witness:
  "\<exists>res. grow 0 \<lparr>mask_v = 1, buffer_v = [7, 8 :: nat]\<rparr> 3 1 = Some res
    \<and> ring_at res 1 = 8 \<and> ring_at res 2 = 7"
proof -
  have "ring_ok 1 \<lparr>mask_v = 1, buffer_v = [7, 8 :: nat]\<rparr>" by (simp add: ring_ok_def mask_Suc_0)
  then obtain res where res: "grow 0 \<lparr>mask_v = 1, buffer_v = [7, 8 :: nat]\<rparr> 3 1 = Some res"
    "\<forall>n. 1 \<le> n \<and> n < 3 \<longrightarrow> ring_at res n = ring_at \<lparr>mask_v = 1, buffer_v = [7, 8 :: nat]\<rparr> n"
    using grow_keeps_items [of 1 _ 1 3 0] by force
  have "ring_at \<lparr>mask_v = 1, buffer_v = [7, 8 :: nat]\<rparr> 1 = 8"
    "ring_at \<lparr>mask_v = 1, buffer_v = [7, 8 :: nat]\<rparr> 2 = 7"
    by (simp_all add: ring_at_def numeral_2_eq_2)
  with res(2) [rule_format, of 1] res(2) [rule_format, of 2] res(1) show ?thesis by auto
qed

end
