(* ===== verification/WsDequeConc.thy ===== *)
theory WsDequeConc
  imports WsDeque
begin

text \<open>
  \<open>ws_deque\<close> shared by its owner and any number of thieves: the atomic accesses of
  \<open>push\<close>, \<open>pop\<close> and \<open>steal\<close>, interleaved in any order (sequentially consistent, which is
  what the code's fences ask of the hardware at the points that matter).  The owner is the
  only writer of \<open>bottom_\<close>, \<open>array_\<close> and the rings, so its own loads of them are taken
  together with its next access to \<open>top_\<close>.
\<close>

section \<open>Shared memory and program counters\<close>

text \<open>
  \<open>s_heap\<close> holds every ring ever allocated (\<open>grow\<close> never frees the old one) and \<open>s_array\<close>
  is the pointer \<open>array_\<close>, an index into it.
\<close>

record 'a shared =
  s_top :: u64
  s_bottom :: u64
  s_heap :: "'a circular_array list"
  s_array :: nat

datatype 'a owner_pc =
    O_Idle "'a option"
  | Push_Load 'a
  | Push_Grow 'a u64 u64 nat
  | Push_Put 'a u64 nat
  | Push_Store 'a u64
  | Pop_Load
  | Pop_Store u64 nat
  | Pop_Top u64 nat
  | Pop_Item u64 nat u64
  | Pop_Cas u64 u64 'a
  | Pop_Restore u64 "'a option"

datatype 'a thief_pc =
    T_Idle "'a option"
  | T_Top
  | T_Bottom u64
  | T_Array u64
  | T_Read u64 nat
  | T_Cas u64 'a

text \<open>
  What a step does to the books: an item becomes available, or an item is handed out.
\<close>

datatype 'a effect = Silent | Given 'a | Got 'a

section \<open>The owner\<close>

fun owner_step ::
  "'a \<Rightarrow> 'a shared \<Rightarrow> 'a owner_pc \<Rightarrow> ('a shared \<times> 'a owner_pc \<times> 'a effect) option" where
  "owner_step dflt m (O_Idle r) = None"
| "owner_step dflt m (Push_Load x) =
     Some (m, Push_Grow x (s_bottom m) (s_top m) (s_array m), Silent)"
| "owner_step dflt m (Push_Grow x b t a) =
     (if b - t > array_capacity (s_heap m ! a) - 1
      then do { arr \<leftarrow> grow dflt (s_heap m ! a) b t;
                Some (m\<lparr>s_heap := s_heap m @ [arr], s_array := length (s_heap m)\<rparr>,
                      Push_Put x b (length (s_heap m)), Silent) }
      else Some (m, Push_Put x b a, Silent))"
| "owner_step dflt m (Push_Put x b a) =
     do { arr \<leftarrow> array_put (s_heap m ! a) b x;
          Some (m\<lparr>s_heap := (s_heap m)[a := arr]\<rparr>, Push_Store x b, Silent) }"
| "owner_step dflt m (Push_Store x b) = Some (m\<lparr>s_bottom := b + 1\<rparr>, O_Idle None, Given x)"
| "owner_step dflt m Pop_Load =
     (if s_bottom m = 0 then Some (m, O_Idle None, Silent)
      else Some (m, Pop_Store (s_bottom m - 1) (s_array m), Silent))"
| "owner_step dflt m (Pop_Store b a) = Some (m\<lparr>s_bottom := b\<rparr>, Pop_Top b a, Silent)"
| "owner_step dflt m (Pop_Top b a) = Some (m, Pop_Item b a (s_top m), Silent)"
| "owner_step dflt m (Pop_Item b a t) =
     (if t \<le> b
      then do { item \<leftarrow> array_get (s_heap m ! a) b;
                if t = b then Some (m, Pop_Cas b t item, Silent)
                else Some (m, O_Idle (Some item), Got item) }
      else Some (m, Pop_Restore b None, Silent))"
| "owner_step dflt m (Pop_Cas b t item) =
     (if s_top m = t then Some (m\<lparr>s_top := t + 1\<rparr>, Pop_Restore b (Some item), Got item)
      else Some (m, Pop_Restore b None, Silent))"
| "owner_step dflt m (Pop_Restore b r) = Some (m\<lparr>s_bottom := b + 1\<rparr>, O_Idle r, Silent)"

section \<open>A thief\<close>

fun thief_step ::
  "'a shared \<Rightarrow> 'a thief_pc \<Rightarrow> ('a shared \<times> 'a thief_pc \<times> 'a effect) option" where
  "thief_step m (T_Idle r) = None"
| "thief_step m T_Top = Some (m, T_Bottom (s_top m), Silent)"
| "thief_step m (T_Bottom t) =
     Some (m, if t < s_bottom m then T_Array t else T_Idle None, Silent)"
| "thief_step m (T_Array t) = Some (m, T_Read t (s_array m), Silent)"
| "thief_step m (T_Read t a) =
     do { item \<leftarrow> array_get (s_heap m ! a) t; Some (m, T_Cas t item, Silent) }"
| "thief_step m (T_Cas t item) =
     (if s_top m = t then Some (m\<lparr>s_top := t + 1\<rparr>, T_Idle (Some item), Got item)
      else Some (m, T_Idle None, Silent))"

section \<open>The system\<close>

text \<open>
  The books: \<open>given\<close> are the items whose push has completed, \<open>got\<close> the items handed out.
\<close>

record 'a ws_sys =
  mem :: "'a shared"
  owner :: "'a owner_pc"
  thieves :: "'a thief_pc list"
  given :: "'a list"
  got :: "'a list"

fun book :: "'a effect \<Rightarrow> 'a ws_sys \<Rightarrow> 'a ws_sys" where
  "book Silent s = s"
| "book (Given x) s = s\<lparr>given := x # given s\<rparr>"
| "book (Got x) s = s\<lparr>got := x # got s\<rparr>"

text \<open>
  The owner starts a push only below \<open>2 ^ 63\<close> (about nine quintillion pushes), so that
  neither \<open>bottom_\<close> nor the capacity wraps.
\<close>

inductive ws_step :: "'a \<Rightarrow> 'a ws_sys \<Rightarrow> 'a ws_sys \<Rightarrow> bool" for dflt where
  call_push:
    "owner s = O_Idle r \<Longrightarrow> unat (s_bottom (mem s)) < 2 ^ 63 \<Longrightarrow>
     ws_step dflt s (s\<lparr>owner := Push_Load x\<rparr>)"
| call_pop: "owner s = O_Idle r \<Longrightarrow> ws_step dflt s (s\<lparr>owner := Pop_Load\<rparr>)"
| owner_move:
    "owner_step dflt (mem s) (owner s) = Some (m', pc', e) \<Longrightarrow>
     ws_step dflt s (book e (s\<lparr>mem := m', owner := pc'\<rparr>))"
| call_steal:
    "i < length (thieves s) \<Longrightarrow> thieves s ! i = T_Idle r \<Longrightarrow>
     ws_step dflt s (s\<lparr>thieves := (thieves s)[i := T_Top]\<rparr>)"
| thief_move:
    "i < length (thieves s) \<Longrightarrow> thief_step (mem s) (thieves s ! i) = Some (m', pc', e) \<Longrightarrow>
     ws_step dflt s (book e (s\<lparr>mem := m', thieves := (thieves s)[i := pc']\<rparr>))"

definition ws_init :: "'a \<Rightarrow> u64 \<Rightarrow> nat \<Rightarrow> 'a ws_sys" where
  "ws_init dflt capacity n =
     \<lparr>mem = \<lparr>s_top = 0, s_bottom = 0, s_heap = [new_array dflt capacity], s_array = 0\<rparr>,
      owner = O_Idle None, thieves = replicate n (T_Idle None), given = [], got = []\<rparr>"

inductive ws_reach :: "'a \<Rightarrow> u64 \<Rightarrow> nat \<Rightarrow> 'a ws_sys \<Rightarrow> bool" for dflt capacity n where
  start: "ws_reach dflt capacity n (ws_init dflt capacity n)"
| step: "ws_reach dflt capacity n s \<Longrightarrow> ws_step dflt s t \<Longrightarrow> ws_reach dflt capacity n t"

section \<open>The invariant\<close>

text \<open>
  The position after the newest live item: while a pop has lowered \<open>bottom_\<close> and not yet
  decided, the item it is after is still live.
\<close>

fun logical_bottom :: "'a owner_pc \<Rightarrow> u64 \<Rightarrow> nat" where
  "logical_bottom (Pop_Top b a) bo = Suc (unat b)"
| "logical_bottom (Pop_Item b a t) bo = Suc (unat b)"
| "logical_bottom (Pop_Cas b t x) bo = Suc (unat b)"
| "logical_bottom (Pop_Restore b r) bo = Suc (unat b)"
| "logical_bottom _ bo = unat bo"

text \<open>
  The position below which a thief may still win: once the owner has seen \<open>t < b\<close>, the item
  at \<open>b\<close> is its own.
\<close>

fun steal_limit :: "'a owner_pc \<Rightarrow> u64 \<Rightarrow> nat" where
  "steal_limit (Pop_Item b a t) bo = (if t < b then unat b else Suc (unat b))"
| "steal_limit pc bo = logical_bottom pc bo"

abbreviation ring :: "'a shared \<Rightarrow> 'a circular_array" where
  "ring m \<equiv> s_heap m ! s_array m"

definition live :: "'a shared \<Rightarrow> nat \<Rightarrow> 'a list" where
  "live m e = map (ring_at (ring m)) [unat (s_top m)..<e]"

fun owner_ok :: "'a shared \<Rightarrow> nat \<Rightarrow> 'a owner_pc \<Rightarrow> bool" where
  "owner_ok m k (O_Idle r) = True"
| "owner_ok m k (Push_Load x) = (unat (s_bottom m) < 2 ^ 63)"
| "owner_ok m k (Push_Grow x b t a) =
     (unat b < 2 ^ 63 \<and> b = s_bottom m \<and> unat t \<le> unat (s_top m) \<and> unat b \<le> unat t + 2 ^ k
      \<and> a = s_array m)"
| "owner_ok m k (Push_Put x b a) =
     (unat b < 2 ^ 63 \<and> b = s_bottom m \<and> unat b < unat (s_top m) + 2 ^ k \<and> a = s_array m)"
| "owner_ok m k (Push_Store x b) =
     (unat b < 2 ^ 63 \<and> b = s_bottom m \<and> unat b < unat (s_top m) + 2 ^ k
      \<and> ring_at (ring m) (unat b) = x)"
| "owner_ok m k Pop_Load = True"
| "owner_ok m k (Pop_Store b a) = (s_bottom m \<noteq> 0 \<and> b = s_bottom m - 1 \<and> a = s_array m)"
| "owner_ok m k (Pop_Top b a) = (s_bottom m = b \<and> a = s_array m)"
| "owner_ok m k (Pop_Item b a t) =
     (s_bottom m = b \<and> a = s_array m \<and> unat t \<le> unat (s_top m)
      \<and> (t < b \<longrightarrow> unat (s_top m) \<le> unat b))"
| "owner_ok m k (Pop_Cas b t x) =
     (s_bottom m = b \<and> t = b \<and> unat b \<le> unat (s_top m) \<and> ring_at (ring m) (unat b) = x)"
| "owner_ok m k (Pop_Restore b r) = (s_bottom m = b \<and> unat (s_top m) = Suc (unat b))"

text \<open>
  A thief that has passed its bounds check and could still win holds a live position, and
  the ring (the item) it has read is what the current ring holds there.
\<close>

fun thief_ok :: "'a shared \<Rightarrow> nat \<Rightarrow> 'a thief_pc \<Rightarrow> bool" where
  "thief_ok m lim (T_Idle r) = True"
| "thief_ok m lim T_Top = True"
| "thief_ok m lim (T_Bottom t) = (unat t \<le> unat (s_top m))"
| "thief_ok m lim (T_Array t) =
     (unat t \<le> unat (s_top m) \<and> (t = s_top m \<longrightarrow> unat t < lim))"
| "thief_ok m lim (T_Read t a) =
     (unat t \<le> unat (s_top m) \<and> a < length (s_heap m)
      \<and> (t = s_top m \<longrightarrow> unat t < lim
           \<and> ring_at (s_heap m ! a) (unat t) = ring_at (ring m) (unat t)))"
| "thief_ok m lim (T_Cas t x) =
     (unat t \<le> unat (s_top m)
      \<and> (t = s_top m \<longrightarrow> unat t < lim \<and> x = ring_at (ring m) (unat t)))"

definition mem_ok :: "'a shared \<Rightarrow> nat \<Rightarrow> nat \<Rightarrow> bool" where
  "mem_ok m k e \<longleftrightarrow> s_array m < length (s_heap m) \<and> ring_ok k (ring m)
     \<and> (\<forall>arr \<in> set (s_heap m). \<exists>j. ring_ok j arr)
     \<and> unat (s_top m) \<le> e \<and> e \<le> unat (s_top m) + 2 ^ k \<and> e \<le> 2 ^ 63"

text \<open>
  The invariant of a memory, an owner, the thieves and the books, for rings of capacity
  \<open>2 ^ k\<close>.
\<close>

definition ws_core ::
  "nat \<Rightarrow> 'a shared \<Rightarrow> 'a owner_pc \<Rightarrow> 'a thief_pc set \<Rightarrow> 'a multiset \<Rightarrow> 'a multiset \<Rightarrow> bool" where
  "ws_core k m pc ths gv gt \<longleftrightarrow>
     mem_ok m k (logical_bottom pc (s_bottom m)) \<and> owner_ok m k pc
     \<and> (\<forall>th \<in> ths. thief_ok m (steal_limit pc (s_bottom m)) th)
     \<and> gv = gt + mset (live m (logical_bottom pc (s_bottom m)))"

definition ws_sys_inv :: "'a ws_sys \<Rightarrow> bool" where
  "ws_sys_inv s \<longleftrightarrow> (\<exists>k. ws_core k (mem s) (owner s) (set (thieves s))
                          (mset (given s)) (mset (got s)))"

section \<open>Preservation by the owner\<close>

lemma thief_ok_mono:
  assumes "thief_ok m lim th" "lim \<le> lim'"
  shows "thief_ok m lim' th"
  using assms by (cases th) auto

text \<open>
  A change of the memory that the thieves do not notice: \<open>top_\<close> stays, rings only change
  above the limit, and old ring pointers stay valid.
\<close>

lemma thief_ok_heap:
  assumes "thief_ok m lim th" "s_top m' = s_top m" "length (s_heap m) \<le> length (s_heap m')"
    and "\<And>n. unat (s_top m) \<le> n \<Longrightarrow> n < lim \<Longrightarrow> ring_at (ring m') n = ring_at (ring m) n"
    and "\<And>a n. a < length (s_heap m) \<Longrightarrow> unat (s_top m) \<le> n \<Longrightarrow> n < lim \<Longrightarrow>
           ring_at (s_heap m' ! a) n = ring_at (s_heap m ! a) n"
  shows "thief_ok m' lim th"
  using assms by (cases th) auto

lemma owner_push_grow:
  assumes "ws_core k m (Push_Grow x b t a) ths gv gt"
    "owner_step dflt m (Push_Grow x b t a) = Some (m', pc', e)"
  shows "\<exists>k. ws_core k m' pc' ths gv gt \<and> e = Silent"
proof -
  have mem: "s_array m < length (s_heap m)" "ring_ok k (ring m)"
      "\<forall>arr \<in> set (s_heap m). \<exists>j. ring_ok j arr" "unat (s_top m) \<le> unat b"
      "unat b \<le> unat (s_top m) + 2 ^ k" "unat b \<le> 2 ^ 63"
    and own: "unat b < 2 ^ 63" "b = s_bottom m" "unat t \<le> unat (s_top m)"
      "unat b \<le> unat t + 2 ^ k" "a = s_array m"
    and ths: "\<forall>th \<in> ths. thief_ok m (unat b) th"
    and books: "gv = gt + mset (live m (unat b))"
    using assms(1) by (auto simp: ws_core_def mem_ok_def)
  have tb: "unat t \<le> unat b" using mem(4) own(3) by linarith
  show ?thesis
  proof (cases "2 ^ k \<le> unat b - unat t")
    case False
    then have "unat b < unat (s_top m) + 2 ^ k" using own(3) tb by linarith
    moreover have "m' = m" "pc' = Push_Put x b a" "e = Silent"
      using assms(2) False full_iff [OF mem(2) tb] own(5) by auto
    ultimately show ?thesis using mem own ths books by (auto simp: ws_core_def mem_ok_def)
  next
    case True
    obtain res where res: "grow dflt (ring m) b t = Some res" "ring_ok (Suc k) res"
        "unat b < unat t + 2 ^ Suc k"
        "\<And>n. unat t \<le> n \<Longrightarrow> n < unat b \<Longrightarrow> ring_at res n = ring_at (ring m) n"
      by (rule grow_when_full [OF mem(2) tb own(4,1) True, of dflt]) blast
    let ?m = "m\<lparr>s_heap := s_heap m @ [res], s_array := length (s_heap m)\<rparr>"
    have m': "m' = ?m" "pc' = Push_Put x b (length (s_heap m))" "e = Silent"
      using assms(2) True full_iff [OF mem(2) tb] own(5) res(1) by auto
    have agree: "ring_at (ring ?m) n = ring_at (ring m) n" if "unat (s_top m) \<le> n" "n < unat b" for n
      using res(4) that own(3) by simp
    have "\<forall>th \<in> ths. thief_ok ?m (unat b) th"
      using ths agree by (auto intro!: thief_ok_heap [of m "unat b" _ ?m] simp: nth_append)
    moreover have "live ?m (unat b) = live m (unat b)"
      using agree by (simp add: live_def)
    moreover have "mem_ok ?m (Suc k) (unat b)"
      using mem res(2,3) own(3) by (auto simp: mem_ok_def)
    ultimately have "ws_core (Suc k) ?m (Push_Put x b (length (s_heap m))) ths gv gt"
      using res(3) own books by (simp add: ws_core_def)
    then show ?thesis unfolding m' by blast
  qed
qed

lemma owner_push_put:
  assumes "ws_core k m (Push_Put x b a) ths gv gt"
    "owner_step dflt m (Push_Put x b a) = Some (m', pc', e)"
  shows "ws_core k m' pc' ths gv gt \<and> e = Silent"
proof -
  have mem: "s_array m < length (s_heap m)" "ring_ok k (ring m)"
      "\<forall>arr \<in> set (s_heap m). \<exists>j. ring_ok j arr" "unat (s_top m) \<le> unat b"
      "unat b \<le> unat (s_top m) + 2 ^ k" "unat b \<le> 2 ^ 63"
    and own: "unat b < 2 ^ 63" "b = s_bottom m" "unat b < unat (s_top m) + 2 ^ k" "a = s_array m"
    and ths: "\<forall>th \<in> ths. thief_ok m (unat b) th"
    and books: "gv = gt + mset (live m (unat b))"
    using assms(1) by (auto simp: ws_core_def mem_ok_def)
  obtain arr where arr: "array_put (ring m) b x = Some arr" "ring_ok k arr"
      "ring_at arr (unat b) = x"
      "\<And>n. unat (s_top m) \<le> n \<Longrightarrow> n < unat b \<Longrightarrow> ring_at arr n = ring_at (ring m) n"
    by (rule put_at_bottom [OF mem(2) own(3), of x]) blast
  let ?m = "m\<lparr>s_heap := (s_heap m)[a := arr]\<rparr>"
  have m': "m' = ?m" "pc' = Push_Store x b" "e = Silent"
    using assms(2) arr(1) own(4) by auto
  have ring: "ring ?m = arr" using mem(1) own(4) by simp
  have "thief_ok ?m (unat b) th" if "th \<in> ths" for th
    by (rule thief_ok_heap [OF bspec [OF ths that]])
      (use arr(4) own(4) mem(1) in \<open>auto simp: nth_list_update\<close>)
  moreover have "live ?m (unat b) = live m (unat b)"
    using arr(4) ring by (simp add: live_def)
  moreover have "mem_ok ?m k (unat b)"
    using mem arr(2) ring set_update_subset_insert [of "s_heap m" a arr] by (auto simp: mem_ok_def)
  ultimately show ?thesis
    using arr(3) own books ring unfolding m' by (simp add: ws_core_def)
qed

lemma owner_push_store:
  assumes "ws_core k m (Push_Store x b) ths gv gt"
    "owner_step dflt m (Push_Store x b) = Some (m', pc', e)"
  shows "ws_core k m' pc' ths (add_mset x gv) gt \<and> e = Given x"
proof -
  have mem: "mem_ok m k (unat b)" "unat (s_top m) \<le> unat b"
    and own: "unat b < 2 ^ 63" "b = s_bottom m" "unat b < unat (s_top m) + 2 ^ k"
      "ring_at (ring m) (unat b) = x"
    and ths: "\<forall>th \<in> ths. thief_ok m (unat b) th"
    and books: "gv = gt + mset (live m (unat b))"
    using assms(1) by (auto simp: ws_core_def mem_ok_def)
  have b1: "unat (b + 1) = Suc (unat b)" using own(1) by (intro unat_plus_one) simp
  have "thief_ok (m\<lparr>s_bottom := b + 1\<rparr>) (unat b) th" if "th \<in> ths" for th
    by (rule thief_ok_heap [OF bspec [OF ths that]]) auto
  then have "\<forall>th \<in> ths. thief_ok (m\<lparr>s_bottom := b + 1\<rparr>) (Suc (unat b)) th"
    by (meson le_SucI order_refl thief_ok_mono)
  moreover have "live (m\<lparr>s_bottom := b + 1\<rparr>) (Suc (unat b)) = live m (unat b) @ [x]"
    using mem(2) own(4) by (simp add: live_def)
  ultimately show ?thesis
    using assms(2) mem(1) own books b1 by (auto simp: ws_core_def mem_ok_def)
qed

lemma owner_pop_load:
  assumes "ws_core k m Pop_Load ths gv gt" "owner_step dflt m Pop_Load = Some (m', pc', e)"
  shows "ws_core k m' pc' ths gv gt \<and> e = Silent"
  using assms by (auto simp: ws_core_def split: if_splits)

lemma owner_pop_store:
  assumes "ws_core k m (Pop_Store b a) ths gv gt"
    "owner_step dflt m (Pop_Store b a) = Some (m', pc', e)"
  shows "ws_core k m' pc' ths gv gt \<and> e = Silent"
proof -
  have own: "s_bottom m \<noteq> 0" "b = s_bottom m - 1" "a = s_array m"
    and ths: "\<forall>th \<in> ths. thief_ok m (unat (s_bottom m)) th"
    using assms(1) by (auto simp: ws_core_def)
  have b: "Suc (unat b) = unat (s_bottom m)"
    using own(1) unfolding own(2) by (simp add: unat_minus_one unat_gt_0)
  have "thief_ok (m\<lparr>s_bottom := b\<rparr>) (unat (s_bottom m)) th" if "th \<in> ths" for th
    by (rule thief_ok_heap [OF bspec [OF ths that]]) auto
  with assms own(3) b show ?thesis by (auto simp: ws_core_def mem_ok_def live_def)
qed

lemma thief_ok_top_limit:
  assumes "thief_ok m lim th" "unat (s_top m) < lim'"
  shows "thief_ok m lim' th"
  using assms by (cases th) auto

lemma owner_pop_top:
  assumes "ws_core k m (Pop_Top b a) ths gv gt"
    "owner_step dflt m (Pop_Top b a) = Some (m', pc', e)"
  shows "ws_core k m' pc' ths gv gt \<and> e = Silent"
proof -
  have "m' = m" "pc' = Pop_Item b a (s_top m)" "e = Silent" using assms(2) by auto
  moreover have "thief_ok m (unat b) th" if "th \<in> ths" "s_top m < b" for th
    using assms(1) that
    by (auto simp: ws_core_def word_less_nat_alt intro: thief_ok_top_limit)
  ultimately show ?thesis using assms(1) by (auto simp: ws_core_def word_less_nat_alt)
qed

lemma live_split_last:
  "unat (s_top m) \<le> e \<Longrightarrow> live m (Suc e) = live m e @ [ring_at (ring m) e]"
  by (simp add: live_def)

lemma live_split_first:
  "unat (s_top m) < e \<Longrightarrow>
   live m e = ring_at (ring m) (unat (s_top m)) # map (ring_at (ring m)) [Suc (unat (s_top m))..<e]"
  by (simp add: live_def upt_conv_Cons)

lemma owner_pop_item:
  assumes "ws_core k m (Pop_Item b a t) ths gv gt"
    "owner_step dflt m (Pop_Item b a t) = Some (m', pc', e)"
  shows "m' = m \<and> ((e = Silent \<and> ws_core k m pc' ths gv gt)
    \<or> (\<exists>x. e = Got x \<and> ws_core k m pc' ths gv (add_mset x gt)))"
proof -
  have mem: "mem_ok m k (Suc (unat b))" "ring_ok k (ring m)" "unat (s_top m) \<le> Suc (unat b)"
    and own: "s_bottom m = b" "a = s_array m" "unat t \<le> unat (s_top m)"
      "t < b \<Longrightarrow> unat (s_top m) \<le> unat b"
    and ths: "\<forall>th \<in> ths. thief_ok m (if t < b then unat b else Suc (unat b)) th"
    and books: "gv = gt + mset (live m (Suc (unat b)))"
    using assms(1) by (auto simp: ws_core_def mem_ok_def)
  have get: "array_get (s_heap m ! a) b = Some (ring_at (ring m) (unat b))"
    using array_get_ring [OF mem(2)] own(2) by simp
  consider (take) "t < b" | (final) "t = b" | (none) "b < t" by fastforce
  then show ?thesis
  proof cases
    case take
    have "live m (Suc (unat b)) = live m (unat b) @ [ring_at (ring m) (unat b)]"
      by (rule live_split_last [OF own(4) [OF take]])
    moreover have "m' = m" "pc' = O_Idle (Some (ring_at (ring m) (unat b)))"
        "e = Got (ring_at (ring m) (unat b))"
      using assms(2) less_imp_le [OF take] less_imp_neq [OF take] get by auto
    ultimately show ?thesis
      using mem(1) own ths books take by (auto simp: ws_core_def mem_ok_def)
  next
    case final
    then have "m' = m" "pc' = Pop_Cas b t (ring_at (ring m) (unat b))" "e = Silent"
      using assms(2) get by auto
    with final mem(1) own ths books show ?thesis by (auto simp: ws_core_def)
  next
    case none
    then have "m' = m" "pc' = Pop_Restore b None" "e = Silent"
      using assms(2) not_le [THEN iffD2, OF none] by auto
    moreover have "unat (s_top m) = Suc (unat b)"
      using none own(3) mem(3) by (simp add: word_less_nat_alt)
    moreover have "\<not> t < b" using none by simp
    ultimately show ?thesis using mem(1) own ths books by (auto simp: ws_core_def)
  qed
qed

lemma owner_pop_cas:
  assumes "ws_core k m (Pop_Cas b t x) ths gv gt"
    "owner_step dflt m (Pop_Cas b t x) = Some (m', pc', e)"
  shows "(e = Silent \<and> ws_core k m' pc' ths gv gt)
    \<or> (e = Got x \<and> ws_core k m' pc' ths gv (add_mset x gt))"
proof -
  have mem: "mem_ok m k (Suc (unat b))" "unat (s_top m) \<le> Suc (unat b)" "Suc (unat b) \<le> 2 ^ 63"
    and own: "s_bottom m = b" "t = b" "unat b \<le> unat (s_top m)" "ring_at (ring m) (unat b) = x"
    and ths: "\<forall>th \<in> ths. thief_ok m (Suc (unat b)) th"
    and books: "gv = gt + mset (live m (Suc (unat b)))"
    using assms(1) by (auto simp: ws_core_def mem_ok_def)
  show ?thesis
  proof (cases "s_top m = t")
    case True
    let ?m = "m\<lparr>s_top := t + 1\<rparr>"
    have m': "m' = ?m" "pc' = Pop_Restore b (Some x)" "e = Got x" using assms(2) True by auto
    have t1: "unat (t + 1) = Suc (unat b)" using mem(3) own(2) by (simp add: unat_plus_one)
    have "thief_ok ?m (Suc (unat b)) th" if "th \<in> ths" for th
      using bspec [OF ths that] True own(2) t1 by (cases th) auto
    moreover have "live m (Suc (unat b)) = [x]" "live ?m (Suc (unat b)) = []"
      using True own t1 by (auto simp: live_def)
    ultimately show ?thesis
      using mem(1) own books t1 unfolding m' by (auto simp: ws_core_def mem_ok_def)
  next
    case False
    then have "m' = m" "pc' = Pop_Restore b None" "e = Silent" using assms(2) by auto
    moreover have "unat (s_top m) = Suc (unat b)"
      using False own(2,3) mem(2) by (metis le_SucE le_antisym word_unat_eq_iff)
    ultimately show ?thesis using mem(1) own ths books by (auto simp: ws_core_def)
  qed
qed

lemma owner_pop_restore:
  assumes "ws_core k m (Pop_Restore b r) ths gv gt"
    "owner_step dflt m (Pop_Restore b r) = Some (m', pc', e)"
  shows "ws_core k m' pc' ths gv gt \<and> e = Silent"
proof -
  have mem: "mem_ok m k (Suc (unat b))" "Suc (unat b) \<le> 2 ^ 63"
    and ths: "\<forall>th \<in> ths. thief_ok m (Suc (unat b)) th"
    using assms(1) by (auto simp: ws_core_def mem_ok_def)
  have b1: "unat (b + 1) = Suc (unat b)" using mem(2) by (simp add: unat_plus_one)
  have "thief_ok (m\<lparr>s_bottom := b + 1\<rparr>) (Suc (unat b)) th" if "th \<in> ths" for th
    by (rule thief_ok_heap [OF bspec [OF ths that]]) auto
  with assms b1 show ?thesis by (auto simp: ws_core_def mem_ok_def live_def)
qed

text \<open>
  The owner's steps: the invariant is kept, and a completed push or a successful pop is
  booked.
\<close>

lemma owner_step_core:
  assumes "ws_core k m pc ths gv gt" "owner_step dflt m pc = Some (m', pc', e)"
  shows "\<exists>k. case e of Silent \<Rightarrow> ws_core k m' pc' ths gv gt
    | Given x \<Rightarrow> ws_core k m' pc' ths (add_mset x gv) gt
    | Got x \<Rightarrow> ws_core k m' pc' ths gv (add_mset x gt)"
proof (cases pc)
  case (O_Idle r)
  with assms(2) show ?thesis by simp
next
  case (Push_Load x)
  with assms show ?thesis by (auto simp: ws_core_def mem_ok_def)
next
  case (Push_Grow x b t a)
  from owner_push_grow [OF assms [unfolded this]] show ?thesis by auto
next
  case (Push_Put x b a)
  from owner_push_put [OF assms [unfolded this]] show ?thesis by auto
next
  case (Push_Store x b)
  from owner_push_store [OF assms [unfolded this]] show ?thesis by auto
next
  case Pop_Load
  from owner_pop_load [OF assms [unfolded this]] show ?thesis by auto
next
  case (Pop_Store b a)
  from owner_pop_store [OF assms [unfolded this]] show ?thesis by auto
next
  case (Pop_Top b a)
  from owner_pop_top [OF assms [unfolded this]] show ?thesis by auto
next
  case (Pop_Item b a t)
  from owner_pop_item [OF assms [unfolded this]] show ?thesis by auto
next
  case (Pop_Cas b t x)
  from owner_pop_cas [OF assms [unfolded this]] show ?thesis by auto
next
  case (Pop_Restore b r)
  from owner_pop_restore [OF assms [unfolded this]] show ?thesis by auto
qed

section \<open>Preservation by the thieves\<close>

lemma bottom_le_limit:
  "owner_ok m k pc \<Longrightarrow> unat (s_bottom m) \<le> steal_limit pc (s_bottom m)"
  by (cases pc) auto

lemma limit_le_logical: "steal_limit pc bo \<le> logical_bottom pc bo"
  by (cases pc) auto

lemma owner_ok_top:
  assumes "owner_ok m k pc" "unat (s_top m) < steal_limit pc (s_bottom m)"
    "unat t = Suc (unat (s_top m))"
  shows "owner_ok (m\<lparr>s_top := t\<rparr>) k pc"
  using assms by (cases pc) auto

lemma thief_steal:
  assumes core: "ws_core k m pc ths gv gt" and ok: "T_Cas t x \<in> ths" and top: "s_top m = t"
  shows "ws_core k (m\<lparr>s_top := t + 1\<rparr>) pc ths gv (add_mset x gt)"
proof -
  let ?m = "m\<lparr>s_top := t + 1\<rparr>" and ?e = "logical_bottom pc (s_bottom m)"
  have lim: "unat t < steal_limit pc (s_bottom m)" and x: "x = ring_at (ring m) (unat t)"
    using core ok top by (auto simp: ws_core_def)
  then have e: "unat t < ?e" using limit_le_logical [of pc "s_bottom m"] by linarith
  have mem: "mem_ok m k ?e" "?e \<le> 2 ^ 63" using core by (auto simp: ws_core_def mem_ok_def)
  have t1: "unat (t + 1) = Suc (unat t)" using e mem(2) by (intro unat_plus_one) simp
  have own: "owner_ok ?m k pc"
    using core lim top t1 by (auto simp: ws_core_def intro: owner_ok_top)
  have "thief_ok ?m (steal_limit pc (s_bottom m)) th" if "th \<in> ths" for th
  proof -
    have "thief_ok m (steal_limit pc (s_bottom m)) th" using core that by (simp add: ws_core_def)
    then show ?thesis using top t1 by (cases th) auto
  qed
  moreover have "live m ?e = x # live ?m ?e"
    using live_split_first [of m ?e] e top x t1 by (simp add: live_def)
  moreover have "mem_ok ?m k ?e" using mem(1) e top t1 by (auto simp: mem_ok_def)
  ultimately show ?thesis using core own by (simp add: ws_core_def)
qed

lemma thief_step_core:
  assumes core: "ws_core k m pc ths gv gt" and th: "th \<in> ths"
    and st: "thief_step m th = Some (m', th', e)"
  shows "case e of Silent \<Rightarrow> ws_core k m' pc (insert th' ths) gv gt
    | Given x \<Rightarrow> False
    | Got x \<Rightarrow> ws_core k m' pc (insert th' ths) gv (add_mset x gt)"
proof -
  let ?lim = "steal_limit pc (s_bottom m)"
  have ok: "thief_ok m ?lim th" and own: "owner_ok m k pc"
    and mem: "s_array m < length (s_heap m)" "\<forall>arr \<in> set (s_heap m). \<exists>j. ring_ok j arr"
    using core th by (auto simp: ws_core_def mem_ok_def)
  have add: "ws_core k m pc (insert th' ths) gv gt" if "thief_ok m ?lim th'"
    using core that by (auto simp: ws_core_def)
  show ?thesis
  proof (cases th)
    case (T_Idle r)
    with st show ?thesis by simp
  next
    case T_Top
    with st add show ?thesis by auto
  next
    case (T_Bottom t)
    have "thief_ok m ?lim (if t < s_bottom m then T_Array t else T_Idle None)"
      using bottom_le_limit [OF own] ok T_Bottom by (auto simp: word_less_nat_alt)
    with T_Bottom st add show ?thesis by auto
  next
    case (T_Array t)
    with st ok add mem(1) show ?thesis by auto
  next
    case (T_Read t a)
    with ok have a: "a < length (s_heap m)" by simp
    then obtain j where "ring_ok j (s_heap m ! a)" using mem(2) by (meson nth_mem)
    then have "array_get (s_heap m ! a) t = Some (ring_at (s_heap m ! a) (unat t))"
      by (rule array_get_ring)
    with T_Read st ok add show ?thesis by auto
  next
    case (T_Cas t x)
    show ?thesis
    proof (cases "s_top m = t")
      case True
      with T_Cas st have "m' = m\<lparr>s_top := t + 1\<rparr>" "th' = T_Idle (Some x)" "e = Got x" by auto
      with thief_steal [OF core th [unfolded T_Cas] True] show ?thesis by (simp add: ws_core_def)
    next
      case False
      with T_Cas st add show ?thesis by auto
    qed
  qed
qed

section \<open>Reachable states\<close>

lemma ws_core_subset: "ws_core k m pc ths gv gt \<Longrightarrow> ths' \<subseteq> ths \<Longrightarrow> ws_core k m pc ths' gv gt"
  by (auto simp: ws_core_def)

lemma book_simps [simp]:
  "mem (book e s) = mem s" "owner (book e s) = owner s" "thieves (book e s) = thieves s"
  "given (book e s) = (case e of Given x \<Rightarrow> x # given s | _ \<Rightarrow> given s)"
  "got (book e s) = (case e of Got x \<Rightarrow> x # got s | _ \<Rightarrow> got s)"
  by (cases e; simp)+

lemma ws_inv_init: "j < 64 \<Longrightarrow> ws_sys_inv (ws_init dflt (2 ^ j) n)"
  using ring_ok_new [of j dflt]
  by (auto simp: ws_sys_inv_def ws_core_def mem_ok_def ws_init_def live_def)

lemma ws_inv_step [inv_intros]:
  assumes "ws_step dflt s t" "ws_sys_inv s"
  shows "ws_sys_inv t"
proof -
  obtain k where core: "ws_core k (mem s) (owner s) (set (thieves s)) (mset (given s)) (mset (got s))"
    using assms(2) by (auto simp: ws_sys_inv_def)
  show ?thesis
    using assms(1)
  proof cases
    case (call_push r x)
    with core show ?thesis by (auto simp: ws_sys_inv_def ws_core_def)
  next
    case (call_pop r)
    with core show ?thesis by (auto simp: ws_sys_inv_def ws_core_def)
  next
    case (owner_move m' pc' e)
    from owner_step_core [OF core owner_move(2)] show ?thesis
      unfolding owner_move(1) ws_sys_inv_def by (cases e) auto
  next
    case (call_steal i r)
    have "ws_core k (mem s) (owner s) (insert T_Top (set (thieves s))) (mset (given s)) (mset (got s))"
      using core by (auto simp: ws_core_def)
    then have "ws_core k (mem s) (owner s) (set ((thieves s)[i := T_Top])) (mset (given s)) (mset (got s))"
      by (rule ws_core_subset) (rule set_update_subset_insert)
    with call_steal show ?thesis by (auto simp: ws_sys_inv_def)
  next
    case (thief_move i m' pc' e)
    note sub = ws_core_subset [OF _ set_update_subset_insert [of "thieves s" i pc']]
    from thief_step_core [OF core nth_mem [OF thief_move(2)] thief_move(3)] show ?thesis
      unfolding thief_move(1) ws_sys_inv_def by (cases e) (auto dest: sub)
  qed
qed

lemma ws_reach_inv:
  "ws_reach dflt (2 ^ j) n s \<Longrightarrow> j < 64 \<Longrightarrow> ws_sys_inv s"
  by (induction rule: ws_reach.induct) (auto intro: ws_inv_init ws_inv_step)

section \<open>Defined and bounded calls\<close>

fun owner_rank :: "'a owner_pc \<Rightarrow> nat" where
  "owner_rank (O_Idle r) = 0"
| "owner_rank (Push_Load x) = 4"
| "owner_rank (Push_Grow x b t a) = 3"
| "owner_rank (Push_Put x b a) = 2"
| "owner_rank (Push_Store x b) = 1"
| "owner_rank Pop_Load = 6"
| "owner_rank (Pop_Store b a) = 5"
| "owner_rank (Pop_Top b a) = 4"
| "owner_rank (Pop_Item b a t) = 3"
| "owner_rank (Pop_Cas b t x) = 2"
| "owner_rank (Pop_Restore b r) = 1"

fun thief_rank :: "'a thief_pc \<Rightarrow> nat" where
  "thief_rank (T_Idle r) = 0"
| "thief_rank T_Top = 5"
| "thief_rank (T_Bottom t) = 4"
| "thief_rank (T_Array t) = 3"
| "thief_rank (T_Read t a) = 2"
| "thief_rank (T_Cas t x) = 1"

lemma owner_step_rank:
  "owner_step dflt m pc = Some (m', pc', e) \<Longrightarrow> owner_rank pc' < owner_rank pc"
  by (cases pc) (auto split: if_splits bind_splits)

lemma thief_step_rank:
  "thief_step m pc = Some (m', pc', e) \<Longrightarrow> thief_rank pc' < thief_rank pc"
  by (cases pc) (auto split: if_splits bind_splits)

lemma owner_step_defined:
  assumes "ws_core k m pc ths gv gt" "owner_rank pc \<noteq> 0"
  shows "owner_step dflt m pc \<noteq> None"
proof (cases pc)
  case (Push_Grow x b t a)
  then have mem: "ring_ok k (ring m)" "unat (s_top m) \<le> unat b"
    and own: "unat b < 2 ^ 63" "b = s_bottom m" "unat t \<le> unat (s_top m)"
      "unat b \<le> unat t + 2 ^ k" "a = s_array m"
    using assms(1) by (auto simp: ws_core_def mem_ok_def)
  have tb: "unat t \<le> unat b" using mem(2) own(3) by linarith
  obtain res k' where "(if b - t > array_capacity (ring m) - 1 then grow dflt (ring m) b t
      else Some (ring m)) = Some res"
    by (rule push_ring [OF mem(1) tb own(4,1), of dflt]) blast
  then show ?thesis using Push_Grow own(5) by (auto split: if_splits)
next
  case (Push_Put x b a)
  then have k: "ring_ok k (ring m)" "a = s_array m"
    using assms(1) by (auto simp: ws_core_def mem_ok_def)
  obtain arr where "array_put (ring m) b x = Some arr" by (rule array_put_ring [OF k(1)])
  with Push_Put k(2) show ?thesis by simp
next
  case (Pop_Item b a t)
  then have "ring_ok k (ring m)" "a = s_array m" using assms(1) by (auto simp: ws_core_def mem_ok_def)
  then show ?thesis using array_get_ring [of k "ring m" b] Pop_Item by auto
qed (use assms(2) in auto)

lemma thief_step_defined:
  assumes "ws_core k m pc ths gv gt" "th \<in> ths" "thief_rank th \<noteq> 0"
  shows "thief_step m th \<noteq> None"
proof (cases th)
  case (T_Read t a)
  then have "a < length (s_heap m)" "\<forall>arr \<in> set (s_heap m). \<exists>j. ring_ok j arr"
    using assms(1,2) by (auto simp: ws_core_def mem_ok_def)
  then obtain j where "ring_ok j (s_heap m ! a)" by (meson nth_mem)
  then show ?thesis using array_get_ring [of j "s_heap m ! a" t] T_Read by simp
qed (use assms(3) in auto)

section \<open>One caller alone\<close>

text \<open>Running the owner (a thief) by itself until its call has returned.\<close>

fun owner_alone :: "nat \<Rightarrow> 'a \<Rightarrow> 'a shared \<Rightarrow> 'a owner_pc \<Rightarrow> ('a option \<times> 'a shared) option" where
  "owner_alone n dflt m (O_Idle r) = Some (r, m)"
| "owner_alone 0 dflt m pc = None"
| "owner_alone (Suc n) dflt m pc =
     do { (m', pc', e) \<leftarrow> owner_step dflt m pc; owner_alone n dflt m' pc' }"

fun thief_alone :: "nat \<Rightarrow> 'a shared \<Rightarrow> 'a thief_pc \<Rightarrow> ('a option \<times> 'a shared) option" where
  "thief_alone n m (T_Idle r) = Some (r, m)"
| "thief_alone 0 m pc = None"
| "thief_alone (Suc n) m pc =
     do { (m', pc', e) \<leftarrow> thief_step m pc; thief_alone n m' pc' }"

definition view :: "'a shared \<Rightarrow> 'a ws_deque" where
  "view m = \<lparr>top_v = s_top m, bottom_v = s_bottom m, array_v = ring m\<rparr>"

lemma push_alone:
  assumes "s_array m < length (s_heap m)"
  shows "map_option (\<lambda>(r, m'). (r, view m')) (owner_alone 4 dflt m (Push_Load x)) =
    map_option (\<lambda>q. (None, q)) (push dflt x (view m))"
proof -
  let ?full = "s_bottom m - s_top m > array_capacity (ring m) - 1"
  show ?thesis
  proof (cases ?full)
    case True
    then show ?thesis
      by (cases "grow dflt (ring m) (s_bottom m) (s_top m)")
        (auto simp: push_def view_def Let_def numeral_eq_Suc split: bind_splits)
  next
    case False
    with assms show ?thesis
      by (auto simp: push_def view_def Let_def numeral_eq_Suc split: bind_splits)
  qed
qed

lemma pop_alone:
  "map_option (\<lambda>(r, m'). (r, view m')) (owner_alone 6 dflt m Pop_Load) = pop (view m)"
  by (auto simp: pop_def view_def Let_def numeral_eq_Suc split: bind_splits)

lemma steal_alone:
  "map_option (\<lambda>(r, m'). (r, view m')) (thief_alone 5 m T_Top) = steal (view m)"
  by (auto simp: steal_def view_def Let_def numeral_eq_Suc split: bind_splits)

section \<open>Properties\<close>

text \<open>The items still held, the oldest first.\<close>

definition remaining :: "'a ws_sys \<Rightarrow> 'a list" where
  "remaining s = live (mem s) (logical_bottom (owner s) (s_bottom (mem s)))"

text \<open>
  C2. Exactly once under concurrency: in every interleaving of the owner's pushes and pops
  with any number of thieves, the items pushed so far are, as a multiset, the items handed
  out so far together with the items still held.  So with distinct items nothing is handed
  out twice, nothing handed out is still held, and nothing is lost, whatever races between
  a pop of the last item, steals and growth.
\<close>

theorem ws_exactly_once:
  assumes "ws_reach dflt (2 ^ j) n s" "j < 64"
  shows "mset (given s) = mset (got s) + mset (remaining s)
    \<and> (distinct (given s) \<longrightarrow> distinct (got s) \<and> set (got s) \<inter> set (remaining s) = {})"
proof -
  have "mset (given s) = mset (got s) + mset (remaining s)"
    using ws_reach_inv [OF assms] by (auto simp: ws_sys_inv_def ws_core_def remaining_def)
  then have eq: "mset (given s) = mset (got s @ remaining s)" by simp
  then have "distinct (given s) \<longleftrightarrow> distinct (got s @ remaining s)"
    by (rule mset_eq_imp_distinct_iff)
  with eq show ?thesis by auto
qed

text \<open>
  C30. Every call is defined and wait-free: in every reachable state a call that has not
  returned has a next step (no access leaves a ring or follows a bad ring pointer, also
  through a ring that was replaced meanwhile), and each step brings it closer to its
  return, so a push takes 4 atomic steps, a pop at most 6 and a steal at most 5, whatever
  the other threads do.
\<close>

theorem ws_calls_defined_and_bounded:
  assumes "ws_reach dflt (2 ^ j) n s" "j < 64"
  shows "(owner_rank (owner s) \<noteq> 0 \<longrightarrow>
            (\<exists>m' pc' e. owner_step dflt (mem s) (owner s) = Some (m', pc', e)
               \<and> owner_rank pc' < owner_rank (owner s)))
    \<and> (\<forall>th \<in> set (thieves s). thief_rank th \<noteq> 0 \<longrightarrow>
            (\<exists>m' pc' e. thief_step (mem s) th = Some (m', pc', e)
               \<and> thief_rank pc' < thief_rank th))
    \<and> owner_rank (owner s) \<le> 6 \<and> (\<forall>th \<in> set (thieves s). thief_rank th \<le> 5)"
proof -
  obtain k where core: "ws_core k (mem s) (owner s) (set (thieves s)) (mset (given s)) (mset (got s))"
    using ws_reach_inv [OF assms] by (auto simp: ws_sys_inv_def)
  have "\<exists>m' pc' e. owner_step dflt (mem s) (owner s) = Some (m', pc', e)
      \<and> owner_rank pc' < owner_rank (owner s)" if r: "owner_rank (owner s) \<noteq> 0"
  proof -
    obtain m' pc' e where "owner_step dflt (mem s) (owner s) = Some (m', pc', e)"
      using owner_step_defined [OF core r, of dflt] by (metis not_None_eq prod_cases3)
    from this owner_step_rank [OF this] show ?thesis by blast
  qed
  moreover have "\<exists>m' pc' e. thief_step (mem s) th = Some (m', pc', e) \<and> thief_rank pc' < thief_rank th"
    if r: "th \<in> set (thieves s)" "thief_rank th \<noteq> 0" for th
  proof -
    obtain m' pc' e where "thief_step (mem s) th = Some (m', pc', e)"
      using thief_step_defined [OF core r] by (metis not_None_eq prod_cases3)
    from this thief_step_rank [OF this] show ?thesis by blast
  qed
  moreover have "owner_rank (owner s) \<le> 6" by (cases "owner s") auto
  moreover have "thief_rank th \<le> 5" for th :: "'a thief_pc" by (cases th) auto
  ultimately show ?thesis by blast
qed

text \<open>
  The interleaved steps are those of the single-threaded operations: a push, a pop or a
  steal whose steps are not interrupted computes exactly the functions of \<open>WsDeque\<close>.
\<close>

theorem ws_steps_alone:
  assumes "s_array m < length (s_heap m)"
  shows "map_option (\<lambda>(r, m'). (r, view m')) (owner_alone 4 dflt m (Push_Load x)) =
      map_option (\<lambda>q. (None, q)) (push dflt x (view m))
    \<and> map_option (\<lambda>(r, m'). (r, view m')) (owner_alone 6 dflt m Pop_Load) = pop (view m)
    \<and> map_option (\<lambda>(r, m'). (r, view m')) (thief_alone 5 m T_Top) = steal (view m)"
  by (intro conjI push_alone [OF assms] pop_alone steal_alone)

section \<open>Witnesses\<close>

text \<open>
  An executable scheduler: each choice names who moves; \<open>None\<close> when that move is not
  possible.
\<close>

datatype 'a choice = Do_push 'a | Do_pop | Do_steal nat | Owner_moves | Thief_moves nat

fun ws_choose :: "'a \<Rightarrow> 'a choice \<Rightarrow> 'a ws_sys \<Rightarrow> 'a ws_sys option" where
  "ws_choose dflt (Do_push x) s =
     (case owner s of O_Idle r \<Rightarrow> if unat (s_bottom (mem s)) < 2 ^ 63
        then Some (s\<lparr>owner := Push_Load x\<rparr>) else None | _ \<Rightarrow> None)"
| "ws_choose dflt Do_pop s =
     (case owner s of O_Idle r \<Rightarrow> Some (s\<lparr>owner := Pop_Load\<rparr>) | _ \<Rightarrow> None)"
| "ws_choose dflt (Do_steal i) s =
     (if i < length (thieves s)
      then case thieves s ! i of T_Idle r \<Rightarrow> Some (s\<lparr>thieves := (thieves s)[i := T_Top]\<rparr>) | _ \<Rightarrow> None
      else None)"
| "ws_choose dflt Owner_moves s =
     (case owner_step dflt (mem s) (owner s) of
        Some (m', pc', e) \<Rightarrow> Some (book e (s\<lparr>mem := m', owner := pc'\<rparr>)) | None \<Rightarrow> None)"
| "ws_choose dflt (Thief_moves i) s =
     (if i < length (thieves s)
      then case thief_step (mem s) (thieves s ! i) of
        Some (m', pc', e) \<Rightarrow> Some (book e (s\<lparr>mem := m', thieves := (thieves s)[i := pc']\<rparr>))
      | None \<Rightarrow> None
      else None)"

fun ws_schedule :: "'a \<Rightarrow> 'a choice list \<Rightarrow> 'a ws_sys \<Rightarrow> 'a ws_sys option" where
  "ws_schedule dflt [] s = Some s"
| "ws_schedule dflt (c # cs) s = do { t \<leftarrow> ws_choose dflt c s; ws_schedule dflt cs t }"

lemma ws_choose_step: "ws_choose dflt c s = Some t \<Longrightarrow> ws_step dflt s t"
  by (cases c) (auto split: owner_pc.splits thief_pc.splits option.splits if_splits prod.splits
      intro: ws_step.intros)

lemma ws_schedule_reach:
  "ws_reach dflt cap n s \<Longrightarrow> ws_schedule dflt cs s = Some t \<Longrightarrow> ws_reach dflt cap n t"
proof (induction cs arbitrary: s)
  case (Cons c cs)
  from Cons.prems(2) obtain u where "ws_choose dflt c s = Some u" "ws_schedule dflt cs u = Some t"
    by (auto split: bind_splits)
  note u = this
  have "ws_reach dflt cap n u"
    by (rule ws_reach.step [OF Cons.prems(1) ws_choose_step [OF u(1)]])
  then show ?case by (rule Cons.IH) (rule u(2))
qed simp

text \<open>
  A race for the last item: the owner has pushed 5 and begun a pop, the thief has read the
  item, the owner's exchange wins and the thief's then fails.
\<close>

definition last_item_race :: "nat choice list" where
  "last_item_race =
     [Do_push 5, Owner_moves, Owner_moves, Owner_moves, Owner_moves,
      Do_steal 0, Thief_moves 0, Thief_moves 0, Thief_moves 0, Thief_moves 0,
      Do_pop, Owner_moves, Owner_moves, Owner_moves, Owner_moves, Owner_moves,
      Thief_moves 0]"

definition race_state :: "nat ws_sys" where
  "race_state =
     \<lparr>mem = \<lparr>s_top = 1, s_bottom = 0, s_heap = [\<lparr>mask_v = 1, buffer_v = [5, 0]\<rparr>], s_array = 0\<rparr>,
      owner = Pop_Restore 0 (Some 5), thieves = [T_Idle None], given = [5], got = [5]\<rparr>"

lemma two_slots: "replicate 2 x = [x, x]"
  by (simp add: numeral_2_eq_2)

lemma race_runs: "ws_schedule 0 last_item_race (ws_init 0 (2 ^ 1) 1) = Some race_state"
  by (simp add: last_item_race_def ws_init_def race_state_def new_array_def array_capacity_def
      array_put_def array_get_def Let_def two_slots)

lemma race_state_reach: "ws_reach 0 (2 ^ 1) 1 race_state"
  by (rule ws_schedule_reach [OF ws_reach.start race_runs])

theorem ws_exactly_once_witness:
  "given race_state = [5] \<and> got race_state = [5] \<and> remaining race_state = []"
proof -
  have "mset (given race_state) = mset (got race_state) + mset (remaining race_state)"
    using ws_exactly_once [OF race_state_reach] by simp
  then show ?thesis by (simp add: race_state_def)
qed

theorem ws_calls_defined_and_bounded_witness:
  "\<exists>m' pc' e. owner_step 0 (mem race_state) (owner race_state) = Some (m', pc', e)
     \<and> owner_rank pc' < 1"
  using ws_calls_defined_and_bounded [OF race_state_reach] by (simp add: race_state_def)

theorem ws_steps_alone_witness:
  "map_option (\<lambda>(r, m'). (r, view m')) (thief_alone 5 (mem race_state) T_Top) =
     Some (None, view (mem race_state))"
  using ws_steps_alone [of "mem race_state" 0 0] by (simp add: race_state_def view_def steal_def)

end
