(* ===== verification/WaiterList.thy ===== *)
theory WaiterList
  imports Prelude "HOL-Library.Monad_Syntax"
begin

text \<open>
  The intrusive waiter lists of the asynchronous primitives
  (\<open>include/shared_state/crtp_base.hpp\<close>, \<open>waiter_node\<close> and \<open>async_primitive_base\<close>; the
  sender list of \<open>include/shared_state/channel.hpp\<close> repeats the same code on a second
  head): nodes in a store of addresses, the gates of the timed awaiters, and the handles
  given to \<open>schedule_coro_handle\<close> in the order of the calls.
\<close>

section \<open>Nodes, gates and the scheduler's log\<close>

text \<open>A null pointer is the address 0, for nodes, gates and handles alike.\<close>

record waiter_node =
  node_handle :: coro
  node_next :: uintptr
  node_gate :: uintptr

definition new_node :: "coro \<Rightarrow> waiter_node" where
  "new_node h = \<lparr>node_handle = h, node_next = 0, node_gate = 0\<rparr>"

record async_mem =
  wnodes :: "uintptr \<Rightarrow> waiter_node"
  gates :: "uintptr \<Rightarrow> bool"
  sched :: "coro list"

definition schedule_call :: "coro \<Rightarrow> async_mem \<Rightarrow> async_mem" where
  "schedule_call h w = w\<lparr>sched := sched w @ [h]\<rparr>"

text \<open>\<open>compare_exchange_strong(false, true)\<close> on a gate, and the schedule if it is won.\<close>

definition fire_gate :: "uintptr \<Rightarrow> coro \<Rightarrow> async_mem \<Rightarrow> async_mem" where
  "fire_gate g h w =
     (if gates w g then w else schedule_call h (w\<lparr>gates := (gates w)(g := True)\<rparr>))"

definition fire_node :: "uintptr \<Rightarrow> async_mem \<Rightarrow> async_mem" where
  "fire_node p w =
     (let n = wnodes w p in
      if node_handle n \<noteq> 0
      then if node_gate n \<noteq> 0 then fire_gate (node_gate n) (node_handle n) w
           else schedule_call (node_handle n) w
      else w)"

section \<open>The operations\<close>

text \<open>The head of the list is passed and returned: the code has one per list.\<close>

definition add_waiter :: "uintptr \<Rightarrow> uintptr \<Rightarrow> async_mem \<Rightarrow> uintptr \<times> async_mem" where
  "add_waiter p head w =
     (p, w\<lparr>wnodes := (wnodes w)(p := (wnodes w p)\<lparr>node_next := head\<rparr>)\<rparr>)"

definition wake_one :: "uintptr \<Rightarrow> async_mem \<Rightarrow> bool \<times> uintptr \<times> async_mem" where
  "wake_one head w =
     (if head = 0 then (False, head, w)
      else (True, node_next (wnodes w head), fire_node head w))"

text \<open>The loop of \<open>wake_all\<close>; a list that runs into itself is never left.\<close>

partial_function (option) wake_walk :: "uintptr \<Rightarrow> async_mem \<Rightarrow> async_mem option" where
  "wake_walk head w =
     (if head = 0 then Some w
      else let nxt = node_next (wnodes w head) in wake_walk nxt (fire_node head w))"

definition wake_all :: "uintptr \<Rightarrow> async_mem \<Rightarrow> (uintptr \<times> async_mem) option" where
  "wake_all head w = map_option (Pair 0) (wake_walk head w)"

text \<open>What an awaiter does to its own node before adding it.\<close>

definition arm_node :: "uintptr \<Rightarrow> coro \<Rightarrow> uintptr \<Rightarrow> async_mem \<Rightarrow> async_mem" where
  "arm_node p h g w =
     w\<lparr>wnodes := (wnodes w)(p := (wnodes w p)\<lparr>node_handle := h, node_gate := g\<rparr>)\<rparr>"

definition has_waiters :: "uintptr \<Rightarrow> bool" where
  "has_waiters head \<longleftrightarrow> head \<noteq> 0"

section \<open>Firing\<close>

lemma fire_gate_simps [simp]:
  "wnodes (fire_gate g h w) = wnodes w"
  "gates (fire_gate g h w) = (gates w)(g := True)"
  "sched (fire_gate g h w) = sched w @ (if gates w g then [] else [h])"
  by (auto simp: fire_gate_def schedule_call_def fun_upd_idem)

lemma schedule_call_simps [simp]:
  "wnodes (schedule_call h w) = wnodes w"
  "gates (schedule_call h w) = gates w"
  "sched (schedule_call h w) = sched w @ [h]"
  by (simp_all add: schedule_call_def)

lemma fire_node_wnodes [simp]: "wnodes (fire_node p w) = wnodes w"
  by (simp add: fire_node_def Let_def)

lemma fold_fire_wnodes [simp]: "wnodes (fold fire_node ps w) = wnodes w"
  by (induction ps arbitrary: w) simp_all

section \<open>Chains\<close>

text \<open>The nodes met from a head, when the list ends.\<close>

fun chain :: "(uintptr \<Rightarrow> waiter_node) \<Rightarrow> uintptr \<Rightarrow> uintptr list \<Rightarrow> bool" where
  "chain ns p [] \<longleftrightarrow> p = 0"
| "chain ns p (q # qs) \<longleftrightarrow> p = q \<and> q \<noteq> 0 \<and> chain ns (node_next (ns q)) qs"

lemma chain_null [simp]: "chain ns 0 qs \<longleftrightarrow> qs = []"
  by (cases qs) auto

lemma chain_no_null: "chain ns p qs \<Longrightarrow> 0 \<notin> set qs"
  by (induction qs arbitrary: p) auto

lemma chain_unique: "chain ns p qs \<Longrightarrow> chain ns p rs \<Longrightarrow> qs = rs"
proof (induction qs arbitrary: p rs)
  case Nil
  then show ?case by simp
next
  case (Cons q qs)
  then show ?case by (cases rs) auto
qed

lemma chain_append:
  "chain ns p (qs @ r # rs) \<Longrightarrow> chain ns r (r # rs)"
  by (induction qs arbitrary: p) auto

lemma chain_distinct: "chain ns p qs \<Longrightarrow> distinct qs"
proof (induction qs arbitrary: p)
  case (Cons q qs)
  have "q \<notin> set qs"
  proof
    assume "q \<in> set qs"
    then obtain as bs where qs: "qs = as @ q # bs" by (meson split_list)
    with Cons.prems have "chain ns q (q # bs)" using chain_append [of ns p "q # as" q bs] by simp
    then have "q # bs = q # qs" using Cons.prems chain_unique by fastforce
    then have "length bs = length qs" by simp
    with qs show False by simp
  qed
  with Cons show ?case by auto
qed simp

lemma chain_update: "p \<notin> set qs \<Longrightarrow> chain (ns(p := n)) q qs \<longleftrightarrow> chain ns q qs"
  by (induction qs arbitrary: q) auto

lemma chain_add:
  assumes "chain (wnodes w) head qs" "p \<noteq> 0" "p \<notin> set qs" "add_waiter p head w = (head', w')"
  shows "chain (wnodes w') head' (p # qs)"
  using assms by (auto simp: add_waiter_def chain_update)

section \<open>Waking everybody\<close>

lemma wake_walk_chain:
  "chain (wnodes w) head qs \<Longrightarrow> wake_walk head w = Some (fold fire_node qs w)"
proof (induction qs arbitrary: head w)
  case Nil
  then show ?case by (simp add: wake_walk.simps)
next
  case (Cons q qs)
  then have "wake_walk (node_next (wnodes w q)) (fire_node q w)
      = Some (fold fire_node qs (fire_node q w))" by simp
  with Cons.prems show ?case by (simp add: wake_walk.simps [of q])
qed

lemma wake_walk_returns:
  assumes "wake_walk head w = Some w'"
  shows "\<exists>qs. chain (wnodes w) head qs"
proof (rule wake_walk.raw_induct [OF _ assms, of "\<lambda>head w w'. \<exists>qs. chain (wnodes w) head qs"])
  fix walk head w w'
  assume IH: "\<And>head w w'. walk head w = Some w' \<Longrightarrow> \<exists>qs. chain (wnodes w) head qs"
    and run: "(if head = 0 then Some w
      else let nxt = node_next (wnodes w head) in walk nxt (fire_node head w)) = Some w'"
  show "\<exists>qs. chain (wnodes w) head qs"
  proof (cases "head = 0")
    case True
    then show ?thesis by (auto intro: exI [of _ "[]"])
  next
    case False
    with run have "walk (node_next (wnodes w head)) (fire_node head w) = Some w'"
      by (simp add: Let_def)
    from IH [OF this] obtain qs where "chain (wnodes w) (node_next (wnodes w head)) qs" by auto
    with False have "chain (wnodes w) head (head # qs)" by simp
    then show ?thesis by blast
  qed
qed

text \<open>\<open>wake_all\<close> returns exactly when the list ends.\<close>

lemma wake_all_defined: "wake_all head w \<noteq> None \<longleftrightarrow> (\<exists>qs. chain (wnodes w) head qs)"
  using wake_walk_chain wake_walk_returns by (fastforce simp: wake_all_def)

lemma wake_all_chain:
  "chain (wnodes w) head qs \<Longrightarrow> wake_all head w = Some (0, fold fire_node qs w)"
  by (simp add: wake_all_def wake_walk_chain)

lemma wake_one_chain:
  "chain (wnodes w) head (q # qs) \<Longrightarrow>
   wake_one head w = (True, node_next (wnodes w q), fire_node q w)
   \<and> chain (wnodes (fire_node q w)) (node_next (wnodes w q)) qs"
  by (auto simp: wake_one_def)

section \<open>Runs of operations\<close>

text \<open>
  Awaiters arm their node (set its handle and gate) and add it, primitives wake one or all,
  and the timer of a timed awaiter goes for the gate itself.
\<close>

datatype waiter_op = Arm uintptr coro uintptr | Add uintptr | Wake_one | Wake_all | Timer uintptr coro

fun waiter_step ::
  "waiter_op \<Rightarrow> uintptr \<times> async_mem \<Rightarrow> (uintptr \<times> async_mem) option" where
  "waiter_step (Arm p h g) (head, w) = Some (head, arm_node p h g w)"
| "waiter_step (Add p) (head, w) = Some (add_waiter p head w)"
| "waiter_step Wake_one (head, w) = (case wake_one head w of (r, head', w') \<Rightarrow> Some (head', w'))"
| "waiter_step Wake_all (head, w) = wake_all head w"
| "waiter_step (Timer g h) (head, w) = Some (head, fire_gate g h w)"

fun waiter_run ::
  "waiter_op list \<Rightarrow> uintptr \<times> async_mem \<Rightarrow> (uintptr \<times> async_mem) option" where
  "waiter_run [] s = Some s"
| "waiter_run (c # cs) s = do { s' \<leftarrow> waiter_step c s; waiter_run cs s' }"

text \<open>The abstract list: a stack of nodes, the last one added first.\<close>

fun stack_step :: "waiter_op \<Rightarrow> uintptr list \<times> async_mem \<Rightarrow> uintptr list \<times> async_mem" where
  "stack_step (Arm p h g) (qs, w) = (qs, arm_node p h g w)"
| "stack_step (Add p) (qs, w) = (p # qs, w)"
| "stack_step Wake_one (qs, w) =
     (case qs of [] \<Rightarrow> ([], w) | q # qs' \<Rightarrow> (qs', fire_node q w))"
| "stack_step Wake_all (qs, w) = ([], fold fire_node qs w)"
| "stack_step (Timer g h) (qs, w) = (qs, fire_gate g h w)"

fun stack_run :: "waiter_op list \<Rightarrow> uintptr list \<times> async_mem \<Rightarrow> uintptr list \<times> async_mem" where
  "stack_run [] s = s"
| "stack_run (c # cs) s = stack_run cs (stack_step c s)"

text \<open>The discipline the code relies on: a node is added only while it is in no list.\<close>

fun fresh_adds :: "waiter_op list \<Rightarrow> uintptr list \<times> async_mem \<Rightarrow> bool" where
  "fresh_adds [] s \<longleftrightarrow> True"
| "fresh_adds (c # cs) s \<longleftrightarrow>
     (case c of Add p \<Rightarrow> p \<noteq> 0 \<and> p \<notin> set (fst s) | _ \<Rightarrow> True) \<and> fresh_adds cs (stack_step c s)"

section \<open>The list refines the stack\<close>

text \<open>The same world up to the \<open>next\<close> pointers, and the stack's nodes on the chain.\<close>

definition same_but_next :: "async_mem \<Rightarrow> async_mem \<Rightarrow> bool" where
  "same_but_next w v \<longleftrightarrow> gates w = gates v \<and> sched w = sched v
     \<and> (\<forall>p. node_handle (wnodes w p) = node_handle (wnodes v p)
          \<and> node_gate (wnodes w p) = node_gate (wnodes v p))"

fun stack_sim :: "uintptr \<times> async_mem \<Rightarrow> uintptr list \<times> async_mem \<Rightarrow> bool" where
  "stack_sim (head, w) (qs, v) \<longleftrightarrow> chain (wnodes w) head qs \<and> same_but_next w v"

lemma same_fire_gate: "same_but_next w v \<Longrightarrow> same_but_next (fire_gate g h w) (fire_gate g h v)"
  by (simp add: same_but_next_def)

lemma same_fire_node: "same_but_next w v \<Longrightarrow> same_but_next (fire_node p w) (fire_node p v)"
  by (auto simp: same_but_next_def fire_node_def Let_def)

lemma same_fold_fire:
  "same_but_next w v \<Longrightarrow> same_but_next (fold fire_node ps w) (fold fire_node ps v)"
  by (induction ps arbitrary: w v) (simp_all add: same_fire_node)

lemma chain_arm [simp]: "chain (wnodes (arm_node p h g w)) q qs \<longleftrightarrow> chain (wnodes w) q qs"
  by (induction qs arbitrary: q) (auto simp: arm_node_def)

lemma same_arm: "same_but_next w v \<Longrightarrow> same_but_next (arm_node p h g w) (arm_node p h g v)"
  by (simp add: same_but_next_def arm_node_def)

lemma same_add: "same_but_next w v \<Longrightarrow> same_but_next (snd (add_waiter p head w)) v"
  by (simp add: same_but_next_def add_waiter_def)

lemma stack_sim_step:
  assumes "stack_sim s q" "fresh_adds (c # cs) q"
  shows "\<exists>s'. waiter_step c s = Some s' \<and> stack_sim s' (stack_step c q)"
proof -
  obtain head w qs v where s: "s = (head, w)" "q = (qs, v)" by fastforce
  with assms(1) have sim: "chain (wnodes w) head qs" "same_but_next w v" by auto
  show ?thesis
  proof (cases c)
    case (Arm p h g)
    then show ?thesis using sim s by (simp add: same_arm)
  next
    case (Add p)
    then have "p \<noteq> 0" "p \<notin> set qs" using assms(2) s by auto
    moreover obtain head' w' where "add_waiter p head w = (head', w')" by fastforce
    ultimately show ?thesis
      using chain_add [OF sim(1)] same_add [OF sim(2), of p head] Add s by simp
  next
    case Wake_one
    then show ?thesis using sim s
      by (cases qs) (auto simp: wake_one_def same_fire_node)
  next
    case Wake_all
    then show ?thesis using sim s by (simp add: wake_all_chain same_fold_fire)
  next
    case (Timer g h)
    then show ?thesis using sim s by (simp add: same_fire_gate)
  qed
qed

lemma stack_sim_run:
  "stack_sim s q \<Longrightarrow> fresh_adds cs q \<Longrightarrow> \<exists>s'. waiter_run cs s = Some s' \<and> stack_sim s' (stack_run cs q)"
proof (induction cs arbitrary: s q)
  case (Cons c cs)
  obtain s' where s': "waiter_step c s = Some s'" "stack_sim s' (stack_step c q)"
    using stack_sim_step [OF Cons.prems] by blast
  with Cons.IH [OF s'(2)] Cons.prems(2) show ?case by simp
qed simp

section \<open>One gate, one schedule\<close>

text \<open>
  A gate \<open>g\<close> belongs to one suspended coroutine \<open>h\<close>: every node with that gate resumes
  \<open>h\<close>, and \<open>h\<close> waits in no node without it.
\<close>

definition gate_of :: "uintptr \<Rightarrow> coro \<Rightarrow> async_mem \<Rightarrow> bool" where
  "gate_of g h w \<longleftrightarrow> (\<forall>p. node_gate (wnodes w p) = g \<longleftrightarrow> node_handle (wnodes w p) = h)"

fun op_keeps_gate :: "uintptr \<Rightarrow> coro \<Rightarrow> waiter_op \<Rightarrow> bool" where
  "op_keeps_gate g h (Arm p h' g') \<longleftrightarrow> (g' = g \<longleftrightarrow> h' = h)"
| "op_keeps_gate g h (Timer g' h') \<longleftrightarrow> (g' = g \<longleftrightarrow> h' = h)"
| "op_keeps_gate g h c \<longleftrightarrow> True"

text \<open>The schedules of \<open>h\<close> still to be accounted for.\<close>

definition credit :: "uintptr \<Rightarrow> coro \<Rightarrow> async_mem \<Rightarrow> int" where
  "credit g h w = int (count_list (sched w) h) - (if gates w g then 1 else 0)"

lemma credit_fire_gate:
  "g' = g \<longleftrightarrow> h' = h \<Longrightarrow> credit g h (fire_gate g' h' w) = credit g h w"
  by (auto simp: credit_def)

lemma credit_fire_node:
  assumes "gate_of g h w" "g \<noteq> 0"
  shows "credit g h (fire_node p w) = credit g h w"
proof -
  have "node_gate (wnodes w p) = g \<longleftrightarrow> node_handle (wnodes w p) = h"
    using assms(1) by (simp add: gate_of_def)
  with assms(2) show ?thesis
    by (auto simp: fire_node_def Let_def credit_fire_gate credit_def [of g h "schedule_call h' w" for h']
        credit_def [of g h w])
qed

lemma gate_of_fire [simp]: "gate_of g h (fire_node p w) \<longleftrightarrow> gate_of g h w"
  by (simp add: gate_of_def)

lemma credit_fold_fire:
  "gate_of g h w \<Longrightarrow> g \<noteq> 0 \<Longrightarrow> credit g h (fold fire_node ps w) = credit g h w"
  by (induction ps arbitrary: w) (simp_all add: credit_fire_node)

lemma gate_of_fold [simp]: "gate_of g h (fold fire_node ps w) \<longleftrightarrow> gate_of g h w"
  by (simp add: gate_of_def)

lemma gate_of_arm:
  "gate_of g h w \<Longrightarrow> (g' = g \<longleftrightarrow> h' = h) \<Longrightarrow> gate_of g h (arm_node p h' g' w)"
  by (simp add: gate_of_def arm_node_def)

lemma gate_of_fire_gate [simp]: "gate_of g h (fire_gate g' h' w) \<longleftrightarrow> gate_of g h w"
  by (simp add: gate_of_def)

lemma credit_arm [simp]: "credit g h (arm_node p h' g' w) = credit g h w"
  by (simp add: credit_def arm_node_def)

lemma credit_stack_step:
  assumes "gate_of g h (snd q)" "g \<noteq> 0" "op_keeps_gate g h c"
  shows "gate_of g h (snd (stack_step c q)) \<and> credit g h (snd (stack_step c q)) = credit g h (snd q)"
proof (cases q)
  case (Pair qs w)
  then show ?thesis using assms
    by (cases c) (auto simp: credit_fire_node credit_fold_fire credit_fire_gate gate_of_arm
        split: list.splits)
qed

lemma credit_stack_run:
  "gate_of g h (snd q) \<Longrightarrow> g \<noteq> 0 \<Longrightarrow> \<forall>c \<in> set cs. op_keeps_gate g h c \<Longrightarrow>
   credit g h (snd (stack_run cs q)) = credit g h (snd q)"
  by (induction cs arbitrary: q) (simp_all add: credit_stack_step)

section \<open>Properties\<close>

text \<open>
  C20. The pointer list is a stack: in a run of the operations in which a node is added only
  while it is in no list, the code never leaves the list's nodes, every call returns (also
  the loop of \<open>wake_all\<close>), and gates and scheduled handles are those of the same run on a
  stack of nodes: \<open>wake_one\<close> takes the last node added, \<open>wake_all\<close> all of them, last first.
\<close>

theorem waiters_refine_stack:
  assumes "chain (wnodes w) head qs" "fresh_adds cs (qs, w)"
  shows "\<exists>head' w'. waiter_run cs (head, w) = Some (head', w')
    \<and> chain (wnodes w') head' (fst (stack_run cs (qs, w)))
    \<and> gates w' = gates (snd (stack_run cs (qs, w)))
    \<and> sched w' = sched (snd (stack_run cs (qs, w)))
    \<and> has_waiters head' = (fst (stack_run cs (qs, w)) \<noteq> [])"
proof -
  have "stack_sim (head, w) (qs, w)" using assms(1) by (simp add: same_but_next_def)
  from stack_sim_run [OF this assms(2)] obtain s'
    where s': "waiter_run cs (head, w) = Some s'" "stack_sim s' (stack_run cs (qs, w))" by blast
  obtain head' w' where "s' = (head', w')" by fastforce
  moreover obtain qs' v where "stack_run cs (qs, w) = (qs', v)" by fastforce
  ultimately show ?thesis using s'
    by (cases qs') (auto simp: same_but_next_def has_waiters_def)
qed

text \<open>
  A gate schedules its coroutine at most once, and exactly once if it was ever passed:
  over any such run, mixing wakes from any list the coroutine's nodes are on with its timer,
  the coroutine is scheduled once if the gate ends closed and not at all if it is still open.
\<close>

theorem gate_schedules_once:
  assumes "chain (wnodes w) head qs" "fresh_adds cs (qs, w)"
    and "gate_of g h w" "g \<noteq> 0" "\<forall>c \<in> set cs. op_keeps_gate g h c" "\<not> gates w g" "h \<notin> set (sched w)"
  shows "\<exists>head' w'. waiter_run cs (head, w) = Some (head', w')
    \<and> count_list (sched w') h = (if gates w' g then 1 else 0)"
proof -
  have "credit g h (snd (stack_run cs (qs, w))) = 0"
    using credit_stack_run [of g h "(qs, w)" cs] assms(3-7)
    by (simp add: credit_def count_list_0_iff)
  moreover have "stack_sim (head, w) (qs, w)" using assms(1) by (simp add: same_but_next_def)
  from stack_sim_run [OF this assms(2)] obtain s'
    where s': "waiter_run cs (head, w) = Some s'" "stack_sim s' (stack_run cs (qs, w))" by blast
  moreover obtain head' w' where "s' = (head', w')" by fastforce
  moreover obtain qs' v where "stack_run cs (qs, w) = (qs', v)" by fastforce
  ultimately show ?thesis by (auto simp: same_but_next_def credit_def split: if_splits)
qed

text \<open>
  \<open>wake_one\<close> on every branch: on an empty list it returns false; otherwise it removes
  the first node, returns true, and schedules the node's handle if the node has no gate or
  an open one, which it closes.  A node whose gate is already closed (a timed awaiter that
  has timed out) uses up the wake-up: nothing is scheduled although a live waiter may be
  behind it.
\<close>

theorem wake_one_branches:
  assumes "chain (wnodes w) head qs"
  shows "wake_one head w =
    (case qs of [] \<Rightarrow> (False, 0, w)
     | q # rs \<Rightarrow> (True, (case rs of [] \<Rightarrow> 0 | r # _ \<Rightarrow> r),
         let h = node_handle (wnodes w q); g = node_gate (wnodes w q) in
         if h = 0 \<or> g \<noteq> 0 \<and> gates w g then w
         else if g = 0 then w\<lparr>sched := sched w @ [h]\<rparr>
         else w\<lparr>gates := (gates w)(g := True), sched := sched w @ [h]\<rparr>))"
proof (cases qs)
  case Nil
  then show ?thesis using assms by (simp add: wake_one_def)
next
  case (Cons q rs)
  have "node_next (wnodes w q) = (case rs of [] \<Rightarrow> 0 | r # _ \<Rightarrow> r)"
    using assms Cons by (cases rs) auto
  with Cons assms show ?thesis
    by (auto simp: wake_one_def fire_node_def fire_gate_def schedule_call_def Let_def)
qed

text \<open>The handles a list of nodes with distinct gates gives to the scheduler.\<close>

definition live_handles :: "async_mem \<Rightarrow> uintptr list \<Rightarrow> coro list" where
  "live_handles w qs =
     map (\<lambda>q. node_handle (wnodes w q))
       (filter (\<lambda>q. node_handle (wnodes w q) \<noteq> 0
          \<and> (node_gate (wnodes w q) = 0 \<or> \<not> gates w (node_gate (wnodes w q)))) qs)"

lemma live_handles_other_gate:
  "g \<notin> (\<lambda>q. node_gate (wnodes w q)) ` set qs \<Longrightarrow> wnodes v = wnodes w \<Longrightarrow>
   \<forall>g'. g' \<noteq> g \<longrightarrow> gates v g' = gates w g' \<Longrightarrow> live_handles v qs = live_handles w qs"
  by (induction qs) (auto simp: live_handles_def)

lemma fold_fire_sched:
  assumes "distinct (filter (\<lambda>g. g \<noteq> 0) (map (\<lambda>q. node_gate (wnodes w q)) qs))"
  shows "sched (fold fire_node qs w) = sched w @ live_handles w qs"
  using assms
proof (induction qs arbitrary: w)
  case Nil
  then show ?case by (simp add: live_handles_def)
next
  case (Cons q qs)
  let ?g = "node_gate (wnodes w q)"
  have "live_handles (fire_node q w) qs = live_handles w qs"
  proof (cases "?g = 0")
    case True
    then have "gates (fire_node q w) = gates w" by (simp add: fire_node_def Let_def)
    then show ?thesis by (simp add: live_handles_def)
  next
    case False
    then have "?g \<notin> (\<lambda>q. node_gate (wnodes w q)) ` set qs" using Cons.prems by auto
    moreover have "\<forall>g'. g' \<noteq> ?g \<longrightarrow> gates (fire_node q w) g' = gates w g'"
      by (simp add: fire_node_def Let_def)
    ultimately show ?thesis by (rule live_handles_other_gate [OF _ fire_node_wnodes])
  qed
  moreover have "sched (fold fire_node qs (fire_node q w))
      = sched (fire_node q w) @ live_handles (fire_node q w) qs"
    using Cons.prems by (intro Cons.IH) (simp split: if_splits)
  moreover have "sched (fire_node q w) = sched w @ live_handles w [q]"
    by (auto simp: fire_node_def live_handles_def Let_def)
  ultimately show ?case by (simp add: live_handles_def)
qed

text \<open>Nodes of awaiters without a timeout.\<close>

definition plain :: "async_mem \<Rightarrow> uintptr list \<Rightarrow> bool" where
  "plain w qs \<longleftrightarrow> (\<forall>q \<in> set qs. node_gate (wnodes w q) = 0 \<and> node_handle (wnodes w q) \<noteq> 0)"

definition handles :: "async_mem \<Rightarrow> uintptr list \<Rightarrow> coro list" where
  "handles w qs = map (\<lambda>q. node_handle (wnodes w q)) qs"

lemma fold_fire_plain:
  assumes "plain w qs"
  shows "sched (fold fire_node qs w) = sched w @ handles w qs"
proof -
  have "filter (\<lambda>g. g \<noteq> 0) (map (\<lambda>q. node_gate (wnodes w q)) qs) = []"
    using assms by (auto simp: plain_def filter_empty_conv)
  then have "sched (fold fire_node qs w) = sched w @ live_handles w qs"
    by (intro fold_fire_sched) (simp only: distinct.simps)
  then show ?thesis using assms
    by (simp add: plain_def live_handles_def handles_def cong: filter_cong)
qed

lemma plain_take: "plain w qs \<Longrightarrow> plain w (take n qs)"
  by (auto simp: plain_def dest: in_set_takeD)

lemma wake_all_plain:
  "chain (wnodes w) head qs \<Longrightarrow> plain w qs \<Longrightarrow>
   \<exists>w'. wake_all head w = Some (0, w') \<and> sched w' = sched w @ handles w qs"
  by (simp add: wake_all_chain fold_fire_plain)

text \<open>
  \<open>wake_all\<close> empties the list and schedules, last added first, exactly the handles of
  the nodes that have no gate or an open one; it returns if and only if the list ends.
\<close>

theorem wake_all_live_waiters:
  "(wake_all head w \<noteq> None \<longleftrightarrow> (\<exists>qs. chain (wnodes w) head qs))
   \<and> (\<forall>qs. chain (wnodes w) head qs
       \<and> distinct (filter (\<lambda>g. g \<noteq> 0) (map (\<lambda>q. node_gate (wnodes w q)) qs)) \<longrightarrow>
       (\<exists>w'. wake_all head w = Some (0, w') \<and> sched w' = sched w @ live_handles w qs))"
  using wake_all_defined wake_all_chain fold_fire_sched by blast

text \<open>
  Adding a node that is still on the list closes the list into a ring: \<open>wake_all\<close> does
  not return any more.  Timed awaiters leave their node on the list when the timer wins, so
  a coroutine that waits again with an awaiter at the same address meets this case.
\<close>

theorem readded_node_hangs:
  assumes "chain (wnodes w) head qs" "p \<in> set qs"
  shows "case add_waiter p head w of (head', w') \<Rightarrow> wake_all head' w' = None"
proof -
  let ?w = "snd (add_waiter p head w)"
  obtain as bs where qs: "qs = as @ p # bs" "p \<notin> set as"
    using assms(2) by (meson split_list_first)
  have "\<not> chain (wnodes ?w) p rs" for rs
  proof
    assume rs: "chain (wnodes ?w) p rs"
    have next_p: "node_next (wnodes ?w p) = head" by (simp add: add_waiter_def)
    then obtain rs' where rs': "rs = p # rs'" "chain (wnodes ?w) head rs'"
      using rs chain_no_null [OF assms(1)] assms(2) by (cases rs) auto
    have "\<exists>k. rs' = as @ p # k"
    proof -
      have "\<exists>k. zs = as @ p # k" if "chain (wnodes w) q (as @ p # bs)" "chain (wnodes ?w) q zs"
        for q zs using that qs(2)
      proof (induction as arbitrary: q zs)
        case Nil
        then show ?case by (cases zs) auto
      next
        case (Cons a as)
        then obtain zs' where "zs = a # zs'" by (cases zs) auto
        moreover have "node_next (wnodes ?w a) = node_next (wnodes w a)"
          using Cons.prems(3) by (auto simp: add_waiter_def)
        ultimately show ?case using Cons by auto
      qed
      then show ?thesis using assms(1) qs(1) rs'(2) by blast
    qed
    with rs' chain_distinct [OF rs] show False by auto
  qed
  then have "wake_all p ?w = None" using wake_all_defined by blast
  then show ?thesis by (simp add: add_waiter_def)
qed

section \<open>Witnesses\<close>

text \<open>
  Two nodes: the one at 16 is a plain awaiter of coroutine 5, the one at 32 a timed awaiter
  of coroutine 7 with gate 9.
\<close>

definition sample_mem :: async_mem where
  "sample_mem = \<lparr>wnodes = (\<lambda>p. new_node 0), gates = (\<lambda>g. False), sched = []\<rparr>"

definition sample_run :: "waiter_op list" where
  "sample_run = [Arm 16 5 0, Arm 32 7 9, Add 16, Add 32, Timer 9 7, Wake_one, Wake_all]"

definition two_waiters :: async_mem where
  "two_waiters = snd (add_waiter 32 16 (snd (add_waiter 16 0
     (arm_node 32 7 9 (arm_node 16 5 0 sample_mem)))))"

lemma two_waiters_chain: "chain (wnodes two_waiters) 32 [32, 16]"
  by (simp add: two_waiters_def add_waiter_def arm_node_def)

theorem waiters_refine_stack_witness:
  "\<exists>head' w'. waiter_run sample_run (0, sample_mem) = Some (head', w')
     \<and> \<not> has_waiters head' \<and> sched w' = [7, 5]"
  using waiters_refine_stack [of sample_mem 0 "[]" sample_run]
  by (auto simp: sample_run_def sample_mem_def new_node_def arm_node_def fire_node_def)

theorem gate_schedules_once_witness:
  "\<exists>head' w'. waiter_run [Timer 9 7, Wake_all] (32, two_waiters) = Some (head', w')
     \<and> count_list (sched w') 7 = (if gates w' 9 then 1 else 0)"
proof -
  have "gate_of 9 7 two_waiters" "\<not> gates two_waiters 9" "7 \<notin> set (sched two_waiters)"
    by (auto simp: gate_of_def two_waiters_def add_waiter_def arm_node_def sample_mem_def new_node_def)
  then show ?thesis
    using gate_schedules_once [of two_waiters 32 "[32, 16]" "[Timer 9 7, Wake_all]" 9 7]
      two_waiters_chain by simp
qed

theorem wake_one_branches_witness:
  "wake_one 32 (fire_gate 9 7 two_waiters) = (True, 16, fire_gate 9 7 two_waiters)"
proof -
  have "chain (wnodes (fire_gate 9 7 two_waiters)) 32 [32, 16]" using two_waiters_chain by simp
  from wake_one_branches [OF this] show ?thesis
    by (simp add: two_waiters_def add_waiter_def arm_node_def)
qed

theorem wake_all_live_waiters_witness:
  "\<exists>w'. wake_all 32 two_waiters = Some (0, w') \<and> sched w' = [7, 5]"
  using wake_all_live_waiters [of 32 two_waiters] two_waiters_chain
  by (fastforce simp: live_handles_def two_waiters_def add_waiter_def arm_node_def sample_mem_def
      new_node_def)

theorem readded_node_hangs_witness:
  "wake_all 16 (snd (add_waiter 16 32 two_waiters)) = None"
  using readded_node_hangs [OF two_waiters_chain, of 16] by (simp add: add_waiter_def)

end
