(* ===== verification/WaiterConc.thy ===== *)
theory WaiterConc
  imports WaiterList
begin

text \<open>
  The waiter list under concurrency: the atomic accesses of \<open>add_waiter\<close>, \<open>wake_one\<close> and
  \<open>wake_all\<close> (\<open>include/shared_state/crtp_base.hpp\<close>), made by any number of callers in any
  order (sequentially consistent).  A weak compare-exchange may fail spuriously.
\<close>

section \<open>Callers\<close>

datatype waiter_pc =
    AW_Load uintptr
  | AW_Link uintptr uintptr
  | AW_Cas uintptr uintptr
  | WO_Load
  | WO_Next uintptr
  | WO_Cas uintptr uintptr
  | WO_Fire uintptr
  | WA_Swap
  | WA_Next uintptr
  | WA_Fire uintptr uintptr
  | W_Done bool

text \<open>What a step does to the books: a node enters the list, or its waiter is woken.\<close>

datatype waiter_event = Quiet | Added uintptr | Woken uintptr

fun waiter_call_step ::
  "bool \<Rightarrow> uintptr \<Rightarrow> async_mem \<Rightarrow> waiter_pc \<Rightarrow> uintptr \<times> async_mem \<times> waiter_pc \<times> waiter_event" where
  "waiter_call_step spur head w (AW_Load p) = (head, w, AW_Link p head, Quiet)"
| "waiter_call_step spur head w (AW_Link p old_head) =
     (head, w\<lparr>wnodes := (wnodes w)(p := (wnodes w p)\<lparr>node_next := old_head\<rparr>)\<rparr>,
      AW_Cas p old_head, Quiet)"
| "waiter_call_step spur head w (AW_Cas p old_head) =
     (if head = old_head \<and> \<not> spur then (p, w, W_Done True, Added p)
      else (head, w, AW_Link p head, Quiet))"
| "waiter_call_step spur head w WO_Load =
     (head, w, if head = 0 then W_Done False else WO_Next head, Quiet)"
| "waiter_call_step spur head w (WO_Next h) = (head, w, WO_Cas h (node_next (wnodes w h)), Quiet)"
| "waiter_call_step spur head w (WO_Cas h nxt) =
     (if head = h \<and> \<not> spur then (nxt, w, WO_Fire h, Quiet)
      else (head, w, if head = 0 then W_Done False else WO_Next head, Quiet))"
| "waiter_call_step spur head w (WO_Fire h) = (head, fire_node h w, W_Done True, Woken h)"
| "waiter_call_step spur head w WA_Swap =
     (0, w, if head = 0 then W_Done True else WA_Next head, Quiet)"
| "waiter_call_step spur head w (WA_Next h) = (head, w, WA_Fire h (node_next (wnodes w h)), Quiet)"
| "waiter_call_step spur head w (WA_Fire h nxt) =
     (head, fire_node h w, if nxt = 0 then W_Done True else WA_Next nxt, Woken h)"
| "waiter_call_step spur head w (W_Done r) = (head, w, W_Done r, Quiet)"

record waiter_sys =
  w_head :: uintptr
  w_mem :: async_mem
  w_calls :: "waiter_pc list"
  added :: "uintptr list"
  woken :: "uintptr list"

fun note_event :: "waiter_event \<Rightarrow> waiter_sys \<Rightarrow> waiter_sys" where
  "note_event Quiet s = s"
| "note_event (Added p) s = s\<lparr>added := p # added s\<rparr>"
| "note_event (Woken p) s = s\<lparr>woken := p # woken s\<rparr>"

definition move_caller :: "bool \<Rightarrow> nat \<Rightarrow> waiter_sys \<Rightarrow> waiter_sys" where
  "move_caller spur i s =
     (case waiter_call_step spur (w_head s) (w_mem s) (w_calls s ! i) of (h, w, pc, e) \<Rightarrow>
        note_event e (s\<lparr>w_head := h, w_mem := w, w_calls := (w_calls s)[i := pc]\<rparr>))"

inductive waiter_reach :: "waiter_sys \<Rightarrow> waiter_sys \<Rightarrow> bool" for s0 where
  start: "waiter_reach s0 s0"
| move: "waiter_reach s0 s \<Longrightarrow> i < length (w_calls s) \<Longrightarrow> waiter_reach s0 (move_caller spur i s)"

section \<open>The invariant\<close>

text \<open>The nodes a caller has taken off the list and not yet woken.\<close>

fun held :: "(uintptr \<Rightarrow> waiter_node) \<Rightarrow> waiter_pc \<Rightarrow> uintptr list \<Rightarrow> bool" where
  "held ns (WO_Fire h) qs \<longleftrightarrow> qs = [h]"
| "held ns (WA_Next h) qs \<longleftrightarrow> qs \<noteq> [] \<and> chain ns h qs"
| "held ns (WA_Fire h nxt) qs \<longleftrightarrow> (\<exists>rs. qs = h # rs \<and> chain ns nxt rs)"
| "held ns _ qs \<longleftrightarrow> qs = []"

text \<open>The node a caller has still to add.\<close>

fun pend :: "waiter_pc \<Rightarrow> uintptr list" where
  "pend (AW_Load p) = [p]"
| "pend (AW_Link p old_head) = [p]"
| "pend (AW_Cas p old_head) = [p]"
| "pend _ = []"

fun sees :: "(uintptr \<Rightarrow> waiter_node) \<Rightarrow> uintptr set \<Rightarrow> waiter_pc \<Rightarrow> bool" where
  "sees ns A (AW_Cas p old_head) \<longleftrightarrow> node_next (ns p) = old_head"
| "sees ns A (WO_Next h) \<longleftrightarrow> h \<in> A"
| "sees ns A (WO_Cas h nxt) \<longleftrightarrow> h \<in> A \<and> nxt = node_next (ns h)"
| "sees ns A _ \<longleftrightarrow> True"

definition waiter_inv :: "waiter_sys \<Rightarrow> uintptr list \<Rightarrow> uintptr list list \<Rightarrow> bool" where
  "waiter_inv s stk hs \<longleftrightarrow>
     chain (wnodes (w_mem s)) (w_head s) stk
     \<and> list_all2 (held (wnodes (w_mem s))) (w_calls s) hs
     \<and> mset (added s) = mset (woken s) + mset stk + mset (concat hs)
     \<and> distinct (concat (map pend (w_calls s)) @ added s)
     \<and> 0 \<notin> set (concat (map pend (w_calls s)) @ added s)
     \<and> (\<forall>pc \<in> set (w_calls s). sees (wnodes (w_mem s)) (set (added s)) pc)"

lemma sees_mono: "sees ns A pc \<Longrightarrow> A \<subseteq> B \<Longrightarrow> sees ns B pc"
  by (cases pc) auto

lemma sees_update:
  "sees ns A pc \<Longrightarrow> p \<notin> A \<Longrightarrow> p \<notin> set (pend pc) \<Longrightarrow> sees (ns(p := n)) A pc"
  by (cases pc) auto

lemma held_update: "held ns pc qs \<Longrightarrow> p \<notin> set qs \<Longrightarrow> held (ns(p := n)) pc qs"
  by (cases pc) (auto simp: chain_update)

lemma list_all2_held_update:
  "list_all2 (held ns) cs hs \<Longrightarrow> p \<notin> set (concat hs) \<Longrightarrow> list_all2 (held (ns(p := n))) cs hs"
  by (induction cs hs rule: list_all2_induct) (auto simp: held_update)

text \<open>
  The invariant seen from one caller: the callers before and after it, and what they hold.
\<close>

definition waiter_at ::
  "uintptr \<Rightarrow> async_mem \<Rightarrow> uintptr list \<Rightarrow> uintptr list \<Rightarrow> waiter_pc list \<Rightarrow> waiter_pc list \<Rightarrow>
   uintptr list list \<Rightarrow> uintptr list list \<Rightarrow> uintptr list \<Rightarrow> waiter_pc \<Rightarrow> uintptr list \<Rightarrow> bool" where
  "waiter_at head w ad wo xs ys as bs stk pc q \<longleftrightarrow>
     chain (wnodes w) head stk \<and> held (wnodes w) pc q
     \<and> list_all2 (held (wnodes w)) xs as \<and> list_all2 (held (wnodes w)) ys bs
     \<and> mset ad = mset wo + mset stk + mset (concat as) + mset q + mset (concat bs)
     \<and> distinct (concat (map pend xs) @ pend pc @ concat (map pend ys) @ ad)
     \<and> 0 \<notin> set (concat (map pend xs) @ pend pc @ concat (map pend ys) @ ad)
     \<and> (\<forall>c \<in> set xs \<union> set ys. sees (wnodes w) (set ad) c)
     \<and> sees (wnodes w) (set ad) pc"

lemma waiter_inv_at:
  assumes "waiter_inv s stk hs" "i < length (w_calls s)"
  obtains as q bs where "waiter_at (w_head s) (w_mem s) (added s) (woken s)
    (take i (w_calls s)) (drop (Suc i) (w_calls s)) as bs stk (w_calls s ! i) q"
proof -
  let ?xs = "take i (w_calls s)" and ?ys = "drop (Suc i) (w_calls s)"
  have calls: "w_calls s = ?xs @ w_calls s ! i # ?ys" using assms(2) by (rule id_take_nth_drop)
  then have "list_all2 (held (wnodes (w_mem s))) (?xs @ w_calls s ! i # ?ys) hs"
    and pends: "concat (map pend (w_calls s))
      = concat (map pend ?xs) @ pend (w_calls s ! i) @ concat (map pend ?ys)"
    and sets: "set (w_calls s) = insert (w_calls s ! i) (set ?xs \<union> set ?ys)"
    using assms(1) by (simp add: waiter_inv_def, metis concat.simps(2) concat_append map_append
        list.map(2), metis Un_insert_right list.simps(15) set_append)
  then obtain as q bs where "hs = as @ q # bs" "list_all2 (held (wnodes (w_mem s))) ?xs as"
    "held (wnodes (w_mem s)) (w_calls s ! i) q" "list_all2 (held (wnodes (w_mem s))) ?ys bs"
    by (auto simp: list_all2_append1 list_all2_Cons1)
  with assms(1) show ?thesis
    unfolding waiter_inv_def pends sets by (intro that [of as bs q]) (simp add: waiter_at_def)
qed

lemma waiter_at_inv:
  "waiter_at (w_head s) (w_mem s) (added s) (woken s) xs ys as bs stk pc q \<Longrightarrow>
   w_calls s = xs @ pc # ys \<Longrightarrow> waiter_inv s stk (as @ q # bs)"
  by (simp add: waiter_at_def waiter_inv_def list_all2_appendI)

fun ev_added :: "waiter_event \<Rightarrow> uintptr list \<Rightarrow> uintptr list" where
  "ev_added (Added p) ad = p # ad" | "ev_added _ ad = ad"

fun ev_woken :: "waiter_event \<Rightarrow> uintptr list \<Rightarrow> uintptr list" where
  "ev_woken (Woken p) wo = p # wo" | "ev_woken _ wo = wo"

lemma note_event_simps [simp]:
  "w_head (note_event e s) = w_head s \<and> w_mem (note_event e s) = w_mem s
   \<and> w_calls (note_event e s) = w_calls s
   \<and> added (note_event e s) = ev_added e (added s) \<and> woken (note_event e s) = ev_woken e (woken s)"
  by (cases e) simp_all

lemma waiter_at_subsets:
  assumes "waiter_at head w ad wo xs ys as bs stk pc q"
  shows "set stk \<subseteq> set ad" "set (concat as) \<subseteq> set ad" "set (concat bs) \<subseteq> set ad"
    "head \<noteq> 0 \<Longrightarrow> head \<in> set ad"
proof -
  have "mset ad = mset wo + mset stk + mset (concat as) + mset q + mset (concat bs)"
    using assms by (simp add: waiter_at_def)
  from arg_cong [OF this, of set_mset]
  have eq: "set ad = set wo \<union> set stk \<union> set (concat as) \<union> set q \<union> set (concat bs)"
    by (simp del: set_concat)
  show "set stk \<subseteq> set ad" "set (concat as) \<subseteq> set ad" "set (concat bs) \<subseteq> set ad"
    unfolding eq by blast+
  then show "head \<noteq> 0 \<Longrightarrow> head \<in> set ad"
    using assms by (cases stk) (auto simp: waiter_at_def)
qed

lemma pend_if [simp]:
  "pend (if b then W_Done r else WO_Next h) = []" "pend (if b then W_Done r else WA_Next h) = []"
  by simp_all

text \<open>A step of an adder, of a \<open>wake_one\<close> and of a \<open>wake_all\<close>.\<close>

lemma pend_to_added:
  "distinct (A @ p # B @ C) \<longleftrightarrow> distinct (A @ B @ p # C)"
  "0 \<notin> set (A @ p # B @ C) \<longleftrightarrow> 0 \<notin> set (A @ B @ p # C)"
  by auto

lemma adder_step:
  assumes at: "waiter_at head w ad wo xs ys as bs stk pc q" and pc: "pend pc = [p]"
    and step: "waiter_call_step spur head w pc = (h', w', pc', e)"
  shows "\<exists>stk'. waiter_at h' w' (ev_added e ad) (ev_woken e wo) xs ys as bs stk' pc' []"
proof (cases pc)
  case (AW_Link p' old)
  then have p': "p' = p" using pc by simp
  have p: "p \<notin> set ad" "p \<notin> set stk" "p \<notin> set (concat as)" "p \<notin> set (concat bs)"
    using at pc waiter_at_subsets [OF at] by (auto simp: waiter_at_def)
  moreover have "p \<notin> set (pend c)" if "c \<in> set xs \<union> set ys" for c
    using at pc that by (auto simp: waiter_at_def)
  ultimately show ?thesis
    using at step AW_Link p' unfolding waiter_at_def
    by (intro exI [of _ stk]) (auto simp: chain_update list_all2_held_update sees_update)
next
  case (AW_Cas p' old)
  then have pc': "pc = AW_Cas p old" using pc by simp
  show ?thesis
  proof (cases "head = old \<and> \<not> spur")
    case True
    have "\<forall>c \<in> set xs \<union> set ys. sees (wnodes w) (set (p # ad)) c"
      using at unfolding waiter_at_def by (meson sees_mono set_subset_Cons)
    moreover have "p \<noteq> 0" using at pc' by (auto simp: waiter_at_def)
    moreover have "h' = p" "w' = w" "e = Added p" "pc' = W_Done True" using step pc' True by auto
    ultimately have "waiter_at h' w' (ev_added e ad) (ev_woken e wo) xs ys as bs (p # stk) pc' []"
      using at pc' True pend_to_added [where p = p] unfolding waiter_at_def by (simp del: set_append distinct_append)
    then show ?thesis by blast
  next
    case False
    then have "h' = head" "w' = w" "e = Quiet" "pc' = AW_Link p head" using step pc' by auto
    then have "waiter_at h' w' (ev_added e ad) (ev_woken e wo) xs ys as bs stk pc' []"
      using at pc' unfolding waiter_at_def by simp
    then show ?thesis by blast
  qed
qed (use at step pc in \<open>auto simp: waiter_at_def\<close>)

lemma wake_one_step:
  assumes at: "waiter_at head w ad wo xs ys as bs stk pc q"
    and pc: "pc = WO_Load \<or> pc = WO_Next h \<or> pc = WO_Cas h nxt \<or> pc = WO_Fire h \<or> pc = W_Done r"
    and step: "waiter_call_step spur head w pc = (h', w', pc', e)"
  shows "\<exists>stk' q'. waiter_at h' w' (ev_added e ad) (ev_woken e wo) xs ys as bs stk' pc' q'"
proof -
  have again: "waiter_at head w ad wo xs ys as bs stk (if head = 0 then W_Done False else WO_Next head) []"
    if "q = []" "pend pc = []"
    using at that waiter_at_subsets(4) [OF at] by (cases "head = 0") (simp_all add: waiter_at_def)
  show ?thesis using pc
  proof (elim disjE)
    assume pc: "pc = WO_Load"
    then have "q = []" "pend pc = []" "h' = head" "w' = w" "e = Quiet"
        "pc' = (if head = 0 then W_Done False else WO_Next head)"
      using at step by (auto simp: waiter_at_def)
    then show ?thesis using again by (auto simp del: if_split intro!: exI)
  next
    assume pc: "pc = WO_Next h"
    then have "waiter_at h' w' (ev_added e ad) (ev_woken e wo) xs ys as bs stk pc' []"
      using at step by (simp add: waiter_at_def) force
    then show ?thesis by blast
  next
    assume pc: "pc = WO_Cas h nxt"
    show ?thesis
    proof (cases "head = h \<and> \<not> spur")
      case True
      have "h \<noteq> 0" using at pc by (auto simp: waiter_at_def)
      then obtain rs where "stk = h # rs" using at True by (cases stk) (auto simp: waiter_at_def)
      with True at step pc have "waiter_at h' w' (ev_added e ad) (ev_woken e wo) xs ys as bs rs pc' [h]"
        by (auto simp: waiter_at_def)
      then show ?thesis by blast
    next
      case False
      then have "q = []" "pend pc = []" "h' = head" "w' = w" "e = Quiet"
          "pc' = (if head = 0 then W_Done False else WO_Next head)"
        using at step pc by (auto simp: waiter_at_def)
      then show ?thesis using again by (auto simp del: if_split intro!: exI)
    qed
  next
    assume pc: "pc = WO_Fire h"
    then have "waiter_at h' w' (ev_added e ad) (ev_woken e wo) xs ys as bs stk pc' []"
      using at step by (auto simp: waiter_at_def)
    then show ?thesis by blast
  next
    assume pc: "pc = W_Done r"
    then show ?thesis using at step by auto
  qed
qed

lemma wake_all_step:
  assumes at: "waiter_at head w ad wo xs ys as bs stk pc q"
    and pc: "pc = WA_Swap \<or> pc = WA_Next h \<or> pc = WA_Fire h nxt"
    and step: "waiter_call_step spur head w pc = (h', w', pc', e)"
  shows "\<exists>stk' q'. waiter_at h' w' (ev_added e ad) (ev_woken e wo) xs ys as bs stk' pc' q'"
  using pc
proof (elim disjE)
  assume "pc = WA_Swap"
  then have "waiter_at h' w' (ev_added e ad) (ev_woken e wo) xs ys as bs [] pc' stk"
    using at step by (auto simp: waiter_at_def)
  then show ?thesis by blast
next
  assume pc: "pc = WA_Next h"
  then obtain rs where "q = h # rs" using at by (cases q) (auto simp: waiter_at_def)
  with pc at step have "waiter_at h' w' (ev_added e ad) (ev_woken e wo) xs ys as bs stk pc' q"
    by (auto simp: waiter_at_def)
  then show ?thesis by blast
next
  assume pc: "pc = WA_Fire h nxt"
  then obtain rs where rs: "q = h # rs" "chain (wnodes w) nxt rs" using at by (auto simp: waiter_at_def)
  then have "nxt \<noteq> 0 \<Longrightarrow> rs \<noteq> []" by (cases rs) auto
  with pc rs at step have "waiter_at h' w' (ev_added e ad) (ev_woken e wo) xs ys as bs stk pc' rs"
    by (auto simp: waiter_at_def)
  then show ?thesis by blast
qed

lemma waiter_inv_move:
  assumes "waiter_inv s stk hs" "i < length (w_calls s)"
  shows "\<exists>stk' hs'. waiter_inv (move_caller spur i s) stk' hs'"
proof -
  let ?xs = "take i (w_calls s)" and ?ys = "drop (Suc i) (w_calls s)" and ?pc = "w_calls s ! i"
  obtain as q bs where
    at: "waiter_at (w_head s) (w_mem s) (added s) (woken s) ?xs ?ys as bs stk ?pc q"
    by (rule waiter_inv_at [OF assms])
  obtain h' w' pc' e where step: "waiter_call_step spur (w_head s) (w_mem s) ?pc = (h', w', pc', e)"
    by (metis prod_cases4)
  have "\<exists>stk' q'. waiter_at h' w' (ev_added e (added s)) (ev_woken e (woken s)) ?xs ?ys as bs stk' pc' q'"
    using adder_step [OF at _ step] wake_one_step [OF at _ step] wake_all_step [OF at _ step]
    by (cases ?pc) (simp_all, blast+)
  then obtain stk' q' where
    "waiter_at h' w' (ev_added e (added s)) (ev_woken e (woken s)) ?xs ?ys as bs stk' pc' q'" by blast
  then have "waiter_inv (move_caller spur i s) stk' (as @ q' # bs)"
    by (intro waiter_at_inv [where xs = ?xs and ys = ?ys and pc = pc'])
      (simp_all add: move_caller_def step assms(2) upd_conv_take_nth_drop)
  then show ?thesis by blast
qed

text \<open>Callers about to start: each node is given to one \<open>add_waiter\<close>, the list is empty.\<close>

fun starts :: "waiter_pc \<Rightarrow> bool" where
  "starts (AW_Load p) \<longleftrightarrow> p \<noteq> 0"
| "starts WO_Load \<longleftrightarrow> True"
| "starts WA_Swap \<longleftrightarrow> True"
| "starts _ \<longleftrightarrow> False"

definition waiter_start :: "async_mem \<Rightarrow> waiter_pc list \<Rightarrow> waiter_sys" where
  "waiter_start w cs = \<lparr>w_head = 0, w_mem = w, w_calls = cs, added = [], woken = []\<rparr>"

definition single_adds :: "waiter_pc list \<Rightarrow> bool" where
  "single_adds cs \<longleftrightarrow> list_all starts cs \<and> distinct (concat (map pend cs))"

lemma starts_held:
  "list_all starts cs \<Longrightarrow> list_all2 (held ns) cs (map (\<lambda>c. []) cs)
     \<and> (\<forall>c \<in> set cs. sees ns A c) \<and> 0 \<notin> set (concat (map pend cs))"
proof (induction cs)
  case (Cons c cs)
  then show ?case by (cases c) auto
qed simp

lemma waiter_inv_start: "single_adds cs \<Longrightarrow> waiter_inv (waiter_start w cs) [] (map (\<lambda>c. []) cs)"
  using starts_held by (auto simp: waiter_inv_def waiter_start_def single_adds_def)

lemma waiter_reach_inv:
  "waiter_reach s0 s \<Longrightarrow> waiter_inv s0 [] hs0 \<Longrightarrow> \<exists>stk hs. waiter_inv s stk hs"
proof (induction rule: waiter_reach.induct)
  case start
  then show ?case by blast
next
  case (move s i spur)
  then show ?case using waiter_inv_move by blast
qed

fun finished :: "waiter_pc \<Rightarrow> bool" where
  "finished (W_Done r) \<longleftrightarrow> True"
| "finished _ \<longleftrightarrow> False"

lemma finished_held: "list_all2 (held ns) cs hs \<Longrightarrow> list_all finished cs \<Longrightarrow> concat hs = []"
proof (induction rule: list_all2_induct)
  case (Cons c cs q hs)
  then show ?case by (cases c) auto
qed simp

section \<open>Properties\<close>

text \<open>
  C6. Under concurrency no waiter is lost and none woken twice: for any number of callers
  adding nodes (each node once), waking one and waking all, in every interleaving and with
  any spurious failures, the nodes woken are distinct nodes that were added; and when all
  calls have returned, every node added has been woken or is still on the list, not both.
\<close>

theorem waiters_exactly_once:
  assumes "waiter_reach (waiter_start w cs) s" "single_adds cs"
  shows "distinct (woken s) \<and> set (woken s) \<subseteq> set (added s) \<and> distinct (added s)
    \<and> (list_all finished (w_calls s) \<longrightarrow>
        (\<exists>stk. chain (wnodes (w_mem s)) (w_head s) stk
           \<and> set (added s) = set (woken s) \<union> set stk \<and> set (woken s) \<inter> set stk = {}))"
proof -
  obtain stk hs where inv: "waiter_inv s stk hs"
    using waiter_reach_inv [OF assms(1) waiter_inv_start [OF assms(2)]] by blast
  then have eq: "mset (added s) = mset (woken s @ stk @ concat hs)" and "distinct (added s)"
    by (auto simp: waiter_inv_def)
  then have "distinct (woken s @ stk @ concat hs)" "set (added s) = set (woken s @ stk @ concat hs)"
    by (metis mset_eq_imp_distinct_iff, metis mset_eq_setD)
  moreover have "list_all finished (w_calls s) \<Longrightarrow> concat hs = []"
    using inv finished_held by (auto simp: waiter_inv_def)
  moreover have "chain (wnodes (w_mem s)) (w_head s) stk" using inv by (simp add: waiter_inv_def)
  ultimately show ?thesis using \<open>distinct (added s)\<close>
    by (auto simp del: concat_eq_Nil_conv set_concat intro!: exI [of _ stk])
qed

text \<open>Moves of the callers with these indices, no spurious failures.\<close>

definition moves :: "nat list \<Rightarrow> waiter_sys \<Rightarrow> waiter_sys" where
  "moves is s = fold (move_caller False) is s"

lemma length_move_caller [simp]: "length (w_calls (move_caller spur i s)) = length (w_calls s)"
  by (simp add: move_caller_def split: prod.splits)

lemma moves_reach:
  "waiter_reach s0 s \<Longrightarrow> \<forall>i \<in> set is. i < length (w_calls s) \<Longrightarrow> waiter_reach s0 (moves is s)"
  by (induction "is" arbitrary: s) (auto simp: moves_def waiter_reach.move)

text \<open>
  Two coroutines wait with the nodes 16 and 32.  Caller 2 reads the head 32 and its next
  node 16; callers 3 and 4 take both nodes; the coroutine of 32 runs and waits again with
  the same node (caller 5); caller 2's exchange succeeds on the recycled head.
\<close>

definition aba_calls :: "waiter_pc list" where
  "aba_calls = [AW_Load 16, AW_Load 32, WO_Load, WO_Load, WO_Load, AW_Load 32, WO_Load]"

definition aba_moves :: "nat list" where
  "aba_moves = [0, 0, 0, 1, 1, 1, 2, 2, 3, 3, 3, 3, 4, 4, 4, 4, 5, 5, 5, 2, 2, 6, 6, 6, 6]"

text \<open>
  Without that discipline the pop of \<open>wake_one\<close> has the ABA problem: there is a run in
  which the node 16 is added once and woken twice, because a waker's compare-exchange takes
  a recycled head for the one it read.
\<close>

theorem wake_one_aba:
  "\<exists>s. waiter_reach (waiter_start sample_mem aba_calls) s \<and> list_all finished (w_calls s)
     \<and> count_list (added s) 16 = 1 \<and> count_list (woken s) 16 = 2"
proof (intro exI conjI)
  show "waiter_reach (waiter_start sample_mem aba_calls) (moves aba_moves (waiter_start sample_mem aba_calls))"
    by (rule moves_reach) (auto intro: waiter_reach.start simp: aba_moves_def waiter_start_def aba_calls_def)
qed (simp_all add: moves_def aba_moves_def aba_calls_def waiter_start_def sample_mem_def
    move_caller_def new_node_def fire_node_def)

section \<open>Witness\<close>

text \<open>Two adders and a \<open>wake_all\<close>; the second adder's exchange fails once.\<close>

definition race_calls :: "waiter_pc list" where
  "race_calls = [AW_Load 16, AW_Load 32, WA_Swap]"

definition race_end :: waiter_sys where
  "race_end = moves [0, 1, 1, 0, 0, 1, 1, 1, 2, 2, 2, 2, 2] (waiter_start sample_mem race_calls)"

lemma race_end_reach: "waiter_reach (waiter_start sample_mem race_calls) race_end"
  unfolding race_end_def
  by (rule moves_reach) (auto intro: waiter_reach.start simp: waiter_start_def race_calls_def)

theorem waiters_exactly_once_witness:
  "distinct (woken race_end) \<and> set (woken race_end) = {16, 32} \<and> list_all finished (w_calls race_end)"
proof -
  have "single_adds race_calls" by (simp add: single_adds_def race_calls_def)
  from waiters_exactly_once [OF race_end_reach this] show ?thesis
    by (auto simp: race_end_def moves_def race_calls_def waiter_start_def sample_mem_def
        move_caller_def new_node_def fire_node_def)
qed

end
