(* ===== verification/Monitor.thy ===== *)
theory Monitor
  imports Prelude
begin

text \<open>
  \<open>sync_primitive_base\<close> (\<open>include/shared_state/crtp_base.hpp\<close>): an object behind a mutex
  with condition variables.  A call locks the mutex, waits on a condition variable until its
  predicate holds (possibly with a timeout), and runs its body; other calls run only while
  it waits.  The primitives built on it give their operations as functions from the object
  to an outcome; this theory interleaves the calls of any number of threads and states what
  a primitive has to do so that no wake-up is lost.
\<close>

section \<open>Outcomes and notifications\<close>

datatype notif = Notify_one nat | Notify_all nat

text \<open>
  One locked section of an operation: it returns, having changed the object and notified, or
  it waits on a condition variable because its predicate is false.  A timed wait carries
  the result the operation gives when the time is up and the predicate still false
  (\<open>wait_for\<close> evaluates the predicate once more before it gives up).
\<close>

datatype ('s, 'r) outcome = Ret 's "notif list" 'r | Wait nat "'r option"

fun outcome_state :: "('s, 'r) outcome \<Rightarrow> 's \<Rightarrow> 's" where
  "outcome_state (Ret s ns r) s0 = s"
| "outcome_state (Wait c t) s0 = s0"

text \<open>The wait functions: the body \<open>b\<close> runs if the predicate holds.\<close>

definition wait_for_condition ::
  "nat \<Rightarrow> ('s \<Rightarrow> bool) \<Rightarrow> ('s \<Rightarrow> ('s, 'r) outcome) \<Rightarrow> 's \<Rightarrow> ('s, 'r) outcome" where
  "wait_for_condition c p b s = (if p s then b s else Wait c None)"

definition wait_for_condition_for ::
  "nat \<Rightarrow> ('s \<Rightarrow> bool) \<Rightarrow> 'r \<Rightarrow> ('s \<Rightarrow> ('s, 'r) outcome) \<Rightarrow> 's \<Rightarrow> ('s, 'r) outcome" where
  "wait_for_condition_for c p late b s = (if p s then b s else Wait c (Some late))"

text \<open>\<open>wait_until\<close> differs from \<open>wait_for\<close> only in how the deadline is given.\<close>

definition wait_for_condition_until ::
  "nat \<Rightarrow> ('s \<Rightarrow> bool) \<Rightarrow> 'r \<Rightarrow> ('s \<Rightarrow> ('s, 'r) outcome) \<Rightarrow> 's \<Rightarrow> ('s, 'r) outcome" where
  "wait_for_condition_until c p late b s = (if p s then b s else Wait c (Some late))"

lemmas wait_defs = wait_for_condition_def wait_for_condition_for_def wait_for_condition_until_def

text \<open>The base class's own condition variable.\<close>

definition cv :: nat where "cv = 0"

section \<open>Threads\<close>

text \<open>
  Sleeping calls and calls that were notified and have not locked the mutex again, each with
  its condition variable; and the calls that have returned, the last first.
\<close>

type_synonym 'op sleepers = "(nat \<times> 'op) multiset"

record ('s, 'op, 'r) monitor =
  obj :: 's
  asleep :: "'op sleepers"
  notified :: "'op sleepers"
  history :: "('op \<times> 'r) list"

inductive notify :: "notif list \<Rightarrow> 'op sleepers \<times> 'op sleepers \<Rightarrow> 'op sleepers \<times> 'op sleepers \<Rightarrow> bool"
where
  nobody: "notify [] aw aw"
| one: "(c, x) \<in># A \<Longrightarrow> notify ns (A - {#(c, x)#}, add_mset (c, x) W) aw \<Longrightarrow>
    notify (Notify_one c # ns) (A, W) aw"
| one_idle: "\<forall>x. (c, x) \<notin># A \<Longrightarrow> notify ns (A, W) aw \<Longrightarrow> notify (Notify_one c # ns) (A, W) aw"
| all: "notify ns (filter_mset (\<lambda>x. fst x \<noteq> c) A, W + filter_mset (\<lambda>x. fst x = c) A) aw \<Longrightarrow>
    notify (Notify_all c # ns) (A, W) aw"

text \<open>
  A thread that has the mutex runs the operation \<open>x\<close>; \<open>A\<close> and \<open>W\<close> are the other threads'
  calls.
\<close>

inductive run_locked ::
  "('op \<Rightarrow> 's \<Rightarrow> ('s, 'r) outcome) \<Rightarrow> 'op \<Rightarrow> 'op sleepers \<Rightarrow> 'op sleepers \<Rightarrow>
   ('s, 'op, 'r) monitor \<Rightarrow> ('s, 'op, 'r) monitor \<Rightarrow> bool" for exec where
  returns: "exec x (obj m) = Ret s ns r \<Longrightarrow> notify ns (A, W) (A', W') \<Longrightarrow>
    run_locked exec x A W m \<lparr>obj = s, asleep = A', notified = W', history = (x, r) # history m\<rparr>"
| waits: "exec x (obj m) = Wait c t \<Longrightarrow>
    run_locked exec x A W m (m\<lparr>asleep := add_mset (c, x) A, notified := W\<rparr>)"

inductive mon_step ::
  "('op \<Rightarrow> 's \<Rightarrow> ('s, 'r) outcome) \<Rightarrow> ('op \<Rightarrow> 's \<Rightarrow> bool) \<Rightarrow>
   ('s, 'op, 'r) monitor \<Rightarrow> ('s, 'op, 'r) monitor \<Rightarrow> bool" for exec ok where
  call: "ok x (obj m) \<Longrightarrow> run_locked exec x (asleep m) (notified m) m m' \<Longrightarrow> mon_step exec ok m m'"
| resume: "(c, x) \<in># notified m \<Longrightarrow>
    run_locked exec x (asleep m) (notified m - {#(c, x)#}) m m' \<Longrightarrow> mon_step exec ok m m'"
| spurious: "(c, x) \<in># asleep m \<Longrightarrow>
    mon_step exec ok m (m\<lparr>asleep := asleep m - {#(c, x)#}, notified := add_mset (c, x) (notified m)\<rparr>)"
| time_up: "(c, x) \<in># notified m \<Longrightarrow> exec x (obj m) = Wait c (Some r) \<Longrightarrow>
    mon_step exec ok m (m\<lparr>notified := notified m - {#(c, x)#}, history := (x, r) # history m\<rparr>)"

text \<open>
  A timeout is a spurious wake-up of the sleeping call followed by \<open>time_up\<close> (or by
  \<open>resume\<close> when the predicate holds after all).
\<close>

definition mon_init :: "'s \<Rightarrow> ('s, 'op, 'r) monitor" where
  "mon_init s = \<lparr>obj = s, asleep = {#}, notified = {#}, history = []\<rparr>"

inductive mon_reach ::
  "('op \<Rightarrow> 's \<Rightarrow> ('s, 'r) outcome) \<Rightarrow> ('op \<Rightarrow> 's \<Rightarrow> bool) \<Rightarrow> 's \<Rightarrow> ('s, 'op, 'r) monitor \<Rightarrow> bool"
  for exec ok s0 where
  start: "mon_reach exec ok s0 (mon_init s0)"
| step: "mon_reach exec ok s0 m \<Longrightarrow> mon_step exec ok m m' \<Longrightarrow> mon_reach exec ok s0 m'"

section \<open>Notifying\<close>

definition on :: "nat \<Rightarrow> 'op sleepers \<Rightarrow> 'op sleepers" where
  "on c A = filter_mset (\<lambda>x. fst x = c) A"

definition ones :: "nat \<Rightarrow> notif list \<Rightarrow> nat" where
  "ones c ns = count_list ns (Notify_one c)"

lemma on_simps [simp]:
  "on c {#} = {#}"
  "on c (A + B) = on c A + on c B"
  "on c (add_mset x A) = (if fst x = c then add_mset x (on c A) else on c A)"
  by (simp_all add: on_def)

lemma on_diff_one: "x \<in># A \<Longrightarrow> on c (A - {#x#}) = (if fst x = c then on c A - {#x#} else on c A)"
  by (auto simp: on_def diff_union_swap)

lemma on_filter_other [simp]: "on c (filter_mset (\<lambda>x. fst x \<noteq> d) A) = (if c = d then {#} else on c A)"
  by (auto simp: on_def filter_filter_mset intro: filter_mset_cong)

lemma on_filter_same [simp]: "on c (filter_mset (\<lambda>x. fst x = d) A) = (if c = d then on c A else {#})"
  by (auto simp: on_def filter_filter_mset intro: filter_mset_cong)

lemma on_empty_iff: "on c A = {#} \<longleftrightarrow> (\<forall>x. (c, x) \<notin># A)"
  by (auto simp: on_def)

text \<open>What remains asleep, how many are notified, and that nobody disappears.\<close>

lemma notify_sub: "notify ns (A, W) (A', W') \<Longrightarrow> A' \<subseteq># A \<and> A' + W' = A + W"
proof (induction ns "(A, W)" "(A', W')" arbitrary: A W rule: notify.induct)
  case (one c x A ns W)
  have "A - {#(c, x)#} \<subseteq># A" by simp
  with one show ?case using subset_mset.order_trans by fastforce
next
  case (all ns c A W)
  have "filter_mset (\<lambda>x. fst x \<noteq> c) A \<subseteq># A" by simp
  moreover have "A = filter_mset (\<lambda>x. fst x \<noteq> c) A + filter_mset (\<lambda>x. fst x = c) A"
    using multiset_partition [of A "\<lambda>x. fst x \<noteq> c"] by simp
  ultimately show ?case
    using all subset_mset.order_trans by (metis (no_types, lifting) union_assoc union_commute)
qed auto

lemma notify_count:
  "notify ns (A, W) (A', W') \<Longrightarrow> on c A' \<noteq> {#} \<Longrightarrow>
   Notify_all c \<notin> set ns \<and> size (on c W') = size (on c W) + ones c ns"
proof (induction ns "(A, W)" "(A', W')" arbitrary: A W rule: notify.induct)
  case nobody
  then show ?case by (simp add: ones_def)
next
  case (one d x A ns W)
  then show ?case by (auto simp: ones_def)
next
  case (one_idle d A ns W)
  then have "on c A \<noteq> {#}"
    using notify_sub by (fastforce simp: on_empty_iff dest: mset_subset_eqD)
  with one_idle show ?case by (auto simp: ones_def on_empty_iff)
next
  case (all ns d A W)
  have "c \<noteq> d"
  proof
    assume "c = d"
    then have "on c A' = {#}"
      using notify_sub [OF all(1)] by (fastforce simp: on_empty_iff dest: mset_subset_eqD)
    with all(3) show False by simp
  qed
  with all show ?case by (simp add: ones_def)
qed

section \<open>Every run is a sequential run\<close>

text \<open>
  The bodies one after another, the oldest call last in the list: each returned call ran on
  the state its predecessors left, with its predicate true; a call that gave up found its
  predicate false and changed nothing.
\<close>

fun seq_run :: "('op \<Rightarrow> 's \<Rightarrow> ('s, 'r) outcome) \<Rightarrow> 's \<Rightarrow> ('op \<times> 'r) list \<Rightarrow> 's \<Rightarrow> bool" where
  "seq_run exec s0 [] s \<longleftrightarrow> s = s0"
| "seq_run exec s0 ((x, r) # h) s \<longleftrightarrow>
     (\<exists>s1. seq_run exec s0 h s1
        \<and> ((\<exists>ns. exec x s1 = Ret s ns r) \<or> s = s1 \<and> (\<exists>c. exec x s1 = Wait c (Some r))))"

lemma run_locked_seq:
  "run_locked exec x A W m m' \<Longrightarrow> seq_run exec s0 (history m) (obj m) \<Longrightarrow>
   seq_run exec s0 (history m') (obj m')"
  by (induction rule: run_locked.induct) auto

lemma mon_reach_seq:
  "mon_reach exec ok s0 m \<Longrightarrow> seq_run exec s0 (history m) (obj m)"
proof (induction rule: mon_reach.induct)
  case start
  then show ?case by (simp add: mon_init_def)
next
  case (step m m')
  from step(2,3) show ?case
    by (induction rule: mon_step.induct) (auto dest: run_locked_seq)
qed

text \<open>An invariant of the object's operations holds after every sequential run.\<close>

lemma seq_run_invariant:
  assumes "seq_run exec s0 h s" "P s0"
    and "\<And>x s s' ns r. P s \<Longrightarrow> exec x s = Ret s' ns r \<Longrightarrow> P s'"
  shows "P s"
  using assms(1)
proof (induction h arbitrary: s)
  case (Cons e h)
  then show ?case using assms(3) by (cases e) (auto, blast)
qed (use assms(2) in simp)

lemma seq_run_suffix: "seq_run exec s0 (h2 @ h1) s \<Longrightarrow> \<exists>s1. seq_run exec s0 h1 s1"
proof (induction h2 arbitrary: s)
  case (Cons e h2)
  then show ?case by (cases e) auto
qed auto

text \<open>Steps that need no choice, for concrete runs.\<close>

lemma mon_call_waits:
  "mon_reach exec ok s0 m \<Longrightarrow> ok x (obj m) \<Longrightarrow> exec x (obj m) = Wait c t \<Longrightarrow>
   mon_reach exec ok s0 (m\<lparr>asleep := add_mset (c, x) (asleep m), notified := notified m\<rparr>)"
  by (rule mon_reach.step, assumption, rule mon_step.call, assumption, rule run_locked.waits)

lemma mon_call_quiet:
  "mon_reach exec ok s0 m \<Longrightarrow> ok x (obj m) \<Longrightarrow> exec x (obj m) = Ret s [] r \<Longrightarrow>
   mon_reach exec ok s0
     \<lparr>obj = s, asleep = asleep m, notified = notified m, history = (x, r) # history m\<rparr>"
  by (rule mon_reach.step, assumption, rule mon_step.call, assumption,
      rule run_locked.returns [OF _ notify.nobody])

lemma mon_call_one:
  assumes "mon_reach exec ok s0 m" "ok x (obj m)" "exec x (obj m) = Ret s [Notify_one c] r"
    and "(c, y) \<in># asleep m"
  shows "mon_reach exec ok s0 \<lparr>obj = s, asleep = asleep m - {#(c, y)#},
     notified = add_mset (c, y) (notified m), history = (x, r) # history m\<rparr>"
  by (rule mon_reach.step [OF assms(1)], rule mon_step.call [of ok x, OF assms(2)],
      rule run_locked.returns [of exec x m, OF assms(3) notify.one [OF assms(4) notify.nobody]])

lemma mon_call_idle:
  assumes "mon_reach exec ok s0 m" "ok x (obj m)" "exec x (obj m) = Ret s [Notify_one c] r"
    and "asleep m = {#}"
  shows "mon_reach exec ok s0
    \<lparr>obj = s, asleep = {#}, notified = notified m, history = (x, r) # history m\<rparr>"
proof -
  have "notify [Notify_one c] (asleep m, notified m) ({#}, notified m)"
    using assms(4) by (auto intro: notify.one_idle notify.nobody)
  from run_locked.returns [of exec x m, OF assms(3) this]
  show ?thesis by (intro mon_reach.step [OF assms(1)] mon_step.call [of ok x, OF assms(2)])
qed

section \<open>No lost wake-up\<close>

text \<open>
  The calls of a thread: a caller may start \<open>x\<close> when \<open>ok x\<close> holds, and a call that has
  waited comes back later.
\<close>

definition may_wait :: "('op \<Rightarrow> 's \<Rightarrow> ('s, 'r) outcome) \<Rightarrow> nat \<Rightarrow> 'op \<Rightarrow> bool" where
  "may_wait exec c x \<longleftrightarrow> (\<exists>s t. exec x s = Wait c t)"

definition runnable ::
  "('op \<Rightarrow> 's \<Rightarrow> ('s, 'r) outcome) \<Rightarrow> ('op \<Rightarrow> 's \<Rightarrow> bool) \<Rightarrow> 'op \<Rightarrow> 's \<Rightarrow> bool" where
  "runnable exec ok x s \<longleftrightarrow> ok x s \<or> (\<exists>c. may_wait exec c x)"

lemma sleepers_may_wait:
  "mon_reach exec ok s0 m \<Longrightarrow> (c, x) \<in># asleep m + notified m \<Longrightarrow> may_wait exec c x"
proof (induction arbitrary: c x rule: mon_reach.induct)
  case start
  then show ?case by (simp add: mon_init_def)
next
  case (step m m')
  have run: "may_wait exec c x"
    if "run_locked exec y (asleep m) W m m'" "W \<subseteq># notified m" "(c, x) \<in># asleep m' + notified m'"
    for y W
    using that
  proof (induction rule: run_locked.cases)
    case (returns y m s ns r A W A' W')
    have "A' + W' = A + W" using notify_sub [OF returns(7)] by simp
    then have "(c, x) \<in># A + W" using returns by (metis monitor.select_convs(2,3))
    then show ?case using step(3) returns by (auto dest: mset_subset_eqD)
  next
    case (waits y m c' t A W)
    then show ?case using step(3) by (auto simp: may_wait_def dest: mset_subset_eqD)
  qed
  from step(2) show ?case
  proof (cases rule: mon_step.cases)
    case (call y)
    then show ?thesis using run step(4) by blast
  next
    case (resume d y)
    then show ?thesis using run step(4) by (meson diff_subset_eq_self)
  next
    case (spurious d y)
    then show ?thesis using step(3,4) by (auto dest: in_diffD split: if_splits)
  next
    case (time_up d y r)
    then show ?thesis using step(3,4) by (auto dest: in_diffD)
  qed
qed

text \<open>
  An invariant over the object and the history: kept by every call that runs and by every
  call that gives up.
\<close>

lemma mon_reach_history:
  assumes "mon_reach exec ok s0 m" "P s0 []"
    and ret: "\<And>x s s' ns r h. P s h \<Longrightarrow> runnable exec ok x s \<Longrightarrow> exec x s = Ret s' ns r \<Longrightarrow>
      P s' ((x, r) # h)"
    and late: "\<And>x s c r h. P s h \<Longrightarrow> exec x s = Wait c (Some r) \<Longrightarrow> P s ((x, r) # h)"
  shows "P (obj m) (history m)"
  using assms(1)
proof (induction rule: mon_reach.induct)
  case start
  then show ?case using assms(2) by (simp add: mon_init_def)
next
  case (step m m')
  have run: "P (obj m') (history m')"
    if "run_locked exec x A W m m'" "runnable exec ok x (obj m)" for x A W
    using that(1) by (cases rule: run_locked.cases) (use step(3) ret that(2) in auto)
  from step(2) show ?case
  proof (cases rule: mon_step.cases)
    case (call x)
    then show ?thesis using run by (auto simp: runnable_def)
  next
    case (resume c x)
    then have "runnable exec ok x (obj m)"
      using sleepers_may_wait [OF step(1), of c x] by (auto simp: runnable_def)
    then show ?thesis using run resume by blast
  next
    case (time_up c x r)
    then show ?thesis using step(3) late by auto
  qed (use step(3) in simp)
qed

text \<open>
  The condition variable \<open>c\<close> of an object whose calls run as \<open>exec\<close>.  While \<open>pending\<close> holds
  some call is bound to notify all sleepers (closing stores its flag first and notifies in a
  second step).
\<close>

locale monitor_cv =
  fixes exec :: "'op \<Rightarrow> 's \<Rightarrow> ('s, 'r) outcome"
    and ok :: "'op \<Rightarrow> 's \<Rightarrow> bool"
    and c :: nat
    and pending :: "'s \<Rightarrow> bool"
  assumes pending_kept: "runnable exec ok x s \<Longrightarrow> pending s \<Longrightarrow> exec x s = Ret s' ns r \<Longrightarrow>
      pending s' \<or> Notify_all c \<in> set ns"

text \<open>
  A counted condition: a sleeper needs one of the \<open>avail s\<close> permits, unless the object is
  closed.  A call that may sleep takes at least one; and every call notifies at least as
  often as it adds permits.
\<close>

locale counted_cv = monitor_cv exec ok c pending
  for exec :: "'op \<Rightarrow> 's \<Rightarrow> ('s, 'r) outcome" and ok and c and pending +
  fixes avail :: "'s \<Rightarrow> nat" and closed :: "'s \<Rightarrow> bool"
  assumes needs: "may_wait exec c x \<Longrightarrow> avail s = 0 \<Longrightarrow> \<not> closed s \<Longrightarrow> \<exists>t. exec x s = Wait c t"
    and passes: "may_wait exec c x \<Longrightarrow> exec x s = Wait d t \<Longrightarrow> d = c \<and> avail s = 0 \<and> \<not> closed s"
    and takes: "may_wait exec c x \<Longrightarrow> exec x s = Ret s' ns r \<Longrightarrow> \<not> pending s \<Longrightarrow> \<not> closed s \<Longrightarrow>
      Notify_all c \<in> set ns \<or> pending s' \<or> \<not> closed s' \<and> avail s' < avail s + ones c ns"
    and gives: "runnable exec ok x s \<Longrightarrow> exec x s = Ret s' ns r \<Longrightarrow> \<not> pending s \<Longrightarrow> \<not> closed s \<Longrightarrow>
      Notify_all c \<in> set ns \<or> pending s' \<or> \<not> closed s' \<and> avail s' \<le> avail s + ones c ns"
begin

definition enough :: "'s \<Rightarrow> 'op sleepers \<Rightarrow> 'op sleepers \<Rightarrow> bool" where
  "enough s A W \<longleftrightarrow> on c A \<noteq> {#} \<longrightarrow> pending s \<or> \<not> closed s \<and> avail s \<le> size (on c W)"

lemma enough_after:
  assumes run: "run_locked exec x (asleep m) W m m'" and "enough (obj m) (asleep m) (notified m)"
    and W: "W = notified m \<and> runnable exec ok x (obj m)
      \<or> (\<exists>d. (d, x) \<in># notified m \<and> W = notified m - {#(d, x)#} \<and> may_wait exec d x)"
  shows "enough (obj m') (asleep m') (notified m')"
  using run
proof (cases rule: run_locked.cases)
  case (returns s ns r A' W')
  have can: "runnable exec ok x (obj m)" using W by (auto simp: runnable_def)
  show ?thesis
  proof (cases "on c A' = {#}")
    case False
    from notify_count [OF returns(3) False]
    have n: "Notify_all c \<notin> set ns" "size (on c W') = size (on c W) + ones c ns" by simp_all
    have "on c (asleep m) \<noteq> {#}"
      using notify_sub [OF returns(3)] False by (fastforce simp: on_empty_iff dest: mset_subset_eqD)
    then have old: "pending (obj m) \<or> \<not> closed (obj m) \<and> avail (obj m) \<le> size (on c (notified m))"
      using assms(2) by (simp add: enough_def)
    have "pending s \<or> \<not> closed s \<and> avail s \<le> size (on c W')"
    proof (cases "pending (obj m)")
      case True
      then show ?thesis using pending_kept [OF can True returns(2)] n(1) by blast
    next
      case False
      with old have old': "\<not> closed (obj m)" "avail (obj m) \<le> size (on c (notified m))" by simp_all
      show ?thesis
      proof (cases "(c, x) \<in># notified m \<and> W = notified m - {#(c, x)#} \<and> may_wait exec c x")
        case True
        then have "size (on c W) + 1 = size (on c (notified m))"
          by (auto simp: on_diff_one on_def size_Suc_Diff1)
        with takes [OF _ returns(2) False old'(1)] True n old'(2) show ?thesis by fastforce
      next
        case no: False
        then have "on c W = on c (notified m)" using W by (auto simp: on_diff_one)
        with gives [OF can returns(2) False old'(1)] n old'(2) show ?thesis by fastforce
      qed
    qed
    then show ?thesis using returns(1) by (simp add: enough_def)
  qed (use returns in \<open>simp add: enough_def\<close>)
next
  case (waits d t)
  show ?thesis
  proof (cases "may_wait exec c x")
    case True
    then show ?thesis using waits passes [OF True waits(2)] by (simp add: enough_def)
  next
    case False
    then have "d \<noteq> c" "on c W = on c (notified m)"
      using waits(2) W by (auto simp: may_wait_def on_diff_one)
    then show ?thesis using waits assms(2) by (auto simp: enough_def)
  qed
qed

lemma enough_step:
  assumes "mon_reach exec ok s0 m" "mon_step exec ok m m'" "enough (obj m) (asleep m) (notified m)"
  shows "enough (obj m') (asleep m') (notified m')"
  using assms(2)
proof (cases rule: mon_step.cases)
  case (call x)
  then show ?thesis using enough_after assms(3) by (auto simp: runnable_def)
next
  case (resume d x)
  then have "may_wait exec d x" using sleepers_may_wait [OF assms(1)] by auto
  then show ?thesis using enough_after resume assms(3) by blast
next
  case (spurious d x)
  then show ?thesis using assms(3) by (auto simp: enough_def on_diff_one)
next
  case (time_up d x r)
  show ?thesis
  proof (cases "d = c")
    case True
    then have "may_wait exec c x" using sleepers_may_wait [OF assms(1)] time_up by auto
    then show ?thesis using passes time_up by (auto simp: enough_def)
  next
    case False
    then show ?thesis using time_up assms(3) by (auto simp: enough_def on_diff_one)
  qed
qed

lemma enough_reach: "mon_reach exec ok s0 m \<Longrightarrow> enough (obj m) (asleep m) (notified m)"
proof (induction rule: mon_reach.induct)
  case start
  then show ?case by (simp add: enough_def mon_init_def)
next
  case (step m m')
  then show ?case using enough_step by blast
qed

text \<open>
  A sleeping call for which nothing has been notified yet still has to wait; and there are
  always as many notified calls as permits while somebody sleeps.
\<close>

lemma no_lost_wakeup:
  assumes "mon_reach exec ok s0 m" "(c, x) \<in># asleep m" "\<not> pending (obj m)"
  shows "avail (obj m) \<le> size (on c (notified m))"
    and "on c (notified m) = {#} \<Longrightarrow> \<exists>t. exec x (obj m) = Wait c t"
proof -
  have "on c (asleep m) \<noteq> {#}" using assms(2) by (auto simp: on_empty_iff)
  then have e: "\<not> closed (obj m) \<and> avail (obj m) \<le> size (on c (notified m))"
    using enough_reach [OF assms(1)] assms(3) by (simp add: enough_def)
  then show "avail (obj m) \<le> size (on c (notified m))" by simp
  have "may_wait exec c x" using sleepers_may_wait [OF assms(1)] assms(2) by simp
  with e needs show "on c (notified m) = {#} \<Longrightarrow> \<exists>t. exec x (obj m) = Wait c t" by simp
qed

end

text \<open>
  A broadcast condition: whenever a call may make a sleeper's predicate true, it notifies
  all of them.
\<close>

locale broadcast_cv = monitor_cv exec ok c pending
  for exec :: "'op \<Rightarrow> 's \<Rightarrow> ('s, 'r) outcome" and ok and c and pending +
  assumes announces: "runnable exec ok x s \<Longrightarrow> exec x s = Ret s' ns r \<Longrightarrow> \<not> pending s \<Longrightarrow>
      exec y s = Wait c t \<Longrightarrow> Notify_all c \<in> set ns \<or> pending s' \<or> exec y s' = Wait c t"
begin

definition all_wait :: "'s \<Rightarrow> 'op sleepers \<Rightarrow> bool" where
  "all_wait s A \<longleftrightarrow> pending s \<or> (\<forall>y. (c, y) \<in># A \<longrightarrow> (\<exists>t. exec y s = Wait c t))"

lemma all_wait_after:
  assumes run: "run_locked exec x (asleep m) W m m'" and "all_wait (obj m) (asleep m)"
    and can: "runnable exec ok x (obj m)"
  shows "all_wait (obj m') (asleep m')"
  using run
proof (cases rule: run_locked.cases)
  case (returns s ns r A' W')
  show ?thesis
  proof (cases "on c A' = {#}")
    case True
    then show ?thesis using returns by (simp add: all_wait_def on_empty_iff)
  next
    case False
    have all: "Notify_all c \<notin> set ns" using notify_count [OF returns(3) False] by simp
    have sub: "(c, y) \<in># A' \<Longrightarrow> (c, y) \<in># asleep m" for y
      using notify_sub [OF returns(3)] by (auto dest: mset_subset_eqD)
    show ?thesis
      using returns(1) assms(2) sub all pending_kept [OF can _ returns(2)]
        announces [OF can returns(2)]
      unfolding all_wait_def by (cases "pending (obj m)") (auto, blast+)
  qed
next
  case (waits d t)
  then show ?thesis using assms(2) by (auto simp: all_wait_def)
qed

lemma all_wait_reach: "mon_reach exec ok s0 m \<Longrightarrow> all_wait (obj m) (asleep m)"
proof (induction rule: mon_reach.induct)
  case start
  then show ?case by (simp add: all_wait_def mon_init_def)
next
  case (step m m')
  from step(2) show ?case
  proof (cases rule: mon_step.cases)
    case (call x)
    then show ?thesis using all_wait_after step(3) by (auto simp: runnable_def)
  next
    case (resume d x)
    then have "may_wait exec d x" using sleepers_may_wait [OF step(1)] by auto
    then have "runnable exec ok x (obj m)" by (auto simp: runnable_def)
    with resume step(3) show ?thesis using all_wait_after by blast
  next
    case (spurious d x)
    then show ?thesis using step(3) by (auto simp: all_wait_def dest: in_diffD)
  next
    case (time_up d x r)
    then show ?thesis using step(3) by (auto simp: all_wait_def)
  qed
qed

lemma no_lost_broadcast:
  "mon_reach exec ok s0 m \<Longrightarrow> (c, x) \<in># asleep m \<Longrightarrow> \<not> pending (obj m) \<Longrightarrow>
   \<exists>t. exec x (obj m) = Wait c t"
  using all_wait_reach by (fastforce simp: all_wait_def)

end

end
