(* ===== verification/Semaphore.thy ===== *)
theory Semaphore
  imports Monitor WaiterList
begin

text \<open>
  \<open>sync_semaphore\<close> and \<open>async_semaphore\<close> (\<open>include/shared_state/semaphore.hpp\<close>): a signed
  64-bit count behind a mutex, the calls that block on it, and the coroutines that wait in
  the intrusive waiter list.
\<close>

section \<open>The semaphore and its operations\<close>

record semaphore =
  sem_count :: ptrdiff

definition new_semaphore :: "ptrdiff \<Rightarrow> semaphore" where
  "new_semaphore initial = \<lparr>sem_count = initial\<rparr>"

datatype sem_result = Sem_unit | Sem_bool bool | Sem_value ptrdiff

type_synonym sem_outcome = "(semaphore, sem_result) outcome"

definition has_permit :: "semaphore \<Rightarrow> bool" where
  "has_permit s \<longleftrightarrow> 0 < sint (sem_count s)"

definition take_permit :: "sem_result \<Rightarrow> semaphore \<Rightarrow> sem_outcome" where
  "take_permit r s = Ret (s\<lparr>sem_count := sem_count s - 1\<rparr>) [] r"

definition acquire :: "semaphore \<Rightarrow> sem_outcome" where
  "acquire s = wait_for_condition cv has_permit (take_permit Sem_unit) s"

definition try_acquire :: "semaphore \<Rightarrow> sem_outcome" where
  "try_acquire s = (if has_permit s then take_permit (Sem_bool True) s else Ret s [] (Sem_bool False))"

definition try_acquire_for :: "semaphore \<Rightarrow> sem_outcome" where
  "try_acquire_for s =
     wait_for_condition_for cv has_permit (Sem_bool False) (take_permit (Sem_bool True)) s"

definition try_acquire_until :: "semaphore \<Rightarrow> sem_outcome" where
  "try_acquire_until s =
     wait_for_condition_until cv has_permit (Sem_bool False) (take_permit (Sem_bool True)) s"

text \<open>The loop \<open>for (i = 0; i < n; ++i) notify_one()\<close> runs \<open>n\<close> times, not at all for \<open>n \<le> 0\<close>.\<close>

definition release :: "ptrdiff \<Rightarrow> semaphore \<Rightarrow> sem_outcome" where
  "release n s =
     Ret (s\<lparr>sem_count := sem_count s + n\<rparr>) (replicate (nat (sint n)) (Notify_one cv)) Sem_unit"

definition available :: "semaphore \<Rightarrow> sem_outcome" where
  "available s = Ret s [] (Sem_value (sem_count s))"

lemmas sem_defs = acquire_def try_acquire_def try_acquire_for_def try_acquire_until_def
  release_def available_def take_permit_def has_permit_def wait_defs

section \<open>Calls of any number of threads\<close>

datatype sem_op = Acquire | Try_acquire | Try_acquire_for | Try_acquire_until
  | Release ptrdiff | Available

fun sem_exec :: "sem_op \<Rightarrow> semaphore \<Rightarrow> sem_outcome" where
  "sem_exec Acquire s = acquire s"
| "sem_exec Try_acquire s = try_acquire s"
| "sem_exec Try_acquire_for s = try_acquire_for s"
| "sem_exec Try_acquire_until s = try_acquire_until s"
| "sem_exec (Release n) s = release n s"
| "sem_exec Available s = available s"

text \<open>
  Callers release a number of permits that is not negative and keeps the count in
  \<open>ptrdiff_t\<close> (beyond it the C++ addition is undefined).
\<close>

fun sem_ok :: "sem_op \<Rightarrow> semaphore \<Rightarrow> bool" where
  "sem_ok (Release n) s \<longleftrightarrow> 0 \<le> sint n \<and> sint (sem_count s) + sint n < 2 ^ 63"
| "sem_ok _ s \<longleftrightarrow> True"

definition permits :: "semaphore \<Rightarrow> nat" where
  "permits s = nat (sint (sem_count s))"

lemma permits_take: "has_permit s \<Longrightarrow> permits (s\<lparr>sem_count := sem_count s - 1\<rparr>) < permits s"
  using sint_bounds [of "sem_count s"] by (simp add: permits_def has_permit_def sint_dec)

lemma sem_waits_iff:
  "sem_exec x s = Wait c t \<longleftrightarrow>
     c = cv \<and> \<not> has_permit s \<and> (x = Acquire \<and> t = None
       \<or> (x = Try_acquire_for \<or> x = Try_acquire_until) \<and> t = Some (Sem_bool False))"
  by (cases x) (auto simp: sem_defs)

lemma sem_may_wait:
  "may_wait sem_exec c x \<longleftrightarrow>
     c = cv \<and> (x = Acquire \<or> x = Try_acquire_for \<or> x = Try_acquire_until)"
proof -
  have "\<not> has_permit (new_semaphore 0)" by (simp add: has_permit_def new_semaphore_def)
  then show ?thesis by (auto simp: may_wait_def sem_waits_iff)
qed

lemma no_permit_iff: "\<not> has_permit s \<longleftrightarrow> permits s = 0"
  by (simp add: permits_def has_permit_def not_less)

lemma sem_ret_cases:
  assumes "sem_exec x s = Ret s' ns r"
  shows "s' = s \<and> ns = [] \<and> (x = Available \<or> x = Try_acquire)
    \<or> has_permit s \<and> s' = s\<lparr>sem_count := sem_count s - 1\<rparr> \<and> ns = [] \<and> (\<nexists>n. x = Release n) \<and> x \<noteq> Available
    \<or> (\<exists>n. x = Release n \<and> release n s = Ret s' ns r)"
  using assms by (cases x) (auto simp: sem_defs split: if_splits)

lemma permits_release:
  assumes "release n s = Ret s' ns r" "sem_ok (Release n) s"
  shows "permits s' \<le> permits s + ones cv ns"
  using assms sint_bounds [of "sem_count s"]
  by (auto simp: release_def permits_def ones_def sint_add_fits count_list_replicate)

interpretation sem: counted_cv sem_exec sem_ok cv "\<lambda>s. False" permits "\<lambda>s. False"
proof
  fix x s s' ns r
  assume x: "may_wait sem_exec cv x" and "sem_exec x s = Ret s' ns r"
  from sem_ret_cases [OF this(2)] x
  show "Notify_all cv \<in> set ns \<or> False \<or> \<not> False \<and> permits s' < permits s + ones cv ns"
    using permits_take [of s] by (auto simp: sem_may_wait ones_def)
next
  fix x s s' ns r
  assume run: "runnable sem_exec sem_ok x s" and "sem_exec x s = Ret s' ns r"
  from sem_ret_cases [OF this(2)]
  show "Notify_all cv \<in> set ns \<or> False \<or> \<not> False \<and> permits s' \<le> permits s + ones cv ns"
  proof (elim disjE exE conjE)
    fix n assume "x = Release n" "release n s = Ret s' ns r"
    moreover from this run have "sem_ok (Release n) s" by (auto simp: runnable_def sem_may_wait)
    ultimately show ?thesis using permits_release by auto
  qed (use permits_take [of s] in \<open>auto simp: ones_def\<close>)
qed (auto simp: sem_waits_iff sem_may_wait no_permit_iff)

section \<open>Permits are conserved\<close>

text \<open>The permits a history has released and those it has taken.\<close>

fun released :: "(sem_op \<times> sem_result) list \<Rightarrow> int" where
  "released [] = 0"
| "released ((Release n, r) # h) = sint n + released h"
| "released (_ # h) = released h"

fun takes :: "sem_op \<times> sem_result \<Rightarrow> bool" where
  "takes (Acquire, r) \<longleftrightarrow> True"
| "takes (x, Sem_bool b) \<longleftrightarrow> b"
| "takes _ \<longleftrightarrow> False"

definition acquired :: "(sem_op \<times> sem_result) list \<Rightarrow> int" where
  "acquired h = int (length (filter takes h))"

definition sem_books :: "ptrdiff \<Rightarrow> semaphore \<Rightarrow> (sem_op \<times> sem_result) list \<Rightarrow> bool" where
  "sem_books initial s h \<longleftrightarrow>
     sint (sem_count s) = sint initial + released h - acquired h \<and> 0 \<le> sint (sem_count s)"

lemma sem_books_ret:
  assumes "sem_books initial s h" "runnable sem_exec sem_ok x s" "sem_exec x s = Ret s' ns r"
  shows "sem_books initial s' ((x, r) # h)"
proof (cases x)
  case (Release n)
  then have n: "0 \<le> sint n" "sint (sem_count s) + sint n < 2 ^ 63"
    using assms(2) by (auto simp: runnable_def sem_may_wait)
  then have "sint (sem_count s + n) = sint (sem_count s) + sint n"
    using sint_bounds [of "sem_count s"] by (intro sint_add_fits) simp_all
  with assms(1,3) Release n(1) show ?thesis
    by (auto simp: sem_books_def release_def acquired_def)
qed (use assms(1,3) in \<open>auto simp: sem_books_def sem_defs acquired_def sint_dec split: if_splits\<close>)

lemma sem_books_reach:
  assumes "mon_reach sem_exec sem_ok (new_semaphore initial) m" "0 \<le> sint initial"
  shows "sem_books initial (obj m) (history m)"
  using assms(1)
proof (rule mon_reach_history)
  show "sem_books initial (new_semaphore initial) []"
    using assms(2) by (simp add: sem_books_def new_semaphore_def acquired_def)
next
  fix x s c r h
  assume "sem_books initial s h" "sem_exec x s = Wait c (Some r)"
  then show "sem_books initial s ((x, r) # h)" by (auto simp: sem_books_def sem_waits_iff acquired_def)
qed (rule sem_books_ret)

section \<open>The asynchronous semaphore\<close>

record async_semaphore =
  sem_base :: semaphore
  sem_waiters :: uintptr

definition new_async_semaphore :: "ptrdiff \<Rightarrow> async_semaphore" where
  "new_async_semaphore initial = \<lparr>sem_base = new_semaphore initial, sem_waiters = 0\<rparr>"

text \<open>\<open>try_acquire\<close> as the awaiters call it: whether it took a permit, and the semaphore after.\<close>

definition try_acquire_now :: "semaphore \<Rightarrow> bool \<times> semaphore" where
  "try_acquire_now s =
     (case try_acquire s of Ret s' ns r \<Rightarrow> (r = Sem_bool True, s') | Wait c t \<Rightarrow> (False, s))"

lemma try_acquire_now_simp:
  "try_acquire_now s =
     (if has_permit s then (True, s\<lparr>sem_count := sem_count s - 1\<rparr>) else (False, s))"
  by (simp add: try_acquire_now_def try_acquire_def take_permit_def)

text \<open>The loop of \<open>async_semaphore::release\<close> over the waiters.\<close>

fun wake_up_to :: "nat \<Rightarrow> uintptr \<Rightarrow> async_mem \<Rightarrow> uintptr \<times> async_mem" where
  "wake_up_to 0 head w = (head, w)"
| "wake_up_to (Suc n) head w =
     (if has_waiters head
      then case wake_one head w of (b, head', w') \<Rightarrow> wake_up_to n head' w'
      else (head, w))"

definition async_release ::
  "ptrdiff \<Rightarrow> async_semaphore \<Rightarrow> async_mem \<Rightarrow> async_semaphore \<times> async_mem" where
  "async_release n a w =
     (let s = outcome_state (release n (sem_base a)) (sem_base a);
          (head, w') = wake_up_to (nat (sint n)) (sem_waiters a) w
      in (\<lparr>sem_base = s, sem_waiters = head\<rparr>, w'))"

text \<open>\<open>semaphore_acquire_awaiter\<close>; its node is at address \<open>p\<close> and has no gate.\<close>

definition acquire_ready :: "async_semaphore \<Rightarrow> bool \<times> async_semaphore" where
  "acquire_ready a = (case try_acquire_now (sem_base a) of (b, s) \<Rightarrow> (b, a\<lparr>sem_base := s\<rparr>))"

definition add_acquire_waiter ::
  "uintptr \<Rightarrow> async_semaphore \<Rightarrow> async_mem \<Rightarrow> async_semaphore \<times> async_mem" where
  "add_acquire_waiter p a w =
     (case add_waiter p (sem_waiters a) w of (head, w') \<Rightarrow> (a\<lparr>sem_waiters := head\<rparr>, w'))"

definition acquire_suspend ::
  "uintptr \<Rightarrow> coro \<Rightarrow> async_semaphore \<Rightarrow> async_mem \<Rightarrow> async_semaphore \<times> async_mem" where
  "acquire_suspend p h a w =
     (case add_acquire_waiter p a (arm_node p h 0 w) of (a', w') \<Rightarrow>
        (snd (acquire_ready a'), w'))"

lemma wake_up_to_chain:
  assumes "chain (wnodes w) head qs"
  shows "\<exists>head'. wake_up_to n head w = (head', fold fire_node (take n qs) w)
    \<and> chain (wnodes w) head' (drop n qs)"
  using assms
proof (induction n arbitrary: head qs w)
  case 0
  then show ?case by simp
next
  case (Suc n)
  show ?case
  proof (cases qs)
    case Nil
    then show ?thesis using Suc.prems by (simp add: has_waiters_def)
  next
    case (Cons q rs)
    with Suc.prems have "chain (wnodes (fire_node q w)) (node_next (wnodes w q)) rs" "head = q" "q \<noteq> 0"
      by auto
    with Suc.IH [OF this(1)] Cons show ?thesis by (auto simp: has_waiters_def wake_one_def)
  qed
qed

lemma async_release_chain:
  assumes "chain (wnodes w) (sem_waiters a) qs" "sem_ok (Release n) (sem_base a)"
    and "plain w qs"
  shows "\<exists>a' w'. async_release n a w = (a', w')
    \<and> sint (sem_count (sem_base a')) = sint (sem_count (sem_base a)) + sint n
    \<and> sched w' = sched w @ handles w (take (nat (sint n)) qs)
    \<and> chain (wnodes w') (sem_waiters a') (drop (nat (sint n)) qs)"
proof -
  let ?k = "nat (sint n)"
  obtain head' where wake: "wake_up_to ?k (sem_waiters a) w = (head', fold fire_node (take ?k qs) w)"
    and rest: "chain (wnodes w) head' (drop ?k qs)"
    using wake_up_to_chain [OF assms(1)] by blast
  have "sched (fold fire_node (take ?k qs) w) = sched w @ handles w (take ?k qs)"
    by (rule fold_fire_plain [OF plain_take [OF assms(3)]])
  moreover have "sint (sem_count (sem_base a) + n) = sint (sem_count (sem_base a)) + sint n"
    using assms(2) sint_bounds [of "sem_count (sem_base a)"] by (intro sint_add_fits) simp_all
  ultimately show ?thesis using rest by (simp add: async_release_def wake release_def)
qed

text \<open>Coroutine 5 waits, with its node at 16.\<close>

definition waiting_one :: "async_semaphore \<times> async_mem" where
  "waiting_one = acquire_suspend 16 5 (new_async_semaphore 0) sample_mem"

lemma waiting_one:
  "chain (wnodes (snd waiting_one)) (sem_waiters (fst waiting_one)) [16]"
  "sem_count (sem_base (fst waiting_one)) = 0" "sched (snd waiting_one) = []"
  "node_handle (wnodes (snd waiting_one) 16) = 5" "node_gate (wnodes (snd waiting_one) 16) = 0"
  by (simp_all add: waiting_one_def acquire_suspend_def add_acquire_waiter_def add_waiter_def
      arm_node_def new_async_semaphore_def new_semaphore_def acquire_ready_def try_acquire_now_simp
      has_permit_def sample_mem_def new_node_def)

lemma waiting_one_release:
  "\<exists>a w. async_release 1 (fst waiting_one) (snd waiting_one) = (a, w)
     \<and> sint (sem_count (sem_base a)) = 1 \<and> sched w = [5]"
  using async_release_chain [OF waiting_one(1), of 1] by (fastforce simp: waiting_one plain_def handles_def)

section \<open>Properties\<close>

text \<open>
  C21. Permits are conserved under concurrency: in every reachable state of any number of
  threads acquiring (blocking, trying, with timeouts) and releasing, the count is the
  initial count plus the permits released minus the calls that reported an acquisition,
  and it is never negative.
\<close>

theorem semaphore_conserves_permits:
  assumes "mon_reach sem_exec sem_ok (new_semaphore initial) m" "0 \<le> sint initial"
  shows "sint (sem_count (obj m)) = sint initial + released (history m) - acquired (history m)
    \<and> acquired (history m) \<le> sint initial + released (history m)"
  using sem_books_reach [OF assms] by (simp add: sem_books_def)

text \<open>
  No lost wake-up: while a call sleeps in the semaphore there are at least as many
  notified calls about to look as permits; so when nothing is notified any more, a sleeping
  call means that no permit is left.
\<close>

theorem semaphore_no_lost_wakeup:
  assumes "mon_reach sem_exec sem_ok s0 m" "(cv, x) \<in># asleep m"
  shows "nat (sint (sem_count (obj m))) \<le> size (on cv (notified m))
    \<and> (on cv (notified m) = {#} \<longrightarrow> sint (sem_count (obj m)) \<le> 0)"
proof -
  have "permits (obj m) \<le> size (on cv (notified m))"
    using sem.no_lost_wakeup(1) [OF assms(1,2)] by simp
  then show ?thesis by (auto simp: permits_def)
qed

text \<open>
  \<open>async_semaphore::release\<close> adds \<open>n\<close> permits to the count and, besides, wakes the first
  \<open>n\<close> waiting coroutines (all of them if fewer wait), the last one to suspend first.  The
  woken coroutines do not take a permit from the count: every permit released with a waiter
  present is handed out twice.
\<close>

theorem async_release_wakes:
  assumes "chain (wnodes w) (sem_waiters a) qs" "sem_ok (Release n) (sem_base a)"
    and "plain w qs"
  shows "\<exists>a' w'. async_release n a w = (a', w')
    \<and> sint (sem_count (sem_base a')) = sint (sem_count (sem_base a)) + sint n
    \<and> sched w' = sched w @ handles w (take (nat (sint n)) qs)
    \<and> chain (wnodes w') (sem_waiters a') (drop (nat (sint n)) qs)"
  by (rule async_release_chain [OF assms])

text \<open>
  Over-admission: from a semaphore with no permit, a coroutine waits, one permit is
  released, the coroutine is resumed as its holder, and the next \<open>try_acquire\<close> succeeds as
  well: two holders for one permit.
\<close>

theorem async_semaphore_over_admits:
  "fst (acquire_ready (new_async_semaphore 0)) = False
   \<and> (case async_release 1 (fst waiting_one) (snd waiting_one) of (a, w) \<Rightarrow>
        sched w = [5] \<and> fst (acquire_ready a))"
proof -
  obtain a w where "async_release 1 (fst waiting_one) (snd waiting_one) = (a, w)"
    "sint (sem_count (sem_base a)) = 1" "sched w = [5]" using waiting_one_release by blast
  then show ?thesis
    by (simp add: acquire_ready_def try_acquire_now_simp has_permit_def new_async_semaphore_def
        new_semaphore_def)
qed

text \<open>
  A permit that arrives between \<open>await_ready\<close> and \<open>await_suspend\<close> is lost together with
  the coroutine: the re-check in \<open>await_suspend\<close> takes the permit, but the coroutine stays
  suspended in the waiter list and nothing is scheduled.
\<close>

theorem acquire_suspend_strands:
  assumes "chain (wnodes w) (sem_waiters a) qs" "p \<noteq> 0" "p \<notin> set qs" "has_permit (sem_base a)"
  shows "\<exists>a' w'. acquire_suspend p h a w = (a', w') \<and> sched w' = sched w
    \<and> chain (wnodes w') (sem_waiters a') (p # qs) \<and> node_handle (wnodes w' p) = h
    \<and> sint (sem_count (sem_base a')) = sint (sem_count (sem_base a)) - 1"
proof -
  let ?w = "arm_node p h 0 w"
  obtain head' w' where add: "add_waiter p (sem_waiters a) ?w = (head', w')" by fastforce
  have "chain (wnodes w') head' (p # qs)"
    using chain_add [OF _ assms(2,3) add] assms(1) by simp
  moreover have "sched w' = sched w" "node_handle (wnodes w' p) = h"
    using add by (auto simp: add_waiter_def arm_node_def)
  ultimately show ?thesis
    using assms(4) by (simp add: acquire_suspend_def add_acquire_waiter_def add acquire_ready_def
        try_acquire_now_simp sint_dec has_permit_def)
qed

section \<open>Witnesses\<close>

text \<open>A thread sleeps in \<open>acquire\<close> and another releases one permit.\<close>

definition sem_asleep :: "(semaphore, sem_op, sem_result) monitor" where
  "sem_asleep = \<lparr>obj = \<lparr>sem_count = 0\<rparr>, asleep = {#(cv, Acquire)#}, notified = {#}, history = []\<rparr>"

definition sem_released :: "(semaphore, sem_op, sem_result) monitor" where
  "sem_released = \<lparr>obj = \<lparr>sem_count = 1\<rparr>, asleep = {#}, notified = {#(cv, Acquire)#},
     history = [(Release 1, Sem_unit)]\<rparr>"

lemma sem_asleep_reach: "mon_reach sem_exec sem_ok (new_semaphore 0) sem_asleep"
  using mon_call_waits [OF mon_reach.start, of sem_ok Acquire "new_semaphore 0" sem_exec cv None]
  by (simp add: mon_init_def sem_asleep_def new_semaphore_def sem_defs)

lemma sem_released_reach: "mon_reach sem_exec sem_ok (new_semaphore 0) sem_released"
  using mon_call_one [OF sem_asleep_reach, of "Release 1" "\<lparr>sem_count = 1\<rparr>" cv Sem_unit Acquire]
  by (simp add: sem_asleep_def sem_released_def release_def)

theorem semaphore_conserves_permits_witness:
  "sint (sem_count (obj sem_released)) = 1 \<and> acquired (history sem_released) \<le> 1"
  using semaphore_conserves_permits [OF sem_released_reach] by (simp add: sem_released_def)

theorem semaphore_no_lost_wakeup_witness:
  "on cv (notified sem_asleep) = {#} \<and> sint (sem_count (obj sem_asleep)) \<le> 0"
  using semaphore_no_lost_wakeup [OF sem_asleep_reach, of Acquire] by (simp add: sem_asleep_def)

theorem async_release_wakes_witness:
  "\<exists>a' w'. async_release 1 (fst waiting_one) (snd waiting_one) = (a', w') \<and> sched w' = [5]
     \<and> sint (sem_count (sem_base a')) = 1"
proof -
  show ?thesis
    using async_release_wakes [OF waiting_one(1), of 1] by (fastforce simp: waiting_one plain_def handles_def)
qed

theorem acquire_suspend_strands_witness:
  "\<exists>a' w'. acquire_suspend 16 5 (new_async_semaphore 1) sample_mem = (a', w') \<and> sched w' = []
     \<and> sem_waiters a' = 16 \<and> sint (sem_count (sem_base a')) = 0"
  using acquire_suspend_strands [of sample_mem "new_async_semaphore 1" "[]" 16 5]
  by (auto simp: new_async_semaphore_def new_semaphore_def has_permit_def sample_mem_def)

end
