(* ===== verification/Event.thy ===== *)
theory Event
  imports Monitor WaiterList
begin

text \<open>
  \<open>sync_event\<close> and \<open>async_event\<close> (\<open>include/shared_state/event.hpp\<close>): a flag with manual
  or automatic reset (\<open>manual_reset_policy\<close>, \<open>auto_reset_policy\<close> of \<open>policies.hpp\<close>), the
  threads that block on it and the coroutines in its waiter list.
\<close>

section \<open>The event and its operations\<close>

datatype reset_policy = Manual_reset | Auto_reset

definition auto_reset :: "reset_policy \<Rightarrow> bool" where
  "auto_reset p \<longleftrightarrow> p = Auto_reset"

record event =
  signaled :: bool

datatype event_result = Ev_unit | Ev_bool bool

type_synonym event_outcome = "(event, event_result) outcome"

definition ev_set :: "reset_policy \<Rightarrow> event \<Rightarrow> event_outcome" where
  "ev_set p s =
     Ret (s\<lparr>signaled := True\<rparr>) [if auto_reset p then Notify_one cv else Notify_all cv] Ev_unit"

definition ev_reset :: "event \<Rightarrow> event_outcome" where
  "ev_reset s = Ret (s\<lparr>signaled := False\<rparr>) [] Ev_unit"

definition ev_is_set :: "event \<Rightarrow> event_outcome" where
  "ev_is_set s = Ret s [] (Ev_bool (signaled s))"

text \<open>The flag is cleared by the waiter that gets it, if the reset is automatic.\<close>

definition ev_consume :: "reset_policy \<Rightarrow> event_result \<Rightarrow> event \<Rightarrow> event_outcome" where
  "ev_consume p r s = Ret (if auto_reset p then s\<lparr>signaled := False\<rparr> else s) [] r"

definition ev_try_wait :: "reset_policy \<Rightarrow> event \<Rightarrow> event_outcome" where
  "ev_try_wait p s = (if signaled s then ev_consume p (Ev_bool True) s else Ret s [] (Ev_bool False))"

definition ev_wait :: "reset_policy \<Rightarrow> event \<Rightarrow> event_outcome" where
  "ev_wait p s = wait_for_condition cv signaled (ev_consume p Ev_unit) s"

definition ev_wait_for :: "reset_policy \<Rightarrow> event \<Rightarrow> event_outcome" where
  "ev_wait_for p s =
     wait_for_condition_for cv signaled (Ev_bool False) (ev_consume p (Ev_bool True)) s"

definition ev_wait_until :: "reset_policy \<Rightarrow> event \<Rightarrow> event_outcome" where
  "ev_wait_until p s =
     wait_for_condition_until cv signaled (Ev_bool False) (ev_consume p (Ev_bool True)) s"

lemmas ev_defs = ev_set_def ev_reset_def ev_is_set_def ev_consume_def ev_try_wait_def
  ev_wait_def ev_wait_for_def ev_wait_until_def wait_defs auto_reset_def

datatype event_op = Ev_set | Ev_reset | Ev_is_set | Ev_try_wait | Ev_wait | Ev_wait_for | Ev_wait_until

fun ev_exec :: "reset_policy \<Rightarrow> event_op \<Rightarrow> event \<Rightarrow> event_outcome" where
  "ev_exec p Ev_set s = ev_set p s"
| "ev_exec p Ev_reset s = ev_reset s"
| "ev_exec p Ev_is_set s = ev_is_set s"
| "ev_exec p Ev_try_wait s = ev_try_wait p s"
| "ev_exec p Ev_wait s = ev_wait p s"
| "ev_exec p Ev_wait_for s = ev_wait_for p s"
| "ev_exec p Ev_wait_until s = ev_wait_until p s"

abbreviation ev_ok :: "event_op \<Rightarrow> event \<Rightarrow> bool" where
  "ev_ok \<equiv> \<lambda>x s. True"

lemma ev_waits_iff:
  "ev_exec p x s = Wait c t \<longleftrightarrow>
     c = cv \<and> \<not> signaled s \<and> (x = Ev_wait \<and> t = None
       \<or> (x = Ev_wait_for \<or> x = Ev_wait_until) \<and> t = Some (Ev_bool False))"
  by (cases x) (auto simp: ev_defs)

lemma ev_may_wait:
  "may_wait (ev_exec p) c x \<longleftrightarrow> c = cv \<and> (x = Ev_wait \<or> x = Ev_wait_for \<or> x = Ev_wait_until)"
proof -
  have "\<not> signaled \<lparr>signaled = False\<rparr>" by simp
  then show ?thesis unfolding may_wait_def ev_waits_iff by blast
qed

section \<open>Waking the threads\<close>

text \<open>An automatic event is a condition with one permit at most, a manual one broadcasts.\<close>

definition ev_permits :: "event \<Rightarrow> nat" where
  "ev_permits s = (if signaled s then 1 else 0)"

interpretation auto_ev: counted_cv "ev_exec Auto_reset" ev_ok cv "\<lambda>s. False" ev_permits "\<lambda>s. False"
proof
  fix x s s' ns r
  assume "may_wait (ev_exec Auto_reset) cv x" "ev_exec Auto_reset x s = Ret s' ns r"
  then show "Notify_all cv \<in> set ns \<or> False \<or> \<not> False \<and> ev_permits s' < ev_permits s + ones cv ns"
    by (auto simp: ev_may_wait ev_defs ev_permits_def split: if_splits)
next
  fix x s s' ns r
  assume "ev_exec Auto_reset x s = Ret s' ns r"
  then show "Notify_all cv \<in> set ns \<or> False \<or> \<not> False \<and> ev_permits s' \<le> ev_permits s + ones cv ns"
    by (cases x) (auto simp: ev_defs ev_permits_def ones_def split: if_splits)
qed (auto simp: ev_waits_iff ev_may_wait ev_permits_def split: if_splits)

interpretation manual_ev: broadcast_cv "ev_exec Manual_reset" ev_ok cv "\<lambda>s. False"
proof
  fix x s s' ns r y t
  assume "ev_exec Manual_reset x s = Ret s' ns r" "ev_exec Manual_reset y s = Wait cv t"
  then show "Notify_all cv \<in> set ns \<or> False \<or> ev_exec Manual_reset y s' = Wait cv t"
    by (cases x) (auto simp: ev_waits_iff ev_defs split: if_splits)
qed simp

section \<open>What the threads see\<close>

text \<open>The flag after a history, and its books for an automatic event.\<close>

fun waited :: "event_op \<times> event_result \<Rightarrow> bool" where
  "waited (Ev_wait, r) \<longleftrightarrow> True"
| "waited (Ev_is_set, r) \<longleftrightarrow> False"
| "waited (x, Ev_bool b) \<longleftrightarrow> b"
| "waited _ \<longleftrightarrow> False"

fun flag_after :: "reset_policy \<Rightarrow> bool \<Rightarrow> (event_op \<times> event_result) list \<Rightarrow> bool" where
  "flag_after p initial [] = initial"
| "flag_after p initial (e # h) =
     (if fst e = Ev_set then True
      else if fst e = Ev_reset \<or> p = Auto_reset \<and> waited e then False
      else flag_after p initial h)"

definition sets :: "(event_op \<times> event_result) list \<Rightarrow> nat" where
  "sets h = length (filter (\<lambda>e. fst e = Ev_set) h)"

definition waits_done :: "(event_op \<times> event_result) list \<Rightarrow> nat" where
  "waits_done h = length (filter waited h)"

lemma ev_seq_run:
  "seq_run (ev_exec p) s0 h s \<Longrightarrow> signaled s = flag_after p (signaled s0) h
     \<and> (p = Auto_reset \<longrightarrow> waits_done h + ev_permits s \<le> sets h + ev_permits s0)"
proof (induction h arbitrary: s)
  case Nil
  then show ?case by (simp add: waits_done_def sets_def)
next
  case (Cons e h)
  obtain x r where e: "e = (x, r)" by fastforce
  with Cons.prems obtain s1 where s1: "seq_run (ev_exec p) s0 h s1"
    and run: "(\<exists>ns. ev_exec p x s1 = Ret s ns r) \<or> s = s1 \<and> (\<exists>c. ev_exec p x s1 = Wait c (Some r))"
    by auto
  note IH = Cons.IH [OF s1]
  from run show ?case
  proof
    assume "\<exists>ns. ev_exec p x s1 = Ret s ns r"
    then show ?thesis using IH unfolding e
      by (cases x) (auto simp: ev_defs ev_permits_def waits_done_def sets_def split: if_splits)
  next
    assume "s = s1 \<and> (\<exists>c. ev_exec p x s1 = Wait c (Some r))"
    then show ?thesis using IH unfolding e
      by (auto simp: ev_waits_iff waits_done_def sets_def)
  qed
qed

section \<open>The asynchronous event\<close>

record async_event =
  ev_base :: event
  ev_waiters :: uintptr

definition new_async_event :: "bool \<Rightarrow> async_event" where
  "new_async_event initial = \<lparr>ev_base = \<lparr>signaled = initial\<rparr>, ev_waiters = 0\<rparr>"

text \<open>\<open>None\<close> when the loop over the waiters does not end.\<close>

definition async_set ::
  "reset_policy \<Rightarrow> async_event \<Rightarrow> async_mem \<Rightarrow> (async_event \<times> async_mem) option" where
  "async_set p a w =
     (let s = outcome_state (ev_set p (ev_base a)) (ev_base a) in
      if auto_reset p
      then (case wake_one (ev_waiters a) w of (b, head, w') \<Rightarrow>
              Some (\<lparr>ev_base = s, ev_waiters = head\<rparr>, w'))
      else map_option (\<lambda>(head, w'). (\<lparr>ev_base = s, ev_waiters = head\<rparr>, w'))
             (wake_all (ev_waiters a) w))"

text \<open>\<open>event_wait_awaiter\<close>.\<close>

definition try_wait_now :: "reset_policy \<Rightarrow> event \<Rightarrow> bool \<times> event" where
  "try_wait_now p s =
     (case ev_try_wait p s of Ret s' ns r \<Rightarrow> (r = Ev_bool True, s') | Wait c t \<Rightarrow> (False, s))"

definition wait_ready :: "reset_policy \<Rightarrow> async_event \<Rightarrow> bool \<times> async_event" where
  "wait_ready p a = (case try_wait_now p (ev_base a) of (b, s) \<Rightarrow> (b, a\<lparr>ev_base := s\<rparr>))"

definition add_wait_waiter ::
  "uintptr \<Rightarrow> async_event \<Rightarrow> async_mem \<Rightarrow> async_event \<times> async_mem" where
  "add_wait_waiter p a w =
     (case add_waiter p (ev_waiters a) w of (head, w') \<Rightarrow> (a\<lparr>ev_waiters := head\<rparr>, w'))"

text \<open>The re-check with \<open>is_set\<close> has an empty body.\<close>

definition wait_suspend ::
  "uintptr \<Rightarrow> coro \<Rightarrow> async_event \<Rightarrow> async_mem \<Rightarrow> async_event \<times> async_mem" where
  "wait_suspend p h a w = add_wait_waiter p a (arm_node p h 0 w)"

lemma try_wait_now_simp:
  "try_wait_now p s =
     (signaled s, if signaled s \<and> auto_reset p then s\<lparr>signaled := False\<rparr> else s)"
  by (simp add: try_wait_now_def ev_try_wait_def ev_consume_def)

lemma wait_suspend_chain:
  assumes "chain (wnodes w) (ev_waiters a) qs" "p \<noteq> 0" "p \<notin> set qs"
  shows "\<exists>a' w'. wait_suspend p h a w = (a', w') \<and> chain (wnodes w') (ev_waiters a') (p # qs)
    \<and> ev_base a' = ev_base a \<and> sched w' = sched w \<and> gates w' = gates w
    \<and> node_handle (wnodes w' p) = h \<and> node_gate (wnodes w' p) = 0"
proof -
  obtain head' w' where add: "add_waiter p (ev_waiters a) (arm_node p h 0 w) = (head', w')"
    by fastforce
  have "chain (wnodes w') head' (p # qs)" using chain_add [OF _ assms(2,3) add] assms(1) by simp
  moreover have "sched w' = sched w" "gates w' = gates w" "node_handle (wnodes w' p) = h"
    "node_gate (wnodes w' p) = 0"
    using add by (auto simp: add_waiter_def arm_node_def)
  ultimately show ?thesis by (simp add: wait_suspend_def add_wait_waiter_def add)
qed

section \<open>Properties\<close>

text \<open>
  A wait succeeds only on a set flag, and an automatic event lets at most one waiter
  through per \<open>set\<close>: in every reachable state of any number of threads, the calls that
  reported success each found the flag that the calls before them left set, and for an
  automatic event there are no more of them than there were sets (plus one if the event was
  created set).
\<close>

theorem event_waits_match_sets:
  assumes "mon_reach (ev_exec p) ev_ok \<lparr>signaled = initial\<rparr> m"
  shows "signaled (obj m) = flag_after p initial (history m)
    \<and> (\<forall>h2 e h1. history m = h2 @ e # h1 \<and> waited e \<longrightarrow> flag_after p initial h1)
    \<and> (p = Auto_reset \<longrightarrow> waits_done (history m) \<le> sets (history m) + (if initial then 1 else 0))"
proof -
  have seq: "seq_run (ev_exec p) \<lparr>signaled = initial\<rparr> (history m) (obj m)"
    by (rule mon_reach_seq [OF assms])
  have "flag_after p initial h1" if hist: "history m = h2 @ e # h1" and "waited e" for h2 e h1
  proof -
    obtain s where s: "seq_run (ev_exec p) \<lparr>signaled = initial\<rparr> (e # h1) s"
      using seq_run_suffix [OF seq [unfolded hist]] by blast
    obtain x r where e: "e = (x, r)" by fastforce
    with s obtain s1 where s1: "seq_run (ev_exec p) \<lparr>signaled = initial\<rparr> h1 s1"
      and "(\<exists>ns. ev_exec p x s1 = Ret s ns r) \<or> s = s1 \<and> (\<exists>c. ev_exec p x s1 = Wait c (Some r))"
      by auto
    then have "signaled s1"
      using \<open>waited e\<close> unfolding e by (cases x) (auto simp: ev_defs split: if_splits)
    then show ?thesis using ev_seq_run [OF s1] by simp
  qed
  then show ?thesis using ev_seq_run [OF seq] by (auto simp: ev_permits_def)
qed

text \<open>
  No lost wake-up: a call sleeps in a manual event only while the flag is not set; in an
  automatic event, a sleeping call with no notified call under way means that the flag is
  not set.
\<close>

theorem event_no_lost_wakeup:
  assumes "mon_reach (ev_exec p) ev_ok s0 m" "(cv, x) \<in># asleep m"
    and "p = Manual_reset \<or> on cv (notified m) = {#}"
  shows "\<not> signaled (obj m)"
proof (cases p)
  case Manual_reset
  then show ?thesis using manual_ev.no_lost_broadcast [of s0 m x] assms(1,2) by (auto simp: ev_waits_iff)
next
  case Auto_reset
  then show ?thesis using auto_ev.no_lost_wakeup(2) [of s0 m x] assms by (auto simp: ev_waits_iff)
qed

text \<open>
  \<open>async_event::set\<close> leaves the flag set and resumes coroutines: with manual reset all
  that wait, with automatic reset the last one to suspend.  In the automatic case the
  resumed coroutine does not consume the event: the next \<open>try_wait\<close> succeeds on the same
  \<open>set\<close>.
\<close>

theorem async_set_wakes:
  assumes "chain (wnodes w) (ev_waiters a) qs"
    and "plain w qs"
  shows "\<exists>a' w'. async_set p a w = Some (a', w') \<and> fst (wait_ready p a')
    \<and> (let k = if auto_reset p then 1 else length qs in
        sched w' = sched w @ handles w (take k qs)
        \<and> chain (wnodes w') (ev_waiters a') (drop k qs))"
proof (cases "auto_reset p")
  case True
  then show ?thesis using assms
    by (cases qs) (auto simp: async_set_def Let_def wake_one_def ev_set_def wait_ready_def
        try_wait_now_simp fire_node_def plain_def handles_def)
next
  case False
  then show ?thesis using wake_all_plain [OF assms]
    by (auto simp: async_set_def ev_set_def wait_ready_def try_wait_now_simp)
qed

text \<open>
  A coroutine that suspends on an event set meanwhile stays suspended: \<open>await_suspend\<close>
  queues it, and its re-check of the flag neither schedules it nor takes it off the list.
\<close>

theorem wait_suspend_strands:
  assumes "chain (wnodes w) (ev_waiters a) qs" "p \<noteq> 0" "p \<notin> set qs" "signaled (ev_base a)"
  shows "\<exists>a' w'. wait_suspend p h a w = (a', w') \<and> sched w' = sched w \<and> signaled (ev_base a')
    \<and> chain (wnodes w') (ev_waiters a') (p # qs) \<and> node_handle (wnodes w' p) = h"
  using wait_suspend_chain [OF assms(1-3)] assms(4) by fastforce

section \<open>Witnesses\<close>

definition ev_asleep :: "(event, event_op, event_result) monitor" where
  "ev_asleep = \<lparr>obj = \<lparr>signaled = False\<rparr>, asleep = {#(cv, Ev_wait)#}, notified = {#}, history = []\<rparr>"

lemma ev_asleep_reach: "mon_reach (ev_exec p) ev_ok \<lparr>signaled = False\<rparr> ev_asleep"
  using mon_call_waits [OF mon_reach.start, of ev_ok Ev_wait "\<lparr>signaled = False\<rparr>" "ev_exec p" cv None]
  by (simp add: mon_init_def ev_asleep_def ev_defs)

text \<open>A set and a successful \<open>try_wait\<close> on an automatic event.\<close>

definition ev_history :: "(event_op \<times> event_result) list" where
  "ev_history = [(Ev_try_wait, Ev_bool True), (Ev_set, Ev_unit)]"

lemma ev_history_reach:
  "mon_reach (ev_exec Auto_reset) ev_ok \<lparr>signaled = False\<rparr>
     \<lparr>obj = \<lparr>signaled = False\<rparr>, asleep = {#}, notified = {#}, history = ev_history\<rparr>"
  using mon_call_quiet [OF mon_call_idle [OF mon_reach.start, of ev_ok Ev_set "\<lparr>signaled = False\<rparr>"
        "ev_exec Auto_reset" "\<lparr>signaled = True\<rparr>" cv Ev_unit],
      of Ev_try_wait "\<lparr>signaled = False\<rparr>" "Ev_bool True"]
  by (simp add: mon_init_def ev_defs ev_history_def)

theorem event_waits_match_sets_witness:
  "waits_done ev_history \<le> 1 \<and> flag_after Auto_reset False [(Ev_set, Ev_unit)]"
  using event_waits_match_sets [OF ev_history_reach] by (auto simp: ev_history_def sets_def)

theorem event_no_lost_wakeup_witness: "\<not> signaled (obj ev_asleep)"
  using event_no_lost_wakeup [OF ev_asleep_reach, of Ev_wait Auto_reset] by (simp add: ev_asleep_def)

definition ev_waiting_one :: "async_event \<times> async_mem" where
  "ev_waiting_one = wait_suspend 16 5 (new_async_event False) sample_mem"

lemma ev_waiting_one:
  "chain (wnodes (snd ev_waiting_one)) (ev_waiters (fst ev_waiting_one)) [16]"
  "sched (snd ev_waiting_one) = []"
  "node_handle (wnodes (snd ev_waiting_one) 16) = 5" "node_gate (wnodes (snd ev_waiting_one) 16) = 0"
  by (simp_all add: ev_waiting_one_def wait_suspend_def add_wait_waiter_def add_waiter_def
      arm_node_def new_async_event_def sample_mem_def new_node_def)

theorem async_set_wakes_witness:
  "\<exists>a w. async_set Auto_reset (fst ev_waiting_one) (snd ev_waiting_one) = Some (a, w)
     \<and> sched w = [5] \<and> fst (wait_ready Auto_reset a)"
  using async_set_wakes [OF ev_waiting_one(1), of Auto_reset]
  by (auto simp: ev_waiting_one auto_reset_def plain_def handles_def)

theorem wait_suspend_strands_witness:
  "\<exists>a w. wait_suspend 16 5 (new_async_event True) sample_mem = (a, w) \<and> sched w = []
     \<and> ev_waiters a = 16 \<and> signaled (ev_base a)"
  using wait_suspend_strands [of sample_mem "new_async_event True" "[]" 16 5]
  by (auto simp: new_async_event_def sample_mem_def)

end
