(* ===== verification/Barrier.thy ===== *)
theory Barrier
  imports Monitor WaiterList
begin

text \<open>
  \<open>sync_barrier\<close> and \<open>async_barrier\<close> (\<open>include/shared_state/barrier.hpp\<close>): a barrier with
  numbered phases, arrival tokens, a completion function (the parameter \<open>f\<close>, acting on the
  state it captures), the threads that block on it and the coroutines in its waiter list.
\<close>

section \<open>The barrier and its operations\<close>

record 'c barrier =
  bar_expected :: ptrdiff
  bar_count :: ptrdiff
  bar_phase :: u64
  bar_state :: 'c

definition new_barrier :: "ptrdiff \<Rightarrow> 'c \<Rightarrow> 'c barrier" where
  "new_barrier expected c =
     \<lparr>bar_expected = expected, bar_count = expected, bar_phase = 0, bar_state = c\<rparr>"

definition complete_phase :: "('c \<Rightarrow> 'c) \<Rightarrow> 'c barrier \<Rightarrow> 'c barrier" where
  "complete_phase f s =
     s\<lparr>bar_state := f (bar_state s), bar_count := bar_expected s, bar_phase := bar_phase s + 1\<rparr>"

text \<open>An \<open>arrival_token\<close> is the number of the phase it belongs to.\<close>

datatype bar_result = Bar_unit | Bar_bool bool | Bar_token u64 | Bar_phase u64

type_synonym 'c bar_outcome = "('c barrier, bar_result) outcome"

definition arrive :: "('c \<Rightarrow> 'c) \<Rightarrow> ptrdiff \<Rightarrow> 'c barrier \<Rightarrow> 'c bar_outcome" where
  "arrive f n s =
     (let current_phase = bar_phase s; s1 = s\<lparr>bar_count := bar_count s - n\<rparr> in
      if bar_count s1 = 0
      then Ret (complete_phase f s1) [Notify_all cv] (Bar_token current_phase)
      else Ret s1 [] (Bar_token current_phase))"

definition bar_wait :: "u64 \<Rightarrow> 'c barrier \<Rightarrow> 'c bar_outcome" where
  "bar_wait token s =
     wait_for_condition cv (\<lambda>s. bar_phase s \<noteq> token) (\<lambda>s. Ret s [] Bar_unit) s"

definition bar_wait_for :: "u64 \<Rightarrow> 'c barrier \<Rightarrow> 'c bar_outcome" where
  "bar_wait_for token s =
     wait_for_condition_for cv (\<lambda>s. bar_phase s \<noteq> token) (Bar_bool False)
       (\<lambda>s. Ret s [] (Bar_bool True)) s"

definition arrive_and_drop :: "('c \<Rightarrow> 'c) \<Rightarrow> 'c barrier \<Rightarrow> 'c bar_outcome" where
  "arrive_and_drop f s =
     (let s1 = s\<lparr>bar_expected := bar_expected s - 1, bar_count := bar_count s - 1\<rparr> in
      if bar_count s1 = 0 then Ret (complete_phase f s1) [Notify_all cv] Bar_unit
      else Ret s1 [] Bar_unit)"

definition get_phase :: "'c barrier \<Rightarrow> 'c bar_outcome" where
  "get_phase s = Ret s [] (Bar_phase (bar_phase s))"

lemmas bar_defs = arrive_def bar_wait_def bar_wait_for_def arrive_and_drop_def get_phase_def
  complete_phase_def wait_defs Let_def

text \<open>\<open>arrive_and_wait\<close> is \<open>Arrive 1\<close> and then \<open>Bar_wait\<close> with the token it gave.\<close>

datatype bar_op = Arrive ptrdiff | Bar_wait u64 | Bar_wait_for u64 | Arrive_and_drop | Get_phase

fun bar_exec :: "('c \<Rightarrow> 'c) \<Rightarrow> bar_op \<Rightarrow> 'c barrier \<Rightarrow> 'c bar_outcome" where
  "bar_exec f (Arrive n) s = arrive f n s"
| "bar_exec f (Bar_wait k) s = bar_wait k s"
| "bar_exec f (Bar_wait_for k) s = bar_wait_for k s"
| "bar_exec f Arrive_and_drop s = arrive_and_drop f s"
| "bar_exec f Get_phase s = get_phase s"

text \<open>
  The callers keep to the number of participants: nobody arrives for more than are still
  expected in this phase.
\<close>

fun bar_ok :: "bar_op \<Rightarrow> 'c barrier \<Rightarrow> bool" where
  "bar_ok (Arrive n) s \<longleftrightarrow> 1 \<le> sint n \<and> sint n \<le> sint (bar_count s)"
| "bar_ok Arrive_and_drop s \<longleftrightarrow> 1 \<le> sint (bar_count s)"
| "bar_ok _ s \<longleftrightarrow> True"

text \<open>The same callers when nobody drops out.\<close>

definition bar_ok_fixed :: "bar_op \<Rightarrow> 'c barrier \<Rightarrow> bool" where
  "bar_ok_fixed x s \<longleftrightarrow> bar_ok x s \<and> x \<noteq> Arrive_and_drop"

lemma bar_waits_iff:
  "bar_exec f x s = Wait c t \<longleftrightarrow>
     c = cv \<and> (x = Bar_wait (bar_phase s) \<and> t = None
       \<or> x = Bar_wait_for (bar_phase s) \<and> t = Some (Bar_bool False))"
  by (cases x) (auto simp: bar_defs)

lemma bar_may_wait:
  "may_wait (bar_exec f) c x \<longleftrightarrow> c = cv \<and> (\<exists>k. x = Bar_wait k \<or> x = Bar_wait_for k)"
proof -
  have "bar_phase \<lparr>bar_expected = 0, bar_count = 0, bar_phase = k, bar_state = c\<rparr> = k" for k c
    by simp
  then show ?thesis unfolding may_wait_def bar_waits_iff by metis
qed

interpretation bar: broadcast_cv "bar_exec f" bar_ok cv "\<lambda>s. False"
proof
  fix x s s' ns r y t
  assume "bar_exec f x s = Ret s' ns r" "bar_exec f y s = Wait cv t"
  then show "Notify_all cv \<in> set ns \<or> False \<or> bar_exec f y s' = Wait cv t"
    by (cases x) (auto simp: bar_waits_iff bar_defs split: if_splits)
qed simp

section \<open>Counting the arrivals\<close>

text \<open>All arrivals of a history, and the phase a number of arrivals has reached.\<close>

fun arrivals :: "(bar_op \<times> bar_result) list \<Rightarrow> nat" where
  "arrivals [] = 0"
| "arrivals ((Arrive n, r) # h) = nat (sint n) + arrivals h"
| "arrivals (_ # h) = arrivals h"

definition bar_at :: "('c \<Rightarrow> 'c) \<Rightarrow> nat \<Rightarrow> 'c \<Rightarrow> nat \<Rightarrow> 'c barrier \<Rightarrow> bool" where
  "bar_at f E c A s \<longleftrightarrow> sint (bar_expected s) = int E
     \<and> sint (bar_count s) = int (E - A mod E)
     \<and> bar_phase s = of_nat (A div E) \<and> bar_state s = (f ^^ (A div E)) c"

lemma div_mod_after:
  fixes A E k :: nat
  assumes "k < E - A mod E"
  shows "(A + k) div E = A div E \<and> (A + k) mod E = A mod E + k"
proof -
  obtain q r where A: "A = q * E + r" and qr: "A div E = q" "A mod E = r"
    by (metis div_mult_mod_eq)
  have r: "r + k < E" using assms qr by simp
  then have "(q * E + (r + k)) div E = q" "(q * E + (r + k)) mod E = r + k" by simp_all
  then show ?thesis unfolding qr by (simp add: A add.assoc)
qed

lemma div_mod_full:
  fixes A E :: nat
  assumes "0 < E"
  shows "(A + (E - A mod E)) div E = Suc (A div E) \<and> (A + (E - A mod E)) mod E = 0"
proof -
  have "A mod E < E" using assms by simp
  moreover have "A = A div E * E + A mod E" by simp
  ultimately have "A + (E - A mod E) = (A div E + 1) * E"
    unfolding add_mult_distrib by linarith
  then show ?thesis using assms by simp
qed

lemma bar_at_arrive:
  assumes "bar_at f E c A s" "0 < E" "1 \<le> sint n" "sint n \<le> sint (bar_count s)"
    and "arrive f n s = Ret s' ns r"
  shows "bar_at f E c (nat (sint n) + A) s'"
proof -
  let ?k = "nat (sint n)"
  have sub: "sint (bar_count s - n) = sint (bar_count s) - sint n"
    using assms(3,4) sint_bounds [of "bar_count s"] by (intro sint_sub_fits) simp_all
  have "0 < E - A mod E" using assms(2) by simp
  have k: "?k \<le> E - A mod E" using assms(1,3,4) by (simp add: bar_at_def)
  show ?thesis
  proof (cases "?k = E - A mod E")
    case True
    then have "sint (bar_count s - n) = sint (0 :: ptrdiff)"
      using assms(1,3) sub by (simp add: bar_at_def)
    then have "bar_count s - n = 0" by (simp add: signed_eq_0_iff)
    then have "s' = complete_phase f (s\<lparr>bar_count := 0\<rparr>)"
      using assms(5) by (simp add: arrive_def Let_def)
    then show ?thesis using assms(1,2) div_mod_full [of E A] True
      by (simp add: bar_at_def complete_phase_def add.commute)
  next
    case False
    then have "bar_count s - n \<noteq> 0" using sub assms(1,3) k by (auto simp: bar_at_def)
    then have "s' = s\<lparr>bar_count := bar_count s - n\<rparr>"
      using assms(5) by (auto simp: arrive_def Let_def)
    then show ?thesis using assms(1,3) sub k False div_mod_after [of ?k E A]
      by (auto simp: bar_at_def add.commute of_nat_diff)
  qed
qed

text \<open>The token with which a returned wait has passed.\<close>

fun passed :: "bar_op \<times> bar_result \<Rightarrow> u64 option" where
  "passed (Bar_wait k, r) = Some k"
| "passed (Bar_wait_for k, Bar_bool True) = Some k"
| "passed _ = None"

fun bar_good :: "nat \<Rightarrow> (bar_op \<times> bar_result) list \<Rightarrow> bool" where
  "bar_good E [] \<longleftrightarrow> True"
| "bar_good E (e # h) \<longleftrightarrow> bar_good E h
     \<and> (\<forall>k. passed e = Some k \<longrightarrow> k \<noteq> of_nat (arrivals h div E))
     \<and> (\<forall>n k. e = (Arrive n, Bar_token k) \<longrightarrow> k = of_nat (arrivals h div E))"

lemma bar_hist_ret:
  assumes "bar_at f E c (arrivals h) s \<and> bar_good E h" "0 < E"
    and "runnable (bar_exec f) bar_ok_fixed x s" "bar_exec f x s = Ret s' ns r"
  shows "bar_at f E c (arrivals ((x, r) # h)) s' \<and> bar_good E ((x, r) # h)"
proof (cases x)
  case (Arrive n)
  then have "1 \<le> sint n" "sint n \<le> sint (bar_count s)"
    using assms(3) by (auto simp: runnable_def bar_may_wait bar_ok_fixed_def)
  moreover from assms(4) Arrive have "arrive f n s = Ret s' ns r" by simp
  moreover from this have "r = Bar_token (bar_phase s)" by (auto simp: arrive_def Let_def split: if_splits)
  ultimately show ?thesis using bar_at_arrive [of f E c "arrivals h" s n s' ns r] assms(1,2) Arrive
    by (simp add: bar_at_def)
next
  case Arrive_and_drop
  then show ?thesis using assms(3) by (auto simp: runnable_def bar_may_wait bar_ok_fixed_def)
qed (use assms(1,4) in \<open>auto simp: bar_defs bar_at_def split: if_splits\<close>)

lemma bar_hist_reach:
  assumes "mon_reach (bar_exec f) bar_ok_fixed (new_barrier (of_nat E) c) m" "0 < E" "E < 2 ^ 63"
  shows "bar_at f E c (arrivals (history m)) (obj m) \<and> bar_good E (history m)"
  using assms(1)
proof (rule mon_reach_history)
  have "sint (of_nat E :: ptrdiff) = int E"
    using assms(3) by (simp add: signed_of_nat signed_take_bit_int_eq_self)
  then show "bar_at f E c (arrivals []) (new_barrier (of_nat E) c) \<and> bar_good E []"
    by (simp add: bar_at_def new_barrier_def)
next
  fix x s cc r h
  assume "bar_at f E c (arrivals h) s \<and> bar_good E h" "bar_exec f x s = Wait cc (Some r)"
  then show "bar_at f E c (arrivals ((x, r) # h)) s \<and> bar_good E ((x, r) # h)"
    by (auto simp: bar_waits_iff)
qed (rule bar_hist_ret [OF _ assms(2)])

lemma bar_good_suffix: "bar_good E (h2 @ h1) \<Longrightarrow> bar_good E h1"
  by (induction h2) auto

lemma arrivals_mono: "arrivals h1 \<le> arrivals (h2 @ h1)"
proof (induction h2)
  case (Cons e h2)
  then show ?case by (cases e; cases "fst e") auto
qed simp

lemma bar_good_token:
  assumes "bar_good E h" "(Arrive n, Bar_token k) \<in> set h"
  shows "\<exists>j \<le> arrivals h div E. k = of_nat j"
proof -
  obtain h2 h1 where h: "h = h2 @ (Arrive n, Bar_token k) # h1" using assms(2) by (meson split_list)
  then have "k = of_nat (arrivals h1 div E)" using bar_good_suffix assms(1) by fastforce
  moreover have "arrivals h1 \<le> arrivals h" using arrivals_mono [of h1 "h2 @ [_]"] h by simp
  ultimately show ?thesis using div_le_mono by blast
qed

section \<open>Participants that drop out\<close>

definition bar_bounds :: "'c barrier \<Rightarrow> bool" where
  "bar_bounds s \<longleftrightarrow> 1 \<le> sint (bar_count s) \<and> sint (bar_count s) \<le> sint (bar_expected s)
     \<or> bar_count s = 0 \<and> bar_expected s = 0"

lemma bar_bounds_ret:
  assumes "bar_bounds s" "runnable (bar_exec f) bar_ok x s" "bar_exec f x s = Ret s' ns r"
  shows "bar_bounds s'"
proof (cases x)
  case (Arrive n)
  then have n: "1 \<le> sint n" "sint n \<le> sint (bar_count s)"
    using assms(2) by (auto simp: runnable_def bar_may_wait)
  then have sub: "sint (bar_count s - n) = sint (bar_count s) - sint n"
    using sint_bounds [of "bar_count s"] by (intro sint_sub_fits) simp_all
  moreover have "bar_count s - n \<noteq> 0 \<longleftrightarrow> sint (bar_count s - n) \<noteq> 0" by (simp add: signed_eq_0_iff)
  ultimately have "bar_count s - n = 0 \<or> 1 \<le> sint (bar_count s - n)"
    using n by linarith
  moreover have "1 \<le> sint (bar_expected s) \<and> sint (bar_count s) \<le> sint (bar_expected s)"
    using assms(1) n by (auto simp: bar_bounds_def)
  ultimately show ?thesis using assms(3) Arrive n sub
    by (auto simp: bar_bounds_def bar_defs split: if_splits)
next
  case Arrive_and_drop
  then have n: "1 \<le> sint (bar_count s)"
    using assms(2) by (auto simp: runnable_def bar_may_wait)
  then have le: "sint (bar_count s) \<le> sint (bar_expected s)" using assms(1) by (auto simp: bar_bounds_def)
  have dec: "sint (bar_count s - 1) = sint (bar_count s) - 1"
    "sint (bar_expected s - 1) = sint (bar_expected s) - 1"
    using n le by (simp_all add: sint_dec)
  have zero: "bar_count s - 1 \<noteq> 0 \<Longrightarrow> sint (bar_count s - 1) \<noteq> 0"
    "bar_expected s - 1 \<noteq> 0 \<Longrightarrow> sint (bar_expected s - 1) \<noteq> 0" by (simp_all add: signed_eq_0_iff)
  show ?thesis
  proof (cases "bar_count s - 1 = 0")
    case True
    then have "s' = complete_phase f (s\<lparr>bar_expected := bar_expected s - 1, bar_count := 0\<rparr>)"
      using assms(3) Arrive_and_drop by (simp add: arrive_and_drop_def Let_def)
    moreover have "bar_expected s - 1 = 0 \<or> 1 \<le> sint (bar_expected s - 1)"
      using zero(2) dec(2) n le by linarith
    ultimately show ?thesis by (auto simp: bar_bounds_def complete_phase_def)
  next
    case False
    then have "s' = s\<lparr>bar_expected := bar_expected s - 1, bar_count := bar_count s - 1\<rparr>"
      using assms(3) Arrive_and_drop by (simp add: arrive_and_drop_def Let_def)
    then show ?thesis using zero(1) [OF False] dec n le by (simp add: bar_bounds_def)
  qed
qed (use assms(1,3) in \<open>auto simp: bar_defs bar_bounds_def split: if_splits\<close>)

lemma bar_bounds_reach:
  assumes "mon_reach (bar_exec f) bar_ok (new_barrier expected c) m" "1 \<le> sint expected"
  shows "bar_bounds (obj m)"
  using assms(1)
proof (rule mon_reach_history [where P = "\<lambda>s h. bar_bounds s"])
  show "bar_bounds (new_barrier expected c)" using assms(2) by (simp add: bar_bounds_def new_barrier_def)
qed (rule bar_bounds_ret)

section \<open>The asynchronous barrier\<close>

record 'c async_barrier =
  bar_base :: "'c barrier"
  bar_waiters :: uintptr

definition new_async_barrier :: "ptrdiff \<Rightarrow> 'c \<Rightarrow> 'c async_barrier" where
  "new_async_barrier expected c = \<lparr>bar_base = new_barrier expected c, bar_waiters = 0\<rparr>"

text \<open>The token, or \<open>None\<close> when the loop over the waiters does not end.\<close>

definition async_arrive ::
  "('c \<Rightarrow> 'c) \<Rightarrow> ptrdiff \<Rightarrow> 'c async_barrier \<Rightarrow> async_mem \<Rightarrow>
   (u64 \<times> 'c async_barrier \<times> async_mem) option" where
  "async_arrive f n a w =
     (let token = bar_phase (bar_base a);
          s = outcome_state (arrive f n (bar_base a)) (bar_base a) in
      if bar_phase s \<noteq> token
      then map_option (\<lambda>(head, w'). (token, \<lparr>bar_base = s, bar_waiters = head\<rparr>, w'))
             (wake_all (bar_waiters a) w)
      else Some (token, a\<lparr>bar_base := s\<rparr>, w))"

text \<open>Inherited unchanged from \<open>sync_barrier\<close>.\<close>

definition async_arrive_and_drop :: "('c \<Rightarrow> 'c) \<Rightarrow> 'c async_barrier \<Rightarrow> 'c async_barrier" where
  "async_arrive_and_drop f a =
     a\<lparr>bar_base := outcome_state (arrive_and_drop f (bar_base a)) (bar_base a)\<rparr>"

text \<open>\<open>barrier_wait_awaiter\<close>; the re-check of the phase has an empty body.\<close>

definition bar_wait_ready :: "u64 \<Rightarrow> 'c async_barrier \<Rightarrow> bool" where
  "bar_wait_ready token a \<longleftrightarrow> bar_phase (bar_base a) \<noteq> token"

definition add_phase_waiter ::
  "uintptr \<Rightarrow> 'c async_barrier \<Rightarrow> async_mem \<Rightarrow> 'c async_barrier \<times> async_mem" where
  "add_phase_waiter p a w =
     (case add_waiter p (bar_waiters a) w of (head, w') \<Rightarrow> (a\<lparr>bar_waiters := head\<rparr>, w'))"

definition bar_wait_suspend ::
  "uintptr \<Rightarrow> coro \<Rightarrow> 'c async_barrier \<Rightarrow> async_mem \<Rightarrow> 'c async_barrier \<times> async_mem" where
  "bar_wait_suspend p h a w = add_phase_waiter p a (arm_node p h 0 w)"

lemma last_arrival:
  assumes "sint n = sint (bar_count s)"
  shows "arrive f n s = Ret (complete_phase f (s\<lparr>bar_count := 0\<rparr>)) [Notify_all cv] (Bar_token (bar_phase s))"
proof -
  have "n = bar_count s" using assms by (rule signed_word_eqI)
  then have "bar_count s - n = 0" by simp
  then show ?thesis by (simp add: arrive_def Let_def)
qed

section \<open>Properties\<close>

text \<open>
  C22. The phases count the arrivals: for a barrier of \<open>E\<close> participants and callers that
  stay within them, after \<open>A\<close> arrivals by any threads in any order \<open>A div E\<close> phases are
  complete (modulo 2 to the 64), the completion function has run exactly that often, and
  \<open>E - A mod E\<close> arrivals are missing in the current phase.
\<close>

theorem barrier_counts_arrivals:
  assumes "mon_reach (bar_exec f) bar_ok_fixed (new_barrier (of_nat E) c) m" "0 < E" "E < 2 ^ 63"
  shows "bar_phase (obj m) = of_nat (arrivals (history m) div E)
    \<and> bar_state (obj m) = (f ^^ (arrivals (history m) div E)) c
    \<and> sint (bar_count (obj m)) = int (E - arrivals (history m) mod E)
    \<and> sint (bar_expected (obj m)) = int E"
  using bar_hist_reach [OF assms] by (simp add: bar_at_def)

text \<open>
  Nobody passes before all have arrived: if a wait (also a timed one that did not time
  out) returns for a token \<open>k\<close> that an arrival had given out, then before it at least
  \<open>(k + 1) * E\<close> arrivals were made, that is, all \<open>E\<close> arrivals of every phase up to \<open>k\<close>.
\<close>

theorem barrier_waits_for_all:
  assumes "mon_reach (bar_exec f) bar_ok_fixed (new_barrier (of_nat E) c) m" "0 < E" "E < 2 ^ 63"
    and "history m = h2 @ e # h1" "passed e = Some k" "(Arrive n, Bar_token k) \<in> set h1"
    and "arrivals h1 div E < 2 ^ 64"
  shows "(unat k + 1) * E \<le> arrivals h1"
proof -
  have good: "bar_good E (e # h1)"
    using bar_hist_reach [OF assms(1-3)] bar_good_suffix assms(4) by metis
  then have "bar_good E h1" by simp
  from bar_good_token [OF this assms(6)] obtain j where j: "j \<le> arrivals h1 div E" "k = of_nat j" by blast
  then have "unat k = j" using assms(7) by (simp add: unat_of_nat)
  moreover have "j \<noteq> arrivals h1 div E" using good assms(5) j(2) by auto
  ultimately have "unat k + 1 \<le> arrivals h1 div E" using j(1) by simp
  then have "(unat k + 1) * E \<le> arrivals h1 div E * E" by (rule mult_le_mono1)
  also have "\<dots> \<le> arrivals h1" by simp
  finally show ?thesis .
qed

text \<open>
  No lost wake-up: a call sleeps in the barrier only while its token's phase is the
  current one, also when participants drop out.
\<close>

theorem barrier_no_lost_wakeup:
  assumes "mon_reach (bar_exec f) bar_ok s0 m" "(cv, x) \<in># asleep m"
  shows "x = Bar_wait (bar_phase (obj m)) \<or> x = Bar_wait_for (bar_phase (obj m))"
  using bar.no_lost_broadcast [OF assms] by (auto simp: bar_waits_iff)

text \<open>
  The barrier never gets stuck: with arrivals and drops in any order, between 1 and
  \<open>expected_\<close> arrivals are missing until all have dropped out, and the arrival of as many as
  are missing completes the phase and notifies everybody.
\<close>

theorem barrier_never_stuck:
  assumes "mon_reach (bar_exec f) bar_ok (new_barrier expected c) m" "1 \<le> sint expected"
  shows "bar_count (obj m) = 0 \<and> bar_expected (obj m) = 0
    \<or> 1 \<le> sint (bar_count (obj m)) \<and> sint (bar_count (obj m)) \<le> sint (bar_expected (obj m))
      \<and> bar_ok (Arrive (bar_count (obj m))) (obj m)
      \<and> (\<exists>s. arrive f (bar_count (obj m)) (obj m) = Ret s [Notify_all cv] (Bar_token (bar_phase (obj m)))
           \<and> bar_phase s = bar_phase (obj m) + 1 \<and> bar_count s = bar_expected (obj m))"
  using bar_bounds_reach [OF assms] by (auto simp: bar_bounds_def last_arrival complete_phase_def)

text \<open>
  The last arrival of a phase at an asynchronous barrier resumes all waiting
  coroutines; but when the phase is completed by \<open>arrive_and_drop\<close> they all stay suspended,
  although the phase they wait for is over.
\<close>

theorem async_barrier_wakes:
  assumes "chain (wnodes w) (bar_waiters a) qs" "sint n = sint (bar_count (bar_base a))"
    and "plain w qs"
    and "sint (bar_count (bar_base a)) = 1"
  shows "(\<exists>a' w'. async_arrive f n a w = Some (bar_phase (bar_base a), a', w')
        \<and> bar_phase (bar_base a') = bar_phase (bar_base a) + 1
        \<and> sched w' = sched w @ handles w qs \<and> bar_waiters a' = 0)
    \<and> bar_phase (bar_base (async_arrive_and_drop f a)) = bar_phase (bar_base a) + 1
    \<and> bar_waiters (async_arrive_and_drop f a) = bar_waiters a"
proof -
  have "sint (bar_count (bar_base a)) = sint (1 :: ptrdiff)" using assms(4) by simp
  then have "bar_count (bar_base a) = 1" by (rule signed_word_eqI)
  then show ?thesis
    using wake_all_plain [OF assms(1,3)]
    by (auto simp add: async_arrive_def last_arrival [OF assms(2)] complete_phase_def
        async_arrive_and_drop_def arrive_and_drop_def Let_def)
qed

section \<open>Witnesses\<close>

text \<open>A barrier of one participant: an arrival, then a wait with its token.\<close>

definition solo :: "(unit barrier, bar_op, bar_result) monitor" where
  "solo = \<lparr>obj = \<lparr>bar_expected = 1, bar_count = 1, bar_phase = 1, bar_state = ()\<rparr>, asleep = {#},
     notified = {#}, history = [(Bar_wait 0, Bar_unit), (Arrive 1, Bar_token 0)]\<rparr>"

lemma notify_nobody: "notify [Notify_all c] ({#}, W) ({#}, W)"
  using notify.all [OF notify.nobody, of c "{#}" W] by simp

lemma solo_reach: "mon_reach (bar_exec (\<lambda>u. u)) bar_ok_fixed (new_barrier (of_nat 1) ()) solo"
proof -
  let ?s0 = "new_barrier (of_nat 1) ()" and ?s1 = "obj solo"
  have "run_locked (bar_exec (\<lambda>u. u)) (Arrive 1) {#} {#} (mon_init ?s0)
      \<lparr>obj = ?s1, asleep = {#}, notified = {#}, history = [(Arrive 1, Bar_token 0)]\<rparr>"
    using run_locked.returns [of "bar_exec (\<lambda>u. u)" "Arrive 1" "mon_init ?s0" ?s1 "[Notify_all cv]"
        "Bar_token 0", OF _ notify_nobody [of cv "{#}"]]
    by (simp add: mon_init_def new_barrier_def arrive_def complete_phase_def solo_def)
  then have "mon_reach (bar_exec (\<lambda>u. u)) bar_ok_fixed ?s0
      \<lparr>obj = ?s1, asleep = {#}, notified = {#}, history = [(Arrive 1, Bar_token 0)]\<rparr>"
    by (intro mon_reach.step [OF mon_reach.start] mon_step.call [of bar_ok_fixed "Arrive 1"])
      (simp_all add: mon_init_def new_barrier_def bar_ok_fixed_def)
  from mon_call_quiet [OF this, of "Bar_wait 0" ?s1 Bar_unit] show ?thesis
    by (simp add: bar_ok_fixed_def bar_defs solo_def)
qed

theorem barrier_counts_arrivals_witness:
  "bar_phase (obj solo) = of_nat (arrivals (history solo)) \<and> sint (bar_count (obj solo)) = 1"
  using barrier_counts_arrivals [OF solo_reach] by simp

theorem barrier_waits_for_all_witness: "1 \<le> arrivals [(Arrive 1, Bar_token 0)]"
  using barrier_waits_for_all [OF solo_reach, of "[]" "(Bar_wait 0, Bar_unit)" "[(Arrive 1, Bar_token 0)]" 0 1]
  by (simp add: solo_def)

definition bar_asleep :: "(unit barrier, bar_op, bar_result) monitor" where
  "bar_asleep = \<lparr>obj = new_barrier 2 (), asleep = {#(cv, Bar_wait 0)#}, notified = {#}, history = []\<rparr>"

lemma bar_asleep_reach: "mon_reach (bar_exec (\<lambda>u. u)) bar_ok (new_barrier 2 ()) bar_asleep"
  using mon_call_waits [OF mon_reach.start, of bar_ok "Bar_wait 0" "new_barrier 2 ()" "bar_exec (\<lambda>u. u)" cv None]
  by (simp add: mon_init_def bar_asleep_def bar_defs new_barrier_def)

theorem barrier_no_lost_wakeup_witness: "bar_phase (obj bar_asleep) = 0"
  using barrier_no_lost_wakeup [OF bar_asleep_reach, of "Bar_wait 0"] by (simp add: bar_asleep_def)

theorem barrier_never_stuck_witness:
  "\<exists>s. arrive (\<lambda>u. u) 2 (obj bar_asleep) = Ret s [Notify_all cv] (Bar_token 0) \<and> bar_phase s = 1"
  using barrier_never_stuck [OF bar_asleep_reach] by (auto simp: bar_asleep_def new_barrier_def)

definition bar_waiting_one :: "unit async_barrier \<times> async_mem" where
  "bar_waiting_one = bar_wait_suspend 16 5 (new_async_barrier 1 ()) sample_mem"

theorem async_barrier_wakes_witness:
  "(\<exists>a w. async_arrive (\<lambda>u. u) 1 (fst bar_waiting_one) (snd bar_waiting_one) = Some (0, a, w)
      \<and> sched w = [5])
   \<and> bar_waiters (async_arrive_and_drop (\<lambda>u. u) (fst bar_waiting_one)) = 16"
proof -
  have w: "chain (wnodes (snd bar_waiting_one)) (bar_waiters (fst bar_waiting_one)) [16]"
    "plain (snd bar_waiting_one) [16]" "handles (snd bar_waiting_one) [16] = [5]"
    "sched (snd bar_waiting_one) = []" "bar_waiters (fst bar_waiting_one) = 16"
    "bar_count (bar_base (fst bar_waiting_one)) = 1" "bar_phase (bar_base (fst bar_waiting_one)) = 0"
    by (simp_all add: bar_waiting_one_def bar_wait_suspend_def add_phase_waiter_def add_waiter_def
        arm_node_def new_async_barrier_def new_barrier_def sample_mem_def new_node_def plain_def
        handles_def)
  show ?thesis
    using async_barrier_wakes [OF w(1), of 1 "\<lambda>u. u"] w(2-7) by auto
qed

end
