(* ===== verification/SharedValue.thy ===== *)
theory SharedValue
  imports Monitor WaiterList
begin

text \<open>
  \<open>sync_shared_value\<close> and \<open>async_shared_value\<close> (\<open>include/shared_state/shared_value.hpp\<close>)
  with \<open>version_tracking_mixin\<close> (\<open>crtp_base.hpp\<close>): a value behind a lock, a 64-bit version
  that counts its changes, the threads that wait for a change and the coroutines in the
  waiter list.  Functions passed by the caller are parameters and do not throw.
\<close>

section \<open>The value and its operations\<close>

record 'a shared_value =
  sv_value :: 'a
  sv_version :: u64

definition new_shared_value :: "'a \<Rightarrow> 'a shared_value" where
  "new_shared_value initial = \<lparr>sv_value = initial, sv_version = 0\<rparr>"

definition increment_version :: "'a shared_value \<Rightarrow> 'a shared_value" where
  "increment_version s = s\<lparr>sv_version := sv_version s + 1\<rparr>"

text \<open>\<open>Sv_cas ok e\<close>: the result of \<open>compare_exchange\<close> and the caller's \<open>expected\<close> after it.\<close>

datatype ('a, 'b) sv_result = Sv_unit | Sv_value 'a | Sv_option "'a option" | Sv_bool bool
  | Sv_cas bool 'a | Sv_result 'b | Sv_version u64

type_synonym ('a, 'b) sv_outcome = "('a shared_value, ('a, 'b) sv_result) outcome"

text \<open>The end of every change: a new value, a new version, all sleepers notified.\<close>

definition change :: "'a \<Rightarrow> ('a, 'b) sv_result \<Rightarrow> 'a shared_value \<Rightarrow> ('a, 'b) sv_outcome" where
  "change v r s = Ret (increment_version (s\<lparr>sv_value := v\<rparr>)) [Notify_all cv] r"

definition sv_load :: "'a shared_value \<Rightarrow> ('a, 'b) sv_outcome" where
  "sv_load s = Ret s [] (Sv_value (sv_value s))"

definition sv_try_load :: "'a shared_value \<Rightarrow> ('a, 'b) sv_outcome" where
  "sv_try_load s = Ret s [] (Sv_option (Some (sv_value s)))"

definition sv_store :: "'a \<Rightarrow> 'a shared_value \<Rightarrow> ('a, 'b) sv_outcome" where
  "sv_store v s = change v Sv_unit s"

definition sv_try_store :: "'a \<Rightarrow> 'a shared_value \<Rightarrow> ('a, 'b) sv_outcome" where
  "sv_try_store v s = change v (Sv_bool True) s"

definition sv_exchange :: "'a \<Rightarrow> 'a shared_value \<Rightarrow> ('a, 'b) sv_outcome" where
  "sv_exchange v s = (let old = sv_value s in change v (Sv_value old) s)"

definition sv_compare_exchange :: "'a \<Rightarrow> 'a \<Rightarrow> 'a shared_value \<Rightarrow> ('a, 'b) sv_outcome" where
  "sv_compare_exchange expected desired s =
     (if sv_value s = expected then change desired (Sv_cas True expected) s
      else Ret s [] (Sv_cas False (sv_value s)))"

definition sv_modify :: "('a \<Rightarrow> 'a) \<Rightarrow> 'a shared_value \<Rightarrow> ('a, 'b) sv_outcome" where
  "sv_modify f s = change (f (sv_value s)) Sv_unit s"

text \<open>The function changes the value in place and returns a result.\<close>

definition sv_modify_and_get :: "('a \<Rightarrow> 'a \<times> 'b) \<Rightarrow> 'a shared_value \<Rightarrow> ('a, 'b) sv_outcome" where
  "sv_modify_and_get f s = (case f (sv_value s) of (v, res) \<Rightarrow> change v (Sv_result res) s)"

definition wait_for_change :: "u64 \<Rightarrow> 'a shared_value \<Rightarrow> ('a, 'b) sv_outcome" where
  "wait_for_change since s =
     wait_for_condition cv (\<lambda>s. sv_version s \<noteq> since) (\<lambda>s. Ret s [] (Sv_value (sv_value s))) s"

definition sv_wait_until :: "('a \<Rightarrow> bool) \<Rightarrow> 'a shared_value \<Rightarrow> ('a, 'b) sv_outcome" where
  "sv_wait_until P s =
     wait_for_condition cv (\<lambda>s. P (sv_value s)) (\<lambda>s. Ret s [] (Sv_value (sv_value s))) s"

definition wait_for_change_for :: "u64 \<Rightarrow> 'a shared_value \<Rightarrow> ('a, 'b) sv_outcome" where
  "wait_for_change_for since s =
     wait_for_condition_for cv (\<lambda>s. sv_version s \<noteq> since) (Sv_option None)
       (\<lambda>s. Ret s [] (Sv_option (Some (sv_value s)))) s"

definition get_version :: "'a shared_value \<Rightarrow> ('a, 'b) sv_outcome" where
  "get_version s = Ret s [] (Sv_version (sv_version s))"

definition has_changed_since :: "u64 \<Rightarrow> 'a shared_value \<Rightarrow> ('a, 'b) sv_outcome" where
  "has_changed_since since s = Ret s [] (Sv_bool (sv_version s \<noteq> since))"

lemmas sv_defs = sv_load_def sv_try_load_def sv_store_def sv_try_store_def sv_exchange_def
  sv_compare_exchange_def sv_modify_def sv_modify_and_get_def wait_for_change_def
  sv_wait_until_def wait_for_change_for_def get_version_def has_changed_since_def
  change_def increment_version_def wait_defs Let_def

datatype ('a, 'b) sv_op = Load | Try_load | Store 'a | Try_store 'a | Exchange 'a
  | Compare_exchange 'a 'a | Modify "'a \<Rightarrow> 'a" | Modify_and_get "'a \<Rightarrow> 'a \<times> 'b"
  | Wait_change u64 | Wait_until "'a \<Rightarrow> bool" | Wait_change_for u64 | Version | Changed_since u64

fun sv_exec :: "('a, 'b) sv_op \<Rightarrow> 'a shared_value \<Rightarrow> ('a, 'b) sv_outcome" where
  "sv_exec Load s = sv_load s"
| "sv_exec Try_load s = sv_try_load s"
| "sv_exec (Store v) s = sv_store v s"
| "sv_exec (Try_store v) s = sv_try_store v s"
| "sv_exec (Exchange v) s = sv_exchange v s"
| "sv_exec (Compare_exchange e d) s = sv_compare_exchange e d s"
| "sv_exec (Modify f) s = sv_modify f s"
| "sv_exec (Modify_and_get f) s = sv_modify_and_get f s"
| "sv_exec (Wait_change n) s = wait_for_change n s"
| "sv_exec (Wait_until P) s = sv_wait_until P s"
| "sv_exec (Wait_change_for n) s = wait_for_change_for n s"
| "sv_exec Version s = get_version s"
| "sv_exec (Changed_since n) s = has_changed_since n s"

abbreviation sv_ok :: "('a, 'b) sv_op \<Rightarrow> 'a shared_value \<Rightarrow> bool" where
  "sv_ok \<equiv> \<lambda>x s. True"

lemma sv_waits_iff:
  "sv_exec x s = Wait c t \<longleftrightarrow> c = cv
     \<and> (x = Wait_change (sv_version s) \<and> t = None
        \<or> x = Wait_change_for (sv_version s) \<and> t = Some (Sv_option None)
        \<or> (\<exists>P. x = Wait_until P \<and> \<not> P (sv_value s)) \<and> t = None)"
  by (cases x) (auto simp: sv_defs split: prod.splits)

lemma sv_changes:
  "sv_exec x s = Ret s' ns r \<Longrightarrow> ns = [Notify_all cv] \<or> s' = s"
  by (cases x) (auto simp: sv_defs split: prod.splits if_splits)

interpretation sv: broadcast_cv sv_exec sv_ok cv "\<lambda>s. False"
proof
  fix x s s' ns r y t
  assume "sv_exec x s = Ret s' ns r" "sv_exec y s = Wait cv t"
  then show "Notify_all cv \<in> set ns \<or> False \<or> sv_exec y s' = Wait cv t"
    using sv_changes [of x s s' ns r] by auto
qed simp

section \<open>A register\<close>

text \<open>The abstract register: the value after an operation, whether it changed, its answer.\<close>

fun effect :: "('a, 'b) sv_op \<Rightarrow> 'a \<Rightarrow> 'a option" where
  "effect (Store v) u = Some v"
| "effect (Try_store v) u = Some v"
| "effect (Exchange v) u = Some v"
| "effect (Compare_exchange e d) u = (if u = e then Some d else None)"
| "effect (Modify f) u = Some (f u)"
| "effect (Modify_and_get f) u = Some (fst (f u))"
| "effect _ u = None"

fun register :: "'a \<Rightarrow> (('a, 'b) sv_op \<times> ('a, 'b) sv_result) list \<Rightarrow> 'a \<times> nat" where
  "register v0 [] = (v0, 0)"
| "register v0 ((x, r) # h) =
     (case register v0 h of (u, n) \<Rightarrow> (case effect x u of None \<Rightarrow> (u, n) | Some v \<Rightarrow> (v, Suc n)))"

fun answers :: "('a, 'b) sv_op \<Rightarrow> 'a \<Rightarrow> u64 \<Rightarrow> ('a, 'b) sv_result \<Rightarrow> bool" where
  "answers Load u n r \<longleftrightarrow> r = Sv_value u"
| "answers Try_load u n r \<longleftrightarrow> r = Sv_option (Some u)"
| "answers (Exchange v) u n r \<longleftrightarrow> r = Sv_value u"
| "answers (Compare_exchange e d) u n r \<longleftrightarrow> r = Sv_cas (u = e) u"
| "answers (Modify_and_get f) u n r \<longleftrightarrow> r = Sv_result (snd (f u))"
| "answers (Wait_change k) u n r \<longleftrightarrow> n \<noteq> k \<and> r = Sv_value u"
| "answers (Wait_until P) u n r \<longleftrightarrow> P u \<and> r = Sv_value u"
| "answers (Wait_change_for k) u n r \<longleftrightarrow> r = Sv_option (if n \<noteq> k then Some u else None)"
| "answers Version u n r \<longleftrightarrow> r = Sv_version n"
| "answers (Changed_since k) u n r \<longleftrightarrow> r = Sv_bool (n \<noteq> k)"
| "answers (Try_store v) u n r \<longleftrightarrow> r = Sv_bool True"
| "answers _ u n r \<longleftrightarrow> r = Sv_unit"

definition is_register :: "'a \<Rightarrow> 'a shared_value \<Rightarrow> (('a, 'b) sv_op \<times> ('a, 'b) sv_result) list \<Rightarrow> bool" where
  "is_register v0 s h \<longleftrightarrow> (case register v0 h of (u, n) \<Rightarrow> sv_value s = u \<and> sv_version s = of_nat n)
     \<and> (\<forall>h2 x r h1. h = h2 @ (x, r) # h1 \<longrightarrow>
          (case register v0 h1 of (u, n) \<Rightarrow> answers x u (of_nat n) r))"

lemma is_register_snoc:
  fixes x :: "('a, 'b) sv_op" and h :: "(('a, 'b) sv_op \<times> ('a, 'b) sv_result) list"
  assumes "is_register v0 s h" "answers x (sv_value s) (sv_version s) r"
    and "sv_value s' = (case effect x (sv_value s) of None \<Rightarrow> sv_value s | Some v \<Rightarrow> v)"
    and "sv_version s' = (case effect x (sv_value s) of None \<Rightarrow> sv_version s | Some v \<Rightarrow> sv_version s + 1)"
  shows "is_register v0 s' ((x, r) # h)"
proof -
  obtain u n where reg: "register v0 h = (u, n)" by fastforce
  with assms(1) have s: "sv_value s = u" "sv_version s = of_nat n" by (auto simp: is_register_def)
  have "case register v0 h1 of (u, n) \<Rightarrow> answers y u (of_nat n) q"
    if "(x, r) # h = h2 @ (y, q) # h1" for h2 y q h1
  proof (cases h2)
    case Nil
    then show ?thesis using that assms(2) reg s by auto
  next
    case (Cons e h2')
    then show ?thesis using that assms(1) unfolding is_register_def by auto
  qed
  moreover have "case register v0 ((x, r) # h) of (u, n) \<Rightarrow> sv_value s' = u \<and> sv_version s' = of_nat n"
    using assms(3,4) reg s by (cases "effect x u") auto
  ultimately show ?thesis unfolding is_register_def by blast
qed

lemma is_register_exec:
  fixes x :: "('a, 'b) sv_op" and h :: "(('a, 'b) sv_op \<times> ('a, 'b) sv_result) list"
  assumes "is_register v0 s h" "sv_exec x s = Ret s' ns r"
  shows "is_register v0 s' ((x, r) # h)"
  using assms by (intro is_register_snoc [of v0 s]; cases x) (auto simp: sv_defs split: prod.splits if_splits)

lemma is_register_reach:
  fixes m :: "('a shared_value, ('a, 'b) sv_op, ('a, 'b) sv_result) monitor"
  assumes "mon_reach sv_exec sv_ok (new_shared_value v0) m"
  shows "is_register v0 (obj m) (history m)"
  using assms
proof (rule mon_reach_history)
  show "is_register v0 (new_shared_value v0) []" by (simp add: is_register_def new_shared_value_def)
next
  fix x :: "('a, 'b) sv_op" and s s' ns r and h :: "(('a, 'b) sv_op \<times> ('a, 'b) sv_result) list"
  assume "is_register v0 s h" and ret: "sv_exec x s = Ret s' ns r"
  then show "is_register v0 s' ((x, r) # h)" by (rule is_register_exec)
next
  fix x :: "('a, 'b) sv_op" and s c r and h :: "(('a, 'b) sv_op \<times> ('a, 'b) sv_result) list"
  assume "is_register v0 s h" "sv_exec x s = Wait c (Some r)"
  then show "is_register v0 s ((x, r) # h)"
    by (intro is_register_snoc [of v0 s]) (auto simp: sv_waits_iff)
qed

section \<open>The asynchronous value\<close>

record 'a async_value =
  av_base :: "'a shared_value"
  av_waiters :: uintptr

definition new_async_value :: "'a \<Rightarrow> 'a async_value" where
  "new_async_value v = \<lparr>av_base = new_shared_value v, av_waiters = 0\<rparr>"

text \<open>
  A change of the base followed by \<open>wake_all\<close>; \<open>None\<close> when the loop over the waiters does not
  end.
\<close>

definition then_wake_all ::
  "'a shared_value \<Rightarrow> 'a async_value \<Rightarrow> async_mem \<Rightarrow> ('a async_value \<times> async_mem) option" where
  "then_wake_all s a w =
     map_option (\<lambda>(head, w'). (\<lparr>av_base = s, av_waiters = head\<rparr>, w')) (wake_all (av_waiters a) w)"

definition async_store ::
  "'a \<Rightarrow> 'a async_value \<Rightarrow> async_mem \<Rightarrow> ('a async_value \<times> async_mem) option" where
  "async_store v a w = then_wake_all (outcome_state (sv_store v (av_base a) :: ('a, unit) sv_outcome) (av_base a)) a w"

definition async_exchange ::
  "'a \<Rightarrow> 'a async_value \<Rightarrow> async_mem \<Rightarrow> ('a \<times> 'a async_value \<times> async_mem) option" where
  "async_exchange v a w =
     map_option (Pair (sv_value (av_base a)))
       (then_wake_all (outcome_state (sv_exchange v (av_base a) :: ('a, unit) sv_outcome) (av_base a)) a w)"

text \<open>The success, the caller's \<open>expected\<close> afterwards, and the state.\<close>

definition async_compare_exchange ::
  "'a \<Rightarrow> 'a \<Rightarrow> 'a async_value \<Rightarrow> async_mem \<Rightarrow> (bool \<times> 'a \<times> 'a async_value \<times> async_mem) option" where
  "async_compare_exchange e d a w =
     (case sv_compare_exchange e d (av_base a) :: ('a, unit) sv_outcome of
        Ret s ns (Sv_cas success e') \<Rightarrow>
          if success then map_option (\<lambda>aw. (True, e', aw)) (then_wake_all s a w)
          else Some (False, e', a\<lparr>av_base := s\<rparr>, w)
      | _ \<Rightarrow> None)"

definition async_modify ::
  "('a \<Rightarrow> 'a) \<Rightarrow> 'a async_value \<Rightarrow> async_mem \<Rightarrow> ('a async_value \<times> async_mem) option" where
  "async_modify f a w = then_wake_all (outcome_state (sv_modify f (av_base a) :: ('a, unit) sv_outcome) (av_base a)) a w"

text \<open>Inherited unchanged from \<open>sync_shared_value\<close>.\<close>

definition async_modify_and_get :: "('a \<Rightarrow> 'a \<times> 'b) \<Rightarrow> 'a async_value \<Rightarrow> 'b \<times> 'a async_value" where
  "async_modify_and_get f a =
     (snd (f (sv_value (av_base a))),
      a\<lparr>av_base := outcome_state (sv_modify_and_get f (av_base a)) (av_base a)\<rparr>)"

text \<open>\<open>shared_value_change_awaiter\<close>; the re-check of the version has an empty body.\<close>

definition change_ready :: "u64 \<Rightarrow> 'a async_value \<Rightarrow> bool" where
  "change_ready since a \<longleftrightarrow> sv_version (av_base a) \<noteq> since"

definition add_change_waiter ::
  "uintptr \<Rightarrow> 'a async_value \<Rightarrow> async_mem \<Rightarrow> 'a async_value \<times> async_mem" where
  "add_change_waiter p a w =
     (case add_waiter p (av_waiters a) w of (head, w') \<Rightarrow> (a\<lparr>av_waiters := head\<rparr>, w'))"

definition change_suspend ::
  "uintptr \<Rightarrow> coro \<Rightarrow> 'a async_value \<Rightarrow> async_mem \<Rightarrow> 'a async_value \<times> async_mem" where
  "change_suspend p h a w = add_change_waiter p a (arm_node p h 0 w)"

definition change_resume :: "'a async_value \<Rightarrow> 'a" where
  "change_resume a = sv_value (av_base a)"

lemma then_wake_all_plain:
  fixes a :: "'a async_value"
  shows "chain (wnodes w) (av_waiters a) qs \<Longrightarrow> plain w qs \<Longrightarrow>
   \<exists>w'. then_wake_all s a w = Some (\<lparr>av_base = s, av_waiters = 0\<rparr>, w')
     \<and> sched w' = sched w @ handles w qs"
  using wake_all_plain [of w "av_waiters a" qs] by (auto simp: then_wake_all_def)

section \<open>Properties\<close>

text \<open>
  The shared value is an atomic register with a change counter: in every run of any
  number of threads, each returned call gave the answer of the register that the calls
  before it left (loads and exchanges the current value, a compare-exchange success exactly
  when the values agree, waits only a changed version or a value satisfying the predicate),
  and the version is the number of changes modulo 2 to the 64.
\<close>

theorem shared_value_is_register:
  assumes "mon_reach sv_exec sv_ok (new_shared_value v0) m"
  shows "(case register v0 (history m) of (u, n) \<Rightarrow>
        sv_value (obj m) = u \<and> sv_version (obj m) = of_nat n)
    \<and> (\<forall>h2 x r h1. history m = h2 @ (x, r) # h1 \<longrightarrow>
        (case register v0 h1 of (u, n) \<Rightarrow> answers x u (of_nat n) r))"
  using is_register_reach [OF assms] unfolding is_register_def .

text \<open>
  No lost wake-up: a call sleeps in a shared value only while the version is still the
  one it wants changed, or its predicate still false of the current value.
\<close>

theorem shared_value_no_lost_wakeup:
  assumes "mon_reach sv_exec sv_ok s0 m" "(cv, x) \<in># asleep m"
  shows "x = Wait_change (sv_version (obj m)) \<or> x = Wait_change_for (sv_version (obj m))
    \<or> (\<exists>P. x = Wait_until P \<and> \<not> P (sv_value (obj m)))"
  using sv.no_lost_broadcast [OF assms] by (auto simp: sv_waits_iff)

text \<open>
  \<open>store\<close>, \<open>exchange\<close>, \<open>modify\<close> and a successful \<open>compare_exchange\<close> of the asynchronous
  value change the version and resume all waiting coroutines; a failing
  \<open>compare_exchange\<close> does neither; but \<open>modify_and_get\<close> changes the version and leaves the
  coroutines that wait for a change suspended.
\<close>

theorem async_value_wakes:
  fixes a :: "'a async_value"
  assumes "chain (wnodes w) (av_waiters a) qs" "plain w qs"
  shows "(\<exists>a' w'. async_store v a w = Some (a', w') \<and> sv_value (av_base a') = v
        \<and> change_ready (sv_version (av_base a)) a' \<and> sched w' = sched w @ handles w qs)
    \<and> (\<exists>a' w'. async_exchange v a w = Some (sv_value (av_base a), a', w') \<and> sv_value (av_base a') = v
        \<and> change_ready (sv_version (av_base a)) a' \<and> sched w' = sched w @ handles w qs)
    \<and> (\<exists>a' w'. async_modify f a w = Some (a', w') \<and> sv_value (av_base a') = f (sv_value (av_base a))
        \<and> change_ready (sv_version (av_base a)) a' \<and> sched w' = sched w @ handles w qs)
    \<and> (\<exists>e' a' w'. async_compare_exchange e v a w = Some (sv_value (av_base a) = e, e', a', w')
        \<and> (if sv_value (av_base a) = e
           then sv_value (av_base a') = v \<and> change_ready (sv_version (av_base a)) a'
             \<and> sched w' = sched w @ handles w qs
           else e' = sv_value (av_base a) \<and> a' = a \<and> w' = w))
    \<and> change_ready (sv_version (av_base a)) (snd (async_modify_and_get g a))
    \<and> av_waiters (snd (async_modify_and_get g a)) = av_waiters a"
proof -
  let ?b = "av_base a"
  note wake = then_wake_all_plain [OF assms]
  obtain w1 where "then_wake_all (outcome_state (sv_store v ?b :: ('a, unit) sv_outcome) ?b) a w
      = Some (\<lparr>av_base = outcome_state (sv_store v ?b :: ('a, unit) sv_outcome) ?b, av_waiters = 0\<rparr>, w1)"
    "sched w1 = sched w @ handles w qs" using wake by blast
  moreover obtain w2 where "then_wake_all (outcome_state (sv_exchange v ?b :: ('a, unit) sv_outcome) ?b) a w
      = Some (\<lparr>av_base = outcome_state (sv_exchange v ?b :: ('a, unit) sv_outcome) ?b, av_waiters = 0\<rparr>, w2)"
    "sched w2 = sched w @ handles w qs" using wake by blast
  moreover obtain w3 where "then_wake_all (outcome_state (sv_modify f ?b :: ('a, unit) sv_outcome) ?b) a w
      = Some (\<lparr>av_base = outcome_state (sv_modify f ?b :: ('a, unit) sv_outcome) ?b, av_waiters = 0\<rparr>, w3)"
    "sched w3 = sched w @ handles w qs" using wake by blast
  moreover obtain w4 where "then_wake_all (increment_version (?b\<lparr>sv_value := v\<rparr>)) a w
      = Some (\<lparr>av_base = increment_version (?b\<lparr>sv_value := v\<rparr>), av_waiters = 0\<rparr>, w4)"
    "sched w4 = sched w @ handles w qs" using wake by blast
  ultimately show ?thesis
    by (auto simp: async_store_def async_exchange_def async_modify_def async_compare_exchange_def
        async_modify_and_get_def change_ready_def sv_defs split: prod.splits)
qed

text \<open>
  A coroutine that suspends after the value has changed stays suspended, although the comment
  in \<open>suspend_impl\<close> says that it will be scheduled: the re-check of the version does nothing.
\<close>

theorem change_suspend_strands:
  assumes "chain (wnodes w) (av_waiters a) qs" "p \<noteq> 0" "p \<notin> set qs" "change_ready since a"
  shows "\<exists>a' w'. change_suspend p h a w = (a', w') \<and> sched w' = sched w \<and> change_ready since a'
    \<and> chain (wnodes w') (av_waiters a') (p # qs) \<and> node_handle (wnodes w' p) = h"
proof -
  obtain head' w' where add: "add_waiter p (av_waiters a) (arm_node p h 0 w) = (head', w')" by fastforce
  have "chain (wnodes w') head' (p # qs)" using chain_add [OF _ assms(2,3) add] assms(1) by simp
  moreover have "sched w' = sched w" "node_handle (wnodes w' p) = h"
    using add by (auto simp: add_waiter_def arm_node_def)
  ultimately show ?thesis using assms(4)
    by (simp add: change_suspend_def add_change_waiter_def add change_ready_def)
qed

section \<open>Witnesses\<close>

definition sv_run :: "(nat shared_value, (nat, nat) sv_op, (nat, nat) sv_result) monitor" where
  "sv_run = \<lparr>obj = \<lparr>sv_value = 7, sv_version = 1\<rparr>, asleep = {#}, notified = {#},
     history = [(Load, Sv_value 7), (Store 7, Sv_unit)]\<rparr>"

lemma sv_run_reach: "mon_reach sv_exec sv_ok (new_shared_value 0) sv_run"
proof -
  have "notify [Notify_all cv] ({#} :: (nat, nat) sv_op sleepers, {#}) ({#}, {#})"
    using notify.all [OF notify.nobody, of cv "{#}" "{#}"] by simp
  from run_locked.returns [of sv_exec "Store 7" "mon_init (new_shared_value 0)"
      "\<lparr>sv_value = 7, sv_version = 1\<rparr>" "[Notify_all cv]" Sv_unit, OF _ this]
  have "run_locked sv_exec (Store 7) {#} {#} (mon_init (new_shared_value 0))
      \<lparr>obj = \<lparr>sv_value = (7 :: nat), sv_version = 1\<rparr>, asleep = {#}, notified = {#},
       history = [(Store 7, Sv_unit :: (nat, nat) sv_result)]\<rparr>"
    by (simp add: mon_init_def new_shared_value_def sv_defs)
  then have "mon_reach sv_exec sv_ok (new_shared_value 0)
      \<lparr>obj = \<lparr>sv_value = (7 :: nat), sv_version = 1\<rparr>, asleep = {#}, notified = {#},
       history = [(Store 7, Sv_unit :: (nat, nat) sv_result)]\<rparr>"
    by (intro mon_reach.step [OF mon_reach.start] mon_step.call [of sv_ok "Store 7"])
      (simp_all add: mon_init_def)
  from mon_call_quiet [OF this, of Load "\<lparr>sv_value = 7, sv_version = 1\<rparr>" "Sv_value 7"]
  show ?thesis by (simp add: sv_defs sv_run_def)
qed

theorem shared_value_is_register_witness:
  "register (0 :: nat) (history sv_run) = (7, 1) \<and> sv_version (obj sv_run) = of_nat 1"
  using shared_value_is_register [OF sv_run_reach] by (simp add: sv_run_def)

definition sv_asleep :: "(nat shared_value, (nat, nat) sv_op, (nat, nat) sv_result) monitor" where
  "sv_asleep = \<lparr>obj = new_shared_value 0, asleep = {#(cv, Wait_change 0)#}, notified = {#}, history = []\<rparr>"

lemma sv_asleep_reach: "mon_reach sv_exec sv_ok (new_shared_value 0) sv_asleep"
  using mon_call_waits [OF mon_reach.start, of sv_ok "Wait_change 0" "new_shared_value 0" sv_exec cv None]
  by (simp add: mon_init_def sv_asleep_def sv_defs new_shared_value_def)

theorem shared_value_no_lost_wakeup_witness: "sv_version (obj sv_asleep) = 0"
  using shared_value_no_lost_wakeup [OF sv_asleep_reach, of "Wait_change 0"]
  by (simp add: sv_asleep_def)

definition sv_waiting_one :: "nat async_value \<times> async_mem" where
  "sv_waiting_one = change_suspend 16 5 (new_async_value 0) sample_mem"

theorem async_value_wakes_witness:
  "(\<exists>a w. async_store 7 (fst sv_waiting_one) (snd sv_waiting_one) = Some (a, w) \<and> sched w = [5])
   \<and> av_waiters (snd (async_modify_and_get (\<lambda>x. (x + 1, x)) (fst sv_waiting_one))) = 16"
proof -
  have w: "chain (wnodes (snd sv_waiting_one)) (av_waiters (fst sv_waiting_one)) [16]"
    "plain (snd sv_waiting_one) [16]" "handles (snd sv_waiting_one) [16] = [5]"
    "sched (snd sv_waiting_one) = []" "av_waiters (fst sv_waiting_one) = 16"
    by (simp_all add: sv_waiting_one_def change_suspend_def add_change_waiter_def add_waiter_def
        arm_node_def new_async_value_def sample_mem_def new_node_def plain_def handles_def)
  show ?thesis
    using async_value_wakes [OF w(1,2), where v = 7 and f = id and e = 1 and g = "\<lambda>x. (x + 1, x)"] w(3-5) by auto
qed

theorem change_suspend_strands_witness:
  "\<exists>a' w'. change_suspend 16 5 (new_async_value (0 :: nat)) sample_mem = (a', w') \<and> sched w' = []
     \<and> change_ready 1 a'"
proof -
  have a: "chain (wnodes sample_mem) (av_waiters (new_async_value (0 :: nat))) []"
    "change_ready 1 (new_async_value (0 :: nat))"
    by (simp_all add: new_async_value_def new_shared_value_def change_ready_def)
  from change_suspend_strands [OF a(1) _ _ a(2), of 16 5] show ?thesis by (auto simp: sample_mem_def)
qed

end
