(* ===== verification/Channel.thy ===== *)
theory Channel
  imports Monitor WaiterList
begin

text \<open>
  \<open>sync_channel\<close> and \<open>async_channel\<close> (\<open>include/shared_state/channel.hpp\<close>) with
  \<open>closeable_mixin\<close> (\<open>crtp_base.hpp\<close>) and the boundedness policies (\<open>policies.hpp\<close>): a
  queue of values, a closed flag, one condition variable for receivers and one for senders,
  and two waiter lists for coroutines.
\<close>

section \<open>The channel and its operations\<close>

text \<open>The policy: \<open>Some n\<close> for \<open>bounded_policy<n>\<close>, \<open>None\<close> for \<open>unbounded_policy\<close>.\<close>

type_synonym boundedness = "nat option"

definition is_bounded :: "boundedness \<Rightarrow> bool" where
  "is_bounded b \<longleftrightarrow> b \<noteq> None"

definition send_cv :: nat where "send_cv = 1"

text \<open>
  \<open>closing\<close> counts the calls of \<open>close\<close> that have stored the flag and not yet run
  \<open>on_close\<close>; the code keeps it in the program counters of those calls.
\<close>

record 'a channel =
  buffer :: "'a list"
  is_closed :: bool
  closing :: nat

definition new_channel :: "'a channel" where
  "new_channel = \<lparr>buffer = [], is_closed = False, closing = 0\<rparr>"

datatype channel_op_status = Success | Closed | Would_block | Timeout

datatype 'a channel_answer = Ch_unit | Ch_throw | Ch_bool bool | Ch_value 'a
  | Ch_option "'a option" | Ch_result "'a option" channel_op_status | Ch_size u64

type_synonym 'a channel_outcome = "('a channel, 'a channel_answer) outcome"

definition can_send :: "boundedness \<Rightarrow> 'a channel \<Rightarrow> bool" where
  "can_send b s = (case b of Some n \<Rightarrow> length (buffer s) < n | None \<Rightarrow> True)"

text \<open>\<open>push_back\<close> and the notification of a receiver.\<close>

definition push_value :: "'a \<Rightarrow> 'a channel_answer \<Rightarrow> 'a channel \<Rightarrow> 'a channel_outcome" where
  "push_value v r s = Ret (s\<lparr>buffer := buffer s @ [v]\<rparr>) [Notify_one cv] r"

text \<open>\<open>pop_front\<close> and, in a bounded channel, the notification of a sender.\<close>

definition pop_value ::
  "boundedness \<Rightarrow> ('a \<Rightarrow> 'a channel_answer) \<Rightarrow> 'a channel \<Rightarrow> 'a channel_outcome" where
  "pop_value b r s =
     Ret (s\<lparr>buffer := tl (buffer s)\<rparr>) (if is_bounded b then [Notify_one send_cv] else [])
       (r (hd (buffer s)))"

definition send :: "boundedness \<Rightarrow> 'a \<Rightarrow> 'a channel \<Rightarrow> 'a channel_outcome" where
  "send b v s =
     (let rest = \<lambda>s. if is_closed s then Ret s [] Ch_throw else push_value v Ch_unit s in
      if is_bounded b
      then wait_for_condition send_cv (\<lambda>s. is_closed s \<or> can_send b s) rest s
      else rest s)"

definition try_send :: "boundedness \<Rightarrow> 'a \<Rightarrow> 'a channel \<Rightarrow> 'a channel_outcome" where
  "try_send b v s =
     (if is_closed s then Ret s [] (Ch_bool False)
      else if is_bounded b \<and> \<not> can_send b s then Ret s [] (Ch_bool False)
      else push_value v (Ch_bool True) s)"

definition send_for :: "boundedness \<Rightarrow> 'a \<Rightarrow> 'a channel \<Rightarrow> 'a channel_outcome" where
  "send_for b v s =
     (let rest = \<lambda>s. if is_closed s then Ret s [] (Ch_bool False) else push_value v (Ch_bool True) s in
      if is_bounded b
      then wait_for_condition_for send_cv (\<lambda>s. is_closed s \<or> can_send b s) (Ch_bool False) rest s
      else rest s)"

definition has_value_or_closed :: "'a channel \<Rightarrow> bool" where
  "has_value_or_closed s \<longleftrightarrow> buffer s \<noteq> [] \<or> is_closed s"

definition receive :: "boundedness \<Rightarrow> 'a channel \<Rightarrow> 'a channel_outcome" where
  "receive b s =
     wait_for_condition cv has_value_or_closed
       (\<lambda>s. if buffer s = [] then Ret s [] Ch_throw else pop_value b Ch_value s) s"

definition try_receive :: "boundedness \<Rightarrow> 'a channel \<Rightarrow> 'a channel_outcome" where
  "try_receive b s =
     (if buffer s = [] then Ret s [] (Ch_option None) else pop_value b (\<lambda>v. Ch_option (Some v)) s)"

definition receive_for :: "boundedness \<Rightarrow> 'a channel \<Rightarrow> 'a channel_outcome" where
  "receive_for b s =
     wait_for_condition_for cv has_value_or_closed (Ch_result None Timeout)
       (\<lambda>s. if buffer s = [] then Ret s [] (Ch_result None Closed)
            else pop_value b (\<lambda>v. Ch_result (Some v) Success) s) s"

definition channel_size :: "'a channel \<Rightarrow> 'a channel_outcome" where
  "channel_size s = Ret s [] (Ch_size (of_nat (length (buffer s))))"

definition channel_empty :: "'a channel \<Rightarrow> 'a channel_outcome" where
  "channel_empty s = Ret s [] (Ch_bool (buffer s = []))"

text \<open>\<open>close\<close>: the store of the flag, made without the lock, and \<open>on_close\<close>.\<close>

definition close_store :: "'a channel \<Rightarrow> 'a channel_outcome" where
  "close_store s = Ret (s\<lparr>is_closed := True, closing := closing s + 1\<rparr>) [] Ch_unit"

definition on_close :: "'a channel \<Rightarrow> 'a channel_outcome" where
  "on_close s = Ret (s\<lparr>closing := closing s - 1\<rparr>) [Notify_all cv, Notify_all send_cv] Ch_unit"

lemmas ch_defs = send_def try_send_def send_for_def receive_def try_receive_def receive_for_def
  channel_size_def channel_empty_def close_store_def on_close_def push_value_def pop_value_def
  has_value_or_closed_def wait_defs Let_def

datatype 'a channel_op = Send 'a | Try_send 'a | Send_for 'a | Receive | Try_receive
  | Receive_for | Size | Empty | Close_store | On_close | Is_closed

fun ch_exec :: "boundedness \<Rightarrow> 'a channel_op \<Rightarrow> 'a channel \<Rightarrow> 'a channel_outcome" where
  "ch_exec b (Send v) s = send b v s"
| "ch_exec b (Try_send v) s = try_send b v s"
| "ch_exec b (Send_for v) s = send_for b v s"
| "ch_exec b Receive s = receive b s"
| "ch_exec b Try_receive s = try_receive b s"
| "ch_exec b Receive_for s = receive_for b s"
| "ch_exec b Size s = channel_size s"
| "ch_exec b Empty s = channel_empty s"
| "ch_exec b Close_store s = close_store s"
| "ch_exec b On_close s = on_close s"
| "ch_exec b Is_closed s = Ret s [] (Ch_bool (is_closed s))"

text \<open>\<open>on_close\<close> is run only by a call of \<open>close\<close>, after its store.\<close>

fun ch_ok :: "'a channel_op \<Rightarrow> 'a channel \<Rightarrow> bool" where
  "ch_ok On_close s \<longleftrightarrow> 0 < closing s"
| "ch_ok _ s \<longleftrightarrow> True"

section \<open>Waking receivers and senders\<close>

lemma cv_distinct [simp]: "cv \<noteq> send_cv" "send_cv \<noteq> cv"
  by (simp_all add: cv_def send_cv_def)

lemma ch_waits_iff:
  "ch_exec b x s = Wait c t \<longleftrightarrow> \<not> is_closed s
     \<and> (c = cv \<and> buffer s = [] \<and> (x = Receive \<and> t = None \<or> x = Receive_for \<and> t = Some (Ch_result None Timeout))
        \<or> c = send_cv \<and> is_bounded b \<and> \<not> can_send b s
          \<and> (\<exists>v. x = Send v \<and> t = None \<or> x = Send_for v \<and> t = Some (Ch_bool False)))"
  by (cases x) (auto simp: ch_defs)

lemma ch_may_wait_cv: "may_wait (ch_exec b) cv x \<longleftrightarrow> x = Receive \<or> x = Receive_for"
proof -
  have "\<not> is_closed new_channel \<and> buffer new_channel = []" by (simp add: new_channel_def)
  then show ?thesis unfolding may_wait_def ch_waits_iff by (metis cv_distinct(1))
qed

lemma ch_may_wait_send:
  "may_wait (ch_exec b) send_cv x \<Longrightarrow> is_bounded b \<and> (\<exists>v. x = Send v \<or> x = Send_for v)"
  by (auto simp: may_wait_def ch_waits_iff)

definition free_slots :: "boundedness \<Rightarrow> 'a channel \<Rightarrow> nat" where
  "free_slots b s = (case b of Some n \<Rightarrow> n - length (buffer s) | None \<Rightarrow> 0)"

lemma no_free_slot: "is_bounded b \<Longrightarrow> \<not> can_send b s \<longleftrightarrow> free_slots b s = 0"
  by (auto simp: is_bounded_def can_send_def free_slots_def)

lemma on_close_runs: "runnable (ch_exec b) ch_ok On_close s \<Longrightarrow> 0 < closing s"
  by (auto simp: runnable_def may_wait_def on_close_def)

lemma buffer_tl_less: "buffer s \<noteq> [] \<Longrightarrow> length (buffer s) - Suc 0 < length (buffer s)"
  by (cases "buffer s") auto

interpretation receivers: counted_cv "ch_exec b :: 'a channel_op \<Rightarrow> _" ch_ok cv "\<lambda>s. 0 < closing s"
    "\<lambda>s. length (buffer s)" is_closed
proof
  fix x :: "'a channel_op" and s s' :: "'a channel" and ns r
  assume "runnable (ch_exec b) ch_ok x s" "0 < closing s" "ch_exec b x s = Ret s' ns r"
  then show "0 < closing s' \<or> Notify_all cv \<in> set ns"
    by (cases x) (auto simp: ch_defs split: if_splits)
next
  fix x :: "'a channel_op" and s :: "'a channel"
  assume "may_wait (ch_exec b) cv x" "length (buffer s) = 0" "\<not> is_closed s"
  then show "\<exists>t. ch_exec b x s = Wait cv t" by (auto simp: ch_may_wait_cv ch_waits_iff)
next
  fix x :: "'a channel_op" and s :: "'a channel" and d t
  assume "may_wait (ch_exec b) cv x" "ch_exec b x s = Wait d t"
  then show "d = cv \<and> length (buffer s) = 0 \<and> \<not> is_closed s"
    by (auto simp: ch_may_wait_cv ch_waits_iff)
next
  fix x :: "'a channel_op" and s s' :: "'a channel" and ns r
  assume "may_wait (ch_exec b) cv x" "ch_exec b x s = Ret s' ns r" "\<not> is_closed s"
  then show "Notify_all cv \<in> set ns \<or> 0 < closing s'
      \<or> \<not> is_closed s' \<and> length (buffer s') < length (buffer s) + ones cv ns"
    using buffer_tl_less [of s] by (auto simp: ch_may_wait_cv ch_defs ones_def split: if_splits)
next
  fix x :: "'a channel_op" and s s' :: "'a channel" and ns r
  assume "runnable (ch_exec b) ch_ok x s" "ch_exec b x s = Ret s' ns r" "\<not> 0 < closing s" "\<not> is_closed s"
  then show "Notify_all cv \<in> set ns \<or> 0 < closing s'
      \<or> \<not> is_closed s' \<and> length (buffer s') \<le> length (buffer s) + ones cv ns"
    using on_close_runs [of b s]
    by (cases x) (auto simp: ch_defs ones_def split: if_splits)
qed

interpretation senders: counted_cv "ch_exec b :: 'a channel_op \<Rightarrow> _" ch_ok send_cv "\<lambda>s. 0 < closing s"
    "free_slots b" is_closed
proof
  fix x :: "'a channel_op" and s s' :: "'a channel" and ns r
  assume "runnable (ch_exec b) ch_ok x s" "0 < closing s" "ch_exec b x s = Ret s' ns r"
  then show "0 < closing s' \<or> Notify_all send_cv \<in> set ns"
    by (cases x) (auto simp: ch_defs split: if_splits)
next
  fix x :: "'a channel_op" and s :: "'a channel"
  assume "may_wait (ch_exec b) send_cv x" "free_slots b s = 0" "\<not> is_closed s"
  then show "\<exists>t. ch_exec b x s = Wait send_cv t"
    using ch_may_wait_send [of b x] no_free_slot [of b s] by (auto simp: ch_waits_iff)
next
  fix x :: "'a channel_op" and s :: "'a channel" and d t
  assume "may_wait (ch_exec b) send_cv x" "ch_exec b x s = Wait d t"
  then show "d = send_cv \<and> free_slots b s = 0 \<and> \<not> is_closed s"
    using ch_may_wait_send [of b x] no_free_slot [of b s] by (auto simp: ch_waits_iff)
next
  fix x :: "'a channel_op" and s s' :: "'a channel" and ns r
  assume "may_wait (ch_exec b) send_cv x" "ch_exec b x s = Ret s' ns r" "\<not> is_closed s"
  then show "Notify_all send_cv \<in> set ns \<or> 0 < closing s'
      \<or> \<not> is_closed s' \<and> free_slots b s' < free_slots b s + ones send_cv ns"
    using ch_may_wait_send [of b x]
    by (auto simp: ch_defs free_slots_def is_bounded_def can_send_def split: if_splits)
next
  fix x :: "'a channel_op" and s s' :: "'a channel" and ns r
  assume "runnable (ch_exec b) ch_ok x s" "ch_exec b x s = Ret s' ns r" "\<not> 0 < closing s" "\<not> is_closed s"
  then show "Notify_all send_cv \<in> set ns \<or> 0 < closing s'
      \<or> \<not> is_closed s' \<and> free_slots b s' \<le> free_slots b s + ones send_cv ns"
    using on_close_runs [of b s]
    by (cases x) (auto simp: ch_defs ones_def free_slots_def is_bounded_def split: if_splits option.splits)
qed

section \<open>What was sent is what is received\<close>

fun accepted :: "'a channel_op \<times> 'a channel_answer \<Rightarrow> 'a list" where
  "accepted (Send v, Ch_unit) = [v]"
| "accepted (Try_send v, Ch_bool True) = [v]"
| "accepted (Send_for v, Ch_bool True) = [v]"
| "accepted _ = []"

fun delivered :: "'a channel_op \<times> 'a channel_answer \<Rightarrow> 'a list" where
  "delivered (Receive, Ch_value v) = [v]"
| "delivered (Try_receive, Ch_option (Some v)) = [v]"
| "delivered (Receive_for, Ch_result (Some v) st) = [v]"
| "delivered _ = []"

text \<open>In the order of the calls: histories have the last call first.\<close>

definition sent :: "('a channel_op \<times> 'a channel_answer) list \<Rightarrow> 'a list" where
  "sent h = concat (map accepted (rev h))"

definition got :: "('a channel_op \<times> 'a channel_answer) list \<Rightarrow> 'a list" where
  "got h = concat (map delivered (rev h))"

definition close_called :: "('a channel_op \<times> 'a channel_answer) list \<Rightarrow> bool" where
  "close_called h \<longleftrightarrow> (\<exists>e \<in> set h. fst e = Close_store)"

fun says_closed :: "'a channel_op \<times> 'a channel_answer \<Rightarrow> bool" where
  "says_closed (Receive, r) \<longleftrightarrow> r = Ch_throw"
| "says_closed (Receive_for, r) \<longleftrightarrow> r = Ch_result None Closed"
| "says_closed _ \<longleftrightarrow> False"

fun ch_good :: "('a channel_op \<times> 'a channel_answer) list \<Rightarrow> bool" where
  "ch_good [] \<longleftrightarrow> True"
| "ch_good (e # h) \<longleftrightarrow> ch_good h \<and> (accepted e \<noteq> [] \<longrightarrow> \<not> close_called h)
     \<and> (says_closed e \<longrightarrow> close_called h \<and> got h = sent h)"

lemma history_simps [simp]:
  "sent [] = []" "got [] = []" "\<not> close_called []"
  "sent (e # h) = sent h @ accepted e" "got (e # h) = got h @ delivered e"
  "close_called (e # h) \<longleftrightarrow> fst e = Close_store \<or> close_called h"
  by (auto simp: sent_def got_def close_called_def)

lemma ch_good_suffix: "ch_good (h2 @ h1) \<Longrightarrow> ch_good h1"
  by (induction h2) auto

definition ch_books :: "boundedness \<Rightarrow> 'a channel \<Rightarrow> ('a channel_op \<times> 'a channel_answer) list \<Rightarrow> bool" where
  "ch_books b s h \<longleftrightarrow> sent h = got h @ buffer s \<and> is_closed s = close_called h \<and> ch_good h
     \<and> (\<forall>n. b = Some n \<longrightarrow> length (buffer s) \<le> n)"

lemma ch_books_push:
  assumes "ch_books b s h" "\<not> is_closed s" "is_bounded b \<longrightarrow> can_send b s"
    and "accepted e = [v]" "delivered e = []" "\<not> says_closed e" "fst e \<noteq> Close_store"
  shows "ch_books b (s\<lparr>buffer := buffer s @ [v]\<rparr>) (e # h)"
  using assms by (auto simp: ch_books_def is_bounded_def can_send_def)

lemma ch_books_pop:
  assumes "ch_books b s h" "buffer s \<noteq> []"
    and "accepted e = []" "delivered e = [hd (buffer s)]" "\<not> says_closed e" "fst e \<noteq> Close_store"
  shows "ch_books b (s\<lparr>buffer := tl (buffer s)\<rparr>) (e # h)"
  using assms by (auto simp: ch_books_def intro: le_trans)

lemma ch_books_same:
  assumes "ch_books b s h" "buffer s' = buffer s" "is_closed s' = is_closed s"
    and "accepted e = []" "delivered e = []" "fst e \<noteq> Close_store"
    and "says_closed e \<Longrightarrow> is_closed s \<and> buffer s = []"
  shows "ch_books b s' (e # h)"
  using assms by (auto simp: ch_books_def)

lemma ch_books_ret:
  assumes "ch_books b s h" "ch_exec b x s = Ret s' ns r"
  shows "ch_books b s' ((x, r) # h)"
proof (cases x)
  case (Send v)
  then show ?thesis using assms
    by (auto simp: ch_defs split: if_splits intro: ch_books_push ch_books_same)
next
  case (Try_send v)
  then show ?thesis using assms
    by (auto simp: ch_defs split: if_splits intro: ch_books_push ch_books_same)
next
  case (Send_for v)
  then show ?thesis using assms
    by (auto simp: ch_defs split: if_splits intro: ch_books_push ch_books_same)
next
  case Receive
  then show ?thesis using assms
    by (auto simp: ch_defs split: if_splits intro: ch_books_pop ch_books_same)
next
  case Try_receive
  then show ?thesis using assms
    by (auto simp: ch_defs split: if_splits intro: ch_books_pop ch_books_same)
next
  case Receive_for
  then show ?thesis using assms
    by (auto simp: ch_defs split: if_splits intro: ch_books_pop ch_books_same)
next
  case Close_store
  then show ?thesis using assms by (auto simp: ch_defs ch_books_def)
qed (use assms in \<open>auto simp: ch_defs intro: ch_books_same\<close>)

lemma ch_books_reach:
  fixes m :: "('a channel, 'a channel_op, 'a channel_answer) monitor"
  assumes "mon_reach (ch_exec b) ch_ok new_channel m"
  shows "ch_books b (obj m) (history m)"
  using assms
proof (rule mon_reach_history)
  show "ch_books b new_channel []" by (simp add: ch_books_def new_channel_def)
next
  fix x :: "'a channel_op" and s c r and h :: "('a channel_op \<times> 'a channel_answer) list"
  assume "ch_books b s h" "ch_exec b x s = Wait c (Some r)"
  then show "ch_books b s ((x, r) # h)" by (auto simp: ch_waits_iff intro: ch_books_same)
qed (rule ch_books_ret)

section \<open>The asynchronous channel\<close>

record 'a async_channel =
  ch_base :: "'a channel"
  recv_waiters :: uintptr
  send_waiters :: uintptr

definition new_async_channel :: "'a async_channel" where
  "new_async_channel = \<lparr>ch_base = new_channel, recv_waiters = 0, send_waiters = 0\<rparr>"

text \<open>The list of senders has its own head, with the code of \<open>add_waiter\<close> and \<open>wake_one\<close>.\<close>

definition add_send_waiter ::
  "uintptr \<Rightarrow> 'a async_channel \<Rightarrow> async_mem \<Rightarrow> 'a async_channel \<times> async_mem" where
  "add_send_waiter p a w =
     (case add_waiter p (send_waiters a) w of (head, w') \<Rightarrow> (a\<lparr>send_waiters := head\<rparr>, w'))"

definition add_receive_waiter ::
  "uintptr \<Rightarrow> 'a async_channel \<Rightarrow> async_mem \<Rightarrow> 'a async_channel \<times> async_mem" where
  "add_receive_waiter p a w =
     (case add_waiter p (recv_waiters a) w of (head, w') \<Rightarrow> (a\<lparr>recv_waiters := head\<rparr>, w'))"

definition wake_one_sender ::
  "'a async_channel \<Rightarrow> async_mem \<Rightarrow> 'a async_channel \<times> async_mem" where
  "wake_one_sender a w =
     (case wake_one (send_waiters a) w of (b, head, w') \<Rightarrow> (a\<lparr>send_waiters := head\<rparr>, w'))"

definition wake_one_receiver ::
  "'a async_channel \<Rightarrow> async_mem \<Rightarrow> 'a async_channel \<times> async_mem" where
  "wake_one_receiver a w =
     (case wake_one (recv_waiters a) w of (b, head, w') \<Rightarrow> (a\<lparr>recv_waiters := head\<rparr>, w'))"

type_synonym 'a async_outcome = "('a async_channel \<times> async_mem, 'a channel_answer) outcome"

definition async_send ::
  "boundedness \<Rightarrow> 'a \<Rightarrow> 'a async_channel \<Rightarrow> async_mem \<Rightarrow> 'a async_outcome" where
  "async_send b v a w =
     (case send b v (ch_base a) of
        Wait c t \<Rightarrow> Wait c t
      | Ret s ns r \<Rightarrow>
          (case r of
             Ch_throw \<Rightarrow> Ret (a\<lparr>ch_base := s\<rparr>, w) ns r
           | _ \<Rightarrow> Ret (wake_one_receiver (a\<lparr>ch_base := s\<rparr>) w) ns r))"

definition async_receive :: "boundedness \<Rightarrow> 'a async_channel \<Rightarrow> async_mem \<Rightarrow> 'a async_outcome" where
  "async_receive b a w =
     (case receive b (ch_base a) of
        Wait c t \<Rightarrow> Wait c t
      | Ret s ns r \<Rightarrow>
          (case r of
             Ch_throw \<Rightarrow> Ret (a\<lparr>ch_base := s\<rparr>, w) ns r
           | _ \<Rightarrow> Ret (if is_bounded b then wake_one_sender (a\<lparr>ch_base := s\<rparr>) w
                       else (a\<lparr>ch_base := s\<rparr>, w)) ns r))"

text \<open>\<open>None\<close> when one of the loops over the waiters does not end.\<close>

definition async_close ::
  "'a async_channel \<Rightarrow> async_mem \<Rightarrow> ('a async_channel \<times> async_mem) option" where
  "async_close a w =
     (let s1 = outcome_state (close_store (ch_base a)) (ch_base a);
          s2 = outcome_state (on_close s1) s1 in
      case wake_all (recv_waiters a) w of
        None \<Rightarrow> None
      | Some (rhead, w1) \<Rightarrow>
          (case wake_all (send_waiters a) w1 of
             None \<Rightarrow> None
           | Some (shead, w2) \<Rightarrow>
               Some (\<lparr>ch_base = s2, recv_waiters = rhead, send_waiters = shead\<rparr>, w2)))"

text \<open>The results of the two non-blocking operations as the awaiters use them.\<close>

definition try_send_now :: "boundedness \<Rightarrow> 'a \<Rightarrow> 'a channel \<Rightarrow> bool \<times> 'a channel" where
  "try_send_now b v s =
     (case try_send b v s of Ret s' ns (Ch_bool ok) \<Rightarrow> (ok, s') | _ \<Rightarrow> (False, s))"

definition try_receive_now :: "boundedness \<Rightarrow> 'a channel \<Rightarrow> 'a option \<times> 'a channel" where
  "try_receive_now b s =
     (case try_receive b s of Ret s' ns (Ch_option r) \<Rightarrow> (r, s') | _ \<Rightarrow> (None, s))"

text \<open>
  \<open>channel_send_awaiter\<close>.  Each call of \<open>try_send\<close> takes \<open>std::move(value_)\<close> as its by-value
  argument, so the awaiter keeps a moved-from object whether or not the value was sent:
  \<open>moved v\<close> is what the move constructor of the value type leaves of \<open>v\<close> (\<open>v\<close> itself for a
  trivially copyable type).
\<close>

record 'a send_awaiter =
  sa_value :: 'a
  sa_sent :: bool

definition send_ready ::
  "('a \<Rightarrow> 'a) \<Rightarrow> boundedness \<Rightarrow> 'a send_awaiter \<Rightarrow> 'a async_channel \<Rightarrow>
   bool \<times> 'a send_awaiter \<times> 'a async_channel" where
  "send_ready moved b aw a =
     (case try_send_now b (sa_value aw) (ch_base a) of
        (ok, s) \<Rightarrow> (ok, \<lparr>sa_value = moved (sa_value aw), sa_sent = ok\<rparr>, a\<lparr>ch_base := s\<rparr>))"

definition send_suspend ::
  "uintptr \<Rightarrow> coro \<Rightarrow> 'a async_channel \<Rightarrow> async_mem \<Rightarrow> 'a async_channel \<times> async_mem" where
  "send_suspend p h a w = add_send_waiter p a (arm_node p h 0 w)"

definition send_resume ::
  "boundedness \<Rightarrow> 'a send_awaiter \<Rightarrow> 'a async_channel \<Rightarrow> 'a async_channel" where
  "send_resume b aw a =
     (if \<not> sa_sent aw then a\<lparr>ch_base := snd (try_send_now b (sa_value aw) (ch_base a))\<rparr> else a)"

text \<open>\<open>channel_receive_awaiter\<close>; its state is the result so far.\<close>

definition receive_ready ::
  "boundedness \<Rightarrow> 'a async_channel \<Rightarrow> bool \<times> 'a option \<times> 'a async_channel" where
  "receive_ready b a =
     (case try_receive_now b (ch_base a) of
        (r, s) \<Rightarrow> (r \<noteq> None \<or> is_closed s, r, a\<lparr>ch_base := s\<rparr>))"

definition receive_suspend ::
  "uintptr \<Rightarrow> coro \<Rightarrow> 'a async_channel \<Rightarrow> async_mem \<Rightarrow> 'a async_channel \<times> async_mem" where
  "receive_suspend p h a w = add_receive_waiter p a (arm_node p h 0 w)"

definition receive_resume ::
  "boundedness \<Rightarrow> 'a option \<Rightarrow> 'a async_channel \<Rightarrow> 'a option \<times> 'a async_channel" where
  "receive_resume b r a =
     (if r = None then (case try_receive_now b (ch_base a) of (r', s) \<Rightarrow> (r', a\<lparr>ch_base := s\<rparr>))
      else (r, a))"

lemma try_send_now_simp:
  "try_send_now b v s =
     (if \<not> is_closed s \<and> (is_bounded b \<longrightarrow> can_send b s)
      then (True, s\<lparr>buffer := buffer s @ [v]\<rparr>) else (False, s))"
  by (simp add: try_send_now_def try_send_def push_value_def)

lemma try_receive_now_simp:
  "try_receive_now b s =
     (case buffer s of [] \<Rightarrow> (None, s) | v # vs \<Rightarrow> (Some v, s\<lparr>buffer := vs\<rparr>))"
  by (simp add: try_receive_now_def try_receive_def pop_value_def split: list.split)

lemma receive_suspend_chain:
  assumes "chain (wnodes w) (recv_waiters a) qs" "p \<noteq> 0" "p \<notin> set qs"
  shows "\<exists>a' w'. receive_suspend p h a w = (a', w') \<and> chain (wnodes w') (recv_waiters a') (p # qs)
    \<and> ch_base a' = ch_base a \<and> sched w' = sched w \<and> node_handle (wnodes w' p) = h"
proof -
  obtain head' w' where add: "add_waiter p (recv_waiters a) (arm_node p h 0 w) = (head', w')"
    by fastforce
  have "chain (wnodes w') head' (p # qs)" using chain_add [OF _ assms(2,3) add] assms(1) by simp
  moreover have "sched w' = sched w" "node_handle (wnodes w' p) = h"
    using add by (auto simp: add_waiter_def arm_node_def)
  ultimately show ?thesis by (simp add: receive_suspend_def add_receive_waiter_def add)
qed

section \<open>Properties\<close>

text \<open>
  C5. Values are received once and in order: in every run of any number of threads on a
  bounded or unbounded channel, the values received followed by the buffer are the values
  sent, in the order of the sends; a bounded channel never holds more than its bound; no
  send succeeds after the channel was closed; and a receive reports the closed channel only
  when everything sent has been received.
\<close>

theorem channel_fifo:
  assumes "mon_reach (ch_exec b) ch_ok new_channel m"
  shows "sent (history m) = got (history m) @ buffer (obj m)
    \<and> (\<forall>n. b = Some n \<longrightarrow> length (buffer (obj m)) \<le> n)
    \<and> (\<forall>h2 e h1. history m = h2 @ e # h1 \<longrightarrow>
          (accepted e \<noteq> [] \<longrightarrow> \<not> close_called h1)
          \<and> (says_closed e \<longrightarrow> close_called h1 \<and> got h1 = sent h1))"
proof -
  have books: "ch_books b (obj m) (history m)" by (rule ch_books_reach [OF assms])
  then have good: "ch_good (history m)" by (simp add: ch_books_def)
  have "(accepted e \<noteq> [] \<longrightarrow> \<not> close_called h1)
      \<and> (says_closed e \<longrightarrow> close_called h1 \<and> got h1 = sent h1)"
    if "history m = h2 @ e # h1" for h2 e h1
    using ch_good_suffix [of h2 "e # h1"] good that by simp
  with books show ?thesis by (simp add: ch_books_def)
qed

text \<open>
  C25. No lost wake-up: once no close is half done, a sleeping receiver with no notified
  receiver under way means an empty, open channel, and a sleeping sender with no notified
  sender under way a full, open one; so closing the channel releases everybody.
\<close>

theorem channel_no_lost_wakeup:
  assumes "mon_reach (ch_exec b) ch_ok s0 m" "(c, x) \<in># asleep m" "closing (obj m) = 0"
    and "c = cv \<or> c = send_cv" "on c (notified m) = {#}"
  shows "\<not> is_closed (obj m)
    \<and> (if c = cv then buffer (obj m) = [] else is_bounded b \<and> \<not> can_send b (obj m))"
  using assms(4)
proof
  assume "c = cv"
  then show ?thesis
    using receivers.no_lost_wakeup(2) [of b s0 m x] assms by (auto simp: ch_waits_iff)
next
  assume "c = send_cv"
  then show ?thesis
    using senders.no_lost_wakeup(2) [of b s0 m x] assms by (auto simp: ch_waits_iff)
qed

text \<open>
  Closing an asynchronous channel returns, closes it, and resumes every waiting
  coroutine: first the receivers, then the senders, and both lists are empty.
\<close>

theorem async_close_wakes_all:
  fixes a :: "'a async_channel"
  assumes "chain (wnodes w) (recv_waiters a) qs" "chain (wnodes w) (send_waiters a) rs"
    and "plain w qs" "plain w rs"
  shows "\<exists>a' w'. async_close a w = Some (a', w') \<and> is_closed (ch_base a')
    \<and> buffer (ch_base a') = buffer (ch_base a)
    \<and> sched w' = sched w @ handles w qs @ handles w rs
    \<and> recv_waiters a' = 0 \<and> send_waiters a' = 0"
proof -
  let ?w1 = "fold fire_node qs w"
  have "wake_all (recv_waiters a) w = Some (0, ?w1)" by (rule wake_all_chain [OF assms(1)])
  moreover have "chain (wnodes ?w1) (send_waiters a) rs" "plain ?w1 rs"
    using assms(2,4) by (simp_all add: plain_def)
  from wake_all_plain [OF this] obtain w2 where
    "wake_all (send_waiters a) ?w1 = Some (0, w2)" "sched w2 = sched ?w1 @ handles ?w1 rs" by blast
  moreover have "handles ?w1 rs = handles w rs" by (simp add: handles_def)
  moreover have "sched ?w1 = sched w @ handles w qs" by (rule fold_fire_plain [OF assms(3)])
  ultimately show ?thesis
    by (simp add: async_close_def close_store_def on_close_def)
qed

text \<open>
  A receiver can miss its value: when a value is sent between the receiver's
  \<open>await_ready\<close> (which found nothing) and its \<open>await_suspend\<close>, the sender finds no waiter to
  wake, and the receiver suspends without looking again: the value is in the buffer, the
  receiver in the list, and nothing is scheduled.
\<close>

theorem receive_missed_wakeup:
  assumes "buffer (ch_base a) = []" "\<not> is_closed (ch_base a)" "recv_waiters a = 0" "p \<noteq> 0"
    and "is_bounded b \<longrightarrow> can_send b (ch_base a)"
  shows "receive_ready b a = (False, None, a)
    \<and> (\<exists>a1. async_send b v a w = Ret (a1, w) [Notify_one cv] Ch_unit
        \<and> (\<exists>a2 w2. receive_suspend p h a1 w = (a2, w2) \<and> buffer (ch_base a2) = [v]
            \<and> chain (wnodes w2) (recv_waiters a2) [p] \<and> node_handle (wnodes w2 p) = h
            \<and> sched w2 = sched w))"
proof -
  let ?a1 = "a\<lparr>ch_base := (ch_base a)\<lparr>buffer := [v]\<rparr>\<rparr>"
  have "async_send b v a w = Ret (?a1, w) [Notify_one cv] Ch_unit"
    using assms by (simp add: async_send_def ch_defs wake_one_receiver_def wake_one_def)
  moreover have "chain (wnodes w) (recv_waiters ?a1) []" using assms(3) by simp
  from receive_suspend_chain [OF this assms(4), of h] obtain a2 w2 where
    "receive_suspend p h ?a1 w = (a2, w2)" "chain (wnodes w2) (recv_waiters a2) [p]"
    "ch_base a2 = ch_base ?a1" "sched w2 = sched w" "node_handle (wnodes w2 p) = h" by auto
  moreover have "receive_ready b a = (False, None, a)"
    using assms(1,2) by (simp add: receive_ready_def try_receive_now_simp)
  ultimately show ?thesis by auto
qed

text \<open>
  An asynchronous send that has to wait loses its value: \<open>await_ready\<close> moves the value
  into the failing \<open>try_send\<close>, so after the wake-up a moved-from object is sent instead, and
  if the channel is full again or closed nothing is sent and nobody is told.
\<close>

theorem blocked_send_loses_value:
  assumes "is_bounded b" "\<not> can_send b (ch_base a)"
    and "aw = \<lparr>sa_value = v, sa_sent = False\<rparr>"
  shows "\<exists>aw'. send_ready moved b aw a = (False, aw', a)
    \<and> (\<forall>a'. ch_base (send_resume b aw' a') =
         (if is_closed (ch_base a') \<or> \<not> can_send b (ch_base a') then ch_base a'
          else (ch_base a')\<lparr>buffer := buffer (ch_base a') @ [moved v]\<rparr>))"
  using assms by (simp add: send_ready_def send_resume_def try_send_now_simp)

section \<open>Witnesses\<close>

text \<open>A channel for one value: a send, and a second sender that has to wait.\<close>

definition ch_run :: "(nat channel, nat channel_op, nat channel_answer) monitor" where
  "ch_run = \<lparr>obj = \<lparr>buffer = [7], is_closed = False, closing = 0\<rparr>,
     asleep = {#(send_cv, Send 8)#}, notified = {#}, history = [(Send 7, Ch_unit)]\<rparr>"

lemma ch_run_reach: "mon_reach (ch_exec (Some 1)) ch_ok new_channel ch_run"
proof -
  have "mon_reach (ch_exec (Some 1)) ch_ok new_channel
      \<lparr>obj = \<lparr>buffer = [7 :: nat], is_closed = False, closing = 0\<rparr>, asleep = {#}, notified = {#},
       history = [(Send 7, Ch_unit)]\<rparr>"
    using mon_call_idle [OF mon_reach.start, of ch_ok "Send 7" new_channel "ch_exec (Some 1)"
        "\<lparr>buffer = [7 :: nat], is_closed = False, closing = 0\<rparr>" cv Ch_unit]
    by (simp add: mon_init_def new_channel_def ch_defs is_bounded_def can_send_def)
  from mon_call_waits [OF this, of "Send 8" send_cv None] show ?thesis
    by (simp add: ch_defs is_bounded_def can_send_def ch_run_def)
qed

theorem channel_fifo_witness:
  "sent (history ch_run) = [7] \<and> length (buffer (obj ch_run)) \<le> 1"
  using channel_fifo [OF ch_run_reach] by (simp add: ch_run_def)

theorem channel_no_lost_wakeup_witness: "\<not> can_send (Some 1) (obj ch_run)"
  using channel_no_lost_wakeup [OF ch_run_reach, of send_cv "Send 8"] by (simp add: ch_run_def)

definition ch_waiting_one :: "nat async_channel \<times> async_mem" where
  "ch_waiting_one = receive_suspend 16 5 new_async_channel sample_mem"

theorem async_close_wakes_all_witness:
  "\<exists>a w. async_close (fst ch_waiting_one) (snd ch_waiting_one) = Some (a, w) \<and> sched w = [5]"
proof -
  have w: "chain (wnodes (snd ch_waiting_one)) (recv_waiters (fst ch_waiting_one)) [16]"
    "chain (wnodes (snd ch_waiting_one)) (send_waiters (fst ch_waiting_one)) []"
    "plain (snd ch_waiting_one) [16]" "plain (snd ch_waiting_one) []"
    "handles (snd ch_waiting_one) [16] = [5]" "sched (snd ch_waiting_one) = []"
    by (simp_all add: ch_waiting_one_def receive_suspend_def add_receive_waiter_def add_waiter_def
        arm_node_def new_async_channel_def sample_mem_def new_node_def plain_def handles_def)
  show ?thesis using async_close_wakes_all [OF w(1-4)] w(5,6) by (auto simp: handles_def)
qed

theorem receive_missed_wakeup_witness:
  "\<exists>a1 a2 w2. async_send None (7 :: nat) new_async_channel sample_mem
       = Ret (a1, sample_mem) [Notify_one cv] Ch_unit
     \<and> receive_suspend 16 5 a1 sample_mem = (a2, w2) \<and> buffer (ch_base a2) = [7] \<and> sched w2 = []"
  using receive_missed_wakeup [of "new_async_channel :: nat async_channel" 16 None 7 sample_mem 5]
  by (auto simp: new_async_channel_def new_channel_def sample_mem_def is_bounded_def)

theorem blocked_send_loses_value_witness:
  "\<exists>aw. send_ready (\<lambda>v. 0) (Some 0) \<lparr>sa_value = 7 :: nat, sa_sent = False\<rparr> new_async_channel
     = (False, aw, new_async_channel)"
  using blocked_send_loses_value [of "Some 0" "new_async_channel :: nat async_channel"
      "\<lparr>sa_value = 7, sa_sent = False\<rparr>" 7 "\<lambda>v. 0"]
  by (auto simp: is_bounded_def can_send_def)

end
