(* ===== verification/BinaryHeap.thy ===== *)
theory BinaryHeap
  imports Prelude
begin

text \<open>
  \<open>std::push_heap\<close> and \<open>std::pop_heap\<close> on a vector, as the timer service uses them (with
  \<open>std::greater\<close>, so that the front is least), and the interface of a priority queue that
  they implement.  The standard fixes only that they permute the elements, that the result
  is a heap, and that \<open>pop_heap\<close> moves the front to the back; the functions here are the
  textbook ones.
\<close>

section \<open>Sifting\<close>

definition swap :: "nat \<Rightarrow> nat \<Rightarrow> 'a list \<Rightarrow> 'a list" where
  "swap i j xs = xs[i := xs ! j, j := xs ! i]"

fun sift_up :: "('a \<Rightarrow> int) \<Rightarrow> nat \<Rightarrow> 'a list \<Rightarrow> 'a list" where
  "sift_up key 0 xs = xs"
| "sift_up key (Suc i) xs =
     (if key (xs ! Suc i) < key (xs ! (i div 2)) then sift_up key (i div 2) (swap (Suc i) (i div 2) xs)
      else xs)"

definition push_heap :: "('a \<Rightarrow> int) \<Rightarrow> 'a list \<Rightarrow> 'a list" where
  "push_heap key xs = sift_up key (length xs - 1) xs"

text \<open>The position of the least of \<open>i\<close> and its children below \<open>n\<close>.\<close>

definition least_child :: "('a \<Rightarrow> int) \<Rightarrow> nat \<Rightarrow> nat \<Rightarrow> 'a list \<Rightarrow> nat" where
  "least_child key n i xs =
     (let m = (if 2 * i + 1 < n \<and> key (xs ! (2 * i + 1)) < key (xs ! i) then 2 * i + 1 else i)
      in if 2 * i + 2 < n \<and> key (xs ! (2 * i + 2)) < key (xs ! m) then 2 * i + 2 else m)"

lemma least_child_cases: "least_child key n i xs = i \<or> least_child key n i xs = 2 * i + 1
    \<and> 2 * i + 1 < n \<or> least_child key n i xs = 2 * i + 2 \<and> 2 * i + 2 < n"
  by (simp add: least_child_def Let_def)

function sift_down :: "('a \<Rightarrow> int) \<Rightarrow> nat \<Rightarrow> nat \<Rightarrow> 'a list \<Rightarrow> 'a list" where
  "sift_down key n i xs =
     (let m = least_child key n i xs in if m = i then xs else sift_down key n m (swap i m xs))"
  by pat_completeness auto
termination
proof (relation "measure (\<lambda>(key, n, i, xs). n - i)")
  fix key :: "'a \<Rightarrow> int" and n i m xs
  assume "m = least_child key n i xs" "m \<noteq> i"
  then show "((key, n, m, swap i m xs), key, n, i, xs) \<in> measure (\<lambda>(key, n, i, xs). n - i)"
    using least_child_cases [of key n i xs] by auto
qed simp

declare sift_down.simps [simp del]

text \<open>\<open>pop_heap\<close> and the \<open>pop_back\<close> that follows it: the front, and the rest as a heap.\<close>

definition pop_heap :: "('a \<Rightarrow> int) \<Rightarrow> 'a list \<Rightarrow> 'a \<times> 'a list" where
  "pop_heap key xs =
     (hd xs, sift_down key (length xs - 1) 0 (butlast (swap 0 (length xs - 1) xs)))"

section \<open>Elements are only permuted\<close>

lemma swap_simps [simp]:
  "length (swap i j xs) = length xs"
  "i < length xs \<Longrightarrow> j < length xs \<Longrightarrow> mset (swap i j xs) = mset xs"
  by (simp_all add: swap_def mset_swap)

lemma nth_swap:
  "i < length xs \<Longrightarrow> j < length xs \<Longrightarrow> k < length xs \<Longrightarrow>
   swap i j xs ! k = (if k = i then xs ! j else if k = j then xs ! i else xs ! k)"
  by (auto simp: swap_def nth_list_update)

lemma mset_sift_up [simp]: "i < length xs \<Longrightarrow> mset (sift_up key i xs) = mset xs"
proof (induction key i xs rule: sift_up.induct)
  case (2 key i xs)
  have "i div 2 < length xs" using "2.prems" by simp
  with 2 show ?case by simp
qed simp

lemma length_sift_up [simp]: "length (sift_up key i xs) = length xs"
  by (induction key i xs rule: sift_up.induct) simp_all

lemma mset_sift_down [simp]: "i < n \<Longrightarrow> n \<le> length xs \<Longrightarrow> mset (sift_down key n i xs) = mset xs"
proof (induction key n i xs rule: sift_down.induct)
  case (1 key n i xs)
  then show ?case
    using least_child_cases [of key n i xs]
    by (subst sift_down.simps) (auto simp: Let_def)
qed

lemma length_sift_down [simp]: "length (sift_down key n i xs) = length xs"
proof (induction key n i xs rule: sift_down.induct)
  case (1 key n i xs)
  then show ?case by (subst sift_down.simps) (simp add: Let_def)
qed

section \<open>Heaps\<close>

definition heap_at :: "('a \<Rightarrow> int) \<Rightarrow> 'a list \<Rightarrow> nat \<Rightarrow> bool" where
  "heap_at key xs k \<longleftrightarrow> key (xs ! ((k - 1) div 2)) \<le> key (xs ! k)"

definition is_heap :: "('a \<Rightarrow> int) \<Rightarrow> 'a list \<Rightarrow> bool" where
  "is_heap key xs \<longleftrightarrow> (\<forall>k. 0 < k \<and> k < length xs \<longrightarrow> heap_at key xs k)"

lemma heap_front_least: "is_heap key xs \<Longrightarrow> k < length xs \<Longrightarrow> key (xs ! 0) \<le> key (xs ! k)"
proof (induction k rule: less_induct)
  case (less k)
  show ?case
  proof (cases "k = 0")
    case False
    then have "key (xs ! 0) \<le> key (xs ! ((k - 1) div 2))" using less by simp
    moreover have "heap_at key xs k" using less.prems False by (simp add: is_heap_def)
    ultimately show ?thesis by (simp add: heap_at_def)
  qed simp
qed

lemma child_cases: "0 < (k::nat) \<Longrightarrow> (k - 1) div 2 = i \<Longrightarrow> k = 2 * i + 1 \<or> k = 2 * i + 2"
  by (cases k) auto

text \<open>A heap but for the element at \<open>i\<close>, which may be too small for its place.\<close>

definition heap_but_up :: "('a \<Rightarrow> int) \<Rightarrow> nat \<Rightarrow> 'a list \<Rightarrow> bool" where
  "heap_but_up key i xs \<longleftrightarrow>
     (\<forall>k. 0 < k \<and> k < length xs \<and> k \<noteq> i \<longrightarrow> heap_at key xs k)
     \<and> (\<forall>k. 0 < k \<and> k < length xs \<and> (k - 1) div 2 = i \<and> 0 < i \<longrightarrow>
          key (xs ! ((i - 1) div 2)) \<le> key (xs ! k))"

lemma heap_but_up_step:
  assumes "heap_but_up key (Suc i) xs" "Suc i < length xs" "key (xs ! Suc i) < key (xs ! (i div 2))"
  shows "heap_but_up key (i div 2) (swap (Suc i) (i div 2) xs)"
proof -
  let ?p = "i div 2" and ?ys = "swap (Suc i) (i div 2) xs"
  have p: "?p < length xs" "?p \<noteq> Suc i" using assms(2) by auto
  note nth = nth_swap [OF assms(2) p(1)]
  have one: "heap_at key ?ys k" if k: "0 < k" "k < length xs" "k \<noteq> ?p" for k
  proof -
    let ?q = "(k - 1) div 2"
    have q: "?q < length xs" using k by simp
    have heap: "k \<noteq> Suc i \<Longrightarrow> key (xs ! ?q) \<le> key (xs ! k)"
      using assms(1) k by (simp add: heap_but_up_def heap_at_def)
    have gp: "?q = Suc i \<Longrightarrow> key (xs ! ?p) \<le> key (xs ! k)"
      using assms(1) k by (simp add: heap_but_up_def)
    show ?thesis unfolding heap_at_def nth [OF q] nth [OF k(2)]
      using heap gp k(3) p(2) assms(3) by (cases "k = Suc i") (auto split: if_splits)
  qed
  have two: "key (?ys ! ((?p - 1) div 2)) \<le> key (?ys ! k)"
    if k: "0 < k" "k < length xs" "(k - 1) div 2 = ?p" "0 < ?p" for k
  proof -
    let ?g = "(?p - 1) div 2"
    have g: "?g < length xs" "?g \<noteq> ?p" "?g \<noteq> Suc i" using p k(4) by auto
    have "heap_at key xs ?p" using assms(1) p k(4) by (simp add: heap_but_up_def)
    then have gp: "key (xs ! ?g) \<le> key (xs ! ?p)" by (simp add: heap_at_def)
    have "k \<noteq> ?p" using k by auto
    moreover have "key (xs ! ?p) \<le> key (xs ! k)" if "k \<noteq> Suc i"
    proof -
      have "heap_at key xs k" using assms(1) k that by (simp add: heap_but_up_def)
      then show ?thesis using k(3) by (simp add: heap_at_def)
    qed
    ultimately show ?thesis unfolding nth [OF g(1)] nth [OF k(2)]
      using gp g by auto
  qed
  from one two show ?thesis by (simp add: heap_but_up_def)
qed

lemma sift_up_heap:
  "heap_but_up key i xs \<Longrightarrow> i < length xs \<Longrightarrow> is_heap key (sift_up key i xs)"
proof (induction key i xs rule: sift_up.induct)
  case (1 key xs)
  then show ?case by (auto simp: heap_but_up_def is_heap_def)
next
  case (2 key i xs)
  show ?case
  proof (cases "key (xs ! Suc i) < key (xs ! (i div 2))")
    case True
    then have "heap_but_up key (i div 2) (swap (Suc i) (i div 2) xs)"
      using heap_but_up_step "2.prems" by blast
    with 2 True show ?thesis by simp
  next
    case False
    then have "heap_at key xs (Suc i)" by (simp add: heap_at_def)
    with "2.prems" have "is_heap key xs" by (auto simp: heap_but_up_def is_heap_def)
    with False show ?thesis by simp
  qed
qed

text \<open>A heap but for the element at \<open>i\<close>, which may be too large for its place.\<close>

definition heap_but_down :: "('a \<Rightarrow> int) \<Rightarrow> nat \<Rightarrow> 'a list \<Rightarrow> bool" where
  "heap_but_down key i xs \<longleftrightarrow>
     (\<forall>k. 0 < k \<and> k < length xs \<and> (k - 1) div 2 \<noteq> i \<longrightarrow> heap_at key xs k)
     \<and> (\<forall>k. 0 < k \<and> k < length xs \<and> (k - 1) div 2 = i \<and> 0 < i \<longrightarrow>
          key (xs ! ((i - 1) div 2)) \<le> key (xs ! k))"

lemma least_child_le:
  "key (xs ! least_child key n i xs) \<le> key (xs ! i)"
  "2 * i + 1 < n \<Longrightarrow> key (xs ! least_child key n i xs) \<le> key (xs ! (2 * i + 1))"
  "2 * i + 2 < n \<Longrightarrow> key (xs ! least_child key n i xs) \<le> key (xs ! (2 * i + 2))"
  by (auto simp: least_child_def Let_def)

lemma least_child_least:
  assumes "0 < k" "k < n" "(k - 1) div 2 = i"
  shows "key (xs ! least_child key n i xs) \<le> key (xs ! k)"
  using child_cases [OF assms(1,3)] assms(2) least_child_le(2,3) [of i n key xs] by auto

lemma heap_but_down_step:
  assumes "heap_but_down key i xs" "i < length xs" "m = least_child key (length xs) i xs" "m \<noteq> i"
  shows "heap_but_down key m (swap i m xs)" "m < length xs" "(m - 1) div 2 = i"
proof -
  have m: "m = 2 * i + 1 \<or> m = 2 * i + 2" "m < length xs"
    using least_child_cases [of key "length xs" i xs] assms(3,4) by auto
  then show mi: "m < length xs" "(m - 1) div 2 = i" by auto
  let ?ys = "swap i m xs"
  note nth = nth_swap [OF assms(2) m(2)]
  have least: "key (xs ! m) \<le> key (xs ! i)"
    "\<And>k. 0 < k \<Longrightarrow> k < length xs \<Longrightarrow> (k - 1) div 2 = i \<Longrightarrow> key (xs ! m) \<le> key (xs ! k)"
    unfolding assms(3) by (rule least_child_le(1), rule least_child_least)
  have one: "heap_at key ?ys k" if k: "0 < k" "k < length xs" "(k - 1) div 2 \<noteq> m" for k
  proof (cases "(k - 1) div 2 = i")
    case True
    then have "k \<noteq> i" using k(1) by auto
    then show ?thesis unfolding heap_at_def True nth [OF assms(2)] nth [OF k(2)]
      using least k True assms(4) by auto
  next
    case False
    have q: "(k - 1) div 2 < length xs" using k by simp
    have heap: "key (xs ! ((k - 1) div 2)) \<le> key (xs ! k)"
      using assms(1) k False by (simp add: heap_but_down_def heap_at_def)
    have "k \<noteq> m" using False mi(2) by auto
    moreover have "k = i \<Longrightarrow> key (xs ! ((k - 1) div 2)) \<le> key (xs ! m)"
      using assms(1) k(1) m mi by (auto simp: heap_but_down_def)
    ultimately show ?thesis unfolding heap_at_def nth [OF q] nth [OF k(2)]
      using heap False k(3) by auto
  qed
  have two: "key (?ys ! ((m - 1) div 2)) \<le> key (?ys ! k)"
    if k: "0 < k" "k < length xs" "(k - 1) div 2 = m" for k
  proof -
    have "heap_at key xs k" using assms(1,4) k by (auto simp: heap_but_down_def)
    then have "key (xs ! m) \<le> key (xs ! k)" using k(3) by (simp add: heap_at_def)
    moreover have "k \<noteq> i" "k \<noteq> m" using k m by auto
    ultimately show ?thesis unfolding mi(2) nth [OF assms(2)] nth [OF k(2)] by simp
  qed
  from one two show "heap_but_down key m ?ys" by (simp add: heap_but_down_def)
qed

lemma sift_down_heap:
  "heap_but_down key i xs \<Longrightarrow> i < length xs \<Longrightarrow> n = length xs \<Longrightarrow> is_heap key (sift_down key n i xs)"
proof (induction key n i xs rule: sift_down.induct)
  case (1 key n i xs)
  let ?m = "least_child key n i xs"
  show ?case
  proof (cases "?m = i")
    case True
    have "heap_at key xs k" if "0 < k" "k < length xs" for k
    proof (cases "(k - 1) div 2 = i")
      case par: True
      then have "key (xs ! ?m) \<le> key (xs ! k)"
        using least_child_least that "1.prems"(3) by blast
      with True par show ?thesis by (simp add: heap_at_def)
    qed (use "1.prems" that in \<open>simp add: heap_but_down_def\<close>)
    then have "is_heap key xs" by (simp add: is_heap_def)
    then show ?thesis using True by (subst sift_down.simps) (simp add: Let_def)
  next
    case False
    have "heap_but_down key ?m (swap i ?m xs)" "?m < length xs"
      using heap_but_down_step [OF "1.prems"(1,2) _ False] "1.prems"(3) by simp_all
    then have "is_heap key (sift_down key n ?m (swap i ?m xs))"
      using "1.IH" [OF refl False] "1.prems"(3) by simp
    then show ?thesis using False by (subst sift_down.simps) (simp add: Let_def)
  qed
qed

section \<open>Pushing and popping\<close>

lemma push_heap_heap:
  assumes "is_heap key xs"
  shows "is_heap key (push_heap key (xs @ [x]))"
proof -
  have "heap_at key (xs @ [x]) k" if "0 < k" "k < length (xs @ [x])" "k \<noteq> length xs" for k
  proof -
    have "k < length xs" "(k - 1) div 2 < length xs" using that by auto
    then show ?thesis using assms that by (simp add: is_heap_def heap_at_def nth_append)
  qed
  moreover have "(k - 1) div 2 \<noteq> length xs" if "0 < k" "k < length (xs @ [x])" for k
  proof -
    have "(k - 1) div 2 < k" using that by auto
    then show ?thesis using that by simp
  qed
  ultimately have "heap_but_up key (length xs) (xs @ [x])"
    unfolding heap_but_up_def by blast
  then show ?thesis using sift_up_heap [of key "length xs" "xs @ [x]"] by (simp add: push_heap_def)
qed

lemma mset_push_heap: "mset (push_heap key (xs @ [x])) = add_mset x (mset xs)"
  by (simp add: push_heap_def)

lemma pop_base:
  assumes "xs \<noteq> []"
  shows "mset xs = add_mset (hd xs) (mset (butlast (swap 0 (length xs - 1) xs)))"
proof -
  let ?ys = "swap 0 (length xs - 1) xs"
  have ys: "?ys \<noteq> []" "length ?ys = length xs" using assms by (auto simp flip: length_greater_0_conv)
  then have "last ?ys = hd xs"
    using assms by (simp add: last_conv_nth hd_conv_nth nth_swap)
  moreover have "mset ?ys = mset xs" using assms by simp
  moreover have "mset ?ys = add_mset (last ?ys) (mset (butlast ?ys))"
    by (subst append_butlast_last_id [OF ys(1), symmetric]) simp
  ultimately show ?thesis by simp
qed

lemma mset_pop_heap:
  assumes "xs \<noteq> []"
  shows "mset xs = add_mset (fst (pop_heap key xs)) (mset (snd (pop_heap key xs)))"
proof (cases "length xs = 1")
  case True
  then show ?thesis using pop_base [OF assms]
    by (subst pop_base [OF assms]) (simp add: pop_heap_def sift_down.simps least_child_def)
next
  case False
  then have "0 < length xs - 1" using assms by (cases xs) auto
  then show ?thesis using pop_base [OF assms] by (simp add: pop_heap_def)
qed

lemma pop_heap_heap:
  assumes "is_heap key xs" "xs \<noteq> []"
  shows "is_heap key (snd (pop_heap key xs))"
proof (cases "length xs = 1")
  case True
  then show ?thesis by (simp add: is_heap_def pop_heap_def)
next
  case False
  then have n: "0 < length xs - 1" using assms(2) by (cases xs) auto
  let ?ys = "butlast (swap 0 (length xs - 1) xs)"
  have nth: "?ys ! k = xs ! k" if "0 < k" "k < length xs - 1" for k
    using that assms(2) nth_swap [of 0 xs "length xs - 1" k] by (auto simp: nth_butlast)
  have "heap_but_down key 0 ?ys"
    unfolding heap_but_down_def
  proof (intro conjI allI impI)
    fix k assume k: "0 < k \<and> k < length ?ys \<and> (k - 1) div 2 \<noteq> 0"
    then have "0 < k" "k < length xs" by auto
    then have "heap_at key xs k" using assms(1) by (simp add: is_heap_def)
    moreover have "?ys ! k = xs ! k" by (rule nth) (use k in auto)
    moreover have "?ys ! ((k - 1) div 2) = xs ! ((k - 1) div 2)" by (rule nth) (use k in auto)
    ultimately show "heap_at key ?ys k" by (simp add: heap_at_def)
  qed simp
  then show ?thesis using sift_down_heap [of key 0 ?ys] n by (simp add: pop_heap_def)
qed

section \<open>Priority queues\<close>

text \<open>
  What a client relies on: \<open>push\<close> places the element appended last, \<open>pop\<close> gives the front
  and the rest, and the front of a good queue is least.
\<close>

locale priority_queue =
  fixes key :: "'a \<Rightarrow> int" and good :: "'a list \<Rightarrow> bool"
    and push :: "'a list \<Rightarrow> 'a list" and pop :: "'a list \<Rightarrow> 'a \<times> 'a list"
  assumes good_empty: "good []"
    and push_good: "good xs \<Longrightarrow> good (push (xs @ [x]))"
    and push_mset: "mset (push (xs @ [x])) = add_mset x (mset xs)"
    and pop_good: "good xs \<Longrightarrow> xs \<noteq> [] \<Longrightarrow> good (snd (pop xs))"
    and pop_mset: "xs \<noteq> [] \<Longrightarrow> mset xs = add_mset (fst (pop xs)) (mset (snd (pop xs)))"
    and pop_front: "xs \<noteq> [] \<Longrightarrow> fst (pop xs) = hd xs"
    and front_least: "good xs \<Longrightarrow> y \<in> set xs \<Longrightarrow> key (hd xs) \<le> key y"

text \<open>Popping while the front satisfies a predicate.\<close>

fun pop_while ::
  "('a list \<Rightarrow> 'a \<times> 'a list) \<Rightarrow> ('a \<Rightarrow> bool) \<Rightarrow> nat \<Rightarrow> 'a list \<Rightarrow> 'a list \<times> 'a list" where
  "pop_while pop P 0 xs = ([], xs)"
| "pop_while pop P (Suc n) xs =
     (if xs \<noteq> [] \<and> P (hd xs)
      then case pop_while pop P n (snd (pop xs)) of (ys, rest) \<Rightarrow> (fst (pop xs) # ys, rest)
      else ([], xs))"

context priority_queue
begin

lemma pop_length: "xs \<noteq> [] \<Longrightarrow> length xs = Suc (length (snd (pop xs)))"
  using pop_mset [of xs] by (metis size_add_mset size_mset)

lemma pop_while_due:
  "good xs \<Longrightarrow> length xs \<le> n \<Longrightarrow> pop_while pop (\<lambda>x. key x \<le> t) n xs = (ys, rest) \<Longrightarrow>
   mset xs = mset ys + mset rest \<and> good rest \<and> sorted (map key ys)
   \<and> (\<forall>y \<in> set ys. key y \<le> t) \<and> (\<forall>y \<in> set rest. t < key y)"
proof (induction n arbitrary: xs ys)
  case 0
  then show ?case by simp
next
  case (Suc n)
  show ?case
  proof (cases "xs \<noteq> [] \<and> key (hd xs) \<le> t")
    case False
    then have "ys = []" "rest = xs" using Suc.prems(3) by auto
    moreover have "t < key y" if "y \<in> set xs" for y
      using False front_least [OF Suc.prems(1) that] that by auto
    ultimately show ?thesis using Suc.prems(1) by simp
  next
    case True
    let ?xs = "snd (pop xs)"
    obtain zs where zs: "pop_while pop (\<lambda>x. key x \<le> t) n ?xs = (zs, rest)" "ys = hd xs # zs"
      using Suc.prems(3) True pop_front [of xs] by (auto split: prod.splits)
    have IH: "mset ?xs = mset zs + mset rest" "good rest" "sorted (map key zs)"
      "\<forall>y \<in> set zs. key y \<le> t" "\<forall>y \<in> set rest. t < key y"
      using Suc.IH [OF pop_good [OF Suc.prems(1)] _ zs(1)] True Suc.prems(2) pop_length [of xs]
      by auto
    have all: "mset xs = add_mset (hd xs) (mset ?xs)" using pop_mset [of xs] pop_front [of xs] True by simp
    then have "set zs \<subseteq> set xs" using IH(1)
      by (metis mset_subset_eq_add_left set_mset_mono set_mset_mset subset_insertI
          set_mset_add_mset_insert order_trans)
    then have "\<forall>y \<in> set zs. key (hd xs) \<le> key y" using front_least [OF Suc.prems(1)] by blast
    then show ?thesis using IH all zs(2) True by simp
  qed
qed

end

interpretation heap: priority_queue key "is_heap key" "push_heap key" "pop_heap key"
proof
  show "is_heap key []" by (simp add: is_heap_def)
  show "is_heap key xs \<Longrightarrow> is_heap key (push_heap key (xs @ [x]))" for xs x by (rule push_heap_heap)
  show "mset (push_heap key (xs @ [x])) = add_mset x (mset xs)" for xs x by (rule mset_push_heap)
  show "is_heap key xs \<Longrightarrow> xs \<noteq> [] \<Longrightarrow> is_heap key (snd (pop_heap key xs))" for xs
    by (rule pop_heap_heap)
  show "xs \<noteq> [] \<Longrightarrow> mset xs = add_mset (fst (pop_heap key xs)) (mset (snd (pop_heap key xs)))" for xs
    by (rule mset_pop_heap)
  show "xs \<noteq> [] \<Longrightarrow> fst (pop_heap key xs) = hd xs" for xs by (simp add: pop_heap_def)
  show "key (hd xs) \<le> key y" if "is_heap key xs" "y \<in> set xs" for xs y
  proof -
    from that(2) obtain k where k: "k < length xs" "y = xs ! k" by (metis in_set_conv_nth)
    then have "hd xs = xs ! 0" by (simp add: hd_conv_nth flip: length_greater_0_conv)
    then show ?thesis using heap_front_least [OF that(1) k(1)] k(2) by simp
  qed
qed

end
