(* ===== verification/TimerService.thy ===== *)
theory TimerService
  imports BinaryHeap WaiterList
begin

text \<open>
  \<open>timer_service\<close> (\<open>include/timer_service.hpp\<close>, \<open>src/timer_service.cpp\<close>): a heap of
  timers ordered by deadline, the thread that fires them, \<open>add_timer\<close> and \<open>shutdown\<close>, and
  the waits and notifications between them.  Deadlines are ticks of the steady clock.
\<close>

section \<open>Timers\<close>

text \<open>
  The state a sleeping coroutine shares with its timer: the handle, written before the
  timer is added, and the address of the \<open>fired\<close> flag among the gates.
\<close>

record sleep_waiter_state =
  sw_handle :: coro
  sw_fired :: uintptr

record timer_entry =
  te_deadline :: int
  te_handle :: coro
  te_cancel_state :: uintptr
  te_fired :: uintptr
  te_waiter :: "sleep_waiter_state option"

text \<open>\<open>operator>\<close> compares deadlines; two timers with the same deadline are not the same.\<close>

instantiation timer_entry_ext :: (type) preorder
begin

definition less_eq_timer_entry_ext :: "'a timer_entry_ext \<Rightarrow> 'a timer_entry_ext \<Rightarrow> bool" where
  "less_eq_timer_entry_ext e e' \<longleftrightarrow> te_deadline e \<le> te_deadline e'"

definition less_timer_entry_ext :: "'a timer_entry_ext \<Rightarrow> 'a timer_entry_ext \<Rightarrow> bool" where
  "less_timer_entry_ext e e' \<longleftrightarrow> te_deadline e < te_deadline e'"

instance
  by standard (auto simp: less_eq_timer_entry_ext_def less_timer_entry_ext_def)

end

record timer_service =
  t_heap :: "timer_entry list"
  t_running :: bool

definition new_timer_service :: timer_service where
  "new_timer_service = \<lparr>t_heap = [], t_running = True\<rparr>"

definition push_timer :: "timer_entry \<Rightarrow> timer_service \<Rightarrow> timer_service" where
  "push_timer e ts = ts\<lparr>t_heap := push_heap te_deadline (t_heap ts @ [e])\<rparr>"

text \<open>The two overloads of \<open>add_timer\<close>, without the notification that follows.\<close>

definition add_timer_raw ::
  "int \<Rightarrow> coro \<Rightarrow> uintptr \<Rightarrow> uintptr \<Rightarrow> timer_service \<Rightarrow> timer_service" where
  "add_timer_raw deadline handle cancel_state fired ts =
     push_timer \<lparr>te_deadline = deadline, te_handle = handle, te_cancel_state = cancel_state,
       te_fired = fired, te_waiter = None\<rparr> ts"

definition add_timer_shared ::
  "int \<Rightarrow> uintptr \<Rightarrow> sleep_waiter_state \<Rightarrow> timer_service \<Rightarrow> timer_service" where
  "add_timer_shared deadline cancel_state waiter ts =
     push_timer \<lparr>te_deadline = deadline, te_handle = 0, te_cancel_state = cancel_state,
       te_fired = 0, te_waiter = Some waiter\<rparr> ts"

definition view_of :: "timer_entry \<Rightarrow> coro \<times> uintptr" where
  "view_of e =
     (case te_waiter e of Some s \<Rightarrow> (sw_handle s, sw_fired s) | None \<Rightarrow> (te_handle e, te_fired e))"

definition fire_entry :: "timer_entry \<Rightarrow> async_mem \<Rightarrow> async_mem" where
  "fire_entry e w =
     (case view_of e of (h, g) \<Rightarrow> if g \<noteq> 0 \<and> h \<noteq> 0 then fire_gate g h w else w)"

text \<open>One round of the loop of \<open>run\<close>, with the lock held and the clock at \<open>now\<close>.\<close>

datatype run_action = Stop | Wait_timer | Wait_until int | Fire timer_entry

definition run_round :: "int \<Rightarrow> timer_service \<Rightarrow> run_action \<times> timer_service" where
  "run_round now ts =
     (if \<not> t_running ts then (Stop, ts)
      else if t_heap ts = [] then (Wait_timer, ts)
      else if te_deadline (hd (t_heap ts)) \<le> now
      then (case pop_heap te_deadline (t_heap ts) of (e, rest) \<Rightarrow> (Fire e, ts\<lparr>t_heap := rest\<rparr>))
      else (Wait_until (te_deadline (hd (t_heap ts))), ts))"

text \<open>\<open>shutdown\<close> after the thread was joined: fires what is left, in the heap's order.\<close>

definition fire_remaining :: "timer_service \<Rightarrow> async_mem \<Rightarrow> timer_service \<times> async_mem" where
  "fire_remaining ts w = (ts\<lparr>t_heap := []\<rparr>, fold fire_entry (t_heap ts) w)"

definition good_service :: "timer_service \<Rightarrow> bool" where
  "good_service ts \<longleftrightarrow> is_heap te_deadline (t_heap ts)"

text \<open>No entry of a heap is greater than one of its children.\<close>

lemma good_service_order:
  "good_service ts \<longleftrightarrow>
     (\<forall>k. 0 < k \<and> k < length (t_heap ts) \<longrightarrow> \<not> t_heap ts ! ((k - 1) div 2) > t_heap ts ! k)"
  by (auto simp: good_service_def is_heap_def heap_at_def less_timer_entry_ext_def not_less)

lemma push_timer_good [simp]: "good_service ts \<Longrightarrow> good_service (push_timer e ts)"
  by (simp add: good_service_def push_timer_def push_heap_heap)

lemma good_service_running [simp]: "good_service (ts\<lparr>t_running := b\<rparr>) = good_service ts"
  by (simp add: good_service_def)

lemma mset_push_timer [simp]: "mset (t_heap (push_timer e ts)) = add_mset e (mset (t_heap ts))"
  by (simp add: push_timer_def mset_push_heap)

lemma running_push_timer [simp]: "t_running (push_timer e ts) = t_running ts"
  by (simp add: push_timer_def)

lemma run_round_fires:
  assumes "run_round now ts = (Fire e, ts')"
  shows "te_deadline e \<le> now \<and> mset (t_heap ts) = add_mset e (mset (t_heap ts'))
    \<and> t_running ts' = t_running ts \<and> (good_service ts \<longrightarrow> good_service ts')"
  using assms mset_pop_heap [of "t_heap ts" te_deadline] pop_heap_heap [of te_deadline "t_heap ts"]
  by (auto simp: run_round_def good_service_def pop_heap_def split: if_splits prod.splits)

lemma run_round_waits:
  assumes "run_round now ts = (a, ts')" "\<nexists>e. a = Fire e"
  shows "ts' = ts \<and> a = (if \<not> t_running ts then Stop else if t_heap ts = [] then Wait_timer
      else Wait_until (te_deadline (hd (t_heap ts))))"
  using assms by (auto simp: run_round_def split: if_splits prod.splits)

section \<open>Firing what is due\<close>

text \<open>The rounds of \<open>run\<close> at one reading of the clock: the timers fired, and what is left.\<close>

fun run_rounds :: "nat \<Rightarrow> int \<Rightarrow> timer_service \<Rightarrow> timer_entry list \<times> timer_service" where
  "run_rounds 0 now ts = ([], ts)"
| "run_rounds (Suc n) now ts =
     (case run_round now ts of
        (Fire e, ts') \<Rightarrow> (case run_rounds n now ts' of (es, ts'') \<Rightarrow> (e # es, ts''))
      | (_, ts') \<Rightarrow> ([], ts'))"

lemma run_rounds_pop_while:
  "t_running ts \<Longrightarrow> run_rounds n now ts =
     (case pop_while (pop_heap te_deadline) (\<lambda>e. te_deadline e \<le> now) n (t_heap ts) of
        (es, rest) \<Rightarrow> (es, ts\<lparr>t_heap := rest\<rparr>))"
proof (induction n arbitrary: ts)
  case (Suc n)
  show ?case
  proof (cases "t_heap ts \<noteq> [] \<and> te_deadline (hd (t_heap ts)) \<le> now")
    case True
    obtain e rest where "pop_heap te_deadline (t_heap ts) = (e, rest)" by fastforce
    with True Suc show ?thesis by (simp add: run_round_def split: prod.splits)
  next
    case False
    then show ?thesis using Suc.prems by (auto simp: run_round_def)
  qed
qed simp

section \<open>The timer thread, the callers and the shutdown\<close>

text \<open>
  The timer thread holds the mutex in \<open>R_Loop\<close> and, between evaluating its condition and
  blocking, in \<open>R_Block\<close> (\<open>None\<close> for the wait without a deadline).  Blocked, it has
  released the mutex; notified or timed out it has still to take it again.
\<close>

datatype runner = R_Loop | R_Block "int option" | R_Blocked "int option" | R_Woken | R_Exit

datatype shutdown_pc = Sh_none | Sh_stored | Sh_notified | Sh_done

record timer_sys =
  t_svc :: timer_service
  t_mem :: async_mem
  t_runner :: runner
  t_unnotified :: nat
  t_shutdown :: shutdown_pc
  t_added :: "timer_entry list"
  t_fired :: "(timer_entry \<times> int option) list"

fun holds_lock :: "runner \<Rightarrow> bool" where
  "holds_lock R_Loop \<longleftrightarrow> True"
| "holds_lock (R_Block d) \<longleftrightarrow> True"
| "holds_lock _ \<longleftrightarrow> False"

fun wake_runner :: "runner \<Rightarrow> runner" where
  "wake_runner (R_Blocked d) = R_Woken"
| "wake_runner r = r"

fun after_round :: "run_action \<Rightarrow> runner" where
  "after_round Stop = R_Exit"
| "after_round Wait_timer = R_Block None"
| "after_round (Wait_until d) = R_Block (Some d)"
| "after_round (Fire e) = R_Loop"

inductive timer_step :: "timer_sys \<Rightarrow> timer_sys \<Rightarrow> bool" where
  add: "\<not> holds_lock (t_runner s) \<Longrightarrow>
    timer_step s (s\<lparr>t_svc := push_timer e (t_svc s), t_unnotified := t_unnotified s + 1,
      t_added := e # t_added s\<rparr>)"
| notify: "0 < t_unnotified s \<Longrightarrow>
    timer_step s (s\<lparr>t_unnotified := t_unnotified s - 1, t_runner := wake_runner (t_runner s)\<rparr>)"
| round: "t_runner s = R_Loop \<Longrightarrow> run_round now (t_svc s) = (a, ts) \<Longrightarrow> \<nexists>e. a = Fire e \<Longrightarrow>
    timer_step s (s\<lparr>t_svc := ts, t_runner := after_round a\<rparr>)"
| fire: "t_runner s = R_Loop \<Longrightarrow> run_round now (t_svc s) = (Fire e, ts) \<Longrightarrow>
    timer_step s (s\<lparr>t_svc := ts, t_mem := fire_entry e (t_mem s), t_fired := (e, Some now) # t_fired s\<rparr>)"
| block: "t_runner s = R_Block d \<Longrightarrow> timer_step s (s\<lparr>t_runner := R_Blocked d\<rparr>)"
| wake: "t_runner s = R_Blocked d \<Longrightarrow> timer_step s (s\<lparr>t_runner := R_Woken\<rparr>)"
| relock: "t_runner s = R_Woken \<Longrightarrow> timer_step s (s\<lparr>t_runner := R_Loop\<rparr>)"
| store: "t_shutdown s = Sh_none \<Longrightarrow>
    timer_step s (s\<lparr>t_svc := (t_svc s)\<lparr>t_running := False\<rparr>, t_shutdown := Sh_stored\<rparr>)"
| notify_shutdown: "t_shutdown s = Sh_stored \<Longrightarrow>
    timer_step s (s\<lparr>t_shutdown := Sh_notified, t_runner := wake_runner (t_runner s)\<rparr>)"
| join: "t_shutdown s = Sh_notified \<Longrightarrow> t_runner s = R_Exit \<Longrightarrow> fire_remaining (t_svc s) (t_mem s) = (ts, w) \<Longrightarrow>
    timer_step s (s\<lparr>t_svc := ts, t_mem := w, t_shutdown := Sh_done,
      t_fired := map (\<lambda>e. (e, None)) (rev (t_heap (t_svc s))) @ t_fired s\<rparr>)"

text \<open>\<open>wake\<close> is a timeout (with a deadline) or a spurious wake-up.\<close>

definition timer_init :: "async_mem \<Rightarrow> timer_sys" where
  "timer_init w = \<lparr>t_svc = new_timer_service, t_mem = w, t_runner = R_Woken, t_unnotified = 0,
     t_shutdown = Sh_none, t_added = [], t_fired = []\<rparr>"

inductive timer_reach :: "async_mem \<Rightarrow> timer_sys \<Rightarrow> bool" for w0 where
  start: "timer_reach w0 (timer_init w0)"
| step: "timer_reach w0 s \<Longrightarrow> timer_step s t \<Longrightarrow> timer_reach w0 t"

section \<open>Invariants\<close>

definition timer_books :: "async_mem \<Rightarrow> timer_sys \<Rightarrow> bool" where
  "timer_books w0 s \<longleftrightarrow> good_service (t_svc s)
     \<and> mset (t_added s) = mset (map fst (t_fired s)) + mset (t_heap (t_svc s))
     \<and> (\<forall>e now. (e, Some now) \<in> set (t_fired s) \<longrightarrow> te_deadline e \<le> now)
     \<and> t_mem s = fold fire_entry (map fst (rev (t_fired s))) w0"

lemma timer_books_step:
  assumes "timer_step s t" "timer_books w0 s"
  shows "timer_books w0 t"
  using assms
proof (induction rule: timer_step.induct)
  case (round s now a ts)
  then show ?case using run_round_waits [OF round(2,3)] by (simp add: timer_books_def)
next
  case (fire s now e ts)
  then show ?case using run_round_fires [OF fire(2)] by (auto simp: timer_books_def)
next
  case (join s ts w)
  then have "ts = (t_svc s)\<lparr>t_heap := []\<rparr>" "w = fold fire_entry (t_heap (t_svc s)) (t_mem s)"
    by (auto simp: fire_remaining_def)
  with join(4) show ?case
    by (auto simp: timer_books_def good_service_def is_heap_def rev_map comp_def)
qed (auto simp: timer_books_def)

lemma timer_books_reach: "timer_reach w0 s \<Longrightarrow> timer_books w0 s"
proof (induction rule: timer_reach.induct)
  case start
  then show ?case
    by (simp add: timer_books_def timer_init_def new_timer_service_def good_service_def is_heap_def)
next
  case (step s t)
  then show ?case using timer_books_step by blast
qed

text \<open>What the thread knows when it blocks.\<close>

fun slept_on :: "runner \<Rightarrow> timer_service \<Rightarrow> bool" where
  "slept_on (R_Block d) ts \<longleftrightarrow> (case d of None \<Rightarrow> t_heap ts = []
     | Some t \<Rightarrow> \<forall>e \<in> set (t_heap ts). t \<le> te_deadline e)"
| "slept_on (R_Blocked d) ts \<longleftrightarrow> (case d of None \<Rightarrow> t_heap ts = []
     | Some t \<Rightarrow> \<forall>e \<in> set (t_heap ts). t \<le> te_deadline e)"
| "slept_on _ ts \<longleftrightarrow> True"

definition timer_awake :: "timer_sys \<Rightarrow> bool" where
  "timer_awake s \<longleftrightarrow> (t_unnotified s = 0 \<or> holds_lock (t_runner s) \<longrightarrow> slept_on (t_runner s) (t_svc s))
     \<and> good_service (t_svc s)"

lemma slept_on_woken [simp]: "slept_on (wake_runner r) ts \<longleftrightarrow> slept_on r ts \<or> (\<exists>d. r = R_Blocked d)"
  by (cases r) auto

lemma timer_awake_step:
  assumes "timer_step s t" "timer_awake s"
  shows "timer_awake t"
  using assms
proof (induction rule: timer_step.induct)
  case (add s e)
  then show ?case by (cases "t_runner s") (auto simp: timer_awake_def)
next
  case (notify s)
  then show ?case by (cases "t_runner s") (auto simp: timer_awake_def)
next
  case (round s now a ts)
  have least: "\<forall>e \<in> set (t_heap (t_svc s)). te_deadline (hd (t_heap (t_svc s))) \<le> te_deadline e"
    using round(4) heap.front_least [of te_deadline "t_heap (t_svc s)"]
    by (auto simp: timer_awake_def good_service_def)
  show ?case using run_round_waits [OF round(2,3)] round(4) least
    by (auto simp: timer_awake_def split: if_splits)
next
  case (fire s now e ts)
  then show ?case using run_round_fires [OF fire(2)] by (auto simp: timer_awake_def)
next
  case (block s d)
  then show ?case by (auto simp: timer_awake_def)
next
  case (store s)
  then show ?case by (cases "t_runner s") (auto simp: timer_awake_def good_service_def split: option.splits)
next
  case (notify_shutdown s)
  then show ?case by (cases "t_runner s") (auto simp: timer_awake_def)
next
  case (join s ts w)
  then show ?case by (auto simp: timer_awake_def fire_remaining_def good_service_def is_heap_def)
qed (auto simp: timer_awake_def)

lemma timer_awake_reach: "timer_reach w0 s \<Longrightarrow> timer_awake s"
proof (induction rule: timer_reach.induct)
  case start
  then show ?case
    by (simp add: timer_awake_def timer_init_def new_timer_service_def good_service_def is_heap_def)
next
  case (step s t)
  then show ?case using timer_awake_step by blast
qed

text \<open>
  The timers that the sleep of the thread does not cover: those before its deadline, or all if
  it waits without one.  Each of them has been added since and has its notification to come.
\<close>

fun uncovered :: "int option \<Rightarrow> timer_entry \<Rightarrow> bool" where
  "uncovered None e \<longleftrightarrow> True"
| "uncovered (Some t) e \<longleftrightarrow> te_deadline e < t"

definition uncovered_owed :: "timer_sys \<Rightarrow> bool" where
  "uncovered_owed s \<longleftrightarrow> (\<forall>d. t_runner s = R_Blocked d \<longrightarrow>
     size (filter_mset (uncovered d) (mset (t_heap (t_svc s)))) \<le> t_unnotified s)"

lemma slept_on_uncovered:
  "slept_on (R_Block d) ts \<Longrightarrow> filter_mset (uncovered d) (mset (t_heap ts)) = {#}"
  by (cases d) (auto simp: filter_mset_eq_mempty_iff)

lemma uncovered_owed_step:
  assumes "timer_step s t" "timer_awake s" "uncovered_owed s"
  shows "uncovered_owed t"
  using assms
proof (induction rule: timer_step.induct)
  case (block s d)
  then have "slept_on (R_Block d) (t_svc s)" by (simp add: timer_awake_def)
  from slept_on_uncovered [OF this] have "size (filter_mset (uncovered d) (mset (t_heap (t_svc s)))) = 0"
    by (simp only: size_empty)
  then show ?case by (auto simp: uncovered_owed_def simp del: size_eq_0_iff_empty)
next
  case (notify s)
  then show ?case by (cases "t_runner s") (auto simp: uncovered_owed_def)
next
  case (round s now a ts)
  then show ?case by (cases a) (auto simp: uncovered_owed_def)
next
  case (notify_shutdown s)
  then show ?case by (cases "t_runner s") (auto simp: uncovered_owed_def)
qed (auto simp: uncovered_owed_def)

lemma uncovered_owed_reach: "timer_reach w0 s \<Longrightarrow> uncovered_owed s"
proof (induction rule: timer_reach.induct)
  case (step s t)
  then show ?case using uncovered_owed_step timer_awake_reach by blast
qed (simp add: uncovered_owed_def timer_init_def)

section \<open>A shutdown that is not noticed\<close>

text \<open>A service without timers, in the given stages of its thread and its shutdown.\<close>

definition idle :: "async_mem \<Rightarrow> bool \<Rightarrow> shutdown_pc \<Rightarrow> runner \<Rightarrow> timer_sys" where
  "idle w running sh r = \<lparr>t_svc = \<lparr>t_heap = [], t_running = running\<rparr>, t_mem = w, t_runner = r,
     t_unnotified = 0, t_shutdown = sh, t_added = [], t_fired = []\<rparr>"

lemma idle_simps [simp]:
  "t_svc (idle w b sh r) = \<lparr>t_heap = [], t_running = b\<rparr>" "t_runner (idle w b sh r) = r"
  "t_shutdown (idle w b sh r) = sh" "t_unnotified (idle w b sh r) = 0"
  by (simp_all add: idle_def)

lemma blocked_reach: "timer_reach w (idle w True Sh_none (R_Blocked None))"
proof -
  have "timer_reach w (idle w True Sh_none R_Woken)"
    using timer_reach.start [of w] by (simp add: timer_init_def idle_def new_timer_service_def)
  moreover have "timer_step (idle w True Sh_none R_Woken) (idle w True Sh_none R_Loop)"
    using timer_step.relock [of "idle w True Sh_none R_Woken"] by (simp add: idle_def)
  moreover have "timer_step (idle w True Sh_none R_Loop) (idle w True Sh_none (R_Block None))"
    using timer_step.round [of "idle w True Sh_none R_Loop" 0 Wait_timer] by (simp add: idle_def run_round_def)
  moreover have "timer_step (idle w True Sh_none (R_Block None)) (idle w True Sh_none (R_Blocked None))"
    using timer_step.block [of "idle w True Sh_none (R_Block None)"] by (simp add: idle_def)
  ultimately show ?thesis by (meson timer_reach.step)
qed

lemma hung_reach: "timer_reach w (idle w False Sh_notified (R_Blocked None))"
proof -
  have "timer_reach w (idle w True Sh_none R_Woken)"
    using timer_reach.start [of w] by (simp add: timer_init_def idle_def new_timer_service_def)
  moreover have "timer_step (idle w True Sh_none R_Woken) (idle w True Sh_none R_Loop)"
    using timer_step.relock [of "idle w True Sh_none R_Woken"] by (simp add: idle_def)
  moreover have "timer_step (idle w True Sh_none R_Loop) (idle w True Sh_none (R_Block None))"
    using timer_step.round [of "idle w True Sh_none R_Loop" 0 Wait_timer] by (simp add: idle_def run_round_def)
  moreover have "timer_step (idle w True Sh_none (R_Block None)) (idle w False Sh_stored (R_Block None))"
    using timer_step.store [of "idle w True Sh_none (R_Block None)"] by (simp add: idle_def)
  moreover have "timer_step (idle w False Sh_stored (R_Block None)) (idle w False Sh_notified (R_Block None))"
    using timer_step.notify_shutdown [of "idle w False Sh_stored (R_Block None)"] by (simp add: idle_def)
  moreover have "timer_step (idle w False Sh_notified (R_Block None)) (idle w False Sh_notified (R_Blocked None))"
    using timer_step.block [of "idle w False Sh_notified (R_Block None)"] by (simp add: idle_def)
  ultimately show ?thesis by (meson timer_reach.step)
qed

section \<open>Properties\<close>

text \<open>
  C34. The service is well formed in every state: its entries are a heap by their deadlines from
  the start, and both ways to add a timer, every round of the thread and the shutdown keep
  that; the rounds give back exactly the entries they take away.
\<close>

theorem timer_service_well_formed:
  "good_service new_timer_service
   \<and> (good_service ts \<longrightarrow> good_service (add_timer_raw d h c f ts) \<and> good_service (add_timer_shared d c sw ts)
        \<and> good_service (snd (run_round now ts)) \<and> good_service (snd (run_rounds n now ts))
        \<and> good_service (fst (fire_remaining ts w)))
   \<and> mset (fst (run_rounds n now ts)) + mset (t_heap (snd (run_rounds n now ts))) = mset (t_heap ts)"
proof -
  have round: "good_service (snd (run_round now ts))" if "good_service ts" for ts
    using that run_round_fires [of now ts] run_round_waits [of now ts]
    by (cases "run_round now ts"; cases "fst (run_round now ts)") fastforce+
  have "(good_service ts \<longrightarrow> good_service (snd (run_rounds n now ts)))
      \<and> mset (fst (run_rounds n now ts)) + mset (t_heap (snd (run_rounds n now ts))) = mset (t_heap ts)"
  proof (induction n arbitrary: ts)
    case (Suc n)
    obtain a ts' where r: "run_round now ts = (a, ts')" by fastforce
    show ?case
    proof (cases a)
      case (Fire e)
      with r have "run_round now ts = (Fire e, ts')" by simp
      from run_round_fires [OF this] Suc.IH [of ts'] r Fire show ?thesis by (auto split: prod.splits)
    qed (use r run_round_waits [OF r] in auto)
  qed simp
  with round show ?thesis
    by (simp add: add_timer_raw_def add_timer_shared_def fire_remaining_def good_service_def is_heap_def
        new_timer_service_def push_timer_good [unfolded good_service_def is_heap_def])
qed


text \<open>
  Due timers fire in the order of their deadlines: at one reading of the clock the loop
  of \<open>run\<close> ends after at most as many rounds as there are timers, having fired exactly the
  timers that are due, earliest deadline first, and keeps the others in a heap.
\<close>

theorem due_timers_fire_in_order:
  assumes "good_service ts" "t_running ts" "length (t_heap ts) \<le> n"
  shows "\<exists>es ts'. run_rounds n now ts = (es, ts') \<and> sorted (map te_deadline es)
    \<and> mset (t_heap ts) = mset es + mset (t_heap ts')
    \<and> (\<forall>e \<in> set es. te_deadline e \<le> now) \<and> (\<forall>e \<in> set (t_heap ts'). now < te_deadline e)
    \<and> good_service ts'"
proof -
  obtain es rest where pop: "pop_while (pop_heap te_deadline) (\<lambda>e. te_deadline e \<le> now) n (t_heap ts)
      = (es, rest)" by fastforce
  have "is_heap te_deadline (t_heap ts)" using assms(1) by (simp add: good_service_def)
  from heap.pop_while_due [OF this assms(3) pop] show ?thesis
    using run_rounds_pop_while [OF assms(2), of n now] pop by (simp add: good_service_def)
qed

text \<open>
  C8. Every timer fires once: in every interleaving of the timer thread with any callers
  and a shutdown, the timers added are, as a multiset, the timers fired together with the
  timers in the heap; none fires before its deadline except by the shutdown; firing is
  passing its gate; and when the shutdown has returned none is left.
\<close>

theorem timers_fire_once:
  assumes "timer_reach w0 s"
  shows "mset (t_added s) = mset (map fst (t_fired s)) + mset (t_heap (t_svc s))
    \<and> (\<forall>e now. (e, Some now) \<in> set (t_fired s) \<longrightarrow> te_deadline e \<le> now)
    \<and> t_mem s = fold fire_entry (map fst (rev (t_fired s))) w0"
  using timer_books_reach [OF assms] by (simp add: timer_books_def)

text \<open>
  C36. The timer thread never oversleeps.  While it is blocked, there are at most as many timers
  before the deadline it sleeps for (or timers at all, if it sleeps without one) as calls of
  \<open>add_timer\<close> that have released the mutex and not yet notified, and the notification of any
  of these wakes it; so when all calls have notified it sleeps without a deadline only if
  there is no timer, and otherwise until the earliest deadline at the latest.
\<close>

theorem timer_thread_never_oversleeps:
  assumes "timer_reach w0 s" "t_runner s = R_Blocked d"
  shows "size (filter_mset (uncovered d) (mset (t_heap (t_svc s)))) \<le> t_unnotified s
    \<and> (0 < t_unnotified s \<longrightarrow>
        timer_step s (s\<lparr>t_unnotified := t_unnotified s - 1, t_runner := R_Woken\<rparr>))
    \<and> (t_unnotified s = 0 \<longrightarrow> (case d of None \<Rightarrow> t_heap (t_svc s) = []
        | Some t \<Rightarrow> \<forall>e \<in> set (t_heap (t_svc s)). t \<le> te_deadline e))"
  using timer_awake_reach [OF assms(1)] uncovered_owed_reach [OF assms(1)] assms(2) timer_step.notify [of s]
  by (simp add: timer_awake_def uncovered_owed_def)

text \<open>
  \<open>shutdown\<close> can hang: it changes \<open>running_\<close> and notifies without the mutex, so both can
  fall between the thread's evaluation of its condition and its blocking.  Then the thread
  sleeps without a deadline, no notification is to come, and the join waits for it.
\<close>

theorem timer_shutdown_can_hang:
  "\<exists>s. timer_reach w0 s \<and> \<not> t_running (t_svc s) \<and> t_shutdown s = Sh_notified
     \<and> t_runner s = R_Blocked None \<and> t_unnotified s = 0 \<and> t_heap (t_svc s) = []"
  using hung_reach [of w0] by (intro exI [of _ "idle w0 False Sh_notified (R_Blocked None)"]) simp

section \<open>Witnesses\<close>

definition timer_at :: "int \<Rightarrow> timer_entry" where
  "timer_at d = \<lparr>te_deadline = d, te_handle = 5, te_cancel_state = 0, te_fired = 9, te_waiter = None\<rparr>"

definition three_timers :: timer_service where
  "three_timers = push_timer (timer_at 2) (push_timer (timer_at 8) (push_timer (timer_at 5) new_timer_service))"

lemma three_timers:
  "good_service three_timers" "t_running three_timers" "length (t_heap three_timers) = 3"
proof -
  have "good_service new_timer_service" by (simp add: good_service_def is_heap_def new_timer_service_def)
  then show "good_service three_timers" by (simp add: three_timers_def)
  show "t_running three_timers" by (simp add: three_timers_def new_timer_service_def)
  have "size (mset (t_heap three_timers)) = 3" by (simp add: three_timers_def new_timer_service_def)
  then show "length (t_heap three_timers) = 3" by simp
qed

theorem due_timers_fire_in_order_witness:
  "\<exists>es ts'. run_rounds 3 6 three_timers = (es, ts') \<and> sorted (map te_deadline es)
     \<and> mset es + mset (t_heap ts') = {#timer_at 2, timer_at 5, timer_at 8#}"
proof -
  have "mset (t_heap three_timers) = {#timer_at 2, timer_at 5, timer_at 8#}"
    by (simp add: three_timers_def new_timer_service_def)
  then show ?thesis
    using due_timers_fire_in_order [OF three_timers(1,2), of 3 6] three_timers(3) by force
qed

text \<open>A timer is added and fired at its deadline.\<close>

definition fired_one :: timer_sys where
  "fired_one = \<lparr>t_svc = new_timer_service, t_mem = fire_entry (timer_at 2) sample_mem, t_runner = R_Loop,
     t_unnotified = 1, t_shutdown = Sh_none, t_added = [timer_at 2], t_fired = [(timer_at 2, Some 2)]\<rparr>"

lemma one_timer: "t_heap (push_timer (timer_at 2) new_timer_service) = [timer_at 2]"
  by (simp add: push_timer_def new_timer_service_def push_heap_def)

lemma fired_one_reach: "timer_reach sample_mem fired_one"
proof -
  let ?s0 = "timer_init sample_mem"
  let ?s1 = "?s0\<lparr>t_svc := push_timer (timer_at 2) new_timer_service, t_unnotified := 1, t_added := [timer_at 2]\<rparr>"
  have "timer_step ?s0 ?s1"
    using timer_step.add [of ?s0 "timer_at 2"] by (simp add: timer_init_def)
  then have "timer_reach sample_mem ?s1" by (rule timer_reach.step [OF timer_reach.start])
  moreover have "timer_step ?s1 (?s1\<lparr>t_runner := R_Loop\<rparr>)"
    by (rule timer_step.relock) (simp add: timer_init_def)
  ultimately have "timer_reach sample_mem (?s1\<lparr>t_runner := R_Loop\<rparr>)" by (rule timer_reach.step)
  moreover have "run_round 2 (t_svc ?s1) = (Fire (timer_at 2), new_timer_service)"
    using one_timer by (simp add: run_round_def pop_heap_def swap_def sift_down.simps least_child_def
        new_timer_service_def timer_at_def push_timer_def)
  then have "timer_step (?s1\<lparr>t_runner := R_Loop\<rparr>) fired_one"
    using timer_step.fire [of "?s1\<lparr>t_runner := R_Loop\<rparr>" 2 "timer_at 2" new_timer_service]
    by (simp add: timer_init_def fired_one_def)
  ultimately show ?thesis by (rule timer_reach.step)
qed

theorem timers_fire_once_witness:
  "te_deadline (timer_at 2) \<le> 2 \<and> sched (t_mem fired_one) = [5]"
  using timers_fire_once [OF fired_one_reach]
  by (auto simp: fired_one_def fire_entry_def view_of_def timer_at_def sample_mem_def)

text \<open>
  A timer is added while the thread sleeps without a deadline: before its notification the
  thread is still blocked, and the theorem says that a notification is to come.
\<close>

theorem timer_thread_never_oversleeps_witness:
  "\<exists>s. timer_reach sample_mem s \<and> t_runner s = R_Blocked None \<and> t_heap (t_svc s) = [timer_at 2]
     \<and> 1 \<le> t_unnotified s \<and> (\<exists>s'. timer_step s s' \<and> t_runner s' = R_Woken)"
proof -
  let ?s = "idle sample_mem True Sh_none (R_Blocked None)"
  let ?t = "?s\<lparr>t_svc := push_timer (timer_at 2) (t_svc ?s), t_unnotified := t_unnotified ?s + 1, t_added := timer_at 2 # t_added ?s\<rparr>"
  have "timer_step ?s ?t" by (rule timer_step.add) simp
  with blocked_reach have r: "timer_reach sample_mem ?t" by (rule timer_reach.step)
  have h: "t_heap (t_svc ?t) = [timer_at 2]" "t_runner ?t = R_Blocked None"
    using one_timer by (simp_all add: new_timer_service_def)
  note never = timer_thread_never_oversleeps [OF r h(2)]
  have "uncovered None (timer_at 2)" by simp
  then have "1 \<le> t_unnotified ?t" using never h(1) by simp
  moreover from this never have "timer_step ?t (?t\<lparr>t_unnotified := t_unnotified ?t - 1, t_runner := R_Woken\<rparr>)" by simp
  then have "\<exists>s'. timer_step ?t s' \<and> t_runner s' = R_Woken"
    by (intro exI [of _ "?t\<lparr>t_unnotified := t_unnotified ?t - 1, t_runner := R_Woken\<rparr>"] conjI) simp_all
  ultimately show ?thesis using r h by blast
qed

theorem timer_service_well_formed_witness:
  "good_service (add_timer_raw 5 32 0 64 new_timer_service)"
  using timer_service_well_formed [of new_timer_service 5 32 0 64] by blast

end
