(* ===== verification/CancelState.thy ===== *)
theory CancelState
  imports WaiterList
begin

text \<open>
  Cancellation (\<open>include/cancellation.hpp\<close>): the state shared by a source and its tokens,
  the callbacks registered with it and the coroutines that await it.  The sequential
  definitions give what an undisturbed call does; the step function splits each call at its
  accesses to \<open>cancelled_\<close>, to the mutex and to the waiter list, for any number of
  concurrent calls.
\<close>

section \<open>State\<close>

text \<open>
  A callback is a value of a type of its own; calling it is recorded in \<open>invoked\<close>.  The
  waiter list has its head here and its nodes in the store.  \<open>locked\<close> is the mutex.
  \<open>removed\<close> records what \<open>unregister_callback\<close> erased; no operation reads it.
\<close>

record 'c cancellation_state =
  cancelled :: bool
  locked :: bool
  callbacks :: "'c list"
  callback_ids :: "u64 list"
  next_id :: u64
  cancel_waiters :: uintptr
  cancel_mem :: async_mem
  invoked :: "'c list"
  removed :: "(u64 \<times> 'c) list"

definition new_cancellation_state :: "async_mem \<Rightarrow> 'c cancellation_state" where
  "new_cancellation_state w =
     \<lparr>cancelled = False, locked = False, callbacks = [], callback_ids = [], next_id = 1,
      cancel_waiters = 0, cancel_mem = w, invoked = [], removed = []\<rparr>"

definition is_cancelled :: "'c cancellation_state \<Rightarrow> bool" where
  "is_cancelled s = cancelled s"

section \<open>The critical sections\<close>

definition swap_callbacks :: "'c cancellation_state \<Rightarrow> 'c list \<times> 'c cancellation_state" where
  "swap_callbacks s = (callbacks s, s\<lparr>callbacks := [], callback_ids := []\<rparr>)"

definition invoke :: "'c \<Rightarrow> 'c cancellation_state \<Rightarrow> 'c cancellation_state" where
  "invoke cb s = s\<lparr>invoked := invoked s @ [cb]\<rparr>"

definition push_callback :: "'c \<Rightarrow> 'c cancellation_state \<Rightarrow> u64 \<times> 'c cancellation_state" where
  "push_callback cb s =
     (next_id s, s\<lparr>next_id := next_id s + 1, callbacks := callbacks s @ [cb],
        callback_ids := callback_ids s @ [next_id s]\<rparr>)"

text \<open>The loop of \<open>unregister_callback\<close>, from index \<open>i\<close>: both vectors lose position \<open>i\<close>.\<close>

definition erase_at :: "nat \<Rightarrow> 'a list \<Rightarrow> 'a list" where
  "erase_at i xs = take i xs @ drop (Suc i) xs"

function erase_from :: "nat \<Rightarrow> u64 \<Rightarrow> 'c cancellation_state \<Rightarrow> 'c cancellation_state" where
  "erase_from i cid s =
     (if i < length (callback_ids s) then
        if callback_ids s ! i = cid
        then s\<lparr>callbacks := erase_at i (callbacks s), callback_ids := erase_at i (callback_ids s),
               removed := (cid, callbacks s ! i) # removed s\<rparr>
        else erase_from (Suc i) cid s
      else s)"
  by pat_completeness auto

termination by (relation "measure (\<lambda>(i, cid, s). length (callback_ids s) - i)") auto

declare erase_from.simps [simp del]

definition set_cancel_waiters :: "uintptr \<times> async_mem \<Rightarrow> 'c cancellation_state \<Rightarrow> 'c cancellation_state" where
  "set_cancel_waiters hw s = s\<lparr>cancel_waiters := fst hw, cancel_mem := snd hw\<rparr>"

section \<open>Undisturbed calls\<close>

definition cancel :: "'c cancellation_state \<Rightarrow> 'c cancellation_state option" where
  "cancel s =
     (if cancelled s then Some s
      else case swap_callbacks (s\<lparr>cancelled := True\<rparr>) of (cbs, s') \<Rightarrow>
        let s'' = fold invoke cbs s' in
        map_option (\<lambda>hw. set_cancel_waiters hw s'') (wake_all (cancel_waiters s'') (cancel_mem s'')))"

definition register_callback :: "'c \<Rightarrow> 'c cancellation_state \<Rightarrow> u64 \<times> 'c cancellation_state" where
  "register_callback cb s = (if cancelled s then (0, invoke cb s) else push_callback cb s)"

definition unregister_callback :: "u64 \<Rightarrow> 'c cancellation_state \<Rightarrow> 'c cancellation_state" where
  "unregister_callback cid s = (if cid = 0 \<or> cancelled s then s else erase_from 0 cid s)"

text \<open>The awaiter: its node is at \<open>p\<close>, its coroutine is \<open>h\<close>.\<close>

definition cancel_ready :: "'c cancellation_state \<Rightarrow> bool" where
  "cancel_ready s = is_cancelled s"

definition cancel_add :: "uintptr \<Rightarrow> coro \<Rightarrow> 'c cancellation_state \<Rightarrow> 'c cancellation_state" where
  "cancel_add p h s =
     set_cancel_waiters (add_waiter p (cancel_waiters s)
       ((cancel_mem s)\<lparr>wnodes := (wnodes (cancel_mem s))(p := new_node h)\<rparr>)) s"

definition cancel_wake :: "'c cancellation_state \<Rightarrow> 'c cancellation_state option" where
  "cancel_wake s =
     map_option (\<lambda>hw. set_cancel_waiters hw s) (wake_all (cancel_waiters s) (cancel_mem s))"

definition cancel_suspend :: "uintptr \<Rightarrow> coro \<Rightarrow> 'c cancellation_state \<Rightarrow> 'c cancellation_state option" where
  "cancel_suspend p h s =
     (let s' = cancel_add p h s in if is_cancelled s' then cancel_wake s' else Some s')"

text \<open>\<open>resume_impl\<close> changes nothing: the result says whether the wake-up was genuine.\<close>

definition cancel_resume :: "'c cancellation_state \<Rightarrow> bool" where
  "cancel_resume s = is_cancelled s"

section \<open>Tokens\<close>

text \<open>
  A token holds no state or the address of one; the states are looked up in \<open>st\<close>.
  \<open>throw_if_cancelled\<close> returns the exception it throws.
\<close>

datatype cancel_error = Cancelled_exception

type_synonym token = "nat option"

definition token_of :: "nat \<Rightarrow> token" where "token_of src = Some src"

definition token_is_cancelled :: "(nat \<Rightarrow> 'c cancellation_state) \<Rightarrow> token \<Rightarrow> bool" where
  "token_is_cancelled st t = (case t of None \<Rightarrow> False | Some a \<Rightarrow> is_cancelled (st a))"

definition throw_if_cancelled ::
  "(nat \<Rightarrow> 'c cancellation_state) \<Rightarrow> token \<Rightarrow> cancel_error + unit" where
  "throw_if_cancelled st t = (if token_is_cancelled st t then Inl Cancelled_exception else Inr ())"

definition source_cancel ::
  "nat \<Rightarrow> (nat \<Rightarrow> 'c cancellation_state) \<Rightarrow> (nat \<Rightarrow> 'c cancellation_state) option" where
  "source_cancel src st = map_option (\<lambda>s. st(src := s)) (cancel (st src))"

section \<open>Concurrent calls\<close>

text \<open>
  Where a call stands.  The states named \<open>_in\<close> hold the mutex.  \<open>Cancel_run\<close> carries the
  callbacks still to be called, outside the mutex.  \<open>Reg_done\<close> carries the cid returned.
\<close>

datatype 'c cancel_pc =
    Cancel_call | Cancel_lock | Cancel_in | Cancel_run "'c list" | Cancel_wake | Cancel_done
  | Reg_call 'c | Reg_in 'c | Reg_fire_in 'c | Reg_push_in 'c | Reg_done u64 'c
  | Unreg_call u64 | Unreg_lock u64 | Unreg_in u64 | Unreg_erase_in u64 | Unreg_done u64
  | Await_call uintptr coro | Await_added uintptr coro | Await_wake uintptr coro | Await_done uintptr coro

text \<open>\<open>None\<close>: the call cannot step (it waits for the mutex, or it has returned).\<close>

fun cancel_step ::
  "'c cancel_pc \<Rightarrow> 'c cancellation_state \<Rightarrow> ('c cancel_pc \<times> 'c cancellation_state) option" where
  "cancel_step Cancel_call s =
     Some (if cancelled s then Cancel_done else Cancel_lock, s\<lparr>cancelled := True\<rparr>)"
| "cancel_step Cancel_lock s = (if locked s then None else Some (Cancel_in, s\<lparr>locked := True\<rparr>))"
| "cancel_step Cancel_in s =
     (case swap_callbacks s of (cbs, s') \<Rightarrow> Some (Cancel_run cbs, s'\<lparr>locked := False\<rparr>))"
| "cancel_step (Cancel_run []) s = Some (Cancel_wake, s)"
| "cancel_step (Cancel_run (cb # cbs)) s = Some (Cancel_run cbs, invoke cb s)"
| "cancel_step Cancel_wake s = map_option (Pair Cancel_done) (cancel_wake s)"
| "cancel_step Cancel_done s = None"
| "cancel_step (Reg_call cb) s = (if locked s then None else Some (Reg_in cb, s\<lparr>locked := True\<rparr>))"
| "cancel_step (Reg_in cb) s = Some (if cancelled s then Reg_fire_in cb else Reg_push_in cb, s)"
| "cancel_step (Reg_fire_in cb) s = Some (Reg_done 0 cb, (invoke cb s)\<lparr>locked := False\<rparr>)"
| "cancel_step (Reg_push_in cb) s =
     (case push_callback cb s of (cid, s') \<Rightarrow> Some (Reg_done cid cb, s'\<lparr>locked := False\<rparr>))"
| "cancel_step (Reg_done cid cb) s = None"
| "cancel_step (Unreg_call cid) s =
     Some (if cid = 0 \<or> cancelled s then Unreg_done cid else Unreg_lock cid, s)"
| "cancel_step (Unreg_lock cid) s =
     (if locked s then None else Some (Unreg_in cid, s\<lparr>locked := True\<rparr>))"
| "cancel_step (Unreg_in cid) s =
     Some (if cancelled s then (Unreg_done cid, s\<lparr>locked := False\<rparr>) else (Unreg_erase_in cid, s))"
| "cancel_step (Unreg_erase_in cid) s = Some (Unreg_done cid, (erase_from 0 cid s)\<lparr>locked := False\<rparr>)"
| "cancel_step (Unreg_done cid) s = None"
| "cancel_step (Await_call p h) s = Some (Await_added p h, cancel_add p h s)"
| "cancel_step (Await_added p h) s =
     Some (if is_cancelled s then Await_wake p h else Await_done p h, s)"
| "cancel_step (Await_wake p h) s = map_option (Pair (Await_done p h)) (cancel_wake s)"
| "cancel_step (Await_done p h) s = None"

text \<open>Any number of calls, interleaved; the threads are the positions of the list.\<close>

type_synonym 'c cancel_sys = "'c cancel_pc list \<times> 'c cancellation_state"

inductive cancel_sys_step :: "'c cancel_sys \<Rightarrow> 'c cancel_sys \<Rightarrow> bool" where
  "i < length ts \<Longrightarrow> cancel_step (ts ! i) s = Some (pc, s') \<Longrightarrow>
   cancel_sys_step (ts, s) (ts[i := pc], s')"

fun is_call :: "'c cancel_pc \<Rightarrow> bool" where
  "is_call Cancel_call \<longleftrightarrow> True"
| "is_call (Reg_call cb) \<longleftrightarrow> True"
| "is_call (Unreg_call cid) \<longleftrightarrow> True"
| "is_call (Await_call p h) \<longleftrightarrow> True"
| "is_call _ \<longleftrightarrow> False"

fun returned :: "'c cancel_pc \<Rightarrow> bool" where
  "returned Cancel_done \<longleftrightarrow> True"
| "returned (Reg_done cid cb) \<longleftrightarrow> True"
| "returned (Unreg_done cid) \<longleftrightarrow> True"
| "returned (Await_done p h) \<longleftrightarrow> True"
| "returned _ \<longleftrightarrow> False"

inductive cancel_reach :: "async_mem \<Rightarrow> 'c cancel_pc list \<Rightarrow> 'c cancel_sys \<Rightarrow> bool"
  for w0 cs where
  start: "cancel_reach w0 cs (cs, new_cancellation_state w0)"
| step: "cancel_reach w0 cs q \<Longrightarrow> cancel_sys_step q q' \<Longrightarrow> cancel_reach w0 cs q'"

inductive_cases cancel_sys_stepE: "cancel_sys_step (ts, s) q"

lemma cancel_reach_invariant:
  assumes "cancel_reach w0 cs q"
    and "I (cs, new_cancellation_state w0)"
    and "\<And>ts s i pc s'. I (ts, s) \<Longrightarrow> i < length ts \<Longrightarrow> cancel_step (ts ! i) s = Some (pc, s') \<Longrightarrow>
      I (ts[i := pc], s')"
  shows "I q"
  using assms(1)
proof induction
  case start
  show ?case by (rule assms(2))
next
  case (step q q')
  from step.hyps(2) obtain ts s i pc s' where
    "q = (ts, s)" "q' = (ts[i := pc], s')" "i < length ts" "cancel_step (ts ! i) s = Some (pc, s')"
    by cases blast
  with step.IH assms(3) show ?case by simp
qed

section \<open>Erasing a callback\<close>

lemma erase_at_mset: "i < length xs \<Longrightarrow> mset xs = add_mset (xs ! i) (mset (erase_at i xs))"
  by (subst id_take_nth_drop [of i xs]) (simp_all add: erase_at_def)

lemma length_erase_at: "i < length xs \<Longrightarrow> length (erase_at i xs) = length xs - 1"
  by (simp add: erase_at_def)

lemma zip_erase_at:
  "length xs = length ys \<Longrightarrow> zip (erase_at i xs) (erase_at i ys) = erase_at i (zip xs ys)"
  by (simp add: erase_at_def take_zip drop_zip)

lemma set_erase_at: "set (erase_at i xs) \<subseteq> set xs"
  by (auto simp: erase_at_def dest: in_set_takeD in_set_dropD)

lemma distinct_erase_at: "distinct xs \<Longrightarrow> distinct (erase_at i xs)"
  using distinct_append [of "take i xs" "drop (Suc i) xs"] append_take_drop_id [of i xs]
  by (auto simp: erase_at_def distinct_take distinct_drop set_take_disj_set_drop_if_distinct)

text \<open>The loop erases the first position that holds the id, or changes nothing.\<close>

lemma erase_from_cases:
  obtains "cid \<notin> set (drop i (callback_ids s))" "erase_from i cid s = s"
  | k where "i \<le> k" "k < length (callback_ids s)" "callback_ids s ! k = cid"
    "erase_from i cid s = s\<lparr>callbacks := erase_at k (callbacks s),
       callback_ids := erase_at k (callback_ids s), removed := (cid, callbacks s ! k) # removed s\<rparr>"
proof (induction i cid s arbitrary: thesis rule: erase_from.induct)
  case (1 i cid s)
  show ?case
  proof (cases "i < length (callback_ids s)")
    case False
    then show ?thesis using 1(2) by (simp add: erase_from.simps)
  next
    case len: True
    show ?thesis
    proof (cases "callback_ids s ! i = cid")
      case True
      then show ?thesis using len 1(3) [of i] by (simp add: erase_from.simps)
    next
      case False
      then have eq: "erase_from i cid s = erase_from (Suc i) cid s"
        using len by (simp add: erase_from.simps)
      show ?thesis
      proof (rule 1(1) [OF len False])
        assume "cid \<notin> set (drop (Suc i) (callback_ids s))" "erase_from (Suc i) cid s = s"
        then show thesis using 1(2) eq len False by (simp add: Cons_nth_drop_Suc [symmetric])
      next
        fix k assume "Suc i \<le> k" "k < length (callback_ids s)" "callback_ids s ! k = cid"
          "erase_from (Suc i) cid s = s\<lparr>callbacks := erase_at k (callbacks s),
             callback_ids := erase_at k (callback_ids s), removed := (cid, callbacks s ! k) # removed s\<rparr>"
        then show thesis using 1(3) [of k] eq by simp
      qed
    qed
  qed
qed

section \<open>Where every callback is\<close>

fun held :: "'c cancel_pc \<Rightarrow> 'c multiset" where
  "held (Cancel_run cbs) = mset cbs"
| "held (Reg_call cb) = {#cb#}"
| "held (Reg_in cb) = {#cb#}"
| "held (Reg_fire_in cb) = {#cb#}"
| "held (Reg_push_in cb) = {#cb#}"
| "held _ = {#}"

definition settled :: "'c cancellation_state \<Rightarrow> 'c multiset" where
  "settled s = mset (invoked s) + mset (callbacks s) + mset (map snd (removed s))"

definition parallel :: "'c cancellation_state \<Rightarrow> bool" where
  "parallel s \<longleftrightarrow> length (callbacks s) = length (callback_ids s)"

lemma erase_settled:
  assumes "parallel s"
  shows "settled (erase_from 0 cid s) = settled s \<and> parallel (erase_from 0 cid s)"
proof (rule erase_from_cases [of cid 0 s])
  fix k assume k: "k < length (callback_ids s)"
    and eq: "erase_from 0 cid s = s\<lparr>callbacks := erase_at k (callbacks s),
       callback_ids := erase_at k (callback_ids s), removed := (cid, callbacks s ! k) # removed s\<rparr>"
  from k assms have "k < length (callbacks s)" by (simp add: parallel_def)
  from erase_at_mset [OF this] k this assms show ?thesis
    by (simp add: eq settled_def parallel_def length_erase_at)
qed (use assms in simp)

lemma settled_simps [simp]:
  "settled (s\<lparr>locked := b\<rparr>) = settled s" "settled (s\<lparr>cancelled := b\<rparr>) = settled s"
  "settled (invoke cb s) = add_mset cb (settled s)" "settled (set_cancel_waiters hw s) = settled s"
  "settled (cancel_add p h s) = settled s"
  by (simp_all add: settled_def invoke_def set_cancel_waiters_def cancel_add_def)

lemma parallel_simps [simp]:
  "parallel (s\<lparr>locked := b\<rparr>) = parallel s" "parallel (s\<lparr>cancelled := b\<rparr>) = parallel s"
  "parallel (invoke cb s) = parallel s" "parallel (set_cancel_waiters hw s) = parallel s"
  "parallel (cancel_add p h s) = parallel s"
  by (simp_all add: parallel_def invoke_def set_cancel_waiters_def cancel_add_def)

lemma cancel_step_settled:
  assumes "cancel_step pc s = Some (pc', s')" "parallel s"
  shows "held pc' + settled s' = held pc + settled s \<and> parallel s'"
  using assms
  by (cases "(pc, s)" rule: cancel_step.cases)
    (auto simp: erase_settled swap_callbacks_def push_callback_def cancel_wake_def
      split: if_splits, auto simp: settled_def parallel_def)

lemma books_reach:
  assumes "cancel_reach w0 cs (ts, s)"
  shows "sum_list (map held ts) + settled s = sum_list (map held cs) \<and> parallel s"
proof -
  let ?I = "\<lambda>(ts, s). sum_list (map held ts) + settled s = sum_list (map held cs) \<and> parallel s"
  have "?I (ts, s)"
  proof (rule cancel_reach_invariant [OF assms])
    show "?I (cs, new_cancellation_state w0)"
      by (simp add: settled_def parallel_def new_cancellation_state_def)
  next
    fix ts s i pc s'
    assume I: "?I (ts, s)" and i: "i < length ts" and st: "cancel_step (ts ! i) s = Some (pc, s')"
    from cancel_step_settled [OF st] I
    have "held pc + settled s' = held (ts ! i) + settled s" "parallel s'" by auto
    moreover have "sum_list (map held (ts[i := pc])) + held (ts ! i) = sum_list (map held ts) + held pc"
      by (rule sum_list_map_update [OF i])
    ultimately have "sum_list (map held (ts[i := pc])) + settled s' + held (ts ! i)
        = sum_list (map held ts) + settled s + held (ts ! i)"
      by (metis (no_types, lifting) add.assoc add.commute)
    with I \<open>parallel s'\<close> show "?I (ts[i := pc], s')" by simp
  qed
  then show ?thesis by simp
qed

section \<open>The mutex\<close>

fun in_lock :: "'c cancel_pc \<Rightarrow> bool" where
  "in_lock Cancel_in \<longleftrightarrow> True"
| "in_lock (Reg_in cb) \<longleftrightarrow> True"
| "in_lock (Reg_fire_in cb) \<longleftrightarrow> True"
| "in_lock (Reg_push_in cb) \<longleftrightarrow> True"
| "in_lock (Unreg_in cid) \<longleftrightarrow> True"
| "in_lock (Unreg_erase_in cid) \<longleftrightarrow> True"
| "in_lock _ \<longleftrightarrow> False"

lemma locked_simps [simp]:
  "locked (invoke cb s) = locked s" "locked (set_cancel_waiters hw s) = locked s"
  "locked (cancel_add p h s) = locked s" "cancelled (invoke cb s) = cancelled s"
  "cancelled (set_cancel_waiters hw s) = cancelled s" "cancelled (cancel_add p h s) = cancelled s"
  by (simp_all add: invoke_def set_cancel_waiters_def cancel_add_def)

lemma erase_from_simps [simp]:
  "locked (erase_from i cid s) = locked s" "cancelled (erase_from i cid s) = cancelled s"
  "invoked (erase_from i cid s) = invoked s" "next_id (erase_from i cid s) = next_id s"
  "cancel_waiters (erase_from i cid s) = cancel_waiters s" "cancel_mem (erase_from i cid s) = cancel_mem s"
  by (rule erase_from_cases [of cid i s]; simp)+

lemma cancel_step_lock:
  assumes "cancel_step pc s = Some (pc', s')" "in_lock pc \<Longrightarrow> locked s"
  shows "locked s' \<longleftrightarrow> in_lock pc' \<or> locked s \<and> \<not> in_lock pc"
    and "in_lock pc' \<Longrightarrow> in_lock pc \<or> \<not> locked s"
  using assms
  by (cases "(pc, s)" rule: cancel_step.cases;
      auto simp: swap_callbacks_def push_callback_def cancel_wake_def split: if_splits)+

definition one_holder :: "'c cancel_sys \<Rightarrow> bool" where
  "one_holder = (\<lambda>(ts, s). length (filter in_lock ts) = (if locked s then 1 else 0))"

lemma is_call_free: "is_call c \<Longrightarrow> \<not> in_lock c"
  by (cases c) auto

lemma holder_locked:
  "length (filter P ts) = (if b then 1 else 0) \<Longrightarrow> x \<in> set ts \<Longrightarrow> P x \<Longrightarrow> b"
  by (auto simp: filter_empty_conv split: if_splits)

lemma one_holder_unique:
  assumes "one_holder (ts, s)" "i < length ts" "j < length ts" "in_lock (ts ! i)" "in_lock (ts ! j)"
  shows "i = j"
proof (rule ccontr)
  assume "i \<noteq> j"
  have "card {i. i < length ts \<and> in_lock (ts ! i)} \<le> 1"
    using assms(1) by (auto simp: one_holder_def length_filter_conv_card split: if_splits)
  moreover have "card {i, j} \<le> card {i. i < length ts \<and> in_lock (ts ! i)}"
    using assms(2-5) by (intro card_mono) auto
  ultimately show False using \<open>i \<noteq> j\<close> by simp
qed

lemma one_holder_step:
  assumes "one_holder (ts, s)" "i < length ts" "cancel_step (ts ! i) s = Some (pc, s')"
  shows "one_holder (ts[i := pc], s')"
proof -
  have lk: "in_lock (ts ! i) \<Longrightarrow> locked s"
    using assms(1,2) holder_locked [of in_lock ts "locked s" "ts ! i"] by (simp add: one_holder_def)
  note st = cancel_step_lock [OF assms(3) lk]
  show ?thesis
    using assms(1) st lk length_filter_update [OF assms(2), of in_lock pc]
    by (auto simp: one_holder_def split: if_splits)
qed

lemma one_holder_reach:
  assumes "cancel_reach w0 cs q" "\<forall>c \<in> set cs. is_call c"
  shows "one_holder q"
proof (rule cancel_reach_invariant [OF assms(1)])
  show "one_holder (cs, new_cancellation_state w0)"
    using assms(2) is_call_free by (auto simp: one_holder_def new_cancellation_state_def filter_empty_conv)
qed (rule one_holder_step)

section \<open>Nothing is left behind\<close>

fun will_swap :: "'c cancel_pc \<Rightarrow> bool" where
  "will_swap Cancel_lock \<longleftrightarrow> True"
| "will_swap Cancel_in \<longleftrightarrow> True"
| "will_swap _ \<longleftrightarrow> False"

fun pushing :: "'c cancel_pc \<Rightarrow> bool" where
  "pushing (Reg_push_in cb) \<longleftrightarrow> True"
| "pushing _ \<longleftrightarrow> False"

definition before_cancel :: "'c cancel_pc \<Rightarrow> bool" where
  "before_cancel c \<longleftrightarrow> \<not> will_swap c \<and> c \<noteq> Cancel_wake \<and> c \<noteq> Cancel_done
     \<and> (\<forall>cbs. c \<noteq> Cancel_run cbs) \<and> (\<forall>cb. c \<noteq> Reg_fire_in cb)
     \<and> (\<forall>p h. c \<noteq> Await_wake p h)"

text \<open>
  While a cancelled state has callbacks, or one on its way in, a \<open>cancel\<close> is still to swap
  them out; and only a call that cancels calls them.
\<close>

definition swap_due :: "'c cancel_sys \<Rightarrow> bool" where
  "swap_due = (\<lambda>(ts, s).
     (cancelled s \<longrightarrow> callbacks s \<noteq> [] \<or> Bex (set ts) pushing \<longrightarrow> Bex (set ts) will_swap)
     \<and> (\<not> cancelled s \<longrightarrow> invoked s = [] \<and> (\<forall>c \<in> set ts. before_cancel c)))"

lemma bex_update:
  "i < length ts \<Longrightarrow> Bex (set (ts[i := y])) P \<longleftrightarrow> P y \<or> (\<exists>j < length ts. j \<noteq> i \<and> P (ts ! j))"
  by (auto simp: Bex_def in_set_conv_nth nth_list_update)

lemma bex_nth:
  "i < length ts \<Longrightarrow> Bex (set ts) P \<longleftrightarrow> P (ts ! i) \<or> (\<exists>j < length ts. j \<noteq> i \<and> P (ts ! j))"
  by (auto simp: Bex_def in_set_conv_nth)

lemma ball_update: "\<forall>x \<in> set ts. P x \<Longrightarrow> P y \<Longrightarrow> \<forall>x \<in> set (ts[i := y]). P x"
  using set_update_subset_insert [of ts i y] by blast

lemma erase_callbacks_nil: "callbacks s = [] \<Longrightarrow> callbacks (erase_from i cid s) = []"
  by (rule erase_from_cases [of cid i s]) (auto simp: erase_at_def)

lemma swap_due_step:
  assumes one: "one_holder (ts, s)" and I: "swap_due (ts, s)" and i: "i < length ts"
    and st: "cancel_step (ts ! i) s = Some (pc, s')"
  shows "swap_due (ts[i := pc], s')"
proof -
  have others: "\<And>j. in_lock (ts ! i) \<Longrightarrow> j < length ts \<Longrightarrow> j \<noteq> i \<Longrightarrow> \<not> in_lock (ts ! j)"
    using one_holder_unique [OF one i] by blast
  have push: "pushing c \<Longrightarrow> in_lock c" for c :: "'a cancel_pc" by (cases c) auto
  have A: "cancelled s \<longrightarrow> callbacks s \<noteq> [] \<or> Bex (set ts) pushing \<longrightarrow> Bex (set ts) will_swap"
    using I by (simp add: swap_due_def)
  have B: "\<not> cancelled s \<Longrightarrow> invoked s = [] \<and> (\<forall>c \<in> set ts. before_cancel c)"
    using I by (simp add: swap_due_def)
  have due: "Bex (set (ts[i := pc])) will_swap"
    if c: "cancelled s'" and rest: "callbacks s' \<noteq> [] \<or> Bex (set (ts[i := pc])) pushing"
  proof (cases "will_swap (ts ! i) \<and> \<not> will_swap pc")
    case True
    then have "ts ! i = Cancel_in" using st by (cases "ts ! i") (auto split: if_splits)
    with st others push rest show ?thesis
      by (auto simp: swap_callbacks_def bex_update [OF i])
  next
    case False
    show ?thesis
    proof (cases "cancelled s")
      case True
      with st rest have "callbacks s \<noteq> [] \<or> Bex (set ts) pushing"
        unfolding bex_update [OF i] bex_nth [OF i]
        by (cases "(ts ! i, s)" rule: cancel_step.cases)
          (auto simp: swap_callbacks_def push_callback_def cancel_wake_def invoke_def
            set_cancel_waiters_def cancel_add_def erase_callbacks_nil split: if_splits)
      with A True False show ?thesis unfolding bex_update [OF i] bex_nth [OF i] by blast
    next
      case False
      with c st B show ?thesis unfolding bex_update [OF i]
        by (cases "(ts ! i, s)" rule: cancel_step.cases)
          (auto simp: swap_callbacks_def push_callback_def cancel_wake_def split: if_splits)
    qed
  qed
  moreover have "invoked s' = [] \<and> (\<forall>c \<in> set (ts[i := pc]). before_cancel c)"
    if n: "\<not> cancelled s'"
  proof -
    have nc: "\<not> cancelled s" using st n
      by (cases "(ts ! i, s)" rule: cancel_step.cases)
        (auto simp: swap_callbacks_def push_callback_def cancel_wake_def split: if_splits)
    have "ts ! i \<in> set ts" using i by simp
    with B [OF nc] st n nc have "invoked s' = [] \<and> before_cancel pc"
      by (cases "(ts ! i, s)" rule: cancel_step.cases)
        (auto simp: swap_callbacks_def push_callback_def cancel_wake_def set_cancel_waiters_def
          cancel_add_def is_cancelled_def before_cancel_def split: if_splits)
    with B [OF nc] show ?thesis
      using ball_update [of ts before_cancel pc i] by blast
  qed
  ultimately show ?thesis by (simp add: swap_due_def)
qed

lemma swap_due_reach:
  assumes "cancel_reach w0 cs q" "\<forall>c \<in> set cs. is_call c"
  shows "one_holder q \<and> swap_due q"
proof (rule cancel_reach_invariant [OF assms(1)])
  have "is_call c \<Longrightarrow> before_cancel c" for c :: "'a cancel_pc"
    by (cases c) (auto simp: before_cancel_def)
  with assms(2) show "one_holder (cs, new_cancellation_state w0) \<and> swap_due (cs, new_cancellation_state w0)"
    using one_holder_reach [OF cancel_reach.start assms(2), of w0]
    by (simp add: swap_due_def new_cancellation_state_def)
qed (use one_holder_step swap_due_step in blast)

section \<open>Ids\<close>

fun pushed :: "'c cancel_pc \<Rightarrow> bool" where
  "pushed (Reg_done cid cb) \<longleftrightarrow> cid \<noteq> 0"
| "pushed _ \<longleftrightarrow> False"

lemma pushed_iff: "pushed c \<longleftrightarrow> (\<exists>cid cb. c = Reg_done cid cb \<and> cid \<noteq> 0)"
  by (cases c) auto

text \<open>
  The ids count the registrations; every pair of an id and a callback that is in the vectors
  or was erased is one that a registration returned; and only an \<open>unregister_callback\<close> of
  its id erases a callback.
\<close>

definition cb_pairs :: "'c cancellation_state \<Rightarrow> (u64 \<times> 'c) set" where
  "cb_pairs s = set (zip (callback_ids s) (callbacks s))"

definition ids_counted :: "'c cancel_sys \<Rightarrow> bool" where
  "ids_counted = (\<lambda>(ts, s). unat (next_id s) = Suc (length (filter pushed ts))
     \<and> (\<forall>cid cb. Reg_done cid cb \<in> set ts \<longrightarrow> unat cid < unat (next_id s)))"

definition ids_unique :: "'c cancel_pc list \<Rightarrow> bool" where
  "ids_unique ts \<longleftrightarrow> (\<forall>i < length ts. \<forall>j < length ts. \<forall>cid cb cb'.
     ts ! i = Reg_done cid cb \<and> ts ! j = Reg_done cid cb' \<and> cid \<noteq> 0 \<longrightarrow> i = j)"

definition pairs_known :: "'c cancel_sys \<Rightarrow> bool" where
  "pairs_known = (\<lambda>(ts, s).
     (\<forall>(cid, cb) \<in> cb_pairs s \<union> set (removed s). cid \<noteq> 0 \<and> Reg_done cid cb \<in> set ts)
     \<and> (\<forall>(cid, cb) \<in> set (removed s). Unreg_done cid \<in> set ts))"

definition ids_good :: "'c cancel_sys \<Rightarrow> bool" where
  "ids_good q \<longleftrightarrow> parallel (snd q) \<and> ids_counted q \<and> ids_unique (fst q) \<and> pairs_known q"

lemma in_set_update_keep:
  "i < length ts \<Longrightarrow> x \<in> set ts \<Longrightarrow> x \<noteq> ts ! i \<Longrightarrow> x \<in> set (ts[i := y])"
  by (metis in_set_conv_nth length_list_update nth_list_update_neq)

lemma erase_pairs:
  assumes "parallel s"
  shows "cb_pairs (erase_from 0 cid s) \<subseteq> cb_pairs s
    \<and> set (removed (erase_from 0 cid s)) \<subseteq> set (removed s) \<union> {p \<in> cb_pairs s. fst p = cid}"
proof (rule erase_from_cases [of cid 0 s])
  fix k assume k: "k < length (callback_ids s)" "callback_ids s ! k = cid"
    and eq: "erase_from 0 cid s = s\<lparr>callbacks := erase_at k (callbacks s),
       callback_ids := erase_at k (callback_ids s), removed := (cid, callbacks s ! k) # removed s\<rparr>"
  have "(cid, callbacks s ! k) \<in> cb_pairs s"
    using k assms by (auto simp: cb_pairs_def parallel_def in_set_zip)
  then show ?thesis using assms set_erase_at [of k "zip (callback_ids s) (callbacks s)"]
    by (auto simp: eq cb_pairs_def zip_erase_at parallel_def)
qed auto

text \<open>The calls by themselves.\<close>

lemma cancel_effect:
  assumes "cancel cs = Some cs'"
  shows "cancelled cs'" "next_id cs' = next_id cs"
    and "cancelled cs \<Longrightarrow> cs' = cs"
    and "\<not> cancelled cs \<Longrightarrow> callbacks cs' = [] \<and> callback_ids cs' = [] \<and> invoked cs' = invoked cs @ callbacks cs"
proof -
  have inv: "invoked (fold invoke cbs c) = invoked c @ cbs \<and> callbacks (fold invoke cbs c) = callbacks c
      \<and> callback_ids (fold invoke cbs c) = callback_ids c \<and> cancelled (fold invoke cbs c) = cancelled c
      \<and> next_id (fold invoke cbs c) = next_id c" for cbs and c :: "'a cancellation_state"
    by (induction cbs arbitrary: c) (auto simp: invoke_def)
  show "cancelled cs'" "next_id cs' = next_id cs" "cancelled cs \<Longrightarrow> cs' = cs"
    "\<not> cancelled cs \<Longrightarrow> callbacks cs' = [] \<and> callback_ids cs' = [] \<and> invoked cs' = invoked cs @ callbacks cs"
    using assms inv
    by (auto simp: cancel_def swap_callbacks_def Let_def set_cancel_waiters_def split: if_splits)
qed

lemma register_effect:
  assumes "register_callback c cs = (cid, cs')"
  shows "cancelled cs' = cancelled cs"
    and "cancelled cs \<Longrightarrow> callbacks cs' = callbacks cs \<and> callback_ids cs' = callback_ids cs
      \<and> invoked cs' = invoked cs @ [c] \<and> cid = 0"
    and "\<not> cancelled cs \<Longrightarrow> callbacks cs' = callbacks cs @ [c] \<and> invoked cs' = invoked cs
      \<and> callback_ids cs' = callback_ids cs @ [cid]"
  using assms by (auto simp: register_callback_def push_callback_def invoke_def split: if_splits)

lemma unregister_effect:
  "cancelled (unregister_callback cid cs) = cancelled cs"
  "invoked (unregister_callback cid cs) = invoked cs"
  "parallel cs \<Longrightarrow> parallel (unregister_callback cid cs)"
  "parallel cs \<Longrightarrow> cb_pairs (unregister_callback cid cs) \<subseteq> cb_pairs cs"
  using erase_pairs [of cs cid] erase_settled [of cs cid] by (auto simp: unregister_callback_def)

text \<open>A step that pushes nothing.\<close>

lemma ids_good_other:
  assumes I: "ids_good (ts, s)" and i: "i < length ts" and call: "\<not> returned (ts ! i)"
    and pc: "\<not> pushed pc" and nx: "next_id s' = next_id s" and par: "parallel s'"
    and prs: "cb_pairs s' \<subseteq> cb_pairs s"
    and rem: "set (removed s') \<subseteq> set (removed s) \<union> {p \<in> cb_pairs s. pc = Unreg_done (fst p)}"
  shows "ids_good (ts[i := pc], s')"
proof -
  have keep: "x \<in> set ts \<Longrightarrow> returned x \<Longrightarrow> x \<in> set (ts[i := pc])" for x
    using in_set_update_keep [OF i] call by metis
  have here: "pc \<in> set (ts[i := pc])" using i by (simp add: set_update_memI)
  have "\<not> pushed (ts ! i)" using call by (cases "ts ! i") auto
  with pc have "length (filter pushed (ts[i := pc])) = length (filter pushed ts)"
    by (intro length_filter_update_same [OF i]) simp
  moreover have "unat cid < unat (next_id s)" if "Reg_done cid cb \<in> set (ts[i := pc])" for cid cb
  proof (cases "pc = Reg_done cid cb")
    case True
    with pc I show ?thesis by (simp add: ids_good_def ids_counted_def)
  next
    case False
    with that set_update_subset_insert [of ts i pc] have "Reg_done cid cb \<in> set ts" by auto
    with I show ?thesis by (auto simp: ids_good_def ids_counted_def)
  qed
  ultimately have "ids_counted (ts[i := pc], s')" using I nx by (auto simp: ids_good_def ids_counted_def)
  moreover have "ids_unique (ts[i := pc])"
    using I pc i unfolding ids_good_def ids_unique_def by (auto simp: nth_list_update)
  moreover have "pairs_known (ts[i := pc], s')"
    using I prs rem keep here unfolding ids_good_def pairs_known_def by fastforce
  ultimately show ?thesis using par by (simp add: ids_good_def)
qed

lemma ids_good_push:
  assumes I: "ids_good (ts, s)" and i: "i < length ts" and room: "length ts < 2 ^ 64 - 1"
    and at: "ts ! i = Reg_push_in cb" and st: "cancel_step (ts ! i) s = Some (pc, s')"
  shows "ids_good (ts[i := pc], s')"
proof -
  have pc: "pc = Reg_done (next_id s) cb" and s': "s' = (snd (push_callback cb s))\<lparr>locked := False\<rparr>"
    using st at by (simp_all add: push_callback_def)
  have keep: "x \<in> set ts \<Longrightarrow> returned x \<Longrightarrow> x \<in> set (ts[i := pc])" for x
    using in_set_update_keep [OF i] at by (metis returned.simps)
  have here: "pc \<in> set (ts[i := pc])" using i by (simp add: set_update_memI)
  have cnt: "unat (next_id s) = Suc (length (filter pushed ts))"
    using I by (simp add: ids_good_def ids_counted_def)
  have "length (filter pushed ts) < length ts"
    using nth_mem [OF i] at by (intro length_filter_less [of "ts ! i"]) auto
  with cnt room have nx: "unat (next_id s + 1) = Suc (unat (next_id s))"
    by (intro unat_plus_one) simp
  have nz: "next_id s \<noteq> 0" using cnt by auto
  have below: "unat cid < unat (next_id s)" if "Reg_done cid cb' \<in> set ts" for cid cb'
    using I that by (auto simp: ids_good_def ids_counted_def)
  have "length (filter pushed (ts[i := pc])) = Suc (length (filter pushed ts))"
    using pc nz at by (intro length_filter_update_new [OF i]) auto
  moreover have "unat cid < unat (next_id s + 1)" if "Reg_done cid cb' \<in> set (ts[i := pc])" for cid cb'
    using that set_update_subset_insert [of ts i pc] below pc nx by fastforce
  ultimately have C: "ids_counted (ts[i := pc], s')"
    using cnt nx by (auto simp: ids_counted_def s' push_callback_def)
  have U: "ids_unique (ts[i := pc])"
  proof -
    have "ts ! j \<noteq> Reg_done (next_id s) cb'" if "j < length ts" for j cb'
      using below that by (metis less_irrefl nth_mem)
    moreover have "ids_unique ts" using I by (simp add: ids_good_def)
    moreover have "ts[i := pc] ! a = (if a = i then pc else ts ! a)" for a
      using i by (simp add: nth_list_update)
    ultimately show ?thesis unfolding ids_unique_def
      using pc by (intro allI impI, elim conjE) (simp split: if_splits)
  qed
  have "cb_pairs s' = insert (next_id s, cb) (cb_pairs s)" "removed s' = removed s"
    using I by (simp_all add: cb_pairs_def s' push_callback_def ids_good_def parallel_def)
  moreover have K: "pairs_known (ts, s)" using I by (simp add: ids_good_def)
  moreover have "cid \<noteq> 0 \<and> Reg_done cid cb' \<in> set (ts[i := pc])"
    if "(cid, cb') \<in> cb_pairs s' \<union> set (removed s')" for cid cb'
  proof (cases "(cid, cb') = (next_id s, cb)")
    case True
    then show ?thesis using here pc nz by simp
  next
    case False
    with that \<open>cb_pairs s' = _\<close> \<open>removed s' = _\<close> have "(cid, cb') \<in> cb_pairs s \<union> set (removed s)" by auto
    with K have "cid \<noteq> 0 \<and> Reg_done cid cb' \<in> set ts" by (auto simp: pairs_known_def)
    then show ?thesis using keep by simp
  qed
  moreover have "Unreg_done cid \<in> set (ts[i := pc])" if "(cid, cb') \<in> set (removed s')" for cid cb'
    using that \<open>removed s' = _\<close> K keep [of "Unreg_done cid"] by (auto simp: pairs_known_def)
  ultimately have "pairs_known (ts[i := pc], s')"
    unfolding pairs_known_def by blast
  moreover have "parallel s'" using I by (simp add: ids_good_def parallel_def s' push_callback_def)
  ultimately show ?thesis using C U by (simp add: ids_good_def)
qed

lemma ids_good_step:
  assumes I: "ids_good (ts, s)" and i: "i < length ts" and room: "length ts < 2 ^ 64 - 1"
    and st: "cancel_step (ts ! i) s = Some (pc, s')"
  shows "ids_good (ts[i := pc], s')"
proof (cases "\<exists>cb. ts ! i = Reg_push_in cb")
  case True
  then show ?thesis using ids_good_push [OF I i room _ st] by blast
next
  case False
  have par: "parallel s" using I by (simp add: ids_good_def)
  have "\<not> returned (ts ! i)" using st by (cases "ts ! i") auto
  moreover have "\<not> pushed pc" using st False
    by (cases "(ts ! i, s)" rule: cancel_step.cases)
      (auto simp: swap_callbacks_def push_callback_def cancel_wake_def split: if_splits)
  moreover have "next_id s' = next_id s \<and> parallel s' \<and> cb_pairs s' \<subseteq> cb_pairs s
      \<and> set (removed s') \<subseteq> set (removed s) \<union> {p \<in> cb_pairs s. pc = Unreg_done (fst p)}"
  proof (cases "\<exists>cid. ts ! i = Unreg_erase_in cid")
    case True
    then obtain cid where "ts ! i = Unreg_erase_in cid" by blast
    then show ?thesis using st erase_pairs [OF par, of cid] erase_settled [OF par, of cid]
      by (auto simp: cb_pairs_def)
  next
    case no: False
    then show ?thesis using st False par
      by (cases "(ts ! i, s)" rule: cancel_step.cases)
        (auto simp: swap_callbacks_def push_callback_def cancel_wake_def cb_pairs_def invoke_def
          set_cancel_waiters_def cancel_add_def parallel_def split: if_splits)
  qed
  ultimately show ?thesis using ids_good_other [OF I i] by blast
qed

lemma cancel_reach_length: "cancel_reach w0 cs q \<Longrightarrow> length (fst q) = length cs"
  by (induction rule: cancel_reach.induct) (auto elim: cancel_sys_step.cases)

lemma ids_good_reach:
  assumes "cancel_reach w0 cs q" "\<forall>c \<in> set cs. is_call c" "length cs < 2 ^ 64 - 1"
  shows "ids_good q"
proof -
  let ?I = "\<lambda>q. length (fst q) = length cs \<and> ids_good q"
  have "?I q"
  proof (rule cancel_reach_invariant [OF assms(1), of ?I])
    have "is_call c \<Longrightarrow> \<not> pushed c \<and> \<not> returned c" for c :: "'a cancel_pc"
      by (cases c) auto
    with assms(2) have none: "filter pushed cs = []" "\<And>cid cb. Reg_done cid cb \<notin> set cs"
      by (fastforce simp: filter_empty_conv)+
    then have "ids_unique cs" by (metis ids_unique_def nth_mem)
    with none show "?I (cs, new_cancellation_state w0)"
      by (simp add: ids_good_def ids_counted_def pairs_known_def parallel_def cb_pairs_def
          new_cancellation_state_def)
  next
    fix ts s i pc s'
    assume "?I (ts, s)" "i < length ts" "cancel_step (ts ! i) s = Some (pc, s')"
    with ids_good_step [of ts s i pc s'] assms(3) show "?I (ts[i := pc], s')" by simp
  qed
  then show ?thesis by simp
qed

section \<open>The coroutines that wait\<close>

fun to_wait :: "'c cancel_pc \<Rightarrow> (uintptr \<times> coro) multiset" where
  "to_wait (Await_call p h) = {#(p, h)#}"
| "to_wait _ = {#}"

fun will_wake :: "'c cancel_pc \<Rightarrow> bool" where
  "will_wake (Await_added p h) \<longleftrightarrow> True"
| "will_wake (Await_wake p h) \<longleftrightarrow> True"
| "will_wake (Cancel_run cbs) \<longleftrightarrow> True"
| "will_wake Cancel_wake \<longleftrightarrow> True"
| "will_wake c \<longleftrightarrow> will_swap c"

definition on_list :: "async_mem \<Rightarrow> uintptr list \<Rightarrow> (uintptr \<times> coro) multiset" where
  "on_list w qs = mset (map (\<lambda>q. (q, node_handle (wnodes w q))) qs)"

text \<open>
  Each awaiter still has to add its node, or its plain node is on the list, or its coroutine
  was scheduled; and a call that wakes is on its way if the state is cancelled and the list
  is not empty.
\<close>

definition wait_books ::
  "async_mem \<Rightarrow> (uintptr \<times> coro) multiset \<Rightarrow> 'c cancel_sys \<Rightarrow> bool" where
  "wait_books w0 aw = (\<lambda>(ts, s). \<exists>qs D. chain (wnodes (cancel_mem s)) (cancel_waiters s) qs
     \<and> plain (cancel_mem s) qs
     \<and> on_list (cancel_mem s) qs + sum_list (map to_wait ts) + D = aw
     \<and> mset (sched (cancel_mem s)) = mset (sched w0) + image_mset snd D
     \<and> (cancelled s \<longrightarrow> qs \<noteq> [] \<longrightarrow> Bex (set ts) will_wake)
     \<and> (\<not> cancelled s \<longrightarrow> D = {#} \<and> sched (cancel_mem s) = sched w0 \<and> (\<forall>c \<in> set ts. before_cancel c)))"

definition good_awaits :: "(uintptr \<times> coro) multiset \<Rightarrow> bool" where
  "good_awaits aw \<longleftrightarrow> (\<forall>p. count (image_mset fst aw) p \<le> 1) \<and> (\<forall>(p, h) \<in># aw. p \<noteq> 0 \<and> h \<noteq> 0)"

lemma wake_books:
  assumes "chain (wnodes (cancel_mem s)) (cancel_waiters s) qs" "plain (cancel_mem s) qs"
  shows "\<exists>w'. cancel_wake s = Some (s\<lparr>cancel_waiters := 0, cancel_mem := w'\<rparr>)
    \<and> mset (sched w') = mset (sched (cancel_mem s)) + image_mset snd (on_list (cancel_mem s) qs)"
  using wake_all_plain [OF assms]
  by (auto simp: cancel_wake_def set_cancel_waiters_def on_list_def handles_def image_mset.compositionality o_def)

lemma add_books:
  assumes ch: "chain (wnodes (cancel_mem s)) (cancel_waiters s) qs" and pl: "plain (cancel_mem s) qs"
    and p: "p \<noteq> 0" "h \<noteq> 0" "p \<notin> set qs"
  shows "chain (wnodes (cancel_mem (cancel_add p h s))) (cancel_waiters (cancel_add p h s)) (p # qs)"
    and "plain (cancel_mem (cancel_add p h s)) (p # qs)"
    and "on_list (cancel_mem (cancel_add p h s)) (p # qs) = add_mset (p, h) (on_list (cancel_mem s) qs)"
    and "sched (cancel_mem (cancel_add p h s)) = sched (cancel_mem s)"
proof -
  show "chain (wnodes (cancel_mem (cancel_add p h s))) (cancel_waiters (cancel_add p h s)) (p # qs)"
    using ch p by (simp add: cancel_add_def set_cancel_waiters_def add_waiter_def chain_update)
  show "plain (cancel_mem (cancel_add p h s)) (p # qs)"
    using pl p by (auto simp: cancel_add_def set_cancel_waiters_def add_waiter_def plain_def new_node_def)
  have "map (\<lambda>q. (q, node_handle (wnodes (cancel_mem (cancel_add p h s)) q))) qs
      = map (\<lambda>q. (q, node_handle (wnodes (cancel_mem s) q))) qs"
    using p(3) by (auto simp: cancel_add_def set_cancel_waiters_def add_waiter_def)
  then have "on_list (cancel_mem (cancel_add p h s)) qs = on_list (cancel_mem s) qs"
    unfolding on_list_def by (rule arg_cong)
  moreover have "node_handle (wnodes (cancel_mem (cancel_add p h s)) p) = h"
    by (simp add: cancel_add_def set_cancel_waiters_def add_waiter_def new_node_def)
  ultimately show "on_list (cancel_mem (cancel_add p h s)) (p # qs) = add_mset (p, h) (on_list (cancel_mem s) qs)"
    by (simp add: on_list_def)
  show "sched (cancel_mem (cancel_add p h s)) = sched (cancel_mem s)"
    by (simp add: cancel_add_def set_cancel_waiters_def add_waiter_def)
qed

lemma wake_books_step:
  assumes I: "wait_books w0 aw (ts, s)" and i: "i < length ts"
    and at: "ts ! i = Cancel_wake \<or> (\<exists>p h. ts ! i = Await_wake p h)" and canc: "cancelled s"
    and st: "cancel_step (ts ! i) s = Some (pc, s')"
  shows "wait_books w0 aw (ts[i := pc], s')"
proof -
  from I obtain qs D where q: "chain (wnodes (cancel_mem s)) (cancel_waiters s) qs"
    "plain (cancel_mem s) qs" "on_list (cancel_mem s) qs + sum_list (map to_wait ts) + D = aw"
    "mset (sched (cancel_mem s)) = mset (sched w0) + image_mset snd D"
    by (auto simp: wait_books_def)
  from wake_books [OF q(1,2)] obtain w' where
    w': "cancel_wake s = Some (s\<lparr>cancel_waiters := 0, cancel_mem := w'\<rparr>)"
    "mset (sched w') = mset (sched (cancel_mem s)) + image_mset snd (on_list (cancel_mem s) qs)" by blast
  have s': "s' = s\<lparr>cancel_waiters := 0, cancel_mem := w'\<rparr>" "to_wait pc = to_wait (ts ! i)"
    using st at w'(1) by auto
  have "sum_list (map to_wait (ts[i := pc])) = sum_list (map to_wait ts)"
    using sum_list_map_update [OF i, of to_wait pc] s'(2) by simp
  then show ?thesis using q w'(2) s'(1) canc
    unfolding wait_books_def
    by (auto simp: on_list_def plain_def ac_simps intro!: exI [of _ "[]"]
        exI [of _ "on_list (cancel_mem s) qs + D"])
qed

lemma add_books_step:
  assumes I: "wait_books w0 aw (ts, s)" and i: "i < length ts" and gd: "good_awaits aw"
    and at: "ts ! i = Await_call p h" and st: "cancel_step (ts ! i) s = Some (pc, s')"
  shows "wait_books w0 aw (ts[i := pc], s')"
proof -
  from I obtain qs D where q: "chain (wnodes (cancel_mem s)) (cancel_waiters s) qs"
    "plain (cancel_mem s) qs" "on_list (cancel_mem s) qs + sum_list (map to_wait ts) + D = aw"
    "mset (sched (cancel_mem s)) = mset (sched w0) + image_mset snd D"
    and nc: "\<not> cancelled s \<Longrightarrow> D = {#} \<and> sched (cancel_mem s) = sched w0 \<and> (\<forall>c \<in> set ts. before_cancel c)"
    by (auto simp: wait_books_def)
  have pc: "pc = Await_added p h" and s': "s' = cancel_add p h s" using st at by simp_all
  have sm: "add_mset (p, h) (sum_list (map to_wait (ts[i := pc]))) = sum_list (map to_wait ts)"
    using sum_list_map_update [OF i, of to_wait pc] at pc by simp
  have "(p, h) \<in># aw" unfolding q(3) [symmetric] sm [symmetric] by simp
  with gd have ph: "p \<noteq> 0" "h \<noteq> 0" by (auto simp: good_awaits_def)
  have "p \<notin> set qs"
  proof
    assume "p \<in> set qs"
    then have "p \<in># image_mset fst (on_list (cancel_mem s) qs)"
      by (simp add: on_list_def image_mset.compositionality o_def)
    then have "0 < count (image_mset fst (on_list (cancel_mem s) qs)) p"
      by (simp only: count_greater_zero_iff)
    moreover have "count (image_mset fst aw) p \<ge> count (image_mset fst (on_list (cancel_mem s) qs)) p + 1"
      unfolding q(3) [symmetric] sm [symmetric] by simp
    moreover have "count (image_mset fst aw) p \<le> 1" using gd by (simp add: good_awaits_def)
    ultimately show False by linarith
  qed
  note add = add_books [OF q(1,2) ph this]
  have "before_cancel pc" by (simp add: pc before_cancel_def)
  with nc have "\<not> cancelled s \<Longrightarrow> D = {#} \<and> sched (cancel_mem s) = sched w0
      \<and> (\<forall>c \<in> set (ts[i := pc]). before_cancel c)"
    using ball_update [of ts before_cancel pc i] by blast
  moreover have "Bex (set (ts[i := pc])) will_wake" using i by (simp add: bex_update pc)
  moreover have "on_list (cancel_mem s') (p # qs) + sum_list (map to_wait (ts[i := pc])) + D = aw"
    unfolding s' add(3) q(3) [symmetric] sm [symmetric] by simp
  ultimately show ?thesis using add(1,2,4) q(4) s'
    unfolding wait_books_def by (auto intro!: exI [of _ "p # qs"] exI [of _ D])
qed

lemma other_books_step:
  assumes I: "wait_books w0 aw (ts, s)" and i: "i < length ts"
    and no: "ts ! i \<noteq> Cancel_wake" "\<nexists>p h. ts ! i = Await_wake p h" "\<nexists>p h. ts ! i = Await_call p h"
    and st: "cancel_step (ts ! i) s = Some (pc, s')"
  shows "wait_books w0 aw (ts[i := pc], s')"
proof -
  from I obtain qs D where q: "chain (wnodes (cancel_mem s)) (cancel_waiters s) qs"
    "plain (cancel_mem s) qs" "on_list (cancel_mem s) qs + sum_list (map to_wait ts) + D = aw"
    "mset (sched (cancel_mem s)) = mset (sched w0) + image_mset snd D"
    and c: "cancelled s \<Longrightarrow> qs \<noteq> [] \<Longrightarrow> Bex (set ts) will_wake"
    and nc: "\<not> cancelled s \<Longrightarrow> D = {#} \<and> sched (cancel_mem s) = sched w0 \<and> (\<forall>c \<in> set ts. before_cancel c)"
    by (auto simp: wait_books_def)
  have here: "ts ! i \<in> set ts" using i by simp
  have same: "cancel_waiters s' = cancel_waiters s" "cancel_mem s' = cancel_mem s" "to_wait pc = to_wait (ts ! i)"
    using st no by (cases "(ts ! i, s)" rule: cancel_step.cases;
      auto simp: swap_callbacks_def push_callback_def invoke_def split: if_splits)+
  have wk: "cancelled s' \<Longrightarrow> (will_wake (ts ! i) \<or> \<not> cancelled s) \<Longrightarrow> will_wake pc"
    using st no nc here by (cases "(ts ! i, s)" rule: cancel_step.cases)
      (auto simp: swap_callbacks_def push_callback_def before_cancel_def is_cancelled_def split: if_splits)
  have "sum_list (map to_wait (ts[i := pc])) = sum_list (map to_wait ts)"
    using sum_list_map_update [OF i, of to_wait pc] same(3) by simp
  moreover have "cancelled s' \<Longrightarrow> qs \<noteq> [] \<Longrightarrow> Bex (set (ts[i := pc])) will_wake"
    using c wk unfolding bex_update [OF i] bex_nth [OF i] by blast
  moreover have "D = {#} \<and> sched (cancel_mem s) = sched w0 \<and> (\<forall>c \<in> set (ts[i := pc]). before_cancel c)"
    if "\<not> cancelled s'"
  proof -
    have n: "\<not> cancelled s" "before_cancel (ts ! i) \<Longrightarrow> before_cancel pc"
      using st no that by (cases "(ts ! i, s)" rule: cancel_step.cases;
        auto simp: swap_callbacks_def push_callback_def before_cancel_def is_cancelled_def split: if_splits)+
    with nc here have "before_cancel pc" by blast
    with nc n(1) show ?thesis using ball_update [of ts before_cancel pc i] by blast
  qed
  ultimately show ?thesis using q same
    unfolding wait_books_def by (auto intro!: exI [of _ qs] exI [of _ D])
qed

lemma wait_books_step:
  assumes I: "wait_books w0 aw (ts, s)" and i: "i < length ts" and gd: "good_awaits aw"
    and st: "cancel_step (ts ! i) s = Some (pc, s')"
  shows "wait_books w0 aw (ts[i := pc], s')"
proof -
  consider "ts ! i = Cancel_wake \<or> (\<exists>p h. ts ! i = Await_wake p h)"
    | p h where "ts ! i = Await_call p h"
    | "ts ! i \<noteq> Cancel_wake" "\<nexists>p h. ts ! i = Await_wake p h" "\<nexists>p h. ts ! i = Await_call p h"
    by blast
  then show ?thesis
  proof cases
    case 1
    then have "\<not> before_cancel (ts ! i)" by (auto simp: before_cancel_def)
    moreover have "\<not> cancelled s \<Longrightarrow> Ball (set ts) before_cancel" using I by (auto simp: wait_books_def)
    ultimately have "cancelled s" using nth_mem [OF i] by blast
    then show ?thesis by (rule wake_books_step [OF I i 1 _ st])
  next
    case 2
    then show ?thesis by (rule add_books_step [OF I i gd _ st])
  next
    case 3
    then show ?thesis by (rule other_books_step [OF I i _ _ _ st])
  qed
qed

lemma is_call_before: "is_call c \<Longrightarrow> before_cancel c"
  by (cases c) (auto simp: before_cancel_def)

lemma wait_books_reach:
  assumes "cancel_reach w0 cs q" "\<forall>c \<in> set cs. is_call c" "good_awaits (sum_list (map to_wait cs))"
  shows "wait_books w0 (sum_list (map to_wait cs)) q"
proof (rule cancel_reach_invariant [OF assms(1)])
  show "wait_books w0 (sum_list (map to_wait cs)) (cs, new_cancellation_state w0)"
    using assms(2) is_call_before unfolding wait_books_def
    by (auto simp: new_cancellation_state_def plain_def on_list_def intro!: exI [of _ "[]"])
qed (rule wait_books_step [OF _ _ assms(3)])

section \<open>Every call returns\<close>

fun weight :: "'c cancel_pc \<Rightarrow> nat" where
  "weight Cancel_call = 6" | "weight Cancel_lock = 5" | "weight Cancel_in = 4"
| "weight (Cancel_run cbs) = 2 + length cbs" | "weight Cancel_wake = 1"
| "weight (Reg_call cb) = 4" | "weight (Reg_in cb) = 3" | "weight (Reg_fire_in cb) = 2"
| "weight (Reg_push_in cb) = 2"
| "weight (Unreg_call cid) = 4" | "weight (Unreg_lock cid) = 3" | "weight (Unreg_in cid) = 2"
| "weight (Unreg_erase_in cid) = 1"
| "weight (Await_call p h) = 3" | "weight (Await_added p h) = 2" | "weight (Await_wake p h) = 1"
| "weight _ = 0"

definition steps_left :: "'c cancel_sys \<Rightarrow> nat" where
  "steps_left = (\<lambda>(ts, s). sum_list (map weight ts) + length (callbacks s))"

lemma erase_shrinks: "length (callbacks (erase_from i cid s)) \<le> length (callbacks s)"
  by (rule erase_from_cases [of cid i s]) (auto simp: erase_at_def)

lemma weight_step:
  assumes "cancel_step pc s = Some (pc', s')"
  shows "weight pc' + length (callbacks s') < weight pc + length (callbacks s)"
proof (cases pc)
  case (Cancel_run cbs)
  then show ?thesis using assms by (cases cbs) (auto simp: invoke_def)
next
  case (Unreg_erase_in cid)
  then show ?thesis using assms erase_shrinks [of 0 cid s] by (auto simp: le_imp_less_Suc)
qed (use assms in \<open>auto simp: swap_callbacks_def push_callback_def cancel_wake_def invoke_def
        set_cancel_waiters_def cancel_add_def split: if_splits\<close>)

lemma steps_left_step:
  assumes "i < length ts" "cancel_step (ts ! i) s = Some (pc, s')"
  shows "steps_left (ts[i := pc], s') < steps_left (ts, s)"
  using sum_list_map_update [OF assms(1), of weight pc] weight_step [OF assms(2)]
  by (simp add: steps_left_def)

lemma steps_left_bound:
  assumes "\<forall>c \<in> set cs. is_call c"
  shows "steps_left (cs, new_cancellation_state w0) \<le> 6 * length cs"
proof -
  have "is_call c \<Longrightarrow> weight c \<le> 6" for c :: "'a cancel_pc" by (cases c) auto
  with assms have "sum_list (map weight cs) \<le> sum_list (map (\<lambda>_. 6) cs)"
    by (intro sum_list_mono) auto
  then show ?thesis by (simp add: steps_left_def new_cancellation_state_def sum_list_triv)
qed

lemma cancel_step_enabled:
  assumes one: "one_holder (ts, s)" and wb: "wait_books w0 aw (ts, s)"
    and i: "i < length ts" "\<not> returned (ts ! i)"
  shows "\<exists>q'. cancel_sys_step (ts, s) q'"
proof -
  obtain qs where "chain (wnodes (cancel_mem s)) (cancel_waiters s) qs" "plain (cancel_mem s) qs"
    using wb by (auto simp: wait_books_def)
  from wake_books [OF this] obtain t where t: "cancel_wake s = Some t" by blast
  have "\<exists>j r. j < length ts \<and> cancel_step (ts ! j) s = Some r"
  proof (cases "locked s")
    case True
    with one obtain j where j: "j < length ts" "in_lock (ts ! j)"
      by (auto simp: one_holder_def length_filter_conv_card card_1_singleton_iff)
    then have "\<exists>r. cancel_step (ts ! j) s = Some r"
      by (cases "ts ! j") (auto simp: swap_callbacks_def push_callback_def)
    with j show ?thesis by blast
  next
    case False
    with i t have "\<exists>r. cancel_step (ts ! i) s = Some r"
      by (cases "(ts ! i, s)" rule: cancel_step.cases)
        (auto simp: swap_callbacks_def push_callback_def)
    with i show ?thesis by blast
  qed
  then show ?thesis using cancel_sys_step.intros by (metis surj_pair)
qed

section \<open>Which calls there were\<close>

fun cancels :: "'c cancel_pc \<Rightarrow> bool" where
  "cancels (Cancel_run cbs) \<longleftrightarrow> True"
| "cancels c \<longleftrightarrow> c \<in> {Cancel_call, Cancel_lock, Cancel_in, Cancel_wake, Cancel_done}"

definition registrations :: "'c cancel_pc list \<Rightarrow> 'c list" where
  "registrations cs = List.map_filter (\<lambda>c. case c of Reg_call cb \<Rightarrow> Some cb | _ \<Rightarrow> None) cs"

lemma held_registrations:
  "\<forall>c \<in> set cs. is_call c \<Longrightarrow> sum_list (map held cs) = mset (registrations cs)"
proof (induction cs)
  case (Cons c cs)
  then show ?case by (cases c) (auto simp: registrations_def map_filter_simps)
qed (simp add: registrations_def map_filter_simps)

lemma cancels_step:
  assumes "cancel_step pc s = Some (pc', s')"
  shows "cancels pc' = cancels pc" and "cancelled s' \<Longrightarrow> cancelled s \<or> cancels pc"
  using assms
  by (cases "(pc, s)" rule: cancel_step.cases;
      auto simp: swap_callbacks_def push_callback_def cancel_wake_def split: if_splits)+

lemma cancels_reach:
  assumes "cancel_reach w0 cs (ts, s)"
  shows "map cancels ts = map cancels cs \<and> (cancelled s \<longrightarrow> True \<in> set (map cancels cs))"
proof -
  let ?I = "\<lambda>(ts, s). map cancels ts = map cancels cs \<and> (cancelled s \<longrightarrow> True \<in> set (map cancels cs))"
  have "?I (ts, s)"
  proof (rule cancel_reach_invariant [OF assms])
    fix ts and s :: "'a cancellation_state" and i pc s'
    assume I: "?I (ts, s)" and i: "i < length ts" and st: "cancel_step (ts ! i) s = Some (pc, s')"
    from I have I1: "map cancels ts = map cancels cs"
      and I2: "cancelled s \<Longrightarrow> True \<in> set (map cancels cs)" by auto
    have "(map cancels ts)[i := cancels pc] = map cancels ts"
      unfolding cancels_step(1) [OF st] nth_map [OF i, symmetric] by (rule list_update_id)
    then have eq: "map cancels (ts[i := pc]) = map cancels cs" using I1 by (simp only: map_update)
    have "cancels (ts ! i) \<in> set (map cancels ts)" using nth_mem [OF i] by simp
    then have "cancels (ts ! i) \<in> set (map cancels cs)" by (simp only: I1)
    with cancels_step(2) [OF st] I2 have "cancelled s' \<longrightarrow> True \<in> set (map cancels cs)" by auto
    with eq show "?I (ts[i := pc], s')" by blast
  qed (simp add: new_cancellation_state_def)
  then show ?thesis by simp
qed

lemma cancelled_at_end:
  assumes "cancel_reach w0 cs (ts, s)" "\<forall>c \<in> set cs. is_call c" "\<forall>c \<in> set ts. returned c"
  shows "cancelled s \<longleftrightarrow> Cancel_call \<in> set cs"
proof
  note m = cancels_reach [OF assms(1)]
  show "Cancel_call \<in> set cs" if "cancelled s"
  proof -
    from that m obtain c where "c \<in> set cs" "cancels c" by auto
    with assms(2) show ?thesis by (cases c) auto
  qed
  show "cancelled s" if "Cancel_call \<in> set cs"
  proof -
    from that have "True \<in> set (map cancels cs)" by (force simp: image_iff)
    with m obtain c where c: "c \<in> set ts" "cancels c" by (metis (mono_tags, lifting) imageE image_set)
    with assms(3) have "c = Cancel_done" by (cases c) auto
    with c swap_due_reach [OF assms(1,2)] show ?thesis by (auto simp: swap_due_def before_cancel_def)
  qed
qed

lemma held_returned: "\<forall>c \<in> set ts. returned c \<Longrightarrow> sum_list (map held ts) = {#}"
proof (induction ts)
  case (Cons c ts)
  then show ?case by (cases c) auto
qed simp

lemma to_wait_returned: "\<forall>c \<in> set ts. returned c \<Longrightarrow> sum_list (map to_wait ts) = {#}"
proof (induction ts)
  case (Cons c ts)
  then show ?case by (cases c) auto
qed simp

lemma returned_idle: "returned c \<Longrightarrow> \<not> will_swap c \<and> \<not> will_wake c"
  by (cases c) auto

section \<open>Properties\<close>

text \<open>
  C7. Every callback has one fate: in any interleaving of any calls of \<open>cancel\<close>,
  \<open>register_callback\<close> and \<open>unregister_callback\<close>, once all have returned: if there was a
  \<open>cancel\<close>, the callbacks registered are those called together with those erased, each once,
  and none is left; if there was none, no callback was called, and those registered are still
  there or were erased.  An erased callback was registered under the id with which some
  \<open>unregister_callback\<close> was called, and no two registrations were given the same id.
  Callbacks do not call back into the state here (\<open>CancelNested\<close>).
\<close>

theorem callbacks_called_once:
  assumes "cancel_reach w0 cs (ts, s)" "\<forall>c \<in> set cs. is_call c" "\<forall>c \<in> set ts. returned c"
    and "length cs < 2 ^ 64 - 1"
  shows "(if Cancel_call \<in> set cs
          then mset (registrations cs) = mset (invoked s) + mset (map snd (removed s)) \<and> callbacks s = []
          else invoked s = [] \<and> mset (registrations cs) = mset (callbacks s) + mset (map snd (removed s)))
    \<and> (\<forall>(cid, cb) \<in> set (removed s). cid \<noteq> 0 \<and> Reg_done cid cb \<in> set ts \<and> Unreg_done cid \<in> set ts)
    \<and> ids_unique ts"
proof -
  have "settled s = mset (registrations cs)"
    using books_reach [OF assms(1)] held_returned [OF assms(3)] held_registrations [OF assms(2)] by simp
  moreover have "cancelled s \<Longrightarrow> callbacks s = []" "\<not> cancelled s \<Longrightarrow> invoked s = []"
    using swap_due_reach [OF assms(1,2)] assms(3) returned_idle by (auto simp: swap_due_def)
  moreover have "ids_unique ts" "pairs_known (ts, s)"
    using ids_good_reach [OF assms(1,2,4)] by (simp_all add: ids_good_def)
  ultimately show ?thesis
    using cancelled_at_end [OF assms(1-3)] by (auto simp: settled_def pairs_known_def)
qed

text \<open>
  C28. No coroutine waits for a cancellation in vain: in any interleaving of coroutines that
  suspend on the cancellation with any other calls, once all have returned, every one of
  them has been scheduled exactly once if there was a \<open>cancel\<close>, whether it came before,
  during or after their suspending, and otherwise none has.
\<close>

theorem cancel_wakes_every_waiter:
  assumes "cancel_reach w0 cs (ts, s)" "\<forall>c \<in> set cs. is_call c" "\<forall>c \<in> set ts. returned c"
    and "good_awaits (sum_list (map to_wait cs))"
  shows "if Cancel_call \<in> set cs
    then cancel_waiters s = 0
      \<and> mset (sched (cancel_mem s)) = mset (sched w0) + image_mset snd (sum_list (map to_wait cs))
    else sched (cancel_mem s) = sched w0"
proof -
  obtain qs D where q: "chain (wnodes (cancel_mem s)) (cancel_waiters s) qs"
    "on_list (cancel_mem s) qs + sum_list (map to_wait ts) + D = sum_list (map to_wait cs)"
    "mset (sched (cancel_mem s)) = mset (sched w0) + image_mset snd D"
    "cancelled s \<longrightarrow> qs \<noteq> [] \<longrightarrow> Bex (set ts) will_wake"
    "\<not> cancelled s \<longrightarrow> sched (cancel_mem s) = sched w0"
    using wait_books_reach [OF assms(1,2,4)] by (auto simp: wait_books_def)
  have "cancelled s \<Longrightarrow> qs = []" using q(4) assms(3) returned_idle by blast
  with q show ?thesis
    using cancelled_at_end [OF assms(1-3)] to_wait_returned [OF assms(3)] by (auto simp: on_list_def)
qed

text \<open>
  C29. Every call returns, with callbacks that return and do not call back into the state, and
  awaiters whose nodes and handles are not null and whose nodes are distinct: no interleaving
  of \<open>n\<close> calls has more than \<open>6 n\<close> steps, and one that cannot be continued has ended with all
  calls returned: the mutex does not deadlock and the walk over the waiter list ends.
\<close>

theorem cancel_calls_return:
  assumes "\<forall>c \<in> set cs. is_call c" "good_awaits (sum_list (map to_wait cs))"
    and "(cancel_sys_step ^^ n) (cs, new_cancellation_state w0) q"
  shows "n \<le> 6 * length cs \<and> ((\<nexists>q'. cancel_sys_step q q') \<longrightarrow> (\<forall>c \<in> set (fst q). returned c))"
proof -
  have run: "cancel_reach w0 cs q \<and> n + steps_left q \<le> 6 * length cs"
    using assms(3)
  proof (induction n arbitrary: q)
    case 0
    then show ?case using steps_left_bound [OF assms(1)] cancel_reach.start by auto
  next
    case (Suc n)
    then obtain r where r: "(cancel_sys_step ^^ n) (cs, new_cancellation_state w0) r"
      "cancel_sys_step r q" by auto
    have "steps_left q < steps_left r" using r(2) by cases (simp add: steps_left_step)
    with Suc.IH [OF r(1)] r(2) show ?case by (auto intro: cancel_reach.step)
  qed
  have "\<forall>c \<in> set (fst q). returned c" if stuck: "\<nexists>q'. cancel_sys_step q q'"
  proof
    fix c assume "c \<in> set (fst q)"
    then obtain i where i: "i < length (fst q)" "c = fst q ! i" by (auto simp: in_set_conv_nth)
    have "one_holder (fst q, snd q)" "wait_books w0 (sum_list (map to_wait cs)) (fst q, snd q)"
      using swap_due_reach [OF conjunct1 [OF run] assms(1)]
        wait_books_reach [OF conjunct1 [OF run] assms(1,2)] by simp_all
    from cancel_step_enabled [OF this i(1)] stuck i(2) show "returned c" by auto
  qed
  with run show ?thesis by simp
qed

section \<open>Witnesses\<close>

text \<open>A run by the numbers of the calls that step.\<close>

fun cancel_run :: "nat list \<Rightarrow> 'c cancel_sys \<Rightarrow> 'c cancel_sys option" where
  "cancel_run [] q = Some q"
| "cancel_run (i # is) (ts, s) =
     (if i < length ts then
        case cancel_step (ts ! i) s of
          Some (pc, s') \<Rightarrow> cancel_run is (ts[i := pc], s') | None \<Rightarrow> None
      else None)"

lemma cancel_run_reach:
  "cancel_reach w0 cs q \<Longrightarrow> cancel_run is q = Some q' \<Longrightarrow>
   cancel_reach w0 cs q'"
proof (induction "is" q rule: cancel_run.induct)
  case (2 i "is" ts s)
  then obtain pc s' where st: "i < length ts" "cancel_step (ts ! i) s = Some (pc, s')"
    "cancel_run is (ts[i := pc], s') = Some q'"
    by (auto split: if_splits option.splits)
  have "cancel_reach w0 cs (ts[i := pc], s')"
    by (rule cancel_reach.step [OF 2(2) cancel_sys_step.intros [OF st(1,2)]])
  from 2(1) [OF st(1,2) refl this st(3)] show ?case .
qed simp

lemma cancel_run_steps: "cancel_run is q = Some q' \<Longrightarrow> (cancel_sys_step ^^ length is) q q'"
proof (induction "is" q rule: cancel_run.induct)
  case (2 i "is" ts s)
  then obtain pc s' where st: "i < length ts" "cancel_step (ts ! i) s = Some (pc, s')"
    "cancel_run is (ts[i := pc], s') = Some q'"
    by (auto split: if_splits option.splits)
  have "(cancel_sys_step ^^ Suc (length is)) (ts, s) q'"
    by (rule relpowp_Suc_I2 [OF cancel_sys_step.intros [OF st(1,2)] "2.IH" [OF st(1,2) refl st(3)]])
  then show ?case by simp
qed simp

definition sample_calls :: "nat cancel_pc list" where
  "sample_calls = [Reg_call 7, Cancel_call, Await_call 16 5, Reg_call 8]"

definition sample_schedule :: "nat list" where
  "sample_schedule = [0, 0, 0, 2, 1, 1, 1, 1, 1, 3, 3, 3, 1, 2, 2]"

lemma sample_cancel:
  "\<exists>s. cancel_run sample_schedule (sample_calls, new_cancellation_state sample_mem)
     = Some ([Reg_done 1 7, Cancel_done, Await_done 16 5, Reg_done 0 8], s)
   \<and> invoked s = [7, 8] \<and> sched (cancel_mem s) = [5]"
  by (simp add: sample_schedule_def sample_calls_def new_cancellation_state_def sample_mem_def
      new_node_def swap_callbacks_def push_callback_def invoke_def cancel_add_def cancel_wake_def
      set_cancel_waiters_def add_waiter_def is_cancelled_def wake_all_def wake_walk.simps
      fire_node_def schedule_call_def)

lemma sample_calls_good:
  "\<forall>c \<in> set sample_calls. is_call c" "good_awaits (sum_list (map to_wait sample_calls))"
  "registrations sample_calls = [7, 8]" "length sample_calls = 4"
  by (simp_all add: sample_calls_def good_awaits_def registrations_def map_filter_simps)

text \<open>
  \<open>unregister_callback\<close> does not wait: called after \<open>cancel\<close> has taken the callbacks out, it
  returns at once, and the callback is called after it has returned.
\<close>

theorem unregistered_callback_called_late:
  "\<exists>s. cancel_reach w0 [Reg_call 7, Cancel_call, Unreg_call 1]
         ([Reg_done 1 7, Cancel_run [7], Unreg_done 1], s) \<and> invoked s = []
     \<and> (\<exists>s'. cancel_sys_step ([Reg_done 1 7, Cancel_run [7], Unreg_done 1], s)
           ([Reg_done 1 7, Cancel_run [], Unreg_done 1], s') \<and> invoked s' = [7::nat])"
proof -
  let ?q = "[Reg_done 1 7, Cancel_run [7], Unreg_done 1] :: nat cancel_pc list"
  obtain s where run: "cancel_run [0, 0, 0, 1, 1, 1, 2]
      ([Reg_call 7, Cancel_call, Unreg_call 1], new_cancellation_state w0) = Some (?q, s)" "invoked s = []"
    by (simp add: new_cancellation_state_def swap_callbacks_def push_callback_def)
  note reach = cancel_run_reach [OF cancel_reach.start run(1)]
  have "cancel_sys_step (?q, s) (?q[1 := Cancel_run []], invoke 7 s)"
    by (rule cancel_sys_step.intros) simp_all
  with reach run(2) show ?thesis
    by (intro exI [of _ s] exI [of _ "invoke 7 s"] conjI) (simp_all add: invoke_def)
qed

theorem callbacks_called_once_witness:
  "\<exists>s. cancel_reach sample_mem sample_calls ([Reg_done 1 7, Cancel_done, Await_done 16 5, Reg_done 0 8], s)
     \<and> mset (invoked s) + mset (map snd (removed s)) = {#7, 8#}"
proof -
  obtain s where run: "cancel_run sample_schedule (sample_calls, new_cancellation_state sample_mem)
     = Some ([Reg_done 1 7, Cancel_done, Await_done 16 5, Reg_done 0 8], s)"
    using sample_cancel by blast
  note reach = cancel_run_reach [OF cancel_reach.start run]
  from callbacks_called_once [OF reach sample_calls_good(1)] sample_calls_good(3,4)
  have "mset [7, 8] = mset (invoked s) + mset (map snd (removed s))"
    by (simp add: sample_calls_def)
  with reach show ?thesis by auto
qed

theorem cancel_wakes_every_waiter_witness:
  "\<exists>s. cancel_reach sample_mem sample_calls ([Reg_done 1 7, Cancel_done, Await_done 16 5, Reg_done 0 8], s)
     \<and> mset (sched (cancel_mem s)) = {#5#}"
proof -
  obtain s where run: "cancel_run sample_schedule (sample_calls, new_cancellation_state sample_mem)
     = Some ([Reg_done 1 7, Cancel_done, Await_done 16 5, Reg_done 0 8], s)"
    using sample_cancel by blast
  note reach = cancel_run_reach [OF cancel_reach.start run]
  from cancel_wakes_every_waiter [OF reach sample_calls_good(1) _ sample_calls_good(2)]
  have "mset (sched (cancel_mem s)) = {#5#}" by (simp add: sample_calls_def sample_mem_def)
  with reach show ?thesis by auto
qed

text \<open>The run of fifteen steps to its end, where nobody can step and all have returned.\<close>

theorem cancel_calls_return_witness:
  "\<exists>ts s. (cancel_sys_step ^^ 15) (sample_calls, new_cancellation_state sample_mem) (ts, s)
     \<and> (\<nexists>q'. cancel_sys_step (ts, s) q') \<and> (\<forall>c \<in> set ts. returned c) \<and> 15 \<le> 6 * length sample_calls"
proof -
  let ?ts = "[Reg_done 1 7, Cancel_done, Await_done 16 5, Reg_done 0 8] :: nat cancel_pc list"
  obtain s where run: "cancel_run sample_schedule (sample_calls, new_cancellation_state sample_mem) = Some (?ts, s)"
    using sample_cancel by blast
  have "length sample_schedule = 15" by (simp add: sample_schedule_def)
  then have steps: "(cancel_sys_step ^^ 15) (sample_calls, new_cancellation_state sample_mem) (?ts, s)"
    using cancel_run_steps [OF run] by metis
  have stuck: "\<nexists>q'. cancel_sys_step (?ts, s) q'"
    by (auto elim!: cancel_sys_stepE simp: less_Suc_eq numeral_eq_Suc)
  note returns = cancel_calls_return [OF sample_calls_good(1,2) steps]
  have "\<forall>c \<in> set (fst (?ts, s)). returned c" by (rule mp [OF conjunct2 [OF returns] stuck])
  then have "\<forall>c \<in> set ?ts. returned c" by (simp only: fst_conv)
  with steps stuck conjunct1 [OF returns] show ?thesis
    by (intro exI [of _ ?ts] exI [of _ s] conjI)
qed

end
