(* ===== verification/CancelNested.thy ===== *)
theory CancelNested
  imports CancelState
begin

text \<open>
  Callbacks that call back (\<open>include/cancellation.hpp\<close>).  \<open>CancelState\<close> records that a callback
  is called; here a callback makes calls of its own on the same state.  It runs in the thread
  that calls it: in \<open>cancel\<close> without the mutex, in \<open>register_callback\<close>, on a state that is
  cancelled already, while that call holds the mutex.
\<close>

section \<open>Threads with a stack of calls\<close>

text \<open>
  A thread is its calls that have not returned, innermost first; each comes with the calls that
  the callback it is about to finish still has to make.  \<open>body cb\<close>: the calls the callback \<open>cb\<close>
  makes, in their order.
\<close>

type_synonym 'c frame = "'c cancel_pc \<times> 'c cancel_pc list"
type_synonym 'c nested_sys = "'c frame list list \<times> 'c cancellation_state"

fun to_make :: "('c \<Rightarrow> 'c cancel_pc list) \<Rightarrow> 'c cancel_pc \<Rightarrow> 'c cancel_pc list" where
  "to_make body (Cancel_run (cb # cbs)) = body cb"
| "to_make body (Reg_fire_in cb) = body cb"
| "to_make body pc = []"

fun nested_step ::
  "('c \<Rightarrow> 'c cancel_pc list) \<Rightarrow> 'c frame list \<Rightarrow> 'c cancellation_state \<Rightarrow>
   ('c frame list \<times> 'c cancellation_state) option" where
  "nested_step body [] s = None"
| "nested_step body ((pc, c # cs) # fs) s = Some ((c, to_make body c) # (pc, cs) # fs, s)"
| "nested_step body ((pc, []) # fs) s =
     (case cancel_step pc s of
        Some (pc', s') \<Rightarrow> Some ((pc', to_make body pc') # fs, s')
      | None \<Rightarrow> if returned pc \<and> fs \<noteq> [] then Some (fs, s) else None)"

inductive nested_sys_step :: "('c \<Rightarrow> 'c cancel_pc list) \<Rightarrow> 'c nested_sys \<Rightarrow> 'c nested_sys \<Rightarrow> bool"
  for body where
  "i < length ts \<Longrightarrow> nested_step body (ts ! i) s = Some (fs, s') \<Longrightarrow>
   nested_sys_step body (ts, s) (ts[i := fs], s')"

text \<open>The threads begin with one call each.\<close>

definition nested_start :: "async_mem \<Rightarrow> 'c cancel_pc list \<Rightarrow> 'c nested_sys" where
  "nested_start w0 cs = (map (\<lambda>c. [(c, [])]) cs, new_cancellation_state w0)"

section \<open>The mutex and the flag\<close>

fun running :: "'c cancel_pc \<Rightarrow> bool" where
  "running (Cancel_run cbs) \<longleftrightarrow> True"
| "running (Reg_fire_in cb) \<longleftrightarrow> True"
| "running pc \<longleftrightarrow> False"

fun past_flag :: "'c cancel_pc \<Rightarrow> bool" where
  "past_flag Cancel_lock \<longleftrightarrow> True"
| "past_flag Cancel_in \<longleftrightarrow> True"
| "past_flag pc \<longleftrightarrow> running pc"

definition holders :: "'c frame list \<Rightarrow> nat" where
  "holders fs = length (filter in_lock (map fst fs))"

text \<open>
  A thread is in order: the calls below the innermost one are running a callback, calls are
  pending only there, those that are pending are calls, and callbacks run only when the flag
  is set.
\<close>

definition frame_ok :: "'c cancellation_state \<Rightarrow> 'c frame \<Rightarrow> bool" where
  "frame_ok s f \<longleftrightarrow> (snd f \<noteq> [] \<longrightarrow> running (fst f)) \<and> (\<forall>c \<in> set (snd f). is_call c)
     \<and> (past_flag (fst f) \<longrightarrow> cancelled s)"

definition stack_ok :: "'c cancellation_state \<Rightarrow> 'c frame list \<Rightarrow> bool" where
  "stack_ok s fs \<longleftrightarrow> fs \<noteq> [] \<and> (\<forall>f \<in> set fs. frame_ok s f) \<and> (\<forall>f \<in> set (tl fs). running (fst f))"

definition nested_ok :: "'c nested_sys \<Rightarrow> bool" where
  "nested_ok = (\<lambda>(ts, s). sum_list (map holders ts) = (if locked s then 1 else 0) \<and> (\<forall>fs \<in> set ts. stack_ok s fs))"

definition calls_only :: "('c \<Rightarrow> 'c cancel_pc list) \<Rightarrow> bool" where
  "calls_only body \<longleftrightarrow> (\<forall>cb. \<forall>c \<in> set (body cb). is_call c)"

lemma to_make_call: "is_call c \<Longrightarrow> to_make body c = []"
  by (cases c) auto

lemma to_make_ok: "calls_only body \<Longrightarrow> to_make body pc \<noteq> [] \<longrightarrow> running pc"
  "calls_only body \<Longrightarrow> c \<in> set (to_make body pc) \<Longrightarrow> is_call c"
  by (cases "(body, pc)" rule: to_make.cases; auto simp: calls_only_def)+

lemma cancel_step_flag:
  assumes "cancel_step pc s = Some (pc', s')" "past_flag pc \<Longrightarrow> cancelled s"
  shows "cancelled s \<Longrightarrow> cancelled s'" "past_flag pc' \<Longrightarrow> cancelled s'"
  using assms
  by (cases "(pc, s)" rule: cancel_step.cases;
      auto simp: swap_callbacks_def push_callback_def cancel_wake_def split: if_splits)+

lemma stack_ok_flag: "stack_ok s fs \<Longrightarrow> (cancelled s \<Longrightarrow> cancelled s') \<Longrightarrow> stack_ok s' fs"
  by (auto simp: stack_ok_def frame_ok_def)

lemma holder_in_sum: "fs \<in> set ts \<Longrightarrow> holders fs \<le> sum_list (map holders ts)"
  by (induction ts) auto

text \<open>One step of one thread: what becomes of the mutex, of the flag, and of the thread.\<close>

lemma nested_step_ok:
  assumes "calls_only body" "nested_step body fs s = Some (fs', s')" "stack_ok s fs"
    and "0 < holders fs \<Longrightarrow> locked s" "holders fs \<le> 1"
  shows "stack_ok s' fs' \<and> (cancelled s \<longrightarrow> cancelled s')
    \<and> (if locked s' then 1 else 0) + holders fs = (if locked s then 1 else 0) + holders fs'"
  using assms(2)
proof (cases rule: nested_step.elims)
  case (2 pc c cs fs1)
  have "is_call c" "frame_ok s (pc, c # cs)" using assms(3) 2(1) by (auto simp: stack_ok_def frame_ok_def)
  moreover from this have "frame_ok s (pc, cs)" "running pc" by (simp_all add: frame_ok_def)
  moreover have "frame_ok s (c, [])" "\<not> in_lock c" using \<open>is_call c\<close> by (cases c; simp add: frame_ok_def)+
  ultimately show ?thesis
    using 2 assms(3) to_make_call [of c body] by (auto simp: stack_ok_def holders_def)
next
  case (3 pc fs1)
  show ?thesis
  proof (cases "cancel_step pc s")
    case None
    then have "returned pc" "fs1 \<noteq> []" "fs' = fs1" "s' = s" using 3 by (auto split: if_splits)
    moreover from this have "\<not> in_lock pc" by (cases pc) auto
    ultimately show ?thesis using 3(1) assms(3) by (auto simp: stack_ok_def holders_def dest: list.set_sel(2))
  next
    case (Some r)
    then obtain pc' where st: "cancel_step pc s = Some (pc', s')" "fs' = (pc', to_make body pc') # fs1"
      using 3 by (cases r) auto
    have f: "past_flag pc \<Longrightarrow> cancelled s" using 3(1) assms(3) by (auto simp: stack_ok_def frame_ok_def)
    have lk: "in_lock pc \<Longrightarrow> locked s" using assms(4) 3(1) by (simp add: holders_def)
    have alone: "in_lock pc \<Longrightarrow> holders fs1 = 0" using assms(5) 3(1) by (simp add: holders_def)
    note flag = cancel_step_flag [OF st(1) f] and lock = cancel_step_lock [OF st(1) lk]
    have "stack_ok s' fs1 \<or> fs1 = []" using 3(1) assms(3) flag(1) by (auto simp: stack_ok_def frame_ok_def dest: list.set_sel(2))
    moreover have "frame_ok s' (pc', to_make body pc')"
      using to_make_ok [OF assms(1)] flag(2) by (auto simp: frame_ok_def)
    moreover have "\<forall>f \<in> set fs1. running (fst f)" using 3(1) assms(3) by (simp add: stack_ok_def)
    ultimately have "stack_ok s' fs'" using st(2) by (auto simp: stack_ok_def)
    moreover have "(if locked s' then 1 else 0) + holders fs = (if locked s then 1 else 0) + holders fs'"
      using lock lk st(2) 3(1) by (auto simp: holders_def)
    ultimately show ?thesis using flag(1) by simp
  qed
qed simp

lemma nested_ok_step:
  assumes "calls_only body" "nested_sys_step body z z'" "nested_ok z"
  shows "nested_ok z'"
  using assms(2)
proof cases
  case (1 i ts s fs s')
  have here: "ts ! i \<in> set ts" using 1(3) by simp
  have ok: "sum_list (map holders ts) = (if locked s then 1 else 0)" "\<forall>fs \<in> set ts. stack_ok s fs"
    using assms(3) by (simp_all add: nested_ok_def 1(1))
  have "0 < holders (ts ! i) \<Longrightarrow> locked s" "holders (ts ! i) \<le> 1"
    using holder_in_sum [OF here] ok(1) by (auto split: if_splits)
  note st = nested_step_ok [OF assms(1) 1(4) bspec [OF ok(2) here] this]
  have "sum_list (map holders (ts[i := fs])) = (if locked s' then 1 else 0)"
    using sum_list_map_update [OF 1(3), of holders fs] st ok(1) by simp
  moreover have "\<forall>gs \<in> set (ts[i := fs]). stack_ok s' gs"
    using st ok(2) stack_ok_flag [of s _ s'] set_update_subset_insert [of ts i fs] by blast
  ultimately show ?thesis by (simp add: nested_ok_def 1(2))
qed

lemma nested_ok_start: "\<forall>c \<in> set cs. is_call c \<Longrightarrow> nested_ok (nested_start w0 cs)"
proof -
  assume c: "\<forall>c \<in> set cs. is_call c"
  have "\<not> past_flag c" if "is_call c" for c :: "'a cancel_pc" using that by (cases c) auto
  with c is_call_free have "sum_list (map holders (map (\<lambda>c. [(c, [])]) cs)) = 0"
    "\<forall>fs \<in> set (map (\<lambda>c. [(c, [])]) cs). stack_ok (new_cancellation_state w0) fs"
    by (auto simp: holders_def stack_ok_def frame_ok_def)
  then show ?thesis by (simp add: nested_ok_def nested_start_def new_cancellation_state_def)
qed

lemma nested_ok_reach:
  assumes "calls_only body" "\<forall>c \<in> set cs. is_call c" "(nested_sys_step body)\<^sup>*\<^sup>* (nested_start w0 cs) z"
  shows "nested_ok z"
  using assms(3)
  by (induction rule: rtranclp_induct) (auto intro: nested_ok_start [OF assms(2)] nested_ok_step [OF assms(1)])

section \<open>Properties\<close>

text \<open>
  A callback may call \<open>cancel\<close> and \<open>unregister_callback\<close>: callbacks run only when the state is
  cancelled, and then these calls return at once, without the mutex.
\<close>

theorem callback_may_cancel_and_unregister:
  assumes "calls_only body" "\<forall>c \<in> set cs. is_call c" "(nested_sys_step body)\<^sup>*\<^sup>* (nested_start w0 cs) (ts, s)"
    and "i < length ts" "ts ! i = (c, []) # f # fs" "c = Cancel_call \<or> (\<exists>cid. c = Unreg_call cid)"
  shows "\<exists>d. returned d \<and> cancel_step c s = Some (d, s)"
proof -
  have "stack_ok s (ts ! i)"
    using nested_ok_reach [OF assms(1-3)] nth_mem [OF assms(4)] by (simp add: nested_ok_def)
  then have "running (fst f)" "frame_ok s f" using assms(5) by (simp_all add: stack_ok_def)
  then have "cancelled s" by (cases "fst f") (auto simp: frame_ok_def)
  with assms(6) show ?thesis by auto
qed

text \<open>
  A callback that \<open>register_callback\<close> calls itself holds up its own thread for ever if it
  registers another one: the inner call waits for the mutex that the outer one holds.
\<close>

lemma registers_inside_stuck:
  assumes "calls_only body" "nested_ok (ts, s)" "i < length ts"
    and "ts ! i = (Reg_call x, []) # (Reg_fire_in cb, cs) # fs"
    and "(nested_sys_step body)\<^sup>*\<^sup>* (ts, s) z"
  shows "i < length (fst z) \<and> fst z ! i = (Reg_call x, []) # (Reg_fire_in cb, cs) # fs"
proof -
  have "nested_ok z \<and> i < length (fst z) \<and> fst z ! i = (Reg_call x, []) # (Reg_fire_in cb, cs) # fs"
    using assms(5)
  proof (induction rule: rtranclp_induct)
    case (step z z')
    from step.hyps(2) show ?case
    proof cases
      case (1 j us t gs t')
      have I: "nested_ok (us, t)" "i < length us" "us ! i = (Reg_call x, []) # (Reg_fire_in cb, cs) # fs"
        using step.IH by (simp_all add: 1(1))
      have "holders (us ! i) \<le> sum_list (map holders us)" using holder_in_sum nth_mem [OF I(2)] by blast
      then have "locked t" using I(1,3) by (auto simp: nested_ok_def holders_def split: if_splits)
      then have "nested_step body (us ! i) t = None" by (simp add: I(3))
      with 1(4) have "j \<noteq> i" by auto
      then show ?thesis using nested_ok_step [OF assms(1) step.hyps(2)] step.IH I by (simp add: 1(1,2))
    qed
  qed (use assms(2-4) in simp)
  then show ?thesis by simp
qed

lemma nested_go:
  assumes "(nested_sys_step body)\<^sup>*\<^sup>* z (ts, s)" "i < length ts" "nested_step body (ts ! i) s = Some (fs, s')"
    "ts' = ts[i := fs]"
  shows "(nested_sys_step body)\<^sup>*\<^sup>* z (ts', s')"
  using assms(1) nested_sys_step.intros [OF assms(2,3)] assms(4) by (simp add: rtranclp.rtrancl_into_rtrancl)

theorem registering_callback_deadlocks:
  assumes "calls_only body" "body cb = Reg_call x # cs"
  shows "\<exists>ts s. (nested_sys_step body)\<^sup>*\<^sup>* (nested_start w0 [Cancel_call, Reg_call cb]) (ts, s)
    \<and> (\<forall>z. (nested_sys_step body)\<^sup>*\<^sup>* (ts, s) z \<longrightarrow> (\<exists>fs. fst z ! 1 = (Reg_call x, []) # (Reg_fire_in cb, cs) # fs))"
proof -
  let ?s0 = "new_cancellation_state w0"
  let ?s1 = "?s0\<lparr>cancelled := True\<rparr>" let ?s2 = "?s1\<lparr>locked := True\<rparr>"
  let ?z = "nested_start w0 [Cancel_call, Reg_call cb]"
  have "(nested_sys_step body)\<^sup>*\<^sup>* ?z ([[(Cancel_call, [])], [(Reg_call cb, [])]], ?s0)" by (simp add: nested_start_def)
  then have "(nested_sys_step body)\<^sup>*\<^sup>* ?z ([[(Cancel_lock, [])], [(Reg_call cb, [])]], ?s1)"
    by (rule nested_go [where i = 0]) (auto simp: new_cancellation_state_def)
  then have "(nested_sys_step body)\<^sup>*\<^sup>* ?z ([[(Cancel_lock, [])], [(Reg_in cb, [])]], ?s2)"
    by (rule nested_go [where i = 1]) (auto simp: new_cancellation_state_def)
  then have "(nested_sys_step body)\<^sup>*\<^sup>* ?z ([[(Cancel_lock, [])], [(Reg_fire_in cb, Reg_call x # cs)]], ?s2)"
    by (rule nested_go [where i = 1]) (auto simp: assms(2))
  then have r: "(nested_sys_step body)\<^sup>*\<^sup>* ?z ([[(Cancel_lock, [])], [(Reg_call x, []), (Reg_fire_in cb, cs)]], ?s2)"
    by (rule nested_go [where i = 1]) auto
  have "nested_ok ([[(Cancel_lock, [])], [(Reg_call x, []), (Reg_fire_in cb, cs)]], ?s2)"
    by (rule nested_ok_reach [OF assms(1) _ r]) simp
  from registers_inside_stuck [OF assms(1) this, of 1] r show ?thesis by fastforce
qed

section \<open>Witnesses\<close>

definition sample_body :: "nat \<Rightarrow> nat cancel_pc list" where
  "sample_body cb = (if cb = 7 then [Reg_call 8] else [])"

theorem registering_callback_deadlocks_witness:
  "\<exists>ts s. (nested_sys_step sample_body)\<^sup>*\<^sup>* (nested_start sample_mem [Cancel_call, Reg_call 7]) (ts, s)
    \<and> (\<exists>fs. ts ! 1 = (Reg_call 8, []) # (Reg_fire_in 7, []) # fs)"
proof -
  have "calls_only sample_body" by (simp add: calls_only_def sample_body_def)
  from registering_callback_deadlocks [OF this, of 7 8 "[]" sample_mem] obtain ts s where
    r: "(nested_sys_step sample_body)\<^sup>*\<^sup>* (nested_start sample_mem [Cancel_call, Reg_call 7]) (ts, s)"
    and stays: "\<forall>z. (nested_sys_step sample_body)\<^sup>*\<^sup>* (ts, s) z \<longrightarrow>
      (\<exists>fs. fst z ! 1 = (Reg_call 8, []) # (Reg_fire_in 7, []) # fs)"
    by (auto simp: sample_body_def)
  from stays [rule_format, OF rtranclp.rtrancl_refl] r show ?thesis by auto
qed

end
