(* ===== verification/Sleep.thy ===== *)
theory Sleep
  imports CancelState TimerService
begin

text \<open>
  \<open>sleep\<close> and \<open>sleep_until\<close> (\<open>include/sleep.hpp\<close>): an awaiter whose coroutine is scheduled
  by the timer service at its deadline or by a cancellation, whichever closes the \<open>fired\<close>
  flag first.  The timer service and the cancellation are those of their own theories; here
  their calls are single steps, and the steps of the awaiter interleave with them.
\<close>

section \<open>The awaiter\<close>

datatype sleep_status = Completed | Cancelled

text \<open>\<open>za_token\<close> is the address of the token's state, 0 for a token without one.\<close>

record sleep_awaiter =
  za_deadline :: int
  za_token :: uintptr
  za_state :: sleep_waiter_state
  za_callback_id :: u64

type_synonym sleep_cancel = "sleep_waiter_state cancellation_state"

definition sleep_until :: "int \<Rightarrow> uintptr \<Rightarrow> uintptr \<Rightarrow> sleep_awaiter" where
  "sleep_until deadline tok g =
     \<lparr>za_deadline = deadline, za_token = tok, za_state = \<lparr>sw_handle = 0, sw_fired = g\<rparr>,
      za_callback_id = 0\<rparr>"

definition sleep_for :: "int \<Rightarrow> int \<Rightarrow> uintptr \<Rightarrow> uintptr \<Rightarrow> sleep_awaiter" where
  "sleep_for now duration tok g = sleep_until (now + duration) tok g"

definition token_cancelled :: "sleep_awaiter \<Rightarrow> sleep_cancel \<Rightarrow> bool" where
  "token_cancelled a cs \<longleftrightarrow> za_token a \<noteq> 0 \<and> is_cancelled cs"

definition sleep_ready :: "int \<Rightarrow> sleep_cancel \<Rightarrow> sleep_awaiter \<Rightarrow> bool" where
  "sleep_ready now cs a = (if token_cancelled a cs then True else za_deadline a \<le> now)"

text \<open>The callback given to the cancellation, and the calls made since \<open>cs\<close>.\<close>

definition sleep_callback :: "sleep_waiter_state \<Rightarrow> async_mem \<Rightarrow> async_mem" where
  "sleep_callback s w = fire_gate (sw_fired s) (sw_handle s) w"

definition call_new :: "sleep_cancel \<Rightarrow> sleep_cancel \<Rightarrow> async_mem \<Rightarrow> async_mem" where
  "call_new cs cs' w = fold sleep_callback (drop (length (invoked cs)) (invoked cs')) w"

definition sleep_status_of :: "sleep_awaiter \<Rightarrow> sleep_cancel \<Rightarrow> sleep_status" where
  "sleep_status_of a cs = (if token_cancelled a cs then Cancelled else Completed)"

definition sleep_unregister :: "sleep_awaiter \<Rightarrow> sleep_cancel \<Rightarrow> sleep_cancel" where
  "sleep_unregister a cs =
     (if za_token a \<noteq> 0 \<and> za_callback_id a \<noteq> 0 then unregister_callback (za_callback_id a) cs else cs)"

section \<open>The awaiter among the timer and the cancellation\<close>

text \<open>
  \<open>Z_arm\<close> to \<open>Z_id\<close> are the statements of \<open>suspend_impl\<close>: they run on while the coroutine may
  already have been scheduled and resumed on another thread (\<open>z_resume\<close>).
\<close>

datatype sleep_pc = Z_call | Z_ready | Z_arm | Z_add | Z_reg | Z_id u64 | Z_done

datatype resume_pc = Z_none | Z_unreg | Z_status | Z_ret sleep_status

record sleep_sys =
  z_now :: int
  z_svc :: timer_service
  z_stopped :: bool
  z_cancel :: sleep_cancel
  z_mem :: async_mem
  z_self :: coro
  z_awaiter :: sleep_awaiter
  z_pc :: sleep_pc
  z_resume :: resume_pc

definition set_fired :: "uintptr \<Rightarrow> bool \<Rightarrow> async_mem \<Rightarrow> async_mem" where
  "set_fired g b w = w\<lparr>gates := (gates w)(g := b)\<rparr>"

text \<open>The statements of \<open>await_ready\<close> and \<open>suspend_impl\<close>.\<close>

fun sleep_step :: "sleep_pc \<Rightarrow> sleep_sys \<Rightarrow> sleep_sys option" where
  "sleep_step Z_call z =
     Some (if sleep_ready (z_now z) (z_cancel z) (z_awaiter z)
           then z\<lparr>z_pc := Z_ready, z_resume := Z_unreg\<rparr> else z\<lparr>z_pc := Z_arm\<rparr>)"
| "sleep_step Z_arm z =
     Some (z\<lparr>z_pc := Z_add,
        z_awaiter := (z_awaiter z)\<lparr>za_state := (za_state (z_awaiter z))\<lparr>sw_handle := z_self z\<rparr>\<rparr>,
        z_mem := set_fired (sw_fired (za_state (z_awaiter z))) False (z_mem z)\<rparr>)"
| "sleep_step Z_add z =
     Some (z\<lparr>z_pc := (if za_token (z_awaiter z) \<noteq> 0 then Z_reg else Z_done),
        z_svc := add_timer_shared (za_deadline (z_awaiter z)) (za_token (z_awaiter z)) (za_state (z_awaiter z)) (z_svc z)\<rparr>)"
| "sleep_step Z_reg z =
     (case register_callback (za_state (z_awaiter z)) (z_cancel z) of (cid, cs) \<Rightarrow>
        Some (z\<lparr>z_pc := Z_id cid, z_cancel := cs, z_mem := call_new (z_cancel z) cs (z_mem z)\<rparr>))"
| "sleep_step (Z_id cid) z =
     Some (z\<lparr>z_pc := Z_done, z_awaiter := (z_awaiter z)\<lparr>za_callback_id := cid\<rparr>\<rparr>)"
| "sleep_step Z_ready z = None"
| "sleep_step Z_done z = None"

text \<open>The statements of \<open>resume_impl\<close>; they start when the coroutine was scheduled.\<close>

fun sleep_resume_step :: "resume_pc \<Rightarrow> sleep_sys \<Rightarrow> sleep_sys option" where
  "sleep_resume_step Z_none z =
     (if z_self z \<in> set (sched (z_mem z))
      then Some (z\<lparr>z_resume := Z_unreg\<rparr>) else None)"
| "sleep_resume_step Z_unreg z =
     Some (z\<lparr>z_cancel := sleep_unregister (z_awaiter z) (z_cancel z), z_resume := Z_status\<rparr>)"
| "sleep_resume_step Z_status z =
     Some (z\<lparr>z_resume := Z_ret (sleep_status_of (z_awaiter z) (z_cancel z))\<rparr>)"
| "sleep_resume_step (Z_ret st) z = None"

text \<open>
  The others add timers and register callbacks for other coroutines and flags, unregister
  callbacks of their own, cancel, and shut the timer service down; the timer thread fires
  what is due.
\<close>

definition of_others :: "sleep_sys \<Rightarrow> coro \<times> uintptr \<Rightarrow> bool" where
  "of_others z v \<longleftrightarrow> fst v \<noteq> z_self z \<and> snd v \<noteq> sw_fired (za_state (z_awaiter z))"

inductive sleep_sys_step :: "sleep_sys \<Rightarrow> sleep_sys \<Rightarrow> bool" where
  suspend: "sleep_step (z_pc z) z = Some z' \<Longrightarrow> sleep_sys_step z z'"
| resume: "sleep_resume_step (z_resume z) z = Some z' \<Longrightarrow> sleep_sys_step z z'"
| tick: "z_now z \<le> t \<Longrightarrow> sleep_sys_step z (z\<lparr>z_now := t\<rparr>)"
| fire: "run_round (z_now z) (z_svc z) = (Fire e, ts) \<Longrightarrow>
    sleep_sys_step z (z\<lparr>z_svc := ts, z_mem := fire_entry e (z_mem z)\<rparr>)"
| stop: "fire_remaining (z_svc z) (z_mem z) = (ts, w) \<Longrightarrow>
    sleep_sys_step z (z\<lparr>z_svc := ts\<lparr>t_running := False\<rparr>, z_mem := w, z_stopped := True\<rparr>)"
| cancel: "cancel (z_cancel z) = Some cs \<Longrightarrow>
    sleep_sys_step z (z\<lparr>z_cancel := cs, z_mem := call_new (z_cancel z) cs (z_mem z)\<rparr>)"
| other_add: "of_others z (view_of e) \<Longrightarrow>
    sleep_sys_step z (z\<lparr>z_svc := push_timer e (z_svc z)\<rparr>)"
| other_register: "of_others z (sw_handle c, sw_fired c) \<Longrightarrow>
    register_callback c (z_cancel z) = (cid, cs) \<Longrightarrow>
    sleep_sys_step z (z\<lparr>z_cancel := cs, z_mem := call_new (z_cancel z) cs (z_mem z)\<rparr>)"
| other_unregister: "(cid, za_state (z_awaiter z)) \<notin> cb_pairs (z_cancel z) \<Longrightarrow>
    sleep_sys_step z (z\<lparr>z_cancel := unregister_callback cid (z_cancel z)\<rparr>)"

definition sleep_init :: "int \<Rightarrow> async_mem \<Rightarrow> async_mem \<Rightarrow> coro \<Rightarrow> sleep_awaiter \<Rightarrow> sleep_sys" where
  "sleep_init now w0 cw h a = \<lparr>z_now = now, z_svc = new_timer_service, z_stopped = False,
     z_cancel = new_cancellation_state cw, z_mem = w0, z_self = h, z_awaiter = a, z_pc = Z_call, z_resume = Z_none\<rparr>"

inductive sleep_reach :: "sleep_sys \<Rightarrow> sleep_sys \<Rightarrow> bool" for z0 where
  start: "sleep_reach z0 z0"
| step: "sleep_reach z0 z \<Longrightarrow> sleep_sys_step z z' \<Longrightarrow> sleep_reach z0 z'"

section \<open>What firing does to one coroutine and its flag\<close>

abbreviation count_sched :: "coro \<Rightarrow> async_mem \<Rightarrow> nat" where
  "count_sched h w \<equiv> count_list (sched w) h"

text \<open>A view is the pair of the coroutine and the flag of one timer or callback.\<close>

definition tidy :: "coro \<Rightarrow> uintptr \<Rightarrow> coro \<times> uintptr \<Rightarrow> bool" where
  "tidy h g v \<longleftrightarrow> v = (h, g) \<or> fst v \<noteq> h \<and> snd v \<noteq> g"

lemma fire_entry_gate:
  assumes "tidy h g (view_of e)" "h \<noteq> 0" "g \<noteq> 0"
  shows "credit g h (fire_entry e w) = credit g h w
    \<and> gates (fire_entry e w) g = (gates w g \<or> view_of e = (h, g))"
proof -
  obtain h' g' where v: "view_of e = (h', g')" by fastforce
  then have "g' = g \<longleftrightarrow> h' = h" using assms(1) by (auto simp: tidy_def)
  with v assms show ?thesis by (auto simp: fire_entry_def credit_fire_gate)
qed

lemma fire_entries_gate:
  assumes "\<forall>e \<in> set es. tidy h g (view_of e)" "h \<noteq> 0" "g \<noteq> 0"
  shows "credit g h (fold fire_entry es w) = credit g h w
    \<and> gates (fold fire_entry es w) g = (gates w g \<or> (\<exists>e \<in> set es. view_of e = (h, g)))"
  using assms(1)
proof (induction es arbitrary: w)
  case (Cons e es)
  then show ?case using fire_entry_gate [OF _ assms(2,3), of e w] by auto
qed simp

lemma callbacks_gate:
  assumes "\<forall>c \<in> set cs. tidy h g (sw_handle c, sw_fired c)"
  shows "credit g h (fold sleep_callback cs w) = credit g h w
    \<and> gates (fold sleep_callback cs w) g = (gates w g \<or> (\<exists>c \<in> set cs. sw_handle c = h \<and> sw_fired c = g))"
  using assms
proof (induction cs arbitrary: w)
  case (Cons c cs)
  from Cons.prems have c: "sw_fired c = g \<longleftrightarrow> sw_handle c = h" by (auto simp: tidy_def)
  have "credit g h (sleep_callback c w) = credit g h w"
    "gates (sleep_callback c w) g = (gates w g \<or> sw_handle c = h \<and> sw_fired c = g)"
    using c by (auto simp: sleep_callback_def credit_fire_gate)
  with Cons show ?case by auto
qed simp

lemma count_of_credit: "int (count_sched h w) = credit g h w + (if gates w g then 1 else 0)"
  by (simp add: credit_def)

section \<open>The calls on the cancellation\<close>

lemma callbacks_pairs: "parallel cs \<Longrightarrow> set (callbacks cs) = snd ` cb_pairs cs"
  unfolding cb_pairs_def parallel_def by (metis map_snd_zip set_map)

lemma unregister_keeps_others:
  assumes "parallel cs" "c \<in> set (callbacks cs)" "(cid, c) \<notin> cb_pairs cs"
  shows "c \<in> set (callbacks (unregister_callback cid cs))"
proof (rule erase_from_cases [of cid 0 cs])
  fix k assume k: "k < length (callback_ids cs)" "callback_ids cs ! k = cid"
    and eq: "erase_from 0 cid cs = cs\<lparr>callbacks := erase_at k (callbacks cs),
       callback_ids := erase_at k (callback_ids cs), removed := (cid, callbacks cs ! k) # removed cs\<rparr>"
  have len: "k < length (callbacks cs)" using k(1) assms(1) by (simp add: parallel_def)
  have "(cid, callbacks cs ! k) \<in> cb_pairs cs"
    using k assms(1) by (auto simp: cb_pairs_def parallel_def in_set_zip)
  with assms(3) have "c \<noteq> callbacks cs ! k" by auto
  moreover have "c \<in># mset (callbacks cs)" using assms(2) by simp
  ultimately have "c \<in># mset (erase_at k (callbacks cs))" unfolding erase_at_mset [OF len] by simp
  with assms(2) show ?thesis by (simp add: unregister_callback_def eq)
qed (use assms(2) in \<open>simp add: unregister_callback_def\<close>)

section \<open>The invariant\<close>

fun unarmed :: "sleep_pc \<Rightarrow> bool" where
  "unarmed Z_call \<longleftrightarrow> True" | "unarmed Z_ready \<longleftrightarrow> True" | "unarmed Z_arm \<longleftrightarrow> True" | "unarmed _ \<longleftrightarrow> False"

fun timer_added :: "sleep_pc \<Rightarrow> bool" where
  "timer_added Z_reg \<longleftrightarrow> True" | "timer_added (Z_id cid) \<longleftrightarrow> True" | "timer_added Z_done \<longleftrightarrow> True"
| "timer_added _ \<longleftrightarrow> False"

fun registered :: "sleep_pc \<Rightarrow> bool" where
  "registered (Z_id cid) \<longleftrightarrow> True" | "registered Z_done \<longleftrightarrow> True" | "registered _ \<longleftrightarrow> False"

abbreviation flag :: "sleep_sys \<Rightarrow> uintptr" where "flag z \<equiv> sw_fired (za_state (z_awaiter z))"
abbreviation deadline :: "sleep_sys \<Rightarrow> int" where "deadline z \<equiv> za_deadline (z_awaiter z)"
abbreviation due :: "sleep_sys \<Rightarrow> bool" where "due z \<equiv> deadline z \<le> z_now z \<or> z_stopped z"

definition mine :: "sleep_sys \<Rightarrow> coro \<times> uintptr \<Rightarrow> bool" where
  "mine z v \<longleftrightarrow> v = (z_self z, flag z)"

text \<open>The timers and callbacks are this awaiter's, at the right time, or others'.\<close>

definition timers_tidy :: "sleep_sys \<Rightarrow> bool" where
  "timers_tidy z \<longleftrightarrow> (\<forall>e \<in> set (t_heap (z_svc z)). of_others z (view_of e)
     \<or> mine z (view_of e) \<and> te_deadline e = deadline z \<and> timer_added (z_pc z))"

definition callbacks_tidy :: "sleep_sys \<Rightarrow> bool" where
  "callbacks_tidy z \<longleftrightarrow> parallel (z_cancel z) \<and> (\<forall>c \<in> set (callbacks (z_cancel z)).
     of_others z (sw_handle c, sw_fired c) \<or> mine z (sw_handle c, sw_fired c)
       \<and> za_token (z_awaiter z) \<noteq> 0 \<and> registered (z_pc z))
     \<and> (cancelled (z_cancel z) \<longrightarrow> callbacks (z_cancel z) = [])"

definition sched_right :: "sleep_sys \<Rightarrow> bool" where
  "sched_right z \<longleftrightarrow> z_self z \<noteq> 0 \<and> flag z \<noteq> 0 \<and>
     (if unarmed (z_pc z) then count_sched (z_self z) (z_mem z) = 0 \<and> za_callback_id (z_awaiter z) = 0
      else sw_handle (za_state (z_awaiter z)) = z_self z \<and> credit (flag z) (z_self z) (z_mem z) = 0
        \<and> (z_pc z = Z_add \<longrightarrow> \<not> gates (z_mem z) (flag z))
        \<and> (z_pc z = Z_reg \<longrightarrow> za_token (z_awaiter z) \<noteq> 0))"

definition timer_kept :: "sleep_sys \<Rightarrow> bool" where
  "timer_kept z \<longleftrightarrow> (timer_added (z_pc z) \<longrightarrow> \<not> gates (z_mem z) (flag z) \<longrightarrow>
     (\<exists>e \<in> set (t_heap (z_svc z)). mine z (view_of e)))"

definition callback_kept :: "sleep_sys \<Rightarrow> bool" where
  "callback_kept z \<longleftrightarrow>
     (registered (z_pc z) \<longrightarrow> za_token (z_awaiter z) \<noteq> 0 \<longrightarrow> \<not> gates (z_mem z) (flag z) \<longrightarrow>
       \<not> cancelled (z_cancel z) \<and> za_state (z_awaiter z) \<in> set (callbacks (z_cancel z)))"

abbreviation reason :: "sleep_sys \<Rightarrow> bool" where
  "reason z \<equiv> due z \<or> token_cancelled (z_awaiter z) (z_cancel z)"

definition woken_right :: "sleep_sys \<Rightarrow> bool" where
  "woken_right z \<longleftrightarrow>
     (z_pc z = Z_ready \<or> \<not> unarmed (z_pc z) \<and> gates (z_mem z) (flag z) \<longrightarrow> reason z)"

definition resumed_right :: "sleep_sys \<Rightarrow> bool" where
  "resumed_right z \<longleftrightarrow>
     (z_resume z \<noteq> Z_none \<longrightarrow> z_pc z = Z_ready \<or> \<not> unarmed (z_pc z) \<and> gates (z_mem z) (flag z))
     \<and> (z_resume z = Z_ret Completed \<longrightarrow> due z)
     \<and> (z_resume z = Z_ret Cancelled \<longrightarrow> token_cancelled (z_awaiter z) (z_cancel z))"

definition sleep_inv :: "sleep_sys \<Rightarrow> bool" where
  "sleep_inv z \<longleftrightarrow> timers_tidy z \<and> callbacks_tidy z \<and> sched_right z \<and> timer_kept z \<and> callback_kept z
     \<and> woken_right z \<and> resumed_right z"

lemma tidy_of: "of_others z v \<or> mine z v \<Longrightarrow> tidy (z_self z) (flag z) v"
  by (auto simp: of_others_def mine_def tidy_def)

lemma others_not_mine: "of_others z v \<Longrightarrow> \<not> mine z v"
  by (auto simp: of_others_def mine_def)

text \<open>
  A step of the surroundings that closes gates: the flag is closed only when it was due or
  cancelled, and a timer or callback of this awaiter leaves its container only if the flag
  is closed.
\<close>

lemma sleep_inv_environment:
  assumes I: "sleep_inv z"
    and z': "z' = z\<lparr>z_svc := ts, z_cancel := cs, z_mem := w, z_now := t, z_stopped := b\<rparr>"
    and mono: "z_now z \<le> t" "z_stopped z \<Longrightarrow> b" "cancelled (z_cancel z) \<Longrightarrow> cancelled cs"
    and heap: "\<forall>e \<in> set (t_heap ts). e \<in> set (t_heap (z_svc z)) \<or> of_others z (view_of e)"
    and cbs: "\<forall>c \<in> set (callbacks cs). c \<in> set (callbacks (z_cancel z)) \<or> of_others z (sw_handle c, sw_fired c)"
    and par: "parallel cs" and gone: "cancelled cs \<Longrightarrow> callbacks cs = []"
    and cred: "credit (flag z) (z_self z) w = credit (flag z) (z_self z) (z_mem z)"
    and gat: "gates (z_mem z) (flag z) \<Longrightarrow> gates w (flag z)"
    and new: "gates w (flag z) \<Longrightarrow> \<not> gates (z_mem z) (flag z) \<Longrightarrow>
      timer_added (z_pc z) \<and> (due z' \<or> token_cancelled (z_awaiter z) cs)"
    and keep_e: "\<And>e. \<not> gates w (flag z) \<Longrightarrow> e \<in> set (t_heap (z_svc z)) \<Longrightarrow> mine z (view_of e) \<Longrightarrow> e \<in> set (t_heap ts)"
    and keep_c: "\<not> gates w (flag z) \<Longrightarrow> registered (z_pc z) \<Longrightarrow> za_token (z_awaiter z) \<noteq> 0 \<Longrightarrow>
      za_state (z_awaiter z) \<in> set (callbacks (z_cancel z)) \<Longrightarrow>
      \<not> cancelled (z_cancel z) \<Longrightarrow> \<not> cancelled cs \<and> za_state (z_awaiter z) \<in> set (callbacks cs)"
  shows "sleep_inv z'"
proof -
  have same: "mine z' = mine z" "of_others z' = of_others z" by (auto simp: mine_def of_others_def z' fun_eq_iff)
  from I have parts: "timers_tidy z" "callbacks_tidy z" "sched_right z" "timer_kept z" "callback_kept z"
    "woken_right z" "resumed_right z" by (simp_all add: sleep_inv_def)
  have tc: "token_cancelled (z_awaiter z) (z_cancel z) \<Longrightarrow> token_cancelled (z_awaiter z) cs"
    using mono(3) by (simp add: token_cancelled_def is_cancelled_def)
  have "\<not> gates w (flag z) \<Longrightarrow> \<not> gates (z_mem z) (flag z)" using gat by blast
  have "timers_tidy z'" using parts(1) heap unfolding timers_tidy_def same by (auto simp: z')
  moreover have "callbacks_tidy z'" using parts(2) cbs par gone unfolding callbacks_tidy_def same by (auto simp: z')
  moreover have "sched_right z'"
  proof (cases "unarmed (z_pc z)")
    case True
    then have "\<not> timer_added (z_pc z)" by (cases "z_pc z") auto
    then have "gates w (flag z) = gates (z_mem z) (flag z)" using gat new by blast
    then have "int (count_sched (z_self z) w) = int (count_sched (z_self z) (z_mem z))"
      using cred by (simp only: count_of_credit [of _ _ "flag z"])
    with True parts(3) show ?thesis by (simp add: sched_right_def z')
  next
    case False
    have "z_pc z = Z_add \<Longrightarrow> \<not> timer_added (z_pc z)" by simp
    with False parts(3) new cred show ?thesis by (auto simp: sched_right_def z')
  qed
  moreover have "timer_kept z'"
    using parts(4) gat keep_e unfolding timer_kept_def same by (simp add: z') blast
  moreover have "callback_kept z'"
    using parts(5) gat keep_c unfolding callback_kept_def by (simp add: z') blast
  moreover have "due z \<Longrightarrow> due z'" using mono(1,2) by (auto simp: z')
  moreover have "woken_right z'"
  proof (cases "z_pc z = Z_ready \<or> \<not> unarmed (z_pc z) \<and> gates (z_mem z) (flag z)")
    case True
    with parts(6) have "reason z" by (simp add: woken_right_def)
    with tc \<open>due z \<Longrightarrow> due z'\<close> show ?thesis by (auto simp: woken_right_def z')
  next
    case False
    with new show ?thesis by (auto simp: woken_right_def z')
  qed
  moreover have "resumed_right z'"
    using parts(7) gat tc \<open>due z \<Longrightarrow> due z'\<close> by (auto simp: resumed_right_def z')
  ultimately show ?thesis by (simp add: sleep_inv_def)
qed

lemma call_new_cancel:
  assumes "cancel cs = Some cs'"
  shows "call_new cs cs' w = (if cancelled cs then w else fold sleep_callback (callbacks cs) w)"
  using cancel_effect [OF assms] by (auto simp: call_new_def)

lemma call_new_register:
  assumes "register_callback c cs = (cid, cs')"
  shows "call_new cs cs' w = (if cancelled cs then sleep_callback c w else w)"
  using register_effect [OF assms] by (auto simp: call_new_def)

lemma step_fire:
  assumes I: "sleep_inv z" and run: "run_round (z_now z) (z_svc z) = (Fire e, ts)"
  shows "sleep_inv (z\<lparr>z_svc := ts, z_mem := fire_entry e (z_mem z)\<rparr>)"
proof (rule sleep_inv_environment [OF I, where ts = ts and w = "fire_entry e (z_mem z)"
      and cs = "z_cancel z" and t = "z_now z" and b = "z_stopped z"])
  from run_round_fires [OF run] have e: "te_deadline e \<le> z_now z"
    "mset (t_heap (z_svc z)) = add_mset e (mset (t_heap ts))" by simp_all
  have set: "set (t_heap (z_svc z)) = insert e (set (t_heap ts))"
    using arg_cong [OF e(2), of set_mset] by simp
  have td: "of_others z (view_of e) \<or> mine z (view_of e) \<and> te_deadline e = deadline z \<and> timer_added (z_pc z)"
    using I set by (simp add: sleep_inv_def timers_tidy_def)
  have nz: "z_self z \<noteq> 0" "flag z \<noteq> 0" using I by (simp_all add: sleep_inv_def sched_right_def)
  have "tidy (z_self z) (flag z) (view_of e)" using td tidy_of by blast
  note fire = fire_entry_gate [OF this nz, of "z_mem z"]
  show "\<forall>e \<in> set (t_heap ts). e \<in> set (t_heap (z_svc z)) \<or> of_others z (view_of e)" using set by simp
  show "credit (flag z) (z_self z) (fire_entry e (z_mem z)) = credit (flag z) (z_self z) (z_mem z)"
    "gates (z_mem z) (flag z) \<Longrightarrow> gates (fire_entry e (z_mem z)) (flag z)" using fire by simp_all
  show "timer_added (z_pc z) \<and> (due (z\<lparr>z_svc := ts, z_mem := fire_entry e (z_mem z)\<rparr>)
      \<or> token_cancelled (z_awaiter z) (z_cancel z))"
    if "gates (fire_entry e (z_mem z)) (flag z)" "\<not> gates (z_mem z) (flag z)"
    using that fire td e(1) others_not_mine [of z "view_of e"] by (auto simp: mine_def)
  show "f \<in> set (t_heap ts)"
    if "\<not> gates (fire_entry e (z_mem z)) (flag z)" "f \<in> set (t_heap (z_svc z))" "mine z (view_of f)" for f
    using that fire set by (auto simp: mine_def)
qed (use I in \<open>auto simp: sleep_inv_def callbacks_tidy_def\<close>)

lemma step_stop:
  assumes I: "sleep_inv z" and run: "fire_remaining (z_svc z) (z_mem z) = (ts, w)"
  shows "sleep_inv (z\<lparr>z_svc := ts\<lparr>t_running := False\<rparr>, z_mem := w, z_stopped := True\<rparr>)"
proof (rule sleep_inv_environment [OF I, where ts = "ts\<lparr>t_running := False\<rparr>" and w = w
      and cs = "z_cancel z" and t = "z_now z" and b = True])
  have td: "\<forall>e \<in> set (t_heap (z_svc z)). of_others z (view_of e) \<or> mine z (view_of e) \<and> timer_added (z_pc z)"
    using I by (auto simp: sleep_inv_def timers_tidy_def)
  have w: "w = fold fire_entry (t_heap (z_svc z)) (z_mem z)" "t_heap ts = []"
    using run by (auto simp: fire_remaining_def)
  have nz: "z_self z \<noteq> 0" "flag z \<noteq> 0" using I by (simp_all add: sleep_inv_def sched_right_def)
  have "\<forall>e \<in> set (t_heap (z_svc z)). tidy (z_self z) (flag z) (view_of e)" using td tidy_of by blast
  note fire = fire_entries_gate [OF this nz, of "z_mem z", folded w(1)]
  show "credit (flag z) (z_self z) w = credit (flag z) (z_self z) (z_mem z)"
    "gates (z_mem z) (flag z) \<Longrightarrow> gates w (flag z)" using fire by simp_all
  show "timer_added (z_pc z) \<and> (due (z\<lparr>z_svc := ts\<lparr>t_running := False\<rparr>, z_mem := w, z_stopped := True\<rparr>)
      \<or> token_cancelled (z_awaiter z) (z_cancel z))"
    if "gates w (flag z)" "\<not> gates (z_mem z) (flag z)"
    using that fire td others_not_mine by (fastforce simp: mine_def)
  show "f \<in> set (t_heap (ts\<lparr>t_running := False\<rparr>))"
    if "\<not> gates w (flag z)" "f \<in> set (t_heap (z_svc z))" "mine z (view_of f)" for f
    using that fire by (auto simp: mine_def)
qed (use I run in \<open>auto simp: sleep_inv_def callbacks_tidy_def fire_remaining_def\<close>)

lemma step_cancel:
  assumes I: "sleep_inv z" and run: "cancel (z_cancel z) = Some cs"
  shows "sleep_inv (z\<lparr>z_cancel := cs, z_mem := call_new (z_cancel z) cs (z_mem z)\<rparr>)"
proof (cases "cancelled (z_cancel z)")
  case True
  then show ?thesis using I cancel_effect(3) [OF run] call_new_cancel [OF run] by simp
next
  case False
  note eff = cancel_effect(1) [OF run] cancel_effect(4) [OF run False]
  let ?w = "call_new (z_cancel z) cs (z_mem z)"
  have td: "\<forall>c \<in> set (callbacks (z_cancel z)). of_others z (sw_handle c, sw_fired c)
      \<or> mine z (sw_handle c, sw_fired c) \<and> za_token (z_awaiter z) \<noteq> 0 \<and> registered (z_pc z)"
    using I by (simp add: sleep_inv_def callbacks_tidy_def)
  then have "\<forall>c \<in> set (callbacks (z_cancel z)). tidy (z_self z) (flag z) (sw_handle c, sw_fired c)"
    using tidy_of by blast
  from callbacks_gate [OF this, of "z_mem z"] call_new_cancel [OF run, of "z_mem z"] False
  have fire: "credit (flag z) (z_self z) ?w = credit (flag z) (z_self z) (z_mem z)"
    "gates ?w (flag z) = (gates (z_mem z) (flag z)
       \<or> (\<exists>c \<in> set (callbacks (z_cancel z)). sw_handle c = z_self z \<and> sw_fired c = flag z))" by simp_all
  show ?thesis
  proof (rule sleep_inv_environment [OF I, where ts = "z_svc z" and w = ?w and cs = cs
        and t = "z_now z" and b = "z_stopped z"])
    have reg: "registered (z_pc z) \<Longrightarrow> timer_added (z_pc z)" by (cases "z_pc z") auto
    show "timer_added (z_pc z) \<and> (due (z\<lparr>z_cancel := cs, z_mem := ?w\<rparr>) \<or> token_cancelled (z_awaiter z) cs)"
      if "gates ?w (flag z)" "\<not> gates (z_mem z) (flag z)"
    proof -
      from that fire(2) obtain c where "c \<in> set (callbacks (z_cancel z))" "mine z (sw_handle c, sw_fired c)"
        by (auto simp: mine_def)
      with td others_not_mine have "za_token (z_awaiter z) \<noteq> 0 \<and> registered (z_pc z)" by blast
      with reg eff show ?thesis by (simp add: token_cancelled_def is_cancelled_def)
    qed
    show "\<not> cancelled cs \<and> za_state (z_awaiter z) \<in> set (callbacks cs)"
      if "\<not> gates ?w (flag z)" "registered (z_pc z)" "za_token (z_awaiter z) \<noteq> 0"
        "za_state (z_awaiter z) \<in> set (callbacks (z_cancel z))"
    proof -
      have "\<not> unarmed (z_pc z)" using that(2) by (cases "z_pc z") auto
      then have "sw_handle (za_state (z_awaiter z)) = z_self z"
        using I by (simp add: sleep_inv_def sched_right_def)
      with that fire(2) show ?thesis by blast
    qed
  qed (use I eff fire in \<open>auto simp: sleep_inv_def timers_tidy_def parallel_def\<close>)
qed

lemma step_other_add:
  assumes I: "sleep_inv z" and e: "of_others z (view_of e)"
  shows "sleep_inv (z\<lparr>z_svc := push_timer e (z_svc z)\<rparr>)"
proof (rule sleep_inv_environment [OF I, where ts = "push_timer e (z_svc z)" and w = "z_mem z"
      and cs = "z_cancel z" and t = "z_now z" and b = "z_stopped z"])
  have set: "set (t_heap (push_timer e (z_svc z))) = insert e (set (t_heap (z_svc z)))"
    by (metis mset_push_timer set_mset_add_mset_insert set_mset_mset)
  show "\<forall>f \<in> set (t_heap (push_timer e (z_svc z))). f \<in> set (t_heap (z_svc z)) \<or> of_others z (view_of f)"
    using set e by auto
  show "f \<in> set (t_heap (push_timer e (z_svc z)))" if "f \<in> set (t_heap (z_svc z))" for f
    using set that by simp
qed (use I in \<open>auto simp: sleep_inv_def callbacks_tidy_def\<close>)

lemma step_other_register:
  assumes I: "sleep_inv z" and c: "of_others z (sw_handle c, sw_fired c)"
    and run: "register_callback c (z_cancel z) = (cid, cs)"
  shows "sleep_inv (z\<lparr>z_cancel := cs, z_mem := call_new (z_cancel z) cs (z_mem z)\<rparr>)"
proof (rule sleep_inv_environment [OF I, where ts = "z_svc z" and cs = cs
      and w = "call_new (z_cancel z) cs (z_mem z)" and t = "z_now z" and b = "z_stopped z"])
  note eff = register_effect [OF run]
  have par: "parallel (z_cancel z)" "cancelled (z_cancel z) \<longrightarrow> callbacks (z_cancel z) = []"
    using I by (simp_all add: sleep_inv_def callbacks_tidy_def)
  have t: "tidy (z_self z) (flag z) (sw_handle c, sw_fired c)" using c tidy_of by blast
  have "sw_fired c \<noteq> flag z" "sw_handle c \<noteq> z_self z" using c by (auto simp: of_others_def)
  with callbacks_gate [of "[c]" "z_self z" "flag z" "z_mem z"] t
  have fire: "credit (flag z) (z_self z) (call_new (z_cancel z) cs (z_mem z)) = credit (flag z) (z_self z) (z_mem z)"
    "gates (call_new (z_cancel z) cs (z_mem z)) (flag z) = gates (z_mem z) (flag z)"
    by (simp_all add: call_new_register [OF run])
  then show "credit (flag z) (z_self z) (call_new (z_cancel z) cs (z_mem z)) = credit (flag z) (z_self z) (z_mem z)"
    "gates (z_mem z) (flag z) \<Longrightarrow> gates (call_new (z_cancel z) cs (z_mem z)) (flag z)"
    by simp_all
  show "timer_added (z_pc z) \<and> (due (z\<lparr>z_cancel := cs, z_mem := call_new (z_cancel z) cs (z_mem z)\<rparr>)
      \<or> token_cancelled (z_awaiter z) cs)"
    if "gates (call_new (z_cancel z) cs (z_mem z)) (flag z)" "\<not> gates (z_mem z) (flag z)"
    using that fire(2) by simp
  show "parallel cs" using par(1) eff by (cases "cancelled (z_cancel z)") (auto simp: parallel_def)
  show "callbacks cs = []" if "cancelled cs" using that par(2) eff by simp
  show "\<forall>d \<in> set (callbacks cs). d \<in> set (callbacks (z_cancel z)) \<or> of_others z (sw_handle d, sw_fired d)"
    using eff c by (cases "cancelled (z_cancel z)") auto
qed (use register_effect [OF run] in auto)

lemma inv_unregister:
  assumes I: "sleep_inv z"
    and keep: "\<not> gates (z_mem z) (flag z) \<Longrightarrow> registered (z_pc z) \<Longrightarrow>
      (cid, za_state (z_awaiter z)) \<notin> cb_pairs (z_cancel z)"
  shows "sleep_inv (z\<lparr>z_cancel := unregister_callback cid (z_cancel z)\<rparr>)"
proof (rule sleep_inv_environment [OF I, where ts = "z_svc z" and w = "z_mem z"
      and cs = "unregister_callback cid (z_cancel z)" and t = "z_now z" and b = "z_stopped z"])
  have par: "parallel (z_cancel z)" "cancelled (z_cancel z) \<longrightarrow> callbacks (z_cancel z) = []"
    using I by (simp_all add: sleep_inv_def callbacks_tidy_def)
  note eff = unregister_effect [where cid = cid and cs = "z_cancel z"]
  have sub: "set (callbacks (unregister_callback cid (z_cancel z))) \<subseteq> set (callbacks (z_cancel z))"
    using callbacks_pairs par(1) eff(3,4) by blast
  then show "\<forall>c \<in> set (callbacks (unregister_callback cid (z_cancel z))).
      c \<in> set (callbacks (z_cancel z)) \<or> of_others z (sw_handle c, sw_fired c)" by blast
  show "callbacks (unregister_callback cid (z_cancel z)) = []"
    if "cancelled (unregister_callback cid (z_cancel z))"
    using that par(2) eff(1) sub by simp
  show "\<not> cancelled (unregister_callback cid (z_cancel z))
      \<and> za_state (z_awaiter z) \<in> set (callbacks (unregister_callback cid (z_cancel z)))"
    if "\<not> gates (z_mem z) (flag z)" "registered (z_pc z)" "\<not> cancelled (z_cancel z)"
      "za_state (z_awaiter z) \<in> set (callbacks (z_cancel z))"
    using that keep unregister_keeps_others [OF par(1)] eff(1) by blast
qed (use unregister_effect [where cid = cid and cs = "z_cancel z"] I in \<open>auto simp: sleep_inv_def callbacks_tidy_def\<close>)

lemma step_tick:
  assumes I: "sleep_inv z" and t: "z_now z \<le> t"
  shows "sleep_inv (z\<lparr>z_now := t\<rparr>)"
  by (rule sleep_inv_environment [OF I, where ts = "z_svc z" and w = "z_mem z" and cs = "z_cancel z"
        and t = t and b = "z_stopped z"])
    (use I t in \<open>auto simp: sleep_inv_def callbacks_tidy_def\<close>)

section \<open>The steps of the awaiter\<close>

lemma inv_resume:
  assumes "sleep_inv z"
    and "r \<noteq> Z_none \<Longrightarrow> z_pc z = Z_ready \<or> \<not> unarmed (z_pc z) \<and> gates (z_mem z) (flag z)"
    and "r = Z_ret Completed \<Longrightarrow> due z"
    and "r = Z_ret Cancelled \<Longrightarrow> token_cancelled (z_awaiter z) (z_cancel z)"
  shows "sleep_inv (z\<lparr>z_resume := r\<rparr>)"
proof -
  have "mine (z\<lparr>z_resume := r\<rparr>) = mine z" "of_others (z\<lparr>z_resume := r\<rparr>) = of_others z"
    by (auto simp: mine_def of_others_def fun_eq_iff)
  with assms show ?thesis
    by (simp add: sleep_inv_def timers_tidy_def callbacks_tidy_def sched_right_def timer_kept_def
        callback_kept_def woken_right_def resumed_right_def)
qed

lemma step_resume:
  assumes I: "sleep_inv z" and st: "sleep_resume_step (z_resume z) z = Some z'"
  shows "sleep_inv z'"
proof (cases "z_resume z")
  case Z_none
  then have z': "z' = z\<lparr>z_resume := Z_unreg\<rparr>" and s: "z_self z \<in> set (sched (z_mem z))"
    using st by (auto split: if_splits)
  have sr: "sched_right z" using I by (simp add: sleep_inv_def)
  have "0 < count_sched (z_self z) (z_mem z)" using s by (metis count_list_0_iff neq0_conv)
  with sr have "\<not> unarmed (z_pc z)" "gates (z_mem z) (flag z)"
    using count_of_credit [where h = "z_self z" and w = "z_mem z" and g = "flag z"]
    by (auto simp: sched_right_def split: if_splits)
  then show ?thesis unfolding z' by (intro inv_resume [OF I]) simp_all
next
  case Z_unreg
  then have z': "z' = (z\<lparr>z_cancel := sleep_unregister (z_awaiter z) (z_cancel z)\<rparr>)\<lparr>z_resume := Z_status\<rparr>"
    using st by simp
  have w: "z_pc z = Z_ready \<or> \<not> unarmed (z_pc z) \<and> gates (z_mem z) (flag z)"
    using I Z_unreg by (simp add: sleep_inv_def resumed_right_def)
  then have "sleep_inv (z\<lparr>z_cancel := sleep_unregister (z_awaiter z) (z_cancel z)\<rparr>)"
    using I inv_unregister [OF I, of "za_callback_id (z_awaiter z)"] by (auto simp: sleep_unregister_def)
  with w show ?thesis unfolding z' by (intro inv_resume) simp_all
next
  case Z_status
  then have z': "z' = z\<lparr>z_resume := Z_ret (sleep_status_of (z_awaiter z) (z_cancel z))\<rparr>"
    using st by simp
  have w: "z_pc z = Z_ready \<or> \<not> unarmed (z_pc z) \<and> gates (z_mem z) (flag z)"
    using I Z_status by (simp add: sleep_inv_def resumed_right_def)
  then have "reason z" using I by (simp add: sleep_inv_def woken_right_def)
  with w I show ?thesis unfolding z'
    by (intro inv_resume) (auto simp: sleep_status_of_def split: if_splits)
qed (use st in simp)

lemma unarmed_others:
  assumes "sleep_inv z" "\<not> timer_added (z_pc z)"
  shows "\<forall>e \<in> set (t_heap (z_svc z)). of_others z (view_of e)"
    and "\<forall>c \<in> set (callbacks (z_cancel z)). of_others z (sw_handle c, sw_fired c)"
proof -
  have "\<not> registered (z_pc z)" using assms(2) by (cases "z_pc z") auto
  with assms show "\<forall>e \<in> set (t_heap (z_svc z)). of_others z (view_of e)"
    and "\<forall>c \<in> set (callbacks (z_cancel z)). of_others z (sw_handle c, sw_fired c)"
    by (auto simp: sleep_inv_def timers_tidy_def callbacks_tidy_def)
qed

lemma count_zero_credit: "credit g h w = 0 \<longleftrightarrow> int (count_sched h w) = (if gates w g then 1 else 0)"
  by (auto simp: credit_def)

lemma step_call:
  assumes I: "sleep_inv z" and pc: "z_pc z = Z_call" and st: "sleep_step (z_pc z) z = Some z'"
  shows "sleep_inv z'"
proof -
  have r: "z_resume z = Z_none" using I pc by (auto simp: sleep_inv_def resumed_right_def)
  from I have parts: "timers_tidy z" "callbacks_tidy z" "sched_right z" by (simp_all add: sleep_inv_def)
  have keep: "sleep_inv (z\<lparr>z_pc := p, z_resume := q\<rparr>)"
    if "p = Z_ready \<and> q = Z_unreg \<and> reason z \<or> p = Z_arm \<and> q = Z_none" for p q
  proof -
    let ?z = "z\<lparr>z_pc := p, z_resume := q\<rparr>"
    have same: "mine ?z = mine z" "of_others ?z = of_others z"
      by (auto simp: mine_def of_others_def fun_eq_iff)
    have p: "unarmed p" "\<not> timer_added p" "\<not> registered p" using that by auto
    have "timers_tidy ?z" using parts(1) pc unfolding timers_tidy_def same by simp
    moreover have "callbacks_tidy ?z" using parts(2) pc unfolding callbacks_tidy_def same by simp
    moreover have "sched_right ?z" using parts(3) pc p by (simp add: sched_right_def)
    moreover have "timer_kept ?z" "callback_kept ?z" using p by (simp_all add: timer_kept_def callback_kept_def)
    moreover have "woken_right ?z" using that p by (auto simp: woken_right_def)
    moreover have "resumed_right ?z" using that by (auto simp: resumed_right_def)
    ultimately show ?thesis by (simp add: sleep_inv_def)
  qed
  have "z' = z\<lparr>z_pc := Z_ready, z_resume := Z_unreg\<rparr> \<and> reason z \<or> z' = z\<lparr>z_pc := Z_arm, z_resume := Z_none\<rparr>"
    using st pc r by (cases z) (auto simp: sleep_ready_def split: if_splits)
  then show ?thesis using keep by auto
qed

lemma step_arm:
  assumes I: "sleep_inv z" and pc: "z_pc z = Z_arm" and st: "sleep_step (z_pc z) z = Some z'"
  shows "sleep_inv z'"
proof -
  have r: "z_resume z = Z_none" using I pc by (auto simp: sleep_inv_def resumed_right_def)
  have same: "mine z' = mine z" "of_others z' = of_others z"
    using st pc by (auto simp: mine_def of_others_def fun_eq_iff)
  from I pc have "count_sched (z_self z) (z_mem z) = 0" by (simp add: sleep_inv_def sched_right_def)
  then have "credit (flag z) (z_self z) (set_fired (flag z) False (z_mem z)) = 0"
    by (simp add: count_zero_credit set_fired_def)
  with st pc I r show ?thesis unfolding sleep_inv_def timers_tidy_def callbacks_tidy_def timer_kept_def same
    by (auto simp: sched_right_def callback_kept_def woken_right_def resumed_right_def set_fired_def)
qed

lemma step_add:
  assumes I: "sleep_inv z" and pc: "z_pc z = Z_add" and st: "sleep_step (z_pc z) z = Some z'"
  shows "sleep_inv z'"
proof -
  let ?e = "\<lparr>te_deadline = deadline z, te_handle = 0, te_cancel_state = za_token (z_awaiter z),
       te_fired = 0, te_waiter = Some (za_state (z_awaiter z))\<rparr>"
  have z': "z' = z\<lparr>z_pc := (if za_token (z_awaiter z) \<noteq> 0 then Z_reg else Z_done),
      z_svc := push_timer ?e (z_svc z)\<rparr>"
    using st pc by (simp add: add_timer_shared_def)
  have set: "set (t_heap (z_svc z')) = insert ?e (set (t_heap (z_svc z)))"
    unfolding z' by (simp) (metis mset_push_timer set_mset_add_mset_insert set_mset_mset)
  have same: "mine z' = mine z" "of_others z' = of_others z"
    by (auto simp: z' mine_def of_others_def fun_eq_iff)
  have sr: "sw_handle (za_state (z_awaiter z)) = z_self z" "\<not> gates (z_mem z) (flag z)"
    using I pc by (auto simp: sleep_inv_def sched_right_def)
  then have e: "mine z (view_of ?e)" by (simp add: view_of_def mine_def)
  have "timers_tidy z'"
    using unarmed_others(1) [OF I] pc e unfolding timers_tidy_def same set by (simp add: z')
  moreover have "callbacks_tidy z'"
    using I unarmed_others(2) [OF I] pc unfolding sleep_inv_def callbacks_tidy_def same by (simp add: z')
  moreover have "sched_right z'" using I pc sr by (simp add: sleep_inv_def sched_right_def z')
  moreover have "timer_kept z'" using e unfolding timer_kept_def same set by blast
  moreover have "callback_kept z'" by (simp add: callback_kept_def z')
  moreover have "woken_right z'" using sr by (simp add: woken_right_def z')
  moreover have "resumed_right z'" using I pc sr by (simp add: sleep_inv_def resumed_right_def z')
  ultimately show ?thesis by (simp add: sleep_inv_def)
qed

lemma step_reg:
  assumes I: "sleep_inv z" and pc: "z_pc z = Z_reg" and st: "sleep_step (z_pc z) z = Some z'"
  shows "sleep_inv z'"
proof -
  have tok: "za_token (z_awaiter z) \<noteq> 0" using I pc by (simp add: sleep_inv_def sched_right_def)
  let ?c = "za_state (z_awaiter z)"
  obtain cid cs where reg: "register_callback ?c (z_cancel z) = (cid, cs)" by fastforce
  let ?w = "call_new (z_cancel z) cs (z_mem z)"
  note eff = register_effect [OF reg]
  have z': "z' = z\<lparr>z_pc := Z_id cid, z_cancel := cs, z_mem := ?w\<rparr>" using st pc reg by simp
  have same: "mine z' = mine z" "of_others z' = of_others z"
    by (auto simp: z' mine_def of_others_def fun_eq_iff)
  have h: "sw_handle ?c = z_self z" and cr: "credit (flag z) (z_self z) (z_mem z) = 0"
    using I pc by (auto simp: sleep_inv_def sched_right_def)
  then have m: "mine z (sw_handle ?c, sw_fired ?c)" by (simp add: mine_def)
  have w: "credit (flag z) (z_self z) ?w = 0"
    "gates ?w (flag z) = (gates (z_mem z) (flag z) \<or> cancelled (z_cancel z))"
    using callbacks_gate [of "[?c]" "z_self z" "flag z" "z_mem z"] h cr
    by (simp_all add: call_new_register [OF reg] tidy_def)
  have "timers_tidy z'" using I pc unfolding sleep_inv_def timers_tidy_def same by (auto simp: z')
  moreover have "callbacks_tidy z'"
    using I pc m tok eff unarmed_others(2) unfolding sleep_inv_def callbacks_tidy_def same
    by (cases "cancelled (z_cancel z)") (auto simp: z' parallel_def)
  moreover have "sched_right z'" using I pc w by (simp add: sleep_inv_def sched_right_def z')
  moreover have "timer_kept z'"
    using I pc w unfolding sleep_inv_def timer_kept_def same by (auto simp: z')
  moreover have "callback_kept z'" using w eff by (auto simp: callback_kept_def z')
  moreover have "woken_right z'"
    using I pc w tok eff(1) by (auto simp: sleep_inv_def woken_right_def z' token_cancelled_def is_cancelled_def)
  moreover have "resumed_right z'"
    using I pc w eff(1) by (auto simp: sleep_inv_def resumed_right_def z' token_cancelled_def is_cancelled_def)
  ultimately show ?thesis by (simp add: sleep_inv_def)
qed

lemma step_id:
  assumes I: "sleep_inv z" and pc: "z_pc z = Z_id cid" and st: "sleep_step (z_pc z) z = Some z'"
  shows "sleep_inv z'"
proof -
  have z': "z' = z\<lparr>z_pc := Z_done, z_awaiter := (z_awaiter z)\<lparr>za_callback_id := cid\<rparr>\<rparr>"
    using st pc by simp
  have same: "mine z' = mine z" "of_others z' = of_others z"
    by (auto simp: z' mine_def of_others_def fun_eq_iff)
  from I have parts: "timers_tidy z" "callbacks_tidy z" "sched_right z" "timer_kept z" "callback_kept z"
    "woken_right z" "resumed_right z" by (simp_all add: sleep_inv_def)
  have "timers_tidy z'" using parts(1) pc unfolding timers_tidy_def same by (simp add: z')
  moreover have "callbacks_tidy z'" using parts(2) pc unfolding callbacks_tidy_def same by (simp add: z')
  moreover have "sched_right z'" using parts(3) pc by (simp add: sched_right_def z')
  moreover have "timer_kept z'" using parts(4) pc unfolding timer_kept_def same by (simp add: z')
  moreover have "callback_kept z'" using parts(5) pc by (simp add: callback_kept_def z')
  moreover have "woken_right z'" using parts(6) pc by (simp add: woken_right_def z' token_cancelled_def)
  moreover have "resumed_right z'" using parts(7) pc by (simp add: resumed_right_def z' token_cancelled_def)
  ultimately show ?thesis by (simp add: sleep_inv_def)
qed

lemma sleep_inv_step:
  assumes "sleep_inv z" "sleep_sys_step z z'"
  shows "sleep_inv z'"
  using assms(2)
proof cases
  case suspend
  note st = assms(1) _ suspend
  show ?thesis
  proof (cases "z_pc z")
    case Z_call
    then show ?thesis by (rule step_call [OF st])
  next
    case Z_arm
    then show ?thesis by (rule step_arm [OF st])
  next
    case Z_add
    then show ?thesis by (rule step_add [OF st])
  next
    case Z_reg
    then show ?thesis by (rule step_reg [OF st])
  next
    case (Z_id cid)
    then show ?thesis by (rule step_id [OF st])
  qed (use suspend in simp_all)
next
  case resume
  then show ?thesis by (rule step_resume [OF assms(1)])
qed (simp_all add: assms(1) step_tick step_fire step_stop step_cancel step_other_add
    step_other_register inv_unregister)

lemma sleep_inv_reach:
  assumes "sleep_reach (sleep_init now w0 cw h (sleep_until d tok g)) z"
    and "h \<noteq> 0" "g \<noteq> 0" "h \<notin> set (sched w0)"
  shows "sleep_inv z"
  using assms(1)
proof induction
  case start
  have "count_sched h w0 = 0" using assms(4) by (simp add: count_list_0_iff)
  then show ?case using assms(2,3)
    by (simp add: sleep_inv_def timers_tidy_def callbacks_tidy_def sched_right_def timer_kept_def
        callback_kept_def woken_right_def resumed_right_def sleep_init_def sleep_until_def
        new_timer_service_def new_cancellation_state_def parallel_def)
qed (rule sleep_inv_step)

lemma sleep_params_step:
  "sleep_sys_step z z' \<Longrightarrow> z_self z' = z_self z \<and> flag z' = flag z \<and> deadline z' = deadline z
     \<and> za_token (z_awaiter z') = za_token (z_awaiter z)"
proof (induction rule: sleep_sys_step.induct)
  case (suspend z z')
  then show ?case by (cases "z_pc z") (auto split: prod.splits if_splits)
next
  case (resume z z')
  then show ?case by (cases "z_resume z") (auto split: if_splits)
qed simp_all

lemma sleep_params_reach:
  assumes "sleep_reach (sleep_init now w0 cw h (sleep_until d tok g)) z"
  shows "z_self z = h" "flag z = g" "deadline z = d" "za_token (z_awaiter z) = tok"
proof -
  have "z_self z = h \<and> flag z = g \<and> deadline z = d \<and> za_token (z_awaiter z) = tok"
    using assms by induction (simp_all add: sleep_init_def sleep_until_def sleep_params_step)
  then show "z_self z = h" "flag z = g" "deadline z = d" "za_token (z_awaiter z) = tok" by simp_all
qed

section \<open>Properties\<close>

text \<open>
  A sleeping coroutine is woken exactly once: in every interleaving with the clock, the timer
  thread, any other timers and callbacks, a cancellation and a shutdown of the timer service,
  it is scheduled at most once, namely if its flag is closed; and once \<open>suspend_impl\<close> has
  returned and it has not been scheduled, its timer is in the heap with its deadline and, if
  it has a token, the token is not cancelled and holds its callback.
\<close>

theorem sleeper_woken_once:
  assumes "sleep_reach (sleep_init now w0 cw h (sleep_until d tok g)) z"
    and "h \<noteq> 0" "g \<noteq> 0" "h \<notin> set (sched w0)"
  shows "count_list (sched (z_mem z)) h \<le> 1
    \<and> (z_pc z = Z_done \<and> h \<notin> set (sched (z_mem z)) \<longrightarrow>
        (\<exists>e \<in> set (t_heap (z_svc z)). view_of e = (h, g) \<and> te_deadline e = d)
        \<and> (tok \<noteq> 0 \<longrightarrow> \<not> is_cancelled (z_cancel z)
            \<and> \<lparr>sw_handle = h, sw_fired = g\<rparr> \<in> set (callbacks (z_cancel z))))"
proof -
  note par = sleep_params_reach [OF assms(1)]
  have I: "timers_tidy z" "sched_right z" "timer_kept z" "callback_kept z"
    using sleep_inv_reach [OF assms] by (simp_all add: sleep_inv_def)
  have "count_list (sched (z_mem z)) h \<le> 1"
    using I(2) par count_zero_credit [of g h "z_mem z"] by (auto simp: sched_right_def split: if_splits)
  moreover have "(\<exists>e \<in> set (t_heap (z_svc z)). view_of e = (h, g) \<and> te_deadline e = d)
        \<and> (tok \<noteq> 0 \<longrightarrow> \<not> is_cancelled (z_cancel z)
            \<and> \<lparr>sw_handle = h, sw_fired = g\<rparr> \<in> set (callbacks (z_cancel z)))"
    if "z_pc z = Z_done" "h \<notin> set (sched (z_mem z))"
  proof -
    have "count_list (sched (z_mem z)) h = 0" using that(2) by (simp add: count_list_0_iff)
    then have g: "\<not> gates (z_mem z) g" and h: "sw_handle (za_state (z_awaiter z)) = h"
      using I(2) par that(1) count_zero_credit [of g h "z_mem z"]
      by (auto simp: sched_right_def split: if_splits)
    from that(1) have "timer_added (z_pc z)" by simp
    with I(3) g par(2) have "\<exists>e \<in> set (t_heap (z_svc z)). mine z (view_of e)"
      by (simp add: timer_kept_def)
    then obtain e where e: "e \<in> set (t_heap (z_svc z))" "mine z (view_of e)" by blast
    with I(1) others_not_mine [of z "view_of e"] have "te_deadline e = deadline z"
      unfolding timers_tidy_def by blast
    with par(3) have "te_deadline e = d" by simp
    moreover have "za_state (z_awaiter z) = \<lparr>sw_handle = h, sw_fired = g\<rparr>"
      using h par by (cases "za_state (z_awaiter z)") simp
    ultimately show ?thesis using I(4) that(1) par g e by (auto simp: callback_kept_def mine_def is_cancelled_def)
  qed
  ultimately show ?thesis by blast
qed

text \<open>
  The status is true: when \<open>co_await\<close> returns \<open>completed\<close> the deadline has passed (or the
  timer service was shut down, which fires all timers), and when it returns \<open>cancelled\<close> the
  token is cancelled.
\<close>

theorem sleep_status_true:
  assumes "sleep_reach (sleep_init now w0 cw h (sleep_until d tok g)) z"
    and "h \<noteq> 0" "g \<noteq> 0" "h \<notin> set (sched w0)" "z_resume z = Z_ret st"
  shows "case st of Completed \<Rightarrow> d \<le> z_now z \<or> z_stopped z
    | Cancelled \<Rightarrow> tok \<noteq> 0 \<and> is_cancelled (z_cancel z)"
proof -
  have "resumed_right z" using sleep_inv_reach [OF assms(1-4)] by (simp add: sleep_inv_def)
  with assms(5) show ?thesis using sleep_params_reach [OF assms(1)]
    by (cases st) (auto simp: resumed_right_def token_cancelled_def)
qed

section \<open>Witnesses\<close>

text \<open>Coroutine 5 sleeps until time 2 with its flag at address 9, and a token.\<close>

definition sleep_sample :: sleep_sys where
  "sleep_sample = sleep_init 0 sample_mem sample_mem 5 (sleep_until 2 1 9)"

fun sleep_steps :: "nat \<Rightarrow> sleep_sys \<Rightarrow> sleep_sys" where
  "sleep_steps 0 z = z"
| "sleep_steps (Suc n) z = (case sleep_step (z_pc z) z of Some z' \<Rightarrow> sleep_steps n z' | None \<Rightarrow> z)"

lemma sleep_steps_reach: "sleep_reach z0 z \<Longrightarrow> sleep_reach z0 (sleep_steps n z)"
proof (induction n z rule: sleep_steps.induct)
  case (2 n z)
  then show ?case
    by (cases "sleep_step (z_pc z) z") (auto intro: sleep_reach.step sleep_sys_step.suspend)
qed simp

lemma sleep_sample_suspended:
  "sleep_reach sleep_sample (sleep_steps 5 sleep_sample)"
  "z_pc (sleep_steps 5 sleep_sample) = Z_done" "sched (z_mem (sleep_steps 5 sleep_sample)) = []"
proof -
  show "sleep_reach sleep_sample (sleep_steps 5 sleep_sample)"
    by (rule sleep_steps_reach [OF sleep_reach.start])
  show "z_pc (sleep_steps 5 sleep_sample) = Z_done" "sched (z_mem (sleep_steps 5 sleep_sample)) = []"
    by (simp_all add: numeral_eq_Suc sleep_sample_def sleep_init_def sleep_until_def sleep_ready_def
        token_cancelled_def is_cancelled_def new_cancellation_state_def register_callback_def
        push_callback_def call_new_def sample_mem_def set_fired_def)
qed

theorem sleeper_woken_once_witness:
  "\<exists>z. sleep_reach sleep_sample z \<and> z_pc z = Z_done
     \<and> (\<exists>e \<in> set (t_heap (z_svc z)). view_of e = (5, 9) \<and> te_deadline e = 2) \<and> \<not> is_cancelled (z_cancel z)"
proof -
  have "5 \<notin> set (sched sample_mem)" by (simp add: sample_mem_def)
  from sleeper_woken_once [OF sleep_sample_suspended(1) [unfolded sleep_sample_def] _ _ this]
    sleep_sample_suspended
  show ?thesis by (intro exI [of _ "sleep_steps 5 sleep_sample"]) (simp add: sleep_sample_def)
qed

text \<open>A sleep whose token was cancelled before it began.\<close>

definition cancelled_sleep :: sleep_sys where
  "cancelled_sleep = sleep_sample\<lparr>z_cancel := (z_cancel sleep_sample)\<lparr>cancelled := True\<rparr>,
     z_pc := Z_ready, z_resume := Z_ret Cancelled\<rparr>"

lemma cancelled_sleep_reach: "sleep_reach sleep_sample cancelled_sleep"
proof -
  let ?c = "(z_cancel sleep_sample)\<lparr>cancelled := True\<rparr>"
  let ?z1 = "sleep_sample\<lparr>z_cancel := ?c\<rparr>"
  have fresh: "z_cancel sleep_sample = new_cancellation_state sample_mem" "z_awaiter sleep_sample = sleep_until 2 1 9"
    by (simp_all add: sleep_sample_def sleep_init_def)
  have c: "cancel (z_cancel sleep_sample) = Some ?c"
    by (simp add: fresh cancel_def swap_callbacks_def new_cancellation_state_def wake_all_def
        wake_walk.simps set_cancel_waiters_def Let_def)
  have "call_new (z_cancel sleep_sample) ?c w = w" for w by (simp add: call_new_def)
  with sleep_sys_step.cancel [OF c] have "sleep_sys_step sleep_sample ?z1" by simp
  then have r1: "sleep_reach sleep_sample ?z1" by (rule sleep_reach.step [OF sleep_reach.start])
  have "sleep_sys_step ?z1 (?z1\<lparr>z_pc := Z_ready, z_resume := Z_unreg\<rparr>)"
    by (rule sleep_sys_step.suspend)
      (simp add: sleep_sample_def sleep_init_def sleep_ready_def token_cancelled_def sleep_until_def is_cancelled_def)
  from sleep_reach.step [OF r1 this] have r2: "sleep_reach sleep_sample (?z1\<lparr>z_pc := Z_ready, z_resume := Z_unreg\<rparr>)" .
  have "sleep_sys_step (?z1\<lparr>z_pc := Z_ready, z_resume := Z_unreg\<rparr>) (?z1\<lparr>z_pc := Z_ready, z_resume := Z_status\<rparr>)"
    by (rule sleep_sys_step.resume)
      (simp add: sleep_unregister_def sleep_sample_def sleep_init_def sleep_until_def)
  from sleep_reach.step [OF r2 this] have r3: "sleep_reach sleep_sample (?z1\<lparr>z_pc := Z_ready, z_resume := Z_status\<rparr>)" .
  have "sleep_sys_step (?z1\<lparr>z_pc := Z_ready, z_resume := Z_status\<rparr>) cancelled_sleep"
    by (rule sleep_sys_step.resume)
      (simp add: cancelled_sleep_def sleep_status_of_def token_cancelled_def is_cancelled_def
        sleep_sample_def sleep_init_def sleep_until_def)
  then show ?thesis by (rule sleep_reach.step [OF r3])
qed

theorem sleep_status_true_witness:
  "z_resume cancelled_sleep = Z_ret Cancelled \<and> is_cancelled (z_cancel cancelled_sleep)"
proof -
  have m: "5 \<notin> set (sched sample_mem)" "z_resume cancelled_sleep = Z_ret Cancelled"
    by (simp_all add: sample_mem_def cancelled_sleep_def)
  from sleep_status_true [OF cancelled_sleep_reach [unfolded sleep_sample_def] _ _ m] m(2)
  show ?thesis by simp
qed

section \<open>A callback that is never unregistered\<close>

datatype sleep_act = Do_suspend | Do_resume | Do_tick int | Do_fire

fun sleep_act_step :: "sleep_act \<Rightarrow> sleep_sys \<Rightarrow> sleep_sys option" where
  "sleep_act_step Do_suspend z = sleep_step (z_pc z) z"
| "sleep_act_step Do_resume z = sleep_resume_step (z_resume z) z"
| "sleep_act_step (Do_tick t) z = (if z_now z \<le> t then Some (z\<lparr>z_now := t\<rparr>) else None)"
| "sleep_act_step Do_fire z =
     (case run_round (z_now z) (z_svc z) of
        (Fire e, ts) \<Rightarrow> Some (z\<lparr>z_svc := ts, z_mem := fire_entry e (z_mem z)\<rparr>) | _ \<Rightarrow> None)"

fun sleep_acts :: "sleep_act list \<Rightarrow> sleep_sys \<Rightarrow> sleep_sys option" where
  "sleep_acts [] z = Some z"
| "sleep_acts (a # as) z = (case sleep_act_step a z of Some z' \<Rightarrow> sleep_acts as z' | None \<Rightarrow> None)"

lemma sleep_act_sound: "sleep_act_step a z = Some z' \<Longrightarrow> sleep_sys_step z z'"
  by (cases a) (auto intro: sleep_sys_step.intros split: if_splits prod.splits run_action.splits)

lemma sleep_acts_reach: "sleep_reach z0 z \<Longrightarrow> sleep_acts as z = Some z' \<Longrightarrow> sleep_reach z0 z'"
proof (induction "as" z rule: sleep_acts.induct)
  case (2 a "as" z)
  then show ?case by (auto intro: sleep_reach.step sleep_act_sound split: option.splits)
qed simp

text \<open>
  \<open>suspend_impl\<close> adds the timer before it registers the callback and stores the id last: if
  the timer fires in between, the coroutine resumes, finds no id, returns, and its callback
  stays registered.
\<close>

theorem sleep_callback_leaks:
  "\<exists>z. sleep_reach sleep_sample z \<and> z_pc z = Z_done \<and> z_resume z = Z_ret Completed
     \<and> \<lparr>sw_handle = 5, sw_fired = 9\<rparr> \<in> set (callbacks (z_cancel z))"
proof -
  have "\<exists>z. sleep_acts [Do_suspend, Do_suspend, Do_suspend, Do_suspend, Do_tick 2, Do_fire, Do_resume,
      Do_resume, Do_resume, Do_suspend] sleep_sample = Some z \<and> z_pc z = Z_done \<and> z_resume z = Z_ret Completed
     \<and> \<lparr>sw_handle = 5, sw_fired = 9\<rparr> \<in> set (callbacks (z_cancel z))"
    by (simp add: sleep_sample_def sleep_init_def sleep_until_def sleep_ready_def token_cancelled_def
        is_cancelled_def new_cancellation_state_def register_callback_def push_callback_def call_new_def
        sample_mem_def set_fired_def add_timer_shared_def push_timer_def new_timer_service_def push_heap_def
        run_round_def pop_heap_def swap_def sift_down.simps least_child_def fire_entry_def view_of_def
        fire_gate_def schedule_call_def sleep_unregister_def sleep_status_of_def)
  then show ?thesis using sleep_acts_reach [OF sleep_reach.start] by blast
qed

end
