(* ===== verification/CoroTask.thy ===== *)
theory CoroTask
  imports Handoff Monitor
begin

text \<open>
  \<open>coro_task\<close> and its shared state (\<open>include/coro_task.hpp\<close>): the result a coroutine leaves
  for those who wait for it, the ownership of the coroutine's frame by the task objects, and
  the protocol between the coroutine that ends and the one that awaits it.
\<close>

section \<open>The shared state\<close>

text \<open>\<open>std::variant<std::monostate, T, std::exception_ptr>\<close>.\<close>

datatype ('v, 'e) task_result = Monostate | Value 'v | Exception_ptr 'e

record ('v, 'e) coro_shared_state =
  result :: "('v, 'e) task_result"
  ready :: bool
  final_suspend_reached :: bool
  detached :: bool
  handoff :: uintptr

definition new_shared_state :: "('v, 'e) coro_shared_state" where
  "new_shared_state = \<lparr>result = Monostate, ready = False, final_suspend_reached = False,
     detached = False, handoff = 0\<rparr>"

datatype ('v, 'e) task_reply = Rp_unit | Rp_return 'v | Rp_throw 'e | Rp_bad_access

type_synonym ('v, 'e) task_outcome = "(('v, 'e) coro_shared_state, ('v, 'e) task_reply) outcome"

definition sh_set_value :: "'v \<Rightarrow> ('v, 'e) coro_shared_state \<Rightarrow> ('v, 'e) task_outcome" where
  "sh_set_value v s = Ret (s\<lparr>result := Value v, ready := True\<rparr>) [Notify_all cv] Rp_unit"

definition sh_set_exception :: "'e \<Rightarrow> ('v, 'e) coro_shared_state \<Rightarrow> ('v, 'e) task_outcome" where
  "sh_set_exception e s = Ret (s\<lparr>result := Exception_ptr e, ready := True\<rparr>) [Notify_all cv] Rp_unit"

text \<open>
  \<open>get\<close> moves the value out: \<open>moved v\<close> is what the move constructor of the value type leaves
  of \<open>v\<close>.  \<open>std::get\<close> of another alternative throws.
\<close>

definition sh_take :: "('v \<Rightarrow> 'v) \<Rightarrow> ('v, 'e) coro_shared_state \<Rightarrow> ('v, 'e) task_outcome" where
  "sh_take moved s =
     (case result s of
        Exception_ptr e \<Rightarrow> Ret s [] (Rp_throw e)
      | Value v \<Rightarrow> Ret (s\<lparr>result := Value (moved v)\<rparr>) [] (Rp_return v)
      | Monostate \<Rightarrow> Ret s [] Rp_bad_access)"

definition sh_get :: "('v \<Rightarrow> 'v) \<Rightarrow> ('v, 'e) coro_shared_state \<Rightarrow> ('v, 'e) task_outcome" where
  "sh_get moved s = wait_for_condition cv ready (sh_take moved) s"

definition sh_is_ready :: "('v, 'e) coro_shared_state \<Rightarrow> bool" where
  "sh_is_ready s = ready s"

datatype ('v, 'e) shared_op = Sh_set_value 'v | Sh_set_exception 'e | Sh_get

fun sh_exec ::
  "('v \<Rightarrow> 'v) \<Rightarrow> ('v, 'e) shared_op \<Rightarrow> ('v, 'e) coro_shared_state \<Rightarrow> ('v, 'e) task_outcome" where
  "sh_exec moved (Sh_set_value v) s = sh_set_value v s"
| "sh_exec moved (Sh_set_exception e) s = sh_set_exception e s"
| "sh_exec moved Sh_get s = sh_get moved s"

text \<open>A coroutine ends once: it stores its result only while there is none.\<close>

fun sh_ok :: "('v, 'e) shared_op \<Rightarrow> ('v, 'e) coro_shared_state \<Rightarrow> bool" where
  "sh_ok Sh_get s \<longleftrightarrow> True"
| "sh_ok x s \<longleftrightarrow> \<not> ready s"

lemmas sh_defs = sh_set_value_def sh_set_exception_def sh_get_def sh_take_def wait_for_condition_def

lemma sh_waits_iff: "sh_exec moved x s = Wait c t \<longleftrightarrow> x = Sh_get \<and> \<not> ready s \<and> c = cv \<and> t = None"
  by (cases x) (auto simp: sh_defs split: task_result.splits)

interpretation task_cv: broadcast_cv "sh_exec moved" sh_ok cv "\<lambda>s. False"
proof
  fix x s s' ns r y t
  assume "sh_exec moved x s = Ret s' ns r" "sh_exec moved y s = Wait cv t"
  then show "Notify_all cv \<in> set ns \<or> False \<or> sh_exec moved y s' = Wait cv t"
    by (cases x) (auto simp: sh_waits_iff sh_defs split: if_splits)
qed simp

section \<open>The shared state of a task without a value\<close>

record 'e coro_shared_void =
  v_exception :: "'e option"
  v_ready :: bool
  v_final_suspend_reached :: bool
  v_detached :: bool
  v_handoff :: uintptr

type_synonym 'e void_outcome = "('e coro_shared_void, (unit, 'e) task_reply) outcome"

definition void_set_value :: "'e coro_shared_void \<Rightarrow> 'e void_outcome" where
  "void_set_value s = Ret (s\<lparr>v_ready := True\<rparr>) [Notify_all cv] Rp_unit"

definition void_set_exception :: "'e \<Rightarrow> 'e coro_shared_void \<Rightarrow> 'e void_outcome" where
  "void_set_exception e s = Ret (s\<lparr>v_exception := Some e, v_ready := True\<rparr>) [Notify_all cv] Rp_unit"

definition void_get :: "'e coro_shared_void \<Rightarrow> 'e void_outcome" where
  "void_get s = wait_for_condition cv v_ready
     (\<lambda>s. case v_exception s of Some e \<Rightarrow> Ret s [] (Rp_throw e) | None \<Rightarrow> Ret s [] (Rp_return ())) s"

fun void_exec :: "(unit, 'e) shared_op \<Rightarrow> 'e coro_shared_void \<Rightarrow> 'e void_outcome" where
  "void_exec (Sh_set_value v) s = void_set_value s"
| "void_exec (Sh_set_exception e) s = void_set_exception e s"
| "void_exec Sh_get s = void_get s"

definition void_abs :: "'e coro_shared_void \<Rightarrow> (unit, 'e) coro_shared_state" where
  "void_abs s = \<lparr>result = (case v_exception s of Some e \<Rightarrow> Exception_ptr e
       | None \<Rightarrow> if v_ready s then Value () else Monostate),
     ready = v_ready s, final_suspend_reached = v_final_suspend_reached s, detached = v_detached s,
     handoff = v_handoff s\<rparr>"

fun map_outcome :: "('s \<Rightarrow> 't) \<Rightarrow> ('s, 'r) outcome \<Rightarrow> ('t, 'r) outcome" where
  "map_outcome f (Ret s ns r) = Ret (f s) ns r"
| "map_outcome f (Wait c t) = Wait c t"

section \<open>Task objects\<close>

text \<open>Null handles and null states are the address 0.\<close>

record coro_task =
  ct_handle :: coro
  ct_state :: uintptr
  ct_started :: bool

definition new_coro_task :: "coro \<Rightarrow> uintptr \<Rightarrow> coro_task" where
  "new_coro_task h st = \<lparr>ct_handle = h, ct_state = st, ct_started = False\<rparr>"

text \<open>
  The move operations assert that the source has not been started; \<open>None\<close> is the failed
  assertion.  Each returns the new object, what is left of the source, and the handles it
  destroyed.
\<close>

definition moved_from :: "coro_task \<Rightarrow> coro_task" where
  "moved_from t = t\<lparr>ct_handle := 0, ct_state := 0\<rparr>"

definition move_construct :: "coro_task \<Rightarrow> (coro_task \<times> coro_task \<times> coro list) option" where
  "move_construct other =
     (let self = \<lparr>ct_handle = ct_handle other, ct_state = ct_state other, ct_started = ct_started other\<rparr> in
      if ct_started self then None else Some (self, moved_from other, []))"

definition move_assign ::
  "coro_task \<Rightarrow> coro_task \<Rightarrow> (coro_task \<times> coro_task \<times> coro list) option" where
  "move_assign self other =
     (if ct_started other then None
      else Some (\<lparr>ct_handle = ct_handle other, ct_state = ct_state other, ct_started = ct_started other\<rparr>,
                 moved_from other, if ct_handle self \<noteq> 0 then [ct_handle self] else []))"

text \<open>
  The destructor; \<open>reached\<close> is the shared state's \<open>final_suspend_reached\<close>.  \<open>None\<close>: it
  spins until the coroutine has ended.
\<close>

definition destruct :: "bool \<Rightarrow> coro_task \<Rightarrow> coro list option" where
  "destruct reached t =
     (if ct_handle t \<noteq> 0 then
        if \<not> ct_started t then Some [ct_handle t]
        else if ct_state t \<noteq> 0 then if reached then Some [ct_handle t] else None
        else Some []
      else Some [])"

definition task_is_ready :: "('v, 'e) coro_shared_state \<Rightarrow> coro_task \<Rightarrow> bool" where
  "task_is_ready s t \<longleftrightarrow> ct_state t \<noteq> 0 \<and> sh_is_ready s"

text \<open>
  \<open>start\<close>: the exchange, and the schedule if it is won and the coroutine is not at its end.
  The result tells whether the handle was scheduled.
\<close>

definition start :: "bool \<Rightarrow> coro_task \<Rightarrow> coro_task \<times> bool" where
  "start ended t =
     (if ct_started t then (t, False)
      else (t\<lparr>ct_started := True\<rparr>, ct_handle t \<noteq> 0 \<and> \<not> ended))"

section \<open>Who owns a frame\<close>

text \<open>A program that creates, moves, starts and destroys tasks, kept in numbered variables.\<close>

datatype task_act = New_task coro uintptr | Move_new nat | Move_to nat nat | Start_task nat | Destroy nat bool

record task_pool =
  pool :: "coro_task list"
  destroyed :: "coro list"

fun pool_step :: "task_act \<Rightarrow> task_pool \<Rightarrow> task_pool option" where
  "pool_step (New_task h st) p =
     (if h = 0 \<or> st = 0 then None else Some (p\<lparr>pool := pool p @ [new_coro_task h st]\<rparr>))"
| "pool_step (Move_new i) p =
     (if i < length (pool p)
      then case move_construct (pool p ! i) of
          Some (t, other, ds) \<Rightarrow> Some (p\<lparr>pool := (pool p)[i := other] @ [t], destroyed := destroyed p @ ds\<rparr>)
        | None \<Rightarrow> None
      else None)"
| "pool_step (Move_to i j) p =
     (if i < length (pool p) \<and> j < length (pool p)
      then if i = j then Some p
        else case move_assign (pool p ! i) (pool p ! j) of
          Some (t, other, ds) \<Rightarrow> Some (p\<lparr>pool := (pool p)[j := other, i := t], destroyed := destroyed p @ ds\<rparr>)
        | None \<Rightarrow> None
      else None)"
| "pool_step (Start_task i) p =
     (if i < length (pool p) then Some (p\<lparr>pool := (pool p)[i := fst (start False (pool p ! i))]\<rparr>) else None)"
| "pool_step (Destroy i reached) p =
     (if i < length (pool p)
      then case destruct reached (pool p ! i) of
          Some ds \<Rightarrow> Some (p\<lparr>pool := (pool p)[i := \<lparr>ct_handle = 0, ct_state = 0, ct_started = False\<rparr>],
            destroyed := destroyed p @ ds\<rparr>)
        | None \<Rightarrow> None
      else None)"

fun pool_run :: "task_act list \<Rightarrow> task_pool \<Rightarrow> task_pool option" where
  "pool_run [] p = Some p"
| "pool_run (a # as) p = (case pool_step a p of Some p' \<Rightarrow> pool_run as p' | None \<Rightarrow> None)"

definition owns :: "coro_task \<Rightarrow> coro multiset" where
  "owns t = (if ct_handle t \<noteq> 0 then {#ct_handle t#} else {#})"

definition owned :: "task_pool \<Rightarrow> coro multiset" where
  "owned p = sum_list (map owns (pool p))"

fun created :: "task_act list \<Rightarrow> coro list" where
  "created [] = []"
| "created (New_task h st # as) = h # created as"
| "created (a # as) = created as"

lemma owned_update:
  "i < length ts \<Longrightarrow> sum_list (map owns (ts[i := t])) + owns (ts ! i) = sum_list (map owns ts) + owns t"
  by (rule sum_list_map_update)

definition frames :: "task_pool \<Rightarrow> coro multiset" where
  "frames p = owned p + mset (destroyed p)"

lemma move_construct_frames:
  "move_construct t = Some (u, t', ds) \<Longrightarrow> owns u + owns t' + mset ds = owns t"
  by (auto simp: move_construct_def moved_from_def owns_def Let_def split: if_splits)

lemma move_assign_frames:
  "move_assign self t = Some (u, t', ds) \<Longrightarrow> owns u + owns t' + mset ds = owns self + owns t"
  by (auto simp: move_assign_def moved_from_def owns_def split: if_splits)

lemma destruct_frames:
  "destruct reached t = Some ds \<Longrightarrow> ct_started t \<longrightarrow> ct_state t \<noteq> 0 \<or> ct_handle t = 0 \<Longrightarrow> mset ds = owns t"
  by (auto simp: destruct_def owns_def split: if_splits)

lemma balance_one:
  fixes A :: "'a multiset"
  assumes "A' + x = A + y" "t + y + d = x"
  shows "A' + t + d = A"
proof -
  have "A' + t + d + y = A + y" using assms by (simp add: ac_simps)
  then show ?thesis by (rule add_right_imp_eq)
qed

lemma balance_two:
  fixes A :: "'a multiset"
  assumes "B + x2 = C + t" "C + x1 = A + y" "t + y + d = x2 + x1"
  shows "B + d = A"
proof -
  have "B + d + (t + y + x1) = B + (x2 + x1) + x1" unfolding assms(3) [symmetric] by (simp add: ac_simps)
  also have "\<dots> = (C + x1) + t + x1" using assms(1) by (simp add: ac_simps)
  also have "\<dots> = A + (t + y + x1)" unfolding assms(2) by (simp add: ac_simps)
  finally show ?thesis by (rule add_right_imp_eq)
qed

text \<open>An object with a handle has a state.\<close>

definition pool_good :: "task_pool \<Rightarrow> bool" where
  "pool_good p \<longleftrightarrow> (\<forall>t \<in> set (pool p). ct_handle t \<noteq> 0 \<longrightarrow> ct_state t \<noteq> 0)"

lemma pool_good_update:
  "pool_good p \<Longrightarrow> (ct_handle t \<noteq> 0 \<longrightarrow> ct_state t \<noteq> 0) \<Longrightarrow> pool_good (p\<lparr>pool := (pool p)[i := t]\<rparr>)"
  unfolding pool_good_def using set_update_subset_insert [of "pool p" i t] by auto

lemma pool_step_frames:
  assumes "pool_step a p = Some p'" "pool_good p"
  shows "frames p' = frames p + mset (created [a]) \<and> pool_good p'"
proof (cases a)
  case (New_task h st)
  then show ?thesis using assms
    by (auto simp: frames_def owned_def owns_def new_coro_task_def pool_good_def split: if_splits)
next
  case (Move_new i)
  then obtain t other ds where i: "i < length (pool p)"
    and m: "move_construct (pool p ! i) = Some (t, other, ds)"
    and p': "p' = p\<lparr>pool := (pool p)[i := other] @ [t], destroyed := destroyed p @ ds\<rparr>"
    using assms(1) by (auto split: if_splits option.splits)
  have "frames p' = frames p"
    using balance_one [OF owned_update [OF i, of other] move_construct_frames [OF m]]
    by (simp add: frames_def owned_def p' ac_simps)
  moreover have "ct_handle t \<noteq> 0 \<longrightarrow> ct_state t \<noteq> 0" "ct_handle other = 0"
    using m assms(2) nth_mem [OF i]
    by (auto simp: move_construct_def moved_from_def pool_good_def Let_def split: if_splits)
  then have "pool_good p'"
    using pool_good_update [OF assms(2), of other i] by (auto simp: pool_good_def p')
  ultimately show ?thesis by (simp add: Move_new)
next
  case (Move_to i j)
  show ?thesis
  proof (cases "i = j")
    case True
    then show ?thesis using assms Move_to by (auto split: if_splits)
  next
    case False
    then obtain t other ds where ij: "i < length (pool p)" "j < length (pool p)"
      and m: "move_assign (pool p ! i) (pool p ! j) = Some (t, other, ds)"
      and p': "p' = p\<lparr>pool := (pool p)[j := other, i := t], destroyed := destroyed p @ ds\<rparr>"
      using assms(1) Move_to by (auto split: if_splits option.splits)
    have "sum_list (map owns ((pool p)[j := other, i := t])) + owns (pool p ! i)
        = sum_list (map owns ((pool p)[j := other])) + owns t"
      using owned_update [of i "(pool p)[j := other]" t] ij(1) False by simp
    from balance_two [OF this owned_update [OF ij(2), of other] move_assign_frames [OF m]]
    have "frames p' = frames p" by (simp add: frames_def owned_def p' ac_simps)
    moreover have "ct_handle t \<noteq> 0 \<longrightarrow> ct_state t \<noteq> 0" "ct_handle other = 0"
      using m assms(2) nth_mem [OF ij(2)]
      by (auto simp: move_assign_def moved_from_def pool_good_def split: if_splits)
    then have "pool_good p'"
      using pool_good_update [OF pool_good_update [OF assms(2), of other j], of t i]
      by (auto simp: pool_good_def p')
    ultimately show ?thesis by (simp add: Move_to)
  qed
next
  case (Start_task i)
  then have i: "i < length (pool p)" and p': "p' = p\<lparr>pool := (pool p)[i := fst (start False (pool p ! i))]\<rparr>"
    using assms(1) by (auto split: if_splits)
  have t: "owns (fst (start False (pool p ! i))) = owns (pool p ! i)"
    "ct_handle (fst (start False (pool p ! i))) \<noteq> 0 \<longrightarrow> ct_state (fst (start False (pool p ! i))) \<noteq> 0"
    using assms(2) nth_mem [OF i] by (auto simp: start_def owns_def pool_good_def)
  have "frames p' = frames p"
    using owned_update [OF i, of "fst (start False (pool p ! i))"] t(1) by (simp add: frames_def owned_def p')
  then show ?thesis using pool_good_update [OF assms(2) t(2), of i] by (simp add: Start_task p')
next
  case (Destroy i reached)
  let ?e = "\<lparr>ct_handle = 0, ct_state = 0, ct_started = False\<rparr>"
  obtain ds where i: "i < length (pool p)" and d: "destruct reached (pool p ! i) = Some ds"
    and p': "p' = p\<lparr>pool := (pool p)[i := ?e], destroyed := destroyed p @ ds\<rparr>"
    using assms(1) Destroy by (auto split: if_splits option.splits)
  have "mset ds = owns (pool p ! i)"
    using d assms(2) nth_mem [OF i] by (intro destruct_frames [OF d]) (auto simp: pool_good_def)
  with owned_update [OF i, of ?e] have "frames p' = frames p"
    by (simp add: frames_def owned_def p' owns_def ac_simps)
  then show ?thesis using pool_good_update [OF assms(2), of ?e i] by (simp add: Destroy p' pool_good_def)
qed

lemma pool_run_frames:
  "pool_run as p = Some p' \<Longrightarrow> pool_good p \<Longrightarrow> frames p' = frames p + mset (created as)"
proof (induction "as" p rule: pool_run.induct)
  case (2 a "as" p)
  then obtain q where q: "pool_step a p = Some q" "pool_run as q = Some p'" by (auto split: option.splits)
  have "created (a # as) = created [a] @ created as" by (cases a) auto
  with 2(1) [OF q(1,2)] pool_step_frames [OF q(1) 2(3)] show ?case by (simp add: ac_simps)
qed simp

section \<open>Awaiting a task\<close>

text \<open>
  One coroutine \<open>awaiter\<close> does \<open>co_await task\<close> and then destroys the task, any number of
  threads call \<open>start\<close>, and the task's own coroutine runs when it has been scheduled, ends
  with some outcome and goes through its \<open>final_awaiter\<close>.  \<open>await_suspend\<close> and the
  coroutine it suspended have a program counter each: the coroutine may be resumed while
  \<open>await_suspend\<close> has still to return.  \<open>ended_with\<close> records how the coroutine ended; no
  step reads it.
\<close>

datatype ('v, 'e) body_pc =
    Not_begun | Running | Set_result "'e + 'v" | Finish ready_pc | Publish resume | Transfer resume | Ended resume

datatype await_pc = Aw_ready | Aw_start | Aw_schedule | Aw_cont cont_pc | Aw_done "resume option"

datatype ('v, 'e) coro_pc = Co_suspended | Co_resumed | Co_got "('v, 'e) task_reply" | Co_destroyed

datatype start_pc = St_call | St_schedule | St_done

record ('v, 'e) task_sys =
  sh :: "('v, 'e) coro_shared_state"
  started :: bool
  scheduled :: nat
  body :: "('v, 'e) body_pc"
  aw :: await_pc
  co :: "('v, 'e) coro_pc"
  starters :: "start_pc list"
  resumptions :: nat
  frame :: bool
  ended_with :: "('e + 'v) option"

definition task_init :: "nat \<Rightarrow> ('v, 'e) task_sys" where
  "task_init n = \<lparr>sh = new_shared_state, started = False, scheduled = 0, body = Not_begun, aw = Aw_ready,
     co = Co_suspended, starters = replicate n St_call, resumptions = 0, frame = True,
     ended_with = None\<rparr>"

text \<open>The coroutine that awaits goes on.\<close>

definition resume_awaiter :: "('v, 'e) task_sys \<Rightarrow> ('v, 'e) task_sys" where
  "resume_awaiter t = t\<lparr>co := Co_resumed, resumptions := resumptions t + 1\<rparr>"

fun transfer_to :: "resume \<Rightarrow> ('v, 'e) task_sys \<Rightarrow> ('v, 'e) task_sys" where
  "transfer_to Noop t = t"
| "transfer_to (Resume h) t = resume_awaiter t"

text \<open>
  The body's end: \<open>return_value\<close> or \<open>unhandled_exception\<close>, then \<open>final_awaiter\<close>: the handoff,
  the continuation, the store to \<open>final_suspend_reached\<close> (the last access to the shared
  state), and the transfer.  \<open>spur\<close> marks spurious failures of the handoff's exchange.
\<close>

fun body_step :: "bool \<Rightarrow> ('v, 'e) task_sys \<Rightarrow> ('v, 'e) task_sys option" where
  "body_step spur t =
     (case body t of
        Not_begun \<Rightarrow> (if 0 < scheduled t then Some (t\<lparr>body := Running\<rparr>) else None)
      | Running \<Rightarrow> None
      | Set_result r \<Rightarrow>
          Some (t\<lparr>sh := outcome_state (case r of Inl e \<Rightarrow> sh_set_exception e (sh t) | Inr v \<Rightarrow> sh_set_value v (sh t)) (sh t),
            body := Finish SR_Load\<rparr>)
      | Finish (SR_Ret b) \<Rightarrow>
          Some (t\<lparr>body := Publish (if b then get_continuation (handoff (sh t)) else Noop)\<rparr>)
      | Finish pc \<Rightarrow>
          (case set_ready_step spur (handoff (sh t)) pc of
             (w, pc') \<Rightarrow> Some (t\<lparr>sh := (sh t)\<lparr>handoff := w\<rparr>, body := Finish pc'\<rparr>))
      | Publish r \<Rightarrow> Some (t\<lparr>sh := (sh t)\<lparr>final_suspend_reached := True\<rparr>, body := Transfer r\<rparr>)
      | Transfer r \<Rightarrow> Some (transfer_to r (t\<lparr>body := Ended r\<rparr>))
      | Ended r \<Rightarrow> None)"

text \<open>\<open>await_ready\<close> and \<open>await_suspend\<close>; returning the awaiting handle resumes it.\<close>

fun await_step :: "bool \<Rightarrow> coro \<Rightarrow> ('v, 'e) task_sys \<Rightarrow> ('v, 'e) task_sys option" where
  "await_step spur awaiter t =
     (case aw t of
        Aw_ready \<Rightarrow> Some (if sh_is_ready (sh t) then t\<lparr>aw := Aw_done None, co := Co_resumed\<rparr> else t\<lparr>aw := Aw_start\<rparr>)
      | Aw_start \<Rightarrow> Some (t\<lparr>started := True, aw := (if started t then Aw_cont SC_Load else Aw_schedule)\<rparr>)
      | Aw_schedule \<Rightarrow> Some (t\<lparr>scheduled := scheduled t + 1, aw := Aw_cont SC_Load\<rparr>)
      | Aw_cont (SC_Ret Noop) \<Rightarrow> Some (t\<lparr>aw := Aw_done (Some Noop)\<rparr>)
      | Aw_cont (SC_Ret (Resume h)) \<Rightarrow>
          Some (if h \<noteq> 0 then resume_awaiter (t\<lparr>aw := Aw_done (Some (Resume h))\<rparr>)
                else t\<lparr>aw := Aw_done (Some Noop)\<rparr>)
      | Aw_cont pc \<Rightarrow>
          (case set_continuation_step spur awaiter (handoff (sh t)) pc of
             (w, pc') \<Rightarrow> Some (t\<lparr>sh := (sh t)\<lparr>handoff := w\<rparr>, aw := Aw_cont pc'\<rparr>))
      | Aw_done r \<Rightarrow> None)"

text \<open>\<open>await_resume\<close>, and the destructor's spin and destruction of the frame.\<close>

fun coro_step :: "('v \<Rightarrow> 'v) \<Rightarrow> ('v, 'e) task_sys \<Rightarrow> ('v, 'e) task_sys option" where
  "coro_step moved t =
     (case co t of
        Co_suspended \<Rightarrow> None
      | Co_resumed \<Rightarrow>
          (case sh_get moved (sh t) of
             Ret s ns r \<Rightarrow> Some (t\<lparr>sh := s, co := Co_got r\<rparr>) | Wait c w \<Rightarrow> None)
      | Co_got r \<Rightarrow>
          (if started t \<and> \<not> final_suspend_reached (sh t) then None
           else Some (t\<lparr>co := Co_destroyed, frame := False\<rparr>))
      | Co_destroyed \<Rightarrow> None)"

fun start_step :: "nat \<Rightarrow> ('v, 'e) task_sys \<Rightarrow> ('v, 'e) task_sys option" where
  "start_step i t =
     (case starters t ! i of
        St_call \<Rightarrow> Some (t\<lparr>started := True,
          starters := (starters t)[i := if started t then St_done else St_schedule]\<rparr>)
      | St_schedule \<Rightarrow> Some (t\<lparr>scheduled := scheduled t + 1, starters := (starters t)[i := St_done]\<rparr>)
      | St_done \<Rightarrow> None)"

inductive task_step :: "('v \<Rightarrow> 'v) \<Rightarrow> coro \<Rightarrow> ('v, 'e) task_sys \<Rightarrow> ('v, 'e) task_sys \<Rightarrow> bool"
  for moved awaiter where
  body: "body_step spur t = Some t' \<Longrightarrow> task_step moved awaiter t t'"
| ends: "body t = Running \<Longrightarrow> task_step moved awaiter t (t\<lparr>body := Set_result r, ended_with := Some r\<rparr>)"
| await: "await_step spur awaiter t = Some t' \<Longrightarrow> task_step moved awaiter t t'"
| coro: "coro_step moved t = Some t' \<Longrightarrow> task_step moved awaiter t t'"
| start: "i < length (starters t) \<Longrightarrow> start_step i t = Some t' \<Longrightarrow> task_step moved awaiter t t'"

inductive task_reach :: "('v \<Rightarrow> 'v) \<Rightarrow> coro \<Rightarrow> nat \<Rightarrow> ('v, 'e) task_sys \<Rightarrow> bool" for moved awaiter n where
  start: "task_reach moved awaiter n (task_init n)"
| step: "task_reach moved awaiter n t \<Longrightarrow> task_step moved awaiter t t' \<Longrightarrow> task_reach moved awaiter n t'"

section \<open>The handoff of one task and one awaiter\<close>

definition pair_inv :: "coro \<Rightarrow> uintptr \<Rightarrow> ready_pc \<Rightarrow> cont_pc \<Rightarrow> bool" where
  "pair_inv h w p c \<longleftrightarrow>
     handoff_inv 1 [h] \<lparr>slot = w, producers = [p], consumers = [(h, c)]\<rparr>
     \<and> (is_ready w \<longleftrightarrow> (\<exists>b. p = SR_Ret b)) \<and> (has_continuation w \<longleftrightarrow> (\<exists>r. c = SC_Ret r))"

lemma pair_init: "pair_inv h 0 SR_Load SC_Load"
  using handoff_inv_init [of 1 "[h]"] by (simp add: pair_inv_def handoff_init_def)

lemma pair_producer:
  assumes I: "pair_inv h w p c" and p: "\<forall>b. p \<noteq> SR_Ret b" and h: "aligned h"
    and st: "set_ready_step spur w p = (w', p')"
  shows "pair_inv h w' p' c"
proof -
  let ?s = "\<lparr>slot = w, producers = [p], consumers = [(h, c)]\<rparr>"
  have inv: "handoff_inv 1 [h] ?s" and nr: "\<not> is_ready w" using I p by (simp_all add: pair_inv_def)
  then have ok: "producer_ok w p" by (simp add: handoff_inv_def)
  have "handoff_inv 1 [h] \<lparr>slot = w', producers = [p'], consumers = [(h, c)]\<rparr>"
    using handoff_inv_producer [OF inv, of 0 p spur w' p'] p st by simp
  moreover have "is_ready w' \<longleftrightarrow> (\<exists>b. p' = SR_Ret b)" "has_continuation w' = has_continuation w"
    by (rule set_ready_step_cases [OF st p ok];
        use nr in \<open>cases p'; simp add: handoff_bits\<close>)+
  ultimately show ?thesis using I by (simp add: pair_inv_def)
qed

lemma pair_consumer:
  assumes I: "pair_inv h w p c" and c: "\<forall>r. c \<noteq> SC_Ret r" and h: "aligned h"
    and st: "set_continuation_step spur h w c = (w', c')"
  shows "pair_inv h w' p c'"
proof -
  let ?s = "\<lparr>slot = w, producers = [p], consumers = [(h, c)]\<rparr>"
  have inv: "handoff_inv 1 [h] ?s" and nr: "\<not> has_continuation w" using I c by (simp_all add: pair_inv_def)
  then have ok: "consumer_ok w (h, c)" by (simp add: handoff_inv_def)
  have "handoff_inv 1 [h] \<lparr>slot = w', producers = [p], consumers = [(h, c')]\<rparr>"
    using handoff_inv_consumer [OF inv _ _ _ c, of 0 h spur w' c'] c st h by simp
  moreover have "has_continuation w' \<longleftrightarrow> (\<exists>r. c' = SC_Ret r)" "is_ready w' = is_ready w"
    by (rule set_continuation_step_cases [OF st c ok];
        use nr h in \<open>cases c'; simp add: handoff_bits\<close>)+
  ultimately show ?thesis using I by (simp add: pair_inv_def)
qed

lemma pair_facts:
  assumes "pair_inv h w p c" "aligned h"
  shows "p = SR_Ret True \<Longrightarrow> get_continuation w = Resume h \<and> (\<exists>r. c = SC_Ret r)"
    and "c = SC_Ret (Resume a) \<Longrightarrow> a = h \<and> h \<noteq> 0 \<and> (\<exists>b. p = SR_Ret b)"
    and "\<not> (p = SR_Ret True \<and> c = SC_Ret (Resume a))"
    and "p = SR_Ret b \<Longrightarrow> c = SC_Ret r \<Longrightarrow> b \<or> r = Resume h"
proof -
  have inv: "handoff_inv 1 [h] \<lparr>slot = w, producers = [p], consumers = [(h, c)]\<rparr>"
    and rd: "is_ready w \<longleftrightarrow> (\<exists>b. p = SR_Ret b)" and hc: "has_continuation w \<longleftrightarrow> (\<exists>r. c = SC_Ret r)"
    using assms(1) by (simp_all add: pair_inv_def)
  have win: "(if p = SR_Ret True then 1 else 0) + (if consumer_wins (h, c) then 1 else 0)
      = (if is_ready w \<and> has_continuation w then 1 else (0::nat))"
    using inv by (simp add: handoff_inv_def winners_def split: if_splits)
  have ok: "consumer_ok w (h, c)" "has_continuation w \<Longrightarrow> w AND ADDR_MASK = h"
    using inv by (simp_all add: handoff_inv_def)
  show "p = SR_Ret True \<Longrightarrow> get_continuation w = Resume h \<and> (\<exists>r. c = SC_Ret r)"
    using win ok(2) hc assms(2)
    by (auto simp: get_continuation_def Let_def aligned_def split: if_splits)
  show "c = SC_Ret (Resume a) \<Longrightarrow> a = h \<and> h \<noteq> 0 \<and> (\<exists>b. p = SR_Ret b)"
    using win ok(1) rd assms(2) by (auto simp: aligned_def split: if_splits)
  show "\<not> (p = SR_Ret True \<and> c = SC_Ret (Resume a))" using win by (auto split: if_splits)
  show "p = SR_Ret b \<Longrightarrow> c = SC_Ret r \<Longrightarrow> b \<or> r = Resume h"
    using win rd hc ok(1) by (cases r) (auto split: if_splits)
qed

section \<open>The invariant of an awaited task\<close>

fun producer_pc :: "('v, 'e) body_pc \<Rightarrow> ready_pc" where
  "producer_pc (Finish pc) = pc"
| "producer_pc (Publish r) = SR_Ret (r \<noteq> Noop)"
| "producer_pc (Transfer r) = SR_Ret (r \<noteq> Noop)"
| "producer_pc (Ended r) = SR_Ret (r \<noteq> Noop)"
| "producer_pc _ = SR_Load"

fun consumer_pc :: "await_pc \<Rightarrow> cont_pc" where
  "consumer_pc (Aw_cont pc) = pc"
| "consumer_pc (Aw_done (Some r)) = SC_Ret r"
| "consumer_pc _ = SC_Load"

fun has_result :: "('v, 'e) body_pc \<Rightarrow> bool" where
  "has_result Not_begun \<longleftrightarrow> False" | "has_result Running \<longleftrightarrow> False"
| "has_result (Set_result r) \<longleftrightarrow> False" | "has_result _ \<longleftrightarrow> True"

fun at_end :: "('v, 'e) body_pc \<Rightarrow> bool" where
  "at_end (Transfer r) \<longleftrightarrow> True" | "at_end (Ended r) \<longleftrightarrow> True" | "at_end _ \<longleftrightarrow> False"

fun reply_of :: "'e + 'v \<Rightarrow> ('v, 'e) task_reply" where
  "reply_of (Inl e) = Rp_throw e" | "reply_of (Inr v) = Rp_return v"

fun result_of :: "'e + 'v \<Rightarrow> ('v, 'e) task_result" where
  "result_of (Inl e) = Exception_ptr e" | "result_of (Inr v) = Value v"

definition starts_due :: "('v, 'e) task_sys \<Rightarrow> nat" where
  "starts_due t = (if aw t = Aw_schedule then 1 else 0) + length (filter (\<lambda>p. p = St_schedule) (starters t))"

definition started_right :: "('v, 'e) task_sys \<Rightarrow> bool" where
  "started_right t \<longleftrightarrow> scheduled t + starts_due t = (if started t then 1 else 0)
     \<and> (body t \<noteq> Not_begun \<longrightarrow> 0 < scheduled t)
     \<and> (aw t \<noteq> Aw_ready \<and> aw t \<noteq> Aw_start \<longrightarrow> started t)"

definition result_right :: "('v, 'e) task_sys \<Rightarrow> bool" where
  "result_right t \<longleftrightarrow> (ready (sh t) \<longleftrightarrow> has_result (body t))
     \<and> (final_suspend_reached (sh t) \<longleftrightarrow> at_end (body t))
     \<and> (\<forall>r. body t = Set_result r \<longrightarrow> ended_with t = Some r)
     \<and> (has_result (body t) \<longrightarrow> (\<exists>r. ended_with t = Some r
          \<and> (co t = Co_suspended \<or> co t = Co_resumed \<longrightarrow> result (sh t) = result_of r)
          \<and> (\<forall>x. co t = Co_got x \<longrightarrow> x = reply_of r)))"

fun final_won :: "('v, 'e) body_pc \<Rightarrow> bool" where
  "final_won (Ended (Resume h)) \<longleftrightarrow> True" | "final_won _ \<longleftrightarrow> False"

fun await_won :: "await_pc \<Rightarrow> bool" where
  "await_won (Aw_done (Some (Resume h))) \<longleftrightarrow> True" | "await_won _ \<longleftrightarrow> False"

definition resumed_by :: "('v, 'e) task_sys \<Rightarrow> bool" where
  "resumed_by t \<longleftrightarrow> resumptions t = (if final_won (body t) then 1 else 0) + (if await_won (aw t) then 1 else 0)
     \<and> (co t = Co_suspended \<longleftrightarrow> resumptions t = 0 \<and> aw t \<noteq> Aw_done None)
     \<and> (aw t = Aw_done None \<longrightarrow> has_result (body t))
     \<and> (frame t \<longleftrightarrow> co t \<noteq> Co_destroyed) \<and> (\<not> frame t \<longrightarrow> at_end (body t))"

definition task_inv :: "coro \<Rightarrow> ('v, 'e) task_sys \<Rightarrow> bool" where
  "task_inv h t \<longleftrightarrow> pair_inv h (handoff (sh t)) (producer_pc (body t)) (consumer_pc (aw t))
     \<and> started_right t \<and> result_right t \<and> resumed_by t"

lemma task_inv_init: "task_inv h (task_init n)"
proof -
  have "filter (\<lambda>p. p = St_schedule) (replicate n St_call) = []" by (simp add: filter_empty_conv)
  then show ?thesis
    by (simp add: task_inv_def task_init_def pair_init new_shared_state_def started_right_def starts_due_def
        result_right_def resumed_by_def)
qed

lemma task_inv_parts:
  assumes "task_inv h t"
  shows "pair_inv h (handoff (sh t)) (producer_pc (body t)) (consumer_pc (aw t))"
    "started_right t" "result_right t" "resumed_by t"
  using assms by (simp_all add: task_inv_def)

lemma task_invI:
  "pair_inv h (handoff (sh t)) (producer_pc (body t)) (consumer_pc (aw t)) \<Longrightarrow>
   started_right t \<Longrightarrow> result_right t \<Longrightarrow> resumed_by t \<Longrightarrow> task_inv h t"
  by (simp add: task_inv_def)

text \<open>Nobody has been resumed while the coroutine has not stored its result.\<close>

lemma suspended_before_result:
  assumes I: "task_inv h t" and h: "aligned h" and b: "\<not> has_result (body t)"
  shows "resumptions t = 0 \<and> co t = Co_suspended"
proof -
  note M = task_inv_parts(4) [OF I]
  have "\<not> final_won (body t)" using b by (cases "body t" rule: final_won.cases) auto
  moreover have "producer_pc (body t) = SR_Load" using b by (cases "body t") auto
  then have "\<not> await_won (aw t)"
    using pair_facts(2) [OF task_inv_parts(1) [OF I] h]
    by (cases "aw t" rule: await_won.cases) auto
  ultimately show ?thesis using M b by (auto simp: resumed_by_def)
qed

lemma result_step:
  assumes I: "task_inv h t" and h: "aligned h" and b: "body t = Set_result r"
    and s: "result s = result_of r" "ready s" "final_suspend_reached s = final_suspend_reached (sh t)"
      "handoff s = handoff (sh t)"
  shows "task_inv h (t\<lparr>sh := s, body := Finish SR_Load\<rparr>)"
proof -
  note P = task_inv_parts(1) [OF I] and S = task_inv_parts(2) [OF I]
    and R = task_inv_parts(3) [OF I] and M = task_inv_parts(4) [OF I]
  have "co t = Co_suspended" using suspended_before_result [OF I h] b by simp
  show ?thesis
  proof (rule task_invI)
    show "started_right (t\<lparr>sh := s, body := Finish SR_Load\<rparr>)"
      using S b by (simp add: started_right_def starts_due_def)
    show "result_right (t\<lparr>sh := s, body := Finish SR_Load\<rparr>)"
      using R b s \<open>co t = Co_suspended\<close> by (simp add: result_right_def)
    show "resumed_by (t\<lparr>sh := s, body := Finish SR_Load\<rparr>)"
      using M b by (auto simp: resumed_by_def)
  qed (use P b s in simp)
qed

lemma body_moves:
  assumes I: "task_inv h t" and t': "t' = t\<lparr>sh := (sh t)\<lparr>handoff := w, final_suspend_reached := at_end b\<rparr>, body := b\<rparr>"
    and P: "pair_inv h w (producer_pc b) (consumer_pc (aw t))"
    and b: "has_result b" "has_result (body t)" "\<not> final_won b" "\<not> final_won (body t)" "at_end (body t) \<longrightarrow> at_end b"
  shows "task_inv h t'"
proof (rule task_invI)
  note S = task_inv_parts(2) [OF I] and R = task_inv_parts(3) [OF I] and M = task_inv_parts(4) [OF I]
  have nb: "body t \<noteq> Not_begun" "b \<noteq> Not_begun" "\<nexists>r. b = Set_result r" using b(1,2) by auto
  show "started_right t'" using S nb by (simp add: started_right_def starts_due_def t')
  show "result_right t'" using R nb b by (simp add: result_right_def t')
  show "resumed_by t'" using M b by (auto simp: resumed_by_def t')
qed (use P in \<open>simp add: t'\<close>)

lemma body_resumes:
  assumes I: "task_inv h t" and h: "aligned h" and b: "body t = Transfer (Resume a)"
  shows "task_inv h (resume_awaiter (t\<lparr>body := Ended (Resume a)\<rparr>))"
proof (rule task_invI)
  let ?t = "resume_awaiter (t\<lparr>body := Ended (Resume a)\<rparr>)"
  note P = task_inv_parts(1) [OF I] and S = task_inv_parts(2) [OF I]
    and R = task_inv_parts(3) [OF I] and M = task_inv_parts(4) [OF I]
  have pair: "pair_inv h (handoff (sh t)) (SR_Ret True) (consumer_pc (aw t))" using P b by simp
  have aw: "\<not> await_won (aw t)" "aw t \<noteq> Aw_done None"
    using pair_facts(1,3) [OF pair h] by (cases "aw t" rule: await_won.cases; auto)+
  with M b have co: "co t = Co_suspended" "resumptions t = 0" "frame t" by (auto simp: resumed_by_def)
  show "started_right ?t" using S b by (simp add: started_right_def starts_due_def resume_awaiter_def)
  show "result_right ?t" using R b co by (simp add: result_right_def resume_awaiter_def)
  show "resumed_by ?t" using M b co aw by (simp add: resumed_by_def resume_awaiter_def)
qed (use I b in \<open>simp add: resume_awaiter_def task_inv_def\<close>)

lemma task_inv_body:
  assumes I: "task_inv h t" and h: "aligned h" and st: "body_step spur t = Some t'"
  shows "task_inv h t'"
proof (cases "body t")
  case Not_begun
  note S = task_inv_parts(2) [OF I] and R = task_inv_parts(3) [OF I] and M = task_inv_parts(4) [OF I]
  have t': "t' = t\<lparr>body := Running\<rparr>" "0 < scheduled t" using st Not_begun by (auto split: if_splits)
  show ?thesis
  proof (rule task_invI)
    show "started_right t'" using S t' by (simp add: started_right_def starts_due_def)
    show "result_right t'" using R Not_begun by (simp add: result_right_def t'(1))
    show "resumed_by t'" using M Not_begun by (auto simp: resumed_by_def t'(1))
  qed (use task_inv_parts(1) [OF I] Not_begun in \<open>simp add: t'(1)\<close>)
next
  case (Set_result r)
  then show ?thesis using st
    by (cases r) (auto simp: sh_set_exception_def sh_set_value_def intro!: result_step [OF I h])
next
  case (Finish pc)
  note P = task_inv_parts(1) [OF I]
  have f: "\<not> final_suspend_reached (sh t)" using task_inv_parts(3) [OF I] Finish by (simp add: result_right_def)
  then have sh: "(sh t)\<lparr>handoff := w, final_suspend_reached := False\<rparr> = (sh t)\<lparr>handoff := w\<rparr>" for w
    by (cases "sh t") simp
  have same: "t\<lparr>sh := (sh t)\<lparr>final_suspend_reached := False\<rparr>, body := b\<rparr> = t\<lparr>body := b\<rparr>" for b
    using f by (cases t; cases "sh t") simp
  show ?thesis
  proof (cases "\<exists>b. pc = SR_Ret b")
    case True
    then obtain b where b: "pc = SR_Ret b" by blast
    let ?r = "if b then get_continuation (handoff (sh t)) else Noop"
    have t': "t' = t\<lparr>body := Publish ?r\<rparr>" using st Finish b by simp
    have pair: "pair_inv h (handoff (sh t)) (SR_Ret b) (consumer_pc (aw t))" using P Finish b by simp
    then have "producer_pc (Publish ?r :: ('a, 'b) body_pc) = SR_Ret b"
      using pair_facts(1) [OF pair h] by (cases b) simp_all
    with pair have "pair_inv h (handoff (sh t)) (producer_pc (Publish ?r :: ('a, 'b) body_pc)) (consumer_pc (aw t))"
      by simp
    with Finish show ?thesis
      by (intro body_moves [OF I, where w = "handoff (sh t)" and b = "Publish ?r"])
        (simp_all add: t' sh same)
  next
    case False
    obtain w pc' where s: "set_ready_step spur (handoff (sh t)) pc = (w, pc')" by fastforce
    then have t': "t' = t\<lparr>sh := (sh t)\<lparr>handoff := w\<rparr>, body := Finish pc'\<rparr>"
      using st Finish False by (cases pc) auto
    have "pair_inv h w pc' (consumer_pc (aw t))"
      using P Finish False by (intro pair_producer [OF _ _ h s]) simp_all
    with Finish show ?thesis
      by (intro body_moves [OF I, where w = w and b = "Finish pc'"]) (simp_all add: t' sh)
  qed
next
  case (Publish r)
  have "t' = t\<lparr>sh := (sh t)\<lparr>handoff := handoff (sh t), final_suspend_reached := True\<rparr>, body := Transfer r\<rparr>"
    using st Publish by simp
  with Publish task_inv_parts(1) [OF I] show ?thesis
    by (intro body_moves [OF I, where w = "handoff (sh t)" and b = "Transfer r"]) simp_all
next
  case (Transfer r)
  show ?thesis
  proof (cases r)
    case Noop
    have f: "final_suspend_reached (sh t)" using task_inv_parts(3) [OF I] Transfer by (simp add: result_right_def)
    then have "(sh t)\<lparr>handoff := handoff (sh t), final_suspend_reached := True\<rparr> = sh t" by (cases "sh t") simp
    with Transfer Noop st task_inv_parts(1) [OF I] show ?thesis
      by (intro body_moves [OF I, where w = "handoff (sh t)" and b = "Ended Noop"]) simp_all
  next
    case (Resume a)
    with Transfer st body_resumes [OF I h] show ?thesis by simp
  qed
qed (use st in simp_all)

lemma await_moves:
  assumes I: "task_inv h t" and t': "t' = t\<lparr>sh := (sh t)\<lparr>handoff := w\<rparr>, started := True, scheduled := n, aw := a\<rparr>"
    and P: "pair_inv h w (producer_pc (body t)) (consumer_pc a)"
    and a: "\<not> await_won a" "\<not> await_won (aw t)" "a \<noteq> Aw_done None" "aw t \<noteq> Aw_done None"
      "a \<noteq> Aw_ready" "a \<noteq> Aw_start"
    and n: "n + (if a = Aw_schedule then 1 else 0) =
      scheduled t + (if aw t = Aw_schedule then 1 else 0) + (if started t then 0 else 1)" "scheduled t \<le> n"
  shows "task_inv h t'"
proof (rule task_invI)
  note S = task_inv_parts(2) [OF I] and R = task_inv_parts(3) [OF I] and M = task_inv_parts(4) [OF I]
  show "started_right t'" using S n by (auto simp: started_right_def starts_due_def t' split: if_splits)
  show "result_right t'" using R by (simp add: result_right_def t')
  show "resumed_by t'" using M a by (simp add: resumed_by_def t')
qed (use P in \<open>simp add: t'\<close>)

lemma await_resumes:
  assumes I: "task_inv h t" and h: "aligned h" and a: "aw t = Aw_cont (SC_Ret (Resume a))"
  shows "a \<noteq> 0 \<and> task_inv h (resume_awaiter (t\<lparr>aw := Aw_done (Some (Resume a))\<rparr>))"
proof
  let ?t = "resume_awaiter (t\<lparr>aw := Aw_done (Some (Resume a))\<rparr>)"
  note P = task_inv_parts(1) [OF I] and S = task_inv_parts(2) [OF I]
    and R = task_inv_parts(3) [OF I] and M = task_inv_parts(4) [OF I]
  have pair: "pair_inv h (handoff (sh t)) (producer_pc (body t)) (SC_Ret (Resume a))" using P a by simp
  have f: "a = h" "h \<noteq> 0" "\<exists>b. producer_pc (body t) = SR_Ret b" "producer_pc (body t) \<noteq> SR_Ret True"
    using pair_facts [OF pair h] by auto
  then show "a \<noteq> 0" by simp
  have b: "has_result (body t)" "\<not> final_won (body t)" using f(3,4) by (cases "body t" rule: final_won.cases; auto)+
  with M a have co: "co t = Co_suspended" "resumptions t = 0" "frame t" by (auto simp: resumed_by_def)
  show "task_inv h ?t"
  proof (rule task_invI)
    show "started_right ?t" using S a by (simp add: started_right_def starts_due_def resume_awaiter_def)
    show "result_right ?t" using R b co by (simp add: result_right_def resume_awaiter_def)
    show "resumed_by ?t" using M b co a by (simp add: resumed_by_def resume_awaiter_def)
  qed (use pair in \<open>simp add: resume_awaiter_def\<close>)
qed

lemma handoff_same: "(s :: ('v, 'e) coro_shared_state)\<lparr>handoff := handoff s\<rparr> = s"
  by (cases s) simp

lemma task_inv_ready_path:
  assumes I: "task_inv h t" and a: "aw t = Aw_ready" and r: "ready (sh t)"
  shows "task_inv h (t\<lparr>aw := Aw_done None, co := Co_resumed\<rparr>)"
proof (rule task_invI)
  let ?t = "t\<lparr>aw := Aw_done None, co := Co_resumed\<rparr>"
  note P = task_inv_parts(1) [OF I] and S = task_inv_parts(2) [OF I]
    and R = task_inv_parts(3) [OF I] and M = task_inv_parts(4) [OF I]
  have b: "has_result (body t)" using R r by (simp add: result_right_def)
  then have nb: "body t \<noteq> Not_begun" "\<nexists>r. body t = Set_result r" by auto
  have s: "started t" using S nb by (auto simp: started_right_def split: if_splits)
  show "started_right ?t" using S a s by (simp add: started_right_def starts_due_def)
  have nf: "\<not> final_won (body t)"
  proof
    assume "final_won (body t)"
    then have "producer_pc (body t) = SR_Ret True" by (cases "body t" rule: final_won.cases) auto
    with P a have "has_continuation (handoff (sh t))" "\<not> has_continuation (handoff (sh t))"
      by (auto simp: pair_inv_def handoff_inv_def winners_def split: if_splits)
    then show False by blast
  qed
  with M a have co: "co t = Co_suspended" "frame t" "resumptions t = 0" by (auto simp: resumed_by_def)
  show "result_right ?t" using R b nb co by (simp add: result_right_def)
  show "resumed_by ?t" using M a b nf co by (simp add: resumed_by_def)
qed (use task_inv_parts(1) [OF I] a in simp)

lemma task_inv_await:
  assumes I: "task_inv h t" and h: "aligned h" and st: "await_step spur h t = Some t'"
  shows "task_inv h t'"
proof (cases "aw t")
  case Aw_ready
  note P = task_inv_parts(1) [OF I] and S = task_inv_parts(2) [OF I]
    and R = task_inv_parts(3) [OF I] and M = task_inv_parts(4) [OF I]
  show ?thesis
  proof (cases "ready (sh t)")
    case True
    with task_inv_ready_path [OF I Aw_ready] Aw_ready st show ?thesis by (simp add: sh_is_ready_def)
  next
    case False
    then have t': "t' = t\<lparr>aw := Aw_start\<rparr>" using st Aw_ready by (simp add: sh_is_ready_def)
    show ?thesis
    proof (rule task_invI)
      show "started_right t'" using S Aw_ready by (simp add: started_right_def starts_due_def t')
      show "result_right t'" using R by (simp add: result_right_def t')
      show "resumed_by t'" using M Aw_ready by (simp add: resumed_by_def t')
    qed (use P Aw_ready in \<open>simp add: t'\<close>)
  qed
next
  case Aw_start
  have "t' = t\<lparr>sh := (sh t)\<lparr>handoff := handoff (sh t)\<rparr>, started := True, scheduled := scheduled t,
      aw := if started t then Aw_cont SC_Load else Aw_schedule\<rparr>"
    using st Aw_start by (simp add: handoff_same)
  then show ?thesis
    by (rule await_moves [OF I]) (use Aw_start task_inv_parts(1) [OF I] in \<open>auto\<close>)
next
  case Aw_schedule
  have s: "started t" using task_inv_parts(2) [OF I] Aw_schedule by (simp add: started_right_def)
  have "t' = t\<lparr>sh := (sh t)\<lparr>handoff := handoff (sh t)\<rparr>, started := True, scheduled := scheduled t + 1,
      aw := Aw_cont SC_Load\<rparr>"
    using st Aw_schedule s by (cases t) (simp add: handoff_same)
  then show ?thesis
    by (rule await_moves [OF I]) (use Aw_schedule s task_inv_parts(1) [OF I] in \<open>auto\<close>)
next
  case (Aw_cont pc)
  note P = task_inv_parts(1) [OF I]
  then have pair: "pair_inv h (handoff (sh t)) (producer_pc (body t)) pc" using Aw_cont by simp
  have s: "started t" using task_inv_parts(2) [OF I] Aw_cont by (simp add: started_right_def)
  then have st_same: "t\<lparr>sh := x, started := True, scheduled := scheduled t, aw := y\<rparr> = t\<lparr>sh := x, aw := y\<rparr>"
    for x y by (cases t) simp
  show ?thesis
  proof (cases "\<exists>r. pc = SC_Ret r")
    case True
    then obtain r where r: "pc = SC_Ret r" by blast
    show ?thesis
    proof (cases r)
      case Noop
      have "t' = t\<lparr>sh := (sh t)\<lparr>handoff := handoff (sh t)\<rparr>, started := True, scheduled := scheduled t,
          aw := Aw_done (Some Noop)\<rparr>"
        using st Aw_cont r Noop s by (cases t) (simp add: handoff_same)
      then show ?thesis
        by (rule await_moves [OF I]) (use Aw_cont r Noop s pair in auto)
    next
      case (Resume a)
      with await_resumes [OF I h, of a] Aw_cont r st show ?thesis by simp
    qed
  next
    case False
    obtain w pc' where c: "set_continuation_step spur h (handoff (sh t)) pc = (w, pc')" by fastforce
    have "t' = t\<lparr>sh := (sh t)\<lparr>handoff := w\<rparr>, aw := Aw_cont pc'\<rparr>"
      using c False st Aw_cont by (cases pc) (auto simp del: set_continuation_step.simps)
    then have t': "t' = t\<lparr>sh := (sh t)\<lparr>handoff := w\<rparr>, started := True, scheduled := scheduled t, aw := Aw_cont pc'\<rparr>"
      by (simp only: st_same)
    have "pair_inv h w (producer_pc (body t)) pc'"
      using False by (intro pair_consumer [OF pair _ h c]) simp
    then show ?thesis
      by (intro await_moves [OF I t']) (use Aw_cont s in auto)
  qed
qed (use st in simp)

lemma task_inv_coro:
  fixes t :: "('v, 'e) task_sys"
  assumes I: "task_inv h t" and h: "aligned h" and st: "coro_step moved t = Some t'"
  shows "task_inv h t'"
proof (cases "co t")
  note P = task_inv_parts(1) [OF I] and S = task_inv_parts(2) [OF I]
    and R = task_inv_parts(3) [OF I] and M = task_inv_parts(4) [OF I]
  case Co_resumed
  have b: "has_result (body t)" using suspended_before_result [OF I h] Co_resumed by auto
  then obtain r where r: "ready (sh t)" "ended_with t = Some r" "result (sh t) = result_of r"
    using R Co_resumed by (auto simp: result_right_def)
  define s where "s = (case r of Inl e \<Rightarrow> sh t | Inr v \<Rightarrow> (sh t)\<lparr>result := Value (moved v)\<rparr>)"
  have s: "handoff s = handoff (sh t)" "ready s" "final_suspend_reached s = final_suspend_reached (sh t)"
    using r(1) by (cases r; simp add: s_def)+
  have t': "t' = t\<lparr>sh := s, co := Co_got (reply_of r)\<rparr>"
    using st Co_resumed r by (cases r) (auto simp: sh_defs s_def)
  have nb: "body t \<noteq> Not_begun" "\<nexists>r. body t = Set_result r" using b by auto
  show ?thesis
  proof (rule task_invI)
    show "started_right t'" using S by (simp add: started_right_def starts_due_def t')
    show "result_right t'" using R b nb r s by (simp add: result_right_def t')
    show "resumed_by t'" using M Co_resumed by (auto simp: resumed_by_def t')
  qed (use P s in \<open>simp add: t'\<close>)
next
  note P = task_inv_parts(1) [OF I] and S = task_inv_parts(2) [OF I]
    and R = task_inv_parts(3) [OF I] and M = task_inv_parts(4) [OF I]
  case (Co_got r)
  have b: "has_result (body t)" using suspended_before_result [OF I h] Co_got by auto
  then have nb: "body t \<noteq> Not_begun" "\<nexists>r. body t = Set_result r" by auto
  then have "started t" using S by (auto simp: started_right_def split: if_splits)
  then have t': "t' = t\<lparr>co := Co_destroyed, frame := False\<rparr>" "final_suspend_reached (sh t)"
    using st Co_got by (auto split: if_splits)
  show ?thesis
  proof (rule task_invI)
    show "started_right t'" using S by (simp add: started_right_def starts_due_def t')
    show "result_right t'" using R b nb by (auto simp: result_right_def t')
    show "resumed_by t'" using M R Co_got t'(2) by (auto simp: resumed_by_def result_right_def t'(1))
  qed (use P in \<open>simp add: t'\<close>)
qed (use st in simp_all)

lemma task_inv_start:
  assumes I: "task_inv h t" and i: "i < length (starters t)" and st: "start_step i t = Some t'"
  shows "task_inv h t'"
proof -
  note P = task_inv_parts(1) [OF I] and S = task_inv_parts(2) [OF I]
    and R = task_inv_parts(3) [OF I] and M = task_inv_parts(4) [OF I]
  have upd: "length (filter (\<lambda>p. p = St_schedule) ((starters t)[i := x])) + (if starters t ! i = St_schedule then 1 else 0)
      = length (filter (\<lambda>p. p = St_schedule) (starters t)) + (if x = St_schedule then 1 else 0)" for x
    using length_filter_update [OF i, of "\<lambda>p. p = St_schedule" x] by simp
  have same: "sh t' = sh t" "body t' = body t" "aw t' = aw t" "co t' = co t" "frame t' = frame t"
    "resumptions t' = resumptions t" "ended_with t' = ended_with t"
    using st by (auto split: start_pc.splits)
  show ?thesis
  proof (rule task_invI)
    show "started_right t'"
      using S st upd [of St_done] upd [of St_schedule]
      by (cases "starters t ! i") (auto simp: started_right_def starts_due_def simp del: length_0_conv split: if_splits)
    show "result_right t'" using R by (simp add: result_right_def same)
    show "resumed_by t'" using M by (simp add: resumed_by_def same)
  qed (use P in \<open>simp add: same\<close>)
qed

lemma task_inv_ends:
  assumes I: "task_inv h t" and h: "aligned h" and b: "body t = Running"
  shows "task_inv h (t\<lparr>body := Set_result r, ended_with := Some r\<rparr>)"
proof (rule task_invI)
  let ?t = "t\<lparr>body := Set_result r, ended_with := Some r\<rparr>"
  note P = task_inv_parts(1) [OF I] and S = task_inv_parts(2) [OF I]
    and R = task_inv_parts(3) [OF I] and M = task_inv_parts(4) [OF I]
  show "started_right ?t" using S b by (simp add: started_right_def starts_due_def)
  show "result_right ?t" using R b by (simp add: result_right_def)
  show "resumed_by ?t" using M b by (auto simp: resumed_by_def)
qed (use task_inv_parts(1) [OF I] b in simp)

lemma task_inv_step:
  assumes "task_step moved h t t'" "task_inv h t" "aligned h"
  shows "task_inv h t'"
  using assms
  by (induction rule: task_step.induct)
    (blast intro: task_inv_body task_inv_ends task_inv_await task_inv_coro task_inv_start)+

lemma task_inv_reach: "task_reach moved h n t \<Longrightarrow> aligned h \<Longrightarrow> task_inv h t"
  by (induction rule: task_reach.induct) (blast intro: task_inv_init task_inv_step)+

section \<open>Properties\<close>

text \<open>
  Every frame has one owner: whatever a program does with task objects (create, move, start,
  destroy), the frames created are, as a multiset, those the objects own together with those
  destroyed; so no frame is destroyed twice, owned twice, or owned after its destruction.
\<close>

theorem frames_owned_once:
  assumes "pool_run as \<lparr>pool = [], destroyed = []\<rparr> = Some p"
  shows "mset (created as) = owned p + mset (destroyed p)
    \<and> (distinct (created as) \<longrightarrow> distinct (destroyed p)
        \<and> (\<forall>h. count (owned p) h \<le> 1 \<and> (h \<in># owned p \<longrightarrow> h \<notin> set (destroyed p))))"
proof -
  have eq: "mset (created as) = owned p + mset (destroyed p)"
    using pool_run_frames [OF assms] by (simp add: frames_def owned_def pool_good_def)
  moreover have "distinct (destroyed p)
        \<and> (\<forall>h. count (owned p) h \<le> 1 \<and> (h \<in># owned p \<longrightarrow> h \<notin> set (destroyed p)))"
    if d: "distinct (created as)"
  proof -
    have c: "count (owned p) h + count (mset (destroyed p)) h \<le> 1" for h
    proof -
      have "count (mset (created as)) h \<le> 1" using d by (simp add: distinct_count_atmost_1)
      then show ?thesis by (simp add: eq)
    qed
    have "count (mset (destroyed p)) h = (if h \<in> set (destroyed p) then 1 else 0)" for h
      using c [of h] count_greater_zero_iff [of "mset (destroyed p)" h]
        not_in_iff [of h "mset (destroyed p)"] by (auto simp del: count_greater_zero_iff)
    then have "distinct (destroyed p)" by (simp add: distinct_count_atmost_1)
    moreover have "count (owned p) h \<le> 1" for h using c [of h] by simp
    moreover have "h \<notin> set (destroyed p)" if "h \<in># owned p" for h
    proof
      assume "h \<in> set (destroyed p)"
      then have "0 < count (mset (destroyed p)) h" "0 < count (owned p) h" using that by simp_all
      with c [of h] show False by linarith
    qed
    ultimately show ?thesis by blast
  qed
  ultimately show ?thesis by blast
qed

lemma sh_history_step:
  fixes h :: "(('v, 'e) shared_op \<times> ('v, 'e) task_reply) list"
  assumes "(h = [] \<and> \<not> ready s)
    \<or> ready s \<and> (\<exists>v k. result s = Value ((moved ^^ k) v)
        \<and> h = map (\<lambda>n. (Sh_get, Rp_return ((moved ^^ n) v))) (rev [0..<k]) @ [(Sh_set_value v, Rp_unit)])
    \<or> ready s \<and> (\<exists>e k. result s = Exception_ptr e \<and> h = replicate k (Sh_get, Rp_throw e) @ [(Sh_set_exception e, Rp_unit)])"
    (is "?N h s \<or> ready s \<and> ?V h s \<or> ready s \<and> ?E h s")
    and "sh_exec moved x s = Ret s' ns r" "sh_ok x s"
  shows "?N ((x, r) # h) s' \<or> ready s' \<and> ?V ((x, r) # h) s' \<or> ready s' \<and> ?E ((x, r) # h) s'"
proof (cases x)
  case (Sh_set_value v)
  then have "h = []" "s' = s\<lparr>result := Value v, ready := True\<rparr>" "r = Rp_unit"
    using assms by (auto simp: sh_set_value_def)
  then have "ready s' \<and> ?V ((x, r) # h) s'"
    using Sh_set_value by (auto intro!: exI [of _ v] exI [of _ 0])
  then show ?thesis by blast
next
  case (Sh_set_exception e)
  then have "h = []" "s' = s\<lparr>result := Exception_ptr e, ready := True\<rparr>" "r = Rp_unit"
    using assms by (auto simp: sh_set_exception_def)
  then have "ready s' \<and> ?E ((x, r) # h) s'"
    using Sh_set_exception by (auto intro!: exI [of _ 0])
  then show ?thesis by blast
next
  case Sh_get
  then have rd: "ready s" "sh_take moved s = Ret s' ns r"
    using assms(2) by (auto simp: sh_get_def wait_for_condition_def split: if_splits)
  with assms(1) consider "?V h s" | "?E h s" by blast
  then show ?thesis
  proof cases
    case 1
    then obtain v k where v: "result s = Value ((moved ^^ k) v)"
      "h = map (\<lambda>n. (Sh_get, Rp_return ((moved ^^ n) v))) (rev [0..<k]) @ [(Sh_set_value v, Rp_unit)]" by blast
    with rd have s': "s' = s\<lparr>result := Value ((moved ^^ Suc k) v)\<rparr>" "r = Rp_return ((moved ^^ k) v)"
      by (auto simp: sh_take_def)
    with v Sh_get have "(x, r) # h = map (\<lambda>n. (Sh_get, Rp_return ((moved ^^ n) v))) (rev [0..<Suc k]) @ [(Sh_set_value v, Rp_unit)]"
      by simp
    with s' rd show ?thesis by (intro disjI2 disjI1 conjI exI [of _ v] exI [of _ "Suc k"]) simp_all
  next
    case 2
    then obtain e k where e: "result s = Exception_ptr e"
      "h = replicate k (Sh_get, Rp_throw e) @ [(Sh_set_exception e, Rp_unit)]" by blast
    with rd have s': "s' = s" "r = Rp_throw e" by (auto simp: sh_take_def)
    with e Sh_get have "(x, r) # h = replicate (Suc k) (Sh_get, Rp_throw e) @ [(Sh_set_exception e, Rp_unit)]" by simp
    with s' rd e show ?thesis by (intro disjI2 conjI exI [of _ e] exI [of _ "Suc k"]) simp_all
  qed
qed

definition results_right :: "('v \<Rightarrow> 'v) \<Rightarrow> (('v, 'e) shared_op \<times> ('v, 'e) task_reply) list \<Rightarrow>
    ('v, 'e) coro_shared_state \<Rightarrow> bool" where
  "results_right moved h s \<longleftrightarrow> (h = [] \<and> \<not> ready s)
    \<or> ready s \<and> (\<exists>v k. result s = Value ((moved ^^ k) v)
        \<and> h = map (\<lambda>n. (Sh_get, Rp_return ((moved ^^ n) v))) (rev [0..<k]) @ [(Sh_set_value v, Rp_unit)])
    \<or> ready s \<and> (\<exists>e k. result s = Exception_ptr e \<and> h = replicate k (Sh_get, Rp_throw e) @ [(Sh_set_exception e, Rp_unit)])"

lemma sh_may_wait: "may_wait (sh_exec moved) c x \<longleftrightarrow> c = cv \<and> x = Sh_get"
proof -
  have "\<not> ready (new_shared_state :: ('a, 'b) coro_shared_state)" by (simp add: new_shared_state_def)
  then show ?thesis unfolding may_wait_def sh_waits_iff by blast
qed

lemma results_locked:
  assumes "run_locked (sh_exec moved) x A W m m'" "results_right moved (history m) (obj m)" "sh_ok x (obj m)"
  shows "results_right moved (history m') (obj m')"
  using assms(1)
proof cases
  case (returns s ns r A' W')
  with sh_history_step [OF assms(2) [unfolded results_right_def] returns(2) assms(3)]
  show ?thesis by (simp add: results_right_def)
next
  case (waits c t)
  with assms(2) show ?thesis by simp
qed

lemma results_reach:
  "mon_reach (sh_exec moved) sh_ok new_shared_state m \<Longrightarrow> results_right moved (history m) (obj m)"
proof (induction rule: mon_reach.induct)
  case start
  then show ?case by (simp add: results_right_def mon_init_def new_shared_state_def)
next
  case (step m m')
  from step(2) show ?case
  proof cases
    case (call x)
    then show ?thesis using results_locked step(3) by blast
  next
    case (resume c x)
    then have "may_wait (sh_exec moved) c x" using sleepers_may_wait [OF step(1)] by auto
    then have "sh_ok x (obj m)" by (simp add: sh_may_wait)
    with resume step(3) show ?thesis using results_locked by blast
  next
    case (spurious c x)
    then show ?thesis using step(3) by simp
  next
    case (time_up c x r)
    then show ?thesis by (simp add: sh_waits_iff)
  qed
qed

text \<open>
  What \<open>get\<close> returns: after the coroutine returned \<open>v\<close>, the first \<open>get\<close> (or \<open>co_await\<close>)
  returns \<open>v\<close> and each further one what moving out of the value left the time before; after
  it threw, every one rethrows the exception; and while there is no result nobody returns,
  and nobody sleeps once there is one, in any interleaving of any number of threads.
\<close>

theorem task_get_results:
  assumes "mon_reach (sh_exec moved) sh_ok new_shared_state m"
  shows "(if ready (obj m)
     then (\<exists>v k. history m = map (\<lambda>n. (Sh_get, Rp_return ((moved ^^ n) v))) (rev [0..<k]) @ [(Sh_set_value v, Rp_unit)])
       \<or> (\<exists>e k. history m = replicate k (Sh_get, Rp_throw e) @ [(Sh_set_exception e, Rp_unit)])
     else history m = [])
   \<and> ((c, x) \<in># asleep m \<longrightarrow> \<not> ready (obj m))"
proof -
  have "results_right moved (history m) (obj m)" by (rule results_reach [OF assms])
  moreover have "\<not> ready (obj m)" if "(c, x) \<in># asleep m"
  proof -
    have "may_wait (sh_exec moved) c x" using sleepers_may_wait [OF assms] that by auto
    then have "c = cv" by (simp add: sh_may_wait)
    with task_cv.no_lost_broadcast [OF assms] that show ?thesis by (auto simp: sh_waits_iff)
  qed
  ultimately show ?thesis unfolding results_right_def by (cases "ready (obj m)") (simp_all, blast)
qed

text \<open>
  The specialisation for \<open>void\<close> is the template at the one-element type: as long as the
  coroutine ends once, every operation does the same on both, and the specialisation stores
  an exception only when it is ready.
\<close>

theorem void_state_equivalent:
  fixes s :: "'e coro_shared_void"
  assumes "v_exception s \<noteq> None \<longrightarrow> v_ready s" "sh_ok x (void_abs s)"
  shows "map_outcome void_abs (void_exec x s) = sh_exec (\<lambda>u. u) x (void_abs s)
    \<and> (let s' = outcome_state (void_exec x s) s in v_exception s' \<noteq> None \<longrightarrow> v_ready s')"
proof (cases x)
  case Sh_get
  then show ?thesis using assms
    by (cases "v_exception s")
      (auto simp: void_get_def sh_defs void_abs_def)
qed (use assms in \<open>auto simp: void_set_value_def void_set_exception_def sh_defs void_abs_def split: option.splits\<close>)

text \<open>
  C4. The coroutine that awaits a task is resumed once: in every interleaving of the task's
  coroutine, the awaiting one and any number of calls of \<open>start\<close>, it is resumed at most
  once, by \<open>await_suspend\<close> or by the final awaiter; it goes on only when the result is
  there; when both have returned it has been resumed exactly once; and it gets what the
  coroutine ended with.
\<close>

theorem task_awaiter_resumed_once:
  assumes "task_reach moved h n t" "aligned h"
  shows "resumptions t \<le> 1 \<and> (co t \<noteq> Co_suspended \<longrightarrow> ready (sh t))
    \<and> (\<forall>r r'. body t = Ended r \<and> aw t = Aw_done (Some r') \<longrightarrow> resumptions t = 1)
    \<and> (\<forall>x. co t = Co_got x \<longrightarrow> (\<exists>r. ended_with t = Some r \<and> x = reply_of r))"
proof -
  have I: "task_inv h t" using task_inv_reach [OF assms] .
  note P = task_inv_parts(1) [OF I] and R = task_inv_parts(3) [OF I] and M = task_inv_parts(4) [OF I]
  have res: "co t \<noteq> Co_suspended \<Longrightarrow> has_result (body t)"
    using suspended_before_result [OF I assms(2)] by blast
  have fw: "final_won (body t) \<Longrightarrow> producer_pc (body t) = SR_Ret True"
    by (cases "body t" rule: final_won.cases) auto
  have awon: "await_won (aw t) \<Longrightarrow> \<exists>a. consumer_pc (aw t) = SC_Ret (Resume a)"
    by (cases "aw t" rule: await_won.cases) auto
  have "\<not> (final_won (body t) \<and> await_won (aw t))"
    using fw awon pair_facts(3) [OF P assms(2)] by blast
  then have le: "resumptions t \<le> 1" using M by (auto simp: resumed_by_def)
  moreover have "resumptions t = 1" if "body t = Ended r" "aw t = Aw_done (Some r')" for r r'
  proof -
    have "r \<noteq> Noop \<or> r' = Resume h"
      using pair_facts(4) [OF P assms(2), of "r \<noteq> Noop" r'] that by simp
    then have "final_won (body t) \<or> await_won (aw t)" using that by (cases r) auto
    with M le show ?thesis by (auto simp: resumed_by_def split: if_splits)
  qed
  ultimately show ?thesis using res R unfolding result_right_def by (auto 4 3)
qed

text \<open>
  C26. The frame outlives the coroutine: with any number of calls of \<open>start\<close> and one coroutine that
  awaits the task once, the task's coroutine is scheduled at most once, it runs only when it
  was scheduled, and the destructor destroys the frame only after the final awaiter's last
  access to the shared state.
\<close>

theorem task_frame_outlives_body:
  assumes "task_reach moved h n t" "aligned h"
  shows "scheduled t \<le> 1 \<and> (body t \<noteq> Not_begun \<longrightarrow> scheduled t = 1)
    \<and> (\<not> frame t \<longrightarrow> (\<exists>r. body t = Transfer r \<or> body t = Ended r))"
proof -
  have I: "task_inv h t" using task_inv_reach [OF assms] .
  have "at_end (body t) \<Longrightarrow> \<exists>r. body t = Transfer r \<or> body t = Ended r" by (cases "body t") auto
  then show ?thesis using task_inv_parts(2,4) [OF I]
    by (auto simp: started_right_def resumed_by_def split: if_splits)
qed

text \<open>
  C27. Awaiting does not deadlock: a state in which nothing can step any more is one in which the
  coroutine has ended, the awaiting coroutine was resumed, has its result and has destroyed
  the task.
\<close>

theorem task_never_stuck:
  assumes "task_reach moved h n t" "aligned h" "\<nexists>t'. task_step moved h t t'"
  shows "co t = Co_destroyed \<and> \<not> frame t \<and> (\<exists>r. body t = Ended r)"
proof -
  have I: "task_inv h t" using task_inv_reach [OF assms(1,2)] .
  note P = task_inv_parts(1) [OF I] and S = task_inv_parts(2) [OF I]
    and R = task_inv_parts(3) [OF I] and M = task_inv_parts(4) [OF I]
  have none: "body_step False t = None" "await_step False h t = None" "coro_step moved t = None"
    "body t \<noteq> Running" "\<And>i. i < length (starters t) \<Longrightarrow> start_step i t = None"
    using assms(3) task_step.intros by (metis not_None_eq)+
  from none(2) obtain d where d: "aw t = Aw_done d"
    by (cases "aw t") (auto split: cont_pc.splits resume.splits prod.splits)
  have "filter (\<lambda>p. p = St_schedule) (starters t) = []"
    using none(5) by (fastforce simp: filter_empty_conv in_set_conv_nth)
  then have due: "starts_due t = 0" using d by (simp add: starts_due_def)
  have "scheduled t = 1"
    using S due d M R by (cases d) (auto simp: started_right_def resumed_by_def split: if_splits)
  then have "body t \<noteq> Not_begun" using none(1) by auto
  then obtain r where r: "body t = Ended r"
    using none(1,4) by (cases "body t") (auto split: ready_pc.splits prod.splits)
  have fs: "ready (sh t)" "final_suspend_reached (sh t)" using R r by (simp_all add: result_right_def)
  have "co t \<noteq> Co_suspended"
  proof (cases d)
    case None
    then show ?thesis using M d by (simp add: resumed_by_def)
  next
    case (Some r')
    have "r \<noteq> Noop \<or> r' = Resume h"
      using pair_facts(4) [OF P assms(2), of "r \<noteq> Noop" r'] r d Some by simp
    then have "final_won (body t) \<or> await_won (aw t)" using r d Some by (cases r) auto
    then show ?thesis using M by (auto simp: resumed_by_def)
  qed
  moreover have "co t \<noteq> Co_resumed"
    using none(3) fs(1) by (auto simp: sh_defs split: task_result.splits)
  moreover have "\<nexists>x. co t = Co_got x" using none(3) fs(2) by auto
  ultimately have "co t = Co_destroyed" by (cases "co t") auto
  with M r show ?thesis by (auto simp: resumed_by_def)
qed

text \<open>
  Assigning to a task destroys the frame it had at once, also when that coroutine has been
  started and is still running: unlike the destructor the assignment does not wait.
\<close>

theorem move_assign_destroys_running:
  assumes "ct_handle self \<noteq> 0" "ct_started self" "ct_state self \<noteq> 0" "\<not> ct_started other"
  shows "destruct False self = None \<and> (\<exists>t t'. move_assign self other = Some (t, t', [ct_handle self]))"
  using assms by (simp add: destruct_def move_assign_def)

section \<open>Witnesses\<close>

theorem frames_owned_once_witness:
  "\<exists>p. pool_run [New_task 16 32, Move_new 0, Start_task 1, Destroy 0 False, Destroy 1 True]
       \<lparr>pool = [], destroyed = []\<rparr> = Some p \<and> destroyed p = [16] \<and> owned p = {#}"
proof -
  obtain p where p: "pool_run [New_task 16 32, Move_new 0, Start_task 1, Destroy 0 False, Destroy 1 True]
       \<lparr>pool = [], destroyed = []\<rparr> = Some p" "destroyed p = [16]"
    by (simp add: new_coro_task_def move_construct_def moved_from_def start_def destruct_def Let_def)
  from frames_owned_once [OF p(1)] p(2) have "owned p = {#}" by simp
  with p show ?thesis by blast
qed

lemma mon_call_all_idle:
  assumes "mon_reach exec ok s0 m" "ok x (obj m)" "exec x (obj m) = Ret s [Notify_all c] r" "asleep m = {#}"
  shows "mon_reach exec ok s0 \<lparr>obj = s, asleep = {#}, notified = notified m, history = (x, r) # history m\<rparr>"
proof -
  have "notify [Notify_all c] (asleep m, notified m) ({#}, notified m)"
    using assms(4) by (intro notify.all) (simp add: notify.nobody)
  from run_locked.returns [of exec x m, OF assms(3) this]
  show ?thesis by (rule mon_reach.step [OF assms(1) mon_step.call [of ok x, OF assms(2)]])
qed

text \<open>A coroutine returned 7; two threads got the result.\<close>

definition two_gets :: "((nat, nat) coro_shared_state, (nat, nat) shared_op, (nat, nat) task_reply) monitor" where
  "two_gets = \<lparr>obj = new_shared_state\<lparr>result := Value 0, ready := True\<rparr>, asleep = {#}, notified = {#},
     history = [(Sh_get, Rp_return 0), (Sh_get, Rp_return 7), (Sh_set_value 7, Rp_unit)]\<rparr>"

lemma two_gets_reach: "mon_reach (sh_exec (\<lambda>n. 0)) sh_ok new_shared_state two_gets"
proof -
  let ?s = "\<lambda>v. (new_shared_state :: (nat, nat) coro_shared_state)\<lparr>result := Value v, ready := True\<rparr>"
  let ?m = "\<lambda>v h. \<lparr>obj = ?s v, asleep = {#}, notified = {#}, history = h\<rparr>"
  note start = mon_reach.start [of "sh_exec (\<lambda>n. 0)" sh_ok new_shared_state]
  have "mon_reach (sh_exec (\<lambda>n. 0)) sh_ok new_shared_state (?m 7 [(Sh_set_value 7, Rp_unit)])"
    using mon_call_all_idle [OF start, of "Sh_set_value 7" "?s 7" cv Rp_unit]
    by (simp add: mon_init_def sh_set_value_def new_shared_state_def)
  from mon_call_quiet [OF this, of Sh_get "?s 0" "Rp_return 7"]
  have "mon_reach (sh_exec (\<lambda>n. 0)) sh_ok new_shared_state (?m 0 [(Sh_get, Rp_return 7), (Sh_set_value 7, Rp_unit)])"
    by (simp add: sh_defs)
  from mon_call_quiet [OF this, of Sh_get "?s 0" "Rp_return 0"]
  show ?thesis by (simp add: sh_defs two_gets_def)
qed

theorem task_get_results_witness:
  "ready (obj two_gets) \<and> (\<exists>v k. history two_gets =
     map (\<lambda>n. (Sh_get, Rp_return (((\<lambda>n. 0) ^^ n) v))) (rev [0..<k]) @ [(Sh_set_value v, Rp_unit)])"
proof -
  have "ready (obj two_gets)" "\<nexists>e k. history two_gets = replicate k (Sh_get, Rp_throw e) @ [(Sh_set_exception e, Rp_unit)]"
    by (auto simp: two_gets_def Cons_eq_append_conv Cons_replicate_eq)
  with task_get_results [OF two_gets_reach] show ?thesis by (simp split: if_splits)
qed

definition fresh_void :: "nat coro_shared_void" where
  "fresh_void = \<lparr>v_exception = None, v_ready = False, v_final_suspend_reached = False, v_detached = False,
     v_handoff = 0\<rparr>"

theorem void_state_equivalent_witness:
  "map_outcome void_abs (void_exec (Sh_set_exception 3) fresh_void)
     = sh_exec (\<lambda>u. u) (Sh_set_exception 3) (void_abs fresh_void)"
  using void_state_equivalent [of fresh_void "Sh_set_exception 3"] by (simp add: fresh_void_def void_abs_def)

text \<open>A run by the parts that step.\<close>

datatype ('v, 'e) task_move = Do_body | Do_end "'e + 'v" | Do_await | Do_coro | Do_start nat

fun task_move_step ::
  "('v \<Rightarrow> 'v) \<Rightarrow> coro \<Rightarrow> ('v, 'e) task_move \<Rightarrow> ('v, 'e) task_sys \<Rightarrow> ('v, 'e) task_sys option" where
  "task_move_step moved h Do_body t = body_step False t"
| "task_move_step moved h (Do_end r) t =
     (if body t = Running then Some (t\<lparr>body := Set_result r, ended_with := Some r\<rparr>) else None)"
| "task_move_step moved h Do_await t = await_step False h t"
| "task_move_step moved h Do_coro t = coro_step moved t"
| "task_move_step moved h (Do_start i) t = (if i < length (starters t) then start_step i t else None)"

fun task_moves ::
  "('v \<Rightarrow> 'v) \<Rightarrow> coro \<Rightarrow> ('v, 'e) task_move list \<Rightarrow> ('v, 'e) task_sys \<Rightarrow> ('v, 'e) task_sys option" where
  "task_moves moved h [] t = Some t"
| "task_moves moved h (a # as) t =
     (case task_move_step moved h a t of Some t' \<Rightarrow> task_moves moved h as t' | None \<Rightarrow> None)"

lemma task_move_sound: "task_move_step moved h a t = Some t' \<Longrightarrow> task_step moved h t t'"
  by (cases a) (auto simp del: body_step.simps await_step.simps coro_step.simps start_step.simps
      intro: task_step.intros split: if_splits)

lemma task_moves_reach:
  "task_reach moved h n t \<Longrightarrow> task_moves moved h as t = Some t' \<Longrightarrow> task_reach moved h n t'"
proof (induction "as" arbitrary: t)
  case (Cons a "as")
  then obtain u where u: "task_move_step moved h a t = Some u" "task_moves moved h as u = Some t'"
    by (auto split: option.splits)
  from Cons.IH [OF task_reach.step [OF Cons.prems(1) task_move_sound [OF u(1)]] u(2)] show ?case .
qed simp

text \<open>
  The awaiter suspends while the task runs; the final awaiter resumes it; it takes the result
  and destroys the task.
\<close>

definition sample_moves :: "(nat, nat) task_move list" where
  "sample_moves = [Do_start 0, Do_start 0, Do_body, Do_await, Do_await, Do_await, Do_await, Do_await,
     Do_end (Inr 7), Do_body, Do_body, Do_body, Do_body, Do_body, Do_body, Do_coro, Do_coro]"

lemma sample_task:
  "\<exists>t. task_moves (\<lambda>n. 0) 16 sample_moves (task_init 1) = Some t
     \<and> body t = Ended (Resume 16) \<and> aw t = Aw_done (Some Noop) \<and> co t = Co_destroyed
     \<and> starters t = [St_done]"
  by (simp add: sample_moves_def task_init_def new_shared_state_def sh_is_ready_def READY_FLAG_def ADDR_MASK_def
      sh_set_value_def get_continuation_def resume_awaiter_def sh_defs Let_def)

lemma sample_task_reach:
  obtains t where "task_reach (\<lambda>n. 0 :: nat) 16 1 (t :: (nat, nat) task_sys)" "body t = Ended (Resume 16)"
    "aw t = Aw_done (Some Noop)" "co t = Co_destroyed" "starters t = [St_done]"
proof -
  obtain t where t: "task_moves (\<lambda>n. 0) 16 sample_moves (task_init 1) = Some t"
    "body t = Ended (Resume 16)" "aw t = Aw_done (Some Noop)" "co t = Co_destroyed" "starters t = [St_done]"
    using sample_task by blast
  show ?thesis by (rule that [OF task_moves_reach [OF task_reach.start t(1)] t(2-)])
qed

lemma aligned_sixteen: "aligned 16"
  by (simp add: aligned_def READY_FLAG_def)

theorem task_awaiter_resumed_once_witness:
  "\<exists>t :: (nat, nat) task_sys. task_reach (\<lambda>n. 0) 16 1 t \<and> resumptions t = 1"
proof -
  obtain t :: "(nat, nat) task_sys" where t: "task_reach (\<lambda>n. 0) 16 1 t" "body t = Ended (Resume 16)"
    "aw t = Aw_done (Some Noop)" by (rule sample_task_reach)
  from task_awaiter_resumed_once [OF t(1) aligned_sixteen] t show ?thesis by blast
qed

theorem task_frame_outlives_body_witness:
  "\<exists>t :: (nat, nat) task_sys. task_reach (\<lambda>n. 0) 16 1 t \<and> scheduled t = 1"
proof -
  obtain t :: "(nat, nat) task_sys" where t: "task_reach (\<lambda>n. 0) 16 1 t" "body t = Ended (Resume 16)"
    by (rule sample_task_reach)
  with task_frame_outlives_body [OF t(1) aligned_sixteen] show ?thesis by auto
qed

theorem task_never_stuck_witness:
  "\<exists>t :: (nat, nat) task_sys. (\<nexists>t'. task_step (\<lambda>n. 0) 16 t t') \<and> \<not> frame t"
proof -
  obtain t :: "(nat, nat) task_sys" where t: "task_reach (\<lambda>n. 0) 16 1 t" "body t = Ended (Resume 16)"
    "aw t = Aw_done (Some Noop)" "co t = Co_destroyed" "starters t = [St_done]"
    by (rule sample_task_reach)
  have "\<nexists>t'. task_step (\<lambda>n. 0) 16 t t'"
    using t(2-) by (auto elim!: task_step.cases)
  with task_never_stuck [OF t(1) aligned_sixteen] show ?thesis by blast
qed

theorem move_assign_destroys_running_witness:
  "\<exists>t t'. move_assign (\<lparr>ct_handle = 16, ct_state = 32, ct_started = True\<rparr>) (new_coro_task 48 64)
     = Some (t, t', [16])"
  using move_assign_destroys_running [of "\<lparr>ct_handle = 16, ct_state = 32, ct_started = True\<rparr>" "new_coro_task 48 64"]
  by (simp add: new_coro_task_def)

end
