(* ===== verification/TaskScheduler.thy ===== *)
theory TaskScheduler
  imports Channel
begin

text \<open>
  The task pool (\<open>include/task_scheduler.hpp\<close>, \<open>src/task_scheduler.cpp\<close> and \<open>schedule_task\<close>
  of \<open>src/coro_scheduler.cpp\<close>): the choice of a worker for a task, the splitting of a batch
  into tasks, and the loop of a worker over its queue.  Times are ticks of the clock; a task
  is an opaque value.
\<close>

section \<open>Workers and tasks\<close>

datatype sched_error = Channel_closed | Division_by_zero

record 'a worker_info =
  queue :: "'a channel"
  available_at :: int

record 'a task_scheduler =
  workers :: "'a worker_info list"
  task_durations :: "uintptr \<rightharpoonup> int"

text \<open>The constructor: one worker per processor.\<close>

definition new_task_scheduler :: "nat \<Rightarrow> int \<Rightarrow> 'a task_scheduler" where
  "new_task_scheduler processor_count now =
     \<lparr>workers = replicate processor_count \<lparr>queue = new_channel, available_at = now\<rparr>,
      task_durations = Map.empty\<rparr>"

text \<open>\<open>send\<close> on the worker's unbounded channel; it throws when the channel is closed.\<close>

definition enqueue :: "'a \<Rightarrow> 'a worker_info \<Rightarrow> sched_error + 'a worker_info" where
  "enqueue x w =
     (case send None x (queue w) of
        Ret q ns Ch_unit \<Rightarrow> Inr (w\<lparr>queue := q\<rparr>)
      | _ \<Rightarrow> Inl Channel_closed)"

text \<open>
  The loop over the workers: the first one that is idle at \<open>now\<close>, or else the least busy
  one, the first of several.
\<close>

function pick_from :: "int \<Rightarrow> nat \<Rightarrow> nat \<Rightarrow> 'a worker_info list \<Rightarrow> nat" where
  "pick_from now i least_busy ws =
     (if i < length ws then
        if available_at (ws ! i) \<le> now then i
        else pick_from now (Suc i)
          (if available_at (ws ! least_busy) > available_at (ws ! i) then i else least_busy) ws
      else least_busy)"
  by pat_completeness auto

termination by (relation "measure (\<lambda>(now, i, least_busy, ws). length ws - i)") auto

declare pick_from.simps [simp del]

definition pick_worker :: "int \<Rightarrow> 'a worker_info list \<Rightarrow> nat" where
  "pick_worker now ws = pick_from now 0 0 ws"

text \<open>
  \<open>add_task\<close>: the new state, and whether the task was given to a worker (without workers it
  is dropped, and the future is never set).
\<close>

definition add_task ::
  "int \<Rightarrow> uintptr \<Rightarrow> 'a \<Rightarrow> 'a task_scheduler \<Rightarrow> sched_error + ('a task_scheduler \<times> bool)" where
  "add_task now func_ptr x ts =
     (let task_duration = (case task_durations ts func_ptr of Some d \<Rightarrow> d | None \<Rightarrow> 0) in
      if workers ts = [] then Inr (ts, False)
      else let i = pick_worker now (workers ts) in
        case enqueue x (workers ts ! i) of
          Inl e \<Rightarrow> Inl e
        | Inr w \<Rightarrow> Inr (ts\<lparr>workers := (workers ts)[i := w\<lparr>available_at := now + task_duration\<rparr>]\<rparr>, True))"

text \<open>\<open>schedule_task\<close>: the Boolean says that the caller ran the task itself.\<close>

definition schedule_task ::
  "int \<Rightarrow> 'a \<Rightarrow> 'a task_scheduler \<Rightarrow> sched_error + ('a task_scheduler \<times> bool)" where
  "schedule_task now x ts =
     (if workers ts = [] then Inr (ts, True)
      else let i = pick_worker now (workers ts) in
        case enqueue x (workers ts ! i) of
          Inl e \<Rightarrow> Inl e
        | Inr w \<Rightarrow> Inr (ts\<lparr>workers := (workers ts)[i := w]\<rparr>, False))"

text \<open>
  The wrapped task: \<open>func\<close>'s outcome goes to the promise, the time it took to the table.
\<close>

definition run_wrapped ::
  "uintptr \<Rightarrow> 'e + 'r \<Rightarrow> int \<Rightarrow> int \<Rightarrow> (uintptr \<rightharpoonup> int) \<Rightarrow> ('e + 'r) option \<times> (uintptr \<rightharpoonup> int)" where
  "run_wrapped func_ptr func_result start stop durations =
     (Some func_result, durations(func_ptr \<mapsto> stop - start))"

section \<open>Batches\<close>

text \<open>
  The ranges of a batch over \<open>total_items\<close> items, as positions from its start.  \<open>size_t\<close> is
  64 bits and wraps; \<open>item_size\<close> is \<open>sizeof(*start)\<close>.
\<close>

fun batch_loop :: "nat \<Rightarrow> u64 \<Rightarrow> u64 \<Rightarrow> (u64 \<times> u64) list \<times> u64" where
  "batch_loop 0 els batch_start = ([], batch_start)"
| "batch_loop (Suc k) els batch_start =
     (let batch_stop = batch_start + els in
      case batch_loop k els batch_stop of (rs, batch_end) \<Rightarrow> ((batch_start, batch_stop) # rs, batch_end))"

definition batch_elements :: "u64 \<Rightarrow> u64 \<Rightarrow> u64 \<Rightarrow> u64 \<Rightarrow> u64" where
  "batch_elements total_items num_threads cache_line_size item_size =
     (let aligned_batch_size = (total_items + num_threads - 1) div num_threads;
          aligned_batch_size_bytes = aligned_batch_size * item_size
      in max 1 (aligned_batch_size_bytes div cache_line_size))"

definition batch_ranges :: "u64 \<Rightarrow> u64 \<Rightarrow> u64 \<Rightarrow> u64 \<Rightarrow> sched_error + (u64 \<times> u64) list" where
  "batch_ranges total_items num_threads cache_line_size item_size =
     (if total_items = 0 \<or> num_threads > total_items then Inr [(0, total_items)]
      else if num_threads = 0 \<or> cache_line_size = 0 then Inl Division_by_zero
      else let els = batch_elements total_items num_threads cache_line_size item_size;
               num_aligned_batches = total_items div els
           in case batch_loop (unat num_aligned_batches) els 0 of
             (rs, batch_start) \<Rightarrow> Inr (rs @ [(batch_start, total_items)]))"

text \<open>
  What initialises \<open>cacheline_size\<close> on Linux: \<open>result\<close> is the \<open>long\<close> that \<open>sysconf\<close> returns.
\<close>

definition DEFAULT_CACHE_LINE_SIZE :: u64 where "DEFAULT_CACHE_LINE_SIZE = 64"

definition get_cache_line_size :: "64 word \<Rightarrow> u64" where
  "get_cache_line_size sysconf_result =
     (if sint sysconf_result \<le> 0 then DEFAULT_CACHE_LINE_SIZE else sysconf_result)"

text \<open>Each range is given to \<open>add_task\<close>; \<open>nows\<close> are the clock readings of the calls.\<close>

fun add_tasks ::
  "int list \<Rightarrow> uintptr \<Rightarrow> 'a list \<Rightarrow> 'a task_scheduler \<Rightarrow> sched_error + ('a task_scheduler \<times> nat)" where
  "add_tasks (now # nows) f (x # xs) ts =
     (case add_task now f x ts of
        Inl e \<Rightarrow> Inl e
      | Inr (ts', _) \<Rightarrow>
          (case add_tasks nows f xs ts' of Inl e \<Rightarrow> Inl e | Inr (ts'', n) \<Rightarrow> Inr (ts'', Suc n)))"
| "add_tasks _ f _ ts = Inr (ts, 0)"

definition add_batch_task ::
  "int list \<Rightarrow> uintptr \<Rightarrow> u64 \<Rightarrow> u64 \<Rightarrow> u64 \<Rightarrow> u64 \<Rightarrow> (u64 \<times> u64) task_scheduler \<Rightarrow>
   sched_error + ((u64 \<times> u64) task_scheduler \<times> nat)" where
  "add_batch_task nows f total_items num_threads cache_line_size item_size ts =
     (case batch_ranges total_items num_threads cache_line_size item_size of
        Inl e \<Rightarrow> Inl e | Inr rs \<Rightarrow> add_tasks nows f rs ts)"

section \<open>The worker\<close>

datatype 'a worker_action = Worker_exit | Worker_run 'a | Worker_again

text \<open>
  One round of the loop: the flag, \<open>receive_for\<close> with its 100 ms, and the check for a closed
  channel when there was no task.
\<close>

definition worker_round :: "bool \<Rightarrow> 'a channel \<Rightarrow> 'a worker_action \<times> 'a channel" where
  "worker_round shutdown_flag ch =
     (if shutdown_flag then (Worker_exit, ch)
      else let no_task = (\<lambda>c. (if is_closed c then Worker_exit else Worker_again, c)) in
        case receive_for None ch of
          Ret c ns (Ch_result (Some x) st) \<Rightarrow> (Worker_run x, c)
        | Ret c ns r \<Rightarrow> no_task c
        | Wait c t \<Rightarrow> no_task ch)"

text \<open>The rounds for given readings of the flag: the tasks run, the channel, and whether it exited.\<close>

fun worker_loop :: "bool list \<Rightarrow> 'a channel \<Rightarrow> 'a list \<times> 'a channel \<times> bool" where
  "worker_loop [] ch = ([], ch, False)"
| "worker_loop (flag # flags) ch =
     (case worker_round flag ch of
        (Worker_exit, c) \<Rightarrow> ([], c, True)
      | (Worker_again, c) \<Rightarrow> worker_loop flags c
      | (Worker_run x, c) \<Rightarrow> (case worker_loop flags c of (xs, c', ended) \<Rightarrow> (x # xs, c', ended)))"

text \<open>\<open>close\<close> on the queue of a worker.\<close>

definition close_queue :: "'a worker_info \<Rightarrow> 'a worker_info" where
  "close_queue w = w\<lparr>queue := outcome_state (on_close (outcome_state (close_store (queue w)) (queue w))) (queue w)\<rparr>"

section \<open>Lemmas\<close>

text \<open>A worker with one more task at the end of its queue.\<close>

definition give :: "'a \<Rightarrow> 'a worker_info \<Rightarrow> 'a worker_info" where
  "give x w = w\<lparr>queue := (queue w)\<lparr>buffer := buffer (queue w) @ [x]\<rparr>\<rparr>"

lemma give_simps [simp]:
  "available_at (give x w) = available_at w" "buffer (queue (give x w)) = buffer (queue w) @ [x]"
  "is_closed (queue (give x w)) = is_closed (queue w)"
  by (simp_all add: give_def)

lemma enqueue_cases:
  "enqueue x w = (if is_closed (queue w) then Inl Channel_closed else Inr (give x w))"
  by (simp add: enqueue_def give_def send_def push_value_def is_bounded_def Let_def)

definition idle :: "int \<Rightarrow> 'a worker_info \<Rightarrow> bool" where
  "idle now w \<longleftrightarrow> available_at w \<le> now"

text \<open>What the loop finds.\<close>

definition best_worker :: "int \<Rightarrow> 'a worker_info list \<Rightarrow> nat \<Rightarrow> bool" where
  "best_worker now ws k \<longleftrightarrow> k < length ws \<and>
     (if \<exists>w \<in> set ws. idle now w then idle now (ws ! k) \<and> (\<forall>j < k. \<not> idle now (ws ! j))
      else (\<forall>j < length ws. available_at (ws ! k) \<le> available_at (ws ! j))
        \<and> (\<forall>j < k. available_at (ws ! k) < available_at (ws ! j)))"

lemma pick_from_best:
  assumes "i \<le> length ws" "l < length ws" "i = 0 \<Longrightarrow> l = 0" "0 < i \<Longrightarrow> l < i"
    and "\<forall>j < i. \<not> idle now (ws ! j)"
    and "\<forall>j < i. available_at (ws ! l) \<le> available_at (ws ! j)"
    and "\<forall>j < l. available_at (ws ! l) < available_at (ws ! j)"
  shows "best_worker now ws (pick_from now i l ws)"
  using assms
proof (induction now i l ws rule: pick_from.induct)
  case (1 now i l ws)
  show ?case
  proof (cases "i < length ws")
    case False
    with 1(2-) have "\<forall>w \<in> set ws. \<not> idle now w" by (auto simp: in_set_conv_nth)
    with False 1(2-) show ?thesis by (subst pick_from.simps) (auto simp: best_worker_def)
  next
    case len: True
    show ?thesis
    proof (cases "available_at (ws ! i) \<le> now")
      case True
      then have "\<exists>w \<in> set ws. idle now w" using nth_mem [OF len] by (auto simp: idle_def)
      with True len 1(6) show ?thesis by (subst pick_from.simps) (auto simp: best_worker_def idle_def)
    next
      case False
      let ?l = "if available_at (ws ! l) > available_at (ws ! i) then i else l"
      have "best_worker now ws (pick_from now (Suc i) ?l ws)"
      proof (rule 1(1) [OF len])
        show "\<not> available_at (ws ! i) \<le> now" by (rule False)
        show "\<forall>j < Suc i. \<not> idle now (ws ! j)" using 1(6) False by (auto simp: less_Suc_eq idle_def)
        show "\<forall>j < Suc i. available_at (ws ! ?l) \<le> available_at (ws ! j)"
          using 1(7) by (auto simp: less_Suc_eq)
        show "\<forall>j < ?l. available_at (ws ! ?l) < available_at (ws ! j)"
          using 1(7,8) by auto
        show "?l < Suc i" using 1(4,5) by (cases "i = 0") auto
      qed (use len 1(3) in auto)
      then show ?thesis using len False by (subst pick_from.simps) simp
    qed
  qed
qed

lemma pick_worker_best: "ws \<noteq> [] \<Longrightarrow> best_worker now ws (pick_worker now ws)"
  unfolding pick_worker_def by (rule pick_from_best) auto

section \<open>Placing a task\<close>

lemma add_task_cases:
  assumes "add_task now f x ts = Inr (ts', b)" "workers ts \<noteq> []"
  shows "b \<and> (let k = pick_worker now (workers ts) in
     best_worker now (workers ts) k \<and> \<not> is_closed (queue (workers ts ! k))
     \<and> ts' = ts\<lparr>workers := (workers ts)[k := (give x (workers ts ! k))
         \<lparr>available_at := now + (case task_durations ts f of Some d \<Rightarrow> d | None \<Rightarrow> 0)\<rparr>]\<rparr>)"
  using assms pick_worker_best [OF assms(2), of now]
  by (auto simp: add_task_def enqueue_cases Let_def split: if_splits)

text \<open>The tasks waiting in all queues.\<close>

definition waiting :: "'a task_scheduler \<Rightarrow> 'a multiset" where
  "waiting ts = sum_list (map (\<lambda>w. mset (buffer (queue w))) (workers ts))"

lemma waiting_update:
  assumes "i < length (workers ts)" "buffer (queue w) = buffer (queue (workers ts ! i)) @ [x]"
  shows "waiting (ts\<lparr>workers := (workers ts)[i := w]\<rparr>) = add_mset x (waiting ts)"
proof -
  have "sum_list (map (\<lambda>w. mset (buffer (queue w))) ((workers ts)[i := w])) + mset (buffer (queue (workers ts ! i)))
      = add_mset x (waiting ts) + mset (buffer (queue (workers ts ! i)))"
    using sum_list_map_update [OF assms(1), of "\<lambda>w. mset (buffer (queue w))" w] assms(2)
    by (simp add: waiting_def)
  then show ?thesis by (simp add: waiting_def)
qed

section \<open>Splitting a batch\<close>

lemma batch_loop_ranges:
  fixes N :: u64
  assumes "batch_loop k els a = (rs, z)" "unat a + k * unat els \<le> unat N"
  shows "unat z = unat a + k * unat els
    \<and> concat (map (\<lambda>(a, b). [unat a..<unat b]) rs) = [unat a..<unat z]
    \<and> (\<forall>(a, b) \<in> set rs. unat b = unat a + unat els) \<and> length rs = k"
  using assms
proof (induction k arbitrary: a rs)
  case 0
  then show ?case by simp
next
  case (Suc k)
  obtain rs' z' where r: "batch_loop k els (a + els) = (rs', z')" by fastforce
  with Suc.prems(1) have rs: "rs = (a, a + els) # rs'" "z' = z" by (auto simp: Let_def)
  have "unat a + unat els < 2 ^ 64" using Suc.prems(2) unat_u64_less [of N] by (simp add: algebra_simps)
  then have a: "unat (a + els) = unat a + unat els" by (simp add: unat_word_ariths)
  with Suc.prems(2) have le: "unat (a + els) + k * unat els \<le> unat N" by (simp add: algebra_simps)
  from Suc.IH [OF r [unfolded rs(2)] le] have IH: "unat z = unat (a + els) + k * unat els"
    "concat (map (\<lambda>(a, b). [unat a..<unat b]) rs') = [unat (a + els)..<unat z]"
    "\<forall>(a, b) \<in> set rs'. unat b = unat a + unat els" "length rs' = k" by auto
  have "[unat a..<unat (a + els)] @ [unat (a + els)..<unat z] = [unat a..<unat z]"
    using a IH(1) by (intro upt_join) simp_all
  with IH rs a show ?case by simp
qed

text \<open>The ranges follow each other from the first item to the last.\<close>

definition covers :: "(u64 \<times> u64) list \<Rightarrow> u64 \<Rightarrow> bool" where
  "covers rs N \<longleftrightarrow> concat (map (\<lambda>(a, b). [unat a..<unat b]) rs) = [0..<unat N]"

lemma max_one_pos: "0 < unat (max 1 w)" for w :: u64
  by (metis max.cobounded1 not_gr_zero unat_1 word_le_nat_alt less_numeral_extra(3) le_zero_eq one_neq_zero)

lemma batch_divides:
  "batch_ranges N n cls sz = Inl Division_by_zero \<longleftrightarrow> N \<noteq> 0 \<and> n \<le> N \<and> (n = 0 \<or> cls = 0)"
  by (auto simp: batch_ranges_def Let_def split: prod.splits)

lemma batch_ranges_cases:
  assumes "batch_ranges N n cls sz = Inr rs"
  shows "rs = [(0, N)] \<or> (\<exists>els rs' z. 0 < unat els \<and> rs = rs' @ [(z, N)]
      \<and> batch_loop (unat (N div els)) els 0 = (rs', z))"
proof (cases "N = 0 \<or> n > N")
  case True
  with assms show ?thesis by (simp add: batch_ranges_def)
next
  case False
  let ?e = "batch_elements N n cls sz"
  obtain rs' z where l: "batch_loop (unat (N div ?e)) ?e 0 = (rs', z)" by fastforce
  have "0 < unat ?e" unfolding batch_elements_def Let_def by (rule max_one_pos)
  moreover have "rs = rs' @ [(z, N)]"
    using assms False l by (simp add: batch_ranges_def Let_def split: if_splits)
  ultimately show ?thesis using l by blast
qed

lemma batch_ranges_cover:
  assumes "batch_ranges N n cls sz = Inr rs"
  shows "covers rs N \<and> (\<exists>els. 0 < els \<and> (\<forall>(a, b) \<in> set (butlast rs). unat b = unat a + els)
     \<and> (butlast rs \<noteq> [] \<longrightarrow> (case last rs of (a, b) \<Rightarrow> b = N \<and> unat b < unat a + els))
     \<and> length rs \<le> unat N div els + 1)"
  using batch_ranges_cases [OF assms]
proof
  assume "rs = [(0, N)]"
  then show ?thesis by (auto simp: covers_def intro!: exI [of _ 1])
next
  assume "\<exists>els rs' z. 0 < unat els \<and> rs = rs' @ [(z, N)] \<and> batch_loop (unat (N div els)) els 0 = (rs', z)"
  then obtain els rs' z where e: "0 < unat els" "rs = rs' @ [(z, N)]"
    and l: "batch_loop (unat (N div els)) els 0 = (rs', z)" by blast
  have k: "unat (N div els) = unat N div unat els" by (simp add: unat_div)
  have le: "unat (0 :: u64) + unat (N div els) * unat els \<le> unat N" by (simp add: k)
  note L = batch_loop_ranges [OF l le]
  have z: "unat z = unat N div unat els * unat els" using L k by simp
  then have "unat z \<le> unat N" by simp
  then have cov: "covers rs N" using L e(2) by (simp add: covers_def upt_join)
  have "unat N mod unat els < unat els" using e(1) by simp
  then have "unat N < unat z + unat els" using z div_mult_mod_eq [of "unat N" "unat els"] by linarith
  then show ?thesis using cov e L k by (auto intro!: exI [of _ "unat els"])
qed

lemma add_tasks_waiting:
  assumes "\<forall>w \<in> set (workers ts). \<not> is_closed (queue w)" "workers ts \<noteq> []" "length xs \<le> length nows"
  shows "\<exists>ts'. add_tasks nows f xs ts = Inr (ts', length xs) \<and> waiting ts' = waiting ts + mset xs"
  using assms
proof (induction nows f xs ts rule: add_tasks.induct)
  case (1 now nows f x xs ts)
  let ?k = "pick_worker now (workers ts)"
  let ?w = "(give x (workers ts ! ?k))\<lparr>available_at := now + (case task_durations ts f of Some d \<Rightarrow> d | None \<Rightarrow> 0)\<rparr>"
  let ?ts = "ts\<lparr>workers := (workers ts)[?k := ?w]\<rparr>"
  have k: "?k < length (workers ts)" using pick_worker_best [OF 1(3), of now] by (simp add: best_worker_def)
  have op: "\<not> is_closed (queue (workers ts ! ?k))" using 1(2) k by simp
  then have add: "add_task now f x ts = Inr (?ts, True)"
    using 1(3) by (simp add: add_task_def enqueue_cases Let_def)
  have "\<forall>w \<in> set (workers ?ts). \<not> is_closed (queue w)"
    using 1(2) op set_update_subset_insert [of "workers ts" ?k ?w] by auto
  moreover have "workers ?ts \<noteq> []" using 1(3) by simp
  ultimately obtain ts' where "add_tasks nows f xs ?ts = Inr (ts', length xs)" "waiting ts' = waiting ?ts + mset xs"
    using 1(1) [OF add refl] 1(4) by auto
  moreover have "waiting ?ts = add_mset x (waiting ts)" using waiting_update [OF k, of ?w x] by simp
  ultimately show ?case using add by simp
qed auto

text \<open>Without workers the tasks are dropped; a closed queue refuses the first.\<close>

lemma add_tasks_no_workers:
  assumes "workers ts = []" "length xs \<le> length nows"
  shows "add_tasks nows f xs ts = Inr (ts, length xs)"
  using assms(2)
proof (induction xs arbitrary: nows)
  case (Cons x xs)
  then obtain now nows' where "nows = now # nows'" by (cases nows) auto
  with Cons assms(1) show ?case by (simp add: add_task_def)
qed (cases nows; simp)

lemma add_tasks_closed:
  assumes "\<forall>w \<in> set (workers ts). is_closed (queue w)" "workers ts \<noteq> []" "xs \<noteq> []" "length xs \<le> length nows"
  shows "add_tasks nows f xs ts = Inl Channel_closed"
proof -
  obtain x xs' now nows' where s: "xs = x # xs'" "nows = now # nows'"
    using assms(3,4) by (cases xs; cases nows) auto
  let ?k = "pick_worker now (workers ts)"
  have "?k < length (workers ts)" using pick_worker_best [OF assms(2), of now] by (simp add: best_worker_def)
  then have "is_closed (queue (workers ts ! ?k))" using assms(1) by simp
  then have "add_task now f x ts = Inl Channel_closed"
    using assms(2) by (simp add: add_task_def enqueue_cases Let_def)
  then show ?thesis by (simp add: s)
qed

section \<open>The worker's queue\<close>

lemma worker_round_cases:
  "worker_round flag ch =
     (if flag then (Worker_exit, ch)
      else case buffer ch of x # xs \<Rightarrow> (Worker_run x, ch\<lparr>buffer := xs\<rparr>)
        | [] \<Rightarrow> (if is_closed ch then Worker_exit else Worker_again, ch))"
  by (cases "buffer ch")
    (auto simp: worker_round_def receive_for_def wait_for_condition_for_def has_value_or_closed_def
      pop_value_def is_bounded_def Let_def)

lemma worker_loop_fifo:
  "worker_loop flags ch = (xs, ch', ended) \<Longrightarrow>
     xs @ buffer ch' = buffer ch \<and> is_closed ch' = is_closed ch
     \<and> (ended \<and> True \<notin> set flags \<longrightarrow> buffer ch' = [] \<and> is_closed ch)
     \<and> (is_closed ch \<and> True \<notin> set flags \<and> length (buffer ch) < length flags \<longrightarrow> ended)"
proof (induction flags arbitrary: ch xs)
  case (Cons flag flags)
  show ?case
  proof (cases "buffer ch")
    case Nil
    then show ?thesis using Cons.prems Cons.IH [of ch xs]
      by (auto simp: worker_round_cases split: if_splits)
  next
    case (Cons y ys)
    obtain zs where "worker_loop flags (ch\<lparr>buffer := ys\<rparr>) = (zs, ch', ended) \<or> flag"
      using Cons Cons.prems by (auto simp: worker_round_cases split: if_splits prod.splits)
    then show ?thesis using Cons.prems Cons.IH [of "ch\<lparr>buffer := ys\<rparr>" zs] Cons
      by (auto simp: worker_round_cases split: if_splits)
  qed
qed simp

lemma length_batch_loop: "length (fst (batch_loop k els a)) = k"
  by (induction k arbitrary: a) (simp_all add: Let_def split_beta)

lemma add_task_given:
  assumes "workers ts \<noteq> []" "k = pick_worker now (workers ts)" "\<not> is_closed (queue (workers ts ! k))"
  shows "add_task now f x ts = Inr (ts\<lparr>workers := (workers ts)[k := (give x (workers ts ! k))
         \<lparr>available_at := now + (case task_durations ts f of Some d \<Rightarrow> d | None \<Rightarrow> 0)\<rparr>]\<rparr>, True)"
  using assms by (simp add: add_task_def enqueue_cases Let_def)

lemma add_task_throws:
  assumes "workers ts \<noteq> []" "k = pick_worker now (workers ts)" "is_closed (queue (workers ts ! k))"
  shows "add_task now f x ts = Inl Channel_closed"
  using assms by (simp add: add_task_def enqueue_cases Let_def)

lemma schedule_task_given:
  assumes "workers ts \<noteq> []" "k = pick_worker now (workers ts)" "\<not> is_closed (queue (workers ts ! k))"
  shows "schedule_task now x ts = Inr (ts\<lparr>workers := (workers ts)[k := give x (workers ts ! k)]\<rparr>, False)"
  using assms by (simp add: schedule_task_def enqueue_cases Let_def)

text \<open>Several calls of \<open>schedule_task\<close>, each with its reading of the clock.\<close>

fun schedule_tasks :: "(int \<times> 'a) list \<Rightarrow> 'a task_scheduler \<Rightarrow> sched_error + 'a task_scheduler" where
  "schedule_tasks [] ts = Inr ts"
| "schedule_tasks ((now, x) # calls) ts =
     (case schedule_task now x ts of Inl e \<Rightarrow> Inl e | Inr (ts', _) \<Rightarrow> schedule_tasks calls ts')"

lemma pick_first_idle:
  assumes "ws \<noteq> []" "available_at (ws ! 0) \<le> now"
  shows "pick_worker now ws = 0"
  using assms by (simp add: pick_worker_def pick_from.simps)

lemma schedule_tasks_first:
  assumes "workers ts = w # ws" "\<not> is_closed (queue w)" "\<forall>(now, x) \<in> set calls. available_at w \<le> now"
  shows "\<exists>ts' w'. schedule_tasks calls ts = Inr ts' \<and> workers ts' = w' # ws
    \<and> available_at w' = available_at w \<and> is_closed (queue w') = is_closed (queue w)
    \<and> buffer (queue w') = buffer (queue w) @ map snd calls"
  using assms
proof (induction calls arbitrary: ts w)
  case (Cons c calls)
  obtain now x where c: "c = (now, x)" by fastforce
  have "pick_worker now (workers ts) = 0" using Cons.prems c by (intro pick_first_idle) auto
  then have s: "schedule_task now x ts = Inr (ts\<lparr>workers := give x w # ws\<rparr>, False)"
    using schedule_task_given [of ts 0 now x] Cons.prems by simp
  from Cons.IH [of "ts\<lparr>workers := give x w # ws\<rparr>" "give x w"] Cons.prems
  show ?case by (simp add: c s)
qed simp

section \<open>Properties\<close>

text \<open>
  Where a task goes: if a worker is idle, to the first idle one, and otherwise to the first
  of those that will be available earliest; it is put at the end of that worker's queue and
  no other worker changes.  A closed queue makes \<open>add_task\<close> throw, and without workers the
  task is dropped.
\<close>

theorem add_task_least_busy:
  "case add_task now f x ts of
     Inl e \<Rightarrow> e = Channel_closed \<and> (\<exists>k. best_worker now (workers ts) k \<and> is_closed (queue (workers ts ! k)))
   | Inr (ts', given) \<Rightarrow>
       if workers ts = [] then ts' = ts \<and> \<not> given
       else given \<and> (\<exists>k. best_worker now (workers ts) k
         \<and> buffer (queue (workers ts' ! k)) = buffer (queue (workers ts ! k)) @ [x]
         \<and> available_at (workers ts' ! k) = now + (case task_durations ts f of Some d \<Rightarrow> d | None \<Rightarrow> 0)
         \<and> length (workers ts') = length (workers ts)
         \<and> (\<forall>j < length (workers ts). j \<noteq> k \<longrightarrow> workers ts' ! j = workers ts ! j))"
proof (cases "workers ts = []")
  case True
  then show ?thesis by (simp add: add_task_def)
next
  case False
  define k where "k = pick_worker now (workers ts)"
  have best: "best_worker now (workers ts) k" unfolding k_def by (rule pick_worker_best [OF False])
  then have k: "k < length (workers ts)" by (simp add: best_worker_def)
  show ?thesis
  proof (cases "is_closed (queue (workers ts ! k))")
    case True
    have "\<exists>k. best_worker now (workers ts) k \<and> is_closed (queue (workers ts ! k))"
      using best True by blast
    then show ?thesis by (simp only: add_task_throws [OF False k_def True] sum.case simp_thms)
  next
    case op: False
    have "\<exists>k'. best_worker now (workers ts) k'
         \<and> buffer (queue ((workers ts)[k := (give x (workers ts ! k))\<lparr>available_at := t\<rparr>] ! k')) = buffer (queue (workers ts ! k')) @ [x]
         \<and> available_at ((workers ts)[k := (give x (workers ts ! k))\<lparr>available_at := t\<rparr>] ! k') = t
         \<and> (\<forall>j < length (workers ts). j \<noteq> k' \<longrightarrow>
              (workers ts)[k := (give x (workers ts ! k))\<lparr>available_at := t\<rparr>] ! j = workers ts ! j)" for t
      using best k by (intro exI [of _ k]) simp
    note placed = this [of "now + (case task_durations ts f of Some d \<Rightarrow> d | None \<Rightarrow> 0)"]
    have upd: "workers (ts\<lparr>workers := v\<rparr>) = v" for v by simp
    show ?thesis
      using placed by (simp only: add_task_given [OF False k_def op] sum.case prod.case False if_False simp_thms
          upd length_list_update)
  qed
qed

text \<open>
  C12. A batch for any numbers of items and threads and any line and item size.  Either the
  splitting divides by zero, which is exactly so if there is an item, there are not fewer items
  than threads, and the number of threads or the line size is zero; then nothing is queued.
  Or the ranges partition the items in order, all but the last equally long; then, if
  there is a worker and no queue is closed, each range becomes exactly one queued task; without
  workers nothing is queued; and if all queues are closed, the call throws.
\<close>

theorem batches_cover_items:
  "case batch_ranges N n cls sz of
     Inl e \<Rightarrow> N \<noteq> 0 \<and> n \<le> N \<and> (n = 0 \<or> cls = 0) \<and> add_batch_task nows f N n cls sz ts = Inl Division_by_zero
   | Inr rs \<Rightarrow> \<not> (N \<noteq> 0 \<and> n \<le> N \<and> (n = 0 \<or> cls = 0))
      \<and> concat (map (\<lambda>(a, b). [unat a..<unat b]) rs) = [0..<unat N]
      \<and> (\<exists>els > 0. (\<forall>(a, b) \<in> set (butlast rs). unat b = unat a + els)
           \<and> (butlast rs \<noteq> [] \<longrightarrow> (case last rs of (a, b) \<Rightarrow> b = N \<and> unat b < unat a + els)))
      \<and> (length rs \<le> length nows \<longrightarrow>
           (workers ts \<noteq> [] \<and> (\<forall>w \<in> set (workers ts). \<not> is_closed (queue w)) \<longrightarrow>
             (\<exists>ts'. add_batch_task nows f N n cls sz ts = Inr (ts', length rs) \<and> waiting ts' = waiting ts + mset rs))
         \<and> (workers ts = [] \<longrightarrow> add_batch_task nows f N n cls sz ts = Inr (ts, length rs))
         \<and> (workers ts \<noteq> [] \<and> (\<forall>w \<in> set (workers ts). is_closed (queue w)) \<longrightarrow>
             add_batch_task nows f N n cls sz ts = Inl Channel_closed))"
proof (cases "batch_ranges N n cls sz")
  case (Inl e)
  then have "e = Division_by_zero" by (cases e) (auto simp: batch_ranges_def Let_def split: prod.splits if_splits)
  with Inl batch_divides [of N n cls sz] show ?thesis by (simp add: add_batch_task_def)
next
  case (Inr rs)
  note cover = batch_ranges_cover [OF Inr]
  have "\<not> (N \<noteq> 0 \<and> n \<le> N \<and> (n = 0 \<or> cls = 0))" using batch_divides [of N n cls sz] Inr by simp
  moreover have "concat (map (\<lambda>(a, b). [unat a..<unat b]) rs) = [0..<unat N]" using cover by (simp add: covers_def)
  moreover have "\<exists>els > 0. (\<forall>(a, b) \<in> set (butlast rs). unat b = unat a + els)
      \<and> (butlast rs \<noteq> [] \<longrightarrow> (case last rs of (a, b) \<Rightarrow> b = N \<and> unat b < unat a + els))"
    using cover by (elim conjE exE) (intro exI conjI)
  moreover have "rs \<noteq> []" using batch_ranges_cases [OF Inr] by auto
  ultimately show ?thesis
    using add_tasks_waiting [of ts rs nows f] add_tasks_no_workers [of ts rs nows f] add_tasks_closed [of ts rs nows f] Inr
    by (simp add: add_batch_task_def)
qed

text \<open>
  When splitting a batch divides by zero: exactly if the items are not fewer than the threads
  and not none, and the number of threads or the line size is 0.  The line size is a
  thread-local variable that only the workers of the pool and the thread that constructed
  the scheduler set: on any other thread, a coroutine worker included, it is 0.
\<close>

theorem batch_division_by_zero:
  "batch_ranges N n cls sz = Inl Division_by_zero \<longleftrightarrow> N \<noteq> 0 \<and> n \<le> N \<and> (n = 0 \<or> cls = 0)"
  by (rule batch_divides)

text \<open>On a thread that has set its line size the division is safe.\<close>

lemma initialised_thread_splits:
  assumes "n \<noteq> 0"
  shows "batch_ranges N n (get_cache_line_size r) sz \<noteq> Inl Division_by_zero"
proof -
  have "get_cache_line_size r \<noteq> 0" by (auto simp: get_cache_line_size_def DEFAULT_CACHE_LINE_SIZE_def)
  with assms show ?thesis by (auto simp: batch_ranges_def Let_def split: prod.splits)
qed

text \<open>
  A batch may have many more tasks than threads: the size of a range is the number of cache
  lines of a thread's share, not its number of items.  With 1000 items of 4 bytes, 8 threads
  and lines of 64 bytes there are 143 ranges of 7 items (the last one of 6).
\<close>

lemma batch_counts_lines: "\<exists>rs. batch_ranges 1000 8 64 4 = Inr rs \<and> length rs = 143"
proof -
  have "batch_elements 1000 8 64 4 = 7" by (simp add: batch_elements_def Let_def max_def)
  then show ?thesis using length_batch_loop [of 142 7 0]
    by (simp add: batch_ranges_def Let_def split_beta)
qed

text \<open>
  What a worker of the pool runs: the tasks of its queue in the order in which they were sent,
  none skipped; while the shutdown flag is off it leaves its loop only with an empty, closed
  queue, and does leave it when the queue is closed, after as many rounds as there are tasks
  and one more.
\<close>

theorem worker_runs_in_order:
  assumes "worker_loop flags ch = (xs, ch', ended)" "True \<notin> set flags"
  shows "xs @ buffer ch' = buffer ch \<and> (ended \<longrightarrow> xs = buffer ch \<and> is_closed ch)
    \<and> (is_closed ch \<and> length (buffer ch) < length flags \<longrightarrow> ended)"
  using worker_loop_fifo [OF assms(1)] assms(2) by auto

text \<open>
  \<open>schedule_task\<close> piles up: it never sets when a worker will be available, so once the first
  worker is idle every blocking task goes to that worker, in a single queue, whatever the
  number of workers.
\<close>

theorem schedule_task_piles_up:
  assumes "workers ts = w # ws" "\<not> is_closed (queue w)" "\<forall>(now, x) \<in> set calls. available_at w \<le> now"
  shows "\<exists>ts' w'. schedule_tasks calls ts = Inr ts' \<and> workers ts' = w' # ws
    \<and> buffer (queue w') = buffer (queue w) @ map snd calls"
  using schedule_tasks_first [OF assms] by blast

section \<open>Witnesses\<close>

lemma batches_cover_items_witness:
  "\<exists>ts'. add_batch_task [0, 0, 0] 7 6 2 4 4 (new_task_scheduler 1 0) = Inr (ts', 3)
     \<and> waiting ts' = {#(0, 3), (3, 6), (6, 6)#}"
proof -
  have r: "batch_ranges 6 2 4 4 = Inr [(0, 3), (3, 6), (6, 6)]"
    by code_simp
  have "workers (new_task_scheduler 1 0 :: (u64 \<times> u64) task_scheduler) \<noteq> []"
    "\<forall>w \<in> set (workers (new_task_scheduler 1 0 :: (u64 \<times> u64) task_scheduler)). \<not> is_closed (queue w)"
    by (simp_all add: new_task_scheduler_def new_channel_def)
  with r batches_cover_items [where N = 6 and n = 2 and cls = 4 and sz = 4 and nows = "[0, 0, 0]" and f = 7
      and ts = "new_task_scheduler 1 0"]
  show ?thesis by (simp add: waiting_def new_task_scheduler_def new_channel_def numeral_3_eq_3)
qed

lemma worker_runs_in_order_witness:
  "case worker_loop [False, False, False] (new_channel\<lparr>buffer := [1::nat, 2], is_closed := True\<rparr>) of
     (xs, ch', ended) \<Rightarrow> xs = [1, 2] \<and> ended"
proof -
  obtain xs ch' ended where l: "worker_loop [False, False, False]
      (new_channel\<lparr>buffer := [1::nat, 2], is_closed := True\<rparr>) = (xs, ch', ended)"
    by (metis prod_cases3)
  from worker_runs_in_order [OF l] have "xs = [1, 2] \<and> ended" by simp
  then show ?thesis unfolding l by simp
qed

lemma schedule_task_piles_up_witness:
  "\<exists>ts'. schedule_tasks [(1, 10), (2, 20 :: nat)] (new_task_scheduler 2 0) = Inr ts'
     \<and> map (\<lambda>w. buffer (queue w)) (workers ts') = [[10, 20], []]"
  using schedule_task_piles_up [of "new_task_scheduler 2 0"
      "\<lparr>queue = new_channel, available_at = 0\<rparr>" "[\<lparr>queue = new_channel, available_at = 0\<rparr>]"
      "[(1, 10), (2, 20 :: nat)]"]
  by (auto simp: new_task_scheduler_def new_channel_def numeral_2_eq_2)

end
