(* ===== verification/CoroScheduler.thy ===== *)
theory CoroScheduler
  imports WsDeque Channel
begin

text \<open>
  The scheduler of coroutines (\<open>src/coro_scheduler.cpp\<close>): the workers with their deques and
  the external queue, \<open>schedule_coro_handle\<close>, and the shutdown.  An operation of the queue or
  of a deque is one step, as is every other access to the shared state; any number of
  workers and of calls of \<open>schedule_coro_handle\<close> interleave.
\<close>

section \<open>State\<close>

text \<open>
  \<open>done_at h\<close>: the coroutine at \<open>h\<close> is at its final suspension point.  The last two fields
  record what happened, the newest first: the handles that workers took, with whether they
  resumed them, and the handles resumed inside \<open>schedule_coro_handle\<close>.
\<close>

record coro_scheduler =
  coro_queues :: "coro ws_deque list"
  external_coro_queue :: "coro channel"
  shutting_down :: bool
  noop_coroutine :: coro
  done_at :: "coro \<Rightarrow> bool"
  taken_log :: "(coro \<times> bool) list"
  inline_log :: "coro list"

text \<open>\<open>init_coro_workers\<close>: one deque of capacity 1024 per worker.\<close>

definition init_coro_workers :: "nat \<Rightarrow> coro \<Rightarrow> (coro \<Rightarrow> bool) \<Rightarrow> coro_scheduler" where
  "init_coro_workers num_workers noop at_end =
     \<lparr>coro_queues = replicate num_workers (new_deque 0 1024), external_coro_queue = new_channel,
      shutting_down = False, noop_coroutine = noop, done_at = at_end,
      taken_log = [], inline_log = []\<rparr>"

definition num_workers :: "coro_scheduler \<Rightarrow> u64" where
  "num_workers s = of_nat (length (coro_queues s))"

section \<open>A worker\<close>

definition resumable :: "coro \<Rightarrow> coro_scheduler \<Rightarrow> bool" where
  "resumable h s \<longleftrightarrow> h \<noteq> 0 \<and> h \<noteq> noop_coroutine s \<and> \<not> done_at s h"

definition take_handle :: "coro \<Rightarrow> coro_scheduler \<Rightarrow> coro_scheduler" where
  "take_handle h s = s\<lparr>taken_log := (h, resumable h s) # taken_log s\<rparr>"

text \<open>
  Where a worker stands.  \<open>W_run h\<close>: the coroutine \<open>h\<close> is running on the worker.
  \<open>W_steal start i\<close>: in the loop over the victims.  \<open>W_asleep\<close>: in the wait on the condition
  variable.
\<close>

datatype worker_pc = W_loop | W_pop | W_external | W_steal u64 u64 | W_block
  | W_run coro | W_asleep | W_exited

text \<open>
  One step of worker \<open>me\<close>.  \<open>rnd\<close> is what \<open>rng()\<close> gives, \<open>fin\<close> whether the coroutine that
  hands control back has come to its end.  A resumed coroutine that throws is the same as
  one that returns: the exception is swallowed.
\<close>

fun worker_step ::
  "u64 \<Rightarrow> bool \<Rightarrow> nat \<Rightarrow> worker_pc \<Rightarrow> coro_scheduler \<Rightarrow> (worker_pc \<times> coro_scheduler) option" where
  "worker_step rnd fin me W_loop s = Some (if shutting_down s then W_exited else W_pop, s)"
| "worker_step rnd fin me W_pop s =
     (case pop (coro_queues s ! me) of
        None \<Rightarrow> None
      | Some (None, q) \<Rightarrow> Some (W_external, s\<lparr>coro_queues := (coro_queues s)[me := q]\<rparr>)
      | Some (Some h, q) \<Rightarrow>
          Some (if resumable h s then W_run h else W_loop,
                take_handle h (s\<lparr>coro_queues := (coro_queues s)[me := q]\<rparr>)))"
| "worker_step rnd fin me W_external s =
     (case try_receive None (external_coro_queue s) of
        Ret c ns (Ch_option (Some h)) \<Rightarrow>
          Some (if resumable h s then W_run h else W_loop,
                take_handle h (s\<lparr>external_coro_queue := c\<rparr>))
      | _ \<Rightarrow> Some (if num_workers s > 1 then W_steal (rnd mod num_workers s) 0 else W_block, s))"
| "worker_step rnd fin me (W_steal start i) s =
     (if i < num_workers s then
        let victim_id = (start + i) mod num_workers s in
        if victim_id = of_nat me then Some (W_steal start (i + 1), s)
        else case steal (coro_queues s ! unat victim_id) of
            None \<Rightarrow> None
          | Some (None, q) \<Rightarrow>
              Some (W_steal start (i + 1), s\<lparr>coro_queues := (coro_queues s)[unat victim_id := q]\<rparr>)
          | Some (Some h, q) \<Rightarrow>
              Some (if resumable h s then W_run h else W_steal start (i + 1),
                    take_handle h (s\<lparr>coro_queues := (coro_queues s)[unat victim_id := q]\<rparr>))
      else Some (W_block, s))"
| "worker_step rnd fin me W_block s = Some (W_asleep, s)"
| "worker_step rnd fin me (W_run h) s =
     Some (W_loop, if fin then s\<lparr>done_at := (done_at s)(h := True)\<rparr> else s)"
| "worker_step rnd fin me W_asleep s = None"
| "worker_step rnd fin me W_exited s = None"

section \<open>Scheduling a handle\<close>

text \<open>
  Where a call of \<open>schedule_coro_handle\<close> stands; every state carries the handle.
  \<open>Call_run\<close>: the coroutine runs inside the call.
\<close>

datatype call_pc = Call coro | Call_flag coro | Call_inline coro | Call_workers coro
  | Call_run coro | Call_send coro | Call_notify coro
  | Refused coro | Ran_inline coro | Queued coro | Threw coro

fun call_step :: "bool \<Rightarrow> call_pc \<Rightarrow> coro_scheduler \<Rightarrow> (call_pc \<times> coro_scheduler) option" where
  "call_step fin (Call h) s =
     Some (if h = 0 \<or> done_at s h then Refused h
           else if h < 0x1000 then Refused h else Call_flag h, s)"
| "call_step fin (Call_flag h) s =
     Some (if shutting_down s then Call_inline h else Call_workers h, s)"
| "call_step fin (Call_inline h) s =
     Some (if done_at s h then (Refused h, s)
           else (Call_run h, s\<lparr>inline_log := h # inline_log s\<rparr>))"
| "call_step fin (Call_workers h) s =
     Some (if coro_queues s = [] then (Call_run h, s\<lparr>inline_log := h # inline_log s\<rparr>)
           else (Call_send h, s))"
| "call_step fin (Call_run h) s =
     Some (Ran_inline h, if fin then s\<lparr>done_at := (done_at s)(h := True)\<rparr> else s)"
| "call_step fin (Call_send h) s =
     (case send None h (external_coro_queue s) of
        Ret c ns Ch_unit \<Rightarrow> Some (Call_notify h, s\<lparr>external_coro_queue := c\<rparr>)
      | _ \<Rightarrow> Some (Threw h, s))"
| "call_step fin (Call_notify h) s = None"
| "call_step fin (Refused h) s = None"
| "call_step fin (Ran_inline h) s = None"
| "call_step fin (Queued h) s = None"
| "call_step fin (Threw h) s = None"

section \<open>Shutting down and all together\<close>

text \<open>
  The destructor of the scheduler sets the flag; \<open>shutdown_coro_workers\<close> notifies, closes the
  queue, joins the workers one after the other and clears them.
\<close>

datatype shutdown_pc = Sd_idle | Sd_notify | Sd_close | Sd_join nat | Sd_end

fun shutdown_step ::
  "worker_pc list \<Rightarrow> shutdown_pc \<Rightarrow> coro_scheduler \<Rightarrow> (shutdown_pc \<times> coro_scheduler) option" where
  "shutdown_step ws Sd_idle s = Some (Sd_notify, s\<lparr>shutting_down := True\<rparr>)"
| "shutdown_step ws Sd_notify s = None"
| "shutdown_step ws Sd_close s =
     Some (Sd_join 0, s\<lparr>external_coro_queue :=
       outcome_state (on_close (outcome_state (close_store (external_coro_queue s)) (external_coro_queue s)))
         (external_coro_queue s)\<rparr>)"
| "shutdown_step ws (Sd_join i) s =
     (if i < length ws then if ws ! i = W_exited then Some (Sd_join (Suc i), s) else None
      else Some (Sd_end, s\<lparr>coro_queues := []\<rparr>))"
| "shutdown_step ws Sd_end s = None"

type_synonym coro_sys = "worker_pc list \<times> call_pc list \<times> shutdown_pc \<times> coro_scheduler"

definition woken :: "worker_pc \<Rightarrow> worker_pc" where
  "woken pc = (if pc = W_asleep then W_loop else pc)"

text \<open>
  A step of the system.  \<open>notify_one\<close> wakes one of the workers that are asleep, if one is;
  a new call can begin at any time.
\<close>

inductive coro_sys_step :: "coro_sys \<Rightarrow> coro_sys \<Rightarrow> bool" where
  worker: "i < length ws \<Longrightarrow> worker_step rnd fin i (ws ! i) s = Some (pc, s') \<Longrightarrow>
    coro_sys_step (ws, cs, sd, s) (ws[i := pc], cs, sd, s')"
| call: "j < length cs \<Longrightarrow> call_step fin (cs ! j) s = Some (pc, s') \<Longrightarrow>
    coro_sys_step (ws, cs, sd, s) (ws, cs[j := pc], sd, s')"
| notify_nobody: "j < length cs \<Longrightarrow> cs ! j = Call_notify h \<Longrightarrow> W_asleep \<notin> set ws \<Longrightarrow>
    coro_sys_step (ws, cs, sd, s) (ws, cs[j := Queued h], sd, s)"
| notify_one: "j < length cs \<Longrightarrow> cs ! j = Call_notify h \<Longrightarrow> i < length ws \<Longrightarrow> ws ! i = W_asleep \<Longrightarrow>
    coro_sys_step (ws, cs, sd, s) (ws[i := W_loop], cs[j := Queued h], sd, s)"
| shutdown: "shutdown_step ws sd s = Some (sd', s') \<Longrightarrow> coro_sys_step (ws, cs, sd, s) (ws, cs, sd', s')"
| notify_all: "coro_sys_step (ws, cs, Sd_notify, s) (map woken ws, cs, Sd_close, s)"
| new_call: "coro_sys_step (ws, cs, sd, s) (ws, cs @ [Call h], sd, s)"

text \<open>A wait can also return for no reason.\<close>

inductive coro_spurious :: "coro_sys \<Rightarrow> coro_sys \<Rightarrow> bool" where
  "i < length ws \<Longrightarrow> ws ! i = W_asleep \<Longrightarrow> coro_spurious (ws, cs, sd, s) (ws[i := W_loop], cs, sd, s)"

inductive coro_reach :: "coro_sys \<Rightarrow> coro_sys \<Rightarrow> bool" for z where
  start: "coro_reach z z"
| step: "coro_reach z q \<Longrightarrow> coro_sys_step q q' \<Longrightarrow> coro_reach z q'"
| spurious: "coro_reach z q \<Longrightarrow> coro_spurious q q' \<Longrightarrow> coro_reach z q'"

inductive_cases coro_sys_stepE: "coro_sys_step (ws, cs, sd, s) q"
inductive_cases coro_spuriousE: "coro_spurious (ws, cs, sd, s) q"

definition coro_init :: "nat \<Rightarrow> coro \<Rightarrow> (coro \<Rightarrow> bool) \<Rightarrow> coro_sys" where
  "coro_init n noop at_end = (replicate n W_loop, [], Sd_idle, init_coro_workers n noop at_end)"

section \<open>Sequential runs\<close>

text \<open>A worker alone: steps for the given readings of the generator and outcomes of coroutines.\<close>

fun run_worker ::
  "(u64 \<times> bool) list \<Rightarrow> nat \<Rightarrow> worker_pc \<Rightarrow> coro_scheduler \<Rightarrow> worker_pc \<times> coro_scheduler" where
  "run_worker [] me pc s = (pc, s)"
| "run_worker ((rnd, fin) # choices) me pc s =
     (case worker_step rnd fin me pc s of
        None \<Rightarrow> (pc, s)
      | Some (pc', s') \<Rightarrow> run_worker choices me pc' s')"

definition local_empty :: "coro_scheduler \<Rightarrow> bool" where
  "local_empty s \<longleftrightarrow> (\<forall>q \<in> set (coro_queues s). contents q = [])"

lemma local_emptyD: "local_empty s \<Longrightarrow> i < length (coro_queues s) \<Longrightarrow> contents (coro_queues s ! i) = []"
  by (simp add: local_empty_def)

lemma unat_num_workers: "length (coro_queues s) < 2 ^ 64 \<Longrightarrow> unat (num_workers s) = length (coro_queues s)"
  by (simp add: num_workers_def unat_of_nat take_bit_nat_eq_self)

lemma victim_bound:
  fixes x :: u64
  assumes "length (coro_queues s) < 2 ^ 64" "coro_queues s \<noteq> []"
  shows "unat (x mod num_workers s) < length (coro_queues s)"
  using assms by (simp add: unat_mod unat_num_workers)

text \<open>With empty deques only the flag and the external queue decide.\<close>

lemma worker_pop_empty:
  assumes "local_empty s" "me < length (coro_queues s)"
  shows "worker_step rnd fin me W_pop s = Some (W_external, s)"
  using pop_contents_empty [OF local_emptyD [OF assms]] by simp

lemma worker_steal_empty:
  assumes "local_empty s" "length (coro_queues s) < 2 ^ 64" "coro_queues s \<noteq> []"
  shows "worker_step rnd fin me (W_steal start i) s =
    Some (if i < num_workers s then W_steal start (i + 1) else W_block, s)"
  using steal_contents_empty [OF local_emptyD [OF assms(1) victim_bound [OF assms(2,3)]], of "start + i"]
  by (simp add: Let_def)

lemma worker_external:
  "worker_step rnd fin me W_external s =
     (case buffer (external_coro_queue s) of
        h # hs \<Rightarrow> Some (if resumable h s then W_run h else W_loop,
          take_handle h (s\<lparr>external_coro_queue := (external_coro_queue s)\<lparr>buffer := hs\<rparr>\<rparr>))
      | [] \<Rightarrow> Some (if num_workers s > 1 then W_steal (rnd mod num_workers s) 0 else W_block, s))"
  by (cases "buffer (external_coro_queue s)") (simp_all add: try_receive_def pop_value_def is_bounded_def)

declare worker_step.simps(2,3,4) [simp del]

lemma call_send:
  "call_step fin (Call_send h) s =
     Some (if is_closed (external_coro_queue s) then (Threw h, s)
           else (Call_notify h, s\<lparr>external_coro_queue := (external_coro_queue s)
             \<lparr>buffer := buffer (external_coro_queue s) @ [h]\<rparr>\<rparr>))"
  by (simp add: send_def push_value_def is_bounded_def Let_def)

declare call_step.simps(6) [simp del]

lemma take_handle_simps [simp]:
  "coro_queues (take_handle h s) = coro_queues s" "external_coro_queue (take_handle h s) = external_coro_queue s"
  "shutting_down (take_handle h s) = shutting_down s" "inline_log (take_handle h s) = inline_log s"
  "done_at (take_handle h s) = done_at s" "noop_coroutine (take_handle h s) = noop_coroutine s"
  "taken_log (take_handle h s) = (h, resumable h s) # taken_log s"
  by (simp_all add: take_handle_def)

section \<open>A worker alone drains the external queue\<close>

text \<open>The steps left at most, for \<open>n\<close> workers.\<close>

fun steps_left :: "nat \<Rightarrow> worker_pc \<Rightarrow> nat" where
  "steps_left n W_loop = n + 5"
| "steps_left n W_pop = n + 4"
| "steps_left n W_external = n + 3"
| "steps_left n (W_steal start i) = n - unat i + 2"
| "steps_left n W_block = 1"
| "steps_left n (W_run h) = n + 6"
| "steps_left n W_asleep = 0"
| "steps_left n W_exited = 0"

definition work_left :: "worker_pc \<Rightarrow> coro_scheduler \<Rightarrow> nat" where
  "work_left pc s = 4 * length (buffer (external_coro_queue s)) + steps_left (length (coro_queues s)) pc"

text \<open>The handles taken and still to be taken, in the order of the queue.\<close>

definition handles :: "coro_scheduler \<Rightarrow> coro list" where
  "handles s = map fst (rev (taken_log s)) @ buffer (external_coro_queue s)"

definition undisturbed :: "nat \<Rightarrow> worker_pc \<Rightarrow> coro_scheduler \<Rightarrow> bool" where
  "undisturbed n pc s \<longleftrightarrow> local_empty s \<and> length (coro_queues s) = n \<and> \<not> shutting_down s \<and> pc \<noteq> W_exited
     \<and> (buffer (external_coro_queue s) = [] \<or> (\<forall>start i. pc \<noteq> W_steal start i) \<and> pc \<noteq> W_block \<and> pc \<noteq> W_asleep)"

lemma suc_less:
  fixes i m :: u64
  assumes "i < m"
  shows "unat (i + 1) = Suc (unat i)"
  using assms unat_u64_less [of m] by (simp add: word_less_nat_alt unat_word_ariths)

lemma undisturbed_step:
  assumes "undisturbed n pc s" "me < n" "n < 2 ^ 64" "pc \<noteq> W_asleep"
  shows "\<exists>pc' s'. worker_step rnd fin me pc s = Some (pc', s') \<and> undisturbed n pc' s'
    \<and> handles s' = handles s \<and> work_left pc' s' < work_left pc s"
proof (cases pc)
  case W_pop
  with assms worker_pop_empty [of s me] show ?thesis by (simp add: undisturbed_def work_left_def)
next
  case W_external
  with assms show ?thesis
    by (cases "buffer (external_coro_queue s)")
      (simp_all add: worker_external undisturbed_def work_left_def handles_def local_empty_def)
next
  case (W_steal start i)
  then have ne: "local_empty s" "length (coro_queues s) = n" "coro_queues s \<noteq> []"
    using assms by (auto simp: undisturbed_def)
  with assms(3) have u: "unat (num_workers s) = n" by (simp add: unat_num_workers)
  show ?thesis
  proof (cases "i < num_workers s")
    case True
    then have "unat i < n" using u by (simp add: word_less_nat_alt)
    with True W_steal assms ne suc_less [OF True] show ?thesis
      by (simp add: worker_steal_empty undisturbed_def work_left_def)
  next
    case False
    with W_steal assms ne show ?thesis by (simp add: worker_steal_empty undisturbed_def work_left_def)
  qed
qed (use assms in \<open>auto simp: undisturbed_def work_left_def handles_def local_empty_def\<close>)

lemma undisturbed_run:
  assumes "undisturbed n pc s" "me < n" "n < 2 ^ 64" "work_left pc s \<le> length choices"
  shows "\<exists>s'. run_worker choices me pc s = (W_asleep, s') \<and> buffer (external_coro_queue s') = []
    \<and> handles s' = handles s"
  using assms
proof (induction choices arbitrary: pc s)
  case Nil
  then have "pc = W_asleep" by (cases pc) (auto simp: work_left_def undisturbed_def)
  with Nil show ?case by (simp add: undisturbed_def)
next
  case (Cons c choices)
  obtain rnd fin where c: "c = (rnd, fin)" by fastforce
  show ?case
  proof (cases "pc = W_asleep")
    case True
    with Cons.prems c show ?thesis by (simp add: undisturbed_def)
  next
    case False
    from undisturbed_step [OF Cons.prems(1-3) False, of rnd fin] obtain pc' s' where
      st: "worker_step rnd fin me pc s = Some (pc', s')" and "undisturbed n pc' s'"
      and "handles s' = handles s" "work_left pc' s' < work_left pc s" by blast
    with Cons.IH [of pc' s'] Cons.prems show ?thesis by (simp add: c)
  qed
qed

section \<open>Every submission once\<close>

text \<open>The handle of a call, and the handle if the call has queued it, or has run it itself.\<close>

fun call_handle :: "call_pc \<Rightarrow> coro" where
  "call_handle (Call h) = h" | "call_handle (Call_flag h) = h" | "call_handle (Call_inline h) = h"
| "call_handle (Call_workers h) = h" | "call_handle (Call_run h) = h" | "call_handle (Call_send h) = h"
| "call_handle (Call_notify h) = h" | "call_handle (Refused h) = h" | "call_handle (Ran_inline h) = h"
| "call_handle (Queued h) = h" | "call_handle (Threw h) = h"

fun sent :: "call_pc \<Rightarrow> coro multiset" where
  "sent (Call_notify h) = {#h#}"
| "sent (Queued h) = {#h#}"
| "sent _ = {#}"

fun inlined :: "call_pc \<Rightarrow> coro multiset" where
  "inlined (Call_run h) = {#h#}"
| "inlined (Ran_inline h) = {#h#}"
| "inlined _ = {#}"

lemma once_per_call: "count (sent pc + inlined pc) h \<le> (if call_handle pc = h then 1 else 0)"
  by (cases pc) auto

lemma once_per_calls:
  "count (sum_list (map sent cs) + sum_list (map inlined cs)) h \<le> length (filter (\<lambda>pc. call_handle pc = h) cs)"
proof (induction cs)
  case (Cons pc cs)
  with once_per_call [of pc h] show ?case by (auto split: if_splits)
qed simp

text \<open>What a worker takes leaves the queue; what a call sends enters it.\<close>

definition taken_and_queued :: "coro_scheduler \<Rightarrow> coro multiset" where
  "taken_and_queued s = mset (map fst (taken_log s)) + mset (buffer (external_coro_queue s))"

lemma worker_step_accounts:
  assumes "worker_step rnd fin me pc s = Some (pc', s')" "local_empty s" "me < length (coro_queues s)"
    "length (coro_queues s) < 2 ^ 64"
  shows "taken_and_queued s' = taken_and_queued s \<and> inline_log s' = inline_log s
    \<and> coro_queues s' = coro_queues s \<and> shutting_down s' = shutting_down s"
proof -
  have "coro_queues s \<noteq> []" using assms(3) by auto
  with assms show ?thesis
    by (cases pc)
      (auto simp: worker_pop_empty worker_steal_empty worker_external taken_and_queued_def
        split: list.splits if_splits)
qed

lemma call_step_accounts:
  assumes "call_step fin pc s = Some (pc', s')"
  shows "taken_and_queued s' + sent pc = taken_and_queued s + sent pc'
    \<and> mset (inline_log s') + inlined pc = mset (inline_log s) + inlined pc'
    \<and> coro_queues s' = coro_queues s \<and> shutting_down s' = shutting_down s"
  using assms
  by (cases pc) (auto simp: call_send taken_and_queued_def split: if_splits)

text \<open>All workers stand before the clearing of the scheduler.\<close>

definition accounted :: "coro_sys \<Rightarrow> bool" where
  "accounted z = (case z of (ws, cs, sd, s) \<Rightarrow>
     sum_list (map sent cs) = taken_and_queued s \<and> sum_list (map inlined cs) = mset (inline_log s)
     \<and> local_empty s
     \<and> (if sd = Sd_end then coro_queues s = [] \<and> (\<forall>pc \<in> set ws. pc = W_exited)
        else length ws = length (coro_queues s))
     \<and> length (coro_queues s) < 2 ^ 64
     \<and> (\<forall>k. sd = Sd_join k \<longrightarrow> (\<forall>i < min k (length ws). ws ! i = W_exited))
     \<and> (W_exited \<in> set ws \<longrightarrow> shutting_down s)
     \<and> (sd \<noteq> Sd_idle \<longrightarrow> shutting_down s))"

lemma worker_step_exited:
  assumes "worker_step rnd fin me pc s = Some (pc', s')"
  shows "pc \<noteq> W_exited \<and> (pc' = W_exited \<longrightarrow> shutting_down s)"
  using assms
  by (cases pc) (auto simp: worker_step.simps(2,4) worker_external Let_def
      split: if_splits option.splits prod.splits list.splits)

lemma accounted_worker:
  assumes "accounted (ws, cs, sd, s)" "i < length ws" "worker_step rnd fin i (ws ! i) s = Some (pc, s')"
  shows "accounted (ws[i := pc], cs, sd, s')"
proof -
  have ne: "ws ! i \<noteq> W_exited" and ex: "pc = W_exited \<longrightarrow> shutting_down s"
    using worker_step_exited [OF assms(3)] by auto
  then have sd: "sd \<noteq> Sd_end" using assms(1,2) nth_mem [OF assms(2)] by (auto simp: accounted_def)
  with assms(1) have "length ws = length (coro_queues s)" "local_empty s" "length (coro_queues s) < 2 ^ 64"
    by (auto simp: accounted_def)
  with worker_step_accounts [OF assms(3)] assms(2)
  have a: "taken_and_queued s' = taken_and_queued s" "inline_log s' = inline_log s"
    "coro_queues s' = coro_queues s" "shutting_down s' = shutting_down s" by auto
  have "\<forall>k. sd = Sd_join k \<longrightarrow> (\<forall>j < min k (length ws). ws ! j = W_exited)"
    using assms(1) by (simp add: accounted_def)
  then have j: "\<forall>k. sd = Sd_join k \<longrightarrow> (\<forall>j < min k (length ws). ws[i := pc] ! j = W_exited)"
    using ne by (metis nth_list_update_neq)
  have "W_exited \<in> set (ws[i := pc]) \<longrightarrow> shutting_down s"
    using assms(1) ex set_update_subset_insert [of ws i pc] by (auto simp: accounted_def)
  with assms(1) a sd j show ?thesis by (simp add: accounted_def local_empty_def)
qed

lemma accounted_call:
  assumes "accounted (ws, cs, sd, s)" "j < length cs" "call_step fin (cs ! j) s = Some (pc, s')"
  shows "accounted (ws, cs[j := pc], sd, s')"
proof -
  note st = call_step_accounts [OF assms(3)]
  have "sum_list (map sent (cs[j := pc])) + sent (cs ! j) = taken_and_queued s' + sent (cs ! j)"
    using sum_list_map_update [OF assms(2), of sent pc] assms(1) st by (simp add: accounted_def)
  then have sent: "sum_list (map sent (cs[j := pc])) = taken_and_queued s'" by simp
  have "sum_list (map inlined (cs[j := pc])) + inlined (cs ! j) = mset (inline_log s') + inlined (cs ! j)"
    using sum_list_map_update [OF assms(2), of inlined pc] assms(1) st by (simp add: accounted_def)
  then have "sum_list (map inlined (cs[j := pc])) = mset (inline_log s')" by simp
  with sent assms(1) st show ?thesis by (simp add: accounted_def local_empty_def)
qed

lemma accounted_notify:
  assumes "accounted (ws, cs, sd, s)" "j < length cs" "cs ! j = Call_notify h"
  shows "accounted (ws, cs[j := Queued h], sd, s)"
  using assms sum_list_map_update [OF assms(2), of sent "Queued h"]
    sum_list_map_update [OF assms(2), of inlined "Queued h"]
  by (simp add: accounted_def)

lemma accounted_wake:
  assumes "accounted (ws, cs, sd, s)" "i < length ws" "ws ! i = W_asleep"
  shows "accounted (ws[i := W_loop], cs, sd, s)"
proof -
  have asleep: "ws ! i \<noteq> W_exited" using assms(3) by simp
  have "\<forall>k. sd = Sd_join k \<longrightarrow> (\<forall>j < min k (length ws). ws ! j = W_exited)"
    using assms(1) by (simp add: accounted_def)
  then have j: "\<forall>k. sd = Sd_join k \<longrightarrow> (\<forall>j < min k (length ws). ws[i := W_loop] ! j = W_exited)"
    using asleep by (metis nth_list_update_neq)
  have "sd \<noteq> Sd_end" using assms nth_mem [OF assms(2)] by (auto simp: accounted_def)
  moreover have "W_exited \<in> set (ws[i := W_loop]) \<longrightarrow> shutting_down s"
    using assms(1) set_update_subset_insert [of ws i W_loop] by (auto simp: accounted_def)
  ultimately show ?thesis using assms(1) j by (simp add: accounted_def)
qed

lemma accounted_notify_all:
  assumes "accounted (ws, cs, Sd_notify, s)"
  shows "accounted (map woken ws, cs, Sd_close, s)"
  using assms by (auto simp: accounted_def woken_def split: if_splits)

lemma accounted_shutdown:
  assumes "accounted (ws, cs, sd, s)" "shutdown_step ws sd s = Some (sd', s')"
  shows "accounted (ws, cs, sd', s')"
proof (cases sd)
  case (Sd_join k)
  show ?thesis
  proof (cases "k < length ws")
    case True
    with assms Sd_join show ?thesis by (auto simp: accounted_def less_Suc_eq split: if_splits)
  next
    case False
    with assms Sd_join show ?thesis
      by (auto simp: accounted_def taken_and_queued_def local_empty_def in_set_conv_nth split: if_splits)
  qed
next
  case Sd_close
  with assms show ?thesis
    by (auto simp: accounted_def taken_and_queued_def local_empty_def close_store_def on_close_def)
qed (use assms in \<open>auto simp: accounted_def taken_and_queued_def local_empty_def\<close>)

lemma accounted_step:
  assumes "coro_sys_step z z'" "accounted z"
  shows "accounted z'"
  using assms
proof cases
  case (notify_one j cs h i ws sd s)
  with assms(2) show ?thesis by (metis accounted_notify accounted_wake)
next
  case (new_call ws cs sd s h)
  with assms(2) show ?thesis by (simp add: accounted_def)
qed (use assms(2) in \<open>auto intro: accounted_worker accounted_call accounted_notify accounted_shutdown accounted_notify_all\<close>)

lemma accounted_init: "n < 2 ^ 64 \<Longrightarrow> accounted (coro_init n noop at_end)"
  using new_deque_inv [of 10 "0 :: coro"]
  by (auto simp: accounted_def coro_init_def init_coro_workers_def taken_and_queued_def local_empty_def new_channel_def)

lemma accounted_reach:
  assumes "coro_reach (coro_init n noop at_end) z" "n < 2 ^ 64"
  shows "accounted z"
  using assms(1)
proof induction
  case start
  show ?case by (rule accounted_init [OF assms(2)])
next
  case (step z z')
  from step.hyps(2) step.IH show ?case by (rule accounted_step)
next
  case (spurious z z')
  from spurious.hyps(2) spurious.IH show ?case by cases (auto intro: accounted_wake)
qed

section \<open>The loop over the victims\<close>

definition victim :: "nat \<Rightarrow> nat \<Rightarrow> nat \<Rightarrow> nat" where
  "victim n start i = (start + i) mod n"

lemma victim_all:
  assumes "v < n" "start < n"
  shows "\<exists>i < n. victim n start i = v"
proof (cases "start \<le> v")
  case True
  with assms show ?thesis by (intro exI [of _ "v - start"]) (simp add: victim_def)
next
  case False
  with assms show ?thesis by (intro exI [of _ "v + n - start"]) (simp add: victim_def)
qed

lemma victim_word:
  fixes start i :: u64
  assumes "length (coro_queues s) = n" "n < 2 ^ 63" "unat start < n" "unat i < n"
  shows "unat ((start + i) mod num_workers s) = victim n (unat start) (unat i)"
proof -
  have "unat (start + i) = unat start + unat i" using assms by (simp add: unat_word_ariths)
  then show ?thesis using assms by (simp add: unat_mod unat_num_workers victim_def)
qed

definition has_work :: "nat \<Rightarrow> nat \<Rightarrow> coro_scheduler \<Rightarrow> bool" where
  "has_work me v s \<longleftrightarrow> v \<noteq> me \<and> contents (coro_queues s ! v) \<noteq> []"

lemma eq_of_nat_iff: "k < 2 ^ 64 \<Longrightarrow> x = of_nat k \<longleftrightarrow> unat x = k" for x :: u64
  by (auto simp: unat_of_nat take_bit_nat_eq_self of_nat_unat)

lemma steal_step:
  assumes n: "length (coro_queues s) = n" "n < 2 ^ 63" "unat start < n" "unat i < n" "me < n"
    and inv: "\<forall>q \<in> set (coro_queues s). ws_inv q"
    and v: "v = victim n (unat start) (unat i)"
  shows "if has_work me v s
    then \<exists>q h. h = hd (contents (coro_queues s ! v)) \<and> contents q = tl (contents (coro_queues s ! v))
      \<and> worker_step rnd fin me (W_steal start i) s =
        Some (if resumable h s then W_run h else W_steal start (i + 1),
              take_handle h (s\<lparr>coro_queues := (coro_queues s)[v := q]\<rparr>))
    else worker_step rnd fin me (W_steal start i) s = Some (W_steal start (i + 1), s)"
proof -
  have lt: "i < num_workers s" using n by (simp add: word_less_nat_alt unat_num_workers)
  have uv: "unat ((start + i) mod num_workers s) = v" using victim_word [OF n(1-4)] v by simp
  have me: "(start + i) mod num_workers s = of_nat me \<longleftrightarrow> v = me"
    using uv n eq_of_nat_iff [of me "(start + i) mod num_workers s"] by simp
  have vn: "v < n" using v n by (simp add: victim_def)
  then have wi: "ws_inv (coro_queues s ! v)" using inv n(1) nth_mem by blast
  show ?thesis
  proof (cases "contents (coro_queues s ! v) = []")
    case True
    then show ?thesis using lt uv me steal_contents_empty [OF True]
      by (simp add: has_work_def worker_step.simps(4) Let_def)
  next
    case False
    obtain q where "steal (coro_queues s ! v) = Some (Some (hd (contents (coro_queues s ! v))), q)"
      "contents q = tl (contents (coro_queues s ! v))"
      using steal_contents [OF wi False] by blast
    then show ?thesis using lt uv me False
      by (auto simp: has_work_def worker_step.simps(4) Let_def)
  qed
qed

lemma steal_search:
  assumes n: "length (coro_queues s) = n" "n < 2 ^ 63" "unat start < n" "me < n"
    and inv: "\<forall>q \<in> set (coro_queues s). ws_inv q"
    and "unat i + k < n" "\<forall>j < k. \<not> has_work me (victim n (unat start) (unat i + j)) s"
    and v: "v = victim n (unat start) (unat i + k)" "has_work me v s" "length choices = Suc k"
  shows "\<exists>q h pc. h = hd (contents (coro_queues s ! v)) \<and> contents q = tl (contents (coro_queues s ! v))
      \<and> run_worker choices me (W_steal start i) s =
        (pc, take_handle h (s\<lparr>coro_queues := (coro_queues s)[v := q]\<rparr>))
      \<and> (resumable h s \<longrightarrow> pc = W_run h)"
  using assms(6-)
proof (induction k arbitrary: i choices)
  case 0
  obtain rnd fin where c: "choices = [(rnd, fin)]" using 0(5) by (auto simp: length_Suc_conv)
  have "unat i < n" using 0(1) by simp
  from steal_step [OF n(1-3) this n(4) inv, of v rnd fin] 0(3,4)
  show ?case by (auto simp: c)
next
  case (Suc k)
  obtain rnd fin choices' where c: "choices = (rnd, fin) # choices'" "length choices' = Suc k"
    using Suc.prems(5) by (auto simp: length_Suc_conv)
  have i: "unat i < n" using Suc.prems(1) by simp
  have "unat (i + 1) = Suc (unat i)" using i n(2) by (simp add: unat_word_ariths)
  note s = this
  have "\<not> has_work me (victim n (unat start) (unat i)) s" using Suc.prems(2) by (metis add_0_right zero_less_Suc)
  with steal_step [OF n(1-3) i n(4) inv refl, of rnd fin]
  have st: "worker_step rnd fin me (W_steal start i) s = Some (W_steal start (i + 1), s)" by simp
  have "\<exists>q h pc. h = hd (contents (coro_queues s ! v)) \<and> contents q = tl (contents (coro_queues s ! v))
      \<and> run_worker choices' me (W_steal start (i + 1)) s =
        (pc, take_handle h (s\<lparr>coro_queues := (coro_queues s)[v := q]\<rparr>))
      \<and> (resumable h s \<longrightarrow> pc = W_run h)"
  proof (rule Suc.IH)
    show "\<forall>j < k. \<not> has_work me (victim n (unat start) (unat (i + 1) + j)) s"
      using Suc.prems(2) by (auto simp: s)
  qed (use Suc.prems c s in simp_all)
  then show ?case by (simp add: c st)
qed

section \<open>Properties\<close>

text \<open>
  C3. Every submission is resumed at most once.  In every interleaving of any number of workers,
  of calls of \<open>schedule_coro_handle\<close>, of the shutdown and of spurious wake-ups, the handles
  sent by the calls are those in the external queue and those the workers took from it, each
  once; those a call resumed itself it has not sent; so a handle is resumed at most as often
  as it was submitted.  The deques of the workers stay empty: nothing ever pushes to them.
\<close>

theorem coro_scheduled_once:
  assumes "coro_reach (coro_init n noop at_end) (ws, cs, sd, s)" "n < 2 ^ 64"
  shows "sum_list (map sent cs) = mset (buffer (external_coro_queue s)) + mset (map fst (taken_log s))
    \<and> sum_list (map inlined cs) = mset (inline_log s)
    \<and> count (mset (map fst (filter snd (taken_log s))) + mset (inline_log s)) h
        \<le> length (filter (\<lambda>pc. call_handle pc = h) cs)
    \<and> (\<forall>q \<in> set (coro_queues s). contents q = [])"
proof -
  have a: "sum_list (map sent cs) = mset (map fst (taken_log s)) + mset (buffer (external_coro_queue s))"
    "sum_list (map inlined cs) = mset (inline_log s)" "local_empty s"
    using accounted_reach [OF assms] by (simp_all add: accounted_def taken_and_queued_def)
  have "mset (map fst (filter snd (taken_log s))) \<subseteq># mset (map fst (taken_log s))"
    by (simp add: image_mset_subseteq_mono)
  then have "count (mset (map fst (filter snd (taken_log s))) + mset (inline_log s)) h
      \<le> count (sum_list (map sent cs) + sum_list (map inlined cs)) h"
    using a by (simp add: mset_subset_eq_count trans_le_add1)
  also have "\<dots> \<le> length (filter (\<lambda>pc. call_handle pc = h) cs)" by (rule once_per_calls)
  finally show ?thesis using a by (simp add: local_empty_def add.commute)
qed

text \<open>
  What one worker does alone, from the head of its loop, whatever its generator gives and
  whichever coroutines end: it takes all handles of the external queue, oldest first, and
  only then goes to sleep, after at most four steps per handle and as many more as there
  are workers.
\<close>

theorem worker_drains_queue:
  assumes "\<forall>q \<in> set (coro_queues s). contents q = []" "length (coro_queues s) < 2 ^ 64"
    and "me < length (coro_queues s)" "\<not> shutting_down s"
    and "4 * length (buffer (external_coro_queue s)) + length (coro_queues s) + 5 \<le> length choices"
  shows "\<exists>s'. run_worker choices me W_loop s = (W_asleep, s') \<and> buffer (external_coro_queue s') = []
    \<and> map fst (rev (taken_log s')) = map fst (rev (taken_log s)) @ buffer (external_coro_queue s)"
proof -
  have "undisturbed (length (coro_queues s)) W_loop s"
    using assms by (simp add: undisturbed_def local_empty_def)
  from undisturbed_run [OF this assms(3,2), of choices] assms(5)
  show ?thesis by (auto simp: work_left_def handles_def)
qed

text \<open>
  Stealing: if the deque of some other worker holds work, the loop over the victims, wherever
  it starts, finds some in at most as many steps as there are workers: it takes the oldest
  handle of a victim other than the worker itself, and runs it if it can be resumed.
\<close>

theorem steal_finds_work:
  assumes "length (coro_queues s) = n" "n < 2 ^ 63" "unat start < n" "me < n"
    and "\<forall>q \<in> set (coro_queues s). ws_inv q"
    and "v < n" "v \<noteq> me" "contents (coro_queues s ! v) \<noteq> []" "length choices = n"
  shows "\<exists>k u q h pc. k < n \<and> u < n \<and> u \<noteq> me \<and> contents (coro_queues s ! u) = h # contents q
    \<and> run_worker (take (Suc k) choices) me (W_steal start 0) s =
        (pc, take_handle h (s\<lparr>coro_queues := (coro_queues s)[u := q]\<rparr>))
    \<and> (resumable h s \<longrightarrow> pc = W_run h)"
proof -
  let ?P = "\<lambda>i. i < n \<and> has_work me (victim n (unat start) i) s"
  obtain i where "i < n" "victim n (unat start) i = v" using victim_all [OF assms(6,3)] by blast
  with assms(7,8) have "?P i" by (simp add: has_work_def)
  then have least: "?P (LEAST i. ?P i)" by (rule LeastI)
  define k where "k = (LEAST i. ?P i)"
  define u where "u = victim n (unat start) k"
  have k: "k < n" "has_work me u s" using least by (auto simp: k_def u_def)
  have before: "\<forall>j < k. \<not> has_work me (victim n (unat start) (unat (0 :: u64) + j)) s"
  proof (intro allI impI)
    fix j assume "j < k"
    then have "\<not> ?P j" unfolding k_def by (rule not_less_Least)
    with \<open>j < k\<close> k(1) show "\<not> has_work me (victim n (unat start) (unat (0 :: u64) + j)) s" by simp
  qed
  have "u < n" using assms(6) by (simp add: u_def victim_def)
  have len: "length (take (Suc k) choices) = Suc k" using k(1) assms(9) by simp
  have "\<exists>q h pc. h = hd (contents (coro_queues s ! u)) \<and> contents q = tl (contents (coro_queues s ! u))
      \<and> run_worker (take (Suc k) choices) me (W_steal start 0) s =
        (pc, take_handle h (s\<lparr>coro_queues := (coro_queues s)[u := q]\<rparr>))
      \<and> (resumable h s \<longrightarrow> pc = W_run h)"
    by (rule steal_search [OF assms(1-5) _ before _ k(2) len]) (simp_all add: k(1) u_def)
  then obtain q h pc where f: "h = hd (contents (coro_queues s ! u))" "contents q = tl (contents (coro_queues s ! u))"
    "run_worker (take (Suc k) choices) me (W_steal start 0) s =
        (pc, take_handle h (s\<lparr>coro_queues := (coro_queues s)[u := q]\<rparr>))"
    "resumable h s \<longrightarrow> pc = W_run h" by blast
  then have "contents (coro_queues s ! u) = h # contents q" "u \<noteq> me" using k(2) by (simp_all add: has_work_def)
  with f(3,4) k(1) \<open>u < n\<close> show ?thesis by blast
qed

text \<open>
  The shutdown is over only when every worker has left its loop, and a worker leaves it only
  after the flag has been set.
\<close>

theorem shutdown_joins_workers:
  assumes "coro_reach (coro_init n noop at_end) (ws, cs, sd, s)" "n < 2 ^ 64"
  shows "(sd = Sd_end \<longrightarrow> (\<forall>pc \<in> set ws. pc = W_exited)) \<and> (W_exited \<in> set ws \<longrightarrow> shutting_down s)"
  using accounted_reach [OF assms] by (simp add: accounted_def)

section \<open>Lost wake-ups\<close>

text \<open>
  A worker asleep that nobody will wake: every call is past its notification or cannot come
  to one, and so is the shutdown.
\<close>

fun past_notify :: "call_pc \<Rightarrow> bool" where
  "past_notify (Call_workers h) \<longleftrightarrow> False"
| "past_notify (Call_send h) \<longleftrightarrow> False"
| "past_notify (Call_notify h) \<longleftrightarrow> False"
| "past_notify _ \<longleftrightarrow> True"

definition hung :: "coro_sys \<Rightarrow> bool" where
  "hung z = (case z of (ws, cs, sd, s) \<Rightarrow>
     ws = [W_asleep] \<and> (sd = Sd_close \<or> sd = Sd_join 0) \<and> shutting_down s \<and> (\<forall>pc \<in> set cs. past_notify pc))"

lemma past_notify_step:
  "call_step fin pc s = Some (pc', s') \<Longrightarrow> past_notify pc \<Longrightarrow> shutting_down s \<Longrightarrow>
   past_notify pc' \<and> shutting_down s'"
  by (cases pc) (auto split: if_splits)

lemma hung_step:
  assumes "coro_sys_step z z'" "hung z"
  shows "hung z'"
  using assms
proof cases
  case (call j cs fin s pc s' ws sd)
  then show ?thesis using assms(2) past_notify_step [OF call(4)] set_update_subset_insert [of cs j pc]
    by (auto simp: hung_def)
next
  case (shutdown ws sd s sd' s' cs)
  then show ?thesis using assms(2) by (auto simp: hung_def)
next
  case (notify_one j cs h i ws sd s)
  then show ?thesis using assms(2) nth_mem [of j cs] by (auto simp: hung_def)
qed (use assms(2) in \<open>auto simp: hung_def\<close>)

lemma hung_steps: "coro_sys_step\<^sup>*\<^sup>* z z' \<Longrightarrow> hung z \<Longrightarrow> hung z'"
  by (induction rule: rtranclp_induct) (auto dest: hung_step)

text \<open>Paths of one worker: to the wait, and a submission in the gap before it.\<close>

lemma coro_reach_worker:
  assumes "coro_reach z (ws, cs, sd, s)" "i < length ws" "worker_step rnd fin i (ws ! i) s = Some (pc, s')"
    "ws' = ws[i := pc]"
  shows "coro_reach z (ws', cs, sd, s')"
  using coro_reach.step [OF assms(1) coro_sys_step.worker [OF assms(2,3)]] assms(4) by simp

lemma coro_reach_call:
  assumes "coro_reach z (ws, cs, sd, s)" "j < length cs" "call_step fin (cs ! j) s = Some (pc, s')"
    "cs' = cs[j := pc]"
  shows "coro_reach z (ws, cs', sd, s')"
  using coro_reach.step [OF assms(1) coro_sys_step.call [OF assms(2,3)]] assms(4) by simp

lemma init_empty: "local_empty (init_coro_workers n noop at_end)"
  using new_deque_inv [of 10 "0 :: coro"] by (simp add: local_empty_def init_coro_workers_def)

lemma init_simps [simp]:
  "length (coro_queues (init_coro_workers n noop at_end)) = n"
  "external_coro_queue (init_coro_workers n noop at_end) = new_channel"
  "shutting_down (init_coro_workers n noop at_end) \<longleftrightarrow> False"
  "done_at (init_coro_workers n noop at_end) = at_end"
  "taken_log (init_coro_workers n noop at_end) = []"
  by (simp_all add: init_coro_workers_def)

lemma one_worker_before_wait:
  "coro_reach (coro_init 1 noop at_end) ([W_block], [], Sd_idle, init_coro_workers 1 noop at_end)"
proof -
  let ?s = "init_coro_workers 1 noop at_end"
  have w: "num_workers ?s = 1" by (simp add: num_workers_def)
  have "coro_reach (coro_init 1 noop at_end) ([W_loop], [], Sd_idle, ?s)"
    using coro_reach.start [of "coro_init 1 noop at_end"] by (simp add: coro_init_def)
  then have "coro_reach (coro_init 1 noop at_end) ([W_pop], [], Sd_idle, ?s)"
    by (rule coro_reach_worker [where i = 0]) auto
  then have "coro_reach (coro_init 1 noop at_end) ([W_external], [], Sd_idle, ?s)"
    by (rule coro_reach_worker [where i = 0]) (use worker_pop_empty [OF init_empty] in auto)
  then show ?thesis
    by (rule coro_reach_worker [where i = 0]) (use w in \<open>auto simp: worker_external new_channel_def\<close>)
qed

text \<open>
  A wake-up can be lost: the condition variable is waited for without looking for work under
  its mutex, and notified without the mutex.  With one worker a submission between its look
  at the external queue and its wait leaves the handle in the queue, the call over and the
  worker asleep, and no step of the system moves the worker then until there is a new
  submission or the shutdown.
\<close>

theorem coro_wakeup_lost:
  assumes "\<not> at_end h" "0x1000 \<le> h"
  shows "\<exists>s. coro_reach (coro_init 1 noop at_end) ([W_asleep], [Queued h], Sd_idle, s)
    \<and> buffer (external_coro_queue s) = [h]
    \<and> (\<forall>z'. coro_sys_step ([W_asleep], [Queued h], Sd_idle, s) z' \<longrightarrow>
         (\<exists>h'. z' = ([W_asleep], [Queued h, Call h'], Sd_idle, s))
         \<or> (\<exists>s'. z' = ([W_asleep], [Queued h], Sd_notify, s')))"
proof -
  let ?z = "coro_init 1 noop at_end" and ?s = "init_coro_workers 1 noop at_end"
  let ?s' = "?s\<lparr>external_coro_queue := new_channel\<lparr>buffer := [h]\<rparr>\<rparr>"
  have h: "h \<noteq> 0" "\<not> h < 0x1000" using assms(2) by auto
  have q: "coro_queues ?s \<noteq> []" by (simp add: init_coro_workers_def)
  have "coro_reach ?z ([W_block], [Call h], Sd_idle, ?s)"
    using coro_reach.step [OF one_worker_before_wait coro_sys_step.new_call] by simp
  then have "coro_reach ?z ([W_block], [Call_flag h], Sd_idle, ?s)"
    by (rule coro_reach_call [where j = 0]) (use assms h in auto)
  then have "coro_reach ?z ([W_block], [Call_workers h], Sd_idle, ?s)"
    by (rule coro_reach_call [where j = 0]) auto
  then have "coro_reach ?z ([W_block], [Call_send h], Sd_idle, ?s)"
    by (rule coro_reach_call [where j = 0]) (use q in auto)
  then have "coro_reach ?z ([W_block], [Call_notify h], Sd_idle, ?s')"
    by (rule coro_reach_call [where j = 0]) (auto simp: call_send new_channel_def)
  then have "coro_reach ?z ([W_block], [Queued h], Sd_idle, ?s')"
    using coro_reach.step coro_sys_step.notify_nobody [of 0 "[Call_notify h]" h "[W_block]" Sd_idle ?s']
    by fastforce
  then have "coro_reach ?z ([W_asleep], [Queued h], Sd_idle, ?s')"
    by (rule coro_reach_worker [where i = 0]) auto
  then show ?thesis
    by (intro exI [of _ ?s'] conjI allI impI) (auto elim!: coro_sys_stepE simp: nth_Cons split: nat.splits)
qed

text \<open>
  The shutdown can hang for the same reason: if the flag is set and everybody notified
  between the look of a worker at the flag and its wait, the worker sleeps, the shutdown
  waits for it in \<open>join\<close>, and no continuation without a spurious wake-up ends that, whatever
  is submitted.
\<close>

theorem coro_shutdown_can_hang:
  "\<exists>z. coro_reach (coro_init 1 noop at_end) z
    \<and> (\<forall>ws cs sd s. coro_sys_step\<^sup>*\<^sup>* z (ws, cs, sd, s) \<longrightarrow> ws = [W_asleep] \<and> sd \<noteq> Sd_end)"
proof -
  let ?z = "coro_init 1 noop at_end" and ?s = "init_coro_workers 1 noop at_end"
  let ?s' = "?s\<lparr>shutting_down := True\<rparr>"
  have "coro_reach ?z ([W_block], [], Sd_notify, ?s')"
    using coro_reach.step [OF one_worker_before_wait coro_sys_step.shutdown] by simp
  from coro_reach.step [OF this coro_sys_step.notify_all]
  have "coro_reach ?z ([W_block], [], Sd_close, ?s')" by (simp add: woken_def)
  then have r: "coro_reach ?z ([W_asleep], [], Sd_close, ?s')"
    by (rule coro_reach_worker [where i = 0]) auto
  have "hung ([W_asleep], [], Sd_close, ?s')" by (simp add: hung_def)
  then have "\<forall>ws cs sd s. coro_sys_step\<^sup>*\<^sup>* ([W_asleep], [], Sd_close, ?s') (ws, cs, sd, s) \<longrightarrow>
      ws = [W_asleep] \<and> sd \<noteq> Sd_end"
    using hung_steps by (fastforce simp: hung_def)
  with r show ?thesis by blast
qed

text \<open>A call that has seen the flag off throws when the shutdown closes the queue before it sends.\<close>

lemma schedule_can_throw:
  assumes "is_closed (external_coro_queue s)"
  shows "call_step fin (Call_send h) s = Some (Threw h, s)"
  using assms by (simp add: call_send)

section \<open>Witnesses\<close>

text \<open>
  A run with two submissions of one handle: the worker takes the first out of the queue and
  resumes it, the second comes after the flag of the shutdown and resumes it inline.
\<close>

lemma scheduled_twice_run:
  obtains s where "coro_reach (coro_init 1 8 (\<lambda>h. False)) ([W_loop], [Queued 0x2000, Ran_inline 0x2000], Sd_notify, s)"
    "taken_log s = [(0x2000, True)]"
proof -
  let ?z = "coro_init 1 8 (\<lambda>h. False)" and ?s = "init_coro_workers 1 8 (\<lambda>h. False)"
  let ?s1 = "?s\<lparr>external_coro_queue := new_channel\<lparr>buffer := [0x2000]\<rparr>\<rparr>"
  let ?s2 = "take_handle 0x2000 (?s1\<lparr>external_coro_queue := new_channel\<rparr>)"
  let ?s3 = "?s2\<lparr>shutting_down := True\<rparr>"
  have q: "coro_queues ?s \<noteq> []" and e: "local_empty ?s1" using init_empty [of 1 8 "\<lambda>h. False"]
    by (simp_all add: init_coro_workers_def local_empty_def)
  have r: "resumable 0x2000 (?s1\<lparr>external_coro_queue := new_channel\<rparr>)" "resumable 0x2000 ?s1"
    by (simp_all add: resumable_def init_coro_workers_def)
  have "coro_reach ?z ([W_loop], [], Sd_idle, ?s)"
    using coro_reach.start [of ?z] by (simp add: coro_init_def)
  from coro_reach.step [OF this coro_sys_step.new_call [where h = "0x2000"]]
  have "coro_reach ?z ([W_loop], [Call 0x2000], Sd_idle, ?s)" by simp
  then have "coro_reach ?z ([W_loop], [Call_flag 0x2000], Sd_idle, ?s)"
    by (rule coro_reach_call [where j = 0]) auto
  then have "coro_reach ?z ([W_loop], [Call_workers 0x2000], Sd_idle, ?s)"
    by (rule coro_reach_call [where j = 0]) auto
  then have "coro_reach ?z ([W_loop], [Call_send 0x2000], Sd_idle, ?s)"
    by (rule coro_reach_call [where j = 0]) (use q in auto)
  then have "coro_reach ?z ([W_loop], [Call_notify 0x2000], Sd_idle, ?s1)"
    by (rule coro_reach_call [where j = 0]) (auto simp: call_send new_channel_def)
  then have "coro_reach ?z ([W_loop], [Queued 0x2000], Sd_idle, ?s1)"
    using coro_reach.step coro_sys_step.notify_nobody [of 0 "[Call_notify 0x2000]" "0x2000" "[W_loop]" Sd_idle ?s1]
    by fastforce
  then have "coro_reach ?z ([W_pop], [Queued 0x2000], Sd_idle, ?s1)"
    by (rule coro_reach_worker [where i = 0]) auto
  then have "coro_reach ?z ([W_external], [Queued 0x2000], Sd_idle, ?s1)"
    by (rule coro_reach_worker [where i = 0]) (use worker_pop_empty [OF e] in auto)
  then have "coro_reach ?z ([W_run 0x2000], [Queued 0x2000], Sd_idle, ?s2)"
    by (rule coro_reach_worker [where i = 0]) (use r in \<open>auto simp: worker_external new_channel_def\<close>)
  then have "coro_reach ?z ([W_loop], [Queued 0x2000], Sd_idle, ?s2)"
    by (rule coro_reach_worker [where i = 0 and fin = False]) auto
  from coro_reach.step [OF this coro_sys_step.shutdown]
  have "coro_reach ?z ([W_loop], [Queued 0x2000], Sd_notify, ?s3)" by simp
  from coro_reach.step [OF this coro_sys_step.new_call [where h = "0x2000"]]
  have "coro_reach ?z ([W_loop], [Queued 0x2000, Call 0x2000], Sd_notify, ?s3)" by simp
  then have "coro_reach ?z ([W_loop], [Queued 0x2000, Call_flag 0x2000], Sd_notify, ?s3)"
    by (rule coro_reach_call [where j = 1]) auto
  then have "coro_reach ?z ([W_loop], [Queued 0x2000, Call_inline 0x2000], Sd_notify, ?s3)"
    by (rule coro_reach_call [where j = 1]) auto
  then have "coro_reach ?z ([W_loop], [Queued 0x2000, Call_run 0x2000], Sd_notify,
      ?s3\<lparr>inline_log := 0x2000 # inline_log ?s3\<rparr>)"
    by (rule coro_reach_call [where j = 1]) auto
  then have "coro_reach ?z ([W_loop], [Queued 0x2000, Ran_inline 0x2000], Sd_notify,
      ?s3\<lparr>inline_log := 0x2000 # inline_log ?s3\<rparr>)"
    by (rule coro_reach_call [where j = 1 and fin = False]) auto
  then show thesis by (rule that) (use r in simp)
qed

lemma coro_scheduled_once_witness:
  "\<exists>s. coro_reach (coro_init 1 8 (\<lambda>h. False)) ([W_loop], [Queued 0x2000, Ran_inline 0x2000], Sd_notify, s)
    \<and> taken_log s = [(0x2000, True)] \<and> inline_log s = [0x2000] \<and> buffer (external_coro_queue s) = []
    \<and> count (mset (map fst (filter snd (taken_log s))) + mset (inline_log s)) 0x2000 = 2"
proof -
  obtain s where r: "coro_reach (coro_init 1 8 (\<lambda>h. False)) ([W_loop], [Queued 0x2000, Ran_inline 0x2000], Sd_notify, s)"
    and l: "taken_log s = [(0x2000, True)]" by (rule scheduled_twice_run)
  note books = coro_scheduled_once [OF r, of "0x2000"]
  have "{#0x2000#} = mset (buffer (external_coro_queue s)) + mset (map fst (taken_log s))"
    "{#0x2000#} = mset (inline_log s)" using books by simp_all
  then have "buffer (external_coro_queue s) = []" "inline_log s = [0x2000]" using l by simp_all
  with r l show ?thesis by (intro exI [of _ s]) simp
qed

lemma worker_drains_queue_witness:
  "\<exists>s'. run_worker (replicate 20 (0, False)) 0 W_loop
        ((init_coro_workers 2 8 (\<lambda>h. False))\<lparr>external_coro_queue := new_channel\<lparr>buffer := [0x2000, 8, 0x3000]\<rparr>\<rparr>)
      = (W_asleep, s')
    \<and> map fst (rev (taken_log s')) = [0x2000, 8, 0x3000]"
proof -
  let ?s = "(init_coro_workers 2 8 (\<lambda>h. False))\<lparr>external_coro_queue := new_channel\<lparr>buffer := [0x2000, 8, 0x3000]\<rparr>\<rparr>"
  have "\<forall>q \<in> set (coro_queues ?s). contents q = []"
    using init_empty [of 2 8 "\<lambda>h. False"] by (simp add: local_empty_def)
  from worker_drains_queue [OF this, of 0 "replicate 20 (0, False)"] show ?thesis by auto
qed

definition sample_deques :: "coro ws_deque list" where
  "sample_deques = [new_deque 0 1024, \<lparr>top_v = 0, bottom_v = 1, array_v = \<lparr>mask_v = 1, buffer_v = [0x2000, 0]\<rparr>\<rparr>]"

lemma steal_finds_work_witness:
  "\<exists>k s'. run_worker (take (Suc k) [(0, False), (0, False)]) 0 (W_steal 0 0)
      ((init_coro_workers 2 8 (\<lambda>h. False))\<lparr>coro_queues := sample_deques\<rparr>) = (W_run 0x2000, s')"
proof -
  let ?s = "(init_coro_workers 2 8 (\<lambda>h. False))\<lparr>coro_queues := sample_deques\<rparr>"
  have c: "contents (coro_queues ?s ! 1) = [0x2000]"
    by (simp add: sample_deques_def contents_def ring_at_def)
  have "ws_inv (new_deque (0 :: coro) 1024)" using new_deque_inv [of 10 "0 :: coro"] by simp
  moreover have "ws_inv \<lparr>top_v = 0, bottom_v = 1, array_v = \<lparr>mask_v = 1, buffer_v = [0x2000 :: coro, 0]\<rparr>\<rparr>"
    unfolding ws_inv_def by (rule exI [of _ 1]) (simp add: ring_ok_def)
  ultimately have i: "\<forall>q \<in> set (coro_queues ?s). ws_inv q" by (simp add: sample_deques_def)
  have "\<exists>k u q h pc. k < 2 \<and> u < 2 \<and> u \<noteq> 0 \<and> contents (coro_queues ?s ! u) = h # contents q
      \<and> run_worker (take (Suc k) [(0, False), (0, False)]) 0 (W_steal 0 0) ?s =
          (pc, take_handle h (?s\<lparr>coro_queues := (coro_queues ?s)[u := q]\<rparr>))
      \<and> (resumable h ?s \<longrightarrow> pc = W_run h)"
    by (rule steal_finds_work [OF _ _ _ _ i, of 2 0 0 1]) (use c in \<open>simp_all add: sample_deques_def\<close>)
  then obtain k u q h pc where f: "u < 2" "u \<noteq> (0 :: nat)" "contents (coro_queues ?s ! u) = h # contents q"
    "run_worker (take (Suc k) [(0, False), (0, False)]) 0 (W_steal 0 0) ?s =
          (pc, take_handle h (?s\<lparr>coro_queues := (coro_queues ?s)[u := q]\<rparr>))"
    "resumable h ?s \<longrightarrow> pc = W_run h" by blast
  then have "u = 1" by simp
  with f(3) c have "h = 0x2000" by simp
  with f(4,5) show ?thesis by (auto simp: resumable_def init_coro_workers_def)
qed

lemma shutdown_joins_workers_witness:
  "W_exited \<in> set [W_block] \<longrightarrow> shutting_down (init_coro_workers 1 8 (\<lambda>h. False))"
  using shutdown_joins_workers [OF one_worker_before_wait [of 8 "\<lambda>h. False"]] by simp

lemma coro_wakeup_lost_witness:
  "\<exists>s. coro_reach (coro_init 1 8 (\<lambda>h. False)) ([W_asleep], [Queued 0x2000], Sd_idle, s)
    \<and> buffer (external_coro_queue s) = [0x2000]"
  using coro_wakeup_lost [where at_end = "\<lambda>h. False" and h = "0x2000" and noop = 8] by auto

end
