(* ===== verification/TimedAwaiter.thy ===== *)
theory TimedAwaiter
  imports TimerService Channel Event Semaphore
begin

text \<open>
  The timed awaiters (\<open>include/shared_state/timed_awaiter.hpp\<close>): a receive, a send, a wait
  for an event and an acquire of a semaphore that a timer may end.  An awaiter whose
  operation does not succeed at once resets its gate, adds a timer, adds its node to the
  waiters of the primitive, and tries once more; timer, primitive and awaiter race for the
  gate.  Its node is at \<open>p\<close>, its gate at \<open>g\<close>, its coroutine is \<open>h\<close>.
\<close>

section \<open>What the awaiters share\<close>

datatype async_op_status = Op_completed | Op_timed_out | Op_closed

text \<open>\<open>suspend_impl\<close> up to the second try; \<open>add\<close> puts a node on the waiters of the primitive.\<close>

definition race_register ::
  "(uintptr \<Rightarrow> 's \<Rightarrow> async_mem \<Rightarrow> 's \<times> async_mem) \<Rightarrow> int \<Rightarrow> coro \<Rightarrow> uintptr \<Rightarrow> uintptr \<Rightarrow>
   's \<times> async_mem \<times> timer_service \<Rightarrow> 's \<times> async_mem \<times> timer_service" where
  "race_register add deadline h p g z =
     (case z of (a, w, ts) \<Rightarrow>
        let w1 = w\<lparr>gates := (gates w)(g := False)\<rparr>;
            ts' = add_timer_raw deadline h 0 g ts;
            (a', w') = add p a (arm_node p h g w1)
        in (a', w', ts'))"

definition race_recheck :: "bool \<Rightarrow> coro \<Rightarrow> uintptr \<Rightarrow> async_mem \<Rightarrow> async_mem" where
  "race_recheck won h g w = (if won then fire_gate g h w else w)"

section \<open>Receiving\<close>

text \<open>The state of the awaiter is \<open>result_\<close>.  \<open>ready\<close> reads the clock as \<open>now\<close>.\<close>

definition timed_receive_ready ::
  "boundedness \<Rightarrow> int \<Rightarrow> int \<Rightarrow> 'a async_channel \<Rightarrow> bool \<times> 'a option \<times> 'a async_channel" where
  "timed_receive_ready b now deadline a =
     (case try_receive_now b (ch_base a) of
        (r, s) \<Rightarrow> (r \<noteq> None \<or> is_closed s \<or> deadline \<le> now, r, a\<lparr>ch_base := s\<rparr>))"

definition timed_receive_recheck ::
  "boundedness \<Rightarrow> coro \<Rightarrow> uintptr \<Rightarrow> 'a async_channel \<times> async_mem \<Rightarrow>
   'a option \<times> 'a async_channel \<times> async_mem" where
  "timed_receive_recheck b h g z =
     (case z of (a, w) \<Rightarrow>
        (case try_receive_now b (ch_base a) of
           (r, s) \<Rightarrow> (r, a\<lparr>ch_base := s\<rparr>, race_recheck (r \<noteq> None \<or> is_closed s) h g w)))"

definition timed_receive_suspend ::
  "boundedness \<Rightarrow> int \<Rightarrow> coro \<Rightarrow> uintptr \<Rightarrow> uintptr \<Rightarrow> 'a async_channel \<times> async_mem \<times> timer_service \<Rightarrow>
   'a option \<times> 'a async_channel \<times> async_mem \<times> timer_service" where
  "timed_receive_suspend b deadline h p g z =
     (case race_register add_receive_waiter deadline h p g z of (a, w, ts) \<Rightarrow>
        (case timed_receive_recheck b h g (a, w) of (r, a', w') \<Rightarrow> (r, a', w', ts)))"

definition timed_receive_resume ::
  "boundedness \<Rightarrow> 'a option \<Rightarrow> 'a async_channel \<Rightarrow> (async_op_status \<times> 'a option) \<times> 'a async_channel" where
  "timed_receive_resume b r a =
     (case (if r = None then try_receive_now b (ch_base a) else (r, ch_base a)) of
        (r', s) \<Rightarrow>
          (if r' \<noteq> None then (Op_completed, r')
           else if is_closed s then (Op_closed, None) else (Op_timed_out, None),
           a\<lparr>ch_base := s\<rparr>))"

section \<open>Sending\<close>

text \<open>
  The state of the awaiter is that of an untimed send; \<open>moved\<close> is what a move leaves of a
  value, as there.
\<close>

definition timed_try_send ::
  "('a \<Rightarrow> 'a) \<Rightarrow> boundedness \<Rightarrow> 'a send_awaiter \<Rightarrow> 'a async_channel \<Rightarrow> 'a send_awaiter \<times> 'a async_channel" where
  "timed_try_send moved b aw a =
     (case try_send_now b (sa_value aw) (ch_base a) of
        (ok, s) \<Rightarrow> (\<lparr>sa_value = moved (sa_value aw), sa_sent = ok\<rparr>, a\<lparr>ch_base := s\<rparr>))"

definition timed_send_ready ::
  "('a \<Rightarrow> 'a) \<Rightarrow> boundedness \<Rightarrow> int \<Rightarrow> int \<Rightarrow> 'a send_awaiter \<Rightarrow> 'a async_channel \<Rightarrow>
   bool \<times> 'a send_awaiter \<times> 'a async_channel" where
  "timed_send_ready moved b now deadline aw a =
     (if is_closed (ch_base a) then (True, aw, a)
      else case timed_try_send moved b aw a of
        (aw', a') \<Rightarrow> (sa_sent aw' \<or> deadline \<le> now, aw', a'))"

definition timed_send_recheck ::
  "('a \<Rightarrow> 'a) \<Rightarrow> boundedness \<Rightarrow> coro \<Rightarrow> uintptr \<Rightarrow> 'a send_awaiter \<Rightarrow> 'a async_channel \<times> async_mem \<Rightarrow>
   'a send_awaiter \<times> 'a async_channel \<times> async_mem" where
  "timed_send_recheck moved b h g aw z =
     (case z of (a, w) \<Rightarrow>
        (case timed_try_send moved b aw a of
           (aw', a') \<Rightarrow> (aw', a', race_recheck (sa_sent aw' \<or> is_closed (ch_base a')) h g w)))"

definition timed_send_suspend ::
  "('a \<Rightarrow> 'a) \<Rightarrow> boundedness \<Rightarrow> int \<Rightarrow> coro \<Rightarrow> uintptr \<Rightarrow> uintptr \<Rightarrow> 'a send_awaiter \<Rightarrow>
   'a async_channel \<times> async_mem \<times> timer_service \<Rightarrow>
   'a send_awaiter \<times> 'a async_channel \<times> async_mem \<times> timer_service" where
  "timed_send_suspend moved b deadline h p g aw z =
     (case race_register add_send_waiter deadline h p g z of (a, w, ts) \<Rightarrow>
        (case timed_send_recheck moved b h g aw (a, w) of (aw', a', w') \<Rightarrow> (aw', a', w', ts)))"

definition timed_send_resume ::
  "('a \<Rightarrow> 'a) \<Rightarrow> boundedness \<Rightarrow> 'a send_awaiter \<Rightarrow> 'a async_channel \<Rightarrow> async_op_status \<times> 'a async_channel" where
  "timed_send_resume moved b aw a =
     (if sa_sent aw then (Op_completed, a)
      else if is_closed (ch_base a) then (Op_closed, a)
      else case timed_try_send moved b aw a of
        (aw', a') \<Rightarrow> (if sa_sent aw' then Op_completed else Op_timed_out, a'))"

section \<open>Waiting for an event\<close>

definition timed_wait_ready ::
  "reset_policy \<Rightarrow> int \<Rightarrow> int \<Rightarrow> async_event \<Rightarrow> bool \<times> async_event" where
  "timed_wait_ready rp now deadline a =
     (case wait_ready rp a of (ok, a') \<Rightarrow> (ok \<or> deadline \<le> now, a'))"

definition timed_wait_recheck ::
  "reset_policy \<Rightarrow> coro \<Rightarrow> uintptr \<Rightarrow> async_event \<times> async_mem \<Rightarrow> async_event \<times> async_mem" where
  "timed_wait_recheck rp h g z =
     (case z of (a, w) \<Rightarrow> (case wait_ready rp a of (ok, a') \<Rightarrow> (a', race_recheck ok h g w)))"

definition timed_wait_suspend ::
  "reset_policy \<Rightarrow> int \<Rightarrow> coro \<Rightarrow> uintptr \<Rightarrow> uintptr \<Rightarrow> async_event \<times> async_mem \<times> timer_service \<Rightarrow>
   async_event \<times> async_mem \<times> timer_service" where
  "timed_wait_suspend rp deadline h p g z =
     (case race_register add_wait_waiter deadline h p g z of (a, w, ts) \<Rightarrow>
        (case timed_wait_recheck rp h g (a, w) of (a', w') \<Rightarrow> (a', w', ts)))"

text \<open>\<open>true\<close> is meant to say that the event was signalled, \<open>false\<close> that the time was up.\<close>

definition timed_wait_resume :: "reset_policy \<Rightarrow> async_event \<Rightarrow> bool \<times> async_event" where
  "timed_wait_resume rp a =
     (case wait_ready rp a of (ok, a') \<Rightarrow> (ok \<or> signaled (ev_base a'), a'))"

section \<open>Acquiring a permit\<close>

definition timed_acquire_ready :: "int \<Rightarrow> int \<Rightarrow> async_semaphore \<Rightarrow> bool \<times> async_semaphore" where
  "timed_acquire_ready now deadline a =
     (case acquire_ready a of (ok, a') \<Rightarrow> (ok \<or> deadline \<le> now, a'))"

definition timed_acquire_recheck ::
  "coro \<Rightarrow> uintptr \<Rightarrow> async_semaphore \<times> async_mem \<Rightarrow> async_semaphore \<times> async_mem" where
  "timed_acquire_recheck h g z =
     (case z of (a, w) \<Rightarrow> (case acquire_ready a of (ok, a') \<Rightarrow> (a', race_recheck ok h g w)))"

definition timed_acquire_suspend ::
  "int \<Rightarrow> coro \<Rightarrow> uintptr \<Rightarrow> uintptr \<Rightarrow> async_semaphore \<times> async_mem \<times> timer_service \<Rightarrow>
   async_semaphore \<times> async_mem \<times> timer_service" where
  "timed_acquire_suspend deadline h p g z =
     (case race_register add_acquire_waiter deadline h p g z of (a, w, ts) \<Rightarrow>
        (case timed_acquire_recheck h g (a, w) of (a', w') \<Rightarrow> (a', w', ts)))"

text \<open>\<open>true\<close> is meant to say that a permit was acquired, \<open>false\<close> that the time was up.\<close>

definition timed_acquire_resume :: "async_semaphore \<Rightarrow> bool \<times> async_semaphore" where
  "timed_acquire_resume a = acquire_ready a"

section \<open>The race for the gate\<close>

lemma raw_entry_fires:
  "g \<noteq> 0 \<Longrightarrow> h \<noteq> 0 \<Longrightarrow> te_waiter e = None \<Longrightarrow> te_handle e = h \<Longrightarrow> te_fired e = g \<Longrightarrow>
   fire_entry e w = fire_gate g h w"
  by (simp add: fire_entry_def view_of_def)

lemma gates_fold_fire: "gates w g \<Longrightarrow> gates (fold fire_node ps w) g"
proof (induction ps arbitrary: w)
  case (Cons p ps)
  have "gates (fire_node p w) g" using Cons.prems by (simp add: fire_node_def Let_def)
  with Cons.IH show ?case by simp
qed simp

lemma gates_stack_step: "gates (snd q) g \<Longrightarrow> gates (snd (stack_step c q)) g"
  using gates_fold_fire [of "snd q" g "[hd (fst q)]"] gates_fold_fire [of "snd q" g "fst q"]
  by (cases "(c, q)" rule: stack_step.cases) (auto simp: arm_node_def split: list.splits)

lemma gates_stack_run: "gates (snd q) g \<Longrightarrow> gates (snd (stack_run cs q)) g"
  by (induction cs arbitrary: q) (simp_all add: gates_stack_step)

lemma timer_closes_gate: "Timer g h \<in> set cs \<Longrightarrow> gates (snd (stack_run cs q)) g"
proof (induction cs arbitrary: q)
  case (Cons c cs)
  show ?case
  proof (cases "c = Timer g h")
    case True
    then have "gates (snd (stack_step c q)) g" by (cases q) simp
    then show ?thesis by (simp add: gates_stack_run)
  next
    case False
    with Cons show ?thesis by simp
  qed
qed simp

text \<open>
  The contract of a primitive that coroutines wait on: its waiters are a list from \<open>head\<close>,
  and adding a node is \<open>add_waiter\<close> on it.
\<close>

locale waiting_primitive =
  fixes head :: "'s \<Rightarrow> uintptr"
    and add :: "uintptr \<Rightarrow> 's \<Rightarrow> async_mem \<Rightarrow> 's \<times> async_mem"
  assumes add_law: "add p a w = (a', w') \<Longrightarrow> add_waiter p (head a) w = (head a', w')"
begin

lemma registered:
  assumes "chain (wnodes w) (head a) qs" "p \<noteq> 0" "p \<notin> set qs"
    and "gate_of g h w" "h \<notin> set (sched w)"
    and "race_register add d h p g (a, w, ts) = (a', w', ts')"
  shows "chain (wnodes w') (head a') (p # qs) \<and> gate_of g h w' \<and> \<not> gates w' g \<and> sched w' = sched w
    \<and> mset (t_heap ts') = add_mset \<lparr>te_deadline = d, te_handle = h, te_cancel_state = 0, te_fired = g,
        te_waiter = None\<rparr> (mset (t_heap ts))"
proof -
  let ?w = "arm_node p h g (w\<lparr>gates := (gates w)(g := False)\<rparr>)"
  obtain a1 w1 where add: "add p a ?w = (a1, w1)" by fastforce
  with assms(6) have eq: "a' = a1" "w' = w1" "ts' = add_timer_raw d h 0 g ts"
    by (simp_all add: race_register_def)
  have aw: "add_waiter p (head a) ?w = (head a', w')" using add_law [OF add] eq by simp
  have "chain (wnodes ?w) (head a) qs" using assms(1) by simp
  then have "chain (wnodes w') (head a') (p # qs)" using chain_add [OF _ assms(2,3) aw] by blast
  moreover have "gate_of g h w' \<and> \<not> gates w' g \<and> sched w' = sched w"
    using aw assms(4) by (auto simp: add_waiter_def arm_node_def gate_of_def)
  ultimately show ?thesis by (simp add: eq(3) add_timer_raw_def)
qed

text \<open>
  However the wakes of the primitive, its other waiters, the timer and the second try mix
  after the registration, the coroutine is scheduled at most once, and exactly once if the
  timer or a successful second try is among them.
\<close>

lemma woken_once:
  assumes "chain (wnodes w) (head a) qs" "p \<noteq> 0" "p \<notin> set qs" "g \<noteq> 0"
    and "gate_of g h w" "h \<notin> set (sched w)"
    and "race_register add d h p g (a, w, ts) = (a', w', ts')"
    and "fresh_adds cs (p # qs, w')" "\<forall>c \<in> set cs. op_keeps_gate g h c"
  shows "\<exists>head'' w''. waiter_run cs (head a', w') = Some (head'', w'')
    \<and> count_list (sched w'') h = (if gates w'' g then 1 else 0) \<and> (Timer g h \<in> set cs \<longrightarrow> gates w'' g)"
proof -
  note r = registered [OF assms(1-3,5-7)]
  then have "stack_sim (head a', w') (p # qs, w')" by (simp add: same_but_next_def)
  from stack_sim_run [OF this assms(8)] obtain s'
    where s': "waiter_run cs (head a', w') = Some s'" "stack_sim s' (stack_run cs (p # qs, w'))" by blast
  obtain head'' w'' where hw: "s' = (head'', w'')" by fastforce
  have "credit g h (snd (stack_run cs (p # qs, w'))) = 0"
    using credit_stack_run [of g h "(p # qs, w')" cs] r assms(4,6,9)
    by (simp add: credit_def count_list_0_iff)
  moreover have "gates w'' = gates (snd (stack_run cs (p # qs, w')))"
    "sched w'' = sched (snd (stack_run cs (p # qs, w')))"
    using s'(2) hw by (cases "stack_run cs (p # qs, w')"; simp add: same_but_next_def)+
  ultimately have "count_list (sched w'') h = (if gates w'' g then 1 else 0)"
    "Timer g h \<in> set cs \<longrightarrow> gates w'' g"
    using timer_closes_gate [of g h cs "(p # qs, w')"] by (auto simp: credit_def split: if_splits)
  with s'(1) hw show ?thesis by simp
qed

end

interpretation receivers_list: waiting_primitive recv_waiters add_receive_waiter
  by unfold_locales (auto simp: add_receive_waiter_def add_waiter_def)

interpretation senders_list: waiting_primitive send_waiters add_send_waiter
  by unfold_locales (auto simp: add_send_waiter_def add_waiter_def)

interpretation event_list: waiting_primitive ev_waiters add_wait_waiter
  by unfold_locales (auto simp: add_wait_waiter_def add_waiter_def)

interpretation semaphore_list: waiting_primitive sem_waiters add_acquire_waiter
  by unfold_locales (auto simp: add_acquire_waiter_def add_waiter_def)

text \<open>The second try as an operation on the gate.\<close>

definition recheck_ops :: "bool \<Rightarrow> coro \<Rightarrow> uintptr \<Rightarrow> waiter_op list" where
  "recheck_ops won h g = (if won then [Timer g h] else [])"

lemma run_recheck_ops [simp]:
  "waiter_run (recheck_ops won h g @ cs) (head, w) = waiter_run cs (head, race_recheck won h g w)"
  by (simp add: recheck_ops_def race_recheck_def)

lemma run_recheck_op [simp]:
  "waiter_run (recheck_ops won h g) (head, w) = Some (head, race_recheck won h g w)"
  using run_recheck_ops [of won h g "[]"] by simp

lemma waiter_run_append:
  "waiter_run (cs @ ds) z = (case waiter_run cs z of None \<Rightarrow> None | Some z' \<Rightarrow> waiter_run ds z')"
  by (induction cs arbitrary: z) (auto split: option.splits bind_splits)

context waiting_primitive begin

lemma woken_around_recheck:
  assumes "chain (wnodes w) (head a) qs" "p \<noteq> 0" "p \<notin> set qs" "g \<noteq> 0"
    and "gate_of g h w" "h \<notin> set (sched w)"
    and "race_register add d h p g (a, w, ts) = (a1, w1, ts1)"
    and run: "waiter_run cs1 (head a1, w1) = Some (head2, w2)"
      "waiter_run cs2 (head2, race_recheck won h g w2) = Some (head3, w3)"
    and "fresh_adds (cs1 @ recheck_ops won h g @ cs2) (p # qs, w1)"
      "\<forall>c \<in> set (cs1 @ cs2). op_keeps_gate g h c"
  shows "count_list (sched w3) h = (if gates w3 g then 1 else 0)
    \<and> (won \<or> Timer g h \<in> set (cs1 @ cs2) \<longrightarrow> gates w3 g)
    \<and> mset (t_heap ts1) = add_mset \<lparr>te_deadline = d, te_handle = h, te_cancel_state = 0, te_fired = g,
        te_waiter = None\<rparr> (mset (t_heap ts))"
proof -
  let ?cs = "cs1 @ recheck_ops won h g @ cs2"
  have "waiter_run ?cs (head a1, w1) = Some (head3, w3)" using run by (simp add: waiter_run_append)
  moreover have "\<forall>c \<in> set ?cs. op_keeps_gate g h c" using assms(11) by (auto simp: recheck_ops_def)
  ultimately show ?thesis
    using woken_once [OF assms(1-7,10)] registered [OF assms(1-3,5-7)] by (auto simp: recheck_ops_def)
qed

end

section \<open>Properties\<close>

text \<open>
  C18. A timed receive is resumed once, if its gate is its own: no other waiter and no timer of
  another call uses the address of its gate, and its coroutine waits nowhere else.  Then,
  whatever wakes, closes, other waiters and other timers come between the registration and the
  second try and after it, its coroutine is scheduled at most once; exactly once if its timer
  has fired or the second try found a value or the channel closed; and the timer was added
  with its deadline.  A timer left over from an earlier awaiter at the same address breaks the
  condition, and the property (\<open>stale_timer_fires\<close>).
\<close>

theorem timed_receive_woken_once:
  assumes "chain (wnodes w) (recv_waiters a) qs" "p \<noteq> 0" "p \<notin> set qs" "g \<noteq> 0"
    and "gate_of g h w" "h \<notin> set (sched w)"
    and "race_register add_receive_waiter d h p g (a, w, ts) = (a1, w1, ts1)"
    and "waiter_run cs1 (recv_waiters a1, w1) = Some (head2, w2)"
    and "timed_receive_recheck b h g (a2, w2) = (r, a3, w3)"
    and "waiter_run cs2 (head2, w3) = Some (head4, w4)"
    and "fresh_adds (cs1 @ recheck_ops (r \<noteq> None \<or> is_closed (ch_base a3)) h g @ cs2) (p # qs, w1)"
    and "\<forall>c \<in> set (cs1 @ cs2). op_keeps_gate g h c"
  shows "count_list (sched w4) h \<le> 1
    \<and> (r \<noteq> None \<or> is_closed (ch_base a3) \<or> Timer g h \<in> set (cs1 @ cs2) \<longrightarrow> count_list (sched w4) h = 1)
    \<and> mset (t_heap ts1) = add_mset \<lparr>te_deadline = d, te_handle = h, te_cancel_state = 0, te_fired = g,
        te_waiter = None\<rparr> (mset (t_heap ts))"
proof -
  have "w3 = race_recheck (r \<noteq> None \<or> is_closed (ch_base a3)) h g w2"
    using assms(9) by (auto simp: timed_receive_recheck_def split: prod.splits)
  with receivers_list.woken_around_recheck [OF assms(1-8) _ assms(11,12), of head4 w4] assms(10)
  show ?thesis by auto
qed

text \<open>The same for the acquire of a semaphore; a successful second try has taken a permit.\<close>

lemma timed_acquire_woken_once:
  assumes "chain (wnodes w) (sem_waiters a) qs" "p \<noteq> 0" "p \<notin> set qs" "g \<noteq> 0"
    and "gate_of g h w" "h \<notin> set (sched w)"
    and "race_register add_acquire_waiter d h p g (a, w, ts) = (a1, w1, ts1)"
    and "waiter_run cs1 (sem_waiters a1, w1) = Some (head2, w2)"
    and "timed_acquire_recheck h g (a2, w2) = (a3, w3)"
    and "waiter_run cs2 (head2, w3) = Some (head4, w4)"
    and "fresh_adds (cs1 @ recheck_ops (has_permit (sem_base a2)) h g @ cs2) (p # qs, w1)"
    and "\<forall>c \<in> set (cs1 @ cs2). op_keeps_gate g h c"
  shows "count_list (sched w4) h \<le> 1
    \<and> (has_permit (sem_base a2) \<or> Timer g h \<in> set (cs1 @ cs2) \<longrightarrow> count_list (sched w4) h = 1)"
proof -
  have "w3 = race_recheck (has_permit (sem_base a2)) h g w2"
    using assms(9) by (auto simp: timed_acquire_recheck_def acquire_ready_def try_acquire_now_simp split: if_splits)
  with semaphore_list.woken_around_recheck [OF assms(1-8) _ assms(11,12), of head4 w4] assms(10)
  show ?thesis by auto
qed

lemma timed_wait_woken_once:
  assumes "chain (wnodes w) (ev_waiters a) qs" "p \<noteq> 0" "p \<notin> set qs" "g \<noteq> 0"
    and "gate_of g h w" "h \<notin> set (sched w)"
    and "race_register add_wait_waiter d h p g (a, w, ts) = (a1, w1, ts1)"
    and "waiter_run cs1 (ev_waiters a1, w1) = Some (head2, w2)"
    and "timed_wait_recheck rp h g (a2, w2) = (a3, w3)"
    and "waiter_run cs2 (head2, w3) = Some (head4, w4)"
    and "fresh_adds (cs1 @ recheck_ops (signaled (ev_base a2)) h g @ cs2) (p # qs, w1)"
    and "\<forall>c \<in> set (cs1 @ cs2). op_keeps_gate g h c"
  shows "count_list (sched w4) h \<le> 1
    \<and> (signaled (ev_base a2) \<or> Timer g h \<in> set (cs1 @ cs2) \<longrightarrow> count_list (sched w4) h = 1)"
proof -
  have "w3 = race_recheck (signaled (ev_base a2)) h g w2"
    using assms(9) by (auto simp: timed_wait_recheck_def wait_ready_def try_wait_now_simp)
  with event_list.woken_around_recheck [OF assms(1-8) _ assms(11,12), of head4 w4] assms(10)
  show ?thesis by auto
qed

lemma suspended_receive:
  fixes a3 a4 a5 a6 :: "'a async_channel"
  assumes "timed_receive_recheck b h g (a3, w) = (r4, a4, w4)" "timed_receive_resume b r4 a5 = ((st, v), a6)"
  shows "case r4 of
      Some x \<Rightarrow> buffer (ch_base a3) = x # buffer (ch_base a4) \<and> st = Op_completed \<and> v = Some x \<and> a6 = a5
    | None \<Rightarrow> a4 = a3 \<and> (case v of
          Some x \<Rightarrow> st = Op_completed \<and> buffer (ch_base a5) = x # buffer (ch_base a6)
        | None \<Rightarrow> buffer (ch_base a5) = [] \<and> a6 = a5 \<and> st = (if is_closed (ch_base a5) then Op_closed else Op_timed_out))"
  using assms by (cases "buffer (ch_base a3)"; cases "buffer (ch_base a5)")
    (auto simp: timed_receive_recheck_def timed_receive_resume_def try_receive_now_simp split: if_splits)

text \<open>
  What a timed receive returns.  Without suspending: the oldest value if there is one, else
  closed if the channel is closed, else timed out, which it is then.  With suspending: the
  first try took nothing, and the value the second try took, or else one that the resumption
  takes, is returned; no value is taken and not returned.
\<close>

theorem timed_receive_outcome:
  assumes "timed_receive_ready b now d a = (ready, r, a1)"
  shows "if ready
    then (case timed_receive_resume b r a1 of ((st, v), a2) \<Rightarrow>
        (case buffer (ch_base a) of
           x # xs \<Rightarrow> st = Op_completed \<and> v = Some x \<and> buffer (ch_base a2) = xs
         | [] \<Rightarrow> a2 = a \<and> v = None
             \<and> (if is_closed (ch_base a) then st = Op_closed else st = Op_timed_out \<and> d \<le> now)))
    else r = None \<and> a1 = a \<and> now < d
      \<and> (\<forall>h g a3 w r4 a4 w4 a5 st v a6.
           timed_receive_recheck b h g (a3, w) = (r4, a4, w4) \<longrightarrow>
           timed_receive_resume b r4 a5 = ((st, v), a6) \<longrightarrow>
             (case r4 of
                Some x \<Rightarrow> buffer (ch_base a3) = x # buffer (ch_base a4) \<and> st = Op_completed \<and> v = Some x \<and> a6 = a5
              | None \<Rightarrow> a4 = a3 \<and> (case v of
                    Some x \<Rightarrow> st = Op_completed \<and> buffer (ch_base a5) = x # buffer (ch_base a6)
                  | None \<Rightarrow> buffer (ch_base a5) = [] \<and> a6 = a5 \<and> st = (if is_closed (ch_base a5) then Op_closed else Op_timed_out))))"
proof (cases ready)
  case True
  then show ?thesis using assms
    by (auto simp: timed_receive_ready_def timed_receive_resume_def try_receive_now_simp split: list.splits)
next
  case False
  then have "r = None \<and> a1 = a \<and> now < d" using assms
    by (auto simp: timed_receive_ready_def try_receive_now_simp split: list.splits)
  then show ?thesis
    by (simp only: False if_False simp_thms) (intro allI impI, rule suspended_receive)
qed

text \<open>
  But a value can be lost when the coroutine goes on before its suspending has ended: the
  timer may fire as soon as it is added; the coroutine then returns \<open>timed_out\<close>, and the
  second try, still to come on the first thread, takes the next value sent to the channel
  into an awaiter that nobody reads any more, and wakes nobody.
\<close>

theorem timed_receive_late_loss:
  assumes "race_register add_receive_waiter d h p g (a, w, ts) = (a1, w1, ts1)"
    and "buffer (ch_base a) = []" "\<not> is_closed (ch_base a)"
  shows "fst (timed_receive_resume b None a1) = (Op_timed_out, None)
    \<and> (\<forall>v. try_send_now None v (ch_base a1) = (True, (ch_base a1)\<lparr>buffer := [v]\<rparr>)
        \<and> (let a2 = a1\<lparr>ch_base := (ch_base a1)\<lparr>buffer := [v]\<rparr>\<rparr> in
            timed_receive_recheck b h g (a2, fire_gate g h w1) = (Some v, a1, fire_gate g h w1)))"
proof -
  have base: "ch_base a1 = ch_base a"
    using assms(1) by (auto simp: race_register_def add_receive_waiter_def add_waiter_def Let_def)
  have "(fire_gate g h w1)\<lparr>gates := (gates w1)(g := True)\<rparr> = fire_gate g h w1" by simp
  moreover have "fire_gate g h (fire_gate g h w1) = fire_gate g h w1"
    by (simp add: fire_gate_def [of g h "fire_gate g h w1"])
  moreover have "ch_base a1\<lparr>buffer := []\<rparr> = ch_base a1" using base assms(2) by simp
  ultimately show ?thesis using base assms(2,3)
    by (simp add: timed_receive_resume_def timed_receive_recheck_def try_receive_now_simp
        try_send_now_simp race_recheck_def is_bounded_def Let_def)
qed

text \<open>
  A timer outlives its awaiter: nothing removes it when the primitive wakes the coroutine
  early, and it holds the awaiter's gate and the handle as raw pointers.  If the memory of the
  gate has become the gate of another awaiter by the deadline, the timer schedules the first
  coroutine a second time, and the wake-up of the other one is dropped.
\<close>

theorem stale_timer_fires:
  assumes "race_register add d h p g (a, w, ts) = (a1, w1, ts1)" "g \<noteq> 0" "h \<noteq> 0"
  shows "\<exists>e \<in> set (t_heap ts1). te_deadline e = d
    \<and> (\<forall>w2 p2. \<not> gates w2 g \<and> node_gate (wnodes w2 p2) = g \<longrightarrow>
         sched (fire_entry e w2) = sched w2 @ [h]
         \<and> sched (fire_node p2 (fire_entry e w2)) = sched w2 @ [h])"
proof -
  let ?e = "\<lparr>te_deadline = d, te_handle = h, te_cancel_state = 0, te_fired = g, te_waiter = None\<rparr>"
  have "ts1 = push_timer ?e ts"
    using assms(1) by (auto simp: race_register_def add_timer_raw_def Let_def split: prod.splits)
  then have "?e \<in> set (t_heap ts1)" by (metis mset_push_timer set_mset_mset union_single_eq_member)
  moreover have "fire_entry ?e w2 = fire_gate g h w2" for w2 by (rule raw_entry_fires) (simp_all add: assms)
  moreover have "wnodes (fire_gate g h w2) = wnodes w2" for w2 by (simp add: fire_gate_def)
  ultimately show ?thesis
    using assms(2) by (intro bexI [of _ ?e]) (auto simp: fire_node_def fire_gate_def Let_def)
qed

text \<open>
  A timed acquire that succeeds at once takes its permit twice: the first try takes one and
  the resumption, which cannot tell it from a wake-up, another.  If there was only one, the
  acquire reports that the time was up and the permit is gone.
\<close>

theorem timed_acquire_takes_two:
  assumes "has_permit (sem_base a)"
  shows "\<exists>a1. timed_acquire_ready now d a = (True, a1)
    \<and> sem_count (sem_base a1) = sem_count (sem_base a) - 1
    \<and> (if sem_count (sem_base a) = 1 then timed_acquire_resume a1 = (False, a1)
       else \<exists>a2. timed_acquire_resume a1 = (True, a2)
         \<and> sem_count (sem_base a2) = sem_count (sem_base a) - 2)"
proof -
  let ?c = "sem_count (sem_base a)"
  have pos: "0 < sint ?c" using assms by (simp add: has_permit_def)
  have "sint (?c - 1) = sint ?c - 1" using pos by (simp add: sint_dec)
  moreover have "?c = 1 \<longleftrightarrow> sint ?c = 1"
  proof
    assume "sint ?c = 1"
    then have "sint ?c = sint (1 :: 64 word)" by simp
    then show "?c = 1" by (rule signed_word_eqI)
  qed simp
  ultimately have "0 < sint (?c - 1) \<longleftrightarrow> ?c \<noteq> 1" using pos by linarith
  then have again: "has_permit (sem_base a\<lparr>sem_count := ?c - 1\<rparr>) \<longleftrightarrow> ?c \<noteq> 1" by (simp add: has_permit_def)
  let ?a1 = "a\<lparr>sem_base := sem_base a\<lparr>sem_count := ?c - 1\<rparr>\<rparr>"
  have "timed_acquire_ready now d a = (True, ?a1)"
    using assms by (simp add: timed_acquire_ready_def acquire_ready_def try_acquire_now_simp)
  moreover have "timed_acquire_resume ?a1 =
      (if ?c = 1 then (False, ?a1) else (True, ?a1\<lparr>sem_base := sem_base a\<lparr>sem_count := ?c - 2\<rparr>\<rparr>))"
    using again by (simp add: timed_acquire_resume_def acquire_ready_def try_acquire_now_simp)
  ultimately show ?thesis by (cases "?c = 1") simp_all
qed

text \<open>
  A timed wait that finds its event set reports, with auto-reset, that the time was up: the
  first try has reset the event.  With manual reset it reports the event.
\<close>

theorem timed_wait_misreports:
  assumes "signaled (ev_base a)"
  shows "\<exists>a1. timed_wait_ready rp now d a = (True, a1)
    \<and> (if auto_reset rp then \<not> signaled (ev_base a1) \<and> timed_wait_resume rp a1 = (False, a1)
       else a1 = a \<and> timed_wait_resume rp a1 = (True, a1))"
  using assms
  by (auto simp: timed_wait_ready_def timed_wait_resume_def wait_ready_def try_wait_now_simp)

text \<open>
  A timed send that has to wait sends what two moves have left of its value: the tries before
  suspending and after registering have moved it away, although they sent nothing.
\<close>

theorem timed_send_loses_value:
  assumes "\<not> is_closed (ch_base a)" "\<not> can_send (Some n) (ch_base a)"
    and "now < d" "race_register add_send_waiter d h p g (a, w, ts) = (a1, w1, ts1)"
    and "\<not> is_closed (ch_base a2)" "can_send (Some n) (ch_base a2)"
  shows "\<exists>aw1 aw2.
      timed_send_ready moved (Some n) now d \<lparr>sa_value = v, sa_sent = False\<rparr> a = (False, aw1, a)
    \<and> timed_send_suspend moved (Some n) d h p g aw1 (a, w, ts) = (aw2, a1, w1, ts1)
    \<and> timed_send_resume moved (Some n) aw2 a2 =
        (Op_completed, a2\<lparr>ch_base := (ch_base a2)\<lparr>buffer := buffer (ch_base a2) @ [moved (moved v)]\<rparr>\<rparr>)"
proof -
  have base: "ch_base a1 = ch_base a"
    using assms(4) by (auto simp: race_register_def add_send_waiter_def add_waiter_def Let_def)
  then show ?thesis using assms
    by (auto simp: timed_send_ready_def timed_send_suspend_def timed_send_recheck_def timed_send_resume_def
        timed_try_send_def try_send_now_simp race_recheck_def is_bounded_def)
qed

section \<open>Witnesses\<close>

definition idle_timers :: timer_service where "idle_timers = new_timer_service"

definition registered_receive :: "nat async_channel \<times> async_mem \<times> timer_service" where
  "registered_receive = race_register add_receive_waiter 100 7 16 32 (new_async_channel, sample_mem, idle_timers)"

lemma registered_receive_eval:
  "race_register add_receive_waiter 100 7 16 32 (new_async_channel, sample_mem, idle_timers) =
    (fst registered_receive, fst (snd registered_receive), snd (snd registered_receive))"
  by (simp add: registered_receive_def)

lemma sample_gate: "gate_of 32 7 sample_mem" "chain (wnodes sample_mem) (recv_waiters (new_async_channel :: nat async_channel)) []"
  "h \<notin> set (sched sample_mem)"
  by (simp_all add: gate_of_def sample_mem_def new_node_def new_async_channel_def)

text \<open>The timer fires after the registration, and a send wakes the node after the second try.\<close>

lemma timed_receive_woken_once_witness:
  "\<exists>r a3 w3 head4 w4. timed_receive_recheck None 7 32
        (fst registered_receive, fire_gate 32 7 (fst (snd registered_receive))) = (r, a3, w3)
     \<and> waiter_run [Wake_one] (16, w3) = Some (head4, w4) \<and> count_list (sched w4) 7 = 1"
proof -
  let ?a = "fst registered_receive" and ?w = "fst (snd registered_receive)"
  have head: "recv_waiters ?a = 16" "ch_base ?a = new_channel"
    by (simp_all add: registered_receive_def race_register_def add_receive_waiter_def add_waiter_def
        new_async_channel_def Let_def)
  then have rc: "timed_receive_recheck None 7 32 (?a, fire_gate 32 7 ?w) = (None, ?a, fire_gate 32 7 ?w)"
    by (simp add: timed_receive_recheck_def try_receive_now_simp race_recheck_def new_channel_def)
  have r1: "waiter_run [Timer 32 7] (recv_waiters ?a, ?w) = Some (16, fire_gate 32 7 ?w)" by (simp add: head)
  obtain b head4 w4 where "wake_one 16 (fire_gate 32 7 ?w) = (b, head4, w4)" by (metis prod_cases3)
  then have r2: "waiter_run [Wake_one] (16, fire_gate 32 7 ?w) = Some (head4, w4)" by simp
  have "count_list (sched w4) 7 = 1"
    using timed_receive_woken_once [OF sample_gate(2) _ _ _ sample_gate(1,3) registered_receive_eval r1 rc r2]
      head by (auto simp: recheck_ops_def new_channel_def)
  with rc r2 show ?thesis by blast
qed

lemma timed_receive_outcome_witness:
  "case timed_receive_resume None (Some 4) (new_async_channel :: nat async_channel) of
     ((st, v), a) \<Rightarrow> st = Op_completed \<and> v = Some 4"
proof -
  have "timed_receive_ready None 0 10 (new_async_channel\<lparr>ch_base := new_channel\<lparr>buffer := [4 :: nat]\<rparr>\<rparr>)
      = (True, Some 4, new_async_channel)"
    by (simp add: timed_receive_ready_def try_receive_now_simp new_async_channel_def new_channel_def)
  from timed_receive_outcome [OF this] show ?thesis by (auto split: prod.splits)
qed

lemma timed_receive_late_loss_witness:
  "fst (timed_receive_resume None None (fst registered_receive)) = (Op_timed_out, None)
   \<and> fst (timed_receive_recheck None 7 32 ((fst registered_receive)\<lparr>ch_base :=
         (ch_base (fst registered_receive))\<lparr>buffer := [9]\<rparr>\<rparr>,
       fire_gate 32 7 (fst (snd registered_receive)))) = Some 9"
  using timed_receive_late_loss [OF registered_receive_eval, of None]
  by (simp add: new_async_channel_def new_channel_def Let_def)

lemma timed_acquire_takes_two_witness:
  "\<exists>a1. timed_acquire_ready 0 10 (new_async_semaphore 1) = (True, a1) \<and> timed_acquire_resume a1 = (False, a1)"
  using timed_acquire_takes_two [of "new_async_semaphore 1" 0 10]
  by (auto simp: new_async_semaphore_def new_semaphore_def has_permit_def)

lemma timed_wait_misreports_witness:
  "\<exists>a1. timed_wait_ready Auto_reset 0 10 (new_async_event True) = (True, a1)
     \<and> timed_wait_resume Auto_reset a1 = (False, a1)"
  using timed_wait_misreports [of "new_async_event True" Auto_reset 0 10]
  by (auto simp: new_async_event_def auto_reset_def)

lemma timed_send_loses_value_witness:
  "\<exists>aw. fst (timed_send_resume (\<lambda>v. 0) (Some 1) aw (new_async_channel :: nat async_channel)) = Op_completed
     \<and> sa_value aw = 0"
proof -
  let ?full = "new_async_channel\<lparr>ch_base := new_channel\<lparr>buffer := [3 :: nat]\<rparr>\<rparr>"
  obtain a1 w1 ts1 where r: "race_register add_send_waiter 10 7 16 32 (?full, sample_mem, idle_timers) = (a1, w1, ts1)"
    by (metis prod_cases3)
  obtain aw1 aw2 where
    "timed_send_ready (\<lambda>v. 0) (Some 1) 0 10 \<lparr>sa_value = 5, sa_sent = False\<rparr> ?full = (False, aw1, ?full)"
    and s: "timed_send_suspend (\<lambda>v. 0) (Some 1) 10 7 16 32 aw1 (?full, sample_mem, idle_timers) = (aw2, a1, w1, ts1)"
    and "fst (timed_send_resume (\<lambda>v. 0) (Some 1) aw2 (new_async_channel :: nat async_channel)) = Op_completed"
    using timed_send_loses_value [OF _ _ _ r, of 1 0 "new_async_channel" "\<lambda>v. 0" 5]
    by (auto simp: new_async_channel_def new_channel_def can_send_def)
  moreover from s have "sa_value aw2 = 0"
    by (auto simp: timed_send_suspend_def timed_send_recheck_def timed_try_send_def split: prod.splits)
  ultimately show ?thesis by blast
qed

theorem stale_timer_fires_witness:
  "\<exists>e. sched (fire_entry e \<lparr>wnodes = (\<lambda>p. (new_node 48)\<lparr>node_gate := 64\<rparr>), gates = (\<lambda>g. False), sched = []\<rparr>) = [32]"
proof -
  let ?w = "\<lparr>wnodes = (\<lambda>p. (new_node 48)\<lparr>node_gate := 64\<rparr>), gates = (\<lambda>g. False), sched = []\<rparr>"
  obtain a1 w1 ts1 where "race_register add_receive_waiter 5 32 16 64
      (new_async_channel :: nat async_channel, ?w, new_timer_service) = (a1, w1, ts1)" by (metis prod_cases3)
  from stale_timer_fires [OF this] obtain e where
    "\<forall>w2 p2. \<not> gates w2 64 \<and> node_gate (wnodes w2 p2) = 64 \<longrightarrow> sched (fire_entry e w2) = sched w2 @ [32]" by auto
  then have "sched (fire_entry e ?w) = [32]" by simp
  then show ?thesis by (rule exI)
qed

end
