(* ===== verification/Select.thy ===== *)
theory Select
  imports Channel
begin

text \<open>
  \<open>select\<close> (\<open>include/select.hpp\<close>): an awaiter that receives from the first of several
  channels that has a value.  It puts one node on the receivers of every channel, all with
  the same gate.  The nodes are at the addresses \<open>ps\<close>, the gate at \<open>g\<close>, the coroutine is \<open>h\<close>.
  The variadic form differs in how it holds the result: its values are those of one variant
  type, and a flag says whether there is one.
\<close>

section \<open>The awaiter\<close>

datatype select_error = Woken_without_data

text \<open>The loop over the channels: the first value there is, and the index of its channel.\<close>

fun select_try ::
  "boundedness \<Rightarrow> nat \<Rightarrow> 'a async_channel list \<Rightarrow> (nat \<times> 'a) option \<times> 'a async_channel list" where
  "select_try b i [] = (None, [])"
| "select_try b i (c # cs) =
     (case try_receive_now b (ch_base c) of
        (Some v, s) \<Rightarrow> (Some (i, v), c\<lparr>ch_base := s\<rparr> # cs)
      | (None, s) \<Rightarrow> (case select_try b (Suc i) cs of (r, cs') \<Rightarrow> (r, c\<lparr>ch_base := s\<rparr> # cs')))"

definition select_ready ::
  "boundedness \<Rightarrow> 'a async_channel list \<Rightarrow> bool \<times> (nat \<times> 'a) option \<times> 'a async_channel list" where
  "select_ready b cs = (case select_try b 0 cs of (r, cs') \<Rightarrow> (r \<noteq> None, r, cs'))"

text \<open>The registration with every channel, after the reset of the gate.\<close>

fun register_all ::
  "coro \<Rightarrow> uintptr \<Rightarrow> uintptr list \<Rightarrow> 'a async_channel list \<Rightarrow> async_mem \<Rightarrow>
   'a async_channel list \<times> async_mem" where
  "register_all h g (p # ps) (c # cs) w =
     (case add_receive_waiter p c (arm_node p h g w) of
        (c', w') \<Rightarrow> (case register_all h g ps cs w' of (cs', w'') \<Rightarrow> (c' # cs', w'')))"
| "register_all h g _ cs w = (cs, w)"

definition select_register ::
  "coro \<Rightarrow> uintptr \<Rightarrow> uintptr list \<Rightarrow> 'a async_channel list \<times> async_mem \<Rightarrow>
   'a async_channel list \<times> async_mem" where
  "select_register h g ps z =
     (case z of (cs, w) \<Rightarrow> register_all h g ps cs (w\<lparr>gates := (gates w)(g := False)\<rparr>))"

definition select_recheck ::
  "boundedness \<Rightarrow> coro \<Rightarrow> uintptr \<Rightarrow> 'a async_channel list \<times> async_mem \<Rightarrow>
   (nat \<times> 'a) option \<times> 'a async_channel list \<times> async_mem" where
  "select_recheck b h g z =
     (case z of (cs, w) \<Rightarrow>
        (case select_try b 0 cs of (r, cs') \<Rightarrow> (r, cs', if r \<noteq> None then fire_gate g h w else w)))"

definition select_suspend ::
  "boundedness \<Rightarrow> coro \<Rightarrow> uintptr \<Rightarrow> uintptr list \<Rightarrow> 'a async_channel list \<times> async_mem \<Rightarrow>
   (nat \<times> 'a) option \<times> 'a async_channel list \<times> async_mem" where
  "select_suspend b h g ps z = select_recheck b h g (select_register h g ps z)"

definition select_resume ::
  "boundedness \<Rightarrow> (nat \<times> 'a) option \<Rightarrow> 'a async_channel list \<Rightarrow>
   (select_error + nat \<times> 'a) \<times> 'a async_channel list" where
  "select_resume b r cs =
     (case r of
        Some iv \<Rightarrow> (Inr iv, cs)
      | None \<Rightarrow>
          (case select_try b 0 cs of
             (Some iv, cs') \<Rightarrow> (Inr iv, cs')
           | (None, cs') \<Rightarrow> (Inl Woken_without_data, cs')))"

section \<open>The variadic form\<close>

record 'a variadic_select =
  has_result :: bool
  ready_index :: nat
  variant_result :: 'a

definition try_receive_at ::
  "nat \<Rightarrow> 'a async_channel list \<Rightarrow> 'a variadic_select \<Rightarrow> bool \<times> 'a async_channel list \<times> 'a variadic_select" where
  "try_receive_at i cs x =
     (case try_receive_now None (ch_base (cs ! i)) of
        (Some v, s) \<Rightarrow> (True, cs[i := (cs ! i)\<lparr>ch_base := s\<rparr>], x\<lparr>ready_index := i, variant_result := v\<rparr>)
      | (None, s) \<Rightarrow> (False, cs[i := (cs ! i)\<lparr>ch_base := s\<rparr>], x))"

text \<open>The fold over \<open>||\<close>, which stops at the first success.\<close>

fun try_receive_any ::
  "nat list \<Rightarrow> 'a async_channel list \<Rightarrow> 'a variadic_select \<Rightarrow> bool \<times> 'a async_channel list \<times> 'a variadic_select" where
  "try_receive_any [] cs x = (False, cs, x)"
| "try_receive_any (i # is) cs x =
     (case try_receive_at i cs x of
        (True, cs', x') \<Rightarrow> (True, cs', x')
      | (False, cs', x') \<Rightarrow> try_receive_any is cs' x')"

text \<open>The assignment of \<open>has_result_\<close>, as in all three functions of the awaiter.\<close>

definition variadic_try ::
  "'a async_channel list \<Rightarrow> 'a variadic_select \<Rightarrow> 'a async_channel list \<times> 'a variadic_select" where
  "variadic_try cs x =
     (case try_receive_any [0..<length cs] cs x of (ok, cs', x') \<Rightarrow> (cs', x'\<lparr>has_result := ok\<rparr>))"

definition variadic_ready ::
  "'a async_channel list \<Rightarrow> 'a variadic_select \<Rightarrow> bool \<times> 'a async_channel list \<times> 'a variadic_select" where
  "variadic_ready cs x = (case variadic_try cs x of (cs', x') \<Rightarrow> (has_result x', cs', x'))"

definition variadic_suspend ::
  "coro \<Rightarrow> uintptr \<Rightarrow> uintptr list \<Rightarrow> 'a async_channel list \<times> async_mem \<Rightarrow> 'a variadic_select \<Rightarrow>
   'a async_channel list \<times> async_mem \<times> 'a variadic_select" where
  "variadic_suspend h g ps z x =
     (case select_register h g ps z of (cs, w) \<Rightarrow>
        (case variadic_try cs x of
           (cs', x') \<Rightarrow> (cs', if has_result x' then fire_gate g h w else w, x')))"

definition variadic_resume ::
  "'a async_channel list \<Rightarrow> 'a variadic_select \<Rightarrow> (select_error + nat \<times> 'a) \<times> 'a async_channel list" where
  "variadic_resume cs x =
     (if has_result x then (Inr (ready_index x, variant_result x), cs)
      else case variadic_try cs x of
        (cs', x') \<Rightarrow>
          (if has_result x' then Inr (ready_index x', variant_result x') else Inl Woken_without_data, cs'))"

section \<open>What a try takes\<close>

text \<open>A channel without its oldest value.\<close>

definition drop_oldest :: "'a async_channel \<Rightarrow> 'a async_channel" where
  "drop_oldest c = c\<lparr>ch_base := (ch_base c)\<lparr>buffer := tl (buffer (ch_base c))\<rparr>\<rparr>"

definition holds :: "'a async_channel \<Rightarrow> bool" where
  "holds c \<longleftrightarrow> buffer (ch_base c) \<noteq> []"

text \<open>The first channel that holds a value gives its oldest one.\<close>

definition took :: "'a async_channel list \<Rightarrow> (nat \<times> 'a) option \<Rightarrow> 'a async_channel list \<Rightarrow> bool" where
  "took cs r cs' \<longleftrightarrow>
     (case r of
        None \<Rightarrow> cs' = cs \<and> (\<forall>c \<in> set cs. \<not> holds c)
      | Some (i, v) \<Rightarrow> i < length cs \<and> (\<forall>j < i. \<not> holds (cs ! j)) \<and> holds (cs ! i)
          \<and> v = hd (buffer (ch_base (cs ! i))) \<and> cs' = cs[i := drop_oldest (cs ! i)])"

lemma try_receive_holds:
  "try_receive_now b (ch_base c) =
     (if holds c then (Some (hd (buffer (ch_base c))), ch_base (drop_oldest c)) else (None, ch_base c))"
  by (cases "buffer (ch_base c)") (simp_all add: try_receive_now_simp holds_def drop_oldest_def)

lemma drop_oldest_base [simp]: "c\<lparr>ch_base := ch_base (drop_oldest c)\<rparr> = drop_oldest c"
  by (simp add: drop_oldest_def)

lemma select_try_shift:
  "select_try b i cs = (case select_try b 0 cs of (r, cs') \<Rightarrow> (map_option (\<lambda>(j, v). (j + i, v)) r, cs'))"
proof (induction cs arbitrary: i)
  case (Cons c cs)
  show ?case
    by (cases "holds c") (simp_all add: try_receive_holds Cons [of "Suc i"] Cons [of "Suc 0"]
        option.map_comp comp_def split_beta)
qed simp

lemma select_try_took:
  "select_try b 0 cs = (r, cs') \<Longrightarrow> took cs r cs'"
proof (induction cs arbitrary: r cs')
  case Nil
  then show ?case by (simp add: took_def)
next
  case (Cons c cs)
  show ?case
  proof (cases "holds c")
    case True
    with Cons.prems show ?thesis by (auto simp: try_receive_holds took_def)
  next
    case False
    obtain r1 cs1 where t: "select_try b 0 cs = (r1, cs1)" by fastforce
    with Cons.prems False have "r = map_option (\<lambda>(j, v). (j + 1, v)) r1" "cs' = c # cs1"
      using select_try_shift [of b "Suc 0" cs] by (auto simp: try_receive_holds)
    with Cons.IH [OF t] False show ?thesis
      by (auto simp: took_def nth_Cons split: option.splits nat.splits)
  qed
qed

lemma took_unique: "took cs r cs' \<Longrightarrow> took cs s cs'' \<Longrightarrow> r = s \<and> cs' = cs''"
  by (auto simp: took_def split: option.splits dest: nth_mem) (metis linorder_neqE_nat)+

text \<open>The variadic loop takes the same.\<close>

lemma try_receive_at_holds:
  "try_receive_at i cs x =
     (if holds (cs ! i) then (True, cs[i := drop_oldest (cs ! i)],
        x\<lparr>ready_index := i, variant_result := hd (buffer (ch_base (cs ! i)))\<rparr>)
      else (False, cs, x))"
  by (simp add: try_receive_at_def try_receive_holds)

lemma try_receive_any_took:
  assumes "i \<le> length cs" "\<forall>j < i. \<not> holds (cs ! j)" "try_receive_any [i..<length cs] cs x = (ok, cs', x')"
  shows "took cs (if ok then Some (ready_index x', variant_result x') else None) cs'"
  using assms
proof (induction "length cs - i" arbitrary: i)
  case 0
  then show ?case by (auto simp: took_def in_set_conv_nth)
next
  case (Suc n)
  then have up: "[i..<length cs] = i # [Suc i..<length cs]" by (simp add: upt_conv_Cons)
  show ?case
  proof (cases "holds (cs ! i)")
    case True
    with Suc show ?thesis by (auto simp: up try_receive_at_holds took_def)
  next
    case False
    have "try_receive_any [Suc i..<length cs] cs x = (ok, cs', x')"
      using Suc.prems(3) False by (simp add: up try_receive_at_holds)
    moreover have "\<forall>j < Suc i. \<not> holds (cs ! j)" using Suc.prems(2) False by (auto simp: less_Suc_eq)
    ultimately show ?thesis using Suc.hyps by (intro Suc.hyps(1) [of "Suc i"]) auto
  qed
qed

lemma variadic_try_took:
  "variadic_try cs x = (cs', x') \<Longrightarrow>
   took cs (if has_result x' then Some (ready_index x', variant_result x') else None) cs'"
  using try_receive_any_took [of 0 cs x] by (auto simp: variadic_try_def split: prod.splits if_splits)

section \<open>Registering\<close>

lemma register_one:
  assumes "chain (wnodes w) (recv_waiters c) qs" "p \<noteq> 0" "p \<notin> set qs"
  shows "\<exists>c' w'. add_receive_waiter p c (arm_node p h g w) = (c', w') \<and> ch_base c' = ch_base c
    \<and> recv_waiters c' = p \<and> chain (wnodes w') p (p # qs) \<and> node_handle (wnodes w' p) = h
    \<and> node_gate (wnodes w' p) = g \<and> gates w' = gates w \<and> sched w' = sched w
    \<and> (\<forall>q. q \<noteq> p \<longrightarrow> wnodes w' q = wnodes w q)"
proof -
  obtain hd' w' where add: "add_waiter p (recv_waiters c) (arm_node p h g w) = (hd', w')" by fastforce
  have "chain (wnodes w') hd' (p # qs)" using chain_add [OF _ assms(2,3) add] assms(1) by simp
  with add show ?thesis by (auto simp: add_receive_waiter_def add_waiter_def arm_node_def)
qed

lemma chain_cong: "(\<And>q. q \<in> set qs \<Longrightarrow> ns q = ms q) \<Longrightarrow> chain ns p qs = chain ms p qs"
  by (induction qs arbitrary: p) auto

text \<open>The waiters of each channel, and nodes that are on no list.\<close>

definition waiters_are :: "'a async_channel list \<Rightarrow> async_mem \<Rightarrow> uintptr list list \<Rightarrow> bool" where
  "waiters_are cs w qss \<longleftrightarrow> length qss = length cs
     \<and> (\<forall>i < length cs. chain (wnodes w) (recv_waiters (cs ! i)) (qss ! i))"

definition fresh_nodes :: "uintptr list \<Rightarrow> uintptr list list \<Rightarrow> bool" where
  "fresh_nodes ps qss \<longleftrightarrow> distinct ps \<and> 0 \<notin> set ps \<and> (\<forall>qs \<in> set qss. set ps \<inter> set qs = {})"

lemma register_all_lists:
  assumes "waiters_are cs w qss" "fresh_nodes ps qss" "length ps = length cs"
  shows "\<exists>cs' w'. register_all h g ps cs w = (cs', w') \<and> length cs' = length cs
    \<and> (\<forall>i < length cs. ch_base (cs' ! i) = ch_base (cs ! i) \<and> recv_waiters (cs' ! i) = ps ! i
        \<and> chain (wnodes w') (ps ! i) (ps ! i # qss ! i)
        \<and> node_handle (wnodes w' (ps ! i)) = h \<and> node_gate (wnodes w' (ps ! i)) = g)
    \<and> gates w' = gates w \<and> sched w' = sched w \<and> (\<forall>q. q \<notin> set ps \<longrightarrow> wnodes w' q = wnodes w q)"
  using assms
proof (induction h g ps cs w arbitrary: qss rule: register_all.induct)
  case (1 h g p ps c cs w)
  obtain qs qss' where q: "qss = qs # qss'" using 1(2) by (cases qss) (auto simp: waiters_are_def)
  have "chain (wnodes w) (recv_waiters c) qs" using 1(2) by (auto simp: waiters_are_def q)
  moreover have p: "p \<noteq> 0" "p \<notin> set qs" "p \<notin> set ps" using 1(3) by (auto simp: fresh_nodes_def q)
  ultimately obtain c' w1 where add: "add_receive_waiter p c (arm_node p h g w) = (c', w1)"
    and c': "ch_base c' = ch_base c" "recv_waiters c' = p" "chain (wnodes w1) p (p # qs)"
      "node_handle (wnodes w1 p) = h" "node_gate (wnodes w1 p) = g" "gates w1 = gates w" "sched w1 = sched w"
      "\<forall>q. q \<noteq> p \<longrightarrow> wnodes w1 q = wnodes w q"
    using register_one [of w c qs p h g] by blast
  have "waiters_are cs w1 qss'"
    unfolding waiters_are_def
  proof (intro conjI allI impI)
    show len: "length qss' = length cs" using 1(2) by (simp add: waiters_are_def q)
    fix i assume i: "i < length cs"
    have "chain (wnodes w) (recv_waiters (cs ! i)) (qss' ! i)"
      using 1(2) i by (auto simp: waiters_are_def q dest: spec [of _ "Suc i"])
    moreover have "p \<notin> set (qss' ! i)" using 1(3) i len by (auto simp: fresh_nodes_def q)
    ultimately show "chain (wnodes w1) (recv_waiters (cs ! i)) (qss' ! i)"
      using c'(8) chain_cong [of "qss' ! i" "wnodes w1" "wnodes w"] by metis
  qed
  moreover have "fresh_nodes ps qss'" using 1(3) by (auto simp: fresh_nodes_def q)
  ultimately obtain cs' w' where IH: "register_all h g ps cs w1 = (cs', w')" "length cs' = length cs"
    "\<forall>i < length cs. ch_base (cs' ! i) = ch_base (cs ! i) \<and> recv_waiters (cs' ! i) = ps ! i
        \<and> chain (wnodes w') (ps ! i) (ps ! i # qss' ! i)
        \<and> node_handle (wnodes w' (ps ! i)) = h \<and> node_gate (wnodes w' (ps ! i)) = g"
    "gates w' = gates w1" "sched w' = sched w1" "\<forall>q. q \<notin> set ps \<longrightarrow> wnodes w' q = wnodes w1 q"
    using 1(1) [OF add [symmetric], of qss'] 1(4) by fastforce
  have "set ps \<inter> set (p # qs) = {}" using 1(3) p by (auto simp: fresh_nodes_def q)
  then have "\<forall>q \<in> set (p # qs). wnodes w' q = wnodes w1 q" using IH(6) by blast
  then have "chain (wnodes w') p (p # qs)" using c'(3) chain_cong [of "p # qs" "wnodes w'" "wnodes w1"] by metis
  with IH c' p add show ?case by (auto simp: q nth_Cons split: nat.splits)
qed (auto simp: waiters_are_def)

section \<open>Runs after the registration\<close>

text \<open>
  What the rest of the program does to the channels' waiters and the memory: wakes, closes,
  other awaiters, and attempts on gates.
\<close>

datatype select_op = Send_wakes nat | Closes nat | Arms uintptr coro uintptr | Adds nat uintptr | Gate uintptr coro

fun select_step ::
  "select_op \<Rightarrow> 'a async_channel list \<times> async_mem \<Rightarrow> ('a async_channel list \<times> async_mem) option" where
  "select_step (Send_wakes i) (cs, w) =
     (case wake_one_receiver (cs ! i) w of (c, w') \<Rightarrow> Some (cs[i := c], w'))"
| "select_step (Closes i) (cs, w) = map_option (\<lambda>(c, w'). (cs[i := c], w')) (async_close (cs ! i) w)"
| "select_step (Arms p h g) (cs, w) = Some (cs, arm_node p h g w)"
| "select_step (Adds i p) (cs, w) =
     (case add_receive_waiter p (cs ! i) w of (c, w') \<Rightarrow> Some (cs[i := c], w'))"
| "select_step (Gate g h) (cs, w) = Some (cs, fire_gate g h w)"

fun select_run ::
  "select_op list \<Rightarrow> 'a async_channel list \<times> async_mem \<Rightarrow> ('a async_channel list \<times> async_mem) option" where
  "select_run [] z = Some z"
| "select_run (c # cs) z = (case select_step c z of None \<Rightarrow> None | Some z' \<Rightarrow> select_run cs z')"

fun select_keeps :: "uintptr \<Rightarrow> coro \<Rightarrow> select_op \<Rightarrow> bool" where
  "select_keeps g h (Arms p h' g') \<longleftrightarrow> (g' = g \<longleftrightarrow> h' = h)"
| "select_keeps g h (Gate g' h') \<longleftrightarrow> (g' = g \<longleftrightarrow> h' = h)"
| "select_keeps g h _ \<longleftrightarrow> True"

text \<open>The gate's account: \<open>h\<close> has been scheduled as often as its gate is closed.\<close>

definition settled_gate :: "uintptr \<Rightarrow> coro \<Rightarrow> async_mem \<Rightarrow> bool" where
  "settled_gate g h w \<longleftrightarrow> gate_of g h w \<and> credit g h w = 0"

lemma wake_all_fires: "wake_all first w = Some (first', w') \<Longrightarrow> \<exists>qs. w' = fold fire_node qs w"
  using wake_all_defined [of first w] wake_all_chain [of w first] by auto

lemma gates_fold: "gates w g \<Longrightarrow> gates (fold fire_node qs w) g"
proof (induction qs arbitrary: w)
  case (Cons q qs)
  have "gates (fire_node q w) g" using Cons.prems by (simp add: fire_node_def Let_def)
  with Cons.IH show ?case by simp
qed simp

lemma settled_fold:
  "settled_gate g h w \<Longrightarrow> g \<noteq> 0 \<Longrightarrow> settled_gate g h (fold fire_node qs w)"
  by (simp add: settled_gate_def credit_fold_fire)

lemma settled_fire: "settled_gate g h w \<Longrightarrow> g \<noteq> 0 \<Longrightarrow> settled_gate g h (fire_node q w)"
  by (simp add: settled_gate_def credit_fire_node)

lemma settled_add:
  "settled_gate g h w \<Longrightarrow> settled_gate g h (snd (add_receive_waiter p c w))"
  by (auto simp: settled_gate_def add_receive_waiter_def add_waiter_def gate_of_def credit_def)

lemma settled_arm: "settled_gate g h w \<Longrightarrow> (g' = g \<longleftrightarrow> h' = h) \<Longrightarrow> settled_gate g h (arm_node p h' g' w)"
  by (simp add: settled_gate_def gate_of_arm)

lemma settled_gate_fire:
  "settled_gate g h w \<Longrightarrow> (g' = g \<longleftrightarrow> h' = h) \<Longrightarrow> settled_gate g h (fire_gate g' h' w)"
  by (simp add: settled_gate_def credit_fire_gate)

lemma async_close_fires:
  assumes "async_close c w = Some (c', w')"
  shows "\<exists>qs. w' = fold fire_node qs w"
proof -
  from assms obtain h1 w1 h2 where "wake_all (recv_waiters c) w = Some (h1, w1)"
    "wake_all (send_waiters c) w1 = Some (h2, w')"
    by (auto simp: async_close_def Let_def split: option.splits)
  from wake_all_fires [OF this(1)] wake_all_fires [OF this(2)] show ?thesis
    by (metis fold_append comp_apply)
qed

lemma settled_step:
  assumes "select_step c (cs, w) = Some (cs', w')" "settled_gate g h w" "g \<noteq> 0" "select_keeps g h c"
  shows "settled_gate g h w' \<and> (gates w g \<longrightarrow> gates w' g)"
proof (cases c)
  case (Send_wakes i)
  then have "w' = w \<or> (\<exists>q. w' = fire_node q w)" using assms(1)
    by (auto simp: wake_one_receiver_def wake_one_def split: if_splits)
  then show ?thesis using assms(2,3) settled_fire gates_fold [of w g "[q]" for q] by auto
next
  case (Closes i)
  then obtain c' where "async_close (cs ! i) w = Some (c', w')" using assms(1) by auto
  from async_close_fires [OF this] show ?thesis using assms(2,3) settled_fold gates_fold by blast
next
  case (Arms p h' g')
  then show ?thesis using assms settled_arm by (auto simp: arm_node_def)
next
  case (Adds i p)
  then have "w' = snd (add_receive_waiter p (cs ! i) w)" using assms(1) by (auto split: prod.splits)
  then show ?thesis using assms(2) settled_add
    by (auto simp: add_receive_waiter_def add_waiter_def)
next
  case (Gate g' h')
  then show ?thesis using assms settled_gate_fire by auto
qed

lemma settled_run:
  assumes "select_run ops (cs, w) = Some (cs', w')" "settled_gate g h w" "g \<noteq> 0"
    "\<forall>c \<in> set ops. select_keeps g h c"
  shows "settled_gate g h w' \<and> (gates w g \<longrightarrow> gates w' g)"
  using assms
proof (induction ops arbitrary: cs w)
  case (Cons c ops)
  from Cons.prems(1) obtain cs1 w1 where st: "select_step c (cs, w) = Some (cs1, w1)"
    "select_run ops (cs1, w1) = Some (cs', w')" by (auto split: option.splits)
  have "settled_gate g h w1 \<and> (gates w g \<longrightarrow> gates w1 g)"
    by (rule settled_step [OF st(1) Cons.prems(2,3)]) (use Cons.prems(4) in simp)
  with Cons.IH [OF st(2)] Cons.prems(3,4) show ?case by simp
qed simp

lemma settled_register:
  assumes "gate_of g h w" "credit g h w = 0" "g \<noteq> 0"
  shows "settled_gate g h (snd (register_all h g ps cs w))"
  using assms
proof (induction h g ps cs w rule: register_all.induct)
  case (1 h g p ps c cs w)
  obtain c1 w1 where a: "add_receive_waiter p c (arm_node p h g w) = (c1, w1)" by fastforce
  have "settled_gate g h w1" using settled_add [of g h "arm_node p h g w" p c] a 1(2,3)
    by (simp add: settled_gate_def gate_of_arm)
  with 1(1) [OF a [symmetric]] 1(4) a show ?case by (simp add: settled_gate_def split_beta)
qed (simp_all add: settled_gate_def)

section \<open>Properties\<close>

text \<open>
  C10. A select is resumed once, and by any of its channels, if no other waiter, timer or gate
  operation uses its gate and its coroutine waits nowhere else.  When its nodes are new, the
  registration puts one on each channel, in front of the others, schedules nobody, and a
  send to whichever channel then schedules the coroutine; and whatever wakes, closes, other
  awaiters and attempts on gates come before and after the second try, the coroutine is
  scheduled at most once, and exactly once if the second try found a value.
\<close>

theorem select_woken_once:
  assumes "waiters_are cs w qss" "fresh_nodes ps qss" "length ps = length cs"
    and "gate_of g h w" "g \<noteq> 0" "h \<noteq> 0" "h \<notin> set (sched w)"
    and "select_register h g ps (cs, w) = (cs1, w1)"
    and "select_run ops (cs1, w1) = Some (cs2, w2)" "select_recheck b h g (cs2, w2) = (r, cs3, w3)"
    and "select_run ops' (cs3, w3) = Some (cs4, w4)" "\<forall>c \<in> set (ops @ ops'). select_keeps g h c"
  shows "sched w1 = sched w \<and> (\<forall>i < length cs. sched (snd (wake_one_receiver (cs1 ! i) w1)) = sched w @ [h])
    \<and> count_list (sched w4) h \<le> 1 \<and> (r \<noteq> None \<longrightarrow> count_list (sched w4) h = 1)"
proof -
  let ?w0 = "w\<lparr>gates := (gates w)(g := False)\<rparr>"
  have reg: "register_all h g ps cs ?w0 = (cs1, w1)" using assms(8) by (simp add: select_register_def)
  have "waiters_are cs ?w0 qss" using assms(1) by (simp add: waiters_are_def)
  from register_all_lists [OF this assms(2,3), of h g] reg
  have lists: "\<forall>i < length cs. recv_waiters (cs1 ! i) = ps ! i \<and> ps ! i \<noteq> 0
      \<and> node_handle (wnodes w1 (ps ! i)) = h \<and> node_gate (wnodes w1 (ps ! i)) = g"
    and w1: "\<not> gates w1 g" "sched w1 = sched w" by auto
  then have wakes: "sched (snd (wake_one_receiver (cs1 ! i) w1)) = sched w @ [h]" if "i < length cs" for i
    using that assms(5,6) by (simp add: wake_one_receiver_def wake_one_def fire_node_def Let_def)
  have "gate_of g h ?w0" "credit g h ?w0 = 0"
    using assms(4,7) by (simp_all add: gate_of_def credit_def count_list_0_iff)
  from settled_register [OF this assms(5), of ps cs] reg have "settled_gate g h w1" by simp
  from settled_run [OF assms(9) this assms(5)] assms(12) have s2: "settled_gate g h w2" by simp
  have w3: "w3 = (if r \<noteq> None then fire_gate g h w2 else w2)"
    using assms(10) by (auto simp: select_recheck_def split: prod.splits)
  then have "settled_gate g h w3" using s2 settled_gate_fire by simp
  from settled_run [OF assms(11) this assms(5)] assms(12)
  have s4: "settled_gate g h w4" "gates w3 g \<longrightarrow> gates w4 g" by simp_all
  then have "count_list (sched w4) h = (if gates w4 g then 1 else 0)"
    by (auto simp: settled_gate_def credit_def split: if_splits)
  moreover have "r \<noteq> None \<longrightarrow> gates w4 g" using s4(2) w3 by simp
  ultimately show ?thesis using w1(2) wakes by simp
qed

text \<open>
  What a select takes.  Not suspended, it takes the oldest value of the first channel that
  holds one.  Suspended, the first try took nothing, the second one or else the resumption
  takes as much, and what was taken is returned with the index of its channel; a resumption
  that finds nothing throws and changes nothing.
\<close>

theorem select_outcome:
  fixes cs :: "'a async_channel list"
  assumes "select_ready b cs = (ready, r, cs')"
  shows "took cs r cs' \<and> ready = (r \<noteq> None)
    \<and> (ready \<longrightarrow> select_resume b r cs' = (Inr (the r), cs'))
    \<and> (\<forall>h g (ds :: 'a async_channel list) w r2 ds' w'. select_recheck b h g (ds, w) = (r2, ds', w') \<longrightarrow> took ds r2 ds'
        \<and> (\<forall>es. case select_resume b r2 es of
             (Inr iv, es') \<Rightarrow> (if r2 \<noteq> None then r2 = Some iv \<and> es' = es else took es (Some iv) es')
           | (Inl e, es') \<Rightarrow> r2 = None \<and> took es None es' \<and> es' = es))"
proof -
  have r: "select_try b 0 cs = (r, cs')" "ready = (r \<noteq> None)"
    using assms by (auto simp: select_ready_def split: prod.splits)
  have resume: "case select_resume b r2 es of
             (Inr iv, es') \<Rightarrow> (if r2 \<noteq> None then r2 = Some iv \<and> es' = es else took es (Some iv) es')
           | (Inl e, es') \<Rightarrow> r2 = None \<and> took es None es' \<and> es' = es"
    for r2 and es :: "'a async_channel list"
  proof (cases r2)
    case None
    obtain r3 es' where t: "select_try b 0 es = (r3, es')" by fastforce
    from select_try_took [OF t] None t show ?thesis
      by (cases r3) (simp_all add: select_resume_def took_def)
  qed (simp add: select_resume_def)
  have recheck: "took ds r2 ds'" if "select_recheck b h g (ds, w) = (r2, ds', w')"
    for h g w r2 w' and ds ds' :: "'a async_channel list"
    using that select_try_took [of b ds r2 ds'] by (auto simp: select_recheck_def split: prod.splits)
  show ?thesis
  proof (intro conjI allI impI)
    show "took cs r cs'" by (rule select_try_took [OF r(1)])
    show "ready = (r \<noteq> None)" by (rule r(2))
    show "select_resume b r cs' = (Inr (the r), cs')" if ready using that r(2) by (auto simp: select_resume_def)
  qed (rule recheck resume; assumption?)+
qed

text \<open>C32. The variadic form does the same: the same values, channels and exceptions.\<close>

theorem variadic_select_equivalent:
  "(case variadic_ready cs x of (ready, cs', x') \<Rightarrow>
      select_ready None cs = (ready, if ready then Some (ready_index x', variant_result x') else None, cs'))
   \<and> (\<not> has_result x \<longrightarrow> variadic_resume cs x = select_resume None None cs)
   \<and> (has_result x \<longrightarrow> variadic_resume cs x = select_resume None (Some (ready_index x, variant_result x)) cs)
   \<and> (case variadic_suspend h g ps (cs, w) x of (cs', w', x') \<Rightarrow>
        select_suspend None h g ps (cs, w) =
          (if has_result x' then Some (ready_index x', variant_result x') else None, cs', w'))"
proof -
  have same: "select_try None 0 ds = (if has_result y then Some (ready_index y, variant_result y) else None, ds')"
    if "variadic_try ds x = (ds', y)" for ds ds' :: "'a async_channel list" and y
  proof -
    obtain r ds'' where t: "select_try None 0 ds = (r, ds'')" by fastforce
    from took_unique [OF select_try_took [OF t] variadic_try_took [OF that]] t show ?thesis by simp
  qed
  obtain cs' y where v: "variadic_try cs x = (cs', y)" by fastforce
  obtain ds w1 where r: "select_register h g ps (cs, w) = (ds, w1)" by fastforce
  obtain ds' z where v2: "variadic_try ds x = (ds', z)" by fastforce
  show ?thesis using v r v2 same [OF v] same [OF v2]
    by (simp add: variadic_ready_def select_ready_def variadic_resume_def select_resume_def
        variadic_suspend_def select_suspend_def select_recheck_def)
qed

text \<open>
  The nodes of a select stay behind.  After one of its channels has woken it and it has
  gone on, every other channel still has its node in front: the next wake of such a channel
  removes that node and schedules nobody, although a coroutine is waiting behind it; and if
  by then its memory holds the node of another coroutine, that one is scheduled.
\<close>

theorem select_leaves_nodes:
  assumes "waiters_are cs w qss" "fresh_nodes ps qss" "length ps = length cs" "g \<noteq> 0" "h \<noteq> 0"
    and "select_register h g ps (cs, w) = (cs1, w1)"
    and "i < length cs" "j < length cs" "i \<noteq> j" "wake_one_receiver (cs1 ! i) w1 = (c, w2)"
  shows "wake_one_receiver (cs1 ! j) w2 = ((cs1 ! j)\<lparr>recv_waiters := recv_waiters (cs ! j)\<rparr>, w2)
    \<and> chain (wnodes w2) (recv_waiters (cs ! j)) (qss ! j)
    \<and> (h2 \<noteq> 0 \<longrightarrow> sched (snd (wake_one_receiver (cs1 ! j) (arm_node (ps ! j) h2 0 w2))) = sched w2 @ [h2])"
proof -
  let ?w0 = "w\<lparr>gates := (gates w)(g := False)\<rparr>"
  have reg: "register_all h g ps cs ?w0 = (cs1, w1)" using assms(6) by (simp add: select_register_def)
  have "waiters_are cs ?w0 qss" using assms(1) by (simp add: waiters_are_def)
  from register_all_lists [OF this assms(2,3), of h g] reg
  have l: "recv_waiters (cs1 ! k) = ps ! k" "chain (wnodes w1) (ps ! k) (ps ! k # qss ! k)"
    "node_handle (wnodes w1 (ps ! k)) = h" "node_gate (wnodes w1 (ps ! k)) = g" if "k < length cs" for k
    using that by auto
  have nz: "ps ! k \<noteq> 0" if "k < length cs" for k using l(2) [OF that] by simp
  have w2: "w2 = fire_gate g h w1" using assms(4,5,7,10) l [OF assms(7)] nz [OF assms(7)]
    by (auto simp: wake_one_receiver_def wake_one_def fire_node_def Let_def)
  have "fire_node (ps ! j) w2 = w2"
    using l [OF assms(8)] assms(4,5) by (simp add: w2 fire_node_def Let_def fire_gate_def [of g h "fire_gate g h w1"])
  moreover have next_j: "chain (wnodes w1) (node_next (wnodes w1 (ps ! j))) (qss ! j)" using l(2) [OF assms(8)] by simp
  have "node_next (wnodes w1 (ps ! j)) = recv_waiters (cs ! j)"
  proof -
    have ch: "chain (wnodes w) (recv_waiters (cs ! j)) (qss ! j)" using assms(1,8) by (simp add: waiters_are_def)
    show ?thesis using ch next_j by (cases "qss ! j") auto
  qed
  moreover note next_j
  ultimately show ?thesis using l [OF assms(8)] nz [OF assms(8)]
    by (simp add: wake_one_receiver_def wake_one_def w2)
      (simp add: fire_node_def arm_node_def schedule_call_def Let_def)
qed

text \<open>
  A select does not look at closed channels: with every channel closed and empty it suspends
  and is not scheduled, where a plain receive returns at once; and a close that comes later
  resumes it only to throw.
\<close>

theorem select_ignores_close:
  assumes "\<forall>c \<in> set cs. is_closed (ch_base c) \<and> \<not> holds c" "waiters_are cs w qss" "fresh_nodes ps qss"
    and "length ps = length cs"
  shows "fst (select_ready b cs) = False
    \<and> (case select_suspend b h g ps (cs, w) of (r, cs', w') \<Rightarrow>
        r = None \<and> sched w' = sched w \<and> fst (select_resume b r cs') = Inl Woken_without_data)
    \<and> (\<forall>c \<in> set cs. fst (receive_ready b c))"
proof -
  let ?w0 = "w\<lparr>gates := (gates w)(g := False)\<rparr>"
  have "waiters_are cs ?w0 qss" using assms(2) by (simp add: waiters_are_def)
  from register_all_lists [OF this assms(3,4), of h g] obtain cs1 w1 where
    reg: "register_all h g ps cs ?w0 = (cs1, w1)" "length cs1 = length cs" "sched w1 = sched w"
    and base: "\<forall>i < length cs. ch_base (cs1 ! i) = ch_base (cs ! i)" by (elim exE conjE) simp
  have none: "select_try b 0 ds = (None, ds)" if "\<forall>c \<in> set ds. \<not> holds c" for ds :: "'a async_channel list"
  proof -
    obtain r ds' where t: "select_try b 0 ds = (r, ds')" by fastforce
    with select_try_took [OF t] that show ?thesis by (auto simp: took_def split: option.splits)
  qed
  have "\<forall>c \<in> set cs1. \<not> holds c"
  proof
    fix c assume "c \<in> set cs1"
    then obtain i where i: "i < length cs" "c = cs1 ! i" using reg(2) by (metis in_set_conv_nth)
    then have "ch_base c = ch_base (cs ! i)" using base by simp
    moreover have "\<not> holds (cs ! i)" using assms(1) i(1) nth_mem by blast
    ultimately show "\<not> holds c" by (simp add: holds_def)
  qed
  then have n1: "select_try b 0 cs1 = (None, cs1)" by (rule none)
  have n0: "select_try b 0 cs = (None, cs)" using assms(1) by (intro none) blast
  have "select_suspend b h g ps (cs, w) = (None, cs1, w1)"
    by (simp add: select_suspend_def select_register_def select_recheck_def reg(1) n1)
  moreover have "\<forall>c \<in> set cs. fst (receive_ready b c)"
    using assms(1) by (simp add: receive_ready_def try_receive_now_simp holds_def)
  ultimately show ?thesis using reg(3) n1 by (simp add: select_ready_def select_resume_def n0)
qed

section \<open>Witnesses\<close>

definition two_channels :: "nat async_channel list" where
  "two_channels = [new_async_channel, new_async_channel]"

definition select_registered :: "nat async_channel list \<times> async_mem" where
  "select_registered = select_register 7 48 [16, 32] (two_channels, sample_mem)"

lemma two_channels_waiters:
  "waiters_are two_channels sample_mem [[], []]" "fresh_nodes [16, 32] [[], []]"
  "length [16 :: uintptr, 32] = length two_channels" "gate_of 48 7 sample_mem" "7 \<notin> set (sched sample_mem)"
  by (auto simp: waiters_are_def two_channels_def new_async_channel_def fresh_nodes_def less_Suc_eq
      gate_of_def sample_mem_def new_node_def)

lemma select_registered_eval:
  "select_register 7 48 [16, 32] (two_channels, sample_mem) = (fst select_registered, snd select_registered)"
  by (simp add: select_registered_def)

lemma select_woken_once_witness:
  "sched (snd (wake_one_receiver (fst select_registered ! 1) (snd select_registered))) = [7]"
proof -
  obtain r cs3 w3 where rc: "select_recheck None 7 48 (fst select_registered, snd select_registered) = (r, cs3, w3)"
    by (metis prod_cases3)
  from select_woken_once [OF two_channels_waiters(1-4) _ _ two_channels_waiters(5) select_registered_eval
      _ rc, of "[]" "[]" cs3 w3]
  show ?thesis by (simp add: two_channels_def sample_mem_def)
qed

lemma select_outcome_witness:
  "\<exists>cs'. select_ready None [new_async_channel, new_async_channel\<lparr>ch_base := new_channel\<lparr>buffer := [4 :: nat, 5]\<rparr>\<rparr>]
       = (True, Some (1, 4), cs') \<and> map (\<lambda>c. buffer (ch_base c)) cs' = [[], [5]]"
proof -
  let ?cs = "[new_async_channel, new_async_channel\<lparr>ch_base := new_channel\<lparr>buffer := [4 :: nat, 5]\<rparr>\<rparr>]"
  have "select_ready None ?cs = (True, Some (1, 4), snd (snd (select_ready None ?cs)))"
    by (simp add: select_ready_def try_receive_now_simp new_async_channel_def new_channel_def)
  from select_outcome [OF this] this show ?thesis
    by (auto simp: took_def drop_oldest_def new_async_channel_def new_channel_def)
qed

lemma variadic_select_equivalent_witness:
  "case variadic_ready [new_async_channel :: nat async_channel] \<lparr>has_result = False, ready_index = 0, variant_result = 0\<rparr> of
     (ready, cs', x') \<Rightarrow> \<not> ready"
  using variadic_select_equivalent [of "[new_async_channel :: nat async_channel]"
      "\<lparr>has_result = False, ready_index = 0, variant_result = 0\<rparr>"]
  by (auto simp: select_ready_def try_receive_now_simp new_async_channel_def new_channel_def split: prod.splits)

lemma select_leaves_nodes_witness:
  "\<exists>c w2. wake_one_receiver (fst select_registered ! 0) (snd select_registered) = (c, w2)
     \<and> sched (snd (wake_one_receiver (fst select_registered ! 1) (arm_node 32 9 0 w2))) = sched w2 @ [9]"
proof -
  obtain c w2 where w: "wake_one_receiver (fst select_registered ! 0) (snd select_registered) = (c, w2)" by fastforce
  from select_leaves_nodes [OF two_channels_waiters(1-3) _ _ select_registered_eval _ _ _ w, of 1 9]
  show ?thesis using w by (simp add: two_channels_def)
qed

lemma select_ignores_close_witness:
  "fst (select_ready None [new_async_channel\<lparr>ch_base := (new_channel :: nat channel)\<lparr>is_closed := True\<rparr>\<rparr>]) = False"
  using select_ignores_close [of "[new_async_channel\<lparr>ch_base := (new_channel :: nat channel)\<lparr>is_closed := True\<rparr>\<rparr>]"
      sample_mem "[[]]" "[16]" None]
  by (simp add: waiters_are_def fresh_nodes_def new_async_channel_def new_channel_def holds_def)

end
