(* ===== verification/BlockingCall.thy ===== *)
theory BlockingCall
  imports CancelState
begin

text \<open>
  Blocking calls from a coroutine: the awaiter that runs a callable on the task pool
  (\<open>include/coro_awaiter.hpp\<close>) and the one that a cancellation may end early
  (\<open>blocking_result\<close> and \<open>cancellable_blocking_awaiter\<close> of \<open>include/async_runtime.hpp\<close>).  What
  the callable does is its outcome: an exception \<open>Inl e\<close> or a value \<open>Inr r\<close>.
\<close>

section \<open>The plain awaiter\<close>

record ('e, 'r) callable_awaiter =
  ca_result :: "'r option"
  ca_exception :: "'e option"
  ca_done :: bool
  ca_continuation :: coro

definition new_callable_awaiter :: "('e, 'r) callable_awaiter" where
  "new_callable_awaiter = \<lparr>ca_result = None, ca_exception = None, ca_done = False, ca_continuation = 0\<rparr>"

definition callable_suspend :: "coro \<Rightarrow> ('e, 'r) callable_awaiter \<Rightarrow> ('e, 'r) callable_awaiter" where
  "callable_suspend h c = c\<lparr>ca_continuation := h\<rparr>"

text \<open>The task on the pool: the awaiter after it, and the handle it schedules.\<close>

definition callable_task ::
  "'e + 'r \<Rightarrow> ('e, 'r) callable_awaiter \<Rightarrow> ('e, 'r) callable_awaiter \<times> coro" where
  "callable_task outc c =
     (let c' = (case outc of Inr r \<Rightarrow> c\<lparr>ca_result := Some r\<rparr> | Inl e \<Rightarrow> c\<lparr>ca_exception := Some e\<rparr>)
      in (c'\<lparr>ca_done := True\<rparr>, ca_continuation c'))"

text \<open>\<open>None\<close>: the optional result is read while it is empty.\<close>

definition callable_resume :: "('e, 'r) callable_awaiter \<Rightarrow> ('e + 'r) option" where
  "callable_resume c =
     (case ca_exception c of Some e \<Rightarrow> Some (Inl e) | None \<Rightarrow> map_option Inr (ca_result c))"

section \<open>The result of a cancellable call\<close>

datatype blocking_status = Bl_completed | Bl_cancelled

record ('e, 'r) blocking_result =
  br_status :: blocking_status
  br_value :: "'r option"
  br_exception :: "'e option"

text \<open>What \<open>get\<close> throws: the exception of the callable or \<open>cancelled_exception\<close>.\<close>

definition blocking_get :: "('e, 'r) blocking_result \<Rightarrow> (('e + cancel_error) + 'r) option" where
  "blocking_get b =
     (case br_exception b of
        Some e \<Rightarrow> Some (Inl (Inl e))
      | None \<Rightarrow> if br_status b = Bl_cancelled then Some (Inl (Inr Cancelled_exception))
          else map_option Inr (br_value b))"

section \<open>The awaiter among task, cancellation and coroutine\<close>

text \<open>
  Where the four parties stand.  \<open>Bs\<close>: the statements of \<open>await_suspend\<close>, which run on while
  the coroutine may already be resumed elsewhere.  \<open>Bt\<close>: the task on the pool.  \<open>Bc\<close>: a call
  of the cancellation callback.  \<open>Br\<close>: the coroutine.
\<close>

datatype suspend_pc = Bs_handle | Bs_register | Bs_id u64 | Bs_task | Bs_end

datatype task_pc = Bt_none | Bt_queued | Bt_ran | Bt_status | Bt_sched | Bt_end

datatype callback_pc = Bc_cas | Bc_status | Bc_sched | Bc_end

datatype ('e, 'r) resume_pc = Br_suspended | Br_unregister | Br_read | Br_got "('e, 'r) blocking_result"

text \<open>
  The shared data, the awaiter's callback id, the token's state (\<open>b_token\<close>: whether there is
  one), the handles given to the scheduler, and the four parties.
\<close>

record ('e, 'r) blocking_sys =
  b_resumed :: bool
  b_handle :: coro
  b_result :: "'r option"
  b_exception :: "'e option"
  b_status :: blocking_status
  b_callback_id :: u64
  b_token :: bool
  b_cancel :: "unit cancellation_state"
  b_sched :: "coro list"
  b_suspend :: suspend_pc
  b_task :: task_pc
  b_calls :: "callback_pc list"
  b_coro :: "('e, 'r) resume_pc"

definition blocking_init :: "bool \<Rightarrow> unit cancellation_state \<Rightarrow> ('e, 'r) blocking_sys" where
  "blocking_init tok cs =
     \<lparr>b_resumed = False, b_handle = 0, b_result = None, b_exception = None, b_status = Bl_completed,
      b_callback_id = 0, b_token = tok, b_cancel = cs, b_sched = [], b_suspend = Bs_handle,
      b_task = Bt_none, b_calls = [], b_coro = Br_suspended\<rparr>"

text \<open>A new state of the cancellation, with a call for each callback called since.\<close>

definition set_cancel_state ::
  "unit cancellation_state \<Rightarrow> ('e, 'r) blocking_sys \<Rightarrow> ('e, 'r) blocking_sys" where
  "set_cancel_state cs z =
     z\<lparr>b_cancel := cs,
       b_calls := b_calls z @ replicate (length (invoked cs) - length (invoked (b_cancel z))) Bc_cas\<rparr>"

fun suspend_step :: "coro \<Rightarrow> suspend_pc \<Rightarrow> ('e, 'r) blocking_sys \<Rightarrow> ('e, 'r) blocking_sys option" where
  "suspend_step h Bs_handle z = Some (z\<lparr>b_handle := h, b_suspend := Bs_register\<rparr>)"
| "suspend_step h Bs_register z =
     (if b_token z
      then case register_callback () (b_cancel z) of
        (cid, cs) \<Rightarrow> Some ((set_cancel_state cs z)\<lparr>b_suspend := Bs_id cid\<rparr>)
      else Some (z\<lparr>b_suspend := Bs_task\<rparr>))"
| "suspend_step h (Bs_id cid) z = Some (z\<lparr>b_callback_id := cid, b_suspend := Bs_task\<rparr>)"
| "suspend_step h Bs_task z = Some (z\<lparr>b_task := Bt_queued, b_suspend := Bs_end\<rparr>)"
| "suspend_step h Bs_end z = None"

text \<open>\<open>outc\<close> is the outcome of the callable.\<close>

fun task_step :: "'e + 'r \<Rightarrow> task_pc \<Rightarrow> ('e, 'r) blocking_sys \<Rightarrow> ('e, 'r) blocking_sys option" where
  "task_step outc Bt_none z = None"
| "task_step outc Bt_queued z =
     Some ((case outc of Inr r \<Rightarrow> z\<lparr>b_result := Some r\<rparr> | Inl e \<Rightarrow> z\<lparr>b_exception := Some e\<rparr>)
       \<lparr>b_task := Bt_ran\<rparr>)"
| "task_step outc Bt_ran z =
     Some (if b_resumed z then z\<lparr>b_task := Bt_end\<rparr> else z\<lparr>b_resumed := True, b_task := Bt_status\<rparr>)"
| "task_step outc Bt_status z = Some (z\<lparr>b_status := Bl_completed, b_task := Bt_sched\<rparr>)"
| "task_step outc Bt_sched z = Some (z\<lparr>b_sched := b_sched z @ [b_handle z], b_task := Bt_end\<rparr>)"
| "task_step outc Bt_end z = None"

text \<open>The \<open>i\<close>-th call of the callback.\<close>

fun callback_step :: "nat \<Rightarrow> callback_pc \<Rightarrow> ('e, 'r) blocking_sys \<Rightarrow> ('e, 'r) blocking_sys option" where
  "callback_step i Bc_cas z =
     Some (if b_resumed z then z\<lparr>b_calls := (b_calls z)[i := Bc_end]\<rparr>
           else z\<lparr>b_resumed := True, b_calls := (b_calls z)[i := Bc_status]\<rparr>)"
| "callback_step i Bc_status z = Some (z\<lparr>b_status := Bl_cancelled, b_calls := (b_calls z)[i := Bc_sched]\<rparr>)"
| "callback_step i Bc_sched z =
     Some (z\<lparr>b_sched := b_sched z @ [b_handle z], b_calls := (b_calls z)[i := Bc_end]\<rparr>)"
| "callback_step i Bc_end z = None"

fun resume_step :: "('e, 'r) resume_pc \<Rightarrow> ('e, 'r) blocking_sys \<Rightarrow> ('e, 'r) blocking_sys option" where
  "resume_step Br_suspended z = (if b_sched z \<noteq> [] then Some (z\<lparr>b_coro := Br_unregister\<rparr>) else None)"
| "resume_step Br_unregister z =
     Some ((if b_token z \<and> b_callback_id z \<noteq> 0
            then set_cancel_state (unregister_callback (b_callback_id z) (b_cancel z)) z else z)
       \<lparr>b_coro := Br_read\<rparr>)"
| "resume_step Br_read z =
     Some (z\<lparr>b_coro := Br_got \<lparr>br_status = b_status z, br_value = b_result z, br_exception = b_exception z\<rparr>\<rparr>)"
| "resume_step (Br_got b) z = None"

inductive blocking_step :: "coro \<Rightarrow> 'e + 'r \<Rightarrow> ('e, 'r) blocking_sys \<Rightarrow> ('e, 'r) blocking_sys \<Rightarrow> bool"
  for h outc where
  suspend: "suspend_step h (b_suspend z) z = Some z' \<Longrightarrow> blocking_step h outc z z'"
| task: "task_step outc (b_task z) z = Some z' \<Longrightarrow> blocking_step h outc z z'"
| callback: "i < length (b_calls z) \<Longrightarrow> callback_step i (b_calls z ! i) z = Some z' \<Longrightarrow> blocking_step h outc z z'"
| resume: "resume_step (b_coro z) z = Some z' \<Longrightarrow> blocking_step h outc z z'"
| cancel: "b_token z \<Longrightarrow> CancelState.cancel (b_cancel z) = Some cs \<Longrightarrow> blocking_step h outc z (set_cancel_state cs z)"

inductive blocking_reach :: "coro \<Rightarrow> 'e + 'r \<Rightarrow> ('e, 'r) blocking_sys \<Rightarrow> ('e, 'r) blocking_sys \<Rightarrow> bool"
  for h outc z where
  start: "blocking_reach h outc z z"
| step: "blocking_reach h outc z y \<Longrightarrow> blocking_step h outc y y' \<Longrightarrow> blocking_reach h outc z y'"

section \<open>The invariant\<close>

definition task_won :: "task_pc \<Rightarrow> nat" where
  "task_won pc = (if pc = Bt_status \<or> pc = Bt_sched then 1 else 0)"

definition calls_won :: "callback_pc list \<Rightarrow> nat" where
  "calls_won pcs = length (filter (\<lambda>pc. pc = Bc_status \<or> pc = Bc_sched) pcs)"

text \<open>The schedules done and still due are one if the flag has been won, else none.\<close>

definition due_once :: "('e, 'r) blocking_sys \<Rightarrow> bool" where
  "due_once z \<longleftrightarrow>
     length (b_sched z) + task_won (b_task z) + calls_won (b_calls z) = (if b_resumed z then 1 else 0)"

definition ran :: "task_pc \<Rightarrow> bool" where
  "ran pc \<longleftrightarrow> pc = Bt_ran \<or> pc = Bt_status \<or> pc = Bt_sched \<or> pc = Bt_end"

text \<open>The outcome is stored exactly when the task has run.\<close>

definition stored :: "'e + 'r \<Rightarrow> ('e, 'r) blocking_sys \<Rightarrow> bool" where
  "stored outc z \<longleftrightarrow>
     (if ran (b_task z)
      then b_result z = (case outc of Inr r \<Rightarrow> Some r | Inl e \<Rightarrow> None)
         \<and> b_exception z = (case outc of Inl e \<Rightarrow> Some e | Inr r \<Rightarrow> None)
      else b_result z = None \<and> b_exception z = None)"

definition phases :: "coro \<Rightarrow> ('e, 'r) blocking_sys \<Rightarrow> bool" where
  "phases h z \<longleftrightarrow> (b_suspend z \<noteq> Bs_handle \<longrightarrow> b_handle z = h) \<and> (b_task z \<noteq> Bt_none \<longleftrightarrow> b_suspend z = Bs_end)
     \<and> set (b_sched z) \<subseteq> {h}
     \<and> ((b_suspend z = Bs_handle \<or> b_suspend z = Bs_register) \<longrightarrow> b_calls z = [] \<and> callbacks (b_cancel z) = [])"

text \<open>Who won is who wrote the status.\<close>

definition status_true :: "('e, 'r) blocking_sys \<Rightarrow> bool" where
  "status_true z \<longleftrightarrow>
     (b_calls z \<noteq> [] \<longrightarrow> b_token z \<and> cancelled (b_cancel z))
     \<and> (b_status z = Bl_cancelled \<longrightarrow> b_calls z \<noteq> [] \<and> b_resumed z \<and> task_won (b_task z) = 0)
     \<and> (Bc_sched \<in> set (b_calls z) \<longrightarrow> b_status z = Bl_cancelled)
     \<and> (b_sched z \<noteq> [] \<and> b_status z = Bl_completed \<longrightarrow> b_task z = Bt_end)
     \<and> (b_task z = Bt_end \<longrightarrow> b_resumed z)"

definition got_true :: "'e + 'r \<Rightarrow> ('e, 'r) blocking_sys \<Rightarrow> bool" where
  "got_true outc z \<longleftrightarrow>
     (b_coro z \<noteq> Br_suspended \<longrightarrow> b_sched z \<noteq> [])
     \<and> (\<forall>b. b_coro z = Br_got b \<longrightarrow>
          (br_exception b \<noteq> None \<longrightarrow> br_exception b = (case outc of Inl e \<Rightarrow> Some e | Inr r \<Rightarrow> None))
          \<and> (if br_status b = Bl_completed
             then br_value b = (case outc of Inr r \<Rightarrow> Some r | Inl e \<Rightarrow> None)
               \<and> br_exception b = (case outc of Inl e \<Rightarrow> Some e | Inr r \<Rightarrow> None)
             else b_token z \<and> cancelled (b_cancel z)))"

definition blocking_inv :: "coro \<Rightarrow> 'e + 'r \<Rightarrow> ('e, 'r) blocking_sys \<Rightarrow> bool" where
  "blocking_inv h outc z \<longleftrightarrow> due_once z \<and> phases h z \<and> stored outc z \<and> status_true z \<and> got_true outc z"

lemmas blocking_inv_defs = blocking_inv_def due_once_def phases_def stored_def status_true_def got_true_def
  task_won_def ran_def

text \<open>What the operations of the cancellation do to the callbacks.\<close>

lemma cancel_invokes:
  assumes "CancelState.cancel s = Some s'"
  shows "cancelled s' \<and> invoked s' = invoked s @ (if cancelled s then [] else callbacks s)
    \<and> callbacks s' = (if cancelled s then callbacks s else [])"
  using cancel_effect [OF assms] by auto

lemma register_invokes:
  assumes "register_callback cb s = (cid, s')"
  shows "cancelled s' = cancelled s \<and> invoked s' = invoked s @ (if cancelled s then [cb] else [])"
  using register_effect [OF assms] by auto

declare unregister_effect(1,2) [simp]

lemma set_cancel_simps [simp]:
  "b_resumed (set_cancel_state cs z) = b_resumed z" "b_handle (set_cancel_state cs z) = b_handle z"
  "b_result (set_cancel_state cs z) = b_result z" "b_exception (set_cancel_state cs z) = b_exception z"
  "b_status (set_cancel_state cs z) = b_status z" "b_callback_id (set_cancel_state cs z) = b_callback_id z"
  "b_token (set_cancel_state cs z) = b_token z" "b_cancel (set_cancel_state cs z) = cs"
  "b_sched (set_cancel_state cs z) = b_sched z" "b_suspend (set_cancel_state cs z) = b_suspend z"
  "b_task (set_cancel_state cs z) = b_task z" "b_coro (set_cancel_state cs z) = b_coro z"
  "b_calls (set_cancel_state cs z) =
     b_calls z @ replicate (length (invoked cs) - length (invoked (b_cancel z))) Bc_cas"
  by (simp_all add: set_cancel_state_def)

lemma calls_won_simps [simp]:
  "calls_won [] = 0" "calls_won (pcs @ replicate n Bc_cas) = calls_won pcs"
  by (simp_all add: calls_won_def)

lemma calls_won_update:
  assumes "i < length pcs"
  shows "calls_won (pcs[i := pc]) + (if pcs ! i = Bc_status \<or> pcs ! i = Bc_sched then 1 else 0)
    = calls_won pcs + (if pc = Bc_status \<or> pc = Bc_sched then 1 else 0)"
  using length_filter_update [OF assms, of "\<lambda>pc. pc = Bc_status \<or> pc = Bc_sched" pc]
  by (simp add: calls_won_def)

lemma calls_won_pos:
  assumes "pc \<in> set pcs" "pc = Bc_status \<or> pc = Bc_sched"
  shows "0 < calls_won pcs"
  using assms by (auto simp: calls_won_def filter_empty_conv)

lemma got_mono:
  assumes "got_true outc z" "b_coro z' = b_coro z" "b_token z' = b_token z"
    and "cancelled (b_cancel z) \<Longrightarrow> cancelled (b_cancel z')" "b_sched z \<noteq> [] \<Longrightarrow> b_sched z' \<noteq> []"
  shows "got_true outc z'"
  using assms unfolding got_true_def by metis

lemma stored_cong:
  assumes "stored outc z" "b_result z' = b_result z" "b_exception z' = b_exception z"
    "ran (b_task z') = ran (b_task z)"
  shows "stored outc z'"
  using assms by (simp add: stored_def)

lemma status_cong:
  assumes "status_true z" "b_calls z' = b_calls z" "b_token z' = b_token z" "b_cancel z' = b_cancel z"
    "b_status z' = b_status z" "b_resumed z' = b_resumed z" "b_task z' = b_task z" "b_sched z' = b_sched z"
  shows "status_true z'"
  using assms by (simp add: status_true_def)

text \<open>New calls of the callback come only from a cancelled token.\<close>

lemma status_new_calls:
  assumes "status_true z" "b_token z" "b_suspend z \<noteq> Bs_handle \<and> b_suspend z \<noteq> Bs_register \<or> b_calls z = []"
    and "cancelled (b_cancel z) \<Longrightarrow> cancelled cs"
    and "length (invoked cs) \<noteq> length (invoked (b_cancel z)) \<Longrightarrow> cancelled cs"
    and "length (invoked (b_cancel z)) \<le> length (invoked cs)"
  shows "status_true (set_cancel_state cs z)"
  using assms by (auto simp: status_true_def)

lemma suspend_inv:
  assumes "suspend_step h (b_suspend z) z = Some z'" "blocking_inv h outc z"
  shows "blocking_inv h outc z'"
proof -
  from assms(2) have I: "due_once z" "phases h z" "stored outc z" "status_true z" "got_true outc z"
    by (simp_all add: blocking_inv_def)
  show ?thesis
  proof (cases "b_suspend z")
    case Bs_handle
    with assms(1) have z': "z' = z\<lparr>b_handle := h, b_suspend := Bs_register\<rparr>" by simp
    have "due_once z'" using I(1) by (simp add: z' due_once_def)
    moreover have "phases h z'" using I(2) Bs_handle by (simp add: z' phases_def)
    moreover have "stored outc z'" by (rule stored_cong [OF I(3)]) (simp_all add: z')
    moreover have "status_true z'" by (rule status_cong [OF I(4)]) (simp_all add: z')
    moreover have "got_true outc z'" by (rule got_mono [OF I(5)]) (simp_all add: z')
    ultimately show ?thesis by (simp add: blocking_inv_def)
  next
    case Bs_register
    show ?thesis
    proof (cases "b_token z")
      case True
      obtain cid cs where r: "register_callback () (b_cancel z) = (cid, cs)" by fastforce
      with Bs_register True assms(1) have z': "z' = (set_cancel_state cs z)\<lparr>b_suspend := Bs_id cid\<rparr>" by simp
      note e = register_invokes [OF r]
      have "due_once z'" using I(1) by (simp add: z' due_once_def)
      moreover have "phases h z'" using I(2) Bs_register by (simp add: z' phases_def)
      moreover have "stored outc z'" by (rule stored_cong [OF I(3)]) (simp_all add: z')
      moreover have "status_true (set_cancel_state cs z)"
        by (rule status_new_calls [OF I(4) True]) (use e I(2) Bs_register in \<open>auto simp: phases_def\<close>)
      then have "status_true z'" by (rule status_cong) (simp_all add: z')
      moreover have "got_true outc z'" by (rule got_mono [OF I(5)]) (simp_all add: z' e)
      ultimately show ?thesis by (simp add: blocking_inv_def)
    next
      case False
      with Bs_register assms(1) have z': "z' = z\<lparr>b_suspend := Bs_task\<rparr>" by simp
      have "due_once z'" using I(1) by (simp add: z' due_once_def)
      moreover have "phases h z'" using I(2) Bs_register by (simp add: z' phases_def)
      moreover have "stored outc z'" by (rule stored_cong [OF I(3)]) (simp_all add: z')
      moreover have "status_true z'" by (rule status_cong [OF I(4)]) (simp_all add: z')
      moreover have "got_true outc z'" by (rule got_mono [OF I(5)]) (simp_all add: z')
      ultimately show ?thesis by (simp add: blocking_inv_def)
    qed
  next
    case (Bs_id cid)
    with assms(1) have z': "z' = z\<lparr>b_callback_id := cid, b_suspend := Bs_task\<rparr>" by simp
    have "due_once z'" using I(1) by (simp add: z' due_once_def)
    moreover have "phases h z'" using I(2) Bs_id by (simp add: z' phases_def)
    moreover have "stored outc z'" by (rule stored_cong [OF I(3)]) (simp_all add: z')
    moreover have "status_true z'" by (rule status_cong [OF I(4)]) (simp_all add: z')
    moreover have "got_true outc z'" by (rule got_mono [OF I(5)]) (simp_all add: z')
    ultimately show ?thesis by (simp add: blocking_inv_def)
  next
    case Bs_task
    with assms(1) have z': "z' = z\<lparr>b_task := Bt_queued, b_suspend := Bs_end\<rparr>" by simp
    have t: "b_task z = Bt_none" using I(2) Bs_task by (auto simp: phases_def)
    have "due_once z'" using I(1) t by (simp add: z' due_once_def task_won_def)
    moreover have "phases h z'" using I(2) Bs_task by (simp add: z' phases_def)
    moreover have "stored outc z'" by (rule stored_cong [OF I(3)]) (simp_all add: z' t ran_def)
    moreover have "status_true z'" using I(4) t by (simp add: z' status_true_def task_won_def)
    moreover have "got_true outc z'" by (rule got_mono [OF I(5)]) (simp_all add: z')
    ultimately show ?thesis by (simp add: blocking_inv_def)
  qed (use assms in simp)
qed

lemma task_inv:
  assumes "task_step outc (b_task z) z = Some z'" "blocking_inv h outc z"
  shows "blocking_inv h outc z'"
proof -
  from assms(2) have I: "due_once z" "phases h z" "stored outc z" "status_true z" "got_true outc z"
    by (simp_all add: blocking_inv_def)
  have g: "got_true outc z'"
    by (rule got_mono [OF I(5)])
      (use assms(1) in \<open>cases "b_task z"; auto split: sum.splits if_splits\<close>)+
  show ?thesis
  proof (cases "b_task z")
    case Bt_queued
    with assms(1) have z': "z' = (case outc of Inr r \<Rightarrow> z\<lparr>b_result := Some r\<rparr> | Inl e \<Rightarrow> z\<lparr>b_exception := Some e\<rparr>)
       \<lparr>b_task := Bt_ran\<rparr>" by simp
    have "due_once z'" using I(1) Bt_queued by (cases outc) (simp_all add: z' due_once_def task_won_def)
    moreover have "phases h z'" using I(2) Bt_queued by (cases outc) (simp_all add: z' phases_def)
    moreover have "stored outc z'" using I(3) Bt_queued by (cases outc) (simp_all add: z' stored_def ran_def)
    moreover have "status_true z'"
      using I(4) Bt_queued by (cases outc) (simp_all add: z' status_true_def task_won_def)
    ultimately show ?thesis using g by (simp add: blocking_inv_def)
  next
    case Bt_ran
    with assms(1) have z': "z' = (if b_resumed z then z\<lparr>b_task := Bt_end\<rparr> else z\<lparr>b_resumed := True, b_task := Bt_status\<rparr>)"
      by simp
    have "due_once z'" using I(1) Bt_ran by (simp add: z' due_once_def task_won_def)
    moreover have "phases h z'" using I(2) Bt_ran by (simp add: z' phases_def)
    moreover have "stored outc z'" by (rule stored_cong [OF I(3)]) (simp_all add: z' Bt_ran ran_def)
    moreover have "status_true z'" using I(1,4) Bt_ran by (auto simp: z' status_true_def due_once_def task_won_def)
    ultimately show ?thesis using g by (simp add: blocking_inv_def)
  next
    case Bt_status
    with assms(1) have z': "z' = z\<lparr>b_status := Bl_completed, b_task := Bt_sched\<rparr>" by simp
    have n: "b_sched z = []" "calls_won (b_calls z) = 0"
      using I(1) Bt_status by (auto simp: due_once_def task_won_def split: if_splits)
    have "due_once z'" using I(1) Bt_status by (simp add: z' due_once_def task_won_def)
    moreover have "phases h z'" using I(2) Bt_status by (simp add: z' phases_def)
    moreover have "stored outc z'" by (rule stored_cong [OF I(3)]) (simp_all add: z' Bt_status ran_def)
    moreover have "Bc_sched \<notin> set (b_calls z)" using n(2) calls_won_pos [of Bc_sched] by fastforce
    then have "status_true z'" using I(4) n(1) by (simp add: z' status_true_def)
    ultimately show ?thesis using g by (simp add: blocking_inv_def)
  next
    case Bt_sched
    with assms(1) have z': "z' = z\<lparr>b_sched := b_sched z @ [b_handle z], b_task := Bt_end\<rparr>" by simp
    have r: "b_resumed z" using I(1) Bt_sched by (auto simp: due_once_def task_won_def split: if_splits)
    have hd: "b_handle z = h" using I(2) Bt_sched by (auto simp: phases_def)
    have "due_once z'" using I(1) Bt_sched by (simp add: z' due_once_def task_won_def)
    moreover have "phases h z'" using I(2) Bt_sched hd by (simp add: z' phases_def)
    moreover have "stored outc z'" by (rule stored_cong [OF I(3)]) (simp_all add: z' Bt_sched ran_def)
    moreover have "status_true z'" using I(4) Bt_sched r by (simp add: z' status_true_def task_won_def)
    ultimately show ?thesis using g by (simp add: blocking_inv_def)
  qed (use assms in simp_all)
qed

lemma callback_inv:
  assumes "i < length (b_calls z)" "callback_step i (b_calls z ! i) z = Some z'" "blocking_inv h outc z"
  shows "blocking_inv h outc z'"
proof -
  from assms(3) have I: "due_once z" "phases h z" "stored outc z" "status_true z" "got_true outc z"
    by (simp_all add: blocking_inv_def)
  have ne: "b_calls z \<noteq> []" using assms(1) by auto
  then have hd: "b_handle z = h" "b_suspend z \<noteq> Bs_handle" "b_suspend z \<noteq> Bs_register"
    using I(2) by (auto simp: phases_def)
  have mem: "b_calls z ! i \<in> set (b_calls z)" using assms(1) by simp
  have sub: "set ((b_calls z)[i := pc]) \<subseteq> insert pc (set (b_calls z))" for pc by (rule set_update_subset_insert)
  note won = calls_won_update [OF assms(1)]
  show ?thesis
  proof (cases "b_calls z ! i")
    case Bc_cas
    with assms(2) have z': "z' = (if b_resumed z then z\<lparr>b_calls := (b_calls z)[i := Bc_end]\<rparr>
           else z\<lparr>b_resumed := True, b_calls := (b_calls z)[i := Bc_status]\<rparr>)" by simp
    have "due_once z'" using I(1) won [of Bc_end] won [of Bc_status] Bc_cas by (simp add: z' due_once_def)
    moreover have "phases h z'" using I(2) hd by (simp add: z' phases_def)
    moreover have "stored outc z'" by (rule stored_cong [OF I(3)]) (simp_all add: z')
    moreover have "status_true z'" using I(4) ne sub [of Bc_end] sub [of Bc_status]
      by (auto simp: z' status_true_def)
    moreover have "got_true outc z'" by (rule got_mono [OF I(5)]) (simp_all add: z')
    ultimately show ?thesis by (simp add: blocking_inv_def)
  next
    case Bc_status
    with assms(2) have z': "z' = z\<lparr>b_status := Bl_cancelled, b_calls := (b_calls z)[i := Bc_sched]\<rparr>" by simp
    have "0 < calls_won (b_calls z)" using calls_won_pos [OF mem] Bc_status by simp
    then have pos: "0 < calls_won (b_calls z)" .
    moreover have "length (b_sched z) + task_won (b_task z) + calls_won (b_calls z) \<le> 1"
      using I(1) by (simp add: due_once_def split: if_splits)
    ultimately have "task_won (b_task z) = 0" "length (b_sched z) = 0" by linarith+
    moreover have "b_resumed z"
    proof (rule ccontr)
      assume "\<not> b_resumed z"
      then have "calls_won (b_calls z) = 0" using I(1) by (simp add: due_once_def)
      with pos show False by simp
    qed
    ultimately have n: "b_resumed z" "task_won (b_task z) = 0" "b_sched z = []" by simp_all
    have "due_once z'" using I(1) won [of Bc_sched] Bc_status by (simp add: z' due_once_def)
    moreover have "phases h z'" using I(2) hd by (simp add: z' phases_def)
    moreover have "stored outc z'" by (rule stored_cong [OF I(3)]) (simp_all add: z')
    moreover have "status_true z'" using I(4) ne n by (simp add: z' status_true_def)
    moreover have "got_true outc z'" by (rule got_mono [OF I(5)]) (simp_all add: z')
    ultimately show ?thesis by (simp add: blocking_inv_def)
  next
    case Bc_sched
    with assms(2) have z': "z' = z\<lparr>b_sched := b_sched z @ [b_handle z], b_calls := (b_calls z)[i := Bc_end]\<rparr>" by simp
    have st: "b_status z = Bl_cancelled" using I(4) mem Bc_sched by (simp add: status_true_def)
    have "due_once z'" using I(1) won [of Bc_end] Bc_sched by (simp add: z' due_once_def)
    moreover have "phases h z'" using I(2) hd by (simp add: z' phases_def)
    moreover have "stored outc z'" by (rule stored_cong [OF I(3)]) (simp_all add: z')
    moreover have "status_true z'" using I(4) ne st by (simp add: z' status_true_def)
    moreover have "got_true outc z'" by (rule got_mono [OF I(5)]) (simp_all add: z')
    ultimately show ?thesis by (simp add: blocking_inv_def)
  qed (use assms in simp)
qed

lemma set_cancel_inv:
  assumes "blocking_inv h outc z" "b_token z"
    and "b_suspend z = Bs_handle \<or> b_suspend z = Bs_register \<Longrightarrow> callbacks cs = [] \<and> invoked cs = invoked (b_cancel z)"
    and "cancelled (b_cancel z) \<Longrightarrow> cancelled cs"
    and "length (invoked cs) \<noteq> length (invoked (b_cancel z)) \<Longrightarrow> cancelled cs"
    and "length (invoked (b_cancel z)) \<le> length (invoked cs)"
  shows "blocking_inv h outc (set_cancel_state cs z)"
proof -
  from assms(1) have I: "due_once z" "phases h z" "stored outc z" "status_true z" "got_true outc z"
    by (simp_all add: blocking_inv_def)
  have "due_once (set_cancel_state cs z)" using I(1) by (simp add: due_once_def)
  moreover have "phases h (set_cancel_state cs z)" using I(2) assms(3) by (auto simp: phases_def)
  moreover have "stored outc (set_cancel_state cs z)" by (rule stored_cong [OF I(3)]) simp_all
  moreover have "status_true (set_cancel_state cs z)"
    by (rule status_new_calls [OF I(4) assms(2) _ assms(4-6)]) (use I(2) in \<open>auto simp: phases_def\<close>)
  moreover have "got_true outc (set_cancel_state cs z)" by (rule got_mono [OF I(5)]) (simp_all add: assms(4))
  ultimately show ?thesis by (simp add: blocking_inv_def)
qed

lemma unregister_callbacks: "callbacks s = [] \<Longrightarrow> callback_ids s = [] \<Longrightarrow> callbacks (unregister_callback cid s) = []"
  by (simp add: unregister_callback_def erase_from.simps)

lemma resume_inv:
  assumes "resume_step (b_coro z) z = Some z'" "blocking_inv h outc z"
  shows "blocking_inv h outc z'"
proof -
  from assms(2) have I: "due_once z" "phases h z" "stored outc z" "status_true z" "got_true outc z"
    by (simp_all add: blocking_inv_def)
  have coro: "blocking_inv h outc (y\<lparr>b_coro := c\<rparr>)"
    if "blocking_inv h outc y" "got_true outc (y\<lparr>b_coro := c\<rparr>)" for y c
  proof -
    have "due_once (y\<lparr>b_coro := c\<rparr>)" using that(1) by (simp add: blocking_inv_def due_once_def)
    moreover have "phases h (y\<lparr>b_coro := c\<rparr>)" using that(1) by (simp add: blocking_inv_def phases_def)
    moreover have "stored outc (y\<lparr>b_coro := c\<rparr>)"
      by (rule stored_cong [of outc y]) (use that(1) in \<open>simp_all add: blocking_inv_def\<close>)
    moreover have "status_true (y\<lparr>b_coro := c\<rparr>)"
      by (rule status_cong [of y]) (use that(1) in \<open>simp_all add: blocking_inv_def\<close>)
    ultimately show ?thesis using that(2) by (simp add: blocking_inv_def)
  qed
  show ?thesis
  proof (cases "b_coro z")
    case Br_suspended
    with assms(1) have z': "b_sched z \<noteq> []" "z' = z\<lparr>b_coro := Br_unregister\<rparr>" by (auto split: if_splits)
    show ?thesis unfolding z'(2) by (rule coro [OF assms(2)]) (simp add: got_true_def z'(1))
  next
    case Br_unregister
    let ?y = "if b_token z \<and> b_callback_id z \<noteq> 0
            then set_cancel_state (unregister_callback (b_callback_id z) (b_cancel z)) z else z"
    have z': "z' = ?y\<lparr>b_coro := Br_read\<rparr>" using assms(1) Br_unregister by simp
    have s: "b_sched z \<noteq> []" using I(5) Br_unregister by (simp add: got_true_def)
    then have "b_suspend z \<noteq> Bs_handle \<and> b_suspend z \<noteq> Bs_register"
      using I(1,2,4) by (cases "b_status z") (auto simp: phases_def status_true_def)
    then have "blocking_inv h outc ?y" using assms(2) by (auto intro!: set_cancel_inv)
    then show ?thesis unfolding z' by (rule coro) (use s in \<open>simp add: got_true_def\<close>)
  next
    case Br_read
    with assms(1) have z': "z' = z\<lparr>b_coro := Br_got \<lparr>br_status = b_status z, br_value = b_result z,
      br_exception = b_exception z\<rparr>\<rparr>" by simp
    have s: "b_sched z \<noteq> []" using I(5) Br_read by (simp add: got_true_def)
    have ex: "b_exception z \<noteq> None \<longrightarrow> b_exception z = (case outc of Inl e \<Rightarrow> Some e | Inr r \<Rightarrow> None)"
      using I(3) by (auto simp: stored_def split: if_splits)
    have "if b_status z = Bl_completed
        then b_result z = (case outc of Inr r \<Rightarrow> Some r | Inl e \<Rightarrow> None)
           \<and> b_exception z = (case outc of Inl e \<Rightarrow> Some e | Inr r \<Rightarrow> None)
        else b_token z \<and> cancelled (b_cancel z)"
    proof (cases "b_status z")
      case Bl_completed
      then have "b_task z = Bt_end" using I(4) s by (simp add: status_true_def)
      with Bl_completed I(3) show ?thesis by (simp add: stored_def ran_def)
    next
      case Bl_cancelled
      with I(4) show ?thesis by (simp add: status_true_def)
    qed
    with s ex have "got_true outc z'" by (simp add: z' got_true_def)
    then show ?thesis unfolding z' by (rule coro [OF assms(2)])
  next
    case (Br_got b)
    with assms(1) show ?thesis by simp
  qed
qed

lemma blocking_inv_step:
  assumes "blocking_step h outc z z'" "blocking_inv h outc z"
  shows "blocking_inv h outc z'"
  using assms(1)
proof cases
  case suspend
  then show ?thesis using assms(2) by (rule suspend_inv)
next
  case task
  then show ?thesis using assms(2) by (rule task_inv)
next
  case (callback i)
  then show ?thesis using assms(2) by (rule callback_inv)
next
  case resume
  then show ?thesis using assms(2) by (rule resume_inv)
next
  case (cancel cs)
  note e = cancel_invokes [OF cancel(3)]
  show ?thesis unfolding cancel(1)
    by (rule set_cancel_inv [OF assms(2) cancel(2)]) (use e assms(2) in \<open>auto simp: blocking_inv_def phases_def split: if_splits\<close>)
qed

lemma blocking_inv_reach:
  assumes "blocking_reach h outc (blocking_init tok cs) z" "callbacks cs = []"
  shows "blocking_inv h outc z"
  using assms(1)
proof induction
  case start
  show ?case using assms(2)
    by (simp add: blocking_inv_def blocking_init_def due_once_def phases_def stored_def status_true_def
        got_true_def task_won_def ran_def)
next
  case (step y y')
  from step.hyps(2) step.IH show ?case by (rule blocking_inv_step)
qed

text \<open>No party but a cancellation can make a step.\<close>

definition blocking_stuck :: "coro \<Rightarrow> 'e + 'r \<Rightarrow> ('e, 'r) blocking_sys \<Rightarrow> bool" where
  "blocking_stuck h outc z \<longleftrightarrow> suspend_step h (b_suspend z) z = None \<and> task_step outc (b_task z) z = None
     \<and> (\<forall>i < length (b_calls z). callback_step i (b_calls z ! i) z = None) \<and> resume_step (b_coro z) z = None"

lemma suspend_step_None: "suspend_step h pc z = None \<longleftrightarrow> pc = Bs_end"
  by (cases pc) (auto split: prod.splits)

lemma task_step_None: "task_step outc pc z = None \<longleftrightarrow> pc = Bt_none \<or> pc = Bt_end"
  by (cases pc) auto

lemma callback_step_None: "callback_step i pc z = None \<longleftrightarrow> pc = Bc_end"
  by (cases pc) auto

lemma resume_step_None:
  "resume_step pc z = None \<longleftrightarrow> (pc = Br_suspended \<and> b_sched z = []) \<or> (\<exists>b. pc = Br_got b)"
  by (cases pc) auto

lemma blocking_stuck_ended:
  assumes "blocking_inv h outc z" "blocking_stuck h outc z"
  shows "b_suspend z = Bs_end \<and> b_task z = Bt_end \<and> b_sched z = [h] \<and> (\<exists>b. b_coro z = Br_got b)"
proof -
  have s: "b_suspend z = Bs_end" using assms(2) by (simp add: blocking_stuck_def suspend_step_None)
  then have "b_task z \<noteq> Bt_none" using assms(1) by (simp add: blocking_inv_def phases_def)
  then have t: "b_task z = Bt_end" using assms(2) by (simp add: blocking_stuck_def task_step_None)
  have "\<forall>pc \<in> set (b_calls z). pc = Bc_end"
    using assms(2) by (simp add: blocking_stuck_def callback_step_None all_set_conv_all_nth)
  then have "calls_won (b_calls z) = 0" by (auto simp: calls_won_def filter_empty_conv)
  moreover have "b_resumed z" using assms(1) t by (simp add: blocking_inv_def status_true_def)
  ultimately have "length (b_sched z) = 1"
    using assms(1) t by (simp add: blocking_inv_def due_once_def task_won_def)
  moreover have "set (b_sched z) \<subseteq> {h}" using assms(1) by (simp add: blocking_inv_def phases_def)
  ultimately have "b_sched z = [h]" by (cases "b_sched z") auto
  with s t assms(2) show ?thesis by (simp add: blocking_stuck_def resume_step_None)
qed

section \<open>Properties\<close>

text \<open>
  The plain awaiter returns what the callable did: after the task, which schedules the
  coroutine it was suspended for, the resumption rethrows the exception or returns the
  value, and never reads an empty result.
\<close>

theorem callable_returns_outcome:
  "case callable_task outc (callable_suspend h new_callable_awaiter) of
     (c, scheduled) \<Rightarrow> scheduled = h \<and> ca_done c \<and> callable_resume c = Some outc"
  by (cases outc) (simp_all add: callable_task_def callable_suspend_def new_callable_awaiter_def
      callable_resume_def Let_def)

text \<open>
  C9. A cancellable call resumes its coroutine once.  In every interleaving of its suspending, of
  the task, of cancellations, of the callback's calls and of the coroutine itself, the
  coroutine is scheduled at most once; and a state in which none of them can go on (whether
  or not the token was cancelled) has the callable run, the coroutine scheduled exactly
  once and its result read.
\<close>

theorem blocking_resumed_once:
  assumes "blocking_reach h outc (blocking_init tok cs) z" "callbacks cs = []"
  shows "(b_sched z = [] \<or> b_sched z = [h])
    \<and> (blocking_stuck h outc z \<longrightarrow> b_suspend z = Bs_end \<and> b_task z = Bt_end \<and> b_sched z = [h]
        \<and> (\<exists>b. b_coro z = Br_got b))"
proof -
  note inv = blocking_inv_reach [OF assms]
  then have I: "due_once z" "phases h z" by (simp_all add: blocking_inv_def)
  have "length (b_sched z) \<le> 1" "set (b_sched z) \<subseteq> {h}"
    using I by (auto simp: due_once_def phases_def split: if_splits)
  then have "b_sched z = [] \<or> b_sched z = [h]" by (cases "b_sched z") auto
  with blocking_stuck_ended [OF inv] show ?thesis by blast
qed

text \<open>
  C40. What the coroutine gets.  A completed call has exactly what the callable did, so \<open>get\<close>
  returns its value or rethrows its exception and never throws \<open>cancelled_exception\<close>; a
  cancelled one has a cancelled token, and \<open>get\<close> throws: \<open>cancelled_exception\<close>, unless the
  callable has already thrown, and then its exception.
\<close>

theorem blocking_result_true:
  assumes "blocking_reach h outc (blocking_init tok cs) z" "callbacks cs = []" "b_coro z = Br_got b"
  shows "if br_status b = Bl_completed
    then blocking_get b = Some (case outc of Inr r \<Rightarrow> Inr r | Inl e \<Rightarrow> Inl (Inl e))
    else b_token z \<and> cancelled (b_cancel z)
      \<and> (blocking_get b = Some (Inl (Inr Cancelled_exception))
         \<or> (\<exists>e. outc = Inl e \<and> blocking_get b = Some (Inl (Inl e))))"
proof -
  have g: "got_true outc z" using blocking_inv_reach [OF assms(1,2)] by (simp add: blocking_inv_def)
  show ?thesis
  proof (cases "br_status b")
    case Bl_completed
    then have "br_value b = (case outc of Inr r \<Rightarrow> Some r | Inl e \<Rightarrow> None)"
      "br_exception b = (case outc of Inl e \<Rightarrow> Some e | Inr r \<Rightarrow> None)"
      using g assms(3) by (simp_all add: got_true_def)
    with Bl_completed show ?thesis by (cases outc) (simp_all add: blocking_get_def)
  next
    case Bl_cancelled
    then have c: "b_token z \<and> cancelled (b_cancel z)"
      "br_exception b \<noteq> None \<longrightarrow> br_exception b = (case outc of Inl e \<Rightarrow> Some e | Inr r \<Rightarrow> None)"
      using g assms(3) by (simp_all add: got_true_def)
    show ?thesis
    proof (cases "br_exception b")
      case None
      with c(1) Bl_cancelled show ?thesis by (simp add: blocking_get_def)
    next
      case (Some e)
      with c(2) have "outc = Inl e" by (cases outc) simp_all
      with c(1) Some Bl_cancelled show ?thesis by (simp add: blocking_get_def)
    qed
  qed
qed

section \<open>Paths\<close>

lemma blocking_suspend:
  "blocking_reach h outc z0 z \<Longrightarrow> suspend_step h (b_suspend z) z = Some z' \<Longrightarrow> blocking_reach h outc z0 z'"
  by (rule blocking_reach.step [OF _ blocking_step.suspend])

lemma blocking_task:
  "blocking_reach h outc z0 z \<Longrightarrow> task_step outc (b_task z) z = Some z' \<Longrightarrow> blocking_reach h outc z0 z'"
  by (rule blocking_reach.step [OF _ blocking_step.task])

lemma blocking_call:
  "blocking_reach h outc z0 z \<Longrightarrow> i < length (b_calls z) \<Longrightarrow> callback_step i (b_calls z ! i) z = Some z' \<Longrightarrow>
   blocking_reach h outc z0 z'"
  by (rule blocking_reach.step [OF _ blocking_step.callback])

lemma blocking_resume:
  "blocking_reach h outc z0 z \<Longrightarrow> resume_step (b_coro z) z = Some z' \<Longrightarrow> blocking_reach h outc z0 z'"
  by (rule blocking_reach.step [OF _ blocking_step.resume])

text \<open>
  With a token that is cancelled already: registering calls the callback, which wins the flag
  and schedules the coroutine.
\<close>

definition early_resumed :: "coro \<Rightarrow> unit cancellation_state \<Rightarrow> ('e, 'r) blocking_sys" where
  "early_resumed h cs =
     (blocking_init True cs)\<lparr>b_resumed := True, b_handle := h, b_status := Bl_cancelled,
       b_cancel := invoke () cs, b_sched := [h], b_suspend := Bs_id 0, b_calls := [Bc_end]\<rparr>"

lemma early_resumed_reach:
  fixes outc :: "'e + 'r"
  assumes "cancelled cs"
  shows "blocking_reach h outc (blocking_init True cs) (early_resumed h cs)"
proof -
  let ?z0 = "blocking_init True cs :: ('e, 'r) blocking_sys"
  let ?z1 = "?z0\<lparr>b_handle := h, b_suspend := Bs_register\<rparr>"
  let ?z2 = "?z1\<lparr>b_cancel := invoke () cs, b_calls := [Bc_cas], b_suspend := Bs_id 0\<rparr>"
  have "blocking_reach h outc ?z0 ?z1"
    by (rule blocking_suspend [OF blocking_reach.start]) (simp add: blocking_init_def)
  then have "blocking_reach h outc ?z0 ?z2"
    by (rule blocking_suspend) (use assms in \<open>simp add: blocking_init_def register_callback_def set_cancel_state_def invoke_def\<close>)
  then have "blocking_reach h outc ?z0 (?z2\<lparr>b_resumed := True, b_calls := [Bc_status]\<rparr>)"
    by (rule blocking_call [where i = 0]) (simp_all add: blocking_init_def)
  then have "blocking_reach h outc ?z0 (?z2\<lparr>b_resumed := True, b_status := Bl_cancelled, b_calls := [Bc_sched]\<rparr>)"
    by (rule blocking_call [where i = 0]) (simp_all add: blocking_init_def)
  then show ?thesis
    by (rule blocking_call [where i = 0]) (simp_all add: blocking_init_def early_resumed_def)
qed

text \<open>
  The awaiter is used after its coroutine has gone on: with a token that is cancelled already
  the coroutine can be resumed, read its result and leave the awaiter while \<open>await_suspend\<close>
  has still to store the callback id in it and to copy its callable.
\<close>

theorem blocking_late_suspend:
  fixes outc :: "'e + 'r"
  assumes "cancelled cs"
  shows "\<exists>z b. blocking_reach h outc (blocking_init True cs) z \<and> b_coro z = Br_got b
    \<and> br_status b = Bl_cancelled \<and> b_suspend z = Bs_id 0 \<and> b_task z = Bt_none"
proof -
  let ?z = "early_resumed h cs :: ('e, 'r) blocking_sys"
  have "blocking_reach h outc (blocking_init True cs) (?z\<lparr>b_coro := Br_unregister\<rparr>)"
    by (rule blocking_resume [OF early_resumed_reach [OF assms]]) (simp add: early_resumed_def blocking_init_def)
  then have "blocking_reach h outc (blocking_init True cs) (?z\<lparr>b_coro := Br_read\<rparr>)"
    by (rule blocking_resume) (simp add: early_resumed_def blocking_init_def)
  then have "blocking_reach h outc (blocking_init True cs) (?z\<lparr>b_coro := Br_got \<lparr>br_status = Bl_cancelled,
      br_value = None, br_exception = None\<rparr>\<rparr>)"
    by (rule blocking_resume) (simp add: early_resumed_def blocking_init_def)
  then show ?thesis
    by (rule exI [of _ "?z\<lparr>b_coro := Br_got \<lparr>br_status = Bl_cancelled, br_value = None, br_exception = None\<rparr>\<rparr>",
          OF exI [of _ "\<lparr>br_status = Bl_cancelled, br_value = None, br_exception = None\<rparr>"], OF conjI])
      (simp add: early_resumed_def blocking_init_def)
qed

text \<open>A cancelled call may still rethrow: the task ends with an exception before the result is read.\<close>

theorem cancelled_call_rethrows:
  fixes e :: 'e
  assumes "cancelled cs"
  shows "\<exists>z b. blocking_reach h (Inl e :: 'e + 'r) (blocking_init True cs) z \<and> b_coro z = Br_got b
    \<and> br_status b = Bl_cancelled \<and> blocking_get b = Some (Inl (Inl e))"
proof -
  let ?z = "early_resumed h cs :: ('e, 'r) blocking_sys"
  let ?R = "blocking_reach h (Inl e :: 'e + 'r) (blocking_init True cs)"
  have "?R (?z\<lparr>b_suspend := Bs_task\<rparr>)"
    by (rule blocking_suspend [OF early_resumed_reach [OF assms]]) (simp add: early_resumed_def blocking_init_def)
  then have "?R (?z\<lparr>b_suspend := Bs_end, b_task := Bt_queued\<rparr>)"
    by (rule blocking_suspend) (simp add: early_resumed_def blocking_init_def)
  then have "?R (?z\<lparr>b_exception := Some e, b_suspend := Bs_end, b_task := Bt_ran\<rparr>)"
    by (rule blocking_task) (simp add: early_resumed_def blocking_init_def)
  then have "?R (?z\<lparr>b_exception := Some e, b_suspend := Bs_end, b_task := Bt_ran, b_coro := Br_unregister\<rparr>)"
    by (rule blocking_resume) (simp add: early_resumed_def blocking_init_def)
  then have "?R (?z\<lparr>b_exception := Some e, b_suspend := Bs_end, b_task := Bt_ran, b_coro := Br_read\<rparr>)"
    by (rule blocking_resume) (simp add: early_resumed_def blocking_init_def)
  then have "?R (?z\<lparr>b_exception := Some e, b_suspend := Bs_end, b_task := Bt_ran,
      b_coro := Br_got \<lparr>br_status = Bl_cancelled, br_value = None, br_exception = Some e\<rparr>\<rparr>)"
    by (rule blocking_resume) (simp add: early_resumed_def blocking_init_def)
  then show ?thesis
    by (rule exI [of _ "?z\<lparr>b_exception := Some e, b_suspend := Bs_end, b_task := Bt_ran,
          b_coro := Br_got \<lparr>br_status = Bl_cancelled, br_value = None, br_exception = Some e\<rparr>\<rparr>",
          OF exI [of _ "\<lparr>br_status = Bl_cancelled, br_value = None, br_exception = Some e\<rparr>"], OF conjI])
      (simp add: early_resumed_def blocking_init_def blocking_get_def)
qed

section \<open>Witnesses\<close>

definition fresh_state :: "unit cancellation_state" where "fresh_state = new_cancellation_state sample_mem"

definition completed_call :: "(nat, nat) blocking_sys" where
  "completed_call =
     (blocking_init False fresh_state)\<lparr>b_resumed := True, b_handle := 7, b_result := Some 5, b_sched := [7],
       b_suspend := Bs_end, b_task := Bt_end,
       b_coro := Br_got \<lparr>br_status = Bl_completed, br_value = Some 5, br_exception = None\<rparr>\<rparr>"

lemma completed_call_reach: "blocking_reach 7 (Inr 5) (blocking_init False fresh_state) completed_call"
proof -
  let ?z0 = "blocking_init False fresh_state :: (nat, nat) blocking_sys"
  let ?R = "blocking_reach 7 (Inr 5) ?z0"
  have "?R (?z0\<lparr>b_handle := 7, b_suspend := Bs_register\<rparr>)"
    by (rule blocking_suspend [OF blocking_reach.start]) (simp add: blocking_init_def)
  then have "?R (?z0\<lparr>b_handle := 7, b_suspend := Bs_task\<rparr>)"
    by (rule blocking_suspend) (simp add: blocking_init_def)
  then have "?R (?z0\<lparr>b_handle := 7, b_suspend := Bs_end, b_task := Bt_queued\<rparr>)"
    by (rule blocking_suspend) (simp add: blocking_init_def)
  then have "?R (?z0\<lparr>b_handle := 7, b_result := Some 5, b_suspend := Bs_end, b_task := Bt_ran\<rparr>)"
    by (rule blocking_task) (simp add: blocking_init_def)
  then have "?R (?z0\<lparr>b_resumed := True, b_handle := 7, b_result := Some 5, b_suspend := Bs_end, b_task := Bt_status\<rparr>)"
    by (rule blocking_task) (simp add: blocking_init_def)
  then have "?R (?z0\<lparr>b_resumed := True, b_handle := 7, b_result := Some 5, b_suspend := Bs_end, b_task := Bt_sched\<rparr>)"
    by (rule blocking_task) (simp add: blocking_init_def)
  then have "?R (?z0\<lparr>b_resumed := True, b_handle := 7, b_result := Some 5, b_sched := [7], b_suspend := Bs_end, b_task := Bt_end\<rparr>)"
    by (rule blocking_task) (simp add: blocking_init_def)
  then have "?R (completed_call\<lparr>b_coro := Br_unregister\<rparr>)"
    by (rule blocking_resume) (simp add: blocking_init_def completed_call_def)
  then have "?R (completed_call\<lparr>b_coro := Br_read\<rparr>)"
    by (rule blocking_resume) (simp add: blocking_init_def completed_call_def)
  then show ?thesis
    by (rule blocking_resume) (simp add: blocking_init_def completed_call_def)
qed

lemma fresh_state_callbacks: "callbacks fresh_state = []"
  by (simp add: fresh_state_def new_cancellation_state_def)

lemma blocking_resumed_once_witness: "b_sched completed_call = [] \<or> b_sched completed_call = [7]"
  using blocking_resumed_once [OF completed_call_reach fresh_state_callbacks] by blast

lemma blocking_result_true_witness:
  "blocking_get \<lparr>br_status = Bl_completed, br_value = Some (5 :: nat), br_exception = (None :: nat option)\<rparr> = Some (Inr 5)"
  using blocking_result_true [OF completed_call_reach fresh_state_callbacks,
      of "\<lparr>br_status = Bl_completed, br_value = Some 5, br_exception = None\<rparr>"]
  by (simp add: completed_call_def)

lemma blocking_late_suspend_witness:
  "\<exists>z :: (nat, nat) blocking_sys. b_suspend z = Bs_id 0 \<and> (\<exists>b. b_coro z = Br_got b)"
proof -
  have "cancelled (fresh_state\<lparr>cancelled := True\<rparr>)" by simp
  from blocking_late_suspend [OF this, where h = 7 and outc = "Inr 5 :: nat + nat"] show ?thesis by blast
qed

lemma cancelled_call_rethrows_witness:
  "\<exists>b :: (nat, nat) blocking_result. br_status b = Bl_cancelled \<and> blocking_get b = Some (Inl (Inl 3))"
proof -
  have "cancelled (fresh_state\<lparr>cancelled := True\<rparr>)" by simp
  from cancelled_call_rethrows [OF this, where h = 7 and e = "3 :: nat" and ?'r = nat] show ?thesis by blast
qed

end
