(* ===== verification/Runtime.thy ===== *)
theory Runtime
  imports CoroTask BlockingCall "HOL-Library.Sublist"
begin

text \<open>
  The runtime's interface (\<open>async_runtime\<close>, \<open>when_all\<close>, \<open>when_any\<close> of
  \<open>include/async_runtime.hpp\<close>, \<open>add_coro\<close> of \<open>include/task_scheduler.hpp\<close> and \<open>yield\<close> of
  \<open>include/yield.hpp\<close>).  Tasks are the objects of \<open>CoroTask\<close>; what a task ends with, an
  exception or a value, is looked up by the address of its shared state.
\<close>

section \<open>Running and submitting a task\<close>

text \<open>
  \<open>get\<close> and \<open>run\<close>: the task, the handles scheduled, and the blocking \<open>get\<close> of the shared
  state.
\<close>

definition start_list :: "coro_task \<Rightarrow> coro_task \<times> coro list" where
  "start_list t = (case start False t of (t', b) \<Rightarrow> (t', if b then [ct_handle t] else []))"

definition task_get ::
  "('v \<Rightarrow> 'v) \<Rightarrow> coro_task \<Rightarrow> ('v, 'e) coro_shared_state \<Rightarrow> coro_task \<times> coro list \<times> ('v, 'e) task_outcome" where
  "task_get moved t s = (case start_list t of (t', hs) \<Rightarrow> (t', hs, sh_get moved s))"

definition run_task ::
  "('v \<Rightarrow> 'v) \<Rightarrow> coro_task \<Rightarrow> ('v, 'e) coro_shared_state \<Rightarrow> coro_task \<times> coro list \<times> ('v, 'e) task_outcome" where
  "run_task moved t s =
     (case start_list t of (t', hs) \<Rightarrow> (case task_get moved t' s of (t'', hs', r) \<Rightarrow> (t'', hs @ hs', r)))"

text \<open>
  \<open>add_coro\<close> of a task: \<open>start\<close>, then a move into the result.  \<open>None\<close> is the failed
  assertion of the move.
\<close>

definition add_coro :: "coro_task \<Rightarrow> (coro_task \<times> coro list) option" where
  "add_coro t =
     (case start_list t of (t', hs) \<Rightarrow>
        (case move_construct t' of Some (u, other, ds) \<Rightarrow> Some (u, hs) | None \<Rightarrow> None))"

definition yield_suspend :: "coro \<Rightarrow> async_mem \<Rightarrow> async_mem" where
  "yield_suspend h w = schedule_call h w"

section \<open>Detached tasks\<close>

text \<open>
  The checks in \<open>detached_tasks_\<close>: each holds a task, or nothing after it has said so.
  \<open>None\<close>: a null pointer is used.  \<open>rd\<close> tells which tasks are ready.
\<close>

definition check_detached :: "(nat \<Rightarrow> bool) \<Rightarrow> nat option \<Rightarrow> (bool \<times> nat option) option" where
  "check_detached rd c =
     (case c of None \<Rightarrow> None | Some t \<Rightarrow> Some (if rd t then (True, None) else (False, Some t)))"

text \<open>\<open>remove_if\<close> calls each check once, in order, and keeps those that say no.\<close>

fun collect_detached :: "(nat \<Rightarrow> bool) \<Rightarrow> nat option list \<Rightarrow> nat option list option" where
  "collect_detached rd [] = Some []"
| "collect_detached rd (c # cs) =
     (case check_detached rd c of
        None \<Rightarrow> None
      | Some (gone, c') \<Rightarrow> map_option (\<lambda>cs'. if gone then cs' else c' # cs') (collect_detached rd cs))"

definition spawn_detached :: "(nat \<Rightarrow> bool) \<Rightarrow> nat \<Rightarrow> nat option list \<Rightarrow> nat option list option" where
  "spawn_detached rd t cs =
     map_option (\<lambda>cs'. cs' @ [Some t]) (if length cs > 100 then collect_detached rd cs else Some cs)"

datatype detached_op = Spawn nat | Collect

fun detached_step :: "detached_op \<times> (nat \<Rightarrow> bool) \<Rightarrow> nat option list \<Rightarrow> nat option list option" where
  "detached_step (Spawn t, rd) cs = spawn_detached rd t cs"
| "detached_step (Collect, rd) cs = collect_detached rd cs"

fun detached_run :: "(detached_op \<times> (nat \<Rightarrow> bool)) list \<Rightarrow> nat option list \<Rightarrow> nat option list option" where
  "detached_run [] cs = Some cs"
| "detached_run (c # ops) cs = (case detached_step c cs of None \<Rightarrow> None | Some cs' \<Rightarrow> detached_run ops cs')"

section \<open>Waiting for all\<close>

fun start_all :: "coro_task list \<Rightarrow> coro_task list \<times> coro list" where
  "start_all [] = ([], [])"
| "start_all (t # ts) =
     (case start_list t of (t', hs) \<Rightarrow> (case start_all ts of (ts', hs') \<Rightarrow> (t' # ts', hs @ hs')))"

text \<open>The awaits in order; an exception leaves the loop.  The last component: the tasks awaited.\<close>

fun await_all :: "(uintptr \<Rightarrow> 'e + 'v) \<Rightarrow> coro_task list \<Rightarrow> ('e + 'v list) \<times> coro_task list" where
  "await_all outc [] = (Inr [], [])"
| "await_all outc (t # ts) =
     (case outc (ct_state t) of
        Inl e \<Rightarrow> (Inl e, [t])
      | Inr v \<Rightarrow> (case await_all outc ts of
          (Inl e, us) \<Rightarrow> (Inl e, t # us)
        | (Inr vs, us) \<Rightarrow> (Inr (v # vs), t # us)))"

definition when_all ::
  "(uintptr \<Rightarrow> 'e + 'v) \<Rightarrow> coro_task list \<Rightarrow> coro list \<times> ('e + 'v list) \<times> coro_task list" where
  "when_all outc ts = (case start_all ts of (ts', hs) \<Rightarrow> (hs, await_all outc ts'))"

text \<open>
  \<open>when_all_passive\<close>: the waits run on the pool, one after the other, inside a callable whose
  outcome the plain awaiter returns.
\<close>

fun wait_each :: "(uintptr \<Rightarrow> 'e + unit) \<Rightarrow> coro_task list \<Rightarrow> 'e + unit" where
  "wait_each outc [] = Inr ()"
| "wait_each outc (t # ts) = (case outc (ct_state t) of Inl e \<Rightarrow> Inl e | Inr u \<Rightarrow> wait_each outc ts)"

definition when_all_passive ::
  "coro \<Rightarrow> (uintptr \<Rightarrow> 'e + unit) \<Rightarrow> coro_task list \<Rightarrow> coro list \<times> ('e + unit) option" where
  "when_all_passive h outc ts =
     (case start_all ts of (ts', hs) \<Rightarrow>
        (case callable_task (wait_each outc ts') (callable_suspend h new_callable_awaiter) of
           (c, hr) \<Rightarrow> (hs @ [hr], callable_resume c)))"

section \<open>Waiting for any\<close>

datatype any_error = Invalid_argument

text \<open>
  One pass over the tasks: the first one found ready.  \<open>rd r i\<close>: what \<open>is_ready\<close> of task \<open>i\<close>
  gives in round \<open>r\<close>.
\<close>

fun any_scan :: "(nat \<Rightarrow> bool) \<Rightarrow> nat list \<Rightarrow> nat option" where
  "any_scan rd [] = None"
| "any_scan rd (i # is) = (if rd i then Some i else any_scan rd is)"

text \<open>
  The loop, which yields between two passes, for at most \<open>n\<close> rounds from round \<open>r\<close>; the
  result is the index and the number of yields.
\<close>

fun any_loop :: "nat \<Rightarrow> (nat \<Rightarrow> nat \<Rightarrow> bool) \<Rightarrow> nat \<Rightarrow> nat \<Rightarrow> (nat \<times> nat) option" where
  "any_loop 0 rd len r = None"
| "any_loop (Suc n) rd len r =
     (case any_scan (rd r) [0..<len] of
        Some i \<Rightarrow> Some (i, r)
      | None \<Rightarrow> any_loop n rd len (Suc r))"

text \<open>
  \<open>None\<close>: no task was ready in \<open>n\<close> rounds.  The ready task is awaited, which rethrows its
  exception.
\<close>

definition when_any ::
  "nat \<Rightarrow> (nat \<Rightarrow> nat \<Rightarrow> bool) \<Rightarrow> (uintptr \<Rightarrow> 'e + 'v) \<Rightarrow> coro_task list \<Rightarrow>
   (coro list \<times> (any_error + ('e + nat \<times> 'v))) option" where
  "when_any n rd outc ts =
     (if ts = [] then Some ([], Inl Invalid_argument)
      else case start_all ts of (ts', hs) \<Rightarrow>
        (case any_loop n rd (length ts') 0 of
           None \<Rightarrow> None
         | Some (i, yields) \<Rightarrow>
             Some (hs, Inr (case outc (ct_state (ts' ! i)) of Inl e \<Rightarrow> Inl e | Inr v \<Rightarrow> Inr (i, v)))))"

section \<open>Lemmas\<close>

lemma start_list_simp:
  "start_list t = (t\<lparr>ct_started := True\<rparr>, if \<not> ct_started t \<and> ct_handle t \<noteq> 0 then [ct_handle t] else [])"
  by (cases t) (simp add: start_list_def start_def)

text \<open>The handles a list of tasks has still to be scheduled.\<close>

definition to_start :: "coro_task list \<Rightarrow> coro list" where
  "to_start ts = map ct_handle (filter (\<lambda>t. \<not> ct_started t \<and> ct_handle t \<noteq> 0) ts)"

lemma start_all_simp: "start_all ts = (map (\<lambda>t. t\<lparr>ct_started := True\<rparr>) ts, to_start ts)"
  by (induction ts) (simp_all add: start_list_simp to_start_def)

lemma await_all_values:
  assumes "\<forall>t \<in> set ts. outc (ct_state t) = Inr (val t)"
  shows "await_all outc ts = (Inr (map val ts), ts)"
  using assms by (induction ts) simp_all

lemma await_all_throws:
  assumes "\<forall>t \<in> set ts. \<exists>v. outc (ct_state t) = Inr v" "outc (ct_state u) = Inl e"
  shows "await_all outc (ts @ u # us) = (Inl e, ts @ [u])"
  using assms by (induction ts) (auto split: sum.splits)

lemma wait_each_await: "wait_each outc ts = (case await_all outc ts of (Inl e, us) \<Rightarrow> Inl e | (Inr vs, us) \<Rightarrow> Inr ())"
  by (induction ts) (auto split: sum.splits prod.splits)

lemma any_scan_Some:
  "any_scan rd [a..<b] = Some i \<longleftrightarrow> a \<le> i \<and> i < b \<and> rd i \<and> (\<forall>j. a \<le> j \<longrightarrow> j < i \<longrightarrow> \<not> rd j)"
proof (induction "b - a" arbitrary: a)
  case (Suc n)
  then have up: "[a..<b] = a # [Suc a..<b]" by (simp add: upt_conv_Cons)
  show ?case
  proof (cases "rd a")
    case True
    then show ?thesis using Suc.hyps(2) by (auto simp: up le_eq_less_or_eq)
  next
    case False
    have "any_scan rd [Suc a..<b] = Some i \<longleftrightarrow> Suc a \<le> i \<and> i < b \<and> rd i \<and> (\<forall>j. Suc a \<le> j \<longrightarrow> j < i \<longrightarrow> \<not> rd j)"
      by (rule Suc.hyps(1)) (use Suc.hyps(2) in simp)
    with False show ?thesis by (simp add: up) (metis Suc_leD Suc_leI le_neq_implies_less)
  qed
qed auto

lemma any_scan_None: "any_scan rd is = None \<longleftrightarrow> (\<forall>i \<in> set is. \<not> rd i)"
  by (induction "is") auto

lemma any_loop_Some:
  "any_loop n rd len r = Some (i, r') \<Longrightarrow>
   i < len \<and> r \<le> r' \<and> r' < r + n \<and> rd r' i \<and> (\<forall>j < i. \<not> rd r' j) \<and> (\<forall>q. r \<le> q \<longrightarrow> q < r' \<longrightarrow> (\<forall>j < len. \<not> rd q j))"
proof (induction n arbitrary: r)
  case (Suc n)
  show ?case
  proof (cases "any_scan (rd r) [0..<len]")
    case None
    with Suc.prems have "any_loop n rd len (Suc r) = Some (i, r')" by simp
    note ih = Suc.IH [OF this]
    have now: "\<not> rd r j" if "j < len" for j using None that by (simp add: any_scan_None)
    have "\<not> rd q j" if "r \<le> q" "q < r'" "j < len" for q j
      using ih now [OF that(3)] that by (cases "q = r") simp_all
    with ih show ?thesis by simp
  next
    case (Some k)
    with Suc.prems show ?thesis using any_scan_Some [of "rd r" 0 len i] by auto
  qed
qed simp

lemma any_loop_finds: "r \<le> q \<Longrightarrow> q < r + n \<Longrightarrow> i < len \<Longrightarrow> rd q i \<Longrightarrow> any_loop n rd len r \<noteq> None"
proof (induction n arbitrary: r)
  case (Suc n)
  show ?case
  proof (cases "any_scan (rd r) [0..<len]")
    case None
    with Suc.prems have "r \<noteq> q" by (auto simp: any_scan_None)
    with Suc.prems None Suc.IH [of "Suc r"] show ?thesis by simp
  qed simp
qed simp

text \<open>Which tasks a collection keeps.\<close>

lemma collect_detached_simp:
  "collect_detached rd (map Some ts) = Some (map Some (filter (\<lambda>t. \<not> rd t) ts))"
  by (induction ts) (simp_all add: check_detached_def)

lemma spawn_detached_simp:
  "spawn_detached rd t (map Some ts) =
     Some (map Some ((if length ts > 100 then filter (\<lambda>t. \<not> rd t) ts else ts) @ [t]))"
  by (simp add: spawn_detached_def collect_detached_simp)

fun spawned :: "(detached_op \<times> (nat \<Rightarrow> bool)) list \<Rightarrow> nat list" where
  "spawned [] = []"
| "spawned ((Spawn t, rd) # ops) = t # spawned ops"
| "spawned ((Collect, rd) # ops) = spawned ops"

lemma detached_run_kept:
  "\<exists>us. detached_run ops (map Some ts) = Some (map Some us) \<and> subseq us (ts @ spawned ops)
    \<and> (\<forall>t \<in> set (ts @ spawned ops) - set us. \<exists>(c, rd) \<in> set ops. rd t)"
proof (induction ops arbitrary: ts)
  case (Cons c ops)
  obtain a rd where c: "c = (a, rd)" by fastforce
  let ?keep = "case a of Spawn t \<Rightarrow> (if length ts > 100 then filter (\<lambda>t. \<not> rd t) ts else ts) @ [t]
    | Collect \<Rightarrow> filter (\<lambda>t. \<not> rd t) ts"
  have st: "detached_step c (map Some ts) = Some (map Some ?keep)"
    by (cases a) (simp_all add: c spawn_detached_simp collect_detached_simp)
  from Cons.IH [of ?keep] obtain us where us: "detached_run ops (map Some ?keep) = Some (map Some us)"
    "subseq us (?keep @ spawned ops)" "\<forall>t \<in> set (?keep @ spawned ops) - set us. \<exists>(c, rd) \<in> set ops. rd t" by blast
  have "subseq (?keep @ spawned ops) (ts @ spawned (c # ops))"
    by (cases a) (auto simp: c intro: list_emb_append_mono)
  with us(2) have "subseq us (ts @ spawned (c # ops))" by (rule subseq_order.trans)
  moreover have "\<forall>t \<in> set (ts @ spawned (c # ops)) - set us. \<exists>(c, rd) \<in> set (c # ops). rd t"
  proof
    fix t assume t: "t \<in> set (ts @ spawned (c # ops)) - set us"
    show "\<exists>(c, rd) \<in> set (c # ops). rd t"
    proof (cases "t \<in> set (?keep @ spawned ops)")
      case True
      with us(3) t show ?thesis by auto
    next
      case False
      with t have "rd t" by (cases a) (auto simp: c split: if_splits)
      then show ?thesis by (simp add: c)
    qed
  qed
  ultimately show ?case using st us(1) by (intro exI [of _ us]) simp
qed simp

section \<open>Properties\<close>

text \<open>
  Running a task schedules its coroutine once, although both \<open>run\<close> and \<open>get\<close> start it, and
  returns what the blocking \<open>get\<close> of its state does; a task already started is not scheduled
  again.
\<close>

lemma run_schedules_once:
  "run_task moved t s =
     (t\<lparr>ct_started := True\<rparr>, if \<not> ct_started t \<and> ct_handle t \<noteq> 0 then [ct_handle t] else [], sh_get moved s)"
  by (simp add: run_task_def task_get_def start_list_simp)

text \<open>
  \<open>add_coro\<close> never returns where assertions are checked: it starts the task and then moves
  it, and the move of a started task fails its assertion, whatever the task was before.
\<close>

theorem add_coro_asserts:
  "add_coro t = None"
  by (simp add: add_coro_def start_list_simp move_construct_def)

text \<open>
  No detached task is lost: in every run of spawns and collections no null check is used
  again, the tasks kept are tasks spawned, in that order, and a spawned task that is not kept
  was found ready.
\<close>

theorem detached_tasks_kept:
  "\<exists>us. detached_run ops [] = Some (map Some us) \<and> subseq us (spawned ops)
    \<and> (\<forall>t \<in> set (spawned ops) - set us. \<exists>(c, rd) \<in> set ops. rd t)"
  using detached_run_kept [of ops "[]"] by simp

text \<open>
  The list of detached tasks grows past 101 only with tasks that run: after a spawn it has at
  most 101 entries, or all of them but the new one were not ready.
\<close>

theorem detached_list_bounded:
  assumes "spawn_detached rd t (map Some ts) = Some cs"
  shows "length cs \<le> 101 \<or> (\<forall>c \<in> set (butlast cs). \<exists>u. c = Some u \<and> \<not> rd u)"
  using assms by (auto simp: spawn_detached_simp split: if_splits)

text \<open>
  \<open>when_all\<close> starts all tasks, each once and in order, before it awaits any.  If all tasks
  return values, it returns these in the order of the tasks; otherwise it throws what the
  first task in that order that throws has thrown, and awaits no later task.
\<close>

theorem when_all_outcome:
  "fst (when_all outc ts) = to_start ts
   \<and> (if \<forall>t \<in> set ts. \<exists>v. outc (ct_state t) = Inr v
      then fst (snd (when_all outc ts)) = Inr (map (\<lambda>t. projr (outc (ct_state t))) ts)
      else \<exists>us u rest e. ts = us @ u # rest \<and> (\<forall>t \<in> set us. \<exists>v. outc (ct_state t) = Inr v)
        \<and> outc (ct_state u) = Inl e \<and> fst (snd (when_all outc ts)) = Inl e
        \<and> length (snd (snd (when_all outc ts))) = Suc (length us))"
proof -
  let ?st = "\<lambda>t. t\<lparr>ct_started := True\<rparr> :: coro_task"
  have all: "when_all outc ts = (to_start ts, await_all outc (map ?st ts))"
    by (simp add: when_all_def start_all_simp)
  show ?thesis
  proof (cases "\<forall>t \<in> set ts. \<exists>v. outc (ct_state t) = Inr v")
    case True
    then have "\<forall>t \<in> set (map ?st ts). outc (ct_state t) = Inr (projr (outc (ct_state t)))"
      by fastforce
    from await_all_values [OF this] True show ?thesis by (simp add: all comp_def)
  next
    case False
    then have "\<exists>t \<in> set ts. \<not> (\<exists>v. outc (ct_state t) = Inr v)" by blast
    from split_list_first_prop [OF this] obtain us u rest where
      sp: "ts = us @ u # rest" "\<not> (\<exists>v. outc (ct_state u) = Inr v)" "\<forall>t \<in> set us. \<exists>v. outc (ct_state t) = Inr v"
      by blast
    then obtain e where e: "outc (ct_state u) = Inl e" by (cases "outc (ct_state u)") auto
    have "await_all outc (map ?st us @ ?st u # map ?st rest) = (Inl e, map ?st us @ [?st u])"
      by (rule await_all_throws) (use sp(3) e in auto)
    then have r: "await_all outc (map ?st ts) = (Inl e, map ?st us @ [?st u])" by (simp add: sp(1))
    have wa: "when_all outc ts = (to_start ts, Inl e, map ?st us @ [?st u])" by (simp only: all r)
    have "ts = us @ u # rest \<and> (\<forall>t \<in> set us. \<exists>v. outc (ct_state t) = Inr v)
        \<and> outc (ct_state u) = Inl e \<and> fst (snd (when_all outc ts)) = Inl e
        \<and> length (snd (snd (when_all outc ts))) = Suc (length us)"
      unfolding wa using sp(1,3) e by simp
    then have ex: "\<exists>us u rest e. ts = us @ u # rest \<and> (\<forall>t \<in> set us. \<exists>v. outc (ct_state t) = Inr v)
        \<and> outc (ct_state u) = Inl e \<and> fst (snd (when_all outc ts)) = Inl e
        \<and> length (snd (snd (when_all outc ts))) = Suc (length us)"
      by (intro exI)
    have "fst (when_all outc ts) = to_start ts" by (simp only: wa fst_conv)
    then show ?thesis unfolding if_not_P [OF False] using ex by (rule conjI)
  qed
qed

text \<open>
  The passive form agrees: it starts the same tasks, resumes its caller after them, and ends
  as \<open>when_all\<close> does, with a value or with the same exception.
\<close>

theorem when_all_passive_agrees:
  "when_all_passive h outc ts =
     (to_start ts @ [h], Some (case fst (snd (when_all outc ts)) of Inl e \<Rightarrow> Inl e | Inr vs \<Rightarrow> Inr ()))"
proof -
  have o: "callable_task out (callable_suspend h new_callable_awaiter) = (c, hr) \<Longrightarrow>
      hr = h \<and> callable_resume c = Some out" for out :: "'a + unit" and c hr
    by (cases out) (auto simp: callable_task_def callable_suspend_def new_callable_awaiter_def callable_resume_def)
  show ?thesis
    by (auto simp: when_all_passive_def when_all_def start_all_simp wait_each_await dest!: o
        split: prod.splits sum.splits)
qed

text \<open>
  \<open>when_any\<close> refuses an empty list.  Otherwise it starts all tasks, and if it returns an
  index, that task was ready in the round in which it was found, none before it in the list
  was in that round, and none at all in an earlier one; it returns in the first round in
  which some task is ready, and ends with what that task ends with.
\<close>

theorem when_any_first_ready:
  "(ts = [] \<longrightarrow> when_any n rd outc ts = Some ([], Inl Invalid_argument))
   \<and> (ts \<noteq> [] \<longrightarrow> (case when_any n rd outc ts of
        None \<Rightarrow> \<forall>r < n. \<forall>i < length ts. \<not> rd r i
      | Some (hs, res) \<Rightarrow> hs = to_start ts
          \<and> (\<exists>r i. r < n \<and> i < length ts \<and> rd r i \<and> (\<forall>j < i. \<not> rd r j) \<and> (\<forall>q < r. \<forall>j < length ts. \<not> rd q j)
              \<and> res = Inr (case outc (ct_state (ts ! i)) of Inl e \<Rightarrow> Inl e | Inr v \<Rightarrow> Inr (i, v)))))"
proof (cases "any_loop n rd (length ts) 0")
  case None
  then have "\<forall>r < n. \<forall>i < length ts. \<not> rd r i" using any_loop_finds [of 0 _ n _ "length ts" rd] by fastforce
  with None show ?thesis by (simp add: when_any_def start_all_simp)
next
  case (Some ir)
  obtain i r where ir: "ir = (i, r)" by fastforce
  note f = any_loop_Some [OF Some [unfolded ir]]
  show ?thesis
  proof (cases "ts = []")
    case False
    have "when_any n rd outc ts =
        Some (to_start ts, Inr (case outc (ct_state (ts ! i)) of Inl e \<Rightarrow> Inl e | Inr v \<Rightarrow> Inr (i, v)))"
      using Some ir f False by (simp add: when_any_def start_all_simp)
    moreover have "\<exists>r i'. r < n \<and> i' < length ts \<and> rd r i' \<and> (\<forall>j < i'. \<not> rd r j)
        \<and> (\<forall>q < r. \<forall>j < length ts. \<not> rd q j)
        \<and> (case outc (ct_state (ts ! i)) of Inl e \<Rightarrow> Inl e | Inr v \<Rightarrow> Inr (i, v))
          = (case outc (ct_state (ts ! i')) of Inl e \<Rightarrow> Inl e | Inr v \<Rightarrow> Inr (i', v))"
      by (rule exI [of _ r], rule exI [of _ i]) (use f in simp)
    ultimately show ?thesis using False by simp
  qed (simp add: when_any_def)
qed

section \<open>Witnesses\<close>

lemma detached_list_bounded_witness: "length [Some (4 :: nat)] \<le> 101"
proof -
  have "spawn_detached (\<lambda>t. False) 4 (map Some []) = Some [Some 4]"
    using spawn_detached_simp [of "\<lambda>t. False" 4 "[]"] by simp
  from detached_list_bounded [OF this] show ?thesis by simp
qed

lemma detached_tasks_kept_witness:
  "detached_run [(Spawn 1, \<lambda>t. False), (Spawn 2, \<lambda>t. False), (Collect, \<lambda>t. t = 1)] [] = Some [Some 2]"
  using detached_tasks_kept [of "[(Spawn 1, \<lambda>t. False), (Spawn 2, \<lambda>t. False), (Collect, \<lambda>t. t = 1)]"]
  by (simp add: spawn_detached_def check_detached_def)

definition sample_tasks :: "coro_task list" where
  "sample_tasks = [new_coro_task 32 16, new_coro_task 48 24]"

lemma when_all_outcome_witness:
  "fst (snd (when_all (\<lambda>a. Inr a :: nat + uintptr) sample_tasks)) = Inr [16, 24]"
  using when_all_outcome [of "\<lambda>a. Inr a :: nat + uintptr" sample_tasks]
  by (simp add: sample_tasks_def new_coro_task_def)

lemma when_any_first_ready_witness:
  "\<exists>hs. when_any 1 (\<lambda>r i. i = 1) (\<lambda>a. Inr a :: nat + uintptr) sample_tasks = Some (hs, Inr (Inr (1, 24)))"
proof -
  let ?w = "when_any 1 (\<lambda>r i. i = 1) (\<lambda>a. Inr a :: nat + uintptr) sample_tasks"
  have ne: "sample_tasks \<noteq> []" "length sample_tasks = 2" "ct_state (sample_tasks ! 1) = 24"
    by (simp_all add: sample_tasks_def new_coro_task_def)
  have "case ?w of None \<Rightarrow> \<forall>r < (1 :: nat). \<forall>i < length sample_tasks. i \<noteq> 1
      | Some (hs, res) \<Rightarrow> hs = to_start sample_tasks \<and> (\<exists>(r :: nat) i. r < 1 \<and> i < length sample_tasks \<and> i = 1
          \<and> (\<forall>j < i. j \<noteq> 1) \<and> (\<forall>q < r. \<forall>j < length sample_tasks. j \<noteq> 1)
          \<and> res = Inr (case (Inr (ct_state (sample_tasks ! i)) :: nat + uintptr) of Inl e \<Rightarrow> Inl e | Inr v \<Rightarrow> Inr (i, v)))"
    using when_any_first_ready [of sample_tasks 1 "\<lambda>r i. i = 1" "\<lambda>a. Inr a :: nat + uintptr"] ne(1) by simp
  note any = this
  show ?thesis
  proof (cases ?w)
    case None
    with any have "\<forall>i < length sample_tasks. i \<noteq> 1" by simp
    with ne(2) show ?thesis by (metis one_less_numeral_iff semiring_norm(76))
  next
    case (Some hr)
    with any ne show ?thesis by (cases hr) auto
  qed
qed

end
