(* ===== verification/IoUring.thy ===== *)
theory IoUring
  imports WaiterList "HOL-Library.Signed_Division"
begin

text \<open>
  The io_uring service and its operations (\<open>include/io_uring_service.hpp\<close>,
  \<open>src/io_uring_service.cpp\<close>, \<open>include/io_uring_ops.hpp\<close>).  The ring itself belongs to a
  library: what its functions return is an argument of the definitions here, and what they
  are called with is recorded in the order of the calls.
\<close>

section \<open>Completions and calls of the ring\<close>

text \<open>\<open>result\<close> is a C \<open>int\<close>, kept as an integer; a submission entry is its slot in the ring.\<close>

record io_completion =
  io_handle :: coro
  io_result :: int
  io_flags :: "32 word"

definition new_completion :: io_completion where
  "new_completion = \<lparr>io_handle = 0, io_result = 0, io_flags = 0\<rparr>"

type_synonym sqe = nat

record kernel_timespec =
  tv_sec :: int
  tv_nsec :: int

datatype sqe_prep = Prep_nop | Prep_accept int | Prep_recv int uintptr "32 word"
  | Prep_send int uintptr "32 word" | Prep_link_timeout kernel_timespec

text \<open>Data is the address of a completion, 0 for the null pointer.\<close>

datatype ring_call = Take sqe | Prepare sqe sqe_prep | Set_data sqe uintptr | Set_link sqe | Submit

text \<open>The completions by address, the handles given to the scheduler, and the calls of the ring.\<close>

record io_world =
  completions :: "uintptr \<Rightarrow> io_completion"
  io_sched :: "coro list"
  ring_calls :: "ring_call list"

definition ring_does :: "ring_call list \<Rightarrow> io_world \<Rightarrow> io_world" where
  "ring_does cs w = w\<lparr>ring_calls := ring_calls w @ cs\<rparr>"

definition io_schedule :: "coro \<Rightarrow> io_world \<Rightarrow> io_world" where
  "io_schedule h w = w\<lparr>io_sched := io_sched w @ [h]\<rparr>"

definition set_completion :: "uintptr \<Rightarrow> io_completion \<Rightarrow> io_world \<Rightarrow> io_world" where
  "set_completion p c w = w\<lparr>completions := (completions w)(p := c)\<rparr>"

section \<open>The service\<close>

record io_service =
  has_ring :: bool
  io_running :: bool

text \<open>\<open>ret\<close>: what the initialisation of the ring returns.\<close>

definition new_io_service :: "int \<Rightarrow> io_service" where
  "new_io_service ret =
     (if ret < 0 then \<lparr>has_ring = False, io_running = False\<rparr> else \<lparr>has_ring = True, io_running = True\<rparr>)"

text \<open>\<open>ans\<close>: the entry that the ring gives when asked, none if it is full.\<close>

definition get_sqe :: "io_service \<Rightarrow> sqe option \<Rightarrow> io_world \<Rightarrow> sqe option \<times> io_world" where
  "get_sqe svc ans w =
     (if \<not> has_ring svc then (None, w)
      else (ans, case ans of Some e \<Rightarrow> ring_does [Take e] w | None \<Rightarrow> w))"

definition get_sqe_pair ::
  "io_service \<Rightarrow> sqe option \<Rightarrow> sqe option \<Rightarrow> io_world \<Rightarrow> (sqe \<times> sqe) option \<times> io_world" where
  "get_sqe_pair svc ans_a ans_b w =
     (if \<not> has_ring svc then (None, w)
      else let (a, w1) = get_sqe svc ans_a w; (b, w2) = get_sqe svc ans_b w1 in
        (case (a, b) of (Some x, Some y) \<Rightarrow> Some (x, y) | _ \<Rightarrow> None, w2))"

definition submit :: "io_service \<Rightarrow> int \<Rightarrow> io_world \<Rightarrow> int \<times> io_world" where
  "submit svc ret w = (if \<not> has_ring svc then (-1, w) else (ret, ring_does [Submit] w))"

text \<open>
  One round of \<open>run\<close>: \<open>wait\<close> is a negative return of the wait, or a completion event with
  its data, result and flags.  The first component says whether the loop goes on.
\<close>

definition EINTR :: int where "EINTR = 4"

definition ENOMEM :: int where "ENOMEM = 12"

definition reap :: "io_service \<Rightarrow> int + (uintptr \<times> int \<times> 32 word) \<Rightarrow> io_world \<Rightarrow> bool \<times> io_world" where
  "reap svc wait w =
     (if \<not> io_running svc then (False, w)
      else case wait of
          Inl ret \<Rightarrow> (ret = - EINTR, w)
        | Inr (cp, res, flags) \<Rightarrow>
            (True,
             if cp \<noteq> 0
             then let c = (completions w cp)\<lparr>io_result := res, io_flags := flags\<rparr>
                  in io_schedule (io_handle c) (set_completion cp c w)
             else w))"

fun reap_all :: "io_service \<Rightarrow> (int + (uintptr \<times> int \<times> 32 word)) list \<Rightarrow> io_world \<Rightarrow> io_world" where
  "reap_all svc [] w = w"
| "reap_all svc (e # es) w = (case reap svc e w of (go, w') \<Rightarrow> if go then reap_all svc es w' else w')"

text \<open>
  \<open>shutdown\<close>: the calls that wake the completion thread, then the service without its ring.
  \<open>ans\<close>: the entry the ring gives for them.
\<close>

definition shutdown_wake :: "io_service \<Rightarrow> sqe option \<Rightarrow> io_world \<Rightarrow> io_service \<times> io_world" where
  "shutdown_wake svc ans w =
     (if \<not> io_running svc then (svc, w)
      else (svc\<lparr>io_running := False\<rparr>,
        if has_ring svc then
          case ans of
            Some e \<Rightarrow> ring_does [Take e, Prepare e Prep_nop, Set_data e 0, Submit] w
          | None \<Rightarrow> w
        else w))"

definition shutdown_exit :: "io_service \<Rightarrow> io_service" where
  "shutdown_exit svc = svc\<lparr>has_ring := False\<rparr>"

text \<open>The ring of a thread: the one it has used before, its worker's, or the last.\<close>

definition ring_index :: "nat option \<Rightarrow> bool \<Rightarrow> nat \<Rightarrow> nat \<Rightarrow> nat" where
  "ring_index tl_ring is_coro_worker current_coro_worker_id rings =
     (case tl_ring of
        Some i \<Rightarrow> i
      | None \<Rightarrow> if is_coro_worker then current_coro_worker_id else rings - 1)"

definition init_rings :: "nat \<Rightarrow> (nat \<Rightarrow> int) \<Rightarrow> io_service list" where
  "init_rings n rets = map (\<lambda>i. new_io_service (rets i)) [0..<n + 1]"

section \<open>The operations\<close>

text \<open>
  \<open>await_suspend\<close> of \<open>async_accept\<close>, \<open>async_recv\<close> and \<open>async_send\<close>, which differ in how they
  prepare the entry; the completion is at \<open>p\<close>.  \<open>ret\<close> is what submitting returns; nobody
  looks at it.
\<close>

definition io_suspend ::
  "sqe_prep \<Rightarrow> io_service \<Rightarrow> sqe option \<Rightarrow> int \<Rightarrow> uintptr \<Rightarrow> coro \<Rightarrow> io_world \<Rightarrow> io_world" where
  "io_suspend prep svc ans ret p h w =
     (let w1 = set_completion p ((completions w p)\<lparr>io_handle := h\<rparr>) w in
      case get_sqe svc ans w1 of
        (None, w2) \<Rightarrow> io_schedule h (set_completion p ((completions w2 p)\<lparr>io_result := - ENOMEM\<rparr>) w2)
      | (Some e, w2) \<Rightarrow> snd (submit svc ret (ring_does [Prepare e prep, Set_data e p] w2)))"

definition async_accept ::
  "int \<Rightarrow> io_service \<Rightarrow> sqe option \<Rightarrow> int \<Rightarrow> uintptr \<Rightarrow> coro \<Rightarrow> io_world \<Rightarrow> io_world" where
  "async_accept listen_fd = io_suspend (Prep_accept listen_fd)"

definition async_recv ::
  "int \<Rightarrow> uintptr \<Rightarrow> u64 \<Rightarrow> io_service \<Rightarrow> sqe option \<Rightarrow> int \<Rightarrow> uintptr \<Rightarrow> coro \<Rightarrow> io_world \<Rightarrow> io_world" where
  "async_recv fd buf len = io_suspend (Prep_recv fd buf (ucast len))"

definition async_send ::
  "int \<Rightarrow> uintptr \<Rightarrow> u64 \<Rightarrow> io_service \<Rightarrow> sqe option \<Rightarrow> int \<Rightarrow> uintptr \<Rightarrow> coro \<Rightarrow> io_world \<Rightarrow> io_world" where
  "async_send fd buf len = io_suspend (Prep_send fd buf (ucast len))"

definition io_resume :: "uintptr \<Rightarrow> io_world \<Rightarrow> int" where
  "io_resume p w = io_result (completions w p)"

text \<open>The time limit in milliseconds as a time specification.\<close>

definition timespec_of :: "int \<Rightarrow> kernel_timespec" where
  "timespec_of ms = \<lparr>tv_sec = ms sdiv 1000, tv_nsec = (ms smod 1000) * 1000000\<rparr>"

text \<open>\<open>async_send_timeout\<close>: a send at \<open>p\<close> linked to a timeout at \<open>q\<close>, whose handle stays null.\<close>

definition async_send_timeout ::
  "int \<Rightarrow> uintptr \<Rightarrow> u64 \<Rightarrow> int \<Rightarrow> io_service \<Rightarrow> sqe option \<Rightarrow> sqe option \<Rightarrow> int \<Rightarrow> uintptr \<Rightarrow> uintptr \<Rightarrow> coro \<Rightarrow>
   io_world \<Rightarrow> io_world" where
  "async_send_timeout fd buf len ms svc ans_a ans_b ret p q h w =
     (let w1 = set_completion p ((completions w p)\<lparr>io_handle := h\<rparr>) w in
      case get_sqe_pair svc ans_a ans_b w1 of
        (None, w2) \<Rightarrow> io_schedule h (set_completion p ((completions w2 p)\<lparr>io_result := - ENOMEM\<rparr>) w2)
      | (Some (a, b), w2) \<Rightarrow>
          snd (submit svc ret (ring_does
            [Prepare a (Prep_send fd buf (ucast len)), Set_data a p, Set_link a,
             Prepare b (Prep_link_timeout (timespec_of ms)), Set_data b q] w2)))"

text \<open>
  \<open>async_send_all\<close>: \<open>replies\<close> are the results of its sends, one after the other.  The result,
  once there are enough replies, and the offset and length asked for in each send.
\<close>

fun send_all :: "int list \<Rightarrow> u64 \<Rightarrow> u64 \<Rightarrow> bool option \<times> (u64 \<times> 32 word) list" where
  "send_all replies sent len =
     (if sent < len then
        case replies of
          [] \<Rightarrow> (None, [])
        | n # ns \<Rightarrow>
            if n \<le> 0 then (Some False, [(sent, ucast (len - sent))])
            else case send_all ns (sent + of_int n) len of
              (r, ops) \<Rightarrow> (r, (sent, ucast (len - sent)) # ops)
      else (Some True, []))"

declare send_all.simps [simp del]

section \<open>Lemmas\<close>

lemma world_simps [simp]:
  "completions (ring_does cs w) = completions w" "io_sched (ring_does cs w) = io_sched w"
  "ring_calls (ring_does cs w) = ring_calls w @ cs"
  "completions (io_schedule h w) = completions w" "io_sched (io_schedule h w) = io_sched w @ [h]"
  "ring_calls (io_schedule h w) = ring_calls w"
  "completions (set_completion p c w) = (completions w)(p := c)"
  "io_sched (set_completion p c w) = io_sched w" "ring_calls (set_completion p c w) = ring_calls w"
  by (simp_all add: ring_does_def io_schedule_def set_completion_def)

text \<open>What the documentation of the calls says of a reply: it is at most what was asked for.\<close>

fun replies_fit :: "int list \<Rightarrow> (u64 \<times> 32 word) list \<Rightarrow> bool" where
  "replies_fit (n # ns) ((off, k) # ops) \<longleftrightarrow> n \<le> int (unat k) \<and> replies_fit ns ops"
| "replies_fit _ _ \<longleftrightarrow> True"

text \<open>The bytes that the replies say were sent, by position.\<close>

fun bytes_sent :: "int list \<Rightarrow> (u64 \<times> 32 word) list \<Rightarrow> nat list" where
  "bytes_sent (n # ns) ((off, k) # ops) = [unat off..<unat off + nat n] @ bytes_sent ns ops"
| "bytes_sent _ _ = []"

lemma unat_cast_le: "unat (ucast x :: 32 word) \<le> unat x" for x :: u64
  by (simp add: unsigned_ucast_eq)

lemma fitting_reply:
  fixes x len :: u64
  assumes "x < len" "0 < n" "n \<le> int (unat (ucast (len - x) :: 32 word))"
  shows "unat (x + of_int n) = unat x + nat n \<and> unat x + nat n \<le> unat len"
proof -
  have "nat n \<le> unat (ucast (len - x) :: 32 word)" using assms(3) by (simp only: nat_le_iff)
  also have "\<dots> \<le> unat (len - x)" by (rule unat_cast_le)
  also have "\<dots> = unat len - unat x" using assms(1) by (simp add: unat_sub)
  finally have le: "unat x + nat n \<le> unat len" using assms(1) by (simp add: word_less_nat_alt)
  have "of_int n = (of_nat (nat n) :: u64)" using assms(2) by simp
  then have "unat (x + of_int n) = unat x + nat n"
    using le unat_u64_less [of len] by (simp add: unat_word_ariths unat_of_nat take_bit_eq_mod)
  with le show ?thesis by simp
qed

lemma send_all_sends:
  assumes "send_all ns sent len = (r, ops)" "replies_fit ns ops" "unat sent \<le> unat len"
  shows "\<exists>stop. unat sent \<le> stop \<and> stop \<le> unat len \<and> bytes_sent ns ops = [unat sent..<stop]
    \<and> (r = Some True \<longrightarrow> stop = unat len)
    \<and> (r = Some False \<longrightarrow> ops \<noteq> [] \<and> ns ! (length ops - 1) \<le> 0 \<and> stop < unat len)
    \<and> length ops \<le> unat len - unat sent"
  using assms
proof (induction ns arbitrary: sent r ops)
  case Nil
  then show ?case by (auto simp: send_all.simps [of "[]"] word_less_nat_alt split: if_splits intro!: exI [of _ "unat sent"])
next
  case (Cons n ns)
  show ?case
  proof (cases "sent < len")
    case False
    then have "unat sent = unat len" using Cons.prems(3) by (simp add: word_less_nat_alt)
    with False Cons.prems(1) show ?thesis by (auto simp: send_all.simps [of "n # ns"])
  next
    case lt: True
    show ?thesis
    proof (cases "n \<le> 0")
      case True
      with lt Cons.prems(1) have "r = Some False" "ops = [(sent, ucast (len - sent))]"
        by (simp_all add: send_all.simps [of "n # ns"])
      moreover have "Suc (unat sent) \<le> unat len" using lt by (simp add: word_less_nat_alt)
      ultimately show ?thesis using True by (intro exI [of _ "unat sent"]) auto
    next
      case False
      obtain r' ops' where rec: "send_all ns (sent + of_int n) len = (r', ops')" by fastforce
      with lt False Cons.prems(1) have r: "r = r'" "ops = (sent, ucast (len - sent)) # ops'"
        by (simp_all add: send_all.simps [of "n # ns"])
      have "n \<le> int (unat (ucast (len - sent) :: 32 word))" using Cons.prems(2) by (simp add: r(2))
      from fitting_reply [OF lt _ this] False have s: "unat (sent + of_int n) = unat sent + nat n"
        and le: "unat sent + nat n \<le> unat len" by simp_all
      have "replies_fit ns ops'" using Cons.prems(2) by (simp add: r(2))
      from Cons.IH [OF rec this] s le obtain stop where stop: "unat sent + nat n \<le> stop" "stop \<le> unat len"
        "bytes_sent ns ops' = [unat sent + nat n..<stop]" "r' = Some True \<longrightarrow> stop = unat len"
        "r' = Some False \<longrightarrow> ops' \<noteq> [] \<and> ns ! (length ops' - 1) \<le> 0 \<and> stop < unat len"
        "length ops' \<le> unat len - (unat sent + nat n)" by auto
      have "bytes_sent (n # ns) ops = [unat sent..<stop]"
        using stop(1,3) by (simp add: r(2) upt_join)
      then show ?thesis using stop r False by (intro exI [of _ stop]) (auto simp: nth_Cons split: nat.splits)
    qed
  qed
qed

section \<open>Properties\<close>

text \<open>
  An operation that gets an entry is resumed by its completion event and by nothing else in
  the service: the entry carries the address of its completion and is submitted; the event
  with that address stores its result and schedules the coroutine, once, and the
  resumption returns that result.  Without an entry (the ring is full or gone) the coroutine
  is scheduled at once, nothing is submitted, and it returns \<open>-ENOMEM\<close>.
\<close>

theorem io_operation_completes:
  assumes "p \<noteq> 0" "io_running svc"
  shows "(has_ring svc \<longrightarrow> (let w' = io_suspend prep svc (Some e) ret p h w in
        ring_calls w' = ring_calls w @ [Take e, Prepare e prep, Set_data e p, Submit]
        \<and> io_sched w' = io_sched w
        \<and> (\<forall>res fl. fst (reap svc (Inr (p, res, fl)) w')
             \<and> io_sched (snd (reap svc (Inr (p, res, fl)) w')) = io_sched w @ [h]
             \<and> io_resume p (snd (reap svc (Inr (p, res, fl)) w')) = res
             \<and> reap svc (Inr (0, res, fl)) w' = (True, w'))))
   \<and> (\<not> has_ring svc \<or> ans = None \<longrightarrow> (let w' = io_suspend prep svc ans ret p h w in
        ring_calls w' = ring_calls w \<and> io_sched w' = io_sched w @ [h] \<and> io_resume p w' = - ENOMEM))"
  using assms
  by (auto simp: io_suspend_def get_sqe_def submit_def reap_def io_resume_def Let_def split: option.splits)

text \<open>
  C39. \<open>async_send_all\<close> sends the buffer: if no reply exceeds what was asked for, the sends cover
  consecutive bytes from the start; it returns true only when all of them have been sent,
  false only after a send that sent nothing, and it needs no more sends than there are
  bytes.
\<close>

theorem send_all_sends_everything:
  assumes "send_all replies 0 len = (r, ops)" "replies_fit replies ops"
  shows "\<exists>stop \<le> unat len. bytes_sent replies ops = [0..<stop]
    \<and> (r = Some True \<longrightarrow> stop = unat len)
    \<and> (r = Some False \<longrightarrow> replies ! (length ops - 1) \<le> 0 \<and> stop < unat len)
    \<and> length ops \<le> unat len"
  using send_all_sends [OF assms] by auto

text \<open>It returns: enough replies give a result.\<close>

lemma send_all_returns_from:
  assumes "unat len - unat sent \<le> length replies" "unat sent \<le> unat len"
    "\<forall>ops r. send_all replies sent len = (r, ops) \<longrightarrow> replies_fit replies ops"
  shows "fst (send_all replies sent len) \<noteq> None"
proof (rule ccontr)
  assume none: "\<not> fst (send_all replies sent len) \<noteq> None"
  obtain r ops where s: "send_all replies sent len = (r, ops)" by fastforce
  have short: "fst (send_all ns x len) = None \<Longrightarrow> length (snd (send_all ns x len)) = length ns \<and> x < len" for ns x
  proof (induction ns arbitrary: x)
    case Nil
    then show ?case by (simp add: send_all.simps [of "[]"] split: if_splits)
  next
    case (Cons n ns)
    then show ?case by (auto simp: send_all.simps [of "n # ns"] split_beta split: if_splits)
  qed
  have more: "fst (send_all ns x len) = None \<Longrightarrow> ns \<noteq> [] \<Longrightarrow> replies_fit ns (snd (send_all ns x len)) \<Longrightarrow>
      length ns < unat len - unat x" for ns x
  proof (induction ns arbitrary: x)
    case (Cons n ns)
    have lt: "x < len" and pos: "0 < n"
      using Cons.prems(1) by (auto simp: send_all.simps [of "n # ns"] split: if_splits)
    have rec: "fst (send_all ns (x + of_int n) len) = None"
      "snd (send_all (n # ns) x len) = (x, ucast (len - x)) # snd (send_all ns (x + of_int n) len)"
      using Cons.prems(1) lt pos by (simp_all add: send_all.simps [of "n # ns"] split_beta)
    have "n \<le> int (unat (ucast (len - x) :: 32 word))" using Cons.prems(3) by (simp add: rec(2))
    from fitting_reply [OF lt pos this] have ux: "unat (x + of_int n) = unat x + nat n" by simp
    have lt': "x + of_int n < len" using short [OF rec(1)] by simp
    show ?case
    proof (cases "ns = []")
      case True
      then show ?thesis using lt' ux pos by (simp add: word_less_nat_alt)
    next
      case False
      have "replies_fit ns (snd (send_all ns (x + of_int n) len))" using Cons.prems(3) by (simp add: rec(2))
      from Cons.IH [OF rec(1) False this] ux pos show ?thesis by simp
    qed
  qed simp
  have "replies \<noteq> []" using short [of replies sent] none assms(1) by (auto simp: word_less_nat_alt)
  with more [of replies sent] none s assms(1,3) show False by auto
qed

text \<open>
  \<open>async_send_all\<close> ends: as many replies as there are bytes, none larger than asked for, give
  it a result.
\<close>

theorem send_all_returns:
  assumes "unat len \<le> length replies"
    "\<forall>ops r. send_all replies 0 len = (r, ops) \<longrightarrow> replies_fit replies ops"
  shows "\<exists>r. fst (send_all replies 0 len) = Some r"
  using send_all_returns_from [of len 0 replies] assms by auto

text \<open>
  But the length is cut to 32 bits on the way to the ring: a buffer of a multiple of 4 GiB
  asks to send nothing, and since nothing is then sent the result is false although no send
  failed.
\<close>

theorem send_all_cuts_length:
  assumes "len \<noteq> 0" "unat len mod 2 ^ 32 = 0" "replies_fit (n # ns) (snd (send_all (n # ns) 0 len))"
  shows "send_all (n # ns) 0 len = (Some False, [(0, 0)])"
proof -
  have "unat (ucast len :: 32 word) = 0" using assms(2) by (simp add: unsigned_ucast_eq take_bit_eq_mod)
  then have cut: "ucast len = (0 :: 32 word)" by (simp only: unat_eq_zero)
  have "0 < len" using assms(1) by (simp add: word_gt_0)
  then have "(0, 0 :: 32 word) = hd (snd (send_all (n # ns) 0 len)) \<and> snd (send_all (n # ns) 0 len) \<noteq> []"
    by (simp add: send_all.simps [of "n # ns"] cut split_beta)
  then have "n \<le> 0" using assms(3) by (cases "snd (send_all (n # ns) 0 len)") auto
  with \<open>0 < len\<close> show ?thesis by (simp add: send_all.simps [of "n # ns"] cut)
qed

text \<open>
  Two entries are not taken atomically: when the ring has one left, it is taken and neither
  prepared nor given back, the operation fails with \<open>-ENOMEM\<close>, and the next submission of
  the ring submits the entry as whoever used it before has left it.
\<close>

theorem sqe_pair_leaks:
  assumes "has_ring svc" "p \<noteq> 0"
  shows "let w' = async_send_timeout fd buf len ms svc (Some a) None ret p q h w in
      ring_calls w' = ring_calls w @ [Take a] \<and> io_sched w' = io_sched w @ [h] \<and> io_resume p w' = - ENOMEM
      \<and> ring_calls (snd (submit svc ret w')) = ring_calls w @ [Take a, Submit]"
  using assms
  by (simp add: async_send_timeout_def get_sqe_pair_def get_sqe_def io_resume_def submit_def Let_def)

text \<open>
  The completion of a linked timeout is written after the coroutine has been scheduled: its
  event is still to come when that of the send schedules the coroutine, and when it comes it
  stores into the completion at \<open>q\<close>, inside the awaiter that the coroutine may have left; only
  the scheduling of its null handle is refused later.
\<close>

theorem timeout_completion_late:
  assumes "p \<noteq> 0" "q \<noteq> 0" "p \<noteq> q" "io_running svc" "has_ring svc" "io_handle (completions w q) = 0"
  shows "let w1 = async_send_timeout fd buf len ms svc (Some a) (Some b) ret p q h w;
             w2 = snd (reap svc (Inr (p, res, fl)) w1); w3 = snd (reap svc (Inr (q, tres, tfl)) w2) in
      Set_link a \<in> set (ring_calls w1) \<and> Set_data b q \<in> set (ring_calls w1)
      \<and> io_sched w2 = io_sched w @ [h] \<and> io_resume p w2 = res
      \<and> io_result (completions w3 q) = tres \<and> io_sched w3 = io_sched w @ [h, 0]"
  using assms
  by (simp add: async_send_timeout_def get_sqe_pair_def get_sqe_def submit_def reap_def io_resume_def Let_def)

text \<open>
  The shutdown wakes the completion thread only through the ring: if the ring is full when it
  asks for an entry, nothing is submitted, and the thread's wait is not ended although the
  flag is off.
\<close>

lemma shutdown_wakes_nobody:
  assumes "io_running svc"
  shows "ring_calls (snd (shutdown_wake svc None w)) = ring_calls w
    \<and> \<not> io_running (fst (shutdown_wake svc None w))"
  using assms by (simp add: shutdown_wake_def)

text \<open>Every thread finds a ring: a worker its own, which no other worker has, and the others the last.\<close>

lemma ring_index_bounds:
  assumes "is_worker \<longrightarrow> i < n"
  shows "ring_index None is_worker i (n + 1) < length (init_rings n rets)
    \<and> (is_worker \<longrightarrow> ring_index None is_worker i (n + 1) = i)
    \<and> (\<not> is_worker \<longrightarrow> ring_index None is_worker i (n + 1) = n)"
  using assms by (auto simp: ring_index_def init_rings_def)

section \<open>Witnesses\<close>

definition sample_world :: io_world where
  "sample_world = \<lparr>completions = (\<lambda>p. new_completion), io_sched = [], ring_calls = []\<rparr>"

definition sample_service :: io_service where
  "sample_service = new_io_service 0"

lemma sample_service_simps [simp]: "has_ring sample_service" "io_running sample_service"
  by (simp_all add: sample_service_def new_io_service_def)

lemma io_operation_completes_witness:
  "io_sched (snd (reap sample_service (Inr (16, 5, 0)) (io_suspend (Prep_accept 3) sample_service (Some 0) 1 16 7 sample_world))) = [7]"
  using io_operation_completes [of 16 sample_service "Prep_accept 3" 0 1 7 sample_world None]
  by (simp add: Let_def sample_world_def)

lemma send_all_sends_everything_witness:
  "\<exists>stop \<le> unat (5 :: u64). bytes_sent [2, 3] [(0, 5), (2, 3)] = [0..<stop]"
proof -
  have "send_all [2, 3] 0 5 = (Some True, [(0, 5), (2, 3)])"
    by (simp add: send_all.simps)
  from send_all_sends_everything [OF this] show ?thesis by auto
qed

lemma send_all_returns_witness: "\<exists>r. fst (send_all [1, 1] 0 2) = Some r"
proof (rule send_all_returns)
  show "\<forall>ops r. send_all [1, 1] 0 2 = (r, ops) \<longrightarrow> replies_fit [1, 1] ops"
    by (simp add: send_all.simps)
qed simp

lemma send_all_cuts_length_witness: "send_all [0] 0 0x100000000 = (Some False, [(0, 0)])"
  by (rule send_all_cuts_length) (simp_all add: send_all.simps)

lemma sqe_pair_leaks_witness:
  "ring_calls (async_send_timeout 3 64 5 100 sample_service (Some 9) None 1 16 32 7 sample_world) = [Take 9]"
  using sqe_pair_leaks [of sample_service 16 3 64 5 100 9 1 32 7 sample_world]
  by (simp add: Let_def sample_world_def)

lemma timeout_completion_late_witness:
  "let w1 = async_send_timeout 3 64 5 100 sample_service (Some 8) (Some 9) 1 16 32 7 sample_world;
       w2 = snd (reap sample_service (Inr (16, 5, 0)) w1); w3 = snd (reap sample_service (Inr (32, -62, 0)) w2) in
   Set_link 8 \<in> set (ring_calls w1) \<and> Set_data 9 32 \<in> set (ring_calls w1)
   \<and> io_sched w2 = io_sched sample_world @ [7] \<and> io_resume 16 w2 = 5
   \<and> io_result (completions w3 32) = -62 \<and> io_sched w3 = io_sched sample_world @ [7, 0]"
  by (rule timeout_completion_late) (simp_all add: sample_world_def new_completion_def)

end
