(* ===== verification/LockPolicy.thy ===== *)
theory LockPolicy
  imports Prelude
begin

text \<open>
  The lock policies of \<open>include/shared_state/policies.hpp\<close> that are not locks of the standard
  library: \<open>spinlock\<close>, at the granularity of its accesses to the flag, and the mutex of
  \<open>lockfree_policy\<close>, whose operations do nothing.
\<close>

section \<open>The locks\<close>

text \<open>
  Where a thread stands: outside, before \<open>test_and_set\<close> in \<open>lock\<close>, in its inner loop, before
  \<open>test_and_set\<close> in \<open>try_lock\<close>, inside, before \<open>clear\<close> in \<open>unlock\<close>, or refused by
  \<open>try_lock\<close>.
\<close>

datatype lock_pc = Lk_out | Lk_set | Lk_spin | Lk_try | Lk_in | Lk_clear | Lk_refused

fun spinlock_step :: "bool \<Rightarrow> lock_pc \<Rightarrow> bool \<times> lock_pc" where
  "spinlock_step flag Lk_set = (True, if flag then Lk_spin else Lk_in)"
| "spinlock_step flag Lk_spin = (flag, if flag then Lk_spin else Lk_set)"
| "spinlock_step flag Lk_try = (True, if \<not> flag then Lk_in else Lk_refused)"
| "spinlock_step flag Lk_clear = (False, Lk_out)"
| "spinlock_step flag pc = (flag, pc)"

fun noop_mutex_step :: "unit \<Rightarrow> lock_pc \<Rightarrow> unit \<times> lock_pc" where
  "noop_mutex_step m Lk_set = (m, Lk_in)"
| "noop_mutex_step m Lk_try = (m, Lk_in)"
| "noop_mutex_step m Lk_clear = (m, Lk_out)"
| "noop_mutex_step m pc = (m, pc)"

section \<open>Threads that use a lock\<close>

text \<open>
  Any number of threads, each of which calls \<open>lock\<close> or \<open>try_lock\<close> when it is outside and
  \<open>unlock\<close> only when it is inside.
\<close>

fun calls_to :: "lock_pc \<Rightarrow> lock_pc set" where
  "calls_to Lk_out = {Lk_set, Lk_try}"
| "calls_to Lk_in = {Lk_clear}"
| "calls_to Lk_refused = {Lk_out}"
| "calls_to _ = {}"

inductive lock_reach ::
  "('m \<Rightarrow> lock_pc \<Rightarrow> 'm \<times> lock_pc) \<Rightarrow> 'm \<Rightarrow> nat \<Rightarrow> 'm \<times> lock_pc list \<Rightarrow> bool"
  for step m0 n where
  start: "lock_reach step m0 n (m0, replicate n Lk_out)"
| move: "lock_reach step m0 n (m, ts) \<Longrightarrow> i < length ts \<Longrightarrow> step m (ts ! i) = (m', pc) \<Longrightarrow>
    lock_reach step m0 n (m', ts[i := pc])"
| call: "lock_reach step m0 n (m, ts) \<Longrightarrow> i < length ts \<Longrightarrow> pc \<in> calls_to (ts ! i) \<Longrightarrow>
    lock_reach step m0 n (m, ts[i := pc])"

definition owns_lock :: "lock_pc \<Rightarrow> bool" where
  "owns_lock pc \<longleftrightarrow> pc = Lk_in \<or> pc = Lk_clear"

definition owners :: "lock_pc list \<Rightarrow> nat" where
  "owners ts = length (filter owns_lock ts)"

lemma owns_lock_simps [simp]:
  "owns_lock Lk_in" "owns_lock Lk_clear" "\<not> owns_lock Lk_out" "\<not> owns_lock Lk_set"
  "\<not> owns_lock Lk_spin" "\<not> owns_lock Lk_try" "\<not> owns_lock Lk_refused"
  by (simp_all add: owns_lock_def)

lemma owners_start [simp]: "owners (replicate n Lk_out) = 0"
  by (simp add: owners_def)

lemma owners_update:
  "i < length ts \<Longrightarrow> owners (ts[i := pc]) + of_bool (owns_lock (ts ! i)) = owners ts + of_bool (owns_lock pc)"
  unfolding owners_def using length_filter_update [of i ts owns_lock pc] by (simp split: if_splits)

lemma owners_call: "i < length ts \<Longrightarrow> pc \<in> calls_to (ts ! i) \<Longrightarrow> owners (ts[i := pc]) = owners ts"
  using owners_update [of i ts pc] by (cases "ts ! i") auto

lemma owners_pos: "i < length ts \<Longrightarrow> owns_lock (ts ! i) \<Longrightarrow> 0 < owners ts"
  using nth_mem [of i ts] by (auto simp: owners_def filter_empty_conv)

section \<open>The contract of a lock policy\<close>

text \<open>
  What the primitives rely on: the lock is taken by who comes in and was free before, only
  an owner gives it back, and nothing else changes whether it is taken.
\<close>

locale lock_policy =
  fixes step :: "'m \<Rightarrow> lock_pc \<Rightarrow> 'm \<times> lock_pc" and taken :: "'m \<Rightarrow> bool"
  assumes enters: "step m pc = (m', pc') \<Longrightarrow> \<not> owns_lock pc \<Longrightarrow> owns_lock pc' \<Longrightarrow> \<not> taken m \<and> taken m'"
    and leaves: "step m pc = (m', pc') \<Longrightarrow> owns_lock pc \<Longrightarrow> \<not> owns_lock pc' \<Longrightarrow> \<not> taken m'"
    and stays: "step m pc = (m', pc') \<Longrightarrow> owns_lock pc = owns_lock pc' \<Longrightarrow> taken m' = taken m"
begin

lemma one_owner:
  assumes "lock_reach step m0 n (m, ts)" "\<not> taken m0"
  shows "owners ts = of_bool (taken m)"
  using assms
proof (induction "(m, ts)" arbitrary: m ts)
  case (move m ts i m' pc)
  have own: "owners (ts[i := pc]) + of_bool (owns_lock (ts ! i)) = of_bool (taken m) + of_bool (owns_lock pc)"
    using owners_update [OF move(3)] move(2) [OF move(5)] by simp
  have "owns_lock (ts ! i) \<longrightarrow> taken m"
    using move(2) [OF move(5)] owners_pos [OF move(3)] by auto
  with own enters [OF move(4)] leaves [OF move(4)] stays [OF move(4)] show ?case
    by (cases "owns_lock (ts ! i)"; cases "owns_lock pc") auto
qed (simp_all add: owners_call)

end

interpretation spin: lock_policy spinlock_step "\<lambda>flag. flag"
proof
  show "\<not> m \<and> m'" if "spinlock_step m pc = (m', pc')" "\<not> owns_lock pc" "owns_lock pc'" for m pc m' pc'
    using that by (cases pc) (auto split: if_splits)
  show "\<not> m'" if "spinlock_step m pc = (m', pc')" "owns_lock pc" "\<not> owns_lock pc'" for m pc m' pc'
    using that by (cases pc) auto
  show "m' = m" if "spinlock_step m pc = (m', pc')" "owns_lock pc = owns_lock pc'" for m pc m' pc'
    using that by (cases pc) (auto split: if_splits)
qed

section \<open>Properties\<close>

text \<open>
  In any interleaving of any number of threads at most one is inside a spinlock, and the
  flag is set exactly while one is.  When nobody is inside, a thread in \<open>lock\<close> comes in
  within two undisturbed steps and \<open>try_lock\<close> succeeds; otherwise \<open>try_lock\<close> is refused.
\<close>

theorem spinlock_excludes:
  assumes "lock_reach spinlock_step False n (flag, ts)"
  shows "owners ts \<le> 1 \<and> (flag \<longleftrightarrow> owners ts = 1)
    \<and> (owners ts = 0 \<longrightarrow> spinlock_step flag Lk_set = (True, Lk_in)
         \<and> spinlock_step flag Lk_spin = (False, Lk_set) \<and> spinlock_step flag Lk_try = (True, Lk_in))
    \<and> (owners ts = 1 \<longrightarrow> spinlock_step flag Lk_try = (True, Lk_refused))"
  using spin.one_owner [OF assms] by auto

text \<open>
  The mutex of \<open>lockfree_policy\<close> excludes nobody: all threads can be inside at once, so a
  primitive with this policy has critical sections that overlap.
\<close>

lemma noop_mutex_calls: "k \<le> n \<Longrightarrow> lock_reach noop_mutex_step () n ((), replicate k Lk_in @ replicate (n - k) Lk_out)"
proof (induction k)
  case 0
  show ?case using lock_reach.start [of noop_mutex_step "()" n] by simp
next
  case (Suc k)
  let ?ts = "replicate k Lk_in @ replicate (n - k) Lk_out"
  have ts: "?ts = replicate k Lk_in @ Lk_out # replicate (n - Suc k) Lk_out"
    using Suc.prems by (metis Suc_diff_Suc Suc_le_lessD replicate_Suc)
  have "lock_reach noop_mutex_step () n ((), ?ts[k := Lk_set])"
    using Suc by (intro lock_reach.call) (simp_all add: nth_append)
  from lock_reach.move [OF this, of k "()" Lk_in]
  have "lock_reach noop_mutex_step () n ((), ?ts[k := Lk_set, k := Lk_in])" using Suc.prems by simp
  then show ?case by (simp add: ts list_update_append replicate_app_Cons_same)
qed

theorem noop_mutex_excludes_nobody:
  "\<exists>ts. lock_reach noop_mutex_step () n ((), ts) \<and> owners ts = n"
  using noop_mutex_calls [of n n] by (intro exI [of _ "replicate n Lk_in"]) (simp add: owners_def)

section \<open>Witnesses\<close>

lemma spin_race: "lock_reach spinlock_step False 2 (True, [Lk_in, Lk_spin])"
proof -
  have "lock_reach spinlock_step False 2 (False, [Lk_out, Lk_out])"
    using lock_reach.start [of spinlock_step False 2] by (simp add: numeral_2_eq_2)
  from lock_reach.call [OF this, of 0 Lk_set] lock_reach.call [of _ _ _ _ "[Lk_set, Lk_out]" 1 Lk_set]
  have "lock_reach spinlock_step False 2 (False, [Lk_set, Lk_set])" by simp
  from lock_reach.move [OF this, of 0 True Lk_in] lock_reach.move [of _ _ _ True "[Lk_in, Lk_set]" 1 True Lk_spin]
  show ?thesis by simp
qed

theorem spinlock_excludes_witness: "owners [Lk_in, Lk_spin] \<le> 1"
  using spinlock_excludes [OF spin_race] by blast

end
