(* ===== verification/CoroVoid.thy ===== *)
theory CoroVoid
  imports CoroTask
begin

text \<open>
  The specialisation \<open>coro_task<void>\<close> (\<open>include/coro_task.hpp\<close>), which is written out a
  second time in the source: its final awaiter, \<open>co_await\<close>, \<open>start\<close> and destructor, on the
  shared state without a value.  It is the primary template at the one-element type: every
  step of one is a step of the other.
\<close>

section \<open>Awaiting a task without a value\<close>

record 'e void_sys =
  vs_sh :: "'e coro_shared_void"
  vs_started :: bool
  vs_scheduled :: nat
  vs_body :: "(unit, 'e) body_pc"
  vs_aw :: await_pc
  vs_co :: "(unit, 'e) coro_pc"
  vs_starters :: "start_pc list"
  vs_resumptions :: nat
  vs_frame :: bool
  vs_ended_with :: "('e + unit) option"

definition new_void_state :: "'e coro_shared_void" where
  "new_void_state = \<lparr>v_exception = None, v_ready = False, v_final_suspend_reached = False,
     v_detached = False, v_handoff = 0\<rparr>"

definition void_init :: "nat \<Rightarrow> 'e void_sys" where
  "void_init n = \<lparr>vs_sh = new_void_state, vs_started = False, vs_scheduled = 0, vs_body = Not_begun,
     vs_aw = Aw_ready, vs_co = Co_suspended, vs_starters = replicate n St_call, vs_resumptions = 0,
     vs_frame = True, vs_ended_with = None\<rparr>"

definition void_resume_awaiter :: "'e void_sys \<Rightarrow> 'e void_sys" where
  "void_resume_awaiter t = t\<lparr>vs_co := Co_resumed, vs_resumptions := vs_resumptions t + 1\<rparr>"

text \<open>\<open>return_void\<close> or \<open>unhandled_exception\<close>, then the final awaiter.\<close>

fun void_body_step :: "bool \<Rightarrow> 'e void_sys \<Rightarrow> 'e void_sys option" where
  "void_body_step spur t =
     (case vs_body t of
        Not_begun \<Rightarrow> (if 0 < vs_scheduled t then Some (t\<lparr>vs_body := Running\<rparr>) else None)
      | Running \<Rightarrow> None
      | Set_result r \<Rightarrow>
          Some (t\<lparr>vs_sh := outcome_state
              (case r of Inl e \<Rightarrow> void_set_exception e (vs_sh t) | Inr v \<Rightarrow> void_set_value (vs_sh t)) (vs_sh t),
            vs_body := Finish SR_Load\<rparr>)
      | Finish (SR_Ret b) \<Rightarrow>
          Some (t\<lparr>vs_body := Publish (if b then get_continuation (v_handoff (vs_sh t)) else Noop)\<rparr>)
      | Finish pc \<Rightarrow>
          (case set_ready_step spur (v_handoff (vs_sh t)) pc of
             (w, pc') \<Rightarrow> Some (t\<lparr>vs_sh := (vs_sh t)\<lparr>v_handoff := w\<rparr>, vs_body := Finish pc'\<rparr>))
      | Publish r \<Rightarrow> Some (t\<lparr>vs_sh := (vs_sh t)\<lparr>v_final_suspend_reached := True\<rparr>, vs_body := Transfer r\<rparr>)
      | Transfer r \<Rightarrow>
          Some (case r of Noop \<Rightarrow> t\<lparr>vs_body := Ended r\<rparr>
                | Resume h \<Rightarrow> void_resume_awaiter (t\<lparr>vs_body := Ended r\<rparr>))
      | Ended r \<Rightarrow> None)"

text \<open>\<open>await_ready\<close> and \<open>await_suspend\<close>.\<close>

fun void_await_step :: "bool \<Rightarrow> coro \<Rightarrow> 'e void_sys \<Rightarrow> 'e void_sys option" where
  "void_await_step spur awaiting t =
     (case vs_aw t of
        Aw_ready \<Rightarrow>
          Some (if v_ready (vs_sh t) then t\<lparr>vs_aw := Aw_done None, vs_co := Co_resumed\<rparr> else t\<lparr>vs_aw := Aw_start\<rparr>)
      | Aw_start \<Rightarrow>
          Some (t\<lparr>vs_started := True, vs_aw := (if vs_started t then Aw_cont SC_Load else Aw_schedule)\<rparr>)
      | Aw_schedule \<Rightarrow> Some (t\<lparr>vs_scheduled := vs_scheduled t + 1, vs_aw := Aw_cont SC_Load\<rparr>)
      | Aw_cont (SC_Ret Noop) \<Rightarrow> Some (t\<lparr>vs_aw := Aw_done (Some Noop)\<rparr>)
      | Aw_cont (SC_Ret (Resume h)) \<Rightarrow>
          Some (if h \<noteq> 0 then void_resume_awaiter (t\<lparr>vs_aw := Aw_done (Some (Resume h))\<rparr>)
                else t\<lparr>vs_aw := Aw_done (Some Noop)\<rparr>)
      | Aw_cont pc \<Rightarrow>
          (case set_continuation_step spur awaiting (v_handoff (vs_sh t)) pc of
             (w, pc') \<Rightarrow> Some (t\<lparr>vs_sh := (vs_sh t)\<lparr>v_handoff := w\<rparr>, vs_aw := Aw_cont pc'\<rparr>))
      | Aw_done r \<Rightarrow> None)"

text \<open>\<open>await_resume\<close> and the destructor.\<close>

fun void_coro_step :: "'e void_sys \<Rightarrow> 'e void_sys option" where
  "void_coro_step t =
     (case vs_co t of
        Co_suspended \<Rightarrow> None
      | Co_resumed \<Rightarrow>
          (case void_get (vs_sh t) of
             Ret s ns r \<Rightarrow> Some (t\<lparr>vs_sh := s, vs_co := Co_got r\<rparr>) | Wait c w \<Rightarrow> None)
      | Co_got r \<Rightarrow>
          (if vs_started t \<and> \<not> v_final_suspend_reached (vs_sh t) then None
           else Some (t\<lparr>vs_co := Co_destroyed, vs_frame := False\<rparr>))
      | Co_destroyed \<Rightarrow> None)"

fun void_start_step :: "nat \<Rightarrow> 'e void_sys \<Rightarrow> 'e void_sys option" where
  "void_start_step i t =
     (case vs_starters t ! i of
        St_call \<Rightarrow> Some (t\<lparr>vs_started := True,
          vs_starters := (vs_starters t)[i := if vs_started t then St_done else St_schedule]\<rparr>)
      | St_schedule \<Rightarrow>
          Some (t\<lparr>vs_scheduled := vs_scheduled t + 1, vs_starters := (vs_starters t)[i := St_done]\<rparr>)
      | St_done \<Rightarrow> None)"

inductive void_step :: "coro \<Rightarrow> 'e void_sys \<Rightarrow> 'e void_sys \<Rightarrow> bool" for awaiter where
  body: "void_body_step spur t = Some t' \<Longrightarrow> void_step awaiter t t'"
| ends: "vs_body t = Running \<Longrightarrow> void_step awaiter t (t\<lparr>vs_body := Set_result r, vs_ended_with := Some r\<rparr>)"
| await: "void_await_step spur awaiter t = Some t' \<Longrightarrow> void_step awaiter t t'"
| coro: "void_coro_step t = Some t' \<Longrightarrow> void_step awaiter t t'"
| start: "i < length (vs_starters t) \<Longrightarrow> void_start_step i t = Some t' \<Longrightarrow> void_step awaiter t t'"

inductive void_reach :: "coro \<Rightarrow> nat \<Rightarrow> 'e void_sys \<Rightarrow> bool" for awaiter n where
  start: "void_reach awaiter n (void_init n)"
| step: "void_reach awaiter n t \<Longrightarrow> void_step awaiter t t' \<Longrightarrow> void_reach awaiter n t'"

section \<open>The template at the one-element type\<close>

definition void_sys_abs :: "'e void_sys \<Rightarrow> (unit, 'e) task_sys" where
  "void_sys_abs t = \<lparr>sh = void_abs (vs_sh t), started = vs_started t, scheduled = vs_scheduled t,
     body = vs_body t, aw = vs_aw t, co = vs_co t, starters = vs_starters t,
     resumptions = vs_resumptions t, frame = vs_frame t, ended_with = vs_ended_with t\<rparr>"

text \<open>An exception is stored only together with the flag.\<close>

definition void_good :: "'e void_sys \<Rightarrow> bool" where
  "void_good t \<longleftrightarrow> (v_exception (vs_sh t) \<noteq> None \<longrightarrow> v_ready (vs_sh t))"

lemma void_abs_simps [simp]:
  "ready (void_abs s) = v_ready s" "final_suspend_reached (void_abs s) = v_final_suspend_reached s"
  "handoff (void_abs s) = v_handoff s"
  "void_abs (s\<lparr>v_handoff := w\<rparr>) = (void_abs s)\<lparr>handoff := w\<rparr>"
  "void_abs (s\<lparr>v_final_suspend_reached := b\<rparr>) = (void_abs s)\<lparr>final_suspend_reached := b\<rparr>"
  by (simp_all add: void_abs_def)

lemma void_sys_abs_simps [simp]:
  "sh (void_sys_abs t) = void_abs (vs_sh t)" "started (void_sys_abs t) = vs_started t"
  "scheduled (void_sys_abs t) = vs_scheduled t" "body (void_sys_abs t) = vs_body t"
  "aw (void_sys_abs t) = vs_aw t" "co (void_sys_abs t) = vs_co t"
  "starters (void_sys_abs t) = vs_starters t" "resumptions (void_sys_abs t) = vs_resumptions t"
  "void_sys_abs (t\<lparr>vs_sh := s\<rparr>) = (void_sys_abs t)\<lparr>sh := void_abs s\<rparr>"
  "void_sys_abs (t\<lparr>vs_started := b\<rparr>) = (void_sys_abs t)\<lparr>started := b\<rparr>"
  "void_sys_abs (t\<lparr>vs_scheduled := k\<rparr>) = (void_sys_abs t)\<lparr>scheduled := k\<rparr>"
  "void_sys_abs (t\<lparr>vs_body := pc\<rparr>) = (void_sys_abs t)\<lparr>body := pc\<rparr>"
  "void_sys_abs (t\<lparr>vs_aw := ap\<rparr>) = (void_sys_abs t)\<lparr>aw := ap\<rparr>"
  "void_sys_abs (t\<lparr>vs_co := cp\<rparr>) = (void_sys_abs t)\<lparr>co := cp\<rparr>"
  "void_sys_abs (t\<lparr>vs_starters := sp\<rparr>) = (void_sys_abs t)\<lparr>starters := sp\<rparr>"
  "void_sys_abs (t\<lparr>vs_frame := b\<rparr>) = (void_sys_abs t)\<lparr>frame := b\<rparr>"
  "void_sys_abs (t\<lparr>vs_ended_with := r\<rparr>) = (void_sys_abs t)\<lparr>ended_with := r\<rparr>"
  by (simp_all add: void_sys_abs_def)

lemma void_resume_abs [simp]: "void_sys_abs (void_resume_awaiter t) = resume_awaiter (void_sys_abs t)"
  by (simp add: void_resume_awaiter_def resume_awaiter_def void_sys_abs_def)

lemma void_init_abs [simp]: "void_sys_abs (void_init n) = task_init n"
  by (simp add: void_sys_abs_def void_init_def task_init_def new_void_state_def void_abs_def new_shared_state_def)

lemma void_body_abs:
  assumes "void_good t" "\<forall>r. vs_body t = Set_result r \<longrightarrow> \<not> v_ready (vs_sh t)"
  shows "body_step spur (void_sys_abs t) = map_option void_sys_abs (void_body_step spur t)"
proof (cases "vs_body t")
  case (Set_result r)
  have exc: "v_exception (vs_sh t) = None" using assms Set_result by (auto simp: void_good_def)
  show ?thesis
    by (cases r) (simp_all add: Set_result exc void_set_value_def void_set_exception_def sh_defs void_abs_def)
next
  case (Finish pc)
  then show ?thesis by (cases pc) (simp_all split: prod.splits)
next
  case (Transfer r)
  then show ?thesis by (cases r) simp_all
qed simp_all

lemma void_await_abs:
  "await_step spur h (void_sys_abs t) = map_option void_sys_abs (void_await_step spur h t)"
proof (cases "vs_aw t")
  case (Aw_cont pc)
  then show ?thesis by (cases pc) (auto split: prod.splits resume.splits)
qed (simp_all add: sh_is_ready_def)

lemma void_coro_abs:
  assumes "void_good t"
  shows "coro_step (\<lambda>u. u) (void_sys_abs t) = map_option void_sys_abs (void_coro_step t)"
proof (cases "vs_co t")
  case Co_resumed
  then show ?thesis using assms
    by (cases "v_exception (vs_sh t)") (auto simp: void_get_def sh_defs void_good_def void_abs_def)
qed simp_all

lemma void_start_abs:
  "start_step i (void_sys_abs t) = map_option void_sys_abs (void_start_step i t)"
  by (cases "vs_starters t ! i") simp_all

lemma void_good_step:
  assumes "void_step h t t'" "void_good t"
  shows "void_good t'"
  using assms
proof cases
  case (body spur)
  then show ?thesis using assms(2)
    by (auto simp: void_good_def void_resume_awaiter_def void_set_value_def void_set_exception_def
        split: body_pc.splits ready_pc.splits sum.splits prod.splits resume.splits if_splits)
next
  case (await spur)
  then show ?thesis using assms(2)
    by (auto simp: void_good_def void_resume_awaiter_def
        split: await_pc.splits cont_pc.splits prod.splits resume.splits if_splits)
next
  case coro
  then show ?thesis using assms(2)
    by (auto simp: void_good_def void_get_def wait_for_condition_def
        split: coro_pc.splits option.splits if_splits)
next
  case (start i)
  then show ?thesis using assms(2) by (auto simp: void_good_def split: start_pc.splits)
qed (simp add: void_good_def)

text \<open>Steps correspond both ways.\<close>

declare body_step.simps [simp del] await_step.simps [simp del] coro_step.simps [simp del]
  start_step.simps [simp del] void_body_step.simps [simp del] void_await_step.simps [simp del]
  void_coro_step.simps [simp del] void_start_step.simps [simp del]

lemma void_step_abs:
  assumes "void_good t" "\<forall>r. vs_body t = Set_result r \<longrightarrow> \<not> v_ready (vs_sh t)" "void_step h t t'"
  shows "task_step (\<lambda>u. u) h (void_sys_abs t) (void_sys_abs t')"
  using assms(3)
proof cases
  case (body spur)
  then show ?thesis using void_body_abs [OF assms(1,2)] by (intro task_step.body [of spur]) simp
next
  case (ends r)
  then show ?thesis using task_step.ends [of "void_sys_abs t" "\<lambda>u. u" h r] by simp
next
  case (await spur)
  then show ?thesis by (intro task_step.await [of spur]) (simp add: void_await_abs)
next
  case coro
  then show ?thesis using void_coro_abs [OF assms(1)] by (intro task_step.coro) simp
next
  case (start i)
  then show ?thesis by (intro task_step.start [of i]) (simp_all add: void_start_abs)
qed

lemma abs_step_void:
  assumes "void_good t" "\<forall>r. vs_body t = Set_result r \<longrightarrow> \<not> v_ready (vs_sh t)"
    "task_step (\<lambda>u. u) h (void_sys_abs t) z"
  shows "\<exists>t'. void_step h t t' \<and> z = void_sys_abs t'"
  using assms(3)
proof cases
  case (body spur)
  then show ?thesis using void_body_abs [OF assms(1,2)] void_step.body by (metis map_option_eq_Some)
next
  case (ends r)
  then have "void_step h t (t\<lparr>vs_body := Set_result r, vs_ended_with := Some r\<rparr>)" by (intro void_step.ends) simp
  moreover have "z = void_sys_abs (t\<lparr>vs_body := Set_result r, vs_ended_with := Some r\<rparr>)" using ends(1) by simp
  ultimately show ?thesis by blast
next
  case (await spur)
  then show ?thesis using void_await_abs void_step.await by (metis map_option_eq_Some)
next
  case coro
  then show ?thesis using void_coro_abs [OF assms(1)] void_step.coro by (metis map_option_eq_Some)
next
  case (start i)
  then show ?thesis using void_start_abs void_step.start void_sys_abs_simps(7) by (metis map_option_eq_Some)
qed

lemma void_reach_abs:
  assumes "void_reach h n t" "aligned h"
  shows "void_good t \<and> task_reach (\<lambda>u. u) h n (void_sys_abs t)
    \<and> (\<forall>r. vs_body t = Set_result r \<longrightarrow> \<not> v_ready (vs_sh t))"
  using assms
proof (induction rule: void_reach.induct)
  case start
  have "task_reach (\<lambda>u. u) h n (void_sys_abs (void_init n))" using task_reach.start by simp
  then show ?case by (simp add: void_good_def void_init_def new_void_state_def)
next
  case (step t t')
  then have I: "void_good t" "\<forall>r. vs_body t = Set_result r \<longrightarrow> \<not> v_ready (vs_sh t)"
    "task_reach (\<lambda>u. u) h n (void_sys_abs t)" by simp_all
  have r: "task_reach (\<lambda>u. u) h n (void_sys_abs t')"
    using task_reach.step [OF I(3) void_step_abs [OF I(1,2) step(2)]] .
  have "result_right (void_sys_abs t')" using task_inv_parts(3) [OF task_inv_reach [OF r assms(2)]] .
  then show ?case using r void_good_step [OF step(2) I(1)] by (auto simp: result_right_def)
qed

section \<open>Properties\<close>

text \<open>
  C31. \<open>coro_task<void>\<close> is \<open>coro_task<T>\<close> at the one-element type: whatever its coroutine, the
  awaiting one and any number of calls of \<open>start\<close> do, in every interleaving, the template
  can do with the same program counters, and the other way round; and the awaiting coroutine
  gets the exception or the return that the task ended with.
\<close>

theorem void_task_bisimilar:
  assumes "void_reach h n t" "aligned h"
  shows "task_reach (\<lambda>u. u) h n (void_sys_abs t)
    \<and> (\<forall>t'. void_step h t t' \<longrightarrow> task_step (\<lambda>u. u) h (void_sys_abs t) (void_sys_abs t'))
    \<and> (\<forall>z. task_step (\<lambda>u. u) h (void_sys_abs t) z \<longrightarrow> (\<exists>t'. void_step h t t' \<and> z = void_sys_abs t'))
    \<and> (\<forall>x. vs_co t = Co_got x \<longrightarrow> (\<exists>r. vs_ended_with t = Some r \<and> x = reply_of r))"
proof -
  note R = void_reach_abs [OF assms]
  have I: "task_inv h (void_sys_abs t)" using task_inv_reach [OF _ assms(2)] R by blast
  have "has_result (vs_body t)" if "vs_co t = Co_got x" for x
    using suspended_before_result [OF I assms(2)] that by auto
  then have "\<forall>x. vs_co t = Co_got x \<longrightarrow> (\<exists>r. vs_ended_with t = Some r \<and> x = reply_of r)"
    using task_inv_parts(3) [OF I] by (auto simp: result_right_def void_sys_abs_def)
  then show ?thesis using R void_step_abs abs_step_void by blast
qed

section \<open>Moving a task without a value\<close>

text \<open>\<open>std::exchange(other.handle_, nullptr)\<close>, and a shared pointer that is moved from is null.\<close>

definition void_move_construct :: "coro_task \<Rightarrow> (coro_task \<times> coro_task) option" where
  "void_move_construct other =
     (let h = ct_handle other; other1 = other\<lparr>ct_handle := 0\<rparr>;
          st = ct_state other1; other2 = other1\<lparr>ct_state := 0\<rparr>;
          started = ct_started other2
      in if started then None else Some (\<lparr>ct_handle = h, ct_state = st, ct_started = started\<rparr>, other2))"

text \<open>The assignment, with the frame it destroys; \<open>same\<close>: the target is the source.\<close>

definition void_move_assign ::
  "bool \<Rightarrow> coro_task \<Rightarrow> coro_task \<Rightarrow> (coro_task \<times> coro_task \<times> coro list) option" where
  "void_move_assign same self other =
     (if same then Some (self, other, [])
      else if ct_started other then None
      else let ds = (if ct_handle self \<noteq> 0 then [ct_handle self] else []);
               self1 = self\<lparr>ct_handle := ct_handle other\<rparr>; other1 = other\<lparr>ct_handle := 0\<rparr>;
               self2 = self1\<lparr>ct_state := ct_state other1\<rparr>; other2 = other1\<lparr>ct_state := 0\<rparr>
           in Some (self2\<lparr>ct_started := ct_started other2\<rparr>, other2, ds))"

text \<open>
  Both are those of the primary template, so tasks without a value keep the ownership of their
  frames in the same way.
\<close>

lemma void_moves:
  "map_option (\<lambda>(t, u). (t, u, [])) (void_move_construct other) = move_construct other"
  "void_move_assign False self other = move_assign self other"
  by (auto simp: void_move_construct_def move_construct_def void_move_assign_def move_assign_def
      moved_from_def Let_def)

lemma void_move_frames:
  "void_move_assign False self other = Some (t, u, ds) \<Longrightarrow> owns t + owns u + mset ds = owns self + owns other"
  unfolding void_moves(2) by (rule move_assign_frames)

section \<open>Witnesses\<close>

lemma void_sample: "void_reach 16 0 ((void_init 0 :: nat void_sys)\<lparr>vs_aw := Aw_start\<rparr>)"
  by (rule void_reach.step [OF void_reach.start], rule void_step.await [of False])
    (simp add: void_await_step.simps void_init_def new_void_state_def)

theorem void_task_bisimilar_witness:
  "task_reach (\<lambda>u. u) 16 0 (void_sys_abs ((void_init 0 :: nat void_sys)\<lparr>vs_aw := Aw_start\<rparr>))"
  using void_task_bisimilar [OF void_sample aligned_sixteen] by blast

end
