(* ===== verification/BlockingVoid.thy ===== *)
theory BlockingVoid
  imports BlockingCall
begin

text \<open>
  The specialisations for callables without a result: \<open>callable_awaiter\<close>
  (\<open>include/coro_awaiter.hpp\<close>), \<open>blocking_result<void>\<close> and
  \<open>cancellable_blocking_awaiter<void>\<close> (\<open>include/async_runtime.hpp\<close>).  The source writes them
  out again; here they are related to the primary templates at the one-element type.
\<close>

section \<open>The plain awaiter\<close>

record 'e callable_void =
  cv_exception :: "'e option"
  cv_done :: bool
  cv_continuation :: coro

definition new_callable_void :: "'e callable_void" where
  "new_callable_void = \<lparr>cv_exception = None, cv_done = False, cv_continuation = 0\<rparr>"

definition callable_void_suspend :: "coro \<Rightarrow> 'e callable_void \<Rightarrow> 'e callable_void" where
  "callable_void_suspend h c = c\<lparr>cv_continuation := h\<rparr>"

definition callable_void_task :: "'e option \<Rightarrow> 'e callable_void \<Rightarrow> 'e callable_void \<times> coro" where
  "callable_void_task thrown c =
     (let c' = (case thrown of Some e \<Rightarrow> c\<lparr>cv_exception := Some e\<rparr> | None \<Rightarrow> c)
      in (c'\<lparr>cv_done := True\<rparr>, cv_continuation c'))"

text \<open>What \<open>await_resume\<close> throws.\<close>

definition callable_void_resume :: "'e callable_void \<Rightarrow> 'e option" where
  "callable_void_resume c = cv_exception c"

section \<open>The cancellable awaiter\<close>

record 'e void_blocking_result =
  vr_status :: blocking_status
  vr_exception :: "'e option"

definition void_blocking_get :: "'e void_blocking_result \<Rightarrow> ('e + cancel_error) option" where
  "void_blocking_get b =
     (case vr_exception b of
        Some e \<Rightarrow> Some (Inl e)
      | None \<Rightarrow> if vr_status b = Bl_cancelled then Some (Inr Cancelled_exception) else None)"

datatype 'e void_resume_pc = Vr_suspended | Vr_unregister | Vr_read | Vr_got "'e void_blocking_result"

record 'e void_blocking =
  vb_resumed :: bool
  vb_handle :: coro
  vb_exception :: "'e option"
  vb_status :: blocking_status
  vb_callback_id :: u64
  vb_token :: bool
  vb_cancel :: "unit cancellation_state"
  vb_sched :: "coro list"
  vb_suspend :: suspend_pc
  vb_task :: task_pc
  vb_calls :: "callback_pc list"
  vb_coro :: "'e void_resume_pc"

definition void_blocking_init :: "bool \<Rightarrow> unit cancellation_state \<Rightarrow> 'e void_blocking" where
  "void_blocking_init tok cs =
     \<lparr>vb_resumed = False, vb_handle = 0, vb_exception = None, vb_status = Bl_completed,
      vb_callback_id = 0, vb_token = tok, vb_cancel = cs, vb_sched = [], vb_suspend = Bs_handle,
      vb_task = Bt_none, vb_calls = [], vb_coro = Vr_suspended\<rparr>"

definition void_set_cancel :: "unit cancellation_state \<Rightarrow> 'e void_blocking \<Rightarrow> 'e void_blocking" where
  "void_set_cancel cs z =
     z\<lparr>vb_cancel := cs,
       vb_calls := vb_calls z @ replicate (length (invoked cs) - length (invoked (vb_cancel z))) Bc_cas\<rparr>"

fun void_suspend_step :: "coro \<Rightarrow> suspend_pc \<Rightarrow> 'e void_blocking \<Rightarrow> 'e void_blocking option" where
  "void_suspend_step h Bs_handle z = Some (z\<lparr>vb_handle := h, vb_suspend := Bs_register\<rparr>)"
| "void_suspend_step h Bs_register z =
     (if vb_token z
      then case register_callback () (vb_cancel z) of
        (cid, cs) \<Rightarrow> Some ((void_set_cancel cs z)\<lparr>vb_suspend := Bs_id cid\<rparr>)
      else Some (z\<lparr>vb_suspend := Bs_task\<rparr>))"
| "void_suspend_step h (Bs_id cid) z = Some (z\<lparr>vb_callback_id := cid, vb_suspend := Bs_task\<rparr>)"
| "void_suspend_step h Bs_task z = Some (z\<lparr>vb_task := Bt_queued, vb_suspend := Bs_end\<rparr>)"
| "void_suspend_step h Bs_end z = None"

text \<open>\<open>thrown\<close>: what the callable throws, if it does.\<close>

fun void_task_step :: "'e option \<Rightarrow> task_pc \<Rightarrow> 'e void_blocking \<Rightarrow> 'e void_blocking option" where
  "void_task_step thrown Bt_none z = None"
| "void_task_step thrown Bt_queued z =
     Some ((case thrown of Some e \<Rightarrow> z\<lparr>vb_exception := Some e\<rparr> | None \<Rightarrow> z)\<lparr>vb_task := Bt_ran\<rparr>)"
| "void_task_step thrown Bt_ran z =
     Some (if vb_resumed z then z\<lparr>vb_task := Bt_end\<rparr> else z\<lparr>vb_resumed := True, vb_task := Bt_status\<rparr>)"
| "void_task_step thrown Bt_status z = Some (z\<lparr>vb_status := Bl_completed, vb_task := Bt_sched\<rparr>)"
| "void_task_step thrown Bt_sched z = Some (z\<lparr>vb_sched := vb_sched z @ [vb_handle z], vb_task := Bt_end\<rparr>)"
| "void_task_step thrown Bt_end z = None"

fun void_callback_step :: "nat \<Rightarrow> callback_pc \<Rightarrow> 'e void_blocking \<Rightarrow> 'e void_blocking option" where
  "void_callback_step i Bc_cas z =
     Some (if vb_resumed z then z\<lparr>vb_calls := (vb_calls z)[i := Bc_end]\<rparr>
           else z\<lparr>vb_resumed := True, vb_calls := (vb_calls z)[i := Bc_status]\<rparr>)"
| "void_callback_step i Bc_status z =
     Some (z\<lparr>vb_status := Bl_cancelled, vb_calls := (vb_calls z)[i := Bc_sched]\<rparr>)"
| "void_callback_step i Bc_sched z =
     Some (z\<lparr>vb_sched := vb_sched z @ [vb_handle z], vb_calls := (vb_calls z)[i := Bc_end]\<rparr>)"
| "void_callback_step i Bc_end z = None"

fun void_resume_step :: "'e void_resume_pc \<Rightarrow> 'e void_blocking \<Rightarrow> 'e void_blocking option" where
  "void_resume_step Vr_suspended z = (if vb_sched z \<noteq> [] then Some (z\<lparr>vb_coro := Vr_unregister\<rparr>) else None)"
| "void_resume_step Vr_unregister z =
     Some ((if vb_token z \<and> vb_callback_id z \<noteq> 0
            then void_set_cancel (unregister_callback (vb_callback_id z) (vb_cancel z)) z else z)
       \<lparr>vb_coro := Vr_read\<rparr>)"
| "void_resume_step Vr_read z =
     Some (z\<lparr>vb_coro := Vr_got \<lparr>vr_status = vb_status z, vr_exception = vb_exception z\<rparr>\<rparr>)"
| "void_resume_step (Vr_got b) z = None"

inductive void_blocking_step :: "coro \<Rightarrow> 'e option \<Rightarrow> 'e void_blocking \<Rightarrow> 'e void_blocking \<Rightarrow> bool"
  for h thrown where
  suspend: "void_suspend_step h (vb_suspend z) z = Some z' \<Longrightarrow> void_blocking_step h thrown z z'"
| task: "void_task_step thrown (vb_task z) z = Some z' \<Longrightarrow> void_blocking_step h thrown z z'"
| callback: "i < length (vb_calls z) \<Longrightarrow> void_callback_step i (vb_calls z ! i) z = Some z' \<Longrightarrow>
    void_blocking_step h thrown z z'"
| resume: "void_resume_step (vb_coro z) z = Some z' \<Longrightarrow> void_blocking_step h thrown z z'"
| cancel: "vb_token z \<Longrightarrow> CancelState.cancel (vb_cancel z) = Some cs \<Longrightarrow>
    void_blocking_step h thrown z (void_set_cancel cs z)"

inductive void_blocking_reach :: "coro \<Rightarrow> 'e option \<Rightarrow> 'e void_blocking \<Rightarrow> 'e void_blocking \<Rightarrow> bool"
  for h thrown z where
  start: "void_blocking_reach h thrown z z"
| step: "void_blocking_reach h thrown z y \<Longrightarrow> void_blocking_step h thrown y y' \<Longrightarrow>
    void_blocking_reach h thrown z y'"

section \<open>The same without the result\<close>

text \<open>Forgetting the one-element result of the template gives the specialisation.\<close>

definition outcome_of :: "'e option \<Rightarrow> 'e + unit" where
  "outcome_of thrown = (case thrown of Some e \<Rightarrow> Inl e | None \<Rightarrow> Inr ())"

definition forget_result :: "('e, unit) blocking_result \<Rightarrow> 'e void_blocking_result" where
  "forget_result b = \<lparr>vr_status = br_status b, vr_exception = br_exception b\<rparr>"

fun forget_pc :: "('e, unit) resume_pc \<Rightarrow> 'e void_resume_pc" where
  "forget_pc Br_suspended = Vr_suspended"
| "forget_pc Br_unregister = Vr_unregister"
| "forget_pc Br_read = Vr_read"
| "forget_pc (Br_got b) = Vr_got (forget_result b)"

definition forget :: "('e, unit) blocking_sys \<Rightarrow> 'e void_blocking" where
  "forget z = \<lparr>vb_resumed = b_resumed z, vb_handle = b_handle z, vb_exception = b_exception z,
     vb_status = b_status z, vb_callback_id = b_callback_id z, vb_token = b_token z,
     vb_cancel = b_cancel z, vb_sched = b_sched z, vb_suspend = b_suspend z, vb_task = b_task z,
     vb_calls = b_calls z, vb_coro = forget_pc (b_coro z)\<rparr>"

definition forget_awaiter :: "('e, unit) callable_awaiter \<Rightarrow> 'e callable_void" where
  "forget_awaiter c = \<lparr>cv_exception = ca_exception c, cv_done = ca_done c, cv_continuation = ca_continuation c\<rparr>"

lemma forget_simps [simp]:
  "vb_resumed (forget z) = b_resumed z" "vb_handle (forget z) = b_handle z"
  "vb_exception (forget z) = b_exception z" "vb_status (forget z) = b_status z"
  "vb_callback_id (forget z) = b_callback_id z" "vb_token (forget z) = b_token z"
  "vb_cancel (forget z) = b_cancel z" "vb_sched (forget z) = b_sched z"
  "vb_suspend (forget z) = b_suspend z" "vb_task (forget z) = b_task z"
  "vb_calls (forget z) = b_calls z" "vb_coro (forget z) = forget_pc (b_coro z)"
  "forget (z\<lparr>b_resumed := b\<rparr>) = (forget z)\<lparr>vb_resumed := b\<rparr>"
  "forget (z\<lparr>b_handle := h\<rparr>) = (forget z)\<lparr>vb_handle := h\<rparr>"
  "forget (z\<lparr>b_exception := e\<rparr>) = (forget z)\<lparr>vb_exception := e\<rparr>"
  "forget (z\<lparr>b_result := r\<rparr>) = forget z"
  "forget (z\<lparr>b_status := st\<rparr>) = (forget z)\<lparr>vb_status := st\<rparr>"
  "forget (z\<lparr>b_callback_id := cid\<rparr>) = (forget z)\<lparr>vb_callback_id := cid\<rparr>"
  "forget (z\<lparr>b_cancel := cs\<rparr>) = (forget z)\<lparr>vb_cancel := cs\<rparr>"
  "forget (z\<lparr>b_sched := hs\<rparr>) = (forget z)\<lparr>vb_sched := hs\<rparr>"
  "forget (z\<lparr>b_suspend := sp\<rparr>) = (forget z)\<lparr>vb_suspend := sp\<rparr>"
  "forget (z\<lparr>b_task := tp\<rparr>) = (forget z)\<lparr>vb_task := tp\<rparr>"
  "forget (z\<lparr>b_calls := cp\<rparr>) = (forget z)\<lparr>vb_calls := cp\<rparr>"
  "forget (z\<lparr>b_coro := rp\<rparr>) = (forget z)\<lparr>vb_coro := forget_pc rp\<rparr>"
  by (simp_all add: forget_def)

lemma forget_set_cancel [simp]: "forget (set_cancel_state cs z) = void_set_cancel cs (forget z)"
  by (simp add: set_cancel_state_def void_set_cancel_def)

lemma forget_init [simp]: "forget (blocking_init tok cs) = void_blocking_init tok cs"
  by (simp add: forget_def blocking_init_def void_blocking_init_def)

lemma forget_suspend: "void_suspend_step h pc (forget z) = map_option forget (suspend_step h pc z)"
  by (cases pc) (auto split: prod.splits)

lemma forget_task: "void_task_step thrown pc (forget z) = map_option forget (task_step (outcome_of thrown) pc z)"
  by (cases pc) (auto simp: outcome_of_def split: option.splits)

lemma forget_callback: "void_callback_step i pc (forget z) = map_option forget (callback_step i pc z)"
  by (cases pc) auto

lemma forget_resume: "void_resume_step (forget_pc pc) (forget z) = map_option forget (resume_step pc z)"
  by (cases pc) (auto simp: forget_result_def)

declare suspend_step.simps [simp del] task_step.simps [simp del] callback_step.simps [simp del]
  resume_step.simps [simp del] void_suspend_step.simps [simp del] void_task_step.simps [simp del]
  void_callback_step.simps [simp del] void_resume_step.simps [simp del]

lemma forget_step:
  assumes "blocking_step h (outcome_of thrown) z z'"
  shows "void_blocking_step h thrown (forget z) (forget z')"
  using assms
proof cases
  case suspend
  then show ?thesis by (intro void_blocking_step.suspend) (simp add: forget_suspend)
next
  case task
  then show ?thesis by (intro void_blocking_step.task) (simp add: forget_task)
next
  case (callback i)
  then show ?thesis by (intro void_blocking_step.callback [of i]) (simp_all add: forget_callback)
next
  case resume
  then show ?thesis by (intro void_blocking_step.resume) (simp add: forget_resume)
next
  case (cancel cs)
  then show ?thesis using void_blocking_step.cancel [of "forget z" cs h thrown] by simp
qed

lemma step_forget:
  assumes "void_blocking_step h thrown (forget z) y"
  shows "\<exists>z'. blocking_step h (outcome_of thrown) z z' \<and> y = forget z'"
  using assms
proof cases
  case suspend
  then obtain z' where "suspend_step h (b_suspend z) z = Some z'" "y = forget z'" by (auto simp: forget_suspend)
  then show ?thesis using blocking_step.suspend by blast
next
  case task
  then obtain z' where "task_step (outcome_of thrown) (b_task z) z = Some z'" "y = forget z'"
    by (auto simp: forget_task)
  then show ?thesis using blocking_step.task by blast
next
  case (callback i)
  then obtain z' where "callback_step i (b_calls z ! i) z = Some z'" "y = forget z'" "i < length (b_calls z)"
    by (auto simp: forget_callback)
  then show ?thesis using blocking_step.callback by blast
next
  case resume
  then obtain z' where "resume_step (b_coro z) z = Some z'" "y = forget z'" by (auto simp: forget_resume)
  then show ?thesis using blocking_step.resume by blast
next
  case (cancel cs)
  then have "blocking_step h (outcome_of thrown) z (set_cancel_state cs z)" by (intro blocking_step.cancel) simp_all
  then show ?thesis using cancel(1) by (intro exI [of _ "set_cancel_state cs z"]) simp
qed

lemma void_reach_forget:
  assumes "void_blocking_reach h thrown (void_blocking_init tok cs) y"
  shows "\<exists>z. blocking_reach h (outcome_of thrown) (blocking_init tok cs) z \<and> y = forget z"
  using assms
proof (induction rule: void_blocking_reach.induct)
  case start
  show ?case using blocking_reach.start forget_init by metis
next
  case (step y y')
  then show ?case using step_forget blocking_reach.step by metis
qed

lemma forget_reach:
  assumes "blocking_reach h (outcome_of thrown) (blocking_init tok cs) z"
  shows "void_blocking_reach h thrown (void_blocking_init tok cs) (forget z)"
  using assms
proof (induction rule: blocking_reach.induct)
  case start
  show ?case using void_blocking_reach.start by simp
next
  case (step y y')
  then show ?case using forget_step void_blocking_reach.step by blast
qed

section \<open>Properties\<close>

text \<open>
  The specialisation for callables without a result reaches exactly the states that the
  template at the one-element type reaches, without their result; and where the template's
  \<open>get\<close> throws or returns, so does the specialisation's.
\<close>

theorem void_blocking_equivalent:
  "(void_blocking_reach h thrown (void_blocking_init tok cs) y \<longleftrightarrow>
     (\<exists>z. blocking_reach h (outcome_of thrown) (blocking_init tok cs) z \<and> y = forget z))
   \<and> void_blocking_get (forget_result b) = (case blocking_get b of Some (Inl e) \<Rightarrow> Some e | _ \<Rightarrow> None)"
proof (rule conjI)
  show "void_blocking_reach h thrown (void_blocking_init tok cs) y \<longleftrightarrow>
     (\<exists>z. blocking_reach h (outcome_of thrown) (blocking_init tok cs) z \<and> y = forget z)"
    using void_reach_forget forget_reach by blast
qed (auto simp: void_blocking_get_def blocking_get_def forget_result_def split: option.splits)

text \<open>The plain awaiter without a result does what the template does.\<close>

lemma callable_void_equivalent:
  "forget_awaiter new_callable_awaiter = new_callable_void"
  "forget_awaiter (callable_suspend h c) = callable_void_suspend h (forget_awaiter c)"
  "callable_void_task thrown (forget_awaiter c)
     = (forget_awaiter (fst (callable_task (outcome_of thrown) c)), snd (callable_task (outcome_of thrown) c))"
  "callable_resume (fst (callable_task (outcome_of thrown) (callable_suspend h new_callable_awaiter)))
     = Some (case callable_void_resume (fst (callable_void_task thrown (callable_void_suspend h new_callable_void)))
             of Some e \<Rightarrow> Inl e | None \<Rightarrow> Inr ())"
  by (auto simp: forget_awaiter_def new_callable_awaiter_def new_callable_void_def callable_suspend_def
      callable_void_suspend_def callable_void_task_def callable_task_def outcome_of_def Let_def
      callable_resume_def callable_void_resume_def split: option.splits)

end
