(* ===== verification/Structured.thy ===== *)
theory Structured
  imports Runtime
begin

text \<open>
  Structured concurrency, continued (\<open>include/async_runtime.hpp\<close>): \<open>when_all\<close> and \<open>when_any\<close> of
  tasks without a value, and what becomes of the tasks when the coroutine of a \<open>when_all\<close> or
  \<open>when_any\<close> is left.  The tasks are its parameter, so they live in its frame and are
  destroyed with it.
\<close>

section \<open>Tasks without a value\<close>

text \<open>The awaits in order; the last component are the tasks awaited.\<close>

fun await_all_void :: "(uintptr \<Rightarrow> 'e option) \<Rightarrow> coro_task list \<Rightarrow> 'e option \<times> coro_task list" where
  "await_all_void thrown [] = (None, [])"
| "await_all_void thrown (t # ts) =
     (case thrown (ct_state t) of
        Some e \<Rightarrow> (Some e, [t])
      | None \<Rightarrow> (case await_all_void thrown ts of (r, us) \<Rightarrow> (r, t # us)))"

definition when_all_void ::
  "(uintptr \<Rightarrow> 'e option) \<Rightarrow> coro_task list \<Rightarrow> coro list \<times> 'e option \<times> coro_task list" where
  "when_all_void thrown ts = (case start_all ts of (ts', hs) \<Rightarrow> (hs, await_all_void thrown ts'))"

definition when_any_void ::
  "nat \<Rightarrow> (nat \<Rightarrow> nat \<Rightarrow> bool) \<Rightarrow> (uintptr \<Rightarrow> 'e option) \<Rightarrow> coro_task list \<Rightarrow>
   (coro list \<times> (any_error + ('e + nat))) option" where
  "when_any_void n rd thrown ts =
     (if ts = [] then Some ([], Inl Invalid_argument)
      else case start_all ts of (ts', hs) \<Rightarrow>
        (case any_loop n rd (length ts') 0 of
           None \<Rightarrow> None
         | Some (i, yields) \<Rightarrow>
             Some (hs, Inr (case thrown (ct_state (ts' ! i)) of Some e \<Rightarrow> Inl e | None \<Rightarrow> Inr i))))"

section \<open>Submitting a callable\<close>

text \<open>
  \<open>add_coro\<close> of a callable: a coroutine that calls it, with its frame at \<open>h\<close> and its shared
  state at \<open>st\<close>, is started and returned.  \<open>elided\<close>: the compiler makes the local task the
  result itself, which it may; otherwise the task is moved.
\<close>

definition add_coro_callable :: "bool \<Rightarrow> coro \<Rightarrow> uintptr \<Rightarrow> (coro_task \<times> coro list) option" where
  "add_coro_callable elided h st =
     (case start_list (new_coro_task h st) of (t, hs) \<Rightarrow>
        if elided then Some (t, hs)
        else map_option (\<lambda>(u, other, ds). (u, hs)) (move_construct t))"

text \<open>The coroutine ends with what the callable does.\<close>

definition callable_body :: "'e + 'v \<Rightarrow> ('v, 'e) coro_shared_state \<Rightarrow> ('v, 'e) coro_shared_state" where
  "callable_body outc s =
     outcome_state (case outc of Inl e \<Rightarrow> sh_set_exception e s | Inr v \<Rightarrow> sh_set_value v s) s"

text \<open>The task is scheduled once if the move is elided; if it is not, its assertion fails.\<close>

lemma add_coro_callable_elided:
  "h \<noteq> 0 \<Longrightarrow> add_coro_callable elided h st =
     (if elided then Some (\<lparr>ct_handle = h, ct_state = st, ct_started = True\<rparr>, [h]) else None)"
  by (simp add: add_coro_callable_def start_list_simp new_coro_task_def move_construct_def)

lemma callable_body_result:
  "sh_get moved (callable_body outc new_shared_state)
     = Ret (case outc of Inl e \<Rightarrow> callable_body outc new_shared_state | Inr v \<Rightarrow> callable_body (Inr (moved v)) new_shared_state)
         [] (reply_of outc)"
  by (cases outc) (simp_all add: callable_body_def sh_defs new_shared_state_def)

section \<open>Leaving the frame\<close>

text \<open>
  The destruction of the parameter \<open>tasks\<close>: the destructor of each task in turn, with the
  frames destroyed.  \<open>reached\<close> tells, by the address of the shared state, whether
  \<open>final_suspend_reached\<close> is set, and stays as it is while the thread spins; \<open>None\<close>: the
  destructor of some task spins on.
\<close>

fun destroy_tasks :: "(uintptr \<Rightarrow> bool) \<Rightarrow> coro_task list \<Rightarrow> coro list option" where
  "destroy_tasks reached [] = Some []"
| "destroy_tasks reached (t # ts) =
     (case destruct (reached (ct_state t)) t of
        None \<Rightarrow> None
      | Some hs \<Rightarrow> map_option (\<lambda>hs'. hs @ hs') (destroy_tasks reached ts))"

section \<open>Lemmas\<close>

definition void_outcome_of :: "(uintptr \<Rightarrow> 'e option) \<Rightarrow> uintptr \<Rightarrow> 'e + unit" where
  "void_outcome_of thrown st = (case thrown st of Some e \<Rightarrow> Inl e | None \<Rightarrow> Inr ())"

fun without_value :: "'e + 'v \<Rightarrow> 'e option" where
  "without_value (Inl e) = Some e" | "without_value (Inr v) = None"

lemma await_all_void_abs:
  "await_all_void thrown ts =
     (case await_all (void_outcome_of thrown) ts of (r, us) \<Rightarrow> (without_value r, us))"
  by (induction ts) (auto simp: void_outcome_of_def split: option.splits sum.splits prod.splits)

text \<open>A task holds its destruction up if it was started and has not come to its end.\<close>

definition holds_up :: "(uintptr \<Rightarrow> bool) \<Rightarrow> coro_task \<Rightarrow> bool" where
  "holds_up reached t \<longleftrightarrow> ct_handle t \<noteq> 0 \<and> ct_started t \<and> ct_state t \<noteq> 0 \<and> \<not> reached (ct_state t)"

lemma destruct_cases:
  assumes "ct_handle t \<noteq> 0 \<longrightarrow> ct_state t \<noteq> 0"
  shows "destruct (reached (ct_state t)) t =
    (if holds_up reached t then None else Some (if ct_handle t \<noteq> 0 then [ct_handle t] else []))"
  using assms by (auto simp: destruct_def holds_up_def)

definition task_frames :: "coro_task list \<Rightarrow> coro list" where
  "task_frames ts = map ct_handle (filter (\<lambda>t. ct_handle t \<noteq> 0) ts)"

lemma destroy_tasks_cases:
  assumes "\<forall>t \<in> set ts. ct_handle t \<noteq> 0 \<longrightarrow> ct_state t \<noteq> 0"
  shows "destroy_tasks reached ts =
    (if \<exists>t \<in> set ts. holds_up reached t then None else Some (task_frames ts))"
  using assms
proof (induction ts)
  case (Cons t ts)
  then show ?case using destruct_cases [of t reached] by (auto simp: task_frames_def)
qed (simp add: task_frames_def)

section \<open>Properties\<close>

text \<open>
  The forms for tasks without a value do what the others do at the one-element type, but
  for the value: the same tasks are started and awaited, and the same exception or index
  comes out.
\<close>

theorem void_forms_equivalent:
  "when_all_void thrown ts =
     (case when_all (void_outcome_of thrown) ts of (hs, r, us) \<Rightarrow> (hs, without_value r, us))
   \<and> when_any_void n rd thrown ts =
     map_option (\<lambda>(hs, r). (hs, map_sum (\<lambda>x. x) (map_sum (\<lambda>x. x) fst) r)) (when_any n rd (void_outcome_of thrown) ts)"
proof (rule conjI)
  show "when_all_void thrown ts =
     (case when_all (void_outcome_of thrown) ts of (hs, r, us) \<Rightarrow> (hs, without_value r, us))"
    by (simp add: when_all_void_def when_all_def await_all_void_abs split: prod.splits)
  show "when_any_void n rd thrown ts =
     map_option (\<lambda>(hs, r). (hs, map_sum (\<lambda>x. x) (map_sum (\<lambda>x. x) fst) r)) (when_any n rd (void_outcome_of thrown) ts)"
    by (auto simp: when_any_void_def when_any_def void_outcome_of_def split: prod.splits option.splits)
qed

text \<open>
  \<open>when_any\<close> returns as soon as one task is ready, but its frame, and so the expression that
  awaits it, is left only when all tasks have come to their ends: the destructor of every
  task that has not spins on the thread that runs the awaiting coroutine.  The frames of the
  tasks are then all destroyed, in order.
\<close>

theorem when_any_waits_for_losers:
  assumes "\<forall>t \<in> set ts. ct_handle t \<noteq> 0 \<and> ct_state t \<noteq> 0" "ts \<noteq> []"
    and "rd 0 i" "i < length ts" "0 < n"
  shows "when_any n rd outc ts \<noteq> None
    \<and> destroy_tasks reached (fst (start_all ts))
       = (if \<forall>t \<in> set ts. reached (ct_state t) then Some (map ct_handle ts) else None)"
proof -
  let ?ts = "fst (start_all ts)"
  have good: "\<forall>t \<in> set ?ts. ct_handle t \<noteq> 0 \<longrightarrow> ct_state t \<noteq> 0"
    using assms(1) by (simp add: start_all_simp)
  have frames: "task_frames ?ts = map ct_handle ts"
    using assms(1) by (simp add: task_frames_def start_all_simp filter_map comp_def filter_True)
  have up: "(\<exists>t \<in> set ?ts. holds_up reached t) \<longleftrightarrow> \<not> (\<forall>t \<in> set ts. reached (ct_state t))"
    using assms(1) by (auto simp: start_all_simp holds_up_def)
  have "any_loop n rd (length ts) 0 \<noteq> None"
    using any_loop_finds [of 0 0 n i "length ts" rd] assms(3-5) by blast
  then have "when_any n rd outc ts \<noteq> None"
    using assms(2) by (auto simp: when_any_def start_all_simp)
  then show ?thesis using destroy_tasks_cases [OF good, of reached] by (simp add: up frames)
qed

section \<open>Witnesses\<close>

lemma when_any_waits_for_losers_witness:
  "destroy_tasks (\<lambda>st. st = 16) (fst (start_all sample_tasks)) = None
   \<and> destroy_tasks (\<lambda>st. True) (fst (start_all sample_tasks)) = Some [32, 48]"
  using when_any_waits_for_losers [of sample_tasks "\<lambda>r i. i = 0" 0 1 "\<lambda>a. Inr a :: nat + uintptr" "\<lambda>st. st = 16"]
    when_any_waits_for_losers [of sample_tasks "\<lambda>r i. i = 0" 0 1 "\<lambda>a. Inr a :: nat + uintptr" "\<lambda>st. True"]
  by (simp add: sample_tasks_def new_coro_task_def)

end
