(* ===== verification/Lifecycle.thy ===== *)
theory Lifecycle
  imports CoroScheduler TimerService IoUring TaskScheduler
begin

text \<open>
  The life of the whole runtime (\<open>task_scheduler::task_scheduler\<close> and its destructor in
  \<open>src/task_scheduler.cpp\<close>, the global services in \<open>src/timer_service.cpp\<close> and
  \<open>src/io_uring_service.cpp\<close>): the order in which the services are stopped, with the
  workers of the coroutine scheduler, the threads of the task pool and the calls of
  \<open>schedule_coro_handle\<close> and \<open>add_task\<close> running on until they are joined.
\<close>

section \<open>A handle scheduled by a thread of its own\<close>

text \<open>
  The steps of one call up to where it waits for something: a coroutine that it runs, or the
  notification.
\<close>

fun run_call :: "nat \<Rightarrow> call_pc \<Rightarrow> coro_scheduler \<Rightarrow> call_pc \<times> coro_scheduler" where
  "run_call 0 pc s = (pc, s)"
| "run_call (Suc n) (Call_run h) s = (Call_run h, s)"
| "run_call (Suc n) pc s =
     (case call_step False pc s of None \<Rightarrow> (pc, s) | Some (pc', s') \<Rightarrow> run_call n pc' s')"

text \<open>
  What a coroutine does with its turn when it is resumed inside such a call: it comes to its
  end, it suspends, or it suspends in another \<open>sleep\<close>, which adds a timer first.
\<close>

datatype coro_turn = Turn_ends | Turn_suspends | Turn_sleeps

text \<open>
  The call made by a thread that holds the mutex of the timer service.  \<open>None\<close>: the thread
  locks the mutex a second time, in \<open>add_timer\<close>, and does not get it.
\<close>

definition call_locked ::
  "(coro \<Rightarrow> coro_turn) \<Rightarrow> coro \<Rightarrow> call_pc list \<times> coro_scheduler \<Rightarrow> (call_pc list \<times> coro_scheduler) option" where
  "call_locked turn h z =
     (case z of (cs, s) \<Rightarrow>
        (case run_call 4 (Call h) s of
           (Call_run k, s') \<Rightarrow>
             if turn k = Turn_sleeps then None
             else map_option (\<lambda>(pc, s''). (cs @ [pc], s'')) (call_step (turn k = Turn_ends) (Call_run k) s')
         | (pc, s') \<Rightarrow> Some (cs @ [pc], s')))"

text \<open>
  The loop of \<open>timer_service::shutdown\<close> over the entries that are left, which runs with the
  mutex held.
\<close>

fun fire_locked ::
  "(coro \<Rightarrow> coro_turn) \<Rightarrow> timer_entry list \<Rightarrow> async_mem \<times> call_pc list \<times> coro_scheduler \<Rightarrow>
   (async_mem \<times> call_pc list \<times> coro_scheduler) option" where
  "fire_locked turn [] z = Some z"
| "fire_locked turn (e # es) (w, z) =
     (case view_of e of (h, g) \<Rightarrow>
        if g = 0 \<or> h = 0 \<or> gates w g then fire_locked turn es (w, z)
        else case call_locked turn h z of
            None \<Rightarrow> None
          | Some z' \<Rightarrow> fire_locked turn es (w\<lparr>gates := (gates w)(g := True)\<rparr>, z'))"

section \<open>The threads of the task pool\<close>

text \<open>
  Where a thread of the pool stands in \<open>worker\<close>.  \<open>Pt_receive\<close>: in \<open>receive_for\<close> with its 100
  ms; it comes out with a task as soon as there is one, and may come out without one at any
  time, by the timeout or because the channel is closed.
\<close>

datatype 'a pool_pc = Pt_loop | Pt_receive | Pt_check | Pt_run 'a | Pt_exited

fun pool_step :: "bool \<Rightarrow> 'a pool_pc \<Rightarrow> 'a channel \<Rightarrow> ('a pool_pc \<times> 'a channel) option" where
  "pool_step flag Pt_loop ch = Some (if flag then Pt_exited else Pt_receive, ch)"
| "pool_step flag Pt_receive ch =
     (case receive_for None ch of
        Ret c ns (Ch_result (Some x) st) \<Rightarrow> Some (Pt_run x, c)
      | Ret c ns r \<Rightarrow> Some (Pt_check, c)
      | Wait c t \<Rightarrow> Some (Pt_check, ch))"
| "pool_step flag Pt_check ch = Some (if is_closed ch then Pt_exited else Pt_loop, ch)"
| "pool_step flag (Pt_run x) ch = Some (Pt_loop, ch)"
| "pool_step flag Pt_exited ch = None"

section \<open>The global services\<close>

record 'a globals =
  g_timer_service :: "timer_service option"
  g_rings :: "io_service list"
  g_pool :: "'a task_scheduler"
  g_threads :: "'a pool_pc list"
  g_mem :: async_mem

text \<open>\<open>None\<close>: a null pointer is dereferenced.\<close>

definition get_timer_service :: "'a globals \<Rightarrow> timer_service option" where
  "get_timer_service g = g_timer_service g"

definition init_timer_service :: "'a globals \<Rightarrow> 'a globals" where
  "init_timer_service g = g\<lparr>g_timer_service := Some new_timer_service\<rparr>"

text \<open>
  \<open>shutdown_timer_service\<close>, once the timer thread has been joined: what is left is fired and
  the service is deleted.
\<close>

definition shutdown_timer_service ::
  "(coro \<Rightarrow> coro_turn) \<Rightarrow> 'a globals \<times> call_pc list \<times> coro_scheduler \<Rightarrow>
   ('a globals \<times> call_pc list \<times> coro_scheduler) option" where
  "shutdown_timer_service turn z =
     (case z of (g, cs, s) \<Rightarrow>
        (case g_timer_service g of
           None \<Rightarrow> Some z
         | Some ts \<Rightarrow>
             if \<not> t_running ts then Some (g\<lparr>g_timer_service := None\<rparr>, cs, s)
             else map_option (\<lambda>(w, cs', s'). (g\<lparr>g_timer_service := None, g_mem := w\<rparr>, cs', s'))
               (fire_locked turn (t_heap ts) (g_mem g, cs, s))))"

text \<open>\<open>shutdown_io_uring_service\<close>; \<open>answers\<close> are the entries the rings give for their wake-up.\<close>

definition stop_ring :: "io_service \<Rightarrow> io_service" where
  "stop_ring r = (if io_running r then shutdown_exit (r\<lparr>io_running := False\<rparr>) else r)"

definition shutdown_io_uring_service :: "'a globals \<Rightarrow> 'a globals" where
  "shutdown_io_uring_service g = g\<lparr>g_rings := map stop_ring (g_rings g)\<rparr>"

text \<open>The constructor; \<open>rets\<close> are the results of initialising the rings.\<close>

definition new_runtime ::
  "nat \<Rightarrow> int \<Rightarrow> coro \<Rightarrow> (coro \<Rightarrow> bool) \<Rightarrow> (nat \<Rightarrow> int) \<Rightarrow> 'a globals \<times> coro_sys" where
  "new_runtime processors now noop at_end rets =
     (init_timer_service
        \<lparr>g_timer_service = None, g_rings = init_rings processors rets,
         g_pool = new_task_scheduler processors now, g_threads = replicate processors Pt_loop,
         g_mem = \<lparr>wnodes = (\<lambda>p. new_node 0), gates = (\<lambda>g. False), sched = []\<rparr>\<rparr>,
      coro_init processors noop at_end)"

section \<open>The destructor\<close>

text \<open>
  Where the destructor stands, in the order of its statements.  \<open>D_queues k\<close>: it has closed the
  first \<open>k\<close> queues of the pool.  \<open>D_join k\<close>: it has joined the first \<open>k\<close> threads of the pool;
  a join returns when the thread has left its loop.
\<close>

datatype dtor_pc = D_flag | D_rings | D_timers | D_workers | D_queues nat | D_join nat | D_done

fun dtor_step ::
  "(coro \<Rightarrow> coro_turn) \<Rightarrow> dtor_pc \<Rightarrow> 'a globals \<times> coro_sys \<Rightarrow> (dtor_pc \<times> 'a globals \<times> coro_sys) option" where
  "dtor_step turn D_flag (g, ws, cs, sd, s) =
     map_option (\<lambda>(sd', s'). (D_rings, g, ws, cs, sd', s')) (shutdown_step ws sd s)"
| "dtor_step turn D_rings (g, z) = Some (D_timers, shutdown_io_uring_service g, z)"
| "dtor_step turn D_timers (g, ws, cs, sd, s) =
     map_option (\<lambda>(g', cs', s'). (D_workers, g', ws, cs', sd, s')) (shutdown_timer_service turn (g, cs, s))"
| "dtor_step turn D_workers (g, ws, cs, sd, s) =
     (if sd = Sd_end then Some (D_queues 0, g, ws, cs, sd, s) else None)"
| "dtor_step turn (D_queues k) (g, z) =
     (if k < length (workers (g_pool g))
      then Some (D_queues (Suc k), g\<lparr>g_pool := (g_pool g)\<lparr>workers :=
        (workers (g_pool g))[k := close_queue (workers (g_pool g) ! k)]\<rparr>\<rparr>, z)
      else Some (D_join 0, g, z))"
| "dtor_step turn (D_join k) (g, z) =
     (if k < length (g_threads g)
      then if g_threads g ! k = Pt_exited then Some (D_join (Suc k), g, z) else None
      else Some (D_done, g, z))"
| "dtor_step turn D_done z = None"

text \<open>
  All together: the destructor; the workers and calls of the scheduler, with the steps of
  \<open>shutdown_coro_workers\<close> only where the destructor calls it; a coroutine that runs on a
  worker and adds a timer; the threads of the pool, which look at the same flag; and calls of
  \<open>add_task\<close> and \<open>schedule_task\<close> by anybody, at any time.
\<close>

definition set_pool_thread :: "nat \<Rightarrow> 'a pool_pc \<Rightarrow> 'a channel \<Rightarrow> 'a globals \<Rightarrow> 'a globals" where
  "set_pool_thread i pc c g = g\<lparr>g_threads := (g_threads g)[i := pc], g_pool := (g_pool g)\<lparr>workers :=
     (workers (g_pool g))[i := (workers (g_pool g) ! i)\<lparr>queue := c\<rparr>]\<rparr>\<rparr>"

inductive life_step :: "(coro \<Rightarrow> coro_turn) \<Rightarrow> dtor_pc \<times> 'a globals \<times> coro_sys \<Rightarrow> dtor_pc \<times> 'a globals \<times> coro_sys \<Rightarrow> bool"
  for turn where
  dtor: "dtor_step turn d (g, z) = Some q \<Longrightarrow> life_step turn (d, g, z) q"
| coro: "coro_sys_step (ws, cs, sd, s) (ws', cs', sd', s') \<Longrightarrow> sd' = sd \<or> d = D_workers \<Longrightarrow>
    life_step turn (d, g, ws, cs, sd, s) (d, g, ws', cs', sd', s')"
| sleep: "W_run h \<in> set ws \<Longrightarrow> get_timer_service g = Some ts \<Longrightarrow>
    life_step turn (d, g, ws, cs, sd, s) (d, g\<lparr>g_timer_service := Some (push_timer e ts)\<rparr>, ws, cs, sd, s)"
| pool: "i < length (g_threads g) \<Longrightarrow>
    pool_step (shutting_down s) (g_threads g ! i) (queue (workers (g_pool g) ! i)) = Some (pc, c) \<Longrightarrow>
    life_step turn (d, g, ws, cs, sd, s) (d, set_pool_thread i pc c g, ws, cs, sd, s)"
| submit: "add_task now f x (g_pool g) = Inr (p, b) \<or> schedule_task now x (g_pool g) = Inr (p, b) \<Longrightarrow>
    life_step turn (d, g, z) (d, g\<lparr>g_pool := p\<rparr>, z)"

inductive life_reach ::
  "(coro \<Rightarrow> coro_turn) \<Rightarrow> dtor_pc \<times> 'a globals \<times> coro_sys \<Rightarrow> dtor_pc \<times> 'a globals \<times> coro_sys \<Rightarrow> bool"
  for turn z0 where
  start: "life_reach turn z0 z0"
| step: "life_reach turn z0 z \<Longrightarrow> life_step turn z z' \<Longrightarrow> life_reach turn z0 z'"

section \<open>Firing at the shutdown\<close>

text \<open>The handles that the loop schedules, in its order.\<close>

fun fired_handles :: "(uintptr \<Rightarrow> bool) \<Rightarrow> timer_entry list \<Rightarrow> coro list" where
  "fired_handles gs [] = []"
| "fired_handles gs (e # es) =
     (case view_of e of (h, g) \<Rightarrow>
        if g = 0 \<or> h = 0 \<or> gs g then fired_handles gs es else h # fired_handles (gs(g := True)) es)"

lemma fire_entry_view:
  assumes "view_of e = (h, g)"
  shows "fire_entry e w =
    (if g = 0 \<or> h = 0 \<or> gates w g then w else schedule_call h (w\<lparr>gates := (gates w)(g := True)\<rparr>))"
  using assms by (auto simp: fire_entry_def fire_gate_def)

lemma fire_entries_sched:
  "sched (fold fire_entry es w) = sched w @ fired_handles (gates w) es"
proof (induction es arbitrary: w)
  case (Cons e es)
  obtain h g where v: "view_of e = (h, g)" by fastforce
  show ?case by (simp add: fire_entry_view [OF v] Cons.IH v fun_upd_def)
qed simp

lemma gates_fold_cong: "gates x = gates y \<Longrightarrow> gates (fold fire_entry es x) = gates (fold fire_entry es y)"
proof (induction es arbitrary: x y)
  case (Cons e es)
  obtain h g where v: "view_of e = (h, g)" by fastforce
  have "gates (fire_entry e x) = gates (fire_entry e y)" using Cons.prems by (simp add: fire_entry_view [OF v])
  from Cons.IH [OF this] show ?case by simp
qed simp

text \<open>A call during the shutdown runs its coroutine, or refuses it.\<close>

definition ran_inline :: "(coro \<Rightarrow> coro_turn) \<Rightarrow> coro \<Rightarrow> coro_scheduler \<Rightarrow> coro_scheduler" where
  "ran_inline turn h s = s\<lparr>inline_log := h # inline_log s,
     done_at := if turn h = Turn_ends then (done_at s)(h := True) else done_at s\<rparr>"

lemma call_locked_inline:
  assumes "shutting_down s" "h \<noteq> 0" "\<not> h < 0x1000" "\<not> done_at s h"
  shows "call_locked turn h (cs, s) =
    (if turn h = Turn_sleeps then None else Some (cs @ [Ran_inline h], ran_inline turn h s))"
proof -
  have "(4 :: nat) = Suc (Suc (Suc (Suc 0)))" by simp
  then have "run_call 4 (Call h) s = (Call_run h, s\<lparr>inline_log := h # inline_log s\<rparr>)"
    using assms by (simp only: run_call.simps) simp
  then show ?thesis by (simp add: call_locked_def ran_inline_def)
qed

lemma ran_inline_simps [simp]:
  "shutting_down (ran_inline turn h s) = shutting_down s"
  "inline_log (ran_inline turn h s) = h # inline_log s"
  "external_coro_queue (ran_inline turn h s) = external_coro_queue s"
  "done_at (ran_inline turn h s) k \<longleftrightarrow> done_at s k \<or> turn h = Turn_ends \<and> k = h"
  by (auto simp: ran_inline_def)

lemma fire_locked_inline:
  assumes "shutting_down s" "distinct (fired_handles (gates w) es)"
    and "\<forall>h \<in> set (fired_handles (gates w) es). \<not> h < 0x1000 \<and> \<not> done_at s h"
  shows "fire_locked turn es (w, cs, s) =
    (if \<exists>h \<in> set (fired_handles (gates w) es). turn h = Turn_sleeps then None
     else Some (w\<lparr>gates := gates (fold fire_entry es w)\<rparr>,
       cs @ map Ran_inline (fired_handles (gates w) es),
       fold (ran_inline turn) (fired_handles (gates w) es) s))"
  using assms
proof (induction es arbitrary: w cs s)
  case (Cons e es)
  obtain h g where v: "view_of e = (h, g)" by fastforce
  show ?case
  proof (cases "g = 0 \<or> h = 0 \<or> gates w g")
    case True
    have "fire_entry e w = w" using True by (simp add: fire_entry_view [OF v])
    with True Cons.IH [of s w cs] Cons.prems show ?thesis by (simp add: v)
  next
    case False
    define w' where "w' = w\<lparr>gates := (gates w)(g := True)\<rparr>"
    let ?hs = "fired_handles (gates w') es" and ?G = "gates (fold fire_entry es w')"
    have hs: "fired_handles (gates w) (e # es) = h # ?hs" using False by (simp add: v w'_def)
    have d: "distinct (h # ?hs)" using Cons.prems(2) unfolding hs .
    have ok: "\<forall>k \<in> set (h # ?hs). \<not> k < 0x1000 \<and> \<not> done_at s k" using Cons.prems(3) unfolding hs .
    have call: "call_locked turn h (cs, s) =
        (if turn h = Turn_sleeps then None else Some (cs @ [Ran_inline h], ran_inline turn h s))"
      by (rule call_locked_inline) (use Cons.prems(1) ok False in auto)
    have first: "fire_locked turn (e # es) (w, cs, s) =
        (if turn h = Turn_sleeps then None
         else fire_locked turn es (w', cs @ [Ran_inline h], ran_inline turn h s))"
      using False by (simp add: v call w'_def)
    have rest: "fire_locked turn es (w', cs @ [Ran_inline h], ran_inline turn h s) =
        (if \<exists>h \<in> set ?hs. turn h = Turn_sleeps then None
         else Some (w'\<lparr>gates := ?G\<rparr>, (cs @ [Ran_inline h]) @ map Ran_inline ?hs,
           fold (ran_inline turn) ?hs (ran_inline turn h s)))"
      by (rule Cons.IH) (use Cons.prems(1) d ok in auto)
    have "gates (fire_entry e w) = gates w'" using False by (simp add: fire_entry_view [OF v] w'_def)
    from gates_fold_cong [OF this] have G: "gates (fold fire_entry (e # es) w) = ?G" by simp
    have "w'\<lparr>gates := ?G\<rparr> = w\<lparr>gates := ?G\<rparr>" by (simp add: w'_def)
    then show ?thesis unfolding first rest hs G by (cases "turn h = Turn_sleeps") simp_all
  qed
qed simp

section \<open>The phases of the destructor\<close>

lemma run_call_Suc:
  "run_call (Suc n) pc s =
     (if \<exists>h. pc = Call_run h then (pc, s)
      else case call_step False pc s of None \<Rightarrow> (pc, s) | Some (pc', s') \<Rightarrow> run_call n pc' s')"
  by (cases pc) (auto simp del: call_step.simps split: option.split)

lemma coro_reach_run_call:
  "coro_reach z (ws, cs @ [pc], sd, s) \<Longrightarrow> run_call n pc s = (pc', s') \<Longrightarrow> coro_reach z (ws, cs @ [pc'], sd, s')"
proof (induction n arbitrary: pc s)
  case (Suc n)
  show ?case
  proof (cases "(\<exists>h. pc = Call_run h) \<or> call_step False pc s = None")
    case True
    then show ?thesis using Suc.prems by (auto simp: run_call_Suc split: if_splits)
  next
    case False
    then obtain pc1 s1 where c: "call_step False pc s = Some (pc1, s1)" "run_call n pc1 s1 = (pc', s')"
      using Suc.prems(2) by (auto simp: run_call_Suc)
    have "coro_reach z (ws, cs @ [pc1], sd, s1)"
      by (rule coro_reach_call [OF Suc.prems(1), of "length cs" False pc1]) (simp_all add: c(1))
    then show ?thesis using c(2) by (rule Suc.IH)
  qed
qed simp

lemma coro_reach_call_locked:
  assumes "coro_reach z (ws, cs, sd, s)" "call_locked turn h (cs, s) = Some (cs', s')"
  shows "coro_reach z (ws, cs', sd, s')"
proof -
  obtain pc s1 where r: "run_call 4 (Call h) s = (pc, s1)" by fastforce
  have "coro_reach z (ws, cs @ [Call h], sd, s)" using coro_reach.step [OF assms(1) coro_sys_step.new_call] .
  from coro_reach_run_call [OF this r] have q: "coro_reach z (ws, cs @ [pc], sd, s1)" .
  show ?thesis
  proof (cases "\<exists>k. pc = Call_run k")
    case True
    then obtain k where k: "pc = Call_run k" by blast
    with assms(2) r obtain pc' where "call_step (turn k = Turn_ends) (Call_run k) s1 = Some (pc', s')"
      "cs' = cs @ [pc']" by (auto simp: call_locked_def split: if_splits)
    note c = this
    show ?thesis unfolding c(2)
      by (rule coro_reach_call [OF q, of "length cs" "turn k = Turn_ends" pc']) (simp_all del: call_step.simps add: c(1) [symmetric] k)
  next
    case False
    with assms(2) r q show ?thesis by (cases pc) (auto simp: call_locked_def)
  qed
qed

lemma coro_reach_fire_locked:
  "coro_reach z (ws, cs, sd, s) \<Longrightarrow> fire_locked turn es (w, cs, s) = Some (w', cs', s') \<Longrightarrow>
   coro_reach z (ws, cs', sd, s')"
proof (induction es arbitrary: w cs s)
  case (Cons e es)
  obtain h g where v: "view_of e = (h, g)" by fastforce
  show ?case
  proof (cases "g = 0 \<or> h = 0 \<or> gates w g")
    case True
    then show ?thesis using Cons by (simp add: v)
  next
    case False
    then obtain cs1 s1 where c: "call_locked turn h (cs, s) = Some (cs1, s1)"
      "fire_locked turn es (w\<lparr>gates := (gates w)(g := True)\<rparr>, cs1, s1) = Some (w', cs', s')"
      using Cons.prems(2) by (auto simp: v split: option.splits)
    show ?thesis by (rule Cons.IH [OF coro_reach_call_locked [OF Cons.prems(1) c(1)] c(2)])
  qed
qed simp

text \<open>
  What is gone in each phase; a ring that could not be initialised never runs.  Of the pool the
  queues are closed and the threads joined up to a position.
\<close>

fun closed_to :: "nat \<Rightarrow> dtor_pc \<Rightarrow> nat" where
  "closed_to n (D_queues k) = k" | "closed_to n (D_join k) = n" | "closed_to n D_done = n" | "closed_to n d = 0"

fun joined_to :: "nat \<Rightarrow> dtor_pc \<Rightarrow> nat" where
  "joined_to n (D_join k) = k" | "joined_to n D_done = n" | "joined_to n d = 0"

definition pool_gone :: "nat \<Rightarrow> dtor_pc \<Rightarrow> 'a globals \<Rightarrow> bool" where
  "pool_gone n d g \<longleftrightarrow> length (workers (g_pool g)) = n \<and> length (g_threads g) = n
     \<and> closed_to n d \<le> n \<and> joined_to n d \<le> n
     \<and> (\<forall>j < closed_to n d. is_closed (queue (workers (g_pool g) ! j)))
     \<and> (\<forall>j < joined_to n d. g_threads g ! j = Pt_exited)"

definition past_workers :: "dtor_pc \<Rightarrow> bool" where
  "past_workers d \<longleftrightarrow> d \<notin> {D_flag, D_rings, D_timers, D_workers}"

definition gone :: "nat \<Rightarrow> dtor_pc \<Rightarrow> 'a globals \<Rightarrow> CoroScheduler.shutdown_pc \<Rightarrow> bool" where
  "gone n d g sd \<longleftrightarrow> (d = D_flag \<longleftrightarrow> sd = Sd_idle)
     \<and> (\<forall>r \<in> set (g_rings g). has_ring r \<longrightarrow> io_running r \<and> (d = D_flag \<or> d = D_rings))
     \<and> (\<forall>r \<in> set (g_rings g). io_running r \<longrightarrow> d = D_flag \<or> d = D_rings)
     \<and> (d = D_workers \<or> past_workers d \<longrightarrow> g_timer_service g = None)
     \<and> (past_workers d \<longrightarrow> sd = Sd_end) \<and> pool_gone n d g"

lemma closed_queue: "is_closed (queue (close_queue w))"
  by (simp add: close_queue_def close_store_def on_close_def)

lemma pool_step_closed: "pool_step flag pc ch = Some (pc', ch') \<Longrightarrow> is_closed ch' = is_closed ch"
  by (cases pc) (auto simp: receive_for_def wait_for_condition_for_def pop_value_def Let_def
      split: if_splits list.splits)

lemma closed_update:
  "is_closed (queue w) = is_closed (queue (ws ! k)) \<Longrightarrow> j < length ws \<Longrightarrow>
   is_closed (queue (ws[k := w] ! j)) = is_closed (queue (ws ! j))"
  by (cases "j = k") auto

text \<open>A submission changes one queue that is open, and leaves it open.\<close>

lemma submit_shape:
  assumes "add_task now f x ts = Inr (p, b) \<or> schedule_task now x ts = Inr (p, b)"
  shows "length (workers p) = length (workers ts)
    \<and> (\<forall>j < length (workers ts). is_closed (queue (workers p ! j)) = is_closed (queue (workers ts ! j)))"
  using assms
  by (auto simp: add_task_def schedule_task_def enqueue_cases Let_def closed_update
      split: if_splits sum.splits)

lemma submit_pool:
  assumes "add_task now f x (g_pool g) = Inr (p, b) \<or> schedule_task now x (g_pool g) = Inr (p, b)" "pool_gone n d g"
  shows "pool_gone n d (g\<lparr>g_pool := p\<rparr>)"
  using submit_shape [OF assms(1)] assms(2) by (auto simp: pool_gone_def)

lemma thread_pool:
  assumes "pool_step flag (g_threads g ! i) (queue (workers (g_pool g) ! i)) = Some (pc, c)"
    "i < length (g_threads g)" "pool_gone n d g"
  shows "pool_gone n d (set_pool_thread i pc c g)"
proof -
  have "g_threads g ! i \<noteq> Pt_exited" using assms(1) by auto
  with pool_step_closed [OF assms(1)] assms(2,3) show ?thesis
    by (auto simp: pool_gone_def set_pool_thread_def nth_list_update)
qed

lemma set_pool_thread_simps [simp]:
  "g_rings (set_pool_thread i pc c g) = g_rings g" "g_timer_service (set_pool_thread i pc c g) = g_timer_service g"
  by (simp_all add: set_pool_thread_def)

lemma shutdown_timer_service_keeps:
  assumes "shutdown_timer_service turn (g, cs, s) = Some (g', cs', s')"
  shows "g_timer_service g' = None \<and> g_rings g' = g_rings g \<and> g_pool g' = g_pool g \<and> g_threads g' = g_threads g"
  using assms by (auto simp: shutdown_timer_service_def split: option.splits if_splits)

lemma shutdown_timer_service_reach:
  assumes "coro_reach z (ws, cs, sd, s)" "shutdown_timer_service turn (g, cs, s) = Some (g', cs', s')"
  shows "coro_reach z (ws, cs', sd, s')"
  using assms coro_reach_fire_locked [OF assms(1)]
  by (auto simp: shutdown_timer_service_def split: option.splits if_splits)

lemma idle_step: "shutdown_step ws Sd_idle s = Some (sd', s') \<Longrightarrow> sd' = Sd_notify"
  by auto

lemma sd_leaves_idle:
  assumes "coro_sys_step (ws, cs, sd, s) (ws', cs', sd', s')"
  shows "sd' = sd \<or> sd' \<noteq> Sd_idle"
  using assms
proof cases
  case (shutdown)
  then show ?thesis by (cases sd) (auto split: if_splits)
qed auto

lemma dtor_gone:
  assumes "dtor_step turn d (g, ws, cs, sd, s) = Some (d', g', ws', cs', sd', s')"
    and "gone n d g sd" "coro_reach z (ws, cs, sd, s)"
  shows "gone n d' g' sd' \<and> coro_reach z (ws', cs', sd', s')"
proof (cases d)
  case D_flag
  then have sd: "sd = Sd_idle" using assms(2) by (simp add: gone_def)
  then have n: "d' = D_rings" "g' = g" "ws' = ws" "cs' = cs" "sd' = Sd_notify" "shutdown_step ws sd s = Some (sd', s')"
    using assms(1) D_flag by auto
  have "coro_reach z (ws, cs, sd', s')" using coro_reach.step [OF assms(3) coro_sys_step.shutdown [OF n(6)]] .
  then show ?thesis using assms(2) D_flag n by (auto simp: gone_def past_workers_def pool_gone_def)
next
  case D_rings
  then show ?thesis using assms
    by (auto simp: gone_def shutdown_io_uring_service_def stop_ring_def shutdown_exit_def past_workers_def pool_gone_def)
next
  case D_timers
  then obtain t: "shutdown_timer_service turn (g, cs, s) = Some (g', cs', s')" and
    "d' = D_workers" "ws' = ws" "sd' = sd" using assms(1) by auto
  with shutdown_timer_service_keeps [OF t] shutdown_timer_service_reach [OF assms(3) t] assms(2) D_timers
  show ?thesis by (auto simp: gone_def past_workers_def pool_gone_def)
next
  case D_workers
  then show ?thesis using assms by (auto simp: gone_def past_workers_def pool_gone_def split: if_splits)
next
  case (D_queues k)
  show ?thesis
  proof (cases "k < length (workers (g_pool g))")
    case True
    then show ?thesis using D_queues assms closed_queue
      by (auto simp: gone_def past_workers_def pool_gone_def nth_list_update less_Suc_eq)
  next
    case False
    then show ?thesis using D_queues assms by (auto simp: gone_def past_workers_def pool_gone_def)
  qed
next
  case (D_join k)
  then show ?thesis using assms
    by (auto simp: gone_def past_workers_def pool_gone_def less_Suc_eq split: if_splits)
qed (use assms(1) in simp)

lemma life_inv:
  assumes "life_reach turn (D_flag, new_runtime n now noop at_end rets) (d, g, ws, cs, sd, s)"
  shows "gone n d g sd \<and> coro_reach (coro_init n noop at_end) (ws, cs, sd, s)"
  using assms
proof (induction "(d, g, ws, cs, sd, s)" arbitrary: d g ws cs sd s)
  case start
  then have "g_timer_service g = Some new_timer_service" "g_rings g = init_rings n rets"
    "length (workers (g_pool g)) = n" "length (g_threads g) = n"
    "(ws, cs, sd, s) = coro_init n noop at_end" "sd = Sd_idle"
    by (auto simp: new_runtime_def init_timer_service_def coro_init_def new_task_scheduler_def)
  then show ?case using coro_reach.start [of "coro_init n noop at_end"]
    by (auto simp: gone_def init_rings_def new_io_service_def past_workers_def pool_gone_def)
next
  case (step z)
  from step(3) show ?case
  proof cases
    case (dtor d0 g0 z0)
    obtain ws0 cs0 sd0 s0 where z: "z0 = (ws0, cs0, sd0, s0)" by (cases z0) auto
    with dtor step(2) have I: "gone n d0 g0 sd0" "coro_reach (coro_init n noop at_end) (ws0, cs0, sd0, s0)" by simp_all
    from dtor_gone [OF _ I] dtor z show ?thesis by simp
  next
    case (coro ws0 cs0 sd0 s0)
    with step(2) have I: "gone n d g sd0" "coro_reach (coro_init n noop at_end) (ws0, cs0, sd0, s0)" by simp_all
    have "coro_reach (coro_init n noop at_end) (ws, cs, sd, s)" using coro_reach.step [OF I(2) coro(2)] .
    then show ?thesis using I(1) coro(3) sd_leaves_idle [OF coro(2)] by (auto simp: gone_def past_workers_def)
  next
    case (sleep h g0 ts e)
    with step(2) have "gone n d g0 sd" "coro_reach (coro_init n noop at_end) (ws, cs, sd, s)" by simp_all
    then show ?thesis using sleep by (auto simp: gone_def get_timer_service_def pool_gone_def)
  next
    case (pool i g0 pc c)
    with step(2) have I: "gone n d g0 sd" "coro_reach (coro_init n noop at_end) (ws, cs, sd, s)" by simp_all
    from thread_pool [OF pool(4,3), of n d] I(1) have "pool_gone n d g" by (simp add: gone_def pool(2))
    then show ?thesis using I by (auto simp: gone_def pool(2))
  next
    case (submit now f x g0 p b)
    with step(2) have I: "gone n d g0 sd" "coro_reach (coro_init n noop at_end) (ws, cs, sd, s)" by simp_all
    from submit_pool [OF submit(3), of n d] I(1) have "pool_gone n d g" by (simp add: gone_def submit(2))
    then show ?thesis using I by (auto simp: gone_def submit(2))
  qed
qed

text \<open>The flag is set by the shutdown only.\<close>

lemma call_step_flag: "call_step fin pc s = Some (pc', s') \<Longrightarrow> shutting_down s' = shutting_down s"
  by (cases pc) (auto simp: call_send simp del: call_step.simps(6) split: if_splits)

lemma worker_step_flag: "worker_step rnd fin me pc s = Some (pc', s') \<Longrightarrow> shutting_down s' = shutting_down s"
  by (cases pc) (auto simp: worker_step.simps(2,4) worker_external take_handle_def Let_def
      split: if_splits option.splits prod.splits list.splits)

lemma coro_flag_after:
  assumes "coro_reach (coro_init n noop at_end) (ws, cs, sd, s)"
  shows "shutting_down s \<longrightarrow> sd \<noteq> Sd_idle"
  using assms
proof (induction "(ws, cs, sd, s)" arbitrary: ws cs sd s)
  case start
  then show ?case by (auto simp: coro_init_def)
next
  case (step q)
  obtain ws0 cs0 sd0 s0 where q: "q = (ws0, cs0, sd0, s0)" by (cases q) auto
  have ih: "shutting_down s0 \<longrightarrow> sd0 \<noteq> Sd_idle" using step(2) q by simp
  from step(3) [unfolded q] show ?case
  proof cases
    case shutdown
    then show ?thesis using ih by (cases sd0) (auto split: if_splits)
  qed (use ih worker_step_flag call_step_flag in auto)
next
  case (spurious q)
  then show ?case by (cases q) (auto elim!: coro_spuriousE)
qed

text \<open>Once the workers are joined the external queue is closed.\<close>

lemma worker_step_keeps_queue:
  "worker_step rnd fin me pc s = Some (pc', s') \<Longrightarrow>
   is_closed (external_coro_queue s') = is_closed (external_coro_queue s)"
  by (cases pc) (auto simp: worker_step.simps(2,4) worker_external take_handle_def Let_def
      split: if_splits option.splits prod.splits list.splits)

lemma call_step_keeps_queue:
  "call_step fin pc s = Some (pc', s') \<Longrightarrow>
   is_closed (external_coro_queue s') = is_closed (external_coro_queue s)"
  by (cases pc) (auto simp: call_send simp del: call_step.simps(6) split: if_splits)

lemma coro_closed_after:
  assumes "coro_reach (coro_init n noop at_end) (ws, cs, sd, s)"
  shows "sd = Sd_end \<or> (\<exists>i. sd = Sd_join i) \<longrightarrow> is_closed (external_coro_queue s)"
  using assms
proof (induction "(ws, cs, sd, s)" arbitrary: ws cs sd s)
  case start
  then show ?case by (auto simp: coro_init_def)
next
  case (step q)
  obtain ws0 cs0 sd0 s0 where q: "q = (ws0, cs0, sd0, s0)" by (cases q) auto
  have ih: "sd0 = Sd_end \<or> (\<exists>i. sd0 = Sd_join i) \<longrightarrow> is_closed (external_coro_queue s0)" using step(2) q by simp
  from step(3) [unfolded q] show ?case
  proof cases
    case shutdown
    then show ?thesis using ih
      by (cases sd0) (auto simp: close_store_def on_close_def split: if_splits)
  qed (use ih worker_step_keeps_queue call_step_keeps_queue in auto)
next
  case (spurious q)
  then show ?case by (cases q) (auto elim!: coro_spuriousE)
qed

text \<open>Runs: a step of a worker, a call, a step of the join, and the first three phases.\<close>

lemma life_worker:
  assumes "life_reach turn z (d, g, ws, cs, sd, s)" "me < length ws"
    "worker_step rnd fin me (ws ! me) s = Some (pc, s')" "ws' = ws[me := pc]"
  shows "life_reach turn z (d, g, ws', cs, sd, s')"
  using life_reach.step [OF assms(1) life_step.coro [OF coro_sys_step.worker [OF assms(2,3)]]] assms(4) by simp

lemma life_call:
  assumes "life_reach turn z (d, g, ws, cs, sd, s)" "j < length cs"
    "call_step fin (cs ! j) s = Some (pc, s')" "cs' = cs[j := pc]"
  shows "life_reach turn z (d, g, ws, cs', sd, s')"
  using life_reach.step [OF assms(1) life_step.coro [OF coro_sys_step.call [OF assms(2,3)]]] assms(4) by simp

lemma life_join:
  assumes "life_reach turn z (D_workers, g, ws, cs, sd, s)"
    "coro_sys_step (ws, cs, sd, s) (ws', cs', sd', s')"
  shows "life_reach turn z (D_workers, g, ws', cs', sd', s')"
  using life_reach.step [OF assms(1) life_step.coro [OF assms(2)]] by simp

lemma dtor_three:
  assumes "life_reach turn z (D_flag, g, ws, cs, Sd_idle, s)" "g_timer_service g = Some ts" "t_heap ts = []"
  shows "\<exists>g'. life_reach turn z (D_workers, g', ws, cs, Sd_notify, s\<lparr>shutting_down := True\<rparr>)
    \<and> g_pool g' = g_pool g \<and> g_threads g' = g_threads g"
proof -
  let ?g = "shutdown_io_uring_service g" and ?s = "s\<lparr>shutting_down := True\<rparr>"
  have "life_reach turn z (D_rings, g, ws, cs, Sd_notify, ?s)"
    by (rule life_reach.step [OF assms(1)], rule life_step.dtor) simp
  then have "life_reach turn z (D_timers, ?g, ws, cs, Sd_notify, ?s)"
    by (rule life_reach.step) (rule life_step.dtor, simp)
  moreover have "\<exists>g'. dtor_step turn D_timers (?g, ws, cs, Sd_notify, ?s) = Some (D_workers, g', ws, cs, Sd_notify, ?s)
      \<and> g_pool g' = g_pool g \<and> g_threads g' = g_threads g"
    using assms(2,3) by (simp add: shutdown_io_uring_service_def shutdown_timer_service_def)
  ultimately show ?thesis using life_reach.step life_step.dtor by blast
qed

lemma one_handle_queued:
  assumes "\<not> at_end h" "0x1000 \<le> h"
  shows "\<exists>s. life_reach turn (D_flag, g, coro_init 1 noop at_end) (D_flag, g, [W_loop], [Queued h], Sd_idle, s)
    \<and> buffer (external_coro_queue s) = [h] \<and> local_empty s \<and> length (coro_queues s) = 1
    \<and> \<not> shutting_down s \<and> done_at s = at_end \<and> noop_coroutine s = noop \<and> taken_log s = [] \<and> inline_log s = []"
proof -
  let ?z = "(D_flag, g, coro_init 1 noop at_end)" and ?s = "init_coro_workers 1 noop at_end"
  let ?q = "?s\<lparr>external_coro_queue := new_channel\<lparr>buffer := [h]\<rparr>\<rparr>"
  have h: "h \<noteq> 0" "\<not> h < 0x1000" using assms(2) by auto
  have "life_reach turn ?z (D_flag, g, [W_loop], [], Sd_idle, ?s)"
    using life_reach.start [of turn ?z] by (simp add: coro_init_def)
  from life_reach.step [OF this life_step.coro [OF coro_sys_step.new_call]]
  have "life_reach turn ?z (D_flag, g, [W_loop], [Call h], Sd_idle, ?s)" by simp
  then have "life_reach turn ?z (D_flag, g, [W_loop], [Call_flag h], Sd_idle, ?s)"
    by (rule life_call [where j = 0]) (use assms h in auto)
  then have "life_reach turn ?z (D_flag, g, [W_loop], [Call_workers h], Sd_idle, ?s)"
    by (rule life_call [where j = 0]) auto
  then have "life_reach turn ?z (D_flag, g, [W_loop], [Call_send h], Sd_idle, ?s)"
    by (rule life_call [where j = 0]) (auto simp: init_coro_workers_def)
  then have "life_reach turn ?z (D_flag, g, [W_loop], [Call_notify h], Sd_idle, ?q)"
    by (rule life_call [where j = 0]) (auto simp: call_send new_channel_def)
  then have "life_reach turn ?z (D_flag, g, [W_loop], [Queued h], Sd_idle, ?q)"
    using life_reach.step [OF _ life_step.coro [OF coro_sys_step.notify_nobody [of 0 "[Call_notify h]" h "[W_loop]"]]]
    by fastforce
  then show ?thesis using init_empty [of 1 noop at_end]
    by (intro exI [of _ ?q]) (simp add: local_empty_def init_coro_workers_def)
qed

text \<open>The end of the destructor, with one thread of the pool that has just looked for a task.\<close>

lemma pool_joined:
  assumes "life_reach turn z (D_queues 0, g, ws, cs, sd, s)" "length (workers (g_pool g)) = 1"
    "g_threads g = [Pt_loop]" "shutting_down s"
  shows "\<exists>g'. life_reach turn z (D_done, g', ws, cs, sd, s)"
proof -
  let ?g = "g\<lparr>g_pool := (g_pool g)\<lparr>workers := (workers (g_pool g))[0 := close_queue (workers (g_pool g) ! 0)]\<rparr>\<rparr>"
  have "life_reach turn z (D_queues 1, ?g, ws, cs, sd, s)"
    by (rule life_reach.step [OF assms(1)], rule life_step.dtor) (simp add: assms(2))
  then have joins: "life_reach turn z (D_join 0, ?g, ws, cs, sd, s)"
    by (rule life_reach.step) (rule life_step.dtor, simp add: assms(2))
  let ?c = "queue (workers (g_pool ?g) ! 0)" let ?h = "set_pool_thread 0 Pt_exited ?c ?g"
  have "life_reach turn z (D_join 0, ?h, ws, cs, sd, s)"
    by (rule life_reach.step [OF joins], rule life_step.pool) (simp_all add: assms(2-4))
  then have "life_reach turn z (D_join 1, ?h, ws, cs, sd, s)"
    by (rule life_reach.step) (rule life_step.dtor, simp add: assms(3) set_pool_thread_def)
  then have "life_reach turn z (D_done, ?h, ws, cs, sd, s)"
    by (rule life_reach.step) (rule life_step.dtor, simp add: assms(3) set_pool_thread_def)
  then show ?thesis by blast
qed

section \<open>Properties\<close>

text \<open>
  C24. When the destructor is over, every coroutine worker has left its loop and the queue they
  take from is closed; the timer service is gone; no ring runs or can be used; and of the task
  pool, which still has a thread and a queue for each processor, every queue is closed and
  every thread has left its loop: whatever the workers, the pool, the calls, the submissions
  and the coroutines did meanwhile.  No worker leaves its loop before the destructor has begun.
\<close>

theorem shutdown_complete:
  assumes "life_reach turn (D_flag, new_runtime n now noop at_end rets) (d, g, ws, cs, sd, s)" "n < 2 ^ 64"
  shows "(d = D_done \<longrightarrow> (\<forall>pc \<in> set ws. pc = W_exited) \<and> is_closed (external_coro_queue s)
      \<and> get_timer_service g = None
      \<and> (\<forall>r \<in> set (g_rings g). \<not> io_running r \<and> \<not> has_ring r)
      \<and> length (workers (g_pool g)) = n \<and> (\<forall>w \<in> set (workers (g_pool g)). is_closed (queue w))
      \<and> g_threads g = replicate n Pt_exited)
    \<and> (W_exited \<in> set ws \<longrightarrow> d \<noteq> D_flag \<and> shutting_down s)"
proof -
  note I = life_inv [OF assms(1)]
  have A: "accounted (ws, cs, sd, s)" using accounted_reach [OF _ assms(2)] I by blast
  have flag: "shutting_down s \<longrightarrow> sd \<noteq> Sd_idle" using coro_flag_after [OF conjunct2 [OF I]] .
  have ends: "is_closed (external_coro_queue s) \<and> sd = Sd_end \<and> get_timer_service g = None
      \<and> (\<forall>r \<in> set (g_rings g). \<not> io_running r \<and> \<not> has_ring r) \<and> pool_gone n D_done g" if "d = D_done"
    using I coro_closed_after [OF conjunct2 [OF I]] that by (auto simp: gone_def past_workers_def get_timer_service_def)
  have pool: "length (workers (g_pool g)) = n \<and> (\<forall>w \<in> set (workers (g_pool g)). is_closed (queue w))
      \<and> g_threads g = replicate n Pt_exited" if "pool_gone n D_done g"
    using that by (auto simp: pool_gone_def in_set_conv_nth intro: nth_equalityI)
  show ?thesis using A I flag ends pool by (auto simp: accounted_def gone_def)
qed

text \<open>
  The joins of the pool come to an end, if the tasks do: once the flag is set and a queue is
  closed, its thread has a next step until it has left its loop, and has left it after three.
\<close>

fun pool_left :: "'a pool_pc \<Rightarrow> nat" where
  "pool_left Pt_receive = 3" | "pool_left (Pt_run x) = 2" | "pool_left Pt_check = 1" | "pool_left Pt_loop = 1"
| "pool_left Pt_exited = 0"

theorem pool_thread_leaves:
  assumes "is_closed ch" "pc \<noteq> Pt_exited"
  shows "\<exists>pc' ch'. pool_step True pc ch = Some (pc', ch') \<and> pool_left pc' < pool_left pc \<and> is_closed ch'"
  using assms by (cases pc) (auto simp: receive_for_def wait_for_condition_for_def has_value_or_closed_def
      pop_value_def Let_def split: list.splits)

text \<open>
  The timer service promises that at its shutdown no coroutine is left hanging: it schedules
  the handles of the timers that are left.  The flag is set by then, so each call runs its
  coroutine at once, in the thread that shuts down and that holds the mutex of the service:
  if none of the coroutines sleeps again they all run, each once and in the order of the
  heap, nothing comes into the queue, and the gates are closed; if one does, that thread
  waits for its own mutex and the shutdown never returns.
\<close>

theorem shutdown_runs_sleepers_inline:
  assumes "shutting_down s" "g_timer_service g = Some ts" "t_running ts"
    and "hs = fired_handles (gates (g_mem g)) (t_heap ts)" "distinct hs"
    and "\<forall>h \<in> set hs. 0x1000 \<le> h \<and> \<not> done_at s h"
  shows "sched (snd (fire_remaining ts (g_mem g))) = sched (g_mem g) @ hs
    \<and> (if \<exists>h \<in> set hs. turn h = Turn_sleeps
       then dtor_step turn D_timers (g, ws, cs, sd, s) = None
       else \<exists>g' s'. dtor_step turn D_timers (g, ws, cs, sd, s)
              = Some (D_workers, g', ws, cs @ map Ran_inline hs, sd, s')
            \<and> inline_log s' = rev hs @ inline_log s \<and> external_coro_queue s' = external_coro_queue s
            \<and> gates (g_mem g') = gates (snd (fire_remaining ts (g_mem g))) \<and> get_timer_service g' = None)"
proof -
  have fire: "fire_locked turn (t_heap ts) (g_mem g, cs, s) =
    (if \<exists>h \<in> set hs. turn h = Turn_sleeps then None
     else Some ((g_mem g)\<lparr>gates := gates (fold fire_entry (t_heap ts) (g_mem g))\<rparr>,
       cs @ map Ran_inline hs, fold (ran_inline turn) hs s))"
    unfolding assms(4) by (rule fire_locked_inline) (use assms in auto)
  have log: "inline_log (fold (ran_inline turn) ks t) = rev ks @ inline_log t
      \<and> external_coro_queue (fold (ran_inline turn) ks t) = external_coro_queue t" for ks t
    by (induction ks arbitrary: t) simp_all
  have "sched (snd (fire_remaining ts (g_mem g))) = sched (g_mem g) @ hs"
    by (simp add: fire_remaining_def fire_entries_sched assms(4))
  then show ?thesis using assms(2,3) log [of hs s]
    by (simp add: shutdown_timer_service_def fire fire_remaining_def get_timer_service_def)
qed

text \<open>
  The services are stopped before the workers are joined, although the comment on the pool of
  rings says that it is the other way round: there is a run in which a worker still runs a
  coroutine when the rings are gone and the timer service has been deleted, so that a sleep
  of that coroutine dereferences a null pointer.
\<close>

theorem late_sleep_uses_null:
  assumes "\<not> at_end h" "0x1000 \<le> h" "h \<noteq> noop"
  shows "\<exists>g cs s. life_reach turn (D_flag, new_runtime 1 now noop at_end rets :: 'p globals \<times> coro_sys)
      (D_workers, g, [W_run h], cs, Sd_notify, s)
    \<and> get_timer_service g = None \<and> (\<forall>r \<in> set (g_rings g). \<not> has_ring r)"
proof -
  obtain g :: "'p globals" where g: "new_runtime 1 now noop at_end rets = (g, coro_init 1 noop at_end)"
    and t: "g_timer_service g = Some new_timer_service"
    by (simp add: new_runtime_def init_timer_service_def)
  obtain s where r: "life_reach turn (D_flag, g, coro_init 1 noop at_end) (D_flag, g, [W_loop], [Queued h], Sd_idle, s)"
    and b: "buffer (external_coro_queue s) = [h]" and l: "local_empty s" "length (coro_queues s) = 1"
      "\<not> shutting_down s" "done_at s = at_end" "noop_coroutine s = noop"
    using one_handle_queued [of at_end h turn g noop, OF assms(1,2)] by blast
  let ?q = "s\<lparr>external_coro_queue := (external_coro_queue s)\<lparr>buffer := []\<rparr>\<rparr>"
  have res: "resumable h s" "resumable h ?q" using assms l by (auto simp: resumable_def)
  have p: "worker_step 0 False 0 W_pop s = Some (W_external, s)" using worker_pop_empty [OF l(1)] l(2) by simp
  have e: "worker_step 0 False 0 W_external s = Some (W_run h, take_handle h ?q)"
    using b res by (simp add: worker_external)
  have "life_reach turn (D_flag, g, coro_init 1 noop at_end) (D_flag, g, [W_pop], [Queued h], Sd_idle, s)"
    by (rule life_worker [OF r, of 0 0 False W_pop]) (simp_all add: l)
  from life_worker [OF this, of 0 0 False W_external s] p
  have "life_reach turn (D_flag, g, coro_init 1 noop at_end) (D_flag, g, [W_external], [Queued h], Sd_idle, s)" by simp
  from life_worker [OF this, of 0 0 False "W_run h"] e
  have "life_reach turn (D_flag, g, coro_init 1 noop at_end)
      (D_flag, g, [W_run h], [Queued h], Sd_idle, take_handle h ?q)" by simp
  from dtor_three [OF this t] obtain g' where
    f: "life_reach turn (D_flag, g, coro_init 1 noop at_end)
      (D_workers, g', [W_run h], [Queued h], Sd_notify, (take_handle h ?q)\<lparr>shutting_down := True\<rparr>)"
    by (auto simp: new_timer_service_def)
  note f' = f [folded g]
  have "gone 1 D_workers g' Sd_notify" using life_inv [OF f'] by blast
  then have "get_timer_service g' = None" "\<forall>r \<in> set (g_rings g'). \<not> has_ring r"
    by (auto simp: gone_def get_timer_service_def)
  note gone = this
  show ?thesis
    by (rule exI [of _ g'], rule exI, rule exI, intro conjI) (fact f', fact gone(1), fact gone(2))
qed

text \<open>
  A coroutine that is queued when the destructor begins can be dropped: the workers look at
  the flag before they look at the queue.  There is a run to the end of the destructor after
  which the handle is still in the queue and nobody has resumed it.
\<close>

theorem queued_coroutine_dropped:
  assumes "\<not> at_end h" "0x1000 \<le> h"
  shows "\<exists>g s. life_reach turn (D_flag, new_runtime 1 now noop at_end rets :: 'p globals \<times> coro_sys)
      (D_done, g, [W_exited], [Queued h], Sd_end, s)
    \<and> buffer (external_coro_queue s) = [h] \<and> taken_log s = [] \<and> inline_log s = []"
proof -
  let ?z = "(D_flag, new_runtime 1 now noop at_end rets :: 'p globals \<times> coro_sys)"
  obtain g :: "'p globals" where g: "new_runtime 1 now noop at_end rets = (g, coro_init 1 noop at_end)"
    and t: "g_timer_service g = Some new_timer_service"
    by (simp add: new_runtime_def init_timer_service_def)
  obtain s where r: "life_reach turn ?z (D_flag, g, [W_loop], [Queued h], Sd_idle, s)"
    and b: "buffer (external_coro_queue s) = [h]" "taken_log s = []" "inline_log s = []"
    using one_handle_queued [of at_end h turn g noop, OF assms] unfolding g by blast
  have empty: "t_heap new_timer_service = []" by (simp add: new_timer_service_def)
  let ?s = "s\<lparr>shutting_down := True\<rparr>"
  let ?c = "?s\<lparr>external_coro_queue := outcome_state (on_close (outcome_state
      (close_store (external_coro_queue s)) (external_coro_queue s))) (external_coro_queue s)\<rparr>"
  obtain g' where w: "life_reach turn ?z (D_workers, g', [W_loop], [Queued h], Sd_notify, ?s)"
    and pool: "length (workers (g_pool g')) = 1" "g_threads g' = [Pt_loop]"
    using dtor_three [OF r t] empty g
    by (auto simp: new_runtime_def init_timer_service_def new_task_scheduler_def)
  have "life_reach turn ?z (D_workers, g', [W_exited], [Queued h], Sd_notify, ?s)"
    by (rule life_worker [OF w, where me = 0 and rnd = 0 and fin = False]) simp_all
  then have "life_reach turn ?z (D_workers, g', [W_exited], [Queued h], Sd_close, ?s)"
    by (rule life_join) (use coro_sys_step.notify_all [of "[W_exited]"] in \<open>simp add: woken_def\<close>)
  then have "life_reach turn ?z (D_workers, g', [W_exited], [Queued h], Sd_join 0, ?c)"
    by (rule life_join) (rule coro_sys_step.shutdown, simp)
  then have "life_reach turn ?z (D_workers, g', [W_exited], [Queued h], Sd_join 1, ?c)"
    by (rule life_join) (rule coro_sys_step.shutdown, simp)
  then have "life_reach turn ?z (D_workers, g', [W_exited], [Queued h], Sd_end, ?c\<lparr>coro_queues := []\<rparr>)"
    by (rule life_join) (rule coro_sys_step.shutdown, simp)
  then have "life_reach turn ?z (D_queues 0, g', [W_exited], [Queued h], Sd_end, ?c\<lparr>coro_queues := []\<rparr>)"
    by (rule life_reach.step) (rule life_step.dtor, simp)
  then have "\<exists>g. life_reach turn ?z (D_done, g, [W_exited], [Queued h], Sd_end, ?c\<lparr>coro_queues := []\<rparr>)"
    by (rule pool_joined [OF _ pool]) simp
  moreover have "buffer (external_coro_queue (?c\<lparr>coro_queues := []\<rparr>)) = [h]"
      "taken_log (?c\<lparr>coro_queues := []\<rparr>) = []" "inline_log (?c\<lparr>coro_queues := []\<rparr>) = []"
    using b by (simp_all add: close_store_def on_close_def)
  ultimately show ?thesis by blast
qed

section \<open>Witnesses\<close>

text \<open>
  A run to the end of the destructor: a handle is submitted, the worker sees the flag and leaves,
  and everything is stopped and joined.
\<close>

theorem shutdown_complete_witness:
  "\<exists>(g :: nat globals) s. life_reach (\<lambda>h. Turn_ends) (D_flag, new_runtime 1 0 8 (\<lambda>h. False) (\<lambda>i. 0))
      (D_done, g, [W_exited], [Queued 0x2000], Sd_end, s)
    \<and> get_timer_service g = None \<and> is_closed (external_coro_queue s) \<and> g_threads g = [Pt_exited]
    \<and> length (workers (g_pool g)) = 1 \<and> (\<forall>w \<in> set (workers (g_pool g)). is_closed (queue w))
    \<and> (\<forall>r \<in> set (g_rings g). \<not> io_running r) \<and> shutting_down s"
proof -
  obtain g :: "nat globals" and s where r: "life_reach (\<lambda>h. Turn_ends)
      (D_flag, new_runtime 1 0 8 (\<lambda>h. False) (\<lambda>i. 0)) (D_done, g, [W_exited], [Queued 0x2000], Sd_end, s)"
    using queued_coroutine_dropped [of "\<lambda>h. False" "0x2000" "\<lambda>h. Turn_ends" 0 8 "\<lambda>i. 0"] by auto
  from shutdown_complete [OF r] r show ?thesis by (intro exI [of _ g] exI [of _ s]) simp
qed

text \<open>One timer is left, of the coroutine at 0x2000.\<close>

definition late_timer :: timer_entry where
  "late_timer = \<lparr>te_deadline = 90, te_handle = 0x2000, te_cancel_state = 0, te_fired = 24, te_waiter = None\<rparr>"

definition late_globals :: "nat globals" where
  "late_globals = \<lparr>g_timer_service = Some \<lparr>t_heap = [late_timer], t_running = True\<rparr>, g_rings = [],
     g_pool = \<lparr>workers = [], task_durations = Map.empty\<rparr>, g_threads = [],
     g_mem = \<lparr>wnodes = (\<lambda>p. new_node 0), gates = (\<lambda>g. False), sched = []\<rparr>\<rparr>"

definition late_scheduler :: coro_scheduler where
  "late_scheduler = (init_coro_workers 1 8 (\<lambda>h. False))\<lparr>shutting_down := True\<rparr>"

theorem shutdown_runs_sleepers_inline_witness:
  "dtor_step (\<lambda>h. Turn_sleeps) D_timers (late_globals, [W_exited], [], Sd_notify, late_scheduler) = None
   \<and> (\<exists>g' s'. dtor_step (\<lambda>h. Turn_suspends) D_timers (late_globals, [W_exited], [], Sd_notify, late_scheduler)
        = Some (D_workers, g', [W_exited], [Ran_inline 0x2000], Sd_notify, s') \<and> inline_log s' = [0x2000])"
proof -
  have f: "fired_handles (gates (g_mem late_globals)) (t_heap \<lparr>t_heap = [late_timer], t_running = True\<rparr>) = [0x2000]"
    by (simp add: late_globals_def late_timer_def view_of_def)
  have s: "shutting_down late_scheduler" "\<not> done_at late_scheduler 0x2000" "inline_log late_scheduler = []"
    "g_timer_service late_globals = Some \<lparr>t_heap = [late_timer], t_running = True\<rparr>"
    by (simp_all add: late_scheduler_def late_globals_def init_coro_workers_def)
  show ?thesis
    using shutdown_runs_sleepers_inline [OF s(1,4) _ f [symmetric],
        of "\<lambda>h. Turn_sleeps" "[W_exited]" "[]" Sd_notify]
      shutdown_runs_sleepers_inline [OF s(1,4) _ f [symmetric],
        of "\<lambda>h. Turn_suspends" "[W_exited]" "[]" Sd_notify] s(2,3)
    by (auto simp del: dtor_step.simps)
qed

theorem late_sleep_uses_null_witness:
  "\<exists>(g :: nat globals) cs s. life_reach (\<lambda>h. Turn_ends) (D_flag, new_runtime 1 0 8 (\<lambda>h. False) (\<lambda>i. 0))
      (D_workers, g, [W_run 0x2000], cs, Sd_notify, s) \<and> get_timer_service g = None"
  using late_sleep_uses_null [of "\<lambda>h. False" "0x2000" 8 "\<lambda>h. Turn_ends" 0 "\<lambda>i. 0"] by auto

end
