(* ===== verification/Allocator.thy ===== *)
theory Allocator
  imports Prelude
begin

text \<open>
  The allocator interface (\<open>include/allocator.hpp\<close>, \<open>src/allocator.cpp\<close>).  The library that
  allocates is not part of the repository: what it returns is an argument, and the calls made
  to it are recorded.
\<close>

section \<open>The memory resource\<close>

datatype alloc_error = Bad_alloc

datatype heap_call = Malloc_aligned u64 u64 | Free_aligned uintptr u64
  | Heap_new | Heap_destroy uintptr | Heap_malloc uintptr u64 | Heap_collect uintptr bool

text \<open>\<open>p\<close>: the pointer that the library returns, 0 if it has no memory.\<close>

definition do_allocate :: "uintptr \<Rightarrow> u64 \<Rightarrow> u64 \<Rightarrow> (alloc_error + uintptr) \<times> heap_call list" where
  "do_allocate p bytes alignment =
     (if p = 0 then Inl Bad_alloc else Inr p, [Malloc_aligned bytes alignment])"

definition do_deallocate :: "uintptr \<Rightarrow> u64 \<Rightarrow> u64 \<Rightarrow> heap_call list" where
  "do_deallocate p bytes alignment = [Free_aligned p alignment]"

text \<open>Resources are equal if they are the same object.\<close>

definition do_is_equal :: "uintptr \<Rightarrow> uintptr \<Rightarrow> bool" where
  "do_is_equal this other \<longleftrightarrow> this = other"

section \<open>Arenas\<close>

text \<open>An arena holds the address of its heap, 0 if the library could not make one.\<close>

type_synonym mi_arena = uintptr

definition new_mi_arena :: "uintptr \<Rightarrow> mi_arena \<times> heap_call list" where
  "new_mi_arena p = (p, [Heap_new])"

definition destroy_mi_arena :: "mi_arena \<Rightarrow> heap_call list" where
  "destroy_mi_arena heap = (if heap \<noteq> 0 then [Heap_destroy heap] else [])"

definition arena_allocate :: "uintptr \<Rightarrow> u64 \<Rightarrow> mi_arena \<Rightarrow> uintptr \<times> heap_call list" where
  "arena_allocate p bytes heap = (p, [Heap_malloc heap bytes])"

definition arena_reset :: "mi_arena \<Rightarrow> heap_call list" where
  "arena_reset heap = (if heap \<noteq> 0 then [Heap_collect heap True] else [])"

text \<open>
  What an arena does between its making and its destruction, with the pointers that the
  library gives for the allocations.
\<close>

datatype arena_op = Allocate uintptr u64 | Reset

fun arena_calls :: "mi_arena \<Rightarrow> arena_op list \<Rightarrow> heap_call list" where
  "arena_calls heap [] = []"
| "arena_calls heap (Allocate p bytes # ops) = snd (arena_allocate p bytes heap) @ arena_calls heap ops"
| "arena_calls heap (Reset # ops) = arena_reset heap @ arena_calls heap ops"

text \<open>
  The blocks of a heap that are live after a list of calls, by what the library documents:
  destroying a heap frees its blocks, and collecting it does not free any that is in use.
  \<open>ps\<close> are the pointers given for the allocations.
\<close>

fun live_blocks :: "uintptr \<Rightarrow> heap_call list \<Rightarrow> uintptr list \<Rightarrow> uintptr set" where
  "live_blocks heap (Heap_malloc h n # cs) (p # ps) =
     (if h = heap \<and> p \<noteq> 0 \<and> Heap_destroy heap \<notin> set cs then {p} else {}) \<union> live_blocks heap cs ps"
| "live_blocks heap (c # cs) ps = live_blocks heap cs ps"
| "live_blocks heap [] ps = {}"

section \<open>Initialisation\<close>

text \<open>
  Any number of calls of \<open>init_allocator\<close>: each tries to exchange the flag, and the one that
  succeeds sets the default resource.
\<close>

datatype init_pc = In_cas | In_set | In_done

record init_sys =
  allocator_initialized :: bool
  default_set :: nat

fun init_step :: "init_pc \<Rightarrow> init_sys \<Rightarrow> init_pc \<times> init_sys" where
  "init_step In_cas s =
     (if allocator_initialized s then (In_done, s) else (In_set, s\<lparr>allocator_initialized := True\<rparr>))"
| "init_step In_set s = (In_done, s\<lparr>default_set := default_set s + 1\<rparr>)"
| "init_step In_done s = (In_done, s)"

inductive init_reach :: "nat \<Rightarrow> init_pc list \<times> init_sys \<Rightarrow> bool" for n where
  start: "init_reach n (replicate n In_cas, \<lparr>allocator_initialized = False, default_set = 0\<rparr>)"
| step: "init_reach n (ts, s) \<Longrightarrow> i < length ts \<Longrightarrow> init_step (ts ! i) s = (pc, s') \<Longrightarrow>
    init_reach n (ts[i := pc], s')"

definition setting :: "init_pc list \<Rightarrow> nat" where
  "setting ts = length (filter (\<lambda>pc. pc = In_set) ts)"

lemma setting_update:
  "i < length ts \<Longrightarrow> setting (ts[i := pc]) + of_bool (ts ! i = In_set) = setting ts + of_bool (pc = In_set)"
  unfolding setting_def using length_filter_update [of i ts "\<lambda>pc. pc = In_set" pc] by (simp split: if_splits)

lemma setting_start [simp]: "setting (replicate n In_cas) = 0"
  by (simp add: setting_def)

lemma init_books:
  assumes "init_reach n (ts, s)"
  shows "length ts = n \<and> default_set s + setting ts = of_bool (allocator_initialized s)
    \<and> (In_done \<in> set ts \<longrightarrow> allocator_initialized s)"
  using assms
proof (induction "(ts, s)" arbitrary: ts s)
  case start
  then show ?case by auto
next
  case (step ts s i pc s')
  note c = setting_update [OF step(3), of pc]
  have sub: "set (ts[i := pc]) \<subseteq> insert pc (set ts)" by (rule set_update_subset_insert)
  show ?case
    by (cases "ts ! i") (use step(2,4) c sub nth_mem [OF step(3)] in \<open>auto split: if_splits\<close>)
qed

lemma arena_calls_keep: "Heap_destroy h \<notin> set (arena_calls heap ops)"
  by (induction heap ops rule: arena_calls.induct) (auto simp: arena_allocate_def arena_reset_def)

section \<open>Properties\<close>

text \<open>
  However many threads call \<open>init_allocator\<close>, the default resource is set at most once, and
  exactly once when all calls have returned.
\<close>

theorem default_resource_set_once:
  assumes "init_reach n (ts, s)" "0 < n"
  shows "default_set s \<le> 1 \<and> (set ts \<subseteq> {In_done} \<longrightarrow> default_set s = 1)"
proof -
  note B = init_books [OF assms(1)]
  have "default_set s = 1" if "set ts \<subseteq> {In_done}"
  proof -
    have "ts \<noteq> []" using B assms(2) by auto
    then have "In_done \<in> set ts" using that by (cases ts) auto
    moreover have "setting ts = 0" using that by (auto simp: setting_def filter_empty_conv)
    ultimately show ?thesis using B by simp
  qed
  moreover have "default_set s \<le> 1" using B by (cases "allocator_initialized s") auto
  ultimately show ?thesis by blast
qed

text \<open>
  \<open>reset\<close> is documented as freeing everything in bulk, but what it calls collects the heap: all
  blocks that an arena has handed out are live after any number of resets, and are freed only
  with the arena.
\<close>

theorem arena_reset_frees_nothing:
  assumes "heap \<noteq> 0"
  shows "live_blocks heap (arena_calls heap ops @ cs) (map (\<lambda>op. case op of Allocate p n \<Rightarrow> p | Reset \<Rightarrow> 0)
        (filter (\<lambda>op. op \<noteq> Reset) ops)) \<supseteq>
      (if Heap_destroy heap \<in> set cs then {} else {p. \<exists>n. Allocate p n \<in> set ops \<and> p \<noteq> 0})"
proof (cases "Heap_destroy heap \<in> set cs")
  case False
  have "{p. \<exists>n. Allocate p n \<in> set ops \<and> p \<noteq> 0} \<subseteq> live_blocks heap (arena_calls heap ops @ cs)
      (map (\<lambda>op. case op of Allocate p n \<Rightarrow> p | Reset \<Rightarrow> 0) (filter (\<lambda>op. op \<noteq> Reset) ops))"
    using assms False
  proof (induction heap ops rule: arena_calls.induct)
    case (2 heap p n ops)
    then show ?case by (auto simp: arena_allocate_def arena_calls_keep)
  qed (auto simp: arena_reset_def)
  then show ?thesis using False by simp
qed simp

section \<open>Witnesses\<close>

lemma init_run: "init_reach 1 ([In_done], \<lparr>allocator_initialized = True, default_set = 1\<rparr>)"
proof -
  have "init_reach 1 ([In_cas], \<lparr>allocator_initialized = False, default_set = 0\<rparr>)"
    using init_reach.start [of 1] by simp
  from init_reach.step [OF this, of 0 In_set] 
  have "init_reach 1 ([In_set], \<lparr>allocator_initialized = True, default_set = 0\<rparr>)" by simp
  from init_reach.step [OF this, of 0 In_done] show ?thesis by simp
qed

theorem default_resource_set_once_witness:
  "default_set \<lparr>allocator_initialized = True, default_set = 1\<rparr> = 1"
  using default_resource_set_once [OF init_run] by simp

theorem arena_reset_frees_nothing_witness:
  "96 \<in> live_blocks 64 (arena_calls 64 [Allocate 96 8, Reset] @ []) (map (\<lambda>op. case op of Allocate p n \<Rightarrow> p | Reset \<Rightarrow> 0)
      (filter (\<lambda>op. op \<noteq> Reset) [Allocate 96 8, Reset]))"
  using arena_reset_frees_nothing [where heap = 64 and ops = "[Allocate 96 8, Reset]" and cs = "[]"] by auto

end
