(* ===== verification/ResultHolder.thy ===== *)
theory ResultHolder
  imports CoroTask
begin

text \<open>
  \<open>result_holder\<close> (\<open>include/shared_state/crtp_base.hpp\<close>) and its specialisation without a
  value, next to the result of a task's shared state, which it could replace.
\<close>

record ('v, 'e) result_holder =
  rh_value :: "'v option"
  rh_exception :: "'e option"

definition new_result_holder :: "('v, 'e) result_holder" where
  "new_result_holder = \<lparr>rh_value = None, rh_exception = None\<rparr>"

definition rh_set_value :: "'v \<Rightarrow> ('v, 'e) result_holder \<Rightarrow> ('v, 'e) result_holder" where
  "rh_set_value v r = r\<lparr>rh_value := Some v\<rparr>"

definition rh_set_exception :: "'e \<Rightarrow> ('v, 'e) result_holder \<Rightarrow> ('v, 'e) result_holder" where
  "rh_set_exception e r = r\<lparr>rh_exception := Some e\<rparr>"

definition rh_has_value :: "('v, 'e) result_holder \<Rightarrow> bool" where
  "rh_has_value r \<longleftrightarrow> rh_value r \<noteq> None"

definition rh_has_exception :: "('v, 'e) result_holder \<Rightarrow> bool" where
  "rh_has_exception r \<longleftrightarrow> rh_exception r \<noteq> None"

text \<open>
  \<open>get\<close> moves the value out and leaves the optional engaged; \<open>None\<close> is the access to an empty
  optional, which is undefined.
\<close>

definition rh_get ::
  "('v \<Rightarrow> 'v) \<Rightarrow> ('v, 'e) result_holder \<Rightarrow> (('v, 'e) task_reply \<times> ('v, 'e) result_holder) option" where
  "rh_get moved r =
     (case rh_exception r of
        Some e \<Rightarrow> Some (Rp_throw e, r)
      | None \<Rightarrow> (case rh_value r of
            Some v \<Rightarrow> Some (Rp_return v, r\<lparr>rh_value := Some (moved v)\<rparr>)
          | None \<Rightarrow> None))"

definition rh_peek :: "('v, 'e) result_holder \<Rightarrow> ('v, 'e) task_reply option" where
  "rh_peek r =
     (case rh_exception r of
        Some e \<Rightarrow> Some (Rp_throw e)
      | None \<Rightarrow> map_option Rp_return (rh_value r))"

record 'e void_holder =
  vh_completed :: bool
  vh_exception :: "'e option"

definition new_void_holder :: "'e void_holder" where
  "new_void_holder = \<lparr>vh_completed = False, vh_exception = None\<rparr>"

definition vh_set_value :: "'e void_holder \<Rightarrow> 'e void_holder" where
  "vh_set_value r = r\<lparr>vh_completed := True\<rparr>"

definition vh_set_exception :: "'e \<Rightarrow> 'e void_holder \<Rightarrow> 'e void_holder" where
  "vh_set_exception e r = r\<lparr>vh_exception := Some e\<rparr>"

definition vh_has_value :: "'e void_holder \<Rightarrow> bool" where
  "vh_has_value r \<longleftrightarrow> vh_completed r"

definition vh_has_exception :: "'e void_holder \<Rightarrow> bool" where
  "vh_has_exception r \<longleftrightarrow> vh_exception r \<noteq> None"

definition vh_get :: "'e void_holder \<Rightarrow> (unit, 'e) task_reply" where
  "vh_get r = (case vh_exception r of Some e \<Rightarrow> Rp_throw e | None \<Rightarrow> Rp_return ())"

lemmas holder_defs = new_result_holder_def rh_set_value_def rh_set_exception_def rh_has_value_def
  rh_has_exception_def rh_get_def rh_peek_def new_void_holder_def vh_set_value_def vh_set_exception_def
  vh_has_value_def vh_has_exception_def vh_get_def

section \<open>Against the shared state of a task\<close>

definition give_holder :: "'e + 'v \<Rightarrow> ('v, 'e) result_holder \<Rightarrow> ('v, 'e) result_holder" where
  "give_holder x r = (case x of Inl e \<Rightarrow> rh_set_exception e r | Inr v \<Rightarrow> rh_set_value v r)"

definition give_shared :: "'e + 'v \<Rightarrow> ('v, 'e) coro_shared_state \<Rightarrow> ('v, 'e) coro_shared_state" where
  "give_shared x s =
     outcome_state (case x of Inl e \<Rightarrow> sh_set_exception e s | Inr v \<Rightarrow> sh_set_value v s) s"

text \<open>The replies of \<open>n\<close> calls of \<open>get\<close>, one after the other.\<close>

fun holder_gets :: "nat \<Rightarrow> ('v \<Rightarrow> 'v) \<Rightarrow> ('v, 'e) result_holder \<Rightarrow> ('v, 'e) task_reply list" where
  "holder_gets 0 moved r = []"
| "holder_gets (Suc n) moved r =
     (case rh_get moved r of Some (x, r') \<Rightarrow> x # holder_gets n moved r' | None \<Rightarrow> [])"

fun shared_gets :: "nat \<Rightarrow> ('v \<Rightarrow> 'v) \<Rightarrow> ('v, 'e) coro_shared_state \<Rightarrow> ('v, 'e) task_reply list" where
  "shared_gets 0 moved s = []"
| "shared_gets (Suc n) moved s =
     (case sh_get moved s of Ret s' ns x \<Rightarrow> x # shared_gets n moved s' | Wait c t \<Rightarrow> [])"

lemma gets_agree:
  assumes "ready s" "rh_exception r = (case result s of Exception_ptr e \<Rightarrow> Some e | _ \<Rightarrow> None)"
    "\<forall>v. result s = Value v \<longrightarrow> rh_value r = Some v" "result s \<noteq> Monostate"
  shows "holder_gets n moved r = shared_gets n moved s"
  using assms
proof (induction n arbitrary: r s)
  case (Suc n)
  then show ?case by (cases "result s") (auto simp: rh_get_def sh_defs)
qed simp

text \<open>
  A holder that is given one result answers every sequence of calls of \<open>get\<close> as the shared
  state of a task does, values moved out included.
\<close>

theorem holder_answers_as_state:
  "holder_gets n moved (give_holder x new_result_holder) = shared_gets n moved (give_shared x new_shared_state)"
  by (rule gets_agree) (cases x; simp add: give_holder_def give_shared_def holder_defs sh_set_value_def
      sh_set_exception_def)+

text \<open>
  Given a second result they differ: the shared state keeps the later one, the holder throws
  whichever was an exception.
\<close>

theorem holder_exception_wins:
  "rh_get moved (rh_set_value v (rh_set_exception e r)) = Some (Rp_throw e, rh_set_value v (rh_set_exception e r))
   \<and> sh_get moved (give_shared (Inr v) (give_shared (Inl e) s))
       = Ret (give_shared (Inr (moved v)) (give_shared (Inl e) s)) [] (Rp_return v)"
  by (simp add: holder_defs give_shared_def sh_defs)

text \<open>The holder without a value is that of the one-element type once it has been completed.\<close>

lemma void_holder_agrees:
  assumes "rh_value r = (if vh_completed q then Some () else None)" "rh_exception r = vh_exception q"
    "vh_has_value q \<or> vh_has_exception q"
  shows "\<exists>r'. rh_get (\<lambda>u. u) r = Some (vh_get q, r') \<and> rh_has_value r' = vh_has_value q"
  using assms by (auto simp: holder_defs split: option.splits)

end
