(* ===== verification/SleepRuntime.thy ===== *)
theory SleepRuntime
  imports Sleep CoroScheduler
begin

text \<open>
  A sleeping coroutine on the runtime: the awaiter with its timers and its cancellation
  (\<open>include/sleep.hpp\<close>, \<open>src/timer_service.cpp\<close>, \<open>include/cancellation.hpp\<close>) composed with
  the scheduler (\<open>src/coro_scheduler.cpp\<close>).  Every handle that the one side passes to
  \<open>schedule_coro_handle\<close> becomes a call of the other, and the coroutine goes on in
  \<open>resume_impl\<close> only when a worker, or such a call, has resumed its handle.
\<close>

section \<open>The composition\<close>

text \<open>The calls of \<open>schedule_coro_handle\<close> made by a step of the awaiter or its surroundings.\<close>

definition new_calls :: "sleep_sys \<Rightarrow> sleep_sys \<Rightarrow> call_pc list" where
  "new_calls z z' = map Call (drop (length (sched (z_mem z))) (sched (z_mem z')))"

fun start_calls :: "call_pc list \<Rightarrow> coro_sys \<Rightarrow> coro_sys" where
  "start_calls pcs (ws, cs, sd, s) = (ws, cs @ pcs, sd, s)"

text \<open>How often the scheduler has resumed a handle, and how often it took it without.\<close>

definition resumptions :: "coro \<Rightarrow> coro_scheduler \<Rightarrow> nat" where
  "resumptions h s = count_list (taken_log s) (h, True) + count_list (inline_log s) h"

definition rejections :: "coro \<Rightarrow> coro_scheduler \<Rightarrow> nat" where
  "rejections h s = count_list (taken_log s) (h, False)"

definition calls_of :: "coro \<Rightarrow> call_pc list \<Rightarrow> nat" where
  "calls_of h cs = length (filter (\<lambda>pc. call_handle pc = h) cs)"

text \<open>
  \<open>k\<close> is the number of times the coroutine was resumed before it slept.  The scheduler takes
  any step, with calls for any other coroutine at any time; the sleeping coroutine is not at
  its end.
\<close>

inductive sleep_run_step :: "nat \<Rightarrow> sleep_sys \<times> coro_sys \<Rightarrow> sleep_sys \<times> coro_sys \<Rightarrow> bool" for k where
  sleeping: "sleep_sys_step z z' \<Longrightarrow>
    (z_resume z = Z_none \<longrightarrow> z_resume z' = Z_none \<or> z_pc z' = Z_ready) \<Longrightarrow>
    sleep_run_step k (z, c) (z', start_calls (new_calls z z') c)"
| resumed: "z_resume z = Z_none \<Longrightarrow> k < resumptions (z_self z) s \<Longrightarrow>
    sleep_run_step k (z, ws, cs, sd, s) (z\<lparr>z_resume := Z_unreg\<rparr>, ws, cs, sd, s)"
| scheduler: "coro_sys_step (ws, cs, sd, s) (ws', cs', sd', s') \<Longrightarrow>
    calls_of (z_self z) cs' = calls_of (z_self z) cs \<Longrightarrow> \<not> done_at s' (z_self z) \<Longrightarrow>
    sleep_run_step k (z, ws, cs, sd, s) (z, ws', cs', sd', s')"
| spurious: "coro_spurious c c' \<Longrightarrow> sleep_run_step k (z, c) (z, c')"

inductive sleep_run_reach :: "nat \<Rightarrow> sleep_sys \<times> coro_sys \<Rightarrow> sleep_sys \<times> coro_sys \<Rightarrow> bool" for k q0 where
  start: "sleep_run_reach k q0 q0"
| step: "sleep_run_reach k q0 q \<Longrightarrow> sleep_run_step k q q' \<Longrightarrow> sleep_run_reach k q0 q'"

text \<open>
  Where the sleep begins: the scheduler has been running, every earlier call for the coroutine
  has queued or resumed it or has ended, and every handle of it was taken.
\<close>

fun call_settled :: "call_pc \<Rightarrow> bool" where
  "call_settled (Call h) \<longleftrightarrow> False" | "call_settled (Call_flag h) \<longleftrightarrow> False" | "call_settled (Call_inline h) \<longleftrightarrow> False"
| "call_settled (Call_workers h) \<longleftrightarrow> False" | "call_settled (Call_send h) \<longleftrightarrow> False" | "call_settled _ \<longleftrightarrow> True"

definition awake_before :: "coro \<Rightarrow> nat \<Rightarrow> coro_sys \<Rightarrow> bool" where
  "awake_before h k c = (case c of (ws, cs, sd, s) \<Rightarrow>
     (\<forall>pc \<in> set cs. call_handle pc = h \<longrightarrow> call_settled pc) \<and> h \<notin> set (buffer (external_coro_queue s))
     \<and> \<not> done_at s h \<and> 0x1000 \<le> h \<and> h \<noteq> noop_coroutine s \<and> resumptions h s = k)"

section \<open>What one side does to the other\<close>

text \<open>A step of the awaiter only adds to the handles scheduled.\<close>

lemma sched_fire_entry: "\<exists>hs. sched (fire_entry e w) = sched w @ hs"
  by (auto simp: fire_entry_def fire_gate_def split: prod.split)

lemma sched_fire_entries: "\<exists>hs. sched (fold fire_entry es w) = sched w @ hs"
proof (induction es arbitrary: w)
  case (Cons e es)
  with sched_fire_entry [of e w] show ?case by (metis append.assoc fold_simps(2))
qed simp

lemma sched_callbacks: "\<exists>hs. sched (fold sleep_callback cs w) = sched w @ hs"
proof (induction cs arbitrary: w)
  case (Cons c cs)
  have "\<exists>hs. sched (sleep_callback c w) = sched w @ hs"
    by (auto simp: sleep_callback_def fire_gate_def)
  with Cons.IH show ?case by (metis append.assoc fold_simps(2))
qed simp

lemma sched_call_new: "\<exists>hs. sched (call_new cs cs' w) = sched w @ hs"
  by (simp add: call_new_def sched_callbacks)

lemma sched_grows: "sleep_sys_step z z' \<Longrightarrow> \<exists>hs. sched (z_mem z') = sched (z_mem z) @ hs"
proof (induction rule: sleep_sys_step.induct)
  case (suspend z z')
  then show ?case using sched_call_new
    by (cases "z_pc z") (auto simp: set_fired_def split: prod.splits if_splits)
next
  case (resume z z')
  then show ?case by (cases "z_resume z") (auto split: if_splits)
next
  case (stop z ts w)
  then show ?case using sched_fire_entries by (auto simp: fire_remaining_def)
qed (simp_all add: sched_fire_entry sched_call_new)

lemma new_calls_of:
  assumes "sleep_sys_step z z'"
  shows "new_calls z z' = map Call hs \<Longrightarrow> count_list hs h + count_sched h (z_mem z) = count_sched h (z_mem z')"
  using sched_grows [OF assms] by (auto simp: new_calls_def inj_map_eq_map inj_def)

lemma coro_reach_start_calls:
  "coro_reach q0 c \<Longrightarrow> coro_reach q0 (start_calls (map Call hs) c)"
proof (induction hs rule: rev_induct)
  case Nil
  then show ?case by (cases c) simp
next
  case (snoc h hs)
  obtain ws cs sd s where c: "c = (ws, cs, sd, s)" by (cases c) auto
  have "coro_reach q0 (ws, cs @ map Call hs, sd, s)" using snoc c by simp
  from coro_reach.step [OF this coro_sys_step.new_call [where h = h]] show ?case by (simp add: c)
qed

text \<open>The calls for a handle that have not failed; those that are settled sent or resumed it.\<close>

definition live :: "coro \<Rightarrow> call_pc \<Rightarrow> bool" where
  "live h pc \<longleftrightarrow> call_handle pc = h \<and> pc \<noteq> Refused h \<and> pc \<noteq> Threw h"

definition live_calls :: "coro \<Rightarrow> call_pc list \<Rightarrow> nat" where
  "live_calls h cs = length (filter (live h) cs)"

lemma settled_once: "count (sent pc + inlined pc) h = (if live h pc \<and> call_settled pc then 1 else 0)"
  by (cases pc) (auto simp: live_def)

lemma settled_calls:
  "count (sum_list (map sent cs) + sum_list (map inlined cs)) h
     = length (filter (\<lambda>pc. live h pc \<and> call_settled pc) cs)"
proof (induction cs)
  case (Cons pc cs)
  with settled_once [of pc h] show ?case by (auto split: if_splits)
qed simp

lemma count_list_map_fst:
  "count_list (map fst xs) h = count_list xs (h, True) + count_list xs (h, False)"
  by (induction xs) auto

text \<open>Of the live calls the settled ones are what was taken, resumed in place or is queued.\<close>

lemma settled_account:
  assumes "accounted (ws, cs, sd, s)"
  shows "length (filter (\<lambda>pc. live h pc \<and> call_settled pc) cs)
    = resumptions h s + rejections h s + count_list (buffer (external_coro_queue s)) h"
proof -
  have "length (filter (\<lambda>pc. live h pc \<and> call_settled pc) cs)
      = count (taken_and_queued s + mset (inline_log s)) h"
    using assms settled_calls [of cs h] by (simp add: accounted_def)
  also have "\<dots> = count_list (map fst (taken_log s)) h + count_list (buffer (external_coro_queue s)) h
      + count_list (inline_log s) h"
    unfolding taken_and_queued_def by (simp only: count_union count_mset)
  finally show ?thesis by (simp add: resumptions_def rejections_def count_list_map_fst)
qed

text \<open>
  A step of the scheduler without a new call for \<open>h\<close>: live calls stay live unless the queue is
  closed, and a handle that can be resumed is resumed by who takes it.
\<close>

definition steady :: "coro \<Rightarrow> coro_scheduler \<Rightarrow> bool" where
  "steady h s \<longleftrightarrow> \<not> done_at s h \<and> 0x1000 \<le> h \<and> h \<noteq> noop_coroutine s"

lemma steady_resumable: "steady h s \<Longrightarrow> resumable h s \<and> h \<noteq> 0 \<and> \<not> h < 0x1000"
  by (auto simp: steady_def resumable_def)

lemma worker_step_steady:
  assumes "worker_step rnd fin me pc s = Some (pc', s')" "steady h s"
  shows "rejections h s' = rejections h s \<and> resumptions h s \<le> resumptions h s'
    \<and> noop_coroutine s' = noop_coroutine s \<and> (is_closed (external_coro_queue s') \<longleftrightarrow> is_closed (external_coro_queue s))"
  using assms steady_resumable [OF assms(2)]
  by (cases pc)
    (auto simp: worker_step.simps(2,4) worker_external Let_def rejections_def resumptions_def take_handle_def
      resumable_def split: if_splits option.splits prod.splits list.splits)

lemma call_step_steady:
  assumes "call_step fin pc s = Some (pc', s')" "steady h s"
  shows "rejections h s' = rejections h s \<and> resumptions h s \<le> resumptions h s'
    \<and> noop_coroutine s' = noop_coroutine s \<and> (is_closed (external_coro_queue s') \<longleftrightarrow> is_closed (external_coro_queue s))
    \<and> call_handle pc' = call_handle pc \<and> (live h pc' \<longrightarrow> live h pc)
    \<and> (live h pc \<longrightarrow> live h pc' \<or> is_closed (external_coro_queue s))"
  using assms steady_resumable [OF assms(2)]
  by (cases pc)
    (auto simp: call_send rejections_def resumptions_def live_def steady_def split: if_splits)

lemma live_calls_update:
  "j < length cs \<Longrightarrow> live_calls h (cs[j := pc]) + (if live h (cs ! j) then 1 else 0)
     = live_calls h cs + (if live h pc then 1 else 0)"
  unfolding live_calls_def by (rule length_filter_update)

text \<open>Hence of a whole step, and of a wake-up for no reason.\<close>

definition outcome_kept :: "coro \<Rightarrow> coro_sys \<Rightarrow> coro_sys \<Rightarrow> bool" where
  "outcome_kept h c c' = (case (c, c') of ((ws, cs, sd, s), (ws', cs', sd', s')) \<Rightarrow>
     rejections h s' = rejections h s \<and> resumptions h s \<le> resumptions h s'
     \<and> noop_coroutine s' = noop_coroutine s
     \<and> live_calls h cs' \<le> live_calls h cs
     \<and> (is_closed (external_coro_queue s) \<longrightarrow> is_closed (external_coro_queue s'))
     \<and> (live_calls h cs' = live_calls h cs \<or> is_closed (external_coro_queue s)))"

lemma coro_step_outcome:
  assumes "coro_sys_step (ws, cs, sd, s) (ws', cs', sd', s')" "steady h s" "calls_of h cs' = calls_of h cs"
  shows "outcome_kept h (ws, cs, sd, s) (ws', cs', sd', s')"
  using assms(1)
proof cases
  case (worker i rnd fin pc)
  with worker_step_steady [OF _ assms(2)] show ?thesis by (auto simp: outcome_kept_def)
next
  case (call j fin pc)
  with call_step_steady [OF _ assms(2), of fin "cs ! j" pc s'] live_calls_update [of j cs h pc]
  show ?thesis by (auto simp: outcome_kept_def split: if_splits)
next
  case (notify_nobody j g)
  with live_calls_update [of j cs h "Queued g"] show ?thesis by (auto simp: outcome_kept_def live_def)
next
  case (notify_one j g i)
  with live_calls_update [of j cs h "Queued g"] show ?thesis by (auto simp: outcome_kept_def live_def)
next
  case shutdown
  then show ?thesis
    by (cases sd) (auto simp: outcome_kept_def rejections_def resumptions_def close_store_def on_close_def split: if_splits)
next
  case (new_call g)
  with assms(3) show ?thesis
    by (auto simp: outcome_kept_def calls_of_def live_calls_def live_def split: if_splits)
qed (simp add: outcome_kept_def)

text \<open>The queue is closed by the shutdown only.\<close>

lemma worker_step_closed:
  "worker_step rnd fin me pc s = Some (pc', s') \<Longrightarrow>
     is_closed (external_coro_queue s') = is_closed (external_coro_queue s)"
  by (cases pc)
    (auto simp: worker_step.simps(2,4) worker_external Let_def split: if_splits option.splits prod.splits list.splits)

lemma call_step_closed:
  "call_step fin pc s = Some (pc', s') \<Longrightarrow>
     is_closed (external_coro_queue s') = is_closed (external_coro_queue s)"
  by (cases pc) (auto simp: call_send split: if_splits)

lemma open_before_shutdown:
  "coro_reach (coro_init n noop at_end) c \<Longrightarrow>
     case c of (ws, cs, sd, s) \<Rightarrow> is_closed (external_coro_queue s) \<longrightarrow> sd \<noteq> Sd_idle"
proof (induction rule: coro_reach.induct)
  case start
  show ?case by (simp add: coro_init_def init_coro_workers_def new_channel_def)
next
  case (step q q')
  from step.hyps(2) step.IH show ?case
  proof cases
    case (shutdown ws sd s sd' s' cs)
    with step.IH show ?thesis by (cases sd) (auto split: if_splits)
  qed (auto dest: worker_step_closed call_step_closed)
next
  case (spurious q q')
  from spurious.hyps(2) spurious.IH show ?case by cases auto
qed

section \<open>The invariant of the composition\<close>

definition run_inv :: "coro \<Rightarrow> nat \<Rightarrow> nat \<Rightarrow> sleep_sys \<times> coro_sys \<Rightarrow> bool" where
  "run_inv h k r q = (case q of (z, ws, cs, sd, s) \<Rightarrow>
     steady h s \<and> rejections h s = r \<and> k \<le> resumptions h s
     \<and> live_calls h cs \<le> k + r + count_sched h (z_mem z)
     \<and> (live_calls h cs = k + r + count_sched h (z_mem z) \<or> is_closed (external_coro_queue s)))"

lemma live_calls_new: "live_calls h (cs @ map Call hs) = live_calls h cs + count_list hs h"
proof (induction hs)
  case (Cons g hs)
  then show ?case by (auto simp: live_calls_def live_def)
qed simp

lemma run_inv_resumptions:
  assumes "run_inv h k r (z, ws, cs, sd, s)" "accounted (ws, cs, sd, s)"
  shows "resumptions h s \<le> k + count_sched h (z_mem z)"
proof -
  have "length (filter (\<lambda>pc. live h pc \<and> call_settled pc) cs) \<le> live_calls h cs"
    unfolding live_calls_def by (induction cs) auto
  with settled_account [OF assms(2), of h] assms(1) show ?thesis by (simp add: run_inv_def)
qed

lemma run_inv_start:
  assumes "awake_before h k (ws, cs, sd, s)" "accounted (ws, cs, sd, s)" "count_sched h (z_mem z) = 0"
  shows "run_inv h k (rejections h s) (z, ws, cs, sd, s)"
proof -
  have "filter (live h) cs = filter (\<lambda>pc. live h pc \<and> call_settled pc) cs"
    using assms(1) by (intro filter_cong) (auto simp: awake_before_def live_def)
  then have "live_calls h cs = resumptions h s + rejections h s"
    using settled_account [OF assms(2), of h] assms(1)
    by (simp add: live_calls_def awake_before_def count_list_0_iff)
  with assms(1,3) show ?thesis by (simp add: run_inv_def steady_def awake_before_def)
qed

lemma run_inv_step:
  assumes "sleep_run_step k q q'" "run_inv (z_self (fst q)) k r q"
  shows "run_inv (z_self (fst q)) k r q'"
  using assms(1)
proof cases
  case (sleeping z z' c)
  obtain ws cs sd s where c: "c = (ws, cs, sd, s)" by (cases c) auto
  obtain hs where hs: "new_calls z z' = map Call hs" by (simp add: new_calls_def)
  from new_calls_of [OF sleeping(3) hs, of "z_self z"] assms(2) show ?thesis
    by (auto simp: run_inv_def sleeping(1,2) c hs live_calls_new)
next
  case (scheduler ws cs sd s ws' cs' sd' s' z)
  then have st: "steady (z_self z) s" using assms(2) by (simp add: run_inv_def)
  from coro_step_outcome [OF scheduler(3) st scheduler(4)] assms(2) st scheduler(5) show ?thesis
    by (auto simp: run_inv_def scheduler(1,2) outcome_kept_def steady_def)
next
  case (spurious c c' z)
  then show ?thesis using assms(2) by (cases c) (auto elim!: coro_spuriousE simp: run_inv_def)
qed (use assms(2) in \<open>simp add: run_inv_def\<close>)

text \<open>
  The two sides seen alone: the composition makes only steps of the awaiter and steps of the
  scheduler, so what holds of them alone holds in it.
\<close>

definition resumed_by_run :: "coro \<Rightarrow> nat \<Rightarrow> sleep_sys \<times> coro_sys \<Rightarrow> bool" where
  "resumed_by_run h k q = (case q of (z, ws, cs, sd, s) \<Rightarrow>
     z_resume z \<noteq> Z_none \<longrightarrow> z_pc z = Z_ready \<or> k < resumptions h s)"

lemma ready_stays: "sleep_sys_step z z' \<Longrightarrow> z_pc z = Z_ready \<Longrightarrow> z_pc z' = Z_ready"
proof (induction rule: sleep_sys_step.induct)
  case (resume z z')
  then show ?case by (cases "z_resume z") (auto split: if_splits)
qed simp_all

lemma resumed_by_run_step:
  assumes "sleep_run_step k q q'" "resumed_by_run (z_self (fst q)) k q" "run_inv (z_self (fst q)) k r q"
  shows "resumed_by_run (z_self (fst q)) k q'"
  using assms(1)
proof cases
  case (sleeping z z' c)
  with ready_stays [OF sleeping(3)] assms(2) show ?thesis by (cases c) (auto simp: resumed_by_run_def)
next
  case (scheduler ws cs sd s ws' cs' sd' s' z)
  then have "steady (z_self z) s" using assms(3) by (simp add: run_inv_def)
  from coro_step_outcome [OF scheduler(3) this scheduler(4)] assms(2) show ?thesis
    by (auto simp: resumed_by_run_def scheduler(1,2) outcome_kept_def)
next
  case (spurious c c' z)
  then show ?thesis using assms(2) by (cases c) (auto elim!: coro_spuriousE simp: resumed_by_run_def)
qed (use assms(2) in \<open>simp add: resumed_by_run_def\<close>)

lemma sleep_run_sides:
  assumes "sleep_run_reach k (sleep_init now w0 cw h (sleep_until d tok g), c0) q"
    and "coro_reach (coro_init n noop at_end) c0" "n < 2 ^ 64" "awake_before h k c0"
    and "g \<noteq> 0" "h \<notin> set (sched w0)"
  shows "sleep_reach (sleep_init now w0 cw h (sleep_until d tok g)) (fst q)
    \<and> coro_reach (coro_init n noop at_end) (snd q)
    \<and> run_inv h k (case c0 of (ws, cs, sd, s) \<Rightarrow> rejections h s) q \<and> resumed_by_run h k q"
  using assms(1)
proof induction
  case start
  let ?z = "sleep_init now w0 cw h (sleep_until d tok g)"
  obtain ws cs sd s where c: "c0 = (ws, cs, sd, s)" by (cases c0) auto
  have "count_sched h (z_mem ?z) = 0" using assms(6) by (simp add: sleep_init_def count_list_0_iff)
  with run_inv_start [of h k ws cs sd s ?z] accounted_reach [OF assms(2,3)] assms(2,4)
  show ?case by (simp add: c sleep_reach.start resumed_by_run_def sleep_init_def)
next
  case (step q q')
  let ?z0 = "sleep_init now w0 cw h (sleep_until d tok g)"
  have sr: "sleep_reach ?z0 (fst q)" and cr: "coro_reach (coro_init n noop at_end) (snd q)"
    and ri: "run_inv h k (case c0 of (ws, cs, sd, s) \<Rightarrow> rejections h s) q" and rr: "resumed_by_run h k q"
    using step.IH by blast+
  have self: "z_self (fst q) = h" by (rule sleep_params_reach(1) [OF sr])
  note inv = run_inv_step [OF step.hyps(2), unfolded self, OF ri]
    resumed_by_run_step [OF step.hyps(2), unfolded self, OF rr ri]
  have "sleep_reach ?z0 (fst q') \<and> coro_reach (coro_init n noop at_end) (snd q')"
    using step.hyps(2)
  proof cases
    case (sleeping z z' c)
    then show ?thesis using sr cr coro_reach_start_calls [OF cr]
      by (auto simp: new_calls_def intro: sleep_reach.step)
  next
    case (resumed z s ws cs sd)
    have "accounted (ws, cs, sd, s)" using accounted_reach [OF cr assms(3)] by (simp add: resumed(1))
    with ri have "resumptions h s \<le> k + count_sched h (z_mem z)"
      unfolding resumed(1) by (rule run_inv_resumptions)
    then have "0 < count_sched h (z_mem z)" using resumed(4) self by (simp add: resumed(1))
    then have "h \<in> set (sched (z_mem z))" by (metis count_notin less_nat_zero_code)
    with resumed self have "sleep_sys_step z (z\<lparr>z_resume := Z_unreg\<rparr>)"
      by (intro sleep_sys_step.resume) simp
    with resumed sr cr show ?thesis by (auto intro: sleep_reach.step)
  qed (use sr cr in \<open>auto intro: coro_reach.step coro_reach.spurious\<close>)
  with inv show ?case by blast
qed

text \<open>The timer service of the awaiter is a heap at all times.\<close>

lemma sleep_service_good:
  "sleep_reach (sleep_init now w0 cw h a) z \<Longrightarrow>
     good_service (z_svc z) \<and> (z_stopped z \<or> t_running (z_svc z))"
proof (induction rule: sleep_reach.induct)
  case start
  show ?case by (simp add: sleep_init_def new_timer_service_def good_service_def is_heap_def heap_at_def)
next
  case (step z z')
  from step.hyps(2) step.IH show ?case
  proof cases
    case suspend
    then show ?thesis using step.IH
      by (cases "z_pc z") (auto simp: add_timer_shared_def split: prod.splits if_splits)
  next
    case resume
    then show ?thesis using step.IH by (cases "z_resume z") (auto split: if_splits)
  next
    case (fire e ts)
    from run_round_fires [OF fire(2)] step.IH show ?thesis by (simp add: fire(1))
  next
    case (stop ts w)
    then show ?thesis by (auto simp: fire_remaining_def good_service_def is_heap_def heap_at_def)
  qed simp_all
qed

lemma nothing_due:
  assumes "good_service ts" "t_running ts" "\<nexists>e ts'. run_round now ts = (Fire e, ts')" "e \<in> set (t_heap ts)"
  shows "now < te_deadline e"
proof -
  obtain k where k: "k < length (t_heap ts)" "e = t_heap ts ! k" using assms(4) by (auto simp: in_set_conv_nth)
  with assms(2,3) have "now < te_deadline (t_heap ts ! 0)"
    by (cases "t_heap ts") (auto simp: run_round_def split: if_splits prod.splits)
  with heap_front_least [of te_deadline "t_heap ts" k] k assms(1) show ?thesis by (simp add: good_service_def)
qed

section \<open>Properties\<close>

text \<open>
  C13. A sleeping coroutine is resumed exactly once by the whole runtime and never too early.  In
  every interleaving of the awaiter, the clock, the timer thread, a cancellation, the workers,
  all calls of \<open>schedule_coro_handle\<close> and the shutdown, its handle is resumed at most once more
  than before it slept; if it was, its deadline has passed, the timer service was shut down,
  or its token is cancelled; and it goes on only if it was, or did not sleep at all.
\<close>

theorem sleeper_resumed_once:
  assumes "sleep_run_reach k (sleep_init now w0 cw h (sleep_until d tok g), c0) (z, ws, cs, sd, s)"
    and "coro_reach (coro_init n noop at_end) c0" "n < 2 ^ 64" "awake_before h k c0"
    and "g \<noteq> 0" "h \<notin> set (sched w0)"
  shows "k \<le> resumptions h s \<and> resumptions h s \<le> k + 1
    \<and> (resumptions h s = k + 1 \<longrightarrow> d \<le> z_now z \<or> z_stopped z \<or> tok \<noteq> 0 \<and> is_cancelled (z_cancel z))
    \<and> (z_resume z \<noteq> Z_none \<longrightarrow> z_pc z = Z_ready \<or> resumptions h s = k + 1)"
proof -
  note sides = sleep_run_sides [OF assms, simplified]
  then have sr: "sleep_reach (sleep_init now w0 cw h (sleep_until d tok g)) z"
    and a: "accounted (ws, cs, sd, s)" using accounted_reach [OF _ assms(3)] by blast+
  note par = sleep_params_reach [OF sr]
  have h: "h \<noteq> 0" using assms(4) by (auto simp: awake_before_def split: prod.splits)
  note inv = sleep_inv_reach [OF sr h assms(5,6)]
  have up: "resumptions h s \<le> k + count_sched h (z_mem z)"
    using sides run_inv_resumptions [OF _ a] by blast
  have one: "count_sched h (z_mem z) \<le> 1 \<and> (0 < count_sched h (z_mem z) \<longrightarrow> gates (z_mem z) g \<and> \<not> unarmed (z_pc z))"
    using inv par count_zero_credit [of g h "z_mem z"]
    by (auto simp: sleep_inv_def sched_right_def split: if_splits)
  have "resumptions h s = k + 1 \<longrightarrow> d \<le> z_now z \<or> z_stopped z \<or> tok \<noteq> 0 \<and> is_cancelled (z_cancel z)"
    using up one inv par by (auto simp: sleep_inv_def woken_right_def token_cancelled_def)
  with up one sides show ?thesis by (auto simp: run_inv_def resumed_by_run_def)
qed

text \<open>
  C14. A sleep that is over ends.  Once \<open>suspend_impl\<close> has returned and the deadline has passed or
  the token was cancelled, and the timer thread has nothing left to fire, and the calls of
  \<open>schedule_coro_handle\<close> for the coroutine have returned, and nothing is being shut down, then
  its handle has been resumed or is in the queue of the workers, exactly once.
\<close>

theorem elapsed_sleeper_is_resumed:
  assumes "sleep_run_reach k (sleep_init now w0 cw h (sleep_until d tok g), c0) (z, ws, cs, Sd_idle, s)"
    and "coro_reach (coro_init n noop at_end) c0" "n < 2 ^ 64" "awake_before h k c0"
    and "g \<noteq> 0" "h \<notin> set (sched w0)"
    and "z_pc z = Z_done" "\<not> z_stopped z" "d \<le> z_now z \<or> tok \<noteq> 0 \<and> is_cancelled (z_cancel z)"
    and "\<nexists>e ts. run_round (z_now z) (z_svc z) = (Fire e, ts)"
    and "\<forall>pc \<in> set cs. call_handle pc = h \<longrightarrow> call_settled pc"
  shows "resumptions h s + count_list (buffer (external_coro_queue s)) h = k + 1"
proof -
  note sides = sleep_run_sides [OF assms(1-6), simplified]
  then have sr: "sleep_reach (sleep_init now w0 cw h (sleep_until d tok g)) z"
    and cr: "coro_reach (coro_init n noop at_end) (ws, cs, Sd_idle, s)" by blast+
  note par = sleep_params_reach [OF sr]
  have h: "h \<noteq> 0" using assms(4) by (auto simp: awake_before_def split: prod.splits)
  note inv = sleep_inv_reach [OF sr h assms(5,6)]
  have "gates (z_mem z) g"
  proof (rule ccontr)
    assume g: "\<not> gates (z_mem z) g"
    then obtain e where e: "e \<in> set (t_heap (z_svc z))" "mine z (view_of e)"
      using inv par(2) assms(7) by (auto simp: sleep_inv_def timer_kept_def)
    have "timers_tidy z" using inv by (simp add: sleep_inv_def)
    with e others_not_mine [of z "view_of e"] have "te_deadline e = deadline z"
      unfolding timers_tidy_def by blast
    then have "te_deadline e = d" using par(3) by simp
    moreover have "z_now z < te_deadline e"
      using nothing_due [OF _ _ assms(10) e(1)] sleep_service_good [OF sr] assms(8) by simp
    ultimately show False
      using assms(7,9) g inv par by (auto simp: sleep_inv_def callback_kept_def is_cancelled_def)
  qed
  then have one: "count_sched h (z_mem z) = 1"
    using inv par assms(7) by (simp add: sleep_inv_def sched_right_def credit_def)
  have "filter (live h) cs = filter (\<lambda>pc. live h pc \<and> call_settled pc) cs"
    using assms(11) by (intro filter_cong) (auto simp: live_def)
  with settled_account [OF accounted_reach [OF cr assms(3)], of h]
  have "live_calls h cs = resumptions h s + rejections h s + count_list (buffer (external_coro_queue s)) h"
    by (simp add: live_calls_def)
  with sides one open_before_shutdown [OF cr] show ?thesis by (auto simp: run_inv_def)
qed

section \<open>Witnesses\<close>

text \<open>Coroutine 8192 sleeps until time 2; one worker; the thread that sleeps is not the worker.\<close>

definition run_start :: "sleep_sys \<times> coro_sys" where
  "run_start = (sleep_init 0 sample_mem sample_mem 8192 (sleep_until 2 0 9), coro_init 1 1 (\<lambda>h. False))"

lemma sleep_acts_run:
  "sleep_run_reach k q0 (z, c) \<Longrightarrow> Do_resume \<notin> set as \<Longrightarrow> z_resume z = Z_none \<Longrightarrow> sleep_acts as z = Some z' \<Longrightarrow>
     z_resume z' = Z_none \<Longrightarrow> \<exists>c'. c' = start_calls (new_calls z z') c \<and> sleep_run_reach k q0 (z', c')"
proof (induction "as" arbitrary: z c)
  case Nil
  then show ?case by (cases c) (simp add: new_calls_def)
next
  case (Cons a "as")
  obtain z1 where z1: "sleep_act_step a z = Some z1" "sleep_acts as z1 = Some z'"
    using Cons.prems(4) by (auto split: option.splits)
  have n1: "z_resume z1 = Z_none \<or> z_pc z1 = Z_ready"
    using z1(1) Cons.prems(2,3)
    by (cases a; cases "z_pc z") (auto split: prod.splits if_splits run_action.splits)
  have st: "sleep_sys_step z z1" by (rule sleep_act_sound [OF z1(1)])
  have r: "sleep_run_reach k q0 (z1, start_calls (new_calls z z1) c)"
    by (rule sleep_run_reach.step [OF Cons.prems(1) sleep_run_step.sleeping [OF st]]) (use n1 in blast)
  obtain xs where xs: "sched (z_mem z1) = sched (z_mem z) @ xs" using sched_grows [OF st] by blast
  have "\<exists>ys. sched (z_mem z') = sched (z_mem z1) @ ys"
    using z1(2)
  proof (induction "as" arbitrary: z1)
    case (Cons b bs)
    from Cons.prems obtain z2 where z2: "sleep_act_step b z1 = Some z2" "sleep_acts bs z2 = Some z'"
      by (auto split: option.splits)
    with sched_grows [OF sleep_act_sound [OF z2(1)]] Cons.IH [OF z2(2)] show ?case by auto
  qed simp
  then obtain ys where ys: "sched (z_mem z') = sched (z_mem z1) @ ys" by blast
  have "new_calls z z1 @ new_calls z1 z' = new_calls z z'" by (simp add: new_calls_def xs ys)
  moreover have "z_resume z1 = Z_none"
  proof (cases "z_pc z1 = Z_ready \<and> z_resume z1 \<noteq> Z_none")
    case True
    have "sleep_acts as z1 = Some z' \<Longrightarrow> Do_resume \<notin> set as \<Longrightarrow> z_pc z1 = Z_ready \<Longrightarrow>
      z_resume z' = z_resume z1" for z1
    proof (induction "as" arbitrary: z1)
      case (Cons b bs)
      then show ?case by (cases b) (auto split: option.splits if_splits prod.splits run_action.splits)
    qed simp
    from this [OF z1(2)] Cons.prems(2,5) True show ?thesis by simp
  qed (use n1 in blast)
  ultimately show ?case using Cons.IH [OF r _ _ z1(2)] Cons.prems(2,5) by (cases c) auto
qed

lemma run_worker_act:
  assumes "sleep_run_reach k q0 (z, ws, cs, sd, s)" "i < length ws"
    "worker_step rnd fin i (ws ! i) s = Some (pc, s')" "\<not> done_at s' (z_self z)"
  shows "sleep_run_reach k q0 (z, ws[i := pc], cs, sd, s')"
  using assms by (auto intro: sleep_run_reach.step sleep_run_step.scheduler coro_sys_step.worker)

lemma run_call_act:
  assumes "sleep_run_reach k q0 (z, ws, cs, sd, s)" "j < length cs"
    "call_step fin (cs ! j) s = Some (pc, s')" "call_handle pc = call_handle (cs ! j)" "\<not> done_at s' (z_self z)"
  shows "sleep_run_reach k q0 (z, ws, cs[j := pc], sd, s')"
proof -
  have "calls_of (z_self z) (cs[j := pc]) = calls_of (z_self z) cs"
    unfolding calls_of_def by (rule length_filter_update_same) (use assms in auto)
  with assms show ?thesis by (auto intro: sleep_run_reach.step sleep_run_step.scheduler coro_sys_step.call)
qed

lemma run_notify:
  assumes "sleep_run_reach k q0 (z, ws, cs, sd, s)" "j < length cs" "cs ! j = Call_notify g" "W_asleep \<notin> set ws"
    "\<not> done_at s (z_self z)"
  shows "sleep_run_reach k q0 (z, ws, cs[j := Queued g], sd, s)"
proof -
  have "calls_of (z_self z) (cs[j := Queued g]) = calls_of (z_self z) cs"
    unfolding calls_of_def by (rule length_filter_update_same) (use assms in auto)
  with assms show ?thesis by (auto intro: sleep_run_reach.step sleep_run_step.scheduler coro_sys_step.notify_nobody)
qed

text \<open>The timer fires, its call queues the handle, and the worker takes it.\<close>

lemma slept_and_resumed:
  "\<exists>z s. sleep_run_reach 0 run_start (z, [W_run 8192], [Queued 8192], Sd_idle, s)
     \<and> z_pc z = Z_done \<and> z_resume z = Z_none \<and> \<not> z_stopped z \<and> 2 \<le> z_now z \<and> t_heap (z_svc z) = []
     \<and> resumptions 8192 s = 1 \<and> buffer (external_coro_queue s) = []"
proof -
  let ?z0 = "sleep_init 0 sample_mem sample_mem 8192 (sleep_until 2 0 9)"
  let ?s0 = "init_coro_workers 1 1 (\<lambda>h. False)"
  have "\<exists>z. sleep_acts [Do_suspend, Do_suspend, Do_suspend, Do_tick 2, Do_fire] ?z0 = Some z
      \<and> z_pc z = Z_done \<and> z_resume z = Z_none \<and> \<not> z_stopped z \<and> 2 \<le> z_now z \<and> t_heap (z_svc z) = []
      \<and> z_self z = 8192 \<and> new_calls ?z0 z = [Call 8192]"
    by (simp add: sleep_init_def sleep_until_def sleep_ready_def token_cancelled_def
        is_cancelled_def new_cancellation_state_def register_callback_def push_callback_def call_new_def
        sample_mem_def set_fired_def add_timer_shared_def push_timer_def new_timer_service_def push_heap_def
        run_round_def pop_heap_def swap_def sift_down.simps least_child_def fire_entry_def view_of_def
        fire_gate_def schedule_call_def new_calls_def)
  then obtain z where z: "sleep_acts [Do_suspend, Do_suspend, Do_suspend, Do_tick 2, Do_fire] ?z0 = Some z"
    "z_pc z = Z_done" "z_resume z = Z_none" "\<not> z_stopped z" "2 \<le> z_now z" "t_heap (z_svc z) = []"
    "z_self z = 8192" "new_calls ?z0 z = [Call 8192]" by blast
  have "sleep_run_reach 0 run_start (?z0, [W_loop], [], Sd_idle, ?s0)"
    unfolding run_start_def coro_init_def by simp (rule sleep_run_reach.start)
  from sleep_acts_run [OF this _ _ z(1)] z(3,8)
  have r0: "sleep_run_reach 0 run_start (z, [W_loop], [Call 8192], Sd_idle, ?s0)"
    by (simp add: sleep_init_def)
  let ?s1 = "?s0\<lparr>external_coro_queue := (external_coro_queue ?s0)\<lparr>buffer := [8192]\<rparr>\<rparr>"
  let ?s2 = "take_handle 8192 (?s1\<lparr>external_coro_queue := (external_coro_queue ?s1)\<lparr>buffer := []\<rparr>\<rparr>)"
  have e: "local_empty ?s1" "num_workers ?s0 = 1" using init_empty by (simp_all add: local_empty_def num_workers_def)
  have noop: "noop_coroutine ?s0 = 1" by (simp add: init_coro_workers_def)
  have "length (coro_queues ?s0) = 1" by (rule init_simps(1))
  then have ne: "coro_queues ?s0 \<noteq> []" by (metis length_0_conv zero_neq_one)
  have r1: "sleep_run_reach 0 run_start (z, [W_loop], [Call_flag 8192], Sd_idle, ?s0)"
    using run_call_act [OF r0, of 0 False "Call_flag 8192" ?s0] by simp
  have r2: "sleep_run_reach 0 run_start (z, [W_loop], [Call_workers 8192], Sd_idle, ?s0)"
    using run_call_act [OF r1, of 0 False "Call_workers 8192" ?s0] by simp
  have r3: "sleep_run_reach 0 run_start (z, [W_loop], [Call_send 8192], Sd_idle, ?s0)"
    using run_call_act [OF r2, of 0 False "Call_send 8192" ?s0] ne by simp
  have r4: "sleep_run_reach 0 run_start (z, [W_loop], [Call_notify 8192], Sd_idle, ?s1)"
    using run_call_act [OF r3, of 0 False "Call_notify 8192" ?s1] by (simp add: call_send new_channel_def)
  have r5: "sleep_run_reach 0 run_start (z, [W_loop], [Queued 8192], Sd_idle, ?s1)"
    using run_notify [OF r4, of 0 8192] by simp
  have r6: "sleep_run_reach 0 run_start (z, [W_pop], [Queued 8192], Sd_idle, ?s1)"
    using run_worker_act [OF r5, of 0 0 False W_pop ?s1] by simp
  have r7: "sleep_run_reach 0 run_start (z, [W_external], [Queued 8192], Sd_idle, ?s1)"
    using run_worker_act [OF r6, of 0 0 False W_external ?s1] worker_pop_empty [OF e(1), of 0] by simp
  have "worker_step 0 False 0 W_external ?s1 = Some (W_run 8192, ?s2)"
    using noop by (simp add: worker_external resumable_def)
  then have "sleep_run_reach 0 run_start (z, [W_run 8192], [Queued 8192], Sd_idle, ?s2)"
    using run_worker_act [OF r7, of 0 0 False "W_run 8192" ?s2] by simp
  moreover have "resumptions 8192 ?s2 = 1"
    using noop by (simp add: resumptions_def resumable_def) (simp add: init_coro_workers_def)
  ultimately show ?thesis using z by (intro exI [of _ z] exI [of _ ?s2]) simp
qed

lemma sample_awake: "awake_before 8192 0 (coro_init 1 1 (\<lambda>h. False))"
  by (simp add: awake_before_def coro_init_def resumptions_def) (simp add: init_coro_workers_def new_channel_def)

theorem sleeper_resumed_once_witness:
  "\<exists>z ws cs sd s. sleep_run_reach 0 run_start (z, ws, cs, sd, s) \<and> resumptions 8192 s = 1
     \<and> (2 \<le> z_now z \<or> z_stopped z)"
proof -
  obtain z s where r: "sleep_run_reach 0 run_start (z, [W_run 8192], [Queued 8192], Sd_idle, s)"
    "resumptions 8192 s = 1" using slept_and_resumed by blast
  from sleeper_resumed_once [OF r(1) [unfolded run_start_def] coro_reach.start _ sample_awake] r(2)
  have "2 \<le> z_now z \<or> z_stopped z" by (simp add: sample_mem_def)
  with r show ?thesis by blast
qed

theorem elapsed_sleeper_is_resumed_witness:
  "\<exists>z s. sleep_run_reach 0 run_start (z, [W_run 8192], [Queued 8192], Sd_idle, s) \<and> z_pc z = Z_done
     \<and> resumptions 8192 s + count_list (buffer (external_coro_queue s)) 8192 = 1"
proof -
  obtain z s where r: "sleep_run_reach 0 run_start (z, [W_run 8192], [Queued 8192], Sd_idle, s)"
    "z_pc z = Z_done" "\<not> z_stopped z" "2 \<le> z_now z" "t_heap (z_svc z) = []"
    using slept_and_resumed by blast
  have nf: "\<nexists>e ts. run_round (z_now z) (z_svc z) = (Fire e, ts)" using r(5) by (simp add: run_round_def)
  have "resumptions 8192 s + count_list (buffer (external_coro_queue s)) 8192 = 0 + 1"
    by (rule elapsed_sleeper_is_resumed [OF r(1) [unfolded run_start_def] coro_reach.start _ sample_awake _ _ r(2,3) _ nf])
      (use r(4) in \<open>auto simp: sample_mem_def\<close>)
  with r show ?thesis by auto
qed

end
