(* ===== verification/AsyncBarrier.thy ===== *)
theory AsyncBarrier
  imports Barrier
begin

text \<open>
  \<open>async_barrier::arrive_and_wait_async\<close> (\<open>include/shared_state/barrier.hpp\<close>) among its
  participants, in one use of a new barrier: \<open>N\<close> coroutines arrive at a barrier for \<open>N\<close>, each
  once, and wait for each other.  The arrival, the look at the phase, the wake-up,
  \<open>await_ready\<close> and \<open>await_suspend\<close> of each are steps of their own, which interleave.
  \<open>BarrierReuse\<close> lets the participants come again.
\<close>

section \<open>A participant\<close>

text \<open>
  Where a participant stands, with its token.  \<open>Pa_suspended t k\<close>: it has suspended, after
  \<open>k\<close> wake-ups of the barrier in all.  The re-check of the phase in \<open>suspend_impl\<close> has an
  empty body and is left out.
\<close>

datatype part_pc = Pa_arrive | Pa_phase u64 | Pa_wake u64 | Pa_ready u64 | Pa_add u64
  | Pa_suspended u64 nat | Pa_through u64

record 'c meeting =
  m_barrier :: "'c async_barrier"
  m_mem :: async_mem
  m_wakes :: nat

text \<open>\<open>p\<close> is the address of the node in the awaiter, \<open>h\<close> the handle of the coroutine.\<close>

fun part_step ::
  "('c \<Rightarrow> 'c) \<Rightarrow> uintptr \<Rightarrow> coro \<Rightarrow> part_pc \<Rightarrow> 'c meeting \<Rightarrow> (part_pc \<times> 'c meeting) option" where
  "part_step f p h Pa_arrive m =
     (case arrive f 1 (bar_base (m_barrier m)) of
        Ret s ns (Bar_token t) \<Rightarrow> Some (Pa_phase t, m\<lparr>m_barrier := (m_barrier m)\<lparr>bar_base := s\<rparr>\<rparr>)
      | _ \<Rightarrow> None)"
| "part_step f p h (Pa_phase t) m =
     Some (if bar_phase (bar_base (m_barrier m)) \<noteq> t then Pa_wake t else Pa_ready t, m)"
| "part_step f p h (Pa_wake t) m =
     (case wake_all (bar_waiters (m_barrier m)) (m_mem m) of
        None \<Rightarrow> None
      | Some (head, w) \<Rightarrow>
          Some (Pa_ready t, m\<lparr>m_barrier := (m_barrier m)\<lparr>bar_waiters := head\<rparr>, m_mem := w,
            m_wakes := Suc (m_wakes m)\<rparr>))"
| "part_step f p h (Pa_ready t) m =
     Some (if bar_wait_ready t (m_barrier m) then Pa_through t else Pa_add t, m)"
| "part_step f p h (Pa_add t) m =
     (case bar_wait_suspend p h (m_barrier m) (m_mem m) of
        (a, w) \<Rightarrow> Some (Pa_suspended t (m_wakes m), m\<lparr>m_barrier := a, m_mem := w\<rparr>))"
| "part_step f p h (Pa_suspended t k) m =
     (if h \<in> set (sched (m_mem m)) then Some (Pa_through t, m) else None)"
| "part_step f p h (Pa_through t) m = None"

inductive meeting_step ::
  "('c \<Rightarrow> 'c) \<Rightarrow> (nat \<Rightarrow> uintptr) \<Rightarrow> (nat \<Rightarrow> coro) \<Rightarrow> part_pc list \<times> 'c meeting \<Rightarrow> part_pc list \<times> 'c meeting \<Rightarrow> bool"
  for f addr co where
  "i < length ps \<Longrightarrow> part_step f (addr i) (co i) (ps ! i) m = Some (pc, m') \<Longrightarrow>
   meeting_step f addr co (ps, m) (ps[i := pc], m')"

inductive_cases meeting_stepE: "meeting_step f addr co (ps, m) z"

definition meeting_init :: "nat \<Rightarrow> 'c \<Rightarrow> async_mem \<Rightarrow> part_pc list \<times> 'c meeting" where
  "meeting_init N c w =
     (replicate N Pa_arrive, \<lparr>m_barrier = new_async_barrier (of_nat N) c, m_mem = w, m_wakes = 0\<rparr>)"

inductive meeting_reach ::
  "('c \<Rightarrow> 'c) \<Rightarrow> (nat \<Rightarrow> uintptr) \<Rightarrow> (nat \<Rightarrow> coro) \<Rightarrow> part_pc list \<times> 'c meeting \<Rightarrow> part_pc list \<times> 'c meeting \<Rightarrow> bool"
  for f addr co z0 where
  start: "meeting_reach f addr co z0 z0"
| step: "meeting_reach f addr co z0 z \<Longrightarrow> meeting_step f addr co z z' \<Longrightarrow> meeting_reach f addr co z0 z'"

section \<open>The invariant\<close>

definition arrived :: "part_pc list \<Rightarrow> nat" where
  "arrived ps = length (filter (\<lambda>pc. pc \<noteq> Pa_arrive) ps)"

fun first_phase :: "part_pc \<Rightarrow> bool" where
  "first_phase Pa_arrive \<longleftrightarrow> True"
| "first_phase (Pa_phase t) \<longleftrightarrow> t = 0" | "first_phase (Pa_wake t) \<longleftrightarrow> t = 0" | "first_phase (Pa_ready t) \<longleftrightarrow> t = 0"
| "first_phase (Pa_add t) \<longleftrightarrow> t = 0" | "first_phase (Pa_suspended t k) \<longleftrightarrow> t = 0" | "first_phase (Pa_through t) \<longleftrightarrow> t = 0"

text \<open>Places that show that the phase is over, and where the last to arrive can be.\<close>

fun phase_over :: "part_pc \<Rightarrow> bool" where
  "phase_over (Pa_wake t) \<longleftrightarrow> True" | "phase_over (Pa_through t) \<longleftrightarrow> True" | "phase_over _ \<longleftrightarrow> False"

fun may_be_last :: "part_pc \<Rightarrow> bool" where
  "may_be_last (Pa_phase t) \<longleftrightarrow> True" | "may_be_last (Pa_wake t) \<longleftrightarrow> True" | "may_be_last (Pa_ready t) \<longleftrightarrow> True"
| "may_be_last (Pa_through t) \<longleftrightarrow> True" | "may_be_last _ \<longleftrightarrow> False"

definition named :: "nat \<Rightarrow> (nat \<Rightarrow> uintptr) \<Rightarrow> (nat \<Rightarrow> coro) \<Rightarrow> bool" where
  "named N addr co \<longleftrightarrow> 0 < N \<and> N < 2 ^ 63 \<and> inj_on addr {..<N} \<and> inj_on co {..<N}
     \<and> (\<forall>i < N. addr i \<noteq> 0 \<and> co i \<noteq> 0)"

text \<open>The participants whose nodes are on the list, last added first.\<close>

definition on_list :: "nat \<Rightarrow> (nat \<Rightarrow> uintptr) \<Rightarrow> (nat \<Rightarrow> coro) \<Rightarrow> nat list \<Rightarrow> part_pc list \<times> 'c meeting \<Rightarrow> bool" where
  "on_list N addr co is z = (case z of (ps, m) \<Rightarrow>
     chain (wnodes (m_mem m)) (bar_waiters (m_barrier m)) (map addr is) \<and> distinct is
     \<and> set is = {i. i < N \<and> (\<exists>t k. ps ! i = Pa_suspended t k) \<and> co i \<notin> set (sched (m_mem m))}
     \<and> (\<forall>i \<in> set is. node_handle (wnodes (m_mem m) (addr i)) = co i \<and> node_gate (wnodes (m_mem m) (addr i)) = 0))"

definition counted :: "('c \<Rightarrow> 'c) \<Rightarrow> nat \<Rightarrow> 'c \<Rightarrow> part_pc list \<times> 'c meeting \<Rightarrow> bool" where
  "counted f N c z = (case z of (ps, m) \<Rightarrow>
     length ps = N \<and> bar_at f N c (arrived ps) (bar_base (m_barrier m))
     \<and> (\<forall>pc \<in> set ps. first_phase pc \<and> (phase_over pc \<longrightarrow> arrived ps = N))
     \<and> (arrived ps = N \<longrightarrow> (\<exists>pc \<in> set ps. may_be_last pc)))"

definition scheduled_right :: "nat \<Rightarrow> (nat \<Rightarrow> coro) \<Rightarrow> part_pc list \<times> 'c meeting \<Rightarrow> bool" where
  "scheduled_right N co z = (case z of (ps, m) \<Rightarrow> \<forall>i < N.
     count_list (sched (m_mem m)) (co i) \<le> 1
     \<and> (co i \<in> set (sched (m_mem m)) \<longrightarrow> arrived ps = N \<and> ((\<exists>t k. ps ! i = Pa_suspended t k) \<or> (\<exists>t. ps ! i = Pa_through t)))
     \<and> (\<forall>t k. ps ! i = Pa_suspended t k \<longrightarrow> k \<le> m_wakes m \<and> (k < m_wakes m \<longrightarrow> co i \<in> set (sched (m_mem m)))))"

definition meeting_inv where
  "meeting_inv f N addr co c z \<longleftrightarrow>
     counted f N c z \<and> scheduled_right N co z \<and> (\<exists>is. on_list N addr co is z)"

lemma arrived_update:
  "i < length ps \<Longrightarrow> ps ! i \<noteq> Pa_arrive \<Longrightarrow> pc \<noteq> Pa_arrive \<Longrightarrow> arrived (ps[i := pc]) = arrived ps"
  "i < length ps \<Longrightarrow> ps ! i = Pa_arrive \<Longrightarrow> pc \<noteq> Pa_arrive \<Longrightarrow> arrived (ps[i := pc]) = Suc (arrived ps)"
  by (simp_all add: arrived_def length_filter_update_same length_filter_update_new)

lemma arrived_all: "arrived ps = length ps \<longleftrightarrow> Pa_arrive \<notin> set ps"
proof (induction ps)
  case (Cons pc ps)
  have "arrived ps \<le> length ps" "arrived (pc # ps) = (if pc = Pa_arrive then arrived ps else Suc (arrived ps))"
    by (simp_all add: arrived_def)
  with Cons show ?case by auto
qed (simp add: arrived_def)

text \<open>In the first phase the number of the phase tells whether all have arrived.\<close>

lemma bar_at_phase:
  assumes "bar_at f N c A s" "A \<le> N" "0 < N"
  shows "bar_phase s = (if A = N then 1 else 0)"
  using assms by (simp add: bar_at_def)

lemma counted_phase:
  assumes "counted f N c (ps, m)" "0 < N"
  shows "bar_phase (bar_base (m_barrier m)) = (if arrived ps = N then 1 else 0) \<and> arrived ps \<le> N"
proof -
  have le: "arrived ps \<le> N" and b: "bar_at f N c (arrived ps) (bar_base (m_barrier m))"
    using assms(1) by (auto simp: counted_def arrived_def)
  from bar_at_phase [OF b le assms(2)] le show ?thesis by simp
qed

section \<open>The steps\<close>

lemma first_phase_token:
  "counted f N c (ps, m) \<Longrightarrow> i < length ps \<Longrightarrow> first_phase (ps ! i) \<and> (phase_over (ps ! i) \<longrightarrow> arrived ps = N)"
  using nth_mem [of i ps] by (auto simp: counted_def)

lemma in_update: "x \<in> set (xs[i := y]) \<Longrightarrow> x = y \<or> x \<in> set xs"
  using set_update_subset_insert by fastforce

lemma ex_update:
  assumes "\<exists>q \<in> set xs. P q" "i < length xs" "P (xs ! i) \<Longrightarrow> P y"
  shows "\<exists>q \<in> set (xs[i := y]). P q"
proof -
  obtain j where j: "j < length xs" "P (xs ! j)" using assms(1) by (auto simp: in_set_conv_nth)
  show ?thesis
  proof (cases "j = i")
    case True
    then show ?thesis using assms(3) j set_update_memI [OF assms(2)] by blast
  next
    case False
    then have "P (xs[i := y] ! j)" using j by simp
    then show ?thesis using j(1) by (metis length_list_update nth_mem)
  qed
qed

lemma counted_same:
  assumes "counted f N c (ps, m)" "i < length ps" "ps ! i \<noteq> Pa_arrive" "pc \<noteq> Pa_arrive" "first_phase pc"
    "phase_over pc \<Longrightarrow> arrived ps = N" "may_be_last (ps ! i) \<Longrightarrow> arrived ps = N \<Longrightarrow> may_be_last pc"
    "bar_base (m_barrier m') = bar_base (m_barrier m)"
  shows "counted f N c (ps[i := pc], m')"
proof -
  note ar = arrived_update(1) [OF assms(2-4)]
  have "\<exists>q \<in> set (ps[i := pc]). may_be_last q" if full: "arrived ps = N"
    by (rule ex_update [OF _ assms(2)]) (use assms(1,7) full in \<open>auto simp: counted_def\<close>)
  then show ?thesis using assms ar by (auto simp: counted_def dest!: in_update)
qed

lemma meeting_arrive:
  assumes "named N addr co" "counted f N c (ps, m)" "i < length ps" "ps ! i = Pa_arrive"
    "part_step f p h Pa_arrive m = Some (pc, m')"
  shows "counted f N c (ps[i := pc], m') \<and> (\<exists>t. pc = Pa_phase t) \<and> m_mem m' = m_mem m
    \<and> bar_waiters (m_barrier m') = bar_waiters (m_barrier m) \<and> m_wakes m' = m_wakes m \<and> arrived ps < N"
proof -
  have N: "0 < N" using assms(1) by (simp add: named_def)
  have len: "length ps = N" and b: "bar_at f N c (arrived ps) (bar_base (m_barrier m))"
    using assms(2) by (auto simp: counted_def)
  have "Pa_arrive \<in> set ps" using assms(3,4) by (metis nth_mem)
  then have "arrived ps \<noteq> N" using arrived_all [of ps] len by simp
  then have lt: "arrived ps < N" using counted_phase [OF assms(2) N] by simp
  obtain s ns where ar: "arrive f 1 (bar_base (m_barrier m)) = Ret s ns (Bar_token (bar_phase (bar_base (m_barrier m))))"
    by (cases "bar_count (bar_base (m_barrier m)) = 1") (auto simp: arrive_def Let_def)
  have st: "pc = Pa_phase 0" "m' = m\<lparr>m_barrier := (m_barrier m)\<lparr>bar_base := s\<rparr>\<rparr>"
    using assms(5) ar counted_phase [OF assms(2) N] lt by auto
  have "1 \<le> sint (bar_count (bar_base (m_barrier m)))" using b lt by (simp add: bar_at_def)
  then have "bar_at f N c (nat (sint (1 :: ptrdiff)) + arrived ps) s"
    by (intro bar_at_arrive [OF b N _ _ ar]) simp_all
  then have "bar_at f N c (arrived (ps[i := Pa_phase 0])) s" using arrived_update(2) [OF assms(3,4)] by simp
  moreover have "\<exists>q \<in> set (ps[i := Pa_phase 0]). may_be_last q"
    by (rule bexI [OF _ set_update_memI [OF assms(3)]]) simp
  moreover have "\<not> phase_over q" if "q \<in> set ps" for q using assms(2) lt that by (auto simp: counted_def)
  ultimately have "counted f N c (ps[i := pc], m')"
    using assms(2,3) lt unfolding st
    by (auto simp: counted_def dest!: in_update)
  with lt show ?thesis by (simp add: st)
qed

text \<open>Who is on the list, and who was scheduled, when a participant moves.\<close>

fun suspended :: "part_pc \<Rightarrow> bool" where
  "suspended (Pa_suspended t k) \<longleftrightarrow> True" | "suspended _ \<longleftrightarrow> False"

lemma suspended_iff: "suspended pc \<longleftrightarrow> (\<exists>t k. pc = Pa_suspended t k)"
  by (cases pc) simp_all

lemma not_scheduled:
  "scheduled_right N co (ps, m) \<Longrightarrow> i < N \<Longrightarrow> \<not> suspended (ps ! i) \<Longrightarrow> \<not> phase_over (ps ! i) \<or> (\<exists>t. ps ! i = Pa_wake t) \<Longrightarrow>
   co i \<notin> set (sched (m_mem m))"
  by (cases "ps ! i") (auto simp: scheduled_right_def)

lemma on_list_same:
  assumes "on_list N addr co is (ps, m)" "i < N" "length ps = N" "m_mem m' = m_mem m"
    "bar_waiters (m_barrier m') = bar_waiters (m_barrier m)"
    "\<not> suspended (ps ! i) \<or> co i \<in> set (sched (m_mem m))" "\<not> suspended pc"
  shows "on_list N addr co is (ps[i := pc], m')"
proof -
  have "{j. j < N \<and> suspended (ps[i := pc] ! j) \<and> co j \<notin> set (sched (m_mem m))}
      = {j. j < N \<and> suspended (ps ! j) \<and> co j \<notin> set (sched (m_mem m))}"
    using assms(2,3,6,7) by (auto simp: nth_list_update)
  with assms(1,4,5) show ?thesis by (simp add: on_list_def suspended_iff)
qed

lemma scheduled_same:
  assumes "scheduled_right N co (ps, m)" "i < N" "length ps = N" "m_mem m' = m_mem m" "m_wakes m' = m_wakes m"
    "arrived ps = N \<Longrightarrow> arrived (ps[i := pc]) = N"
    "co i \<in> set (sched (m_mem m)) \<Longrightarrow> \<exists>t. pc = Pa_through t" "\<not> suspended pc"
  shows "scheduled_right N co (ps[i := pc], m')"
  unfolding scheduled_right_def prod.case
proof (intro allI impI)
  fix j assume "j < N"
  with assms show "count_list (sched (m_mem m')) (co j) \<le> 1 \<and>
      (co j \<in> set (sched (m_mem m')) \<longrightarrow> arrived (ps[i := pc]) = N \<and>
        ((\<exists>t k. ps[i := pc] ! j = Pa_suspended t k) \<or> (\<exists>t. ps[i := pc] ! j = Pa_through t))) \<and>
      (\<forall>t k. ps[i := pc] ! j = Pa_suspended t k \<longrightarrow>
        k \<le> m_wakes m' \<and> (k < m_wakes m' \<longrightarrow> co j \<in> set (sched (m_mem m'))))"
    by (cases "j = i") (auto simp: scheduled_right_def)
qed

text \<open>A wake-up empties the list and schedules everyone on it.\<close>

lemma handles_of_participants:
  "\<forall>i \<in> set is. node_handle (wnodes w (addr i)) = co i \<Longrightarrow> handles w (map addr is) = map co is"
  by (simp add: handles_def)

lemma meeting_wake:
  assumes "named N addr co" "on_list N addr co is (ps, m)" "scheduled_right N co (ps, m)"
    "counted f N c (ps, m)" "arrived ps = N"
  obtains w where "wake_all (bar_waiters (m_barrier m)) (m_mem m) = Some (0, w)"
    "sched w = sched (m_mem m) @ map co is" "wnodes w = wnodes (m_mem m)"
    "\<And>i. i < N \<Longrightarrow> count_list (sched w) (co i) \<le> 1"
    "\<And>i. i < N \<Longrightarrow> suspended (ps ! i) \<Longrightarrow> co i \<in> set (sched w)"
    "\<And>i. i < N \<Longrightarrow> co i \<in> set (sched w) \<Longrightarrow> co i \<in> set (sched (m_mem m)) \<or> suspended (ps ! i)"
proof
  have ch: "chain (wnodes (m_mem m)) (bar_waiters (m_barrier m)) (map addr is)" "distinct is"
    "\<forall>i \<in> set is. node_handle (wnodes (m_mem m) (addr i)) = co i \<and> node_gate (wnodes (m_mem m) (addr i)) = 0"
    and set: "set is = {i. i < N \<and> suspended (ps ! i) \<and> co i \<notin> set (sched (m_mem m))}"
    using assms(2) by (simp_all add: on_list_def suspended_iff)
  have inj: "inj_on co (set is)" "\<forall>i \<in> set is. co i \<noteq> 0" "inj_on co {..<N}"
    using assms(1) set by (auto simp: named_def inj_on_def)
  have "plain (m_mem m) (map addr is)" using ch(3) inj(2) by (simp add: plain_def)
  then have s: "sched (fold fire_node (map addr is) (m_mem m)) = sched (m_mem m) @ map co is"
    using fold_fire_plain handles_of_participants ch(3) by metis
  let ?w = "fold fire_node (map addr is) (m_mem m)"
  show "wake_all (bar_waiters (m_barrier m)) (m_mem m) = Some (0, ?w)" by (rule wake_all_chain [OF ch(1)])
  show "sched ?w = sched (m_mem m) @ map co is" by (rule s)
  show "wnodes ?w = wnodes (m_mem m)" by (rule fold_fire_wnodes)
  fix i assume i: "i < N"
  have "distinct (map co is)" using inj(1) ch(2) by (simp add: distinct_map)
  then have "count_list (map co is) (co i) \<le> 1"
    by (metis count_mset distinct_count_atmost_1 le_refl zero_le_one)
  moreover have "co i \<in> set (map co is) \<longleftrightarrow> i \<in> set is" using inj(3) i set by (auto simp: inj_on_def)
  ultimately show "count_list (sched ?w) (co i) \<le> 1"
    using assms(3) i set by (cases "i \<in> set is") (auto simp: s scheduled_right_def count_list_0_iff)
  show "suspended (ps ! i) \<Longrightarrow> co i \<in> set (sched ?w)" using i set by (auto simp: s)
  show "co i \<in> set (sched ?w) \<Longrightarrow> co i \<in> set (sched (m_mem m)) \<or> suspended (ps ! i)"
    using i set inj(3) by (auto simp: s inj_on_def)
qed

lemma on_listI:
  assumes "chain (wnodes (m_mem m)) (bar_waiters (m_barrier m)) (map addr is)" "distinct is"
    "set is = {i. i < N \<and> suspended (ps ! i) \<and> co i \<notin> set (sched (m_mem m))}"
    "\<forall>i \<in> set is. node_handle (wnodes (m_mem m) (addr i)) = co i \<and> node_gate (wnodes (m_mem m) (addr i)) = 0"
  shows "on_list N addr co is (ps, m)"
  using assms unfolding on_list_def suspended_iff by simp

lemma on_list_add:
  assumes "named N addr co" "on_list N addr co is (ps, m)" "scheduled_right N co (ps, m)" "i < N" "length ps = N"
    "ps ! i = Pa_add t" "bar_wait_suspend (addr i) (co i) (m_barrier m) (m_mem m) = (a, w)"
    "m' = m\<lparr>m_barrier := a, m_mem := w\<rparr>"
  shows "on_list N addr co (i # is) (ps[i := Pa_suspended t k], m') \<and> bar_base a = bar_base (m_barrier m)
    \<and> sched w = sched (m_mem m)"
proof -
  have ch: "chain (wnodes (m_mem m)) (bar_waiters (m_barrier m)) (map addr is)" "distinct is"
    "\<forall>j \<in> set is. node_handle (wnodes (m_mem m) (addr j)) = co j \<and> node_gate (wnodes (m_mem m) (addr j)) = 0"
    and set: "set is = {j. j < N \<and> suspended (ps ! j) \<and> co j \<notin> set (sched (m_mem m))}"
    using assms(2) by (simp_all add: on_list_def suspended_iff)
  have i: "i \<notin> set is" "co i \<notin> set (sched (m_mem m))"
    using set assms(6) not_scheduled [OF assms(3,4)] by simp_all
  have new: "addr i \<noteq> 0" "addr i \<notin> set (map addr is)"
    using assms(1,4) set i(1) by (auto simp: named_def inj_on_def)
  then have nj: "\<forall>j \<in> set is. addr j \<noteq> addr i" by (metis image_eqI list.set_map)
  obtain head' w' where add: "add_waiter (addr i) (bar_waiters (m_barrier m)) (arm_node (addr i) (co i) 0 (m_mem m)) = (head', w')"
    by fastforce
  then have aw: "a = (m_barrier m)\<lparr>bar_waiters := head'\<rparr>" "w = w'"
    using assms(7) by (simp_all add: bar_wait_suspend_def add_phase_waiter_def)
  have "chain (wnodes (arm_node (addr i) (co i) 0 (m_mem m))) (bar_waiters (m_barrier m)) (map addr is)"
    using ch(1) new(2) by (simp add: arm_node_def chain_update)
  then have "chain (wnodes w') head' (map addr (i # is))" using chain_add [OF _ new add] by simp
  then have nodes: "chain (wnodes w') head' (map addr (i # is))" "sched w' = sched (m_mem m)"
    "node_handle (wnodes w' (addr i)) = co i" "node_gate (wnodes w' (addr i)) = 0"
    "\<forall>j \<in> set is. wnodes w' (addr j) = wnodes (m_mem m) (addr j)"
    using add nj by (auto simp: add_waiter_def arm_node_def)
  have m': "m_mem m' = w'" "bar_waiters (m_barrier m') = head'" by (simp_all add: assms(8) aw)
  have "on_list N addr co (i # is) (ps[i := Pa_suspended t k], m')"
  proof (rule on_listI)
    show "distinct (i # is)" using ch(2) i(1) by simp
    show "set (i # is) = {j. j < N \<and> suspended (ps[i := Pa_suspended t k] ! j) \<and> co j \<notin> set (sched (m_mem m'))}"
      using set i(2) assms(4,5) nodes(2) by (auto simp: nth_list_update m')
    show "\<forall>j \<in> set (i # is). node_handle (wnodes (m_mem m') (addr j)) = co j
        \<and> node_gate (wnodes (m_mem m') (addr j)) = 0"
      using nodes(3-5) ch(3) by (simp add: m')
  qed (simp only: m' nodes(1))
  then show ?thesis using nodes(2) by (simp add: aw)
qed

lemma scheduled_add:
  assumes "scheduled_right N co (ps, m)" "i < N" "length ps = N" "ps ! i = Pa_add t"
    "sched (m_mem m') = sched (m_mem m)" "m_wakes m' = m_wakes m"
  shows "scheduled_right N co (ps[i := Pa_suspended t (m_wakes m)], m')"
  unfolding scheduled_right_def prod.case
proof (intro allI impI)
  fix j assume "j < N"
  have "arrived (ps[i := Pa_suspended t (m_wakes m)]) = arrived ps"
    by (rule arrived_update(1)) (use assms in simp_all)
  with \<open>j < N\<close> assms show "count_list (sched (m_mem m')) (co j) \<le> 1 \<and>
      (co j \<in> set (sched (m_mem m')) \<longrightarrow> arrived (ps[i := Pa_suspended t (m_wakes m)]) = N \<and>
        ((\<exists>u k. ps[i := Pa_suspended t (m_wakes m)] ! j = Pa_suspended u k) \<or>
         (\<exists>u. ps[i := Pa_suspended t (m_wakes m)] ! j = Pa_through u))) \<and>
      (\<forall>u k. ps[i := Pa_suspended t (m_wakes m)] ! j = Pa_suspended u k \<longrightarrow>
        k \<le> m_wakes m' \<and> (k < m_wakes m' \<longrightarrow> co j \<in> set (sched (m_mem m'))))"
    by (cases "j = i") (auto simp: scheduled_right_def)
qed

lemma scheduled_wake:
  assumes "scheduled_right N co (ps, m)" "i < N" "length ps = N" "arrived ps = N" "ps ! i = Pa_wake t"
    "pc = Pa_ready t" "m_wakes m' = Suc (m_wakes m)"
    "\<And>j. j < N \<Longrightarrow> count_list (sched (m_mem m')) (co j) \<le> 1"
    "\<And>j. j < N \<Longrightarrow> suspended (ps ! j) \<Longrightarrow> co j \<in> set (sched (m_mem m'))"
    "\<And>j. j < N \<Longrightarrow> co j \<in> set (sched (m_mem m')) \<Longrightarrow> co j \<in> set (sched (m_mem m)) \<or> suspended (ps ! j)"
  shows "scheduled_right N co (ps[i := pc], m')"
  unfolding scheduled_right_def prod.case
proof (intro allI impI)
  fix j assume j: "j < N"
  have ar: "arrived (ps[i := pc]) = N" using arrived_update(1) [of i ps pc] assms(2-6) by simp
  have "co i \<notin> set (sched (m_mem m'))"
    using assms(10) [OF assms(2)] not_scheduled [OF assms(1,2)] assms(5) by auto
  with j ar assms(2,3,6,7) assms(8) [OF j] assms(9) [OF j] assms(10) [OF j] assms(1)
  show "count_list (sched (m_mem m')) (co j) \<le> 1 \<and>
      (co j \<in> set (sched (m_mem m')) \<longrightarrow> arrived (ps[i := pc]) = N \<and>
        ((\<exists>t k. ps[i := pc] ! j = Pa_suspended t k) \<or> (\<exists>t. ps[i := pc] ! j = Pa_through t))) \<and>
      (\<forall>t k. ps[i := pc] ! j = Pa_suspended t k \<longrightarrow>
        k \<le> m_wakes m' \<and> (k < m_wakes m' \<longrightarrow> co j \<in> set (sched (m_mem m'))))"
    by (cases "j = i") (auto simp: scheduled_right_def suspended_iff le_SucI)
qed

lemma meeting_inv_step:
  assumes "named N addr co" "meeting_inv f N addr co c z" "meeting_step f addr co z z'"
  shows "meeting_inv f N addr co c z'"
  using assms(3)
proof cases
  case (1 i ps m pc m')
  obtain "is" where I: "counted f N c (ps, m)" "scheduled_right N co (ps, m)" "on_list N addr co is (ps, m)"
    using assms(2) by (auto simp: meeting_inv_def 1(1))
  have len: "length ps = N" using I(1) by (simp add: counted_def)
  then have i: "i < N" using 1(3) by simp
  have N: "0 < N" using assms(1) by (simp add: named_def)
  note tok = first_phase_token [OF I(1) 1(3)]
  note ph = counted_phase [OF I(1) N]
  note out = not_scheduled [OF I(2) i]
  show ?thesis
  proof (cases "ps ! i")
    case Pa_arrive
    note ar = meeting_arrive [OF assms(1) I(1) 1(3) Pa_arrive 1(4) [unfolded Pa_arrive]]
    have "scheduled_right N co (ps[i := pc], m')"
      by (rule scheduled_same [OF I(2) i len]) (use ar out Pa_arrive in auto)
    moreover have "on_list N addr co is (ps[i := pc], m')"
      by (rule on_list_same [OF I(3) i len]) (use ar Pa_arrive in auto)
    ultimately show ?thesis using ar by (auto simp: meeting_inv_def 1(2))
  next
    case (Pa_wake t)
    then have full: "arrived ps = N" using tok by simp
    from meeting_wake [OF assms(1) I(3,2,1) full] obtain w where
      w: "wake_all (bar_waiters (m_barrier m)) (m_mem m) = Some (0, w)"
      "\<And>i. i < N \<Longrightarrow> count_list (sched w) (co i) \<le> 1"
      "\<And>i. i < N \<Longrightarrow> suspended (ps ! i) \<Longrightarrow> co i \<in> set (sched w)"
      "\<And>i. i < N \<Longrightarrow> co i \<in> set (sched w) \<Longrightarrow> co i \<in> set (sched (m_mem m)) \<or> suspended (ps ! i)" by metis
    then have st: "pc = Pa_ready t" "bar_waiters (m_barrier m') = 0" "m_mem m' = w" "m_wakes m' = Suc (m_wakes m)"
      "bar_base (m_barrier m') = bar_base (m_barrier m)"
      using 1(4) Pa_wake by auto
    have cnt: "counted f N c (ps[i := pc], m')"
      by (rule counted_same [OF I(1) 1(3)]) (use Pa_wake st tok in auto)
    have "scheduled_right N co (ps[i := pc], m')"
      by (rule scheduled_wake [OF I(2) i len full Pa_wake st(1)]) (use w out Pa_wake st in auto)
    moreover have "on_list N addr co [] (ps[i := pc], m')"
      using w(3) st len 1(3) by (auto simp: on_list_def suspended_iff nth_list_update)
    ultimately show ?thesis using cnt by (auto simp: meeting_inv_def 1(2))
  next
    case (Pa_add t)
    obtain a w where aw: "bar_wait_suspend (addr i) (co i) (m_barrier m) (m_mem m) = (a, w)" by fastforce
    then have st: "pc = Pa_suspended t (m_wakes m)" "m' = m\<lparr>m_barrier := a, m_mem := w\<rparr>"
      using 1(4) Pa_add by auto
    note add = on_list_add [OF assms(1) I(3,2) i len Pa_add aw st(2)]
    have "counted f N c (ps[i := pc], m')"
      by (rule counted_same [OF I(1) 1(3)]) (use Pa_add st tok add in auto)
    moreover have "scheduled_right N co (ps[i := pc], m')"
      unfolding st(1) by (rule scheduled_add [OF I(2) i len Pa_add]) (use add st in auto)
    ultimately show ?thesis using add by (auto simp: meeting_inv_def 1(2) st(1))
  next
    case (Pa_suspended t k)
    then have st: "pc = Pa_through t" "m' = m" "co i \<in> set (sched (m_mem m))" using 1(4) by (auto split: if_splits)
    have "counted f N c (ps[i := pc], m')"
      by (rule counted_same [OF I(1) 1(3)]) (use Pa_suspended st tok I(2) i in \<open>auto simp: scheduled_right_def\<close>)
    moreover have "scheduled_right N co (ps[i := pc], m')"
      by (rule scheduled_same [OF I(2) i len]) (use Pa_suspended st arrived_update(1) [OF 1(3), of pc] in auto)
    moreover have "on_list N addr co is (ps[i := pc], m')"
      by (rule on_list_same [OF I(3) i len]) (use Pa_suspended st in auto)
    ultimately show ?thesis by (auto simp: meeting_inv_def 1(2))
  next
    case (Pa_phase t)
    then have st: "pc = (if arrived ps = N then Pa_wake 0 else Pa_ready 0)" "m' = m"
      using 1(4) ph tok by auto
    have "counted f N c (ps[i := pc], m')"
      by (rule counted_same [OF I(1) 1(3)]) (use Pa_phase st in \<open>auto split: if_splits\<close>)
    moreover have "scheduled_right N co (ps[i := pc], m')"
      by (rule scheduled_same [OF I(2) i len]) (use Pa_phase st out arrived_update(1) [OF 1(3), of pc] in auto)
    moreover have "on_list N addr co is (ps[i := pc], m')"
      by (rule on_list_same [OF I(3) i len]) (use Pa_phase st in auto)
    ultimately show ?thesis by (auto simp: meeting_inv_def 1(2))
  next
    case (Pa_ready t)
    then have st: "pc = (if arrived ps = N then Pa_through 0 else Pa_add 0)" "m' = m"
      using 1(4) ph tok by (auto simp: bar_wait_ready_def)
    have "counted f N c (ps[i := pc], m')"
      by (rule counted_same [OF I(1) 1(3)]) (use Pa_ready st in \<open>auto split: if_splits\<close>)
    moreover have "scheduled_right N co (ps[i := pc], m')"
      by (rule scheduled_same [OF I(2) i len]) (use Pa_ready st out arrived_update(1) [OF 1(3), of pc] in auto)
    moreover have "on_list N addr co is (ps[i := pc], m')"
      by (rule on_list_same [OF I(3) i len]) (use Pa_ready st in auto)
    ultimately show ?thesis by (auto simp: meeting_inv_def 1(2))
  qed (use 1(4) in simp)
qed

text \<open>Once all have arrived somebody is still to wake the others, or has.\<close>

definition wake_due :: "nat \<Rightarrow> part_pc list \<times> 'c meeting \<Rightarrow> bool" where
  "wake_due N z = (case z of (ps, m) \<Rightarrow>
     arrived ps = N \<longrightarrow> 0 < m_wakes m \<or> (\<exists>pc \<in> set ps. pc = Pa_phase 0 \<or> pc = Pa_wake 0))"

lemma wake_due_step:
  assumes "named N addr co" "meeting_inv f N addr co c z" "wake_due N z" "meeting_step f addr co z z'"
  shows "wake_due N z'"
  using assms(4)
proof cases
  case (1 i ps m pc m')
  have I: "counted f N c (ps, m)" using assms(2) by (simp add: meeting_inv_def 1(1))
  have N: "0 < N" using assms(1) by (simp add: named_def)
  note ph = counted_phase [OF I N] and tok = first_phase_token [OF I 1(3)]
  show ?thesis
  proof (cases "ps ! i = Pa_arrive \<or> (\<exists>t. ps ! i = Pa_wake t)")
    case True
    then consider "ps ! i = Pa_arrive" | t where "ps ! i = Pa_wake t" by blast
    then show ?thesis
    proof cases
      case 2
      then show ?thesis using 1(4) by (auto simp: wake_due_def 1(2) split: option.splits)
    next
      case 11: 1
      from meeting_arrive [OF assms(1) I 1(3) 11 1(4) [unfolded 11]]
      have "counted f N c (ps[i := pc], m')" "\<exists>t. pc = Pa_phase t" by blast+
      then have "pc = Pa_phase 0"
        using first_phase_token [of f N c "ps[i := pc]" m' i] 1(3) by auto
      then show ?thesis using set_update_memI [OF 1(3), of pc] by (auto simp: wake_due_def 1(2))
    qed
  next
    case False
    have w: "m_wakes m' = m_wakes m"
      using False 1(4) by (cases "ps ! i") (auto split: prod.splits if_splits)
    have "pc \<noteq> Pa_arrive" using False 1(4) by (cases "ps ! i") (auto split: prod.splits if_splits)
    then have ar: "arrived (ps[i := pc]) = arrived ps" using False arrived_update(1) [OF 1(3)] by blast
    have "\<exists>q \<in> set (ps[i := pc]). q = Pa_phase 0 \<or> q = Pa_wake 0"
      if full: "arrived ps = N" and "\<not> 0 < m_wakes m"
    proof (rule ex_update [OF _ 1(3)])
      show "\<exists>q \<in> set ps. q = Pa_phase 0 \<or> q = Pa_wake 0"
        using assms(3) that by (simp add: wake_due_def 1(1))
      show "pc = Pa_phase 0 \<or> pc = Pa_wake 0" if "ps ! i = Pa_phase 0 \<or> ps ! i = Pa_wake 0"
        using that False 1(4) ph full by auto
    qed
    then show ?thesis using w ar by (auto simp: wake_due_def 1(2))
  qed
qed

lemma meeting_reach_inv:
  assumes "named N addr co" "meeting_reach f addr co (meeting_init N c w) z" "\<forall>i < N. co i \<notin> set (sched w)"
  shows "meeting_inv f N addr co c z \<and> wake_due N z"
  using assms(2)
proof induction
  case start
  have N: "0 < N" "N < 2 ^ 63" using assms(1) by (simp_all add: named_def)
  then have "sint (of_nat N :: ptrdiff) = int N" by (simp add: signed_of_nat signed_take_bit_int_eq_self)
  then have "bar_at f N c 0 (new_barrier (of_nat N) c)" by (simp add: bar_at_def new_barrier_def)
  moreover have "arrived (replicate N Pa_arrive) = 0" by (simp add: arrived_def)
  ultimately show ?case using N assms(3)
    by (auto simp: meeting_inv_def counted_def scheduled_right_def on_list_def meeting_init_def
        new_async_barrier_def wake_due_def count_list_0_iff intro!: exI [of _ "[]"])
qed (blast intro: meeting_inv_step [OF assms(1)] wake_due_step [OF assms(1)])

lemma part_step_stuck:
  assumes "part_step f p h pc m = None" "wake_all (bar_waiters (m_barrier m)) (m_mem m) \<noteq> None"
  shows "(\<exists>t. pc = Pa_through t) \<or> (\<exists>t k. pc = Pa_suspended t k \<and> h \<notin> set (sched (m_mem m)))"
  using assms by (cases pc) (auto simp: arrive_def Let_def split: if_splits prod.splits)

section \<open>Properties\<close>

text \<open>
  In its first use the asynchronous barrier holds everybody back until all have arrived, and
  schedules each participant at most once, in every interleaving.
\<close>

theorem async_barrier_holds_back:
  assumes "named N addr co" "meeting_reach f addr co (meeting_init N c w) (ps, m)" "\<forall>i < N. co i \<notin> set (sched w)"
  shows "\<forall>i < N. count_list (sched (m_mem m)) (co i) \<le> 1
    \<and> (co i \<in> set (sched (m_mem m)) \<or> (\<exists>t. ps ! i = Pa_through t) \<longrightarrow>
        Pa_arrive \<notin> set ps \<and> bar_phase (bar_base (m_barrier m)) = 1)"
proof -
  have I: "counted f N c (ps, m)" "scheduled_right N co (ps, m)"
    using meeting_reach_inv [OF assms] by (simp_all add: meeting_inv_def)
  have N: "0 < N" "length ps = N" using assms(1) I(1) by (simp_all add: named_def counted_def)
  have "arrived ps = N" if "i < N" "co i \<in> set (sched (m_mem m)) \<or> (\<exists>t. ps ! i = Pa_through t)" for i
    using that I(2) first_phase_token [OF I(1), of i] N(2) by (auto simp: scheduled_right_def)
  then show ?thesis using I(2) counted_phase [OF I(1) N(1)] arrived_all [of ps] N(2)
    by (auto simp: scheduled_right_def)
qed

text \<open>
  A participant is left behind only if it was late.  When no participant can take a step any
  more, all have arrived, the phase is over, the waiting coroutines were woken at least once
  and at least one participant is through; every other one is suspended for ever, and it
  has put its node on the list after the last wake-up.
\<close>

theorem async_barrier_leaves_late_only:
  assumes "named N addr co" "meeting_reach f addr co (meeting_init N c w) (ps, m)" "\<forall>i < N. co i \<notin> set (sched w)"
    and "\<nexists>z. meeting_step f addr co (ps, m) z"
  shows "bar_phase (bar_base (m_barrier m)) = 1 \<and> 0 < m_wakes m \<and> (\<exists>i < N. ps ! i = Pa_through 0)
    \<and> (\<forall>i < N. ps ! i = Pa_through 0 \<or> ps ! i = Pa_suspended 0 (m_wakes m) \<and> co i \<notin> set (sched (m_mem m)))"
proof -
  obtain "is" where I: "counted f N c (ps, m)" "scheduled_right N co (ps, m)" "on_list N addr co is (ps, m)"
    and due: "wake_due N (ps, m)"
    using meeting_reach_inv [OF assms(1-3)] by (auto simp: meeting_inv_def)
  have N: "0 < N" "length ps = N" using assms(1) I(1) by (simp_all add: named_def counted_def)
  have stuck: "part_step f (addr i) (co i) (ps ! i) m = None" if "i < N" for i
    using assms(4) meeting_step.intros [of i ps f addr co m] that N(2)
    by (cases "part_step f (addr i) (co i) (ps ! i) m") auto
  have wakes: "wake_all (bar_waiters (m_barrier m)) (m_mem m) \<noteq> None"
    using I(3) wake_all_chain by (auto simp: on_list_def)
  have each: "ps ! i = Pa_through 0 \<or> ps ! i = Pa_suspended 0 (m_wakes m) \<and> co i \<notin> set (sched (m_mem m))"
    if i: "i < N" for i
  proof -
    have t: "first_phase (ps ! i)" using first_phase_token [OF I(1)] i N(2) by blast
    from part_step_stuck [OF stuck [OF i] wakes] show ?thesis
    proof (elim disjE exE conjE)
      fix t k assume k: "ps ! i = Pa_suspended t k" "co i \<notin> set (sched (m_mem m))"
      then have "k \<le> m_wakes m" "\<not> k < m_wakes m" using I(2) i by (auto simp: scheduled_right_def)
      with k t show ?thesis by simp
    qed (use t in simp)
  qed
  have shape: "pc = Pa_through 0 \<or> pc = Pa_suspended 0 (m_wakes m)" if "pc \<in> set ps" for pc
    using that each N(2) unfolding in_set_conv_nth by blast
  have full: "arrived ps = N" using arrived_all [of ps] N(2) shape [of Pa_arrive] by auto
  then obtain pc where pc: "pc \<in> set ps" "may_be_last pc" using I(1) by (auto simp: counted_def)
  with shape [of pc] have "Pa_through 0 \<in> set ps" by auto
  then have "\<exists>i < N. ps ! i = Pa_through 0" using N(2) by (simp add: in_set_conv_nth)
  moreover have "0 < m_wakes m"
    using due full shape [of "Pa_phase 0"] shape [of "Pa_wake 0"] by (auto simp: wake_due_def)
  ultimately show ?thesis using each full counted_phase [OF I(1) N(1)] by simp
qed

text \<open>Every participant takes at most six steps, so every meeting ends.\<close>

fun part_steps_left :: "part_pc \<Rightarrow> nat" where
  "part_steps_left Pa_arrive = 6" | "part_steps_left (Pa_phase t) = 5" | "part_steps_left (Pa_wake t) = 4"
| "part_steps_left (Pa_ready t) = 3" | "part_steps_left (Pa_add t) = 2" | "part_steps_left (Pa_suspended t k) = 1"
| "part_steps_left (Pa_through t) = 0"

definition meeting_steps_left :: "part_pc list \<times> 'c meeting \<Rightarrow> nat" where
  "meeting_steps_left z = sum_list (map part_steps_left (fst z))"

theorem async_barrier_meeting_ends:
  "meeting_steps_left (meeting_init N c w) = 6 * N
   \<and> (meeting_step f addr co z z' \<longrightarrow> meeting_steps_left z' < meeting_steps_left z)"
proof (intro conjI impI)
  show "meeting_steps_left (meeting_init N c w) = 6 * N"
    by (simp add: meeting_steps_left_def meeting_init_def sum_list_replicate)
  assume "meeting_step f addr co z z'"
  then show "meeting_steps_left z' < meeting_steps_left z"
  proof cases
    case (1 i ps m pc m')
    have "part_steps_left pc < part_steps_left (ps ! i)"
      using 1(4) by (cases "ps ! i") (auto simp: arrive_def Let_def split: if_splits prod.splits option.splits)
    with sum_list_map_update [OF 1(3), of part_steps_left pc] show ?thesis
      by (simp add: meeting_steps_left_def 1(1,2))
  qed
qed

section \<open>A participant that is left behind\<close>

text \<open>The participants take steps in a given order.\<close>

fun meeting_run ::
  "('c \<Rightarrow> 'c) \<Rightarrow> (nat \<Rightarrow> uintptr) \<Rightarrow> (nat \<Rightarrow> coro) \<Rightarrow> nat list \<Rightarrow> part_pc list \<times> 'c meeting \<Rightarrow>
   (part_pc list \<times> 'c meeting) option" where
  "meeting_run f addr co [] z = Some z"
| "meeting_run f addr co (i # is) (ps, m) =
     (if i < length ps
      then case part_step f (addr i) (co i) (ps ! i) m of
          None \<Rightarrow> None
        | Some (pc, m') \<Rightarrow> meeting_run f addr co is (ps[i := pc], m')
      else None)"

lemma meeting_run_reach:
  "meeting_reach f addr co z0 z \<Longrightarrow> meeting_run f addr co is z = Some z' \<Longrightarrow> meeting_reach f addr co z0 z'"
proof (induction f addr co "is" z rule: meeting_run.induct)
  case (2 f addr co i "is" ps m)
  from "2.prems"(2) obtain pc m' where s: "i < length ps" "part_step f (addr i) (co i) (ps ! i) m = Some (pc, m')"
    "meeting_run f addr co is (ps[i := pc], m') = Some z'" by (auto split: if_splits option.splits)
  have "meeting_step f addr co (ps, m) (ps[i := pc], m')" using s(1,2) by (rule meeting_step.intros)
  with "2.prems"(1) have "meeting_reach f addr co z0 (ps[i := pc], m')" by (rule meeting_reach.step)
  then show ?case using "2.IH" [OF s(1,2) refl] s(3) by blast
qed simp

text \<open>
  Two participants; the second arrives, completes the phase and wakes nobody between the
  \<open>await_ready\<close> of the first and its \<open>await_suspend\<close>: the first is suspended for ever, although
  the comment in \<open>suspend_impl\<close> says that it will be woken.
\<close>

definition two_addr :: "nat \<Rightarrow> uintptr" where "two_addr i = (if i = 0 then 16 else 32)"
definition two_co :: "nat \<Rightarrow> coro" where "two_co i = (if i = 0 then 5 else 7)"

lemma two_named: "named 2 two_addr two_co"
  by (auto simp: named_def two_addr_def two_co_def inj_on_def)

lemma meeting_stuckI:
  assumes "\<forall>pc \<in> set ps. (\<exists>t. pc = Pa_through t) \<or> (\<exists>t k. pc = Pa_suspended t k)" "sched (m_mem m) = []"
  shows "\<nexists>z. meeting_step f addr co (ps, m) z"
proof
  assume "\<exists>z. meeting_step f addr co (ps, m) z"
  then obtain i pc m' where i: "i < length ps" "part_step f (addr i) (co i) (ps ! i) m = Some (pc, m')"
    by (auto elim: meeting_stepE)
  have "ps ! i \<in> set ps" using i(1) by simp
  with assms i(2) show False by auto
qed

lemma left_behind:
  obtains m where "meeting_reach Suc two_addr two_co (meeting_init 2 0 sample_mem) ([Pa_suspended 0 1, Pa_through 0], m)"
    "\<nexists>z. meeting_step Suc two_addr two_co ([Pa_suspended 0 1, Pa_through 0], m) z"
proof -
  have "\<exists>m. meeting_run Suc two_addr two_co [0, 0, 0, 1, 1, 1, 1, 0] (meeting_init 2 0 sample_mem)
      = Some ([Pa_suspended 0 1, Pa_through 0], m) \<and> sched (m_mem m) = []"
    by (simp add: meeting_init_def new_async_barrier_def new_barrier_def arrive_def complete_phase_def
        bar_wait_ready_def bar_wait_suspend_def add_phase_waiter_def add_waiter_def arm_node_def
        wake_all_def wake_walk.simps sample_mem_def two_addr_def two_co_def numeral_2_eq_2)
  then obtain m where m: "meeting_run Suc two_addr two_co [0, 0, 0, 1, 1, 1, 1, 0] (meeting_init 2 0 sample_mem)
      = Some ([Pa_suspended 0 1, Pa_through 0], m)" "sched (m_mem m) = []" by blast
  have stuck: "\<nexists>z. meeting_step Suc two_addr two_co ([Pa_suspended 0 1, Pa_through 0], m) z"
    by (rule meeting_stuckI) (simp_all add: m(2))
  from meeting_run_reach [OF meeting_reach.start m(1)] stuck show thesis by (rule that)
qed

theorem async_barrier_leaves_one_behind:
  "\<exists>ps m. meeting_reach Suc two_addr two_co (meeting_init 2 0 sample_mem) (ps, m)
     \<and> ps = [Pa_suspended 0 1, Pa_through 0] \<and> (\<nexists>z. meeting_step Suc two_addr two_co (ps, m) z)"
  using left_behind by blast

section \<open>Witnesses\<close>

lemma no_two_scheduled: "\<forall>i < 2. two_co i \<notin> set (sched sample_mem)"
  by (simp add: sample_mem_def)

theorem async_barrier_holds_back_witness:
  "\<exists>m. meeting_reach Suc two_addr two_co (meeting_init 2 0 sample_mem) ([Pa_suspended 0 1, Pa_through 0], m)
     \<and> bar_phase (bar_base (m_barrier m)) = 1"
proof -
  obtain m where m: "meeting_reach Suc two_addr two_co (meeting_init 2 0 sample_mem) ([Pa_suspended 0 1, Pa_through 0], m)"
    using left_behind by blast
  from async_barrier_holds_back [OF two_named m no_two_scheduled, rule_format, of 1] m show ?thesis by auto
qed

theorem async_barrier_leaves_late_only_witness:
  "\<exists>m. meeting_reach Suc two_addr two_co (meeting_init 2 0 sample_mem) ([Pa_suspended 0 1, Pa_through 0], m)
     \<and> 0 < m_wakes m"
proof -
  obtain m where m: "meeting_reach Suc two_addr two_co (meeting_init 2 0 sample_mem) ([Pa_suspended 0 1, Pa_through 0], m)"
    "\<nexists>z. meeting_step Suc two_addr two_co ([Pa_suspended 0 1, Pa_through 0], m) z" using left_behind by blast
  from async_barrier_leaves_late_only [OF two_named m(1) no_two_scheduled m(2)] m(1) show ?thesis by blast
qed

theorem async_barrier_meeting_ends_witness:
  "\<exists>z. meeting_step Suc two_addr two_co (meeting_init 2 0 sample_mem) z \<and> meeting_steps_left z < 12"
proof -
  let ?m = "snd (meeting_init 2 0 sample_mem)"
  have first: "replicate 2 Pa_arrive ! 0 = Pa_arrive" by simp
  have "\<exists>pc m'. part_step Suc (two_addr 0) (two_co 0) Pa_arrive ?m = Some (pc, m')"
    by (simp add: meeting_init_def new_async_barrier_def new_barrier_def arrive_def)
  then obtain pc m' where s: "part_step Suc (two_addr 0) (two_co 0) Pa_arrive ?m = Some (pc, m')" by blast
  have "meeting_step Suc two_addr two_co (replicate 2 Pa_arrive, ?m) ((replicate 2 Pa_arrive)[0 := pc], m')"
    by (rule meeting_step.intros) (simp, simp only: first s)
  then have st: "meeting_step Suc two_addr two_co (meeting_init 2 0 sample_mem) ((replicate 2 Pa_arrive)[0 := pc], m')"
    by (simp add: meeting_init_def)
  from async_barrier_meeting_ends [of 2 "0 :: nat" sample_mem "Suc" two_addr two_co "meeting_init 2 0 sample_mem"] st
  show ?thesis by fastforce
qed

end
