(* ===== verification/BarrierReuse.thy ===== *)
theory BarrierReuse
  imports AsyncBarrier
begin

text \<open>
  \<open>async_barrier\<close> (\<open>include/shared_state/barrier.hpp\<close>) used again and again: participants
  that call \<open>arrive_and_wait_async\<close> in a loop.  \<open>AsyncBarrier\<close> has the steps of one call.
\<close>

section \<open>Participants in a loop\<close>

text \<open>
  A participant: where its current call stands, how often it has arrived, how often it has
  come through, and how often a worker has resumed it out of the log of scheduled handles.
\<close>

record looper =
  l_pc :: part_pc
  l_arrivals :: nat
  l_passes :: nat
  l_resumes :: nat

definition through :: "part_pc \<Rightarrow> looper \<Rightarrow> looper" where
  "through pc u = u\<lparr>l_pc := pc, l_passes := (case pc of Pa_through t \<Rightarrow> Suc (l_passes u) | _ \<Rightarrow> l_passes u)\<rparr>"

text \<open>
  A suspended participant goes on when its handle was scheduled once more than it was resumed;
  one that is through begins the next call.
\<close>

fun loop_step ::
  "('c \<Rightarrow> 'c) \<Rightarrow> uintptr \<Rightarrow> coro \<Rightarrow> looper \<Rightarrow> 'c meeting \<Rightarrow> (looper \<times> 'c meeting) option" where
  "loop_step f p h u m =
     (case l_pc u of
        Pa_through t \<Rightarrow> Some (u\<lparr>l_pc := Pa_arrive\<rparr>, m)
      | Pa_suspended t k \<Rightarrow>
          if l_resumes u < count_list (sched (m_mem m)) h
          then Some (through (Pa_through t) (u\<lparr>l_resumes := Suc (l_resumes u)\<rparr>), m) else None
      | Pa_arrive \<Rightarrow> map_option (\<lambda>(pc, m'). (u\<lparr>l_pc := pc, l_arrivals := Suc (l_arrivals u)\<rparr>, m'))
          (part_step f p h Pa_arrive m)
      | pc \<Rightarrow> map_option (\<lambda>(pc', m'). (through pc' u, m')) (part_step f p h pc m))"

inductive reuse_step ::
  "('c \<Rightarrow> 'c) \<Rightarrow> (nat \<Rightarrow> uintptr) \<Rightarrow> (nat \<Rightarrow> coro) \<Rightarrow> looper list \<times> 'c meeting \<Rightarrow> looper list \<times> 'c meeting \<Rightarrow> bool"
  for f addr co where
  "i < length us \<Longrightarrow> loop_step f (addr i) (co i) (us ! i) m = Some (u, m') \<Longrightarrow>
   reuse_step f addr co (us, m) (us[i := u], m')"

inductive reuse_reach ::
  "('c \<Rightarrow> 'c) \<Rightarrow> (nat \<Rightarrow> uintptr) \<Rightarrow> (nat \<Rightarrow> coro) \<Rightarrow> looper list \<times> 'c meeting \<Rightarrow> looper list \<times> 'c meeting \<Rightarrow> bool"
  for f addr co z0 where
  start: "reuse_reach f addr co z0 z0"
| step: "reuse_reach f addr co z0 z \<Longrightarrow> reuse_step f addr co z z' \<Longrightarrow> reuse_reach f addr co z0 z'"

lemma reuse_reach_loop:
  assumes "reuse_reach f addr co z0 (us, m)" "i < length us" "loop_step f (addr i) (co i) (us ! i) m = Some (u, m')"
  shows "reuse_reach f addr co z0 (us[i := u], m')"
  by (rule reuse_reach.step [OF assms(1)], rule reuse_step.intros) (fact assms(2), fact assms(3))

definition reuse_init :: "nat \<Rightarrow> 'c \<Rightarrow> async_mem \<Rightarrow> looper list \<times> 'c meeting" where
  "reuse_init N c w =
     (replicate N \<lparr>l_pc = Pa_arrive, l_arrivals = 0, l_passes = 0, l_resumes = 0\<rparr>, snd (meeting_init N c w))"

section \<open>The arrivals are counted\<close>

definition all_arrivals :: "looper list \<Rightarrow> nat" where
  "all_arrivals us = sum_list (map l_arrivals us)"

lemma arrive_one:
  assumes "part_step f p h Pa_arrive m = Some (pc, m')"
  shows "\<exists>s ns. arrive f 1 (bar_base (m_barrier m)) = Ret s ns (Bar_token (bar_phase (bar_base (m_barrier m))))
    \<and> pc = Pa_phase (bar_phase (bar_base (m_barrier m)))
    \<and> m' = m\<lparr>m_barrier := (m_barrier m)\<lparr>bar_base := s\<rparr>\<rparr>"
  using assms by (cases "bar_count (bar_base (m_barrier m)) = 1") (auto simp: arrive_def Let_def)

lemma part_step_base:
  assumes "part_step f p h pc m = Some (pc', m')" "pc \<noteq> Pa_arrive"
  shows "bar_base (m_barrier m') = bar_base (m_barrier m) \<and> pc' \<noteq> Pa_arrive"
  using assms by (cases pc) (auto simp: bar_wait_suspend_def add_phase_waiter_def
      split: option.splits prod.splits if_splits)

lemma loop_step_base:
  assumes "loop_step f p h u m = Some (u', m')" "l_pc u \<noteq> Pa_arrive"
  shows "bar_base (m_barrier m') = bar_base (m_barrier m) \<and> l_arrivals u' = l_arrivals u"
  using assms part_step_base [of f p h "l_pc u" m]
  by (cases "l_pc u") (auto simp: through_def simp del: part_step.simps split: if_splits)

lemma bar_at_one:
  assumes "bar_at f N c A s" "0 < N" "arrive f 1 s = Ret s' ns r"
  shows "bar_at f N c (Suc A) s'"
proof -
  have "A mod N < N" using assms(2) by simp
  then have "1 \<le> sint (bar_count s)" using assms(1) by (simp add: bar_at_def)
  then show ?thesis using bar_at_arrive [OF assms(1,2) _ _ assms(3)] by simp
qed

lemma reuse_counts:
  assumes "reuse_reach f addr co (reuse_init N c w) (us, m)" "0 < N" "N < 2 ^ 63"
  shows "length us = N \<and> bar_at f N c (all_arrivals us) (bar_base (m_barrier m))"
  using assms(1)
proof (induction "(us, m)" arbitrary: us m)
  case start
  have "sint (of_nat N :: ptrdiff) = int N" using assms(3) by (simp add: signed_of_nat signed_take_bit_int_eq_self)
  then show ?case using start
    by (auto simp: reuse_init_def meeting_init_def new_async_barrier_def new_barrier_def bar_at_def
        all_arrivals_def sum_list_replicate)
next
  case (step z)
  from step.hyps(3) show ?case
  proof cases
    case (1 i vs n u)
    have I: "length vs = N" "bar_at f N c (all_arrivals vs) (bar_base (m_barrier n))"
      using step.hyps(2) 1(1) by simp_all
    note sum = sum_list_map_update [OF 1(3), of l_arrivals u]
    show ?thesis
    proof (cases "l_pc (vs ! i) = Pa_arrive")
      case True
      with 1(4) obtain pc where p: "part_step f (addr i) (co i) Pa_arrive n = Some (pc, m)"
        "l_arrivals u = Suc (l_arrivals (vs ! i))" by auto
      from arrive_one [OF p(1)] obtain s ns where
        s: "arrive f 1 (bar_base (m_barrier n)) = Ret s ns (Bar_token (bar_phase (bar_base (m_barrier n))))"
        "m = n\<lparr>m_barrier := (m_barrier n)\<lparr>bar_base := s\<rparr>\<rparr>" by blast
      from bar_at_one [OF I(2) assms(2) s(1)] sum p(2) show ?thesis using I(1) 1(2)
        by (simp add: s(2) all_arrivals_def)
    next
      case False
      with loop_step_base [OF 1(4)] sum I 1(2) show ?thesis by (simp add: all_arrivals_def)
    qed
  qed
qed

section \<open>The waiter list\<close>

text \<open>
  The list holds the participants that are suspended and not scheduled since; a handle is
  scheduled again only after the participant was resumed.
\<close>

definition due :: "(nat \<Rightarrow> coro) \<Rightarrow> looper list \<times> 'c meeting \<Rightarrow> nat \<Rightarrow> bool" where
  "due co z i \<longleftrightarrow> l_resumes (fst z ! i) < count_list (sched (m_mem (snd z))) (co i)"

definition loop_queue :: "nat \<Rightarrow> (nat \<Rightarrow> uintptr) \<Rightarrow> (nat \<Rightarrow> coro) \<Rightarrow> nat list \<Rightarrow> looper list \<times> 'c meeting \<Rightarrow> bool" where
  "loop_queue N addr co is z = (case z of (us, m) \<Rightarrow>
     chain (wnodes (m_mem m)) (bar_waiters (m_barrier m)) (map addr is) \<and> distinct is
     \<and> set is = {i. i < N \<and> suspended (l_pc (us ! i)) \<and> \<not> due co z i}
     \<and> (\<forall>i \<in> set is. node_handle (wnodes (m_mem m) (addr i)) = co i \<and> node_gate (wnodes (m_mem m) (addr i)) = 0)
     \<and> (\<forall>i < N. l_resumes (us ! i) \<le> count_list (sched (m_mem m)) (co i)
          \<and> count_list (sched (m_mem m)) (co i) \<le> Suc (l_resumes (us ! i))
          \<and> (due co z i \<longrightarrow> suspended (l_pc (us ! i)))))"

lemma loop_queueI:
  assumes "chain (wnodes (m_mem m)) (bar_waiters (m_barrier m)) (map addr is)" "distinct is"
    "set is = {i. i < N \<and> suspended (l_pc (us ! i)) \<and> \<not> due co (us, m) i}"
    "\<forall>i \<in> set is. node_handle (wnodes (m_mem m) (addr i)) = co i \<and> node_gate (wnodes (m_mem m) (addr i)) = 0"
    "\<And>i. i < N \<Longrightarrow> l_resumes (us ! i) \<le> count_list (sched (m_mem m)) (co i)
       \<and> count_list (sched (m_mem m)) (co i) \<le> Suc (l_resumes (us ! i))
       \<and> (due co (us, m) i \<longrightarrow> suspended (l_pc (us ! i)))"
  shows "loop_queue N addr co is (us, m)"
  unfolding loop_queue_def prod.case using assms by blast

lemma count_map_inj:
  assumes "inj_on co {..<N}" "distinct is" "set is \<subseteq> {..<N}" "i < N"
  shows "count_list (map co is) (co i) = (if i \<in> set is then 1 else 0)"
  using assms(2,3)
proof (induction "is")
  case (Cons j js)
  have "co j = co i \<longleftrightarrow> j = i" using assms(1,4) Cons.prems(2) by (auto simp: inj_on_def)
  with Cons show ?case by auto
qed simp

lemma loop_wake:
  assumes "named N addr co" "loop_queue N addr co is (us, m)"
  shows "wake_all (bar_waiters (m_barrier m)) (m_mem m) = Some (0, fold fire_node (map addr is) (m_mem m))"
    "\<And>i. i < N \<Longrightarrow> count_list (sched (fold fire_node (map addr is) (m_mem m))) (co i)
       = count_list (sched (m_mem m)) (co i) + (if i \<in> set is then 1 else 0)"
proof -
  have q: "chain (wnodes (m_mem m)) (bar_waiters (m_barrier m)) (map addr is)" "distinct is" "set is \<subseteq> {..<N}"
    "\<forall>i \<in> set is. node_handle (wnodes (m_mem m) (addr i)) = co i \<and> node_gate (wnodes (m_mem m) (addr i)) = 0"
    using assms(2) by (auto simp: loop_queue_def)
  show "wake_all (bar_waiters (m_barrier m)) (m_mem m) = Some (0, fold fire_node (map addr is) (m_mem m))"
    by (rule wake_all_chain [OF q(1)])
  have "plain (m_mem m) (map addr is)" using q(3,4) assms(1) by (auto simp: plain_def named_def)
  then have "sched (fold fire_node (map addr is) (m_mem m)) = sched (m_mem m) @ map co is"
    using fold_fire_plain handles_of_participants q(4) by metis
  then show "count_list (sched (fold fire_node (map addr is) (m_mem m))) (co i)
      = count_list (sched (m_mem m)) (co i) + (if i \<in> set is then 1 else 0)" if "i < N" for i
    using count_map_inj [of co N "is" i] assms(1) q(2,3) that by (simp add: named_def)
qed

text \<open>A step that does not touch the list keeps it, unless the participant is due.\<close>

lemma loop_queue_same:
  assumes "loop_queue N addr co is (us, m)" "i < N" "length us = N" "m_mem m' = m_mem m"
    "bar_waiters (m_barrier m') = bar_waiters (m_barrier m)" "\<not> suspended (l_pc u)"
    "\<not> suspended (l_pc (us ! i)) \<and> l_resumes u = l_resumes (us ! i) \<or>
     due co (us, m) i \<and> l_resumes u = Suc (l_resumes (us ! i))"
  shows "loop_queue N addr co is (us[i := u], m')"
proof -
  have c: "l_resumes (us ! i) \<le> count_list (sched (m_mem m)) (co i)"
    "count_list (sched (m_mem m)) (co i) \<le> Suc (l_resumes (us ! i))"
    "due co (us, m) i \<longrightarrow> suspended (l_pc (us ! i))"
    using assms(1,2) by (simp_all add: loop_queue_def)
  have other: "due co (us[i := u], m') j \<longleftrightarrow> due co (us, m) j" if "j \<noteq> i" for j
    using that assms(4) by (simp add: due_def)
  have here: "\<not> due co (us[i := u], m') i" "l_resumes u \<le> count_list (sched (m_mem m)) (co i)"
    "count_list (sched (m_mem m)) (co i) \<le> Suc (l_resumes u)"
    using assms(2-4,7) c by (auto simp: due_def)
  have "{j. j < N \<and> suspended (l_pc (us[i := u] ! j)) \<and> \<not> due co (us[i := u], m') j}
      = {j. j < N \<and> suspended (l_pc (us ! j)) \<and> \<not> due co (us, m) j}"
    using assms(2,3,6,7) other by (auto simp: nth_list_update)
  moreover have "l_resumes (us[i := u] ! j) \<le> count_list (sched (m_mem m)) (co j)
      \<and> count_list (sched (m_mem m)) (co j) \<le> Suc (l_resumes (us[i := u] ! j))
      \<and> (due co (us[i := u], m') j \<longrightarrow> suspended (l_pc (us[i := u] ! j)))" if "j < N" for j
    using assms(1-3) that here other [of j] by (cases "j = i") (auto simp: loop_queue_def)
  ultimately show ?thesis using assms(1,4,5) by (simp add: loop_queue_def)
qed

lemma loop_queue_wake:
  assumes "named N addr co" "loop_queue N addr co is (us, m)" "i < N" "length us = N"
    "\<not> suspended (l_pc (us ! i))" "\<not> suspended (l_pc u)" "l_resumes u = l_resumes (us ! i)"
    "bar_waiters (m_barrier m') = 0" "m_mem m' = fold fire_node (map addr is) (m_mem m)"
  shows "loop_queue N addr co [] (us[i := u], m')"
proof -
  note cnt = loop_wake(2) [OF assms(1,2), folded assms(9)]
  have s: "set is = {i. i < N \<and> suspended (l_pc (us ! i)) \<and> \<not> due co (us, m) i}"
    using assms(2) by (simp add: loop_queue_def)
  have each: "l_resumes (us[i := u] ! j) \<le> count_list (sched (m_mem m')) (co j)
      \<and> count_list (sched (m_mem m')) (co j) \<le> Suc (l_resumes (us[i := u] ! j))
      \<and> (due co (us[i := u], m') j \<longleftrightarrow> suspended (l_pc (us ! j)))" if j: "j < N" for j
  proof -
    have old: "l_resumes (us ! j) \<le> count_list (sched (m_mem m)) (co j)"
      "count_list (sched (m_mem m)) (co j) \<le> Suc (l_resumes (us ! j))"
      "due co (us, m) j \<longrightarrow> suspended (l_pc (us ! j))"
      using assms(2) j by (simp_all add: loop_queue_def)
    have "l_resumes (us[i := u] ! j) = l_resumes (us ! j)" using assms(3,4,7) by (cases "j = i") simp_all
    moreover have "j \<in> set is \<longleftrightarrow> suspended (l_pc (us ! j)) \<and> \<not> due co (us, m) j" using s j by simp
    ultimately show ?thesis using old cnt [OF j] by (cases "j \<in> set is") (auto simp: due_def)
  qed
  have pc: "l_pc (us[i := u] ! j) = (if j = i then l_pc u else l_pc (us ! j))" for j using assms(3,4) by simp
  have due': "due co (us[i := u], m') j \<longleftrightarrow> suspended (l_pc (us[i := u] ! j))" if "j < N" for j
    using each [OF that] assms(5,6) by (simp add: pc)
  show ?thesis
  proof (rule loop_queueI)
    show "set [] = {j. j < N \<and> suspended (l_pc (us[i := u] ! j)) \<and> \<not> due co (us[i := u], m') j}"
      using due' by auto
    show "l_resumes (us[i := u] ! j) \<le> count_list (sched (m_mem m')) (co j)
      \<and> count_list (sched (m_mem m')) (co j) \<le> Suc (l_resumes (us[i := u] ! j))
      \<and> (due co (us[i := u], m') j \<longrightarrow> suspended (l_pc (us[i := u] ! j)))" if "j < N" for j
      using each [OF that] due' [OF that] by blast
  qed (simp_all add: assms(8))
qed

lemma loop_queue_add:
  assumes "named N addr co" "loop_queue N addr co is (us, m)" "i < N" "length us = N"
    "\<not> suspended (l_pc (us ! i))" "l_pc u = Pa_suspended t k" "l_resumes u = l_resumes (us ! i)"
    "bar_wait_suspend (addr i) (co i) (m_barrier m) (m_mem m) = (a, w)" "m' = m\<lparr>m_barrier := a, m_mem := w\<rparr>"
  shows "loop_queue N addr co (i # is) (us[i := u], m') \<and> sched w = sched (m_mem m) \<and> bar_base a = bar_base (m_barrier m)"
proof -
  have q: "chain (wnodes (m_mem m)) (bar_waiters (m_barrier m)) (map addr is)" "distinct is"
    "\<forall>j \<in> set is. node_handle (wnodes (m_mem m) (addr j)) = co j \<and> node_gate (wnodes (m_mem m) (addr j)) = 0"
    and s: "set is = {i. i < N \<and> suspended (l_pc (us ! i)) \<and> \<not> due co (us, m) i}"
    using assms(2) by (simp_all add: loop_queue_def)
  have i: "i \<notin> set is" "\<not> due co (us, m) i" using s assms(2,3,5) by (auto simp: loop_queue_def)
  have new: "addr i \<noteq> 0" "addr i \<notin> set (map addr is)"
    using assms(1,3) s i(1) by (auto simp: named_def inj_on_def)
  then have nj: "\<forall>j \<in> set is. addr j \<noteq> addr i" by (metis image_eqI list.set_map)
  obtain head' w' where add: "add_waiter (addr i) (bar_waiters (m_barrier m)) (arm_node (addr i) (co i) 0 (m_mem m)) = (head', w')"
    by fastforce
  then have aw: "a = (m_barrier m)\<lparr>bar_waiters := head'\<rparr>" "w = w'"
    using assms(8) by (simp_all add: bar_wait_suspend_def add_phase_waiter_def)
  have "chain (wnodes (arm_node (addr i) (co i) 0 (m_mem m))) (bar_waiters (m_barrier m)) (map addr is)"
    using q(1) new(2) by (simp add: arm_node_def chain_update)
  then have nodes: "chain (wnodes w') head' (map addr (i # is))" using chain_add [OF _ new add] by simp
  have rest: "sched w' = sched (m_mem m)" "node_handle (wnodes w' (addr i)) = co i" "node_gate (wnodes w' (addr i)) = 0"
    "\<forall>j \<in> set is. wnodes w' (addr j) = wnodes (m_mem m) (addr j)"
    using add nj by (auto simp: add_waiter_def arm_node_def)
  have m': "m_mem m' = w'" "bar_waiters (m_barrier m') = head'" by (simp_all add: assms(9) aw)
  have same: "due co (us[i := u], m') j \<longleftrightarrow> due co (us, m) j" for j
    using assms(3,4,7) by (cases "j = i") (simp_all add: due_def m' rest(1))
  have seteq: "set (i # is) = {j. j < N \<and> suspended (l_pc (us[i := u] ! j)) \<and> \<not> due co (us[i := u], m') j}"
    using s i assms(3,4,6) by (auto simp: nth_list_update same)
  have counts: "l_resumes (us[i := u] ! j) \<le> count_list (sched w') (co j)
      \<and> count_list (sched w') (co j) \<le> Suc (l_resumes (us[i := u] ! j))
      \<and> (due co (us[i := u], m') j \<longrightarrow> suspended (l_pc (us[i := u] ! j)))" if "j < N" for j
    using assms(2-4,6,7) that by (cases "j = i") (auto simp: loop_queue_def rest(1) same)
  have hands: "\<forall>j \<in> set (i # is). node_handle (wnodes w' (addr j)) = co j \<and> node_gate (wnodes w' (addr j)) = 0"
    using q(3) rest by simp
  have dist: "distinct (i # is)" using q(2) i(1) by simp
  have "loop_queue N addr co (i # is) (us[i := u], m')"
    by (rule loop_queueI [OF nodes [folded m'] dist seteq hands [folded m'] counts [folded m']])
  then show ?thesis using rest(1) by (simp add: aw)
qed

section \<open>The steps of a participant\<close>

lemma loop_stepE:
  assumes "loop_step f p h u m = Some (u', m')"
  obtains (again) t where "l_pc u = Pa_through t" "u' = u\<lparr>l_pc := Pa_arrive\<rparr>" "m' = m"
  | (resume) t k where "l_pc u = Pa_suspended t k" "l_resumes u < count_list (sched (m_mem m)) h"
      "u' = u\<lparr>l_pc := Pa_through t, l_passes := Suc (l_passes u), l_resumes := Suc (l_resumes u)\<rparr>" "m' = m"
  | (arrive) s ns where "l_pc u = Pa_arrive"
      "arrive f 1 (bar_base (m_barrier m)) = Ret s ns (Bar_token (bar_phase (bar_base (m_barrier m))))"
      "u' = u\<lparr>l_pc := Pa_phase (bar_phase (bar_base (m_barrier m))), l_arrivals := Suc (l_arrivals u)\<rparr>"
      "m' = m\<lparr>m_barrier := (m_barrier m)\<lparr>bar_base := s\<rparr>\<rparr>"
  | (look) t where "l_pc u = Pa_phase t" "m' = m"
      "u' = u\<lparr>l_pc := if bar_phase (bar_base (m_barrier m)) \<noteq> t then Pa_wake t else Pa_ready t\<rparr>"
  | (wake) t head w where "l_pc u = Pa_wake t" "u' = u\<lparr>l_pc := Pa_ready t\<rparr>"
      "wake_all (bar_waiters (m_barrier m)) (m_mem m) = Some (head, w)"
      "m' = m\<lparr>m_barrier := (m_barrier m)\<lparr>bar_waiters := head\<rparr>, m_mem := w, m_wakes := Suc (m_wakes m)\<rparr>"
  | (pass) t where "l_pc u = Pa_ready t" "bar_phase (bar_base (m_barrier m)) \<noteq> t" "m' = m"
      "u' = u\<lparr>l_pc := Pa_through t, l_passes := Suc (l_passes u)\<rparr>"
  | (stay) t where "l_pc u = Pa_ready t" "bar_phase (bar_base (m_barrier m)) = t" "m' = m"
      "u' = u\<lparr>l_pc := Pa_add t\<rparr>"
  | (add) t a w where "l_pc u = Pa_add t" "bar_wait_suspend p h (m_barrier m) (m_mem m) = (a, w)"
      "u' = u\<lparr>l_pc := Pa_suspended t (m_wakes m)\<rparr>" "m' = m\<lparr>m_barrier := a, m_mem := w\<rparr>"
proof (cases "l_pc u")
  case Pa_arrive
  with assms obtain pc where pc: "part_step f p h Pa_arrive m = Some (pc, m')"
    "u' = u\<lparr>l_pc := pc, l_arrivals := Suc (l_arrivals u)\<rparr>" by (auto simp del: part_step.simps)
  from arrive_one [OF pc(1)] pc(2) Pa_arrive arrive show thesis by blast
next
  case (Pa_phase t)
  with assms show thesis by (intro look [OF Pa_phase]) (auto simp: through_def split: if_splits)
next
  case (Pa_wake t)
  with assms obtain head w where "wake_all (bar_waiters (m_barrier m)) (m_mem m) = Some (head, w)"
    by (auto split: option.splits)
  with assms Pa_wake show thesis by (intro wake [OF Pa_wake]) (auto simp: through_def)
next
  case (Pa_ready t)
  with assms show thesis
    by (cases "bar_phase (bar_base (m_barrier m)) = t")
      (auto simp: bar_wait_ready_def through_def intro: pass [OF Pa_ready] stay [OF Pa_ready])
next
  case (Pa_add t)
  obtain a w where "bar_wait_suspend p h (m_barrier m) (m_mem m) = (a, w)" by fastforce
  with assms Pa_add show thesis by (intro add [OF Pa_add]) (auto simp: through_def)
next
  case (Pa_suspended t k)
  with assms show thesis by (intro resume [OF Pa_suspended]) (auto simp: through_def split: if_splits)
next
  case (Pa_through t)
  with assms show thesis by (intro again [OF Pa_through]) auto
qed

declare loop_step.simps [simp del]

lemma loop_queue_step:
  assumes "named N addr co" "loop_queue N addr co is (us, m)" "i < N" "length us = N"
    "loop_step f (addr i) (co i) (us ! i) m = Some (u, m')"
  shows "\<exists>is'. loop_queue N addr co is' (us[i := u], m')"
proof -
  note same = loop_queue_same [OF assms(2-4)]
  from assms(5) show ?thesis
  proof (cases rule: loop_stepE)
    case (resume t k)
    then have "due co (us, m) i" by (simp add: due_def)
    then show ?thesis using resume by (intro exI [of _ "is"] same) auto
  next
    case (wake t head w)
    then have "head = 0" "w = fold fire_node (map addr is) (m_mem m)" using loop_wake(1) [OF assms(1,2)] by auto
    then show ?thesis using wake by (intro exI [of _ "[]"] loop_queue_wake [OF assms(1-4)]) auto
  next
    case (add t a w)
    then show ?thesis using loop_queue_add [OF assms(1-4) _ _ _ add(2,4), of u t "m_wakes m"] by auto
  next
    case (look t)
    then show ?thesis by (intro exI [of _ "is"] same) auto
  qed (rule exI [of _ "is"], rule same; simp)+
qed

lemma loop_queue_reach:
  assumes "named N addr co" "\<forall>i < N. co i \<notin> set (sched w)" "reuse_reach f addr co (reuse_init N c w) (us, m)"
  shows "\<exists>is. loop_queue N addr co is (us, m)"
  using assms(3)
proof (induction "(us, m)" arbitrary: us m)
  case start
  then show ?case using assms(2)
    by (intro exI [of _ "[]"]) (auto simp: reuse_init_def meeting_init_def new_async_barrier_def loop_queue_def
        due_def count_list_0_iff)
next
  case (step z)
  have N: "0 < N" "N < 2 ^ 63" using assms(1) by (simp_all add: named_def)
  from step.hyps(3) show ?case
  proof cases
    case (1 i vs n u)
    obtain "is" where "loop_queue N addr co is (vs, n)" using step.hyps(2) 1(1) by blast
    moreover have "length vs = N" using reuse_counts [OF step.hyps(1) [unfolded 1(1)] N] by simp
    ultimately show ?thesis using loop_queue_step [OF assms(1) _ _ _ 1(4)] 1(2,3) by simp
  qed
qed

section \<open>The first use\<close>

fun in_phase :: "u64 \<Rightarrow> part_pc \<Rightarrow> bool" where
  "in_phase x (Pa_phase t) \<longleftrightarrow> t = x" | "in_phase x (Pa_ready t) \<longleftrightarrow> t = x" | "in_phase x (Pa_add t) \<longleftrightarrow> t = x"
| "in_phase x (Pa_suspended t k) \<longleftrightarrow> t = x" | "in_phase x _ \<longleftrightarrow> False"

definition first_use :: "nat \<Rightarrow> (nat \<Rightarrow> coro) \<Rightarrow> looper list \<times> 'c meeting \<Rightarrow> bool" where
  "first_use N co z = (case z of (us, m) \<Rightarrow>
     (\<forall>u \<in> set us. 0 < l_arrivals u)
     \<or> (\<forall>i < N. co i \<notin> set (sched (m_mem m)))
       \<and> (\<forall>u \<in> set us. l_passes u = 0 \<and> l_resumes u = 0
            \<and> (l_pc u = Pa_arrive \<and> l_arrivals u = 0 \<or> in_phase 0 (l_pc u) \<and> l_arrivals u = 1)))"

lemma sum_below:
  assumes "\<forall>x \<in> set xs. f x \<le> (k :: nat)" "x \<in> set xs" "f x < k"
  shows "sum_list (map f xs) < k * length xs"
  using assms
proof (induction xs)
  case (Cons y ys)
  have "sum_list (map f ys) \<le> k * length ys"
    using Cons.prems(1) sum_list_mono [of ys f "\<lambda>_. k"] by (simp add: sum_list_replicate map_replicate_const mult.commute)
  with Cons show ?case by (cases "x = y") auto
qed simp

lemma all_update: "\<forall>x \<in> set xs. P x \<Longrightarrow> P y \<Longrightarrow> \<forall>x \<in> set (xs[i := y]). P x"
  by (auto dest!: in_update)

lemma first_use_step:
  assumes "first_use N co (us, m)" "i < N" "length us = N" "bar_at f N c (all_arrivals us) (bar_base (m_barrier m))"
    "loop_step f (addr i) (co i) (us ! i) m = Some (u, m')"
  shows "first_use N co (us[i := u], m')"
proof (cases "\<forall>u \<in> set us. 0 < l_arrivals u")
  case True
  have pos: "0 < l_arrivals (us ! i)" using True assms(2,3) by simp
  have "0 < l_arrivals u" using assms(5) by (cases rule: loop_stepE) (use pos in auto)
  from all_update [OF True this] show ?thesis by (simp add: first_use_def)
next
  case False
  have fresh: "\<forall>i < N. co i \<notin> set (sched (m_mem m))"
    "\<forall>u \<in> set us. l_passes u = 0 \<and> l_resumes u = 0
       \<and> (l_pc u = Pa_arrive \<and> l_arrivals u = 0 \<or> in_phase 0 (l_pc u) \<and> l_arrivals u = 1)"
    using assms(1) False by (simp_all add: first_use_def)
  obtain v where v: "v \<in> set us" "l_arrivals v < 1" using False by auto
  have "all_arrivals us < 1 * length us" unfolding all_arrivals_def
    by (rule sum_below [where x = v]) (use fresh(2) v in auto)
  then have phase: "bar_phase (bar_base (m_barrier m)) = 0" using assms(3,4) by (simp add: bar_at_def)
  have here: "us ! i \<in> set us" using assms(2,3) by simp
  have "(\<forall>i < N. co i \<notin> set (sched (m_mem m'))) \<and> l_passes u = 0 \<and> l_resumes u = 0
      \<and> (l_pc u = Pa_arrive \<and> l_arrivals u = 0 \<or> in_phase 0 (l_pc u) \<and> l_arrivals u = 1)"
    using assms(5)
  proof (cases rule: loop_stepE)
    case (resume t k)
    then have "co i \<in> set (sched (m_mem m))" by (metis count_list_0_iff less_zeroE)
    with fresh(1) assms(2) show ?thesis by blast
  next
    case (add t a w)
    have "sched w = sched (m_mem m)"
      using add(2) by (auto simp: bar_wait_suspend_def add_phase_waiter_def add_waiter_def arm_node_def split: prod.splits)
    with add bspec [OF fresh(2) here] fresh(1) show ?thesis by auto
  qed (use bspec [OF fresh(2) here] fresh(1) phase in auto)
  with all_update [OF fresh(2), of u i] show ?thesis by (auto simp: first_use_def)
qed

section \<open>Uses in order\<close>

text \<open>
  A participant that has still to wake the others for a phase that is over; a run is orderly
  if nobody arrives while there is one.
\<close>

fun wake_owed :: "'c meeting \<Rightarrow> part_pc \<Rightarrow> bool" where
  "wake_owed m (Pa_phase t) \<longleftrightarrow> t \<noteq> bar_phase (bar_base (m_barrier m))"
| "wake_owed m (Pa_wake t) \<longleftrightarrow> True"
| "wake_owed m _ \<longleftrightarrow> False"

lemma wake_owed_phase: "bar_phase (bar_base (m_barrier m')) = bar_phase (bar_base (m_barrier m)) \<Longrightarrow> wake_owed m' pc = wake_owed m pc"
  by (cases pc) simp_all

inductive orderly_reach ::
  "('c \<Rightarrow> 'c) \<Rightarrow> (nat \<Rightarrow> uintptr) \<Rightarrow> (nat \<Rightarrow> coro) \<Rightarrow> looper list \<times> 'c meeting \<Rightarrow> looper list \<times> 'c meeting \<Rightarrow> bool"
  for f addr co z0 where
  start: "orderly_reach f addr co z0 z0"
| step: "orderly_reach f addr co z0 (us, m) \<Longrightarrow> i < length us \<Longrightarrow>
    loop_step f (addr i) (co i) (us ! i) m = Some (u, m') \<Longrightarrow>
    l_pc (us ! i) = Pa_arrive \<longrightarrow> (\<forall>v \<in> set us. \<not> wake_owed m (l_pc v)) \<Longrightarrow>
    orderly_reach f addr co z0 (us[i := u], m')"

lemma orderly_reuse: "orderly_reach f addr co z0 z \<Longrightarrow> reuse_reach f addr co z0 z"
  by (induction rule: orderly_reach.induct) (auto intro: reuse_reach.intros reuse_step.intros)

text \<open>With \<open>K\<close> phases complete everybody has arrived \<open>K\<close> times, or once more and waits.\<close>

definition passes_ok :: "looper \<Rightarrow> bool" where
  "passes_ok u \<longleftrightarrow> l_arrivals u = l_passes u + (case l_pc u of Pa_arrive \<Rightarrow> 0 | Pa_through t \<Rightarrow> 0 | _ \<Rightarrow> 1)"

definition orderly :: "nat \<Rightarrow> nat \<Rightarrow> (nat \<Rightarrow> coro) \<Rightarrow> looper list \<times> 'c meeting \<Rightarrow> bool" where
  "orderly N K co z = (case z of (us, m) \<Rightarrow>
     (\<forall>i < N. passes_ok (us ! i) \<and> (l_arrivals (us ! i) = K
        \<or> l_arrivals (us ! i) = Suc K \<and> in_phase (bar_phase (bar_base (m_barrier m))) (l_pc (us ! i)) \<and> \<not> due co z i))
     \<and> ((\<exists>i < N. l_arrivals (us ! i) = Suc K) \<longrightarrow> (\<forall>i < N. \<not> wake_owed m (l_pc (us ! i)))))"

lemma orderly_move:
  assumes "orderly N K co (us, m)" "i < N" "length us = N" "l_arrivals u = l_arrivals (us ! i)" "passes_ok u"
    "bar_base (m_barrier m') = bar_base (m_barrier m)"
    and ahead: "\<exists>j < N. l_arrivals (us ! j) = Suc K \<Longrightarrow>
      (\<forall>j < N. j \<noteq> i \<longrightarrow> due co (us[i := u], m') j \<longrightarrow> due co (us, m) j) \<and> \<not> wake_owed m (l_pc u)
      \<and> (l_arrivals (us ! i) = Suc K \<longrightarrow> in_phase (bar_phase (bar_base (m_barrier m))) (l_pc u)
          \<and> \<not> due co (us[i := u], m') i)"
  shows "orderly N K co (us[i := u], m')"
proof -
  have O: "passes_ok (us ! j)" "l_arrivals (us ! j) = K
      \<or> l_arrivals (us ! j) = Suc K \<and> in_phase (bar_phase (bar_base (m_barrier m))) (l_pc (us ! j)) \<and> \<not> due co (us, m) j"
    if "j < N" for j using assms(1) that by (auto simp: orderly_def)
  have quiet: "\<not> wake_owed m (l_pc (us ! j))" if "k < N" "l_arrivals (us ! k) = Suc K" "j < N" for j k
    using assms(1) that unfolding orderly_def prod.case by blast
  have at: "us[i := u] ! j = (if j = i then u else us ! j)" for j using assms(2,3) by simp
  have arr: "l_arrivals (us[i := u] ! j) = l_arrivals (us ! j)" for j using assms(4) by (simp add: at)
  have owed: "wake_owed m' pc \<longleftrightarrow> wake_owed m pc" for pc by (rule wake_owed_phase) (simp add: assms(6))
  have "passes_ok (us[i := u] ! j) \<and> (l_arrivals (us[i := u] ! j) = K
      \<or> l_arrivals (us[i := u] ! j) = Suc K \<and> in_phase (bar_phase (bar_base (m_barrier m'))) (l_pc (us[i := u] ! j))
        \<and> \<not> due co (us[i := u], m') j)" if j: "j < N" for j
  proof (cases "l_arrivals (us ! j) = K")
    case True
    then show ?thesis using O(1) [OF j] assms(5) by (simp add: arr) (simp add: at)
  next
    case False
    then have a: "l_arrivals (us ! j) = Suc K" "in_phase (bar_phase (bar_base (m_barrier m))) (l_pc (us ! j))"
      "\<not> due co (us, m) j" using O(2) [OF j] by auto
    then have "\<exists>j < N. l_arrivals (us ! j) = Suc K" using j by blast
    note ah = ahead [OF this]
    show ?thesis
    proof (cases "j = i")
      case True
      then show ?thesis using a(1) ah assms(4-6) by (simp add: at)
    next
      case False
      then show ?thesis using a ah j O(1) [OF j] assms(6) by (auto simp: arr at)
    qed
  qed
  moreover have "\<not> wake_owed m' (l_pc (us[i := u] ! j))"
    if "k < N" "l_arrivals (us[i := u] ! k) = Suc K" "j < N" for j k
  proof -
    have k: "l_arrivals (us ! k) = Suc K" using that(2) by (simp add: arr)
    then have "\<not> wake_owed m (l_pc u)" using ahead that(1) by blast
    then show ?thesis using quiet [OF that(1) k that(3)] by (simp add: owed at)
  qed
  ultimately show ?thesis unfolding orderly_def prod.case by blast
qed

lemma orderly_arrive:
  assumes "orderly N K co (us, m)" "loop_queue N addr co is (us, m)" "i < N" "length us = N"
    and at: "bar_at f N c (all_arrivals us) (bar_base (m_barrier m))" "K = all_arrivals us div N"
    and quiet: "\<forall>v \<in> set us. \<not> wake_owed m (l_pc v)" and pc: "l_pc (us ! i) = Pa_arrive"
    and x: "x = bar_phase (bar_base (m_barrier m))"
    and u: "u = (us ! i)\<lparr>l_pc := Pa_phase x, l_arrivals := Suc (l_arrivals (us ! i))\<rparr>"
    and m': "m' = m\<lparr>m_barrier := (m_barrier m)\<lparr>bar_base := s\<rparr>\<rparr>" and s: "bar_at f N c (Suc (all_arrivals us)) s"
  shows "orderly N (Suc (all_arrivals us) div N) co (us[i := u], m')"
proof -
  have O: "passes_ok (us ! j)" "l_arrivals (us ! j) = K
      \<or> l_arrivals (us ! j) = Suc K \<and> in_phase x (l_pc (us ! j)) \<and> \<not> due co (us, m) j"
    if "j < N" for j using assms(1) that by (auto simp: orderly_def x)
  have i: "l_arrivals (us ! i) = K" using O(2) [OF assms(3)] pc by simp
  have upd: "us[i := u] ! j = (if j = i then u else us ! j)" for j using assms(3,4) by simp
  have "l_resumes (us[i := u] ! j) = l_resumes (us ! j)" for j unfolding upd by (simp add: u)
  then have due': "due co (us[i := u], m') j \<longleftrightarrow> due co (us, m) j" for j by (simp add: due_def m')
  have nd: "\<not> due co (us, m) i" using assms(2,3) pc by (auto simp: loop_queue_def)
  have pu: "passes_ok u" using O(1) [OF assms(3)] pc by (simp add: passes_ok_def u)
  have N: "0 < N" using assms(3) by simp
  show ?thesis
  proof (cases "Suc (all_arrivals us mod N) = N")
    case True
    then have K: "Suc (all_arrivals us) div N = Suc K" using at(2) by (simp add: div_Suc mod_Suc)
    have "all_arrivals (us[i := u]) = Suc (all_arrivals us)"
      using sum_list_map_update [of i us l_arrivals u] assms(3,4) by (simp add: all_arrivals_def u)
    moreover have "Suc (all_arrivals us) = N + K * N"
      unfolding at(2) using True div_mult_mod_eq [of "all_arrivals us" N] by linarith
    ultimately have total: "sum_list (map l_arrivals (us[i := u])) = Suc K * length (us[i := u])"
      using assms(4) by (simp add: all_arrivals_def)
    have le: "\<forall>v \<in> set (us[i := u]). l_arrivals v \<le> Suc K"
    proof
      fix v assume "v \<in> set (us[i := u])"
      then obtain j where j: "j < N" "v = us[i := u] ! j" using assms(4) by (auto simp: in_set_conv_nth)
      then show "l_arrivals v \<le> Suc K" using O(2) [OF j(1)] i unfolding j(2) upd by (auto simp: u)
    qed
    have all: "l_arrivals (us[i := u] ! j) = Suc K" if "j < N" for j
    proof (rule ccontr)
      assume no: "l_arrivals (us[i := u] ! j) \<noteq> Suc K"
      have mem: "us[i := u] ! j \<in> set (us[i := u])" using that assms(4) by (intro nth_mem) simp
      have "l_arrivals (us[i := u] ! j) < Suc K" using bspec [OF le mem] no by linarith
      from sum_below [OF le mem this] total show False by linarith
    qed
    have "passes_ok (us[i := u] ! j)" if "j < N" for j using O(1) [OF that] pu by (simp only: upd split: if_split) simp
    then show ?thesis using all by (auto simp: orderly_def K)
  next
    case False
    then have K: "Suc (all_arrivals us) div N = K" using at(2) by (simp add: div_Suc mod_Suc)
    then have ph: "bar_phase (bar_base (m_barrier m')) = x" using at s by (simp add: bar_at_def m' x)
    have "passes_ok (us[i := u] ! j) \<and> (l_arrivals (us[i := u] ! j) = K
      \<or> l_arrivals (us[i := u] ! j) = Suc K \<and> in_phase x (l_pc (us[i := u] ! j)) \<and> \<not> due co (us[i := u], m') j)"
      if "j < N" for j
    proof (cases "j = i")
      case True
      have "l_arrivals u = Suc K" "in_phase x (l_pc u)" using i by (simp_all add: u)
      then show ?thesis using True pu nd by (simp only: upd due' if_True simp_thms)
    next
      case False
      then show ?thesis using O [OF that] by (simp only: upd due' if_False simp_thms)
    qed
    moreover have "\<not> wake_owed m' (l_pc (us[i := u] ! j))" if "j < N" for j
    proof (cases "j = i")
      case True
      then show ?thesis using ph by (simp add: upd) (simp add: u)
    next
      case False
      have "us ! j \<in> set us" using that assms(4) by simp
      with quiet False show ?thesis using wake_owed_phase [of m' m] ph x by (simp add: upd)
    qed
    ultimately show ?thesis unfolding orderly_def prod.case K ph by blast
  qed
qed

lemma orderly_step:
  assumes "orderly N K co (us, m)" "loop_queue N addr co is (us, m)" "i < N" "length us = N"
    "l_pc (us ! i) \<noteq> Pa_arrive" "loop_step f (addr i) (co i) (us ! i) m = Some (u, m')"
  shows "orderly N K co (us[i := u], m')"
proof -
  let ?x = "bar_phase (bar_base (m_barrier m))"
  have O: "passes_ok (us ! i)" "l_arrivals (us ! i) = K
      \<or> l_arrivals (us ! i) = Suc K \<and> in_phase ?x (l_pc (us ! i)) \<and> \<not> due co (us, m) i"
    using assms(1,3) by (auto simp: orderly_def)
  have quiet: "\<exists>j < N. l_arrivals (us ! j) = Suc K \<Longrightarrow> \<not> wake_owed m (l_pc (us ! i))"
    using assms(1,3) unfolding orderly_def prod.case by blast
  have same: "due co (us[i := u], m') j \<longleftrightarrow> due co (us, m) j"
    if "sched (m_mem m') = sched (m_mem m)" "j \<noteq> i \<or> l_resumes u = l_resumes (us ! i)" for j
    using that assms(3,4) by (cases "j = i") (auto simp: due_def)
  note move = orderly_move [OF assms(1,3,4)]
  from assms(6) show ?thesis
  proof (cases rule: loop_stepE)
    case (again t)
    then show ?thesis using O same by (intro move) (auto simp: passes_ok_def)
  next
    case (resume t k)
    then have "due co (us, m) i" by (simp add: due_def)
    then show ?thesis using resume O same by (intro move) (auto simp: passes_ok_def)
  next
    case (look t)
    then show ?thesis using O same quiet by (intro move) (auto simp: passes_ok_def split: if_splits)
  next
    case (wake t head w)
    then show ?thesis using O quiet by (intro move) (auto simp: passes_ok_def)
  next
    case (pass t)
    then show ?thesis using O same by (intro move) (auto simp: passes_ok_def)
  next
    case (stay t)
    then show ?thesis using O same by (intro move) (auto simp: passes_ok_def)
  next
    case (add t a w)
    have "sched w = sched (m_mem m)" "bar_base a = bar_base (m_barrier m)"
      using add(2) by (auto simp: bar_wait_suspend_def add_phase_waiter_def add_waiter_def arm_node_def split: prod.splits)
    then show ?thesis using add O same by (intro move) (auto simp: passes_ok_def)
  qed (use assms(5) in simp)
qed

lemma orderly_reach_inv:
  assumes "named N addr co" "\<forall>i < N. co i \<notin> set (sched w)" "orderly_reach f addr co (reuse_init N c w) (us, m)"
  shows "orderly N (all_arrivals us div N) co (us, m)"
  using assms(3)
proof (induction "(us, m)" arbitrary: us m)
  case start
  have "0 < N" using assms(1) by (simp add: named_def)
  then show ?case using start
    by (auto simp: reuse_init_def orderly_def passes_ok_def all_arrivals_def sum_list_replicate)
next
  case (step us m i u m')
  have N: "0 < N" "N < 2 ^ 63" using assms(1) by (simp_all add: named_def)
  note r = orderly_reuse [OF step.hyps(1)]
  obtain "is" where q: "loop_queue N addr co is (us, m)" using loop_queue_reach [OF assms(1,2) r] by blast
  have b: "length us = N" "bar_at f N c (all_arrivals us) (bar_base (m_barrier m))" using reuse_counts [OF r N] by simp_all
  then have i: "i < N" using step.hyps(3) by simp
  from reuse_counts [OF reuse_reach_loop [OF r step.hyps(3,4)] N]
  have b': "bar_at f N c (all_arrivals (us[i := u])) (bar_base (m_barrier m'))" by simp
  note sum = sum_list_map_update [OF step.hyps(3), of l_arrivals u, folded all_arrivals_def]
  show ?case
  proof (cases "l_pc (us ! i) = Pa_arrive")
    case False
    have "l_arrivals u = l_arrivals (us ! i)" using step.hyps(4) by (cases rule: loop_stepE) (use False in auto)
    then have "all_arrivals (us[i := u]) = all_arrivals us" using sum by simp
    with orderly_step [OF step.hyps(2) q i b(1) False step.hyps(4)] show ?thesis by simp
  next
    case True
    with step.hyps(4) obtain s where u: "u = (us ! i)\<lparr>l_pc := Pa_phase (bar_phase (bar_base (m_barrier m))), l_arrivals := Suc (l_arrivals (us ! i))\<rparr>"
      and m': "m' = m\<lparr>m_barrier := (m_barrier m)\<lparr>bar_base := s\<rparr>\<rparr>" by (cases rule: loop_stepE) auto
    have a: "all_arrivals (us[i := u]) = Suc (all_arrivals us)" using sum by (simp add: u)
    from orderly_arrive [OF step.hyps(2) q i b refl mp [OF step.hyps(5) True] True refl u m'] b' show ?thesis
      by (simp add: a m')
  qed
qed

section \<open>Properties\<close>

text \<open>
  C15. The barrier when participants use it again and again.  In every interleaving of \<open>N\<close>
  participants that call \<open>arrive_and_wait_async\<close> in a loop, as many phases are complete, and the
  completion has run as often, as the arrivals so far make full rounds of \<open>N\<close>; nobody comes
  through for the first time, or is scheduled, before all have arrived once.  In an orderly
  run, in which nobody arrives while another has still to wake the others for a phase that is
  over, this holds for every use: nobody has come through more often than any other has
  arrived.  Without that it does not hold for the second use (\<open>late_wake_releases_early\<close>).
\<close>

theorem reused_barrier_holds_back:
  assumes "named N addr co" "\<forall>i < N. co i \<notin> set (sched w)"
    "reuse_reach f addr co (reuse_init N c w) (us, m)"
  shows "bar_phase (bar_base (m_barrier m)) = of_nat (all_arrivals us div N)
    \<and> bar_state (bar_base (m_barrier m)) = (f ^^ (all_arrivals us div N)) c
    \<and> ((\<exists>i < N. 0 < l_passes (us ! i) \<or> co i \<in> set (sched (m_mem m))) \<longrightarrow> (\<forall>j < N. 0 < l_arrivals (us ! j)))
    \<and> (orderly_reach f addr co (reuse_init N c w) (us, m) \<longrightarrow>
        (\<forall>i < N. \<forall>j < N. l_passes (us ! i) \<le> l_arrivals (us ! j)))"
proof -
  have N: "0 < N" "N < 2 ^ 63" using assms(1) by (simp_all add: named_def)
  note cnt = reuse_counts [OF assms(3) N]
  have first: "first_use N co (us, m)" using assms(3)
  proof (induction "(us, m)" arbitrary: us m)
    case start
    then show ?case using assms(2) by (auto simp: reuse_init_def first_use_def meeting_init_def)
  next
    case (step z)
    from step.hyps(3) show ?case
    proof cases
      case (1 i vs n u)
      note c = reuse_counts [OF step.hyps(1) [unfolded 1(1)] N]
      have "first_use N co (vs[i := u], m)"
        by (rule first_use_step [where addr = addr and f = f and c = c]) (use c step.hyps(2) 1 in simp_all)
      then show ?thesis by (simp add: 1(2))
    qed
  qed
  have "0 < l_arrivals (us ! j)" if "i < N" "0 < l_passes (us ! i) \<or> co i \<in> set (sched (m_mem m))" "j < N" for i j
    using first that cnt by (auto simp: first_use_def)
  moreover have "l_passes (us ! i) \<le> l_arrivals (us ! j)"
    if o: "orderly_reach f addr co (reuse_init N c w) (us, m)" and ij: "i < N" "j < N" for i j
  proof -
    let ?K = "all_arrivals us div N"
    note O = orderly_reach_inv [OF assms(1,2) o]
    have "l_passes (us ! i) \<le> ?K"
      using O ij(1) by (cases "l_pc (us ! i)") (auto simp: orderly_def passes_ok_def)
    moreover have "?K \<le> l_arrivals (us ! j)" using O ij(2) by (auto simp: orderly_def)
    ultimately show ?thesis by simp
  qed
  ultimately show ?thesis using cnt by (auto simp: bar_at_def)
qed

section \<open>Runs\<close>

text \<open>The participants take steps in a given order; the Boolean asks for an orderly run.\<close>

fun loop_run ::
  "bool \<Rightarrow> ('c \<Rightarrow> 'c) \<Rightarrow> (nat \<Rightarrow> uintptr) \<Rightarrow> (nat \<Rightarrow> coro) \<Rightarrow> nat list \<Rightarrow> looper list \<times> 'c meeting \<Rightarrow>
   (looper list \<times> 'c meeting) option" where
  "loop_run b f addr co [] z = Some z"
| "loop_run b f addr co (i # is) (us, m) =
     (if i < length us \<and> (b \<and> l_pc (us ! i) = Pa_arrive \<longrightarrow> (\<forall>v \<in> set us. \<not> wake_owed m (l_pc v)))
      then case loop_step f (addr i) (co i) (us ! i) m of
          None \<Rightarrow> None
        | Some (u, m') \<Rightarrow> loop_run b f addr co is (us[i := u], m')
      else None)"


lemma loop_run_orderly:
  "orderly_reach f addr co z0 z \<Longrightarrow> loop_run True f addr co is z = Some z' \<Longrightarrow> orderly_reach f addr co z0 z'"
proof (induction True f addr co "is" z rule: loop_run.induct)
  case (2 f addr co i "is" us m)
  from "2.prems"(2) obtain u m' where s: "i < length us \<and> (True \<and> l_pc (us ! i) = Pa_arrive \<longrightarrow> (\<forall>v \<in> set us. \<not> wake_owed m (l_pc v)))"
    "loop_step f (addr i) (co i) (us ! i) m = Some (u, m')" "loop_run True f addr co is (us[i := u], m') = Some z'"
    by (auto split: if_splits option.splits)
  have "orderly_reach f addr co z0 (us[i := u], m')"
    by (rule orderly_reach.step [OF "2.prems"(1) conjunct1 [OF s(1)] s(2)]) (use s(1) in simp)
  then show ?case using "2.hyps"(1) [OF s(1,2) refl] s(3) by blast
qed simp

lemmas loop_run_defs = meeting_init_def new_async_barrier_def new_barrier_def arrive_def
  complete_phase_def bar_wait_ready_def bar_wait_suspend_def add_phase_waiter_def add_waiter_def arm_node_def
  wake_all_def wake_walk.simps fire_node_def schedule_call_def sample_mem_def two_addr_def two_co_def
  new_node_def Let_def loop_step.simps through_def

lemma two_loopers:
  "reuse_init 2 c w = ([\<lparr>l_pc = Pa_arrive, l_arrivals = 0, l_passes = 0, l_resumes = 0\<rparr>,
     \<lparr>l_pc = Pa_arrive, l_arrivals = 0, l_passes = 0, l_resumes = 0\<rparr>], snd (meeting_init 2 c w))"
  by (simp add: reuse_init_def numeral_2_eq_2)


section \<open>Witnesses\<close>

text \<open>An orderly run in which both participants come through twice, the first one suspended once.\<close>

theorem reused_barrier_holds_back_witness:
  "\<exists>us m. orderly_reach Suc two_addr two_co (reuse_init 2 0 sample_mem) (us, m)
    \<and> l_passes (us ! 0) = 2 \<and> 2 \<le> l_arrivals (us ! 1) \<and> bar_phase (bar_base (m_barrier m)) = of_nat (all_arrivals us div 2)"
proof -
  have "\<exists>us m. loop_run True Suc two_addr two_co [0, 0, 0, 0, 1, 1, 1, 1, 1, 0, 0, 0, 0, 1, 1, 1, 0] (reuse_init 2 0 sample_mem) = Some (us, m)
    \<and> l_passes (us ! 0) = 2"
    by (simp add: two_loopers loop_run_defs)
  then obtain us m where r: "orderly_reach Suc two_addr two_co (reuse_init 2 0 sample_mem) (us, m)" "l_passes (us ! 0) = 2"
    using loop_run_orderly [OF orderly_reach.start] by blast
  have "l_passes (us ! 0) \<le> l_arrivals (us ! 1)" "bar_phase (bar_base (m_barrier m)) = of_nat (all_arrivals us div 2)"
    using reused_barrier_holds_back [OF two_named no_two_scheduled orderly_reuse [OF r(1)]] r(1) by simp_all
  with r show ?thesis by (intro exI [of _ us] exI [of _ m]) simp
qed

end
