(* ===== verification/AwaitQueue.thy ===== *)
theory AwaitQueue
  imports WaiterList
begin

text \<open>
  The waiter list of an asynchronous primitive as the users of the primitive share it: user \<open>i\<close>
  has its node at \<open>addr i\<close> (a member of its awaiter, \<open>node_\<close>) and its coroutine has the handle
  \<open>co i\<close>.  The state is described by two lists of users: who is on the list, and who has been
  scheduled from it so far.
\<close>

definition own_nodes :: "nat \<Rightarrow> (nat \<Rightarrow> uintptr) \<Rightarrow> (nat \<Rightarrow> coro) \<Rightarrow> coro list \<Rightarrow> bool" where
  "own_nodes N addr co s0 \<longleftrightarrow> inj_on addr {..<N} \<and> inj_on co {..<N}
     \<and> (\<forall>i < N. addr i \<noteq> 0 \<and> co i \<noteq> 0 \<and> co i \<notin> set s0)"

definition await_queue ::
  "nat \<Rightarrow> (nat \<Rightarrow> uintptr) \<Rightarrow> (nat \<Rightarrow> coro) \<Rightarrow> coro list \<Rightarrow> nat list \<Rightarrow> nat list \<Rightarrow> uintptr \<Rightarrow> async_mem \<Rightarrow> bool"
where
  "await_queue N addr co s0 is js head w \<longleftrightarrow>
     own_nodes N addr co s0 \<and> chain (wnodes w) head (map addr is) \<and> sched w = s0 @ map co js
     \<and> distinct (is @ js) \<and> set (is @ js) \<subseteq> {..<N}
     \<and> (\<forall>i \<in> set is. node_handle (wnodes w (addr i)) = co i \<and> node_gate (wnodes w (addr i)) = 0)"

lemma two_lists: "P is js \<Longrightarrow> \<exists>is js. P is js"
  by blast

lemma await_queue_new:
  "own_nodes N addr co (sched w) \<Longrightarrow> await_queue N addr co (sched w) [] [] 0 w"
  by (simp add: await_queue_def)

text \<open>What the handles say about the users.\<close>

lemma await_queue_scheduled:
  assumes "await_queue N addr co s0 is js head w" "i < N"
  shows "co i \<in> set (sched w) \<longleftrightarrow> i \<in> set js" "count_list (sched w) (co i) \<le> 1"
proof -
  have q: "sched w = s0 @ map co js" "set js \<subseteq> {..<N}" "distinct js" "inj_on co {..<N}" "co i \<notin> set s0"
    using assms by (auto simp: await_queue_def own_nodes_def)
  then have inj: "co j = co i \<longleftrightarrow> j = i" if "j \<in> set js" for j using that assms(2) by (auto simp: inj_on_def)
  then have "co i \<in> co ` set js \<longleftrightarrow> i \<in> set js" by (metis image_iff)
  then show "co i \<in> set (sched w) \<longleftrightarrow> i \<in> set js" using q by simp
  have "distinct (map co js)" using q inj by (auto simp: distinct_map intro: inj_on_subset)
  then have "count_list (map co js) (co i) \<le> 1"
    by (metis count_mset distinct_count_atmost_1 le_refl zero_le_one)
  then show "count_list (sched w) (co i) \<le> 1" using q by (simp add: count_list_0_iff)
qed

text \<open>The node is armed and added.\<close>

lemma await_queue_add:
  assumes "await_queue N addr co s0 is js head w" "i < N" "i \<notin> set (is @ js)"
    and "add_waiter (addr i) head (arm_node (addr i) (co i) 0 w) = (head', w')"
  shows "await_queue N addr co s0 (i # is) js head' w'"
proof -
  let ?w = "arm_node (addr i) (co i) 0 w"
  have own: "own_nodes N addr co s0" and sub: "set is \<subseteq> {..<N}"
    and ch: "chain (wnodes w) head (map addr is)" using assms(1) by (auto simp: await_queue_def)
  have new: "addr i \<noteq> 0" using own assms(2) by (simp add: own_nodes_def)
  have other: "addr j \<noteq> addr i" if "j \<in> set is" for j
    using own sub that assms(2,3) by (auto simp: own_nodes_def inj_on_def)
  then have fresh: "addr i \<notin> set (map addr is)" by fastforce
  have "chain (wnodes ?w) head (map addr is)" using ch fresh by (simp add: arm_node_def chain_update)
  then have "chain (wnodes w') head' (map addr (i # is))" using chain_add [OF _ new fresh assms(4)] by simp
  then show ?thesis using assms other by (auto simp: await_queue_def add_waiter_def arm_node_def)
qed

text \<open>One is woken: the one that was added last, if there is one.\<close>

lemma await_queue_wake_one:
  assumes "await_queue N addr co s0 is js head w"
  shows "wake_one head w =
      (case is of [] \<Rightarrow> (False, head, w) | i # is' \<Rightarrow> (True, node_next (wnodes w (addr i)), fire_node (addr i) w))"
    "is = i # is' \<Longrightarrow> wake_one head w = (b, head', w') \<Longrightarrow> await_queue N addr co s0 is' (js @ [i]) head' w'"
    "has_waiters head \<longleftrightarrow> is \<noteq> []"
proof -
  have ch: "chain (wnodes w) head (map addr is)" using assms by (simp add: await_queue_def)
  show one: "wake_one head w =
      (case is of [] \<Rightarrow> (False, head, w) | i # is' \<Rightarrow> (True, node_next (wnodes w (addr i)), fire_node (addr i) w))"
    using ch by (cases "is") (auto simp: wake_one_def)
  show "has_waiters head \<longleftrightarrow> is \<noteq> []" using ch by (cases "is") (auto simp: has_waiters_def)
  assume s: "is = i # is'" and st: "wake_one head w = (b, head', w')"
  then have w': "head' = node_next (wnodes w (addr i))" "w' = fire_node (addr i) w" using one by simp_all
  have "plain w [addr i]" using assms s by (auto simp: plain_def await_queue_def own_nodes_def)
  then have "sched (fire_node (addr i) w) = sched w @ [co i]"
    using fold_fire_plain [of w "[addr i]"] assms s by (simp add: handles_def await_queue_def)
  moreover have "wnodes (fire_node (addr i) w) = wnodes w" using fold_fire_wnodes [of "[addr i]" w] by simp
  ultimately show "await_queue N addr co s0 is' (js @ [i]) head' w'"
    using assms s unfolding w' by (auto simp: await_queue_def)
qed

text \<open>Everybody is woken.\<close>

lemma await_queue_wake_all:
  assumes "await_queue N addr co s0 is js head w"
  obtains w' where "wake_all head w = Some (0, w')" "await_queue N addr co s0 [] (js @ is) 0 w'"
proof
  let ?w = "fold fire_node (map addr is) w"
  have ch: "chain (wnodes w) head (map addr is)" using assms by (simp add: await_queue_def)
  then show "wake_all head w = Some (0, ?w)" by (rule wake_all_chain)
  have "plain w (map addr is)" using assms by (auto simp: plain_def await_queue_def own_nodes_def)
  moreover have "handles w (map addr is) = map co is" using assms by (simp add: handles_def await_queue_def)
  ultimately have "sched ?w = sched w @ map co is" using fold_fire_plain by metis
  then show "await_queue N addr co s0 [] (js @ is) 0 ?w" using assms by (auto simp: await_queue_def)
qed

text \<open>
  A user that was on the list at the \<open>k\<close>-th wake-up of everybody is scheduled by the next one.
\<close>

definition in_time :: "nat list \<Rightarrow> nat \<Rightarrow> nat \<Rightarrow> nat option \<Rightarrow> bool" where
  "in_time js wakes i l \<longleftrightarrow> (\<forall>k. l = Some k \<longrightarrow> k \<le> wakes \<and> (k < wakes \<longrightarrow> i \<in> set js))"

lemma in_time_now [simp]: "in_time js wakes i (Some wakes)" "in_time js wakes i None"
  by (simp_all add: in_time_def)

lemma in_time_mono:
  assumes "in_time js wakes i l" "l \<noteq> None \<longrightarrow> i \<in> set (is @ js)" "set js \<subseteq> set js'" "wakes \<le> wakes'"
    "wakes' \<noteq> wakes \<longrightarrow> set js' = set (is @ js)"
  shows "in_time js' wakes' i l"
  unfolding in_time_def
proof (intro allI impI)
  fix k assume "l = Some k"
  with assms show "k \<le> wakes' \<and> (k < wakes' \<longrightarrow> i \<in> set js')"
    by (cases "wakes' = wakes") (auto simp: in_time_def)
qed

section \<open>Users that come to rest\<close>

text \<open>
  Any number of users of one primitive, each with the steps of its thread and the step of its
  coroutine.  If every step brings its user closer to the end, all runs end, and they end where no
  user has a step.
\<close>

locale awaiting_users =
  fixes thread :: "nat \<Rightarrow> 'u \<Rightarrow> 's \<Rightarrow> ('u \<times> 's) option"
    and resume :: "nat \<Rightarrow> 'u \<Rightarrow> 's \<Rightarrow> 'u option"
    and move :: "'u list \<times> 's \<Rightarrow> 'u list \<times> 's \<Rightarrow> bool"
    and steps_left :: "'u \<Rightarrow> nat"
    and rest :: "nat \<Rightarrow> 'u \<Rightarrow> 's \<Rightarrow> bool"
  assumes move_iff: "move (us, z) (us', z') \<longleftrightarrow> (\<exists>i u. i < length us \<and> us' = us[i := u]
      \<and> (thread i (us ! i) z = Some (u, z') \<or> resume i (us ! i) z = Some u \<and> z' = z))"
    and thread_left: "thread i u z = Some (u', z') \<Longrightarrow> steps_left u' < steps_left u"
    and resume_left: "resume i u z = Some u' \<Longrightarrow> steps_left u' < steps_left u"
    and rest_iff: "rest i u z \<longleftrightarrow> thread i u z = None \<and> resume i u z = None"
begin

lemma move_left:
  assumes "move (us, z) (us', z')"
  shows "sum_list (map steps_left us') < sum_list (map steps_left us)"
proof -
  from assms obtain i u where st: "i < length us" "us' = us[i := u]" "steps_left u < steps_left (us ! i)"
    using thread_left resume_left by (auto simp: move_iff)
  with sum_list_map_update [OF st(1), of steps_left u] show ?thesis by simp
qed

lemma runs_end: "wfp (\<lambda>q' q. move q q')"
  by (rule wfp_if_convertible_to_nat [where f = "\<lambda>(us, z). sum_list (map steps_left us)"]) (auto dest: move_left)

lemma stuck_iff: "(\<nexists>q. move (us, z) q) \<longleftrightarrow> (\<forall>i < length us. rest i (us ! i) z)"
proof
  assume no: "\<nexists>q. move (us, z) q"
  show "\<forall>i < length us. rest i (us ! i) z"
  proof (intro allI impI)
    fix i assume i: "i < length us"
    have "thread i (us ! i) z = None" using no i by (metis move_iff not_None_eq surj_pair)
    moreover have "resume i (us ! i) z = None" using no i by (metis move_iff not_None_eq)
    ultimately show "rest i (us ! i) z" by (simp add: rest_iff)
  qed
qed (auto simp: move_iff rest_iff)

end

section \<open>Three users\<close>

definition three_nodes :: "nat \<Rightarrow> uintptr" where "three_nodes i = (if i = 0 then 16 else if i = 1 then 32 else 48)"
definition three_handles :: "nat \<Rightarrow> coro" where "three_handles i = (if i = 0 then 5 else if i = 1 then 7 else 9)"

lemma own_three:
  "own_nodes (Suc (Suc (Suc 0))) three_nodes three_handles []" "own_nodes (Suc (Suc 0)) three_nodes three_handles []"
  by (auto simp: own_nodes_def three_nodes_def three_handles_def inj_on_def)

end
