(* ===== verification/AsyncChannel.thy ===== *)
theory AsyncChannel
  imports Channel AwaitQueue
begin

text \<open>
  An \<open>async_channel\<close> among its users (\<open>include/shared_state/channel.hpp\<close>): any number of
  coroutines in \<open>co_await receive_async()\<close> and \<open>co_await send_async(v)\<close>, of threads in \<open>send\<close>
  and \<open>receive\<close>, and of calls of \<open>close\<close>.  Every locked section, every look at the closed flag
  and every call on a waiter list is a step, and the steps of all users interleave.
\<close>

section \<open>The users\<close>

text \<open>
  Where a user stands.  \<open>Rx\<close>: \<open>receive_async\<close>, with the result once it has one; \<open>Tx\<close>:
  \<open>send_async\<close>, with the value it has sent, if any, at its end; \<open>Bs\<close>, \<open>Br\<close>: the blocking \<open>send\<close>
  and \<open>receive\<close> of the asynchronous channel; \<open>Cl\<close>: \<open>close\<close>.
\<close>

datatype 'a chan_user = Rx_ready | Rx_closed | Rx_add | Rx_suspended | Rx_resume "'a option" | Rx_done "'a option"
  | Tx_ready 'a | Tx_add "'a send_awaiter" | Tx_suspended "'a send_awaiter" | Tx_resume "'a send_awaiter"
  | Tx_done "'a option"
  | Bs_send 'a | Bs_wake 'a | Bs_done 'a | Bs_threw
  | Br_receive | Br_wake 'a | Br_done 'a | Br_threw
  | Cl_store | Cl_notify | Cl_receivers | Cl_senders | Cl_done

record 'a chan_sys =
  c_chan :: "'a async_channel"
  c_mem :: async_mem

definition set_base :: "'a channel \<Rightarrow> 'a chan_sys \<Rightarrow> 'a chan_sys" where
  "set_base s z = z\<lparr>c_chan := (c_chan z)\<lparr>ch_base := s\<rparr>\<rparr>"

definition set_chan :: "'a async_channel \<times> async_mem \<Rightarrow> 'a chan_sys \<Rightarrow> 'a chan_sys" where
  "set_chan aw z = z\<lparr>c_chan := fst aw, c_mem := snd aw\<rparr>"

text \<open>
  One step; \<open>p\<close> is the address of the node in the awaiter, \<open>h\<close> the handle of the coroutine.  A
  blocking call that has to wait has no step.
\<close>

fun user_step ::
  "('a \<Rightarrow> 'a) \<Rightarrow> boundedness \<Rightarrow> uintptr \<Rightarrow> coro \<Rightarrow> 'a chan_user \<Rightarrow> 'a chan_sys \<Rightarrow> ('a chan_user \<times> 'a chan_sys) option"
where
  "user_step moved b p h Rx_ready z =
     (case try_receive_now b (ch_base (c_chan z)) of
        (r, s) \<Rightarrow> Some (if r \<noteq> None then Rx_resume r else Rx_closed, set_base s z))"
| "user_step moved b p h Rx_closed z =
     Some (if is_closed (ch_base (c_chan z)) then Rx_resume None else Rx_add, z)"
| "user_step moved b p h Rx_add z =
     Some (Rx_suspended, set_chan (receive_suspend p h (c_chan z) (c_mem z)) z)"
| "user_step moved b p h Rx_suspended z =
     (if h \<in> set (sched (c_mem z)) then Some (Rx_resume None, z) else None)"
| "user_step moved b p h (Rx_resume r) z =
     (case receive_resume b r (c_chan z) of (r', a) \<Rightarrow> Some (Rx_done r', z\<lparr>c_chan := a\<rparr>))"
| "user_step moved b p h (Tx_ready v) z =
     (case send_ready moved b \<lparr>sa_value = v, sa_sent = False\<rparr> (c_chan z) of
        (ok, aw, a) \<Rightarrow> Some (if ok then Tx_done (Some v) else Tx_add aw, z\<lparr>c_chan := a\<rparr>))"
| "user_step moved b p h (Tx_add aw) z =
     Some (Tx_suspended aw, set_chan (send_suspend p h (c_chan z) (c_mem z)) z)"
| "user_step moved b p h (Tx_suspended aw) z =
     (if h \<in> set (sched (c_mem z)) then Some (Tx_resume aw, z) else None)"
| "user_step moved b p h (Tx_resume aw) z =
     Some (Tx_done (if fst (try_send_now b (sa_value aw) (ch_base (c_chan z))) then Some (sa_value aw) else None),
       z\<lparr>c_chan := send_resume b aw (c_chan z)\<rparr>)"
| "user_step moved b p h (Bs_send v) z =
     (case send b v (ch_base (c_chan z)) of
        Wait c t \<Rightarrow> None
      | Ret s ns r \<Rightarrow> Some (if r = Ch_throw then Bs_threw else Bs_wake v, set_base s z))"
| "user_step moved b p h (Bs_wake v) z =
     Some (Bs_done v, set_chan (wake_one_receiver (c_chan z) (c_mem z)) z)"
| "user_step moved b p h Br_receive z =
     (case receive b (ch_base (c_chan z)) of
        Ret s ns (Ch_value v) \<Rightarrow> Some (if is_bounded b then Br_wake v else Br_done v, set_base s z)
      | Ret s ns r \<Rightarrow> Some (Br_threw, set_base s z)
      | Wait c t \<Rightarrow> None)"
| "user_step moved b p h (Br_wake v) z =
     Some (Br_done v, set_chan (wake_one_sender (c_chan z) (c_mem z)) z)"
| "user_step moved b p h Cl_store z =
     Some (Cl_notify, set_base (outcome_state (close_store (ch_base (c_chan z))) (ch_base (c_chan z))) z)"
| "user_step moved b p h Cl_notify z =
     Some (Cl_receivers, set_base (outcome_state (on_close (ch_base (c_chan z))) (ch_base (c_chan z))) z)"
| "user_step moved b p h Cl_receivers z =
     (case wake_all (recv_waiters (c_chan z)) (c_mem z) of
        None \<Rightarrow> None
      | Some (head, w) \<Rightarrow> Some (Cl_senders, z\<lparr>c_chan := (c_chan z)\<lparr>recv_waiters := head\<rparr>, c_mem := w\<rparr>))"
| "user_step moved b p h Cl_senders z =
     (case wake_all (send_waiters (c_chan z)) (c_mem z) of
        None \<Rightarrow> None
      | Some (head, w) \<Rightarrow> Some (Cl_done, z\<lparr>c_chan := (c_chan z)\<lparr>send_waiters := head\<rparr>, c_mem := w\<rparr>))"
| "user_step moved b p h u z = None"

text \<open>
  The system, with two lists that record what was pushed and what was taken, in order.
\<close>

record 'a chan_run =
  r_users :: "'a chan_user list"
  r_sys :: "'a chan_sys"
  r_pushed :: "'a list"
  r_taken :: "'a list"

abbreviation r_buffer :: "'a chan_run \<Rightarrow> 'a list" where
  "r_buffer q \<equiv> buffer (ch_base (c_chan (r_sys q)))"

definition move_user :: "nat \<Rightarrow> 'a chan_user \<Rightarrow> 'a chan_sys \<Rightarrow> 'a chan_run \<Rightarrow> 'a chan_run" where
  "move_user i u z q =
     (let old = r_buffer q; new = buffer (ch_base (c_chan z)) in
      q\<lparr>r_users := (r_users q)[i := u], r_sys := z,
        r_pushed := r_pushed q @ drop (length old) new,
        r_taken := r_taken q @ take (length old - length new) old\<rparr>)"

inductive chan_step ::
  "('a \<Rightarrow> 'a) \<Rightarrow> boundedness \<Rightarrow> (nat \<Rightarrow> uintptr) \<Rightarrow> (nat \<Rightarrow> coro) \<Rightarrow> 'a chan_run \<Rightarrow> 'a chan_run \<Rightarrow> bool"
  for moved b addr co where
  "i < length (r_users q) \<Longrightarrow> user_step moved b (addr i) (co i) (r_users q ! i) (r_sys q) = Some (u, z) \<Longrightarrow>
   chan_step moved b addr co q (move_user i u z q)"

inductive chan_reach ::
  "('a \<Rightarrow> 'a) \<Rightarrow> boundedness \<Rightarrow> (nat \<Rightarrow> uintptr) \<Rightarrow> (nat \<Rightarrow> coro) \<Rightarrow> 'a chan_run \<Rightarrow> 'a chan_run \<Rightarrow> bool"
  for moved b addr co q0 where
  start: "chan_reach moved b addr co q0 q0"
| step: "chan_reach moved b addr co q0 q \<Longrightarrow> chan_step moved b addr co q q' \<Longrightarrow> chan_reach moved b addr co q0 q'"

fun fresh_user :: "'a chan_user \<Rightarrow> bool" where
  "fresh_user Rx_ready \<longleftrightarrow> True" | "fresh_user (Tx_ready v) \<longleftrightarrow> True" | "fresh_user (Bs_send v) \<longleftrightarrow> True"
| "fresh_user Br_receive \<longleftrightarrow> True" | "fresh_user Cl_store \<longleftrightarrow> True" | "fresh_user u \<longleftrightarrow> False"

definition chan_init :: "'a chan_user list \<Rightarrow> async_mem \<Rightarrow> 'a chan_run" where
  "chan_init us w = \<lparr>r_users = us, r_sys = \<lparr>c_chan = new_async_channel, c_mem = w\<rparr>, r_pushed = [], r_taken = []\<rparr>"

section \<open>What is delivered\<close>

text \<open>What a user has put into the channel, and what it has gained out of it.\<close>

fun gave :: "'a chan_user \<Rightarrow> 'a multiset" where
  "gave (Tx_done (Some v)) = {#v#}" | "gave (Bs_wake v) = {#v#}" | "gave (Bs_done v) = {#v#}" | "gave u = {#}"

fun gained :: "'a chan_user \<Rightarrow> 'a multiset" where
  "gained (Rx_resume (Some v)) = {#v#}" | "gained (Rx_done (Some v)) = {#v#}"
| "gained (Br_wake v) = {#v#}" | "gained (Br_done v) = {#v#}" | "gained u = {#}"

text \<open>The effect of a step on the buffer: nothing, a value pushed at the back or taken in front.\<close>

definition buffer_effect :: "boundedness \<Rightarrow> 'a chan_user \<Rightarrow> 'a chan_user \<Rightarrow> 'a list \<Rightarrow> 'a list \<Rightarrow> bool" where
  "buffer_effect b u u' old new \<longleftrightarrow>
     (new = old \<and> gave u' = gave u \<and> gained u' = gained u)
     \<or> (\<exists>v. new = old @ [v] \<and> gave u' = gave u + {#v#} \<and> gained u' = gained u \<and> (\<forall>n. b = Some n \<longrightarrow> length old < n))
     \<or> (\<exists>v. old = v # new \<and> gave u' = gave u \<and> gained u' = gained u + {#v#})"

lemmas user_defs = set_base_def set_chan_def receive_suspend_def add_receive_waiter_def send_suspend_def
  add_send_waiter_def wake_one_receiver_def wake_one_sender_def close_store_def on_close_def

lemma user_step_effect:
  assumes "user_step moved b p h u z = Some (u', z')" "\<forall>aw. u = Tx_resume aw \<longrightarrow> \<not> sa_sent aw"
  shows "buffer_effect b u u' (buffer (ch_base (c_chan z))) (buffer (ch_base (c_chan z')))"
proof (cases u)
  case Rx_ready
  with assms(1) show ?thesis
    by (auto simp: buffer_effect_def try_receive_now_simp user_defs split: list.splits)
next
  case (Rx_resume r)
  with assms(1) show ?thesis
    by (cases r) (auto simp: buffer_effect_def receive_resume_def try_receive_now_simp split: list.splits)
next
  case (Tx_ready v)
  with assms(1) show ?thesis
    by (auto simp: buffer_effect_def send_ready_def try_send_now_simp is_bounded_def can_send_def
        split: if_splits option.splits)
next
  case (Tx_resume aw)
  with assms show ?thesis
    by (auto simp: buffer_effect_def send_resume_def try_send_now_simp is_bounded_def can_send_def
        split: if_splits option.splits)
next
  case (Bs_send v)
  with assms(1) show ?thesis
    by (auto simp: buffer_effect_def send_def wait_defs push_value_def is_bounded_def can_send_def user_defs Let_def
        split: if_splits option.splits)
next
  case Br_receive
  with assms(1) show ?thesis
    by (auto simp: buffer_effect_def receive_def wait_defs pop_value_def has_value_or_closed_def user_defs
        neq_Nil_conv split: if_splits)
qed (use assms(1) in \<open>auto simp: buffer_effect_def user_defs split: if_splits option.splits prod.splits\<close>)

fun unsent :: "'a chan_user \<Rightarrow> bool" where
  "unsent (Tx_add aw) \<longleftrightarrow> \<not> sa_sent aw" | "unsent (Tx_suspended aw) \<longleftrightarrow> \<not> sa_sent aw"
| "unsent (Tx_resume aw) \<longleftrightarrow> \<not> sa_sent aw" | "unsent u \<longleftrightarrow> True"

lemma user_step_unsent:
  assumes "user_step moved b p h u z = Some (u', z')" "unsent u"
  shows "unsent u'"
  using assms
  by (cases u) (auto simp: send_ready_def split: if_splits option.splits prod.splits outcome.splits channel_answer.splits)

definition chan_inv :: "boundedness \<Rightarrow> 'a chan_run \<Rightarrow> bool" where
  "chan_inv b q \<longleftrightarrow> r_taken q @ r_buffer q = r_pushed q
     \<and> mset (r_pushed q) = sum_list (map gave (r_users q)) \<and> mset (r_taken q) = sum_list (map gained (r_users q))
     \<and> (\<forall>n. b = Some n \<longrightarrow> length (r_buffer q) \<le> n) \<and> (\<forall>u \<in> set (r_users q). unsent u)"

lemma buffer_effect_inv:
  assumes "chan_inv b q" "i < length (r_users q)" "unsent u"
    and "buffer_effect b (r_users q ! i) u (r_buffer q) (buffer (ch_base (c_chan z)))"
  shows "chan_inv b (move_user i u z q)"
proof -
  let ?old = "r_buffer q" and ?new = "buffer (ch_base (c_chan z))" and ?us = "r_users q"
  note upd = sum_list_map_update [OF assms(2), of gave u] sum_list_map_update [OF assms(2), of gained u]
  have uns: "\<forall>u' \<in> set (?us[i := u]). unsent u'"
    using assms(1,3) set_update_subset_insert [of ?us i u] by (auto simp: chan_inv_def)
  from assms(4) consider
    "?new = ?old" "gave u = gave (?us ! i)" "gained u = gained (?us ! i)"
  | v where "?new = ?old @ [v]" "gave u = gave (?us ! i) + {#v#}" "gained u = gained (?us ! i)"
      "\<forall>n. b = Some n \<longrightarrow> length ?old < n"
  | v where "?old = v # ?new" "gave u = gave (?us ! i)" "gained u = gained (?us ! i) + {#v#}"
    by (auto simp: buffer_effect_def)
  then show ?thesis
  proof cases
    case 1
    with assms(1) upd uns show ?thesis by (simp add: chan_inv_def move_user_def Let_def)
  next
    case (2 v)
    from 2 upd have "sum_list (map gave (?us[i := u])) = sum_list (map gave ?us) + {#v#}"
      "sum_list (map gained (?us[i := u])) = sum_list (map gained ?us)" by (simp_all add: ac_simps)
    with assms(1) 2 uns show ?thesis by (auto simp: chan_inv_def move_user_def Let_def Suc_le_eq)
  next
    case (3 v)
    from 3 upd have "sum_list (map gave (?us[i := u])) = sum_list (map gave ?us)"
      "sum_list (map gained (?us[i := u])) = sum_list (map gained ?us) + {#v#}" by (simp_all add: ac_simps)
    with assms(1) 3 uns show ?thesis by (auto simp: chan_inv_def move_user_def Let_def)
  qed
qed

lemma chan_inv_step:
  assumes "chan_step moved b addr co q q'" "chan_inv b q"
  shows "chan_inv b q'"
  using assms(1)
proof cases
  case (1 i u z)
  have "unsent (r_users q ! i)" using assms(2) 1(2) by (simp add: chan_inv_def)
  with buffer_effect_inv [OF assms(2) 1(2) user_step_unsent [OF 1(3)] user_step_effect [OF 1(3)]]
  show ?thesis unfolding 1(1) by (metis unsent.simps(3))
qed

lemma fresh_sums:
  assumes "\<forall>u \<in> set us. fresh_user u"
  shows "sum_list (map gave us) = {#}" "sum_list (map gained us) = {#}" "\<forall>u \<in> set us. unsent u"
proof -
  have f: "gave u = {#} \<and> gained u = {#} \<and> unsent u" if "fresh_user u" for u :: "'a chan_user"
    using that by (cases u) simp_all
  show "sum_list (map gave us) = {#}" using assms f by (induction us) auto
  show "sum_list (map gained us) = {#}" using assms f by (induction us) auto
  show "\<forall>u \<in> set us. unsent u" using assms f by auto
qed

lemma chan_inv_reach:
  assumes "chan_reach moved b addr co (chan_init us w) q" "\<forall>u \<in> set us. fresh_user u"
  shows "chan_inv b q"
  using assms(1)
proof induction
  case start
  show ?case using fresh_sums [OF assms(2)]
    by (simp add: chan_inv_def chan_init_def new_async_channel_def new_channel_def)
qed (rule chan_inv_step)

section \<open>Who is woken\<close>

text \<open>Coroutines in \<open>co_await\<close> only, senders and receivers.\<close>

fun awaiter :: "'a chan_user \<Rightarrow> bool" where
  "awaiter Rx_ready \<longleftrightarrow> True" | "awaiter Rx_closed \<longleftrightarrow> True" | "awaiter Rx_add \<longleftrightarrow> True" | "awaiter Rx_suspended \<longleftrightarrow> True"
| "awaiter (Rx_resume r) \<longleftrightarrow> True" | "awaiter (Rx_done r) \<longleftrightarrow> True" | "awaiter (Tx_ready v) \<longleftrightarrow> True"
| "awaiter (Tx_add aw) \<longleftrightarrow> True" | "awaiter (Tx_suspended aw) \<longleftrightarrow> True" | "awaiter (Tx_resume aw) \<longleftrightarrow> True"
| "awaiter (Tx_done r) \<longleftrightarrow> True" | "awaiter u \<longleftrightarrow> False"

fun waiting :: "'a chan_user \<Rightarrow> bool" where
  "waiting Rx_suspended \<longleftrightarrow> True" | "waiting (Tx_suspended aw) \<longleftrightarrow> True" | "waiting u \<longleftrightarrow> False"

lemma awaiter_schedules_nobody:
  assumes "user_step moved b p h u z = Some (u', z')" "awaiter u"
  shows "awaiter u' \<and> sched (c_mem z') = sched (c_mem z) \<and> (waiting u \<longrightarrow> h \<in> set (sched (c_mem z)))"
  using assms
  by (cases u) (auto simp: user_defs add_waiter_def arm_node_def split: if_splits prod.splits option.splits)

lemma awaiters_step:
  assumes "chan_step moved b addr co q q'" "\<forall>u \<in> set (r_users q). awaiter u"
  shows "(\<forall>u \<in> set (r_users q'). awaiter u) \<and> length (r_users q') = length (r_users q)
    \<and> sched (c_mem (r_sys q')) = sched (c_mem (r_sys q))
    \<and> (\<forall>i < length (r_users q). waiting (r_users q ! i) \<and> co i \<notin> set (sched (c_mem (r_sys q)))
        \<longrightarrow> r_users q' ! i = r_users q ! i)"
  using assms(1)
proof cases
  case (1 i u z)
  have a: "awaiter (r_users q ! i)" using assms(2) 1(2) by simp
  note st = awaiter_schedules_nobody [OF 1(3) a]
  have "\<forall>u' \<in> set ((r_users q)[i := u]). awaiter u'"
    using assms(2) st set_update_subset_insert [of "r_users q" i u] by auto
  moreover have "(r_users q)[i := u] ! j = r_users q ! j"
    if "waiting (r_users q ! j) \<and> co j \<notin> set (sched (c_mem (r_sys q)))" for j
    using that st by (cases "j = i") auto
  ultimately show ?thesis using st by (simp add: 1(1) move_user_def Let_def)
qed

lemma awaiters_reach:
  assumes "chan_reach moved b addr co q0 q" "\<forall>u \<in> set (r_users q0). awaiter u"
  shows "(\<forall>u \<in> set (r_users q). awaiter u) \<and> length (r_users q) = length (r_users q0)
    \<and> sched (c_mem (r_sys q)) = sched (c_mem (r_sys q0))
    \<and> (\<forall>i < length (r_users q0). waiting (r_users q0 ! i) \<and> co i \<notin> set (sched (c_mem (r_sys q0)))
        \<longrightarrow> r_users q ! i = r_users q0 ! i)"
  using assms(1)
proof induction
  case (step q q')
  then have a: "\<forall>u \<in> set (r_users q). awaiter u" by blast
  from awaiters_step [OF step.hyps(2) a] step.IH show ?case by metis
qed (use assms(2) in simp)

section \<open>Runs by a schedule\<close>

text \<open>The run in which the users take their steps in the order of a list.\<close>

fun run_users ::
  "('a \<Rightarrow> 'a) \<Rightarrow> boundedness \<Rightarrow> (nat \<Rightarrow> uintptr) \<Rightarrow> (nat \<Rightarrow> coro) \<Rightarrow> nat list \<Rightarrow> 'a chan_run \<Rightarrow> 'a chan_run option"
where
  "run_users moved b addr co [] q = Some q"
| "run_users moved b addr co (i # is) q =
     (if i < length (r_users q) then
        case user_step moved b (addr i) (co i) (r_users q ! i) (r_sys q) of
          None \<Rightarrow> None
        | Some (u, z) \<Rightarrow> run_users moved b addr co is (move_user i u z q)
      else None)"

lemma run_users_reach:
  assumes "run_users moved b addr co is q = Some q'" "chan_reach moved b addr co q0 q"
  shows "chan_reach moved b addr co q0 q'"
  using assms
proof (induction "is" arbitrary: q)
  case (Cons i "is")
  then obtain u z where st: "i < length (r_users q)"
    "user_step moved b (addr i) (co i) (r_users q ! i) (r_sys q) = Some (u, z)"
    "run_users moved b addr co is (move_user i u z q) = Some q'"
    by (auto split: if_splits option.splits)
  show ?case
    by (rule Cons.IH [OF st(3) chan_reach.step [OF Cons.prems(2) chan_step.intros [where addr = addr and co = co, OF st(1,2)]]])
qed simp

lemmas chan_eval = move_user_def chan_init_def new_async_channel_def new_channel_def set_base_def set_chan_def
  try_receive_now_simp receive_suspend_def add_receive_waiter_def add_waiter_def arm_node_def
  receive_resume_def send_def push_value_def wait_defs wake_one_receiver_def wake_one_def
  can_send_def Let_def fire_node_def fire_gate_def schedule_call_def

section \<open>Properties\<close>

text \<open>
  C35. However the calls of any number of senders and receivers interleave, blocking or awaiting:
  what has been taken, followed by the buffer, is what was pushed, in that order; every value
  pushed is the value of exactly one sender that has sent, every value taken is the value of
  exactly one receiver, and a bounded buffer never holds more than its bound.
\<close>

theorem async_channel_delivers_once:
  assumes "\<forall>u \<in> set us. fresh_user u" "chan_reach moved b addr co (chan_init us w) q"
  shows "r_taken q @ r_buffer q = r_pushed q
    \<and> sum_list (map gave (r_users q)) = sum_list (map gained (r_users q)) + mset (r_buffer q)
    \<and> mset (r_taken q) = sum_list (map gained (r_users q))
    \<and> (\<forall>n. b = Some n \<longrightarrow> length (r_buffer q) \<le> n)"
proof -
  from chan_inv_reach [OF assms(2,1)] have inv: "chan_inv b q" .
  then have m: "mset (r_taken q @ r_buffer q) = sum_list (map gave (r_users q))"
    "mset (r_taken q) = sum_list (map gained (r_users q))" by (simp_all only: chan_inv_def)
  have "sum_list (map gave (r_users q)) = sum_list (map gained (r_users q)) + mset (r_buffer q)"
    using m(1) unfolding mset_append m(2) by (rule sym)
  with inv show ?thesis by (simp add: chan_inv_def)
qed

text \<open>
  C38. Awaiters never wake one another: among coroutines in \<open>receive_async\<close> and \<open>send_async\<close> a
  value sent, or room made, by one of them schedules nobody, and a coroutine that is once
  suspended is suspended in every later state, with values in the buffer or room in it.  Both
  kinds of awaiter use the \<open>try_send\<close> and \<open>try_receive\<close> of the synchronous channel, which know
  nothing of the waiter lists.
\<close>

theorem awaiters_wake_nobody:
  assumes "\<forall>u \<in> set us. awaiter u" "chan_reach moved b addr co (chan_init us w) q"
    and "chan_reach moved b addr co q q'"
    and "i < length us" "waiting (r_users q ! i)" "co i \<notin> set (sched w)"
  shows "r_users q' ! i = r_users q ! i \<and> sched (c_mem (r_sys q')) = sched w"
proof -
  have ini: "r_users (chan_init us w) = us" "sched (c_mem (r_sys (chan_init us w))) = sched w"
    by (simp_all add: chan_init_def)
  have q: "\<forall>u \<in> set (r_users q). awaiter u" "length (r_users q) = length us" "sched (c_mem (r_sys q)) = sched w"
    using awaiters_reach [OF assms(2)] assms(1) ini by metis+
  from awaiters_reach [OF assms(3) q(1)] q(2,3) assms(4-6) show ?thesis by metis
qed

text \<open>
  A receiver that is woken for a value can return empty-handed from an open channel: the value
  that \<open>send\<close> woke it for is taken by another receiver before it runs, and \<open>await_resume\<close> does not
  wait again.  A loop that ends at the first empty result stops reading an open channel.
\<close>

theorem woken_receiver_gets_nothing:
  assumes "addr 0 \<noteq> 0" "co 0 \<noteq> 0"
  shows "\<exists>q. chan_reach moved None addr co (chan_init [Rx_ready, Bs_send v, Rx_ready] w) q
    \<and> r_users q = [Rx_done None, Bs_done v, Rx_done (Some v)] \<and> \<not> is_closed (ch_base (c_chan (r_sys q)))"
proof -
  let ?q = "the (run_users moved None addr co [0, 0, 0, 1, 1, 2, 2, 0, 0]
              (chan_init [Rx_ready, Bs_send v, Rx_ready] w))"
  have "run_users moved None addr co [0, 0, 0, 1, 1, 2, 2, 0, 0] (chan_init [Rx_ready, Bs_send v, Rx_ready] w) = Some ?q
    \<and> r_users ?q = [Rx_done None, Bs_done v, Rx_done (Some v)] \<and> \<not> is_closed (ch_base (c_chan (r_sys ?q)))"
    using assms by (simp add: chan_eval)
  then show ?thesis using run_users_reach chan_reach.start by blast
qed

section \<open>Witnesses\<close>

text \<open>A receiver suspends, then a sender finds the buffer empty and leaves its value there.\<close>

lemma stuck_run:
  obtains q q' where
    "chan_reach id None three_nodes three_handles (chan_init [Rx_ready, Tx_ready (7 :: nat)] sample_mem) q"
    "chan_reach id None three_nodes three_handles q q'"
    "r_users q = [Rx_suspended, Tx_ready 7]" "r_users q' = [Rx_suspended, Tx_done (Some 7)]" "r_buffer q' = [7]"
proof -
  let ?q = "the (run_users id None three_nodes three_handles [0, 0, 0] (chan_init [Rx_ready, Tx_ready (7 :: nat)] sample_mem))"
  let ?q' = "the (run_users id None three_nodes three_handles [1] ?q)"
  have "run_users id None three_nodes three_handles [0, 0, 0] (chan_init [Rx_ready, Tx_ready (7 :: nat)] sample_mem) = Some ?q
    \<and> run_users id None three_nodes three_handles [1] ?q = Some ?q'
    \<and> r_users ?q = [Rx_suspended, Tx_ready 7] \<and> r_users ?q' = [Rx_suspended, Tx_done (Some 7)] \<and> r_buffer ?q' = [7]"
    by (simp add: chan_eval send_ready_def try_send_now_simp)
  then show ?thesis
    using that [of ?q ?q'] run_users_reach [OF _ chan_reach.start] by blast
qed

theorem async_channel_delivers_once_witness:
  "\<exists>q. chan_reach id None three_nodes three_handles (chan_init [Rx_ready, Bs_send (7 :: nat), Rx_ready] sample_mem) q
     \<and> r_users q = [Rx_done None, Bs_done 7, Rx_done (Some 7)] \<and> r_taken q @ r_buffer q = r_pushed q"
proof -
  let ?q = "the (run_users id None three_nodes three_handles [0, 0, 0, 1, 1, 2, 2, 0, 0]
              (chan_init [Rx_ready, Bs_send (7 :: nat), Rx_ready] sample_mem))"
  have "run_users id None three_nodes three_handles [0, 0, 0, 1, 1, 2, 2, 0, 0]
          (chan_init [Rx_ready, Bs_send (7 :: nat), Rx_ready] sample_mem) = Some ?q
    \<and> r_users ?q = [Rx_done None, Bs_done 7, Rx_done (Some 7)]"
    by (simp add: chan_eval three_nodes_def three_handles_def sample_mem_def)
  then have r: "chan_reach id None three_nodes three_handles (chan_init [Rx_ready, Bs_send (7 :: nat), Rx_ready] sample_mem) ?q"
    "r_users ?q = [Rx_done None, Bs_done 7, Rx_done (Some 7)]"
    using run_users_reach [OF _ chan_reach.start] by blast+
  from async_channel_delivers_once [OF _ r(1)] r show ?thesis by auto
qed

theorem awaiters_wake_nobody_witness:
  "\<exists>q q'. chan_reach id None three_nodes three_handles q q' \<and> r_users q \<noteq> r_users q'
     \<and> r_buffer q' = [7 :: nat] \<and> r_users q' ! 0 = Rx_suspended"
proof -
  obtain q q' where r:
    "chan_reach id None three_nodes three_handles (chan_init [Rx_ready, Tx_ready (7 :: nat)] sample_mem) q"
    "chan_reach id None three_nodes three_handles q q'"
    "r_users q = [Rx_suspended, Tx_ready 7]" "r_users q' = [Rx_suspended, Tx_done (Some 7)]" "r_buffer q' = [7]"
    by (rule stuck_run)
  have "r_users q' ! 0 = Rx_suspended"
    using awaiters_wake_nobody [OF _ r(1,2), of 0] r(3) by (simp add: sample_mem_def)
  with r show ?thesis by (intro exI [of _ q] exI [of _ q']) simp
qed

theorem woken_receiver_gets_nothing_witness:
  "\<exists>q. chan_reach id None three_nodes three_handles (chan_init [Rx_ready, Bs_send (7 :: nat), Rx_ready] sample_mem) q
     \<and> r_users q ! 0 = Rx_done None"
  using woken_receiver_gets_nothing [of three_nodes three_handles id "7 :: nat" sample_mem]
  by (fastforce simp: three_nodes_def three_handles_def)

end
