(* ===== verification/AsyncSemaphore.thy ===== *)
theory AsyncSemaphore
  imports Semaphore AwaitQueue
begin

text \<open>
  An \<open>async_semaphore\<close> among its users (\<open>include/shared_state/semaphore.hpp\<close>): coroutines in
  \<open>co_await acquire_async()\<close>, threads in \<open>acquire\<close> and \<open>try_acquire\<close>, and calls of \<open>release\<close>.
  Each locked section, each look at the waiter list and each call on it is a step of its own.
\<close>

section \<open>The users\<close>

text \<open>
  \<open>Aq\<close>: \<open>acquire_async\<close>.  From \<open>Aq_listed\<close> on the node is on the list while the thread is still
  inside \<open>suspend_impl\<close>, before its second \<open>try_acquire\<close>: a worker may resume the coroutine
  first (\<open>Aq_overtaken\<close>).  The flag says whether the second try took a permit.  \<open>Rl_wake n k\<close>:
  \<open>release(n)\<close> at the test of its loop, with \<open>k\<close> rounds to go; \<open>Rl_one n k\<close>: inside a round,
  with \<open>k\<close> rounds after it.
\<close>

datatype sem_user = Aq_ready | Aq_admitted | Aq_add | Aq_listed | Aq_overtaken | Aq_suspended bool | Aq_resumed bool
  | Th_acquire | Th_acquired | Th_try | Th_refused
  | Rl_release ptrdiff | Rl_wake ptrdiff nat | Rl_one ptrdiff nat | Rl_done ptrdiff

record sem_sys =
  s_sem :: async_semaphore
  s_mem :: async_mem

text \<open>The step of the thread that makes the call.\<close>

fun sem_thread :: "uintptr \<Rightarrow> coro \<Rightarrow> sem_user \<Rightarrow> sem_sys \<Rightarrow> (sem_user \<times> sem_sys) option" where
  "sem_thread p h Aq_ready z =
     (case acquire_ready (s_sem z) of (b, a) \<Rightarrow> Some (if b then Aq_admitted else Aq_add, z\<lparr>s_sem := a\<rparr>))"
| "sem_thread p h Aq_add z =
     (case add_acquire_waiter p (s_sem z) (arm_node p h 0 (s_mem z)) of
        (a, w) \<Rightarrow> Some (Aq_listed, z\<lparr>s_sem := a, s_mem := w\<rparr>))"
| "sem_thread p h Aq_listed z =
     (case acquire_ready (s_sem z) of (b, a) \<Rightarrow> Some (Aq_suspended b, z\<lparr>s_sem := a\<rparr>))"
| "sem_thread p h Aq_overtaken z =
     (case acquire_ready (s_sem z) of (b, a) \<Rightarrow> Some (Aq_resumed b, z\<lparr>s_sem := a\<rparr>))"
| "sem_thread p h Th_acquire z =
     (case acquire (sem_base (s_sem z)) of
        Wait c t \<Rightarrow> None
      | Ret s ns r \<Rightarrow> Some (Th_acquired, z\<lparr>s_sem := (s_sem z)\<lparr>sem_base := s\<rparr>\<rparr>))"
| "sem_thread p h Th_try z =
     (case acquire_ready (s_sem z) of (b, a) \<Rightarrow> Some (if b then Th_acquired else Th_refused, z\<lparr>s_sem := a\<rparr>))"
| "sem_thread p h (Rl_release n) z =
     (if sem_ok (Release n) (sem_base (s_sem z))
      then Some (Rl_wake n (nat (sint n)),
        z\<lparr>s_sem := (s_sem z)\<lparr>sem_base := outcome_state (release n (sem_base (s_sem z))) (sem_base (s_sem z))\<rparr>\<rparr>)
      else None)"
| "sem_thread p h (Rl_wake n k) z =
     Some (if k = 0 \<or> \<not> has_waiters (sem_waiters (s_sem z)) then Rl_done n else Rl_one n (k - 1), z)"
| "sem_thread p h (Rl_one n k) z =
     (case wake_one (sem_waiters (s_sem z)) (s_mem z) of
        (b, head, w) \<Rightarrow> Some (Rl_wake n k, z\<lparr>s_sem := (s_sem z)\<lparr>sem_waiters := head\<rparr>, s_mem := w\<rparr>))"
| "sem_thread p h u z = None"

text \<open>The step of the coroutine, when its handle has been scheduled.\<close>

fun sem_resume :: "coro \<Rightarrow> sem_user \<Rightarrow> sem_sys \<Rightarrow> sem_user option" where
  "sem_resume h Aq_listed z = (if h \<in> set (sched (s_mem z)) then Some Aq_overtaken else None)"
| "sem_resume h (Aq_suspended b) z = (if h \<in> set (sched (s_mem z)) then Some (Aq_resumed b) else None)"
| "sem_resume h u z = None"

inductive sem_step ::
  "(nat \<Rightarrow> uintptr) \<Rightarrow> (nat \<Rightarrow> coro) \<Rightarrow> sem_user list \<times> sem_sys \<Rightarrow> sem_user list \<times> sem_sys \<Rightarrow> bool" for addr co where
  thread: "i < length us \<Longrightarrow> sem_thread (addr i) (co i) (us ! i) z = Some (u, z') \<Longrightarrow>
    sem_step addr co (us, z) (us[i := u], z')"
| resume: "i < length us \<Longrightarrow> sem_resume (co i) (us ! i) z = Some u \<Longrightarrow> sem_step addr co (us, z) (us[i := u], z)"

inductive sem_reach ::
  "(nat \<Rightarrow> uintptr) \<Rightarrow> (nat \<Rightarrow> coro) \<Rightarrow> sem_user list \<times> sem_sys \<Rightarrow> sem_user list \<times> sem_sys \<Rightarrow> bool" for addr co q0 where
  start: "sem_reach addr co q0 q0"
| step: "sem_reach addr co q0 q \<Longrightarrow> sem_step addr co q q' \<Longrightarrow> sem_reach addr co q0 q'"

inductive_cases sem_stepE: "sem_step addr co (us, z) q"

fun sem_fresh :: "sem_user \<Rightarrow> bool" where
  "sem_fresh Aq_ready \<longleftrightarrow> True" | "sem_fresh Th_acquire \<longleftrightarrow> True" | "sem_fresh Th_try \<longleftrightarrow> True"
| "sem_fresh (Rl_release n) \<longleftrightarrow> True" | "sem_fresh u \<longleftrightarrow> False"

definition sem_start :: "ptrdiff \<Rightarrow> sem_user list \<Rightarrow> async_mem \<Rightarrow> sem_user list \<times> sem_sys" where
  "sem_start initial us w = (us, \<lparr>s_sem = new_async_semaphore initial, s_mem = w\<rparr>)"

section \<open>The books\<close>

text \<open>permits taken and given back by a user, and wake-ups a release may still make.\<close>

fun taken :: "sem_user \<Rightarrow> int" where
  "taken Aq_admitted = 1" | "taken Th_acquired = 1" | "taken (Aq_suspended b) = of_bool b"
| "taken (Aq_resumed b) = of_bool b" | "taken u = 0"

fun given_back :: "sem_user \<Rightarrow> int" where
  "given_back (Rl_wake n k) = sint n" | "given_back (Rl_one n k) = sint n" | "given_back (Rl_done n) = sint n"
| "given_back u = 0"

fun wakes_left :: "sem_user \<Rightarrow> int" where
  "wakes_left (Rl_wake n k) = int k" | "wakes_left (Rl_one n k) = int k + 1" | "wakes_left u = 0"

text \<open>Users who have their node on the list or had it there, and those resumed from it.\<close>

fun parked :: "sem_user \<Rightarrow> bool" where
  "parked Aq_listed \<longleftrightarrow> True" | "parked Aq_overtaken \<longleftrightarrow> True" | "parked (Aq_suspended b) \<longleftrightarrow> True"
| "parked (Aq_resumed b) \<longleftrightarrow> True" | "parked u \<longleftrightarrow> False"

fun woken :: "sem_user \<Rightarrow> bool" where
  "woken Aq_overtaken \<longleftrightarrow> True" | "woken (Aq_resumed b) \<longleftrightarrow> True" | "woken u \<longleftrightarrow> False"

text \<open>Users that hold what they asked for.\<close>

definition passed :: "sem_user \<Rightarrow> bool" where
  "passed u \<longleftrightarrow> u = Aq_admitted \<or> u = Th_acquired \<or> woken u"

definition sem_count_of :: "sem_sys \<Rightarrow> int" where
  "sem_count_of z = sint (sem_count (sem_base (s_sem z)))"

lemma acquire_ready_count:
  assumes "acquire_ready a = (b, a')"
  shows "sint (sem_count (sem_base a')) = sint (sem_count (sem_base a)) - of_bool b
    \<and> sem_waiters a' = sem_waiters a \<and> (b \<longrightarrow> 0 < sint (sem_count (sem_base a)))"
  using assms by (auto simp: acquire_ready_def try_acquire_now_simp has_permit_def sint_dec split: if_splits)

text \<open>What a step of a thread does to the books.\<close>

lemma sem_thread_books:
  assumes "sem_thread p h u z = Some (u', z')"
  shows "sem_count_of z' + taken u' - given_back u' = sem_count_of z + taken u - given_back u
    \<and> (0 \<le> sem_count_of z \<longrightarrow> 0 \<le> sem_count_of z') \<and> given_back u \<le> given_back u'"
proof (cases u)
  case (Rl_release n)
  then have ok: "sem_ok (Release n) (sem_base (s_sem z))" using assms by (auto split: if_splits)
  have "sint (sem_count (sem_base (s_sem z)) + n) = sint (sem_count (sem_base (s_sem z))) + sint n"
    using ok sint_bounds [of "sem_count (sem_base (s_sem z))"] by (intro sint_add_fits) simp_all
  then show ?thesis using assms ok Rl_release by (auto simp: sem_count_of_def release_def)
next
  case Th_acquire
  then show ?thesis using assms
    by (auto simp: sem_count_of_def acquire_def wait_defs take_permit_def has_permit_def sint_dec split: if_splits)
next
  case Aq_add
  then show ?thesis using assms
    by (auto simp: sem_count_of_def add_acquire_waiter_def split: prod.splits)
qed (use assms in \<open>auto simp: sem_count_of_def dest!: acquire_ready_count split: prod.splits if_splits\<close>)

lemma sem_thread_resumes_nobody: "sem_thread p h u z = Some (u', z') \<Longrightarrow> woken u' = woken u"
  by (cases u) (auto split: prod.splits if_splits outcome.splits)

text \<open>What a step of a thread does to the waiter list: one user is added, one is woken, or nothing.\<close>

lemma sem_thread_queue:
  assumes "await_queue N addr co s0 is js (sem_waiters (s_sem z)) (s_mem z)" "i < N"
    and "sem_thread (addr i) (co i) u z = Some (u', z')" "parked u \<longleftrightarrow> i \<in> set (is @ js)"
  shows "\<exists>is' js'. await_queue N addr co s0 is' js' (sem_waiters (s_sem z')) (s_mem z')
    \<and> set (is' @ js') = (if parked u' then insert i (set (is @ js)) else set (is @ js)) \<and> set js \<subseteq> set js'
    \<and> int (length js') + wakes_left u' - given_back u' \<le> int (length js) + wakes_left u - given_back u
    \<and> (parked u \<longrightarrow> parked u')"
proof (cases u)
  case Aq_add
  obtain head' w' where add: "add_waiter (addr i) (sem_waiters (s_sem z)) (arm_node (addr i) (co i) 0 (s_mem z)) = (head', w')"
    by fastforce
  have "await_queue N addr co s0 (i # is) js head' w'"
    by (rule await_queue_add [OF assms(1,2) _ add]) (use assms(4) Aq_add in simp)
  with assms(3) Aq_add add show ?thesis
    by (intro two_lists [of _ "i # is" js]) (auto simp: add_acquire_waiter_def)
next
  case (Rl_one n k)
  show ?thesis
  proof (cases "is")
    case Nil
    with await_queue_wake_one(1) [OF assms(1)] have "wake_one (sem_waiters (s_sem z)) (s_mem z) = (False, sem_waiters (s_sem z), s_mem z)"
      by simp
    with assms Rl_one show ?thesis by (intro two_lists [of _ "is" js]) auto
  next
    case (Cons j is')
    obtain b head' w' where wk: "wake_one (sem_waiters (s_sem z)) (s_mem z) = (b, head', w')" by (cases "wake_one (sem_waiters (s_sem z)) (s_mem z)")
    have "await_queue N addr co s0 is' (js @ [j]) head' w'" by (rule await_queue_wake_one(2) [OF assms(1) Cons wk])
    with assms(3) Rl_one wk Cons show ?thesis by (intro two_lists [of _ is' "js @ [j]"]) auto
  qed
next
  case (Rl_release n)
  with assms show ?thesis by (intro two_lists [of _ "is" js]) (auto split: if_splits)
next
  case (Rl_wake n k)
  with assms show ?thesis by (intro two_lists [of _ "is" js]) (auto split: if_splits)
next
  case Th_acquire
  with assms show ?thesis by (intro two_lists [of _ "is" js]) (auto split: outcome.splits)
qed ((intro two_lists [of _ "is" js], insert assms,
      force dest!: acquire_ready_count split: prod.splits if_splits)+)

section \<open>The invariant\<close>

definition sem_queue_inv where
  "sem_queue_inv N addr co s0 us z \<longleftrightarrow> (\<exists>is js.
     await_queue N addr co s0 is js (sem_waiters (s_sem z)) (s_mem z)
     \<and> set (is @ js) = {i. i < N \<and> parked (us ! i)} \<and> {i. i < N \<and> woken (us ! i)} \<subseteq> set js
     \<and> int (length js) + sum_list (map wakes_left us) \<le> sum_list (map given_back us))"

definition sem_inv where
  "sem_inv initial N addr co s0 q \<longleftrightarrow> (case q of (us, z) \<Rightarrow>
     length us = N \<and> 0 \<le> sem_count_of z
     \<and> sem_count_of z = sint initial + sum_list (map given_back us) - sum_list (map taken us)
     \<and> sem_queue_inv N addr co s0 us z)"

lemma sem_queue_thread:
  assumes "sem_queue_inv N addr co s0 us z" "length us = N" "i < N"
    and "sem_thread (addr i) (co i) (us ! i) z = Some (u, z')"
  shows "sem_queue_inv N addr co s0 (us[i := u]) z'"
proof -
  obtain "is" js where q: "await_queue N addr co s0 is js (sem_waiters (s_sem z)) (s_mem z)"
    "set (is @ js) = {i. i < N \<and> parked (us ! i)}" "{i. i < N \<and> woken (us ! i)} \<subseteq> set js"
    "int (length js) + sum_list (map wakes_left us) \<le> sum_list (map given_back us)"
    using assms(1) by (auto simp: sem_queue_inv_def)
  have "parked (us ! i) \<longleftrightarrow> i \<in> set (is @ js)" using q(2) assms(3) by simp
  from sem_thread_queue [OF q(1) assms(3,4) this] obtain is' js' where
    q': "await_queue N addr co s0 is' js' (sem_waiters (s_sem z')) (s_mem z')"
    "set (is' @ js') = (if parked u then insert i (set (is @ js)) else set (is @ js))" "set js \<subseteq> set js'"
    "int (length js') + wakes_left u - given_back u \<le> int (length js) + wakes_left (us ! i) - given_back (us ! i)"
    "parked (us ! i) \<longrightarrow> parked u" by blast
  have i: "i < length us" using assms(2,3) by simp
  have "set (is' @ js') = {j. j < N \<and> parked (us[i := u] ! j)}"
    using q'(2,5) q(2) assms(3) i by (auto simp: nth_list_update)
  moreover have "{j. j < N \<and> woken (us[i := u] ! j)} \<subseteq> set js'"
    using q(3) q'(3) sem_thread_resumes_nobody [OF assms(4)] i by (auto simp: nth_list_update)
  moreover have "int (length js') + sum_list (map wakes_left (us[i := u])) \<le> sum_list (map given_back (us[i := u]))"
    using q(4) q'(4) sum_list_map_update [OF i, of wakes_left u] sum_list_map_update [OF i, of given_back u] by linarith
  ultimately show ?thesis using q'(1) unfolding sem_queue_inv_def by blast
qed

lemma sem_resume_user:
  assumes "sem_resume h u z = Some u'"
  shows "taken u' = taken u \<and> given_back u' = given_back u \<and> wakes_left u' = wakes_left u \<and> parked u' = parked u
    \<and> h \<in> set (sched (s_mem z))"
  using assms by (cases u) (auto split: if_splits)

lemma sem_queue_resume:
  assumes "sem_queue_inv N addr co s0 us z" "length us = N" "i < N" "sem_resume (co i) (us ! i) z = Some u"
  shows "sem_queue_inv N addr co s0 (us[i := u]) z"
proof -
  obtain "is" js where q: "await_queue N addr co s0 is js (sem_waiters (s_sem z)) (s_mem z)"
    "set (is @ js) = {i. i < N \<and> parked (us ! i)}" "{i. i < N \<and> woken (us ! i)} \<subseteq> set js"
    "int (length js) + sum_list (map wakes_left us) \<le> sum_list (map given_back us)"
    using assms(1) by (auto simp: sem_queue_inv_def)
  note u = sem_resume_user [OF assms(4)]
  have i: "i < length us" using assms(2,3) by simp
  have "i \<in> set js" using await_queue_scheduled(1) [OF q(1) assms(3)] u by simp
  then have "{j. j < N \<and> woken (us[i := u] ! j)} \<subseteq> set js" using q(3) i by (auto simp: nth_list_update)
  moreover have "{j. j < N \<and> parked (us[i := u] ! j)} = {j. j < N \<and> parked (us ! j)}"
    using u i by (auto simp: nth_list_update)
  ultimately show ?thesis
    using q u i sum_list_map_update [OF i, of wakes_left u] sum_list_map_update [OF i, of given_back u]
    unfolding sem_queue_inv_def by (intro two_lists [of _ "is" js]) simp
qed

lemma sem_inv_step:
  assumes "sem_step addr co q q'" "sem_inv initial N addr co s0 q"
  shows "sem_inv initial N addr co s0 q'"
  using assms(1)
proof cases
  case (thread i us z u z')
  have inv: "length us = N" "sem_queue_inv N addr co s0 us z" using assms(2) thread by (simp_all add: sem_inv_def)
  have "sem_queue_inv N addr co s0 (us[i := u]) z'"
    by (rule sem_queue_thread [OF inv(2,1) _ thread(4)]) (use thread(3) inv in simp)
  with sem_thread_books [OF thread(4)] assms(2) thread(1-3)
    sum_list_map_update [OF thread(3), of taken u] sum_list_map_update [OF thread(3), of given_back u]
  show ?thesis by (auto simp: sem_inv_def)
next
  case (resume i us z u)
  have inv: "length us = N" "sem_queue_inv N addr co s0 us z" using assms(2) resume by (simp_all add: sem_inv_def)
  have "sem_queue_inv N addr co s0 (us[i := u]) z"
    by (rule sem_queue_resume [OF inv(2,1) _ resume(4)]) (use resume(3) inv in simp)
  with sem_resume_user [OF resume(4)] assms(2) resume(1-3)
    sum_list_map_update [OF resume(3), of taken u] sum_list_map_update [OF resume(3), of given_back u]
  show ?thesis by (auto simp: sem_inv_def)
qed

lemma fresh_user_books:
  assumes "\<forall>u \<in> set us. sem_fresh u"
  shows "sum_list (map taken us) = 0 \<and> sum_list (map given_back us) = 0 \<and> sum_list (map wakes_left us) = 0
    \<and> (\<forall>u \<in> set us. \<not> parked u \<and> \<not> woken u)"
proof -
  have f: "taken u = 0 \<and> given_back u = 0 \<and> wakes_left u = 0 \<and> \<not> parked u \<and> \<not> woken u" if "sem_fresh u" for u
    using that by (cases u) simp_all
  show ?thesis using assms by (induction us) (auto simp: f)
qed

lemma sem_inv_start:
  assumes "own_nodes (length us) addr co (sched w)" "0 \<le> sint initial" "\<forall>u \<in> set us. sem_fresh u"
  shows "sem_inv initial (length us) addr co (sched w) (sem_start initial us w)"
proof -
  have "sem_queue_inv (length us) addr co (sched w) us \<lparr>s_sem = new_async_semaphore initial, s_mem = w\<rparr>"
    unfolding sem_queue_inv_def
    using await_queue_new [OF assms(1)] fresh_user_books [OF assms(3)]
    by (intro two_lists [of _ "[]" "[]"]) (auto simp: new_async_semaphore_def)
  then show ?thesis using fresh_user_books [OF assms(3)] assms(2)
    by (simp add: sem_inv_def sem_start_def sem_count_of_def new_async_semaphore_def new_semaphore_def)
qed

lemma sem_inv_reach:
  assumes "own_nodes (length us) addr co (sched w)" "0 \<le> sint initial" "\<forall>u \<in> set us. sem_fresh u"
    and "sem_reach addr co (sem_start initial us w) q"
  shows "sem_inv initial (length us) addr co (sched w) q"
  using assms(4) by induction (use sem_inv_start [OF assms(1-3)] sem_inv_step in blast)+

text \<open>Whoever got through took a permit or was woken.\<close>

lemma passed_taken_or_woken:
  "int (length (filter passed us)) \<le> sum_list (map taken us) + int (length (filter woken us))"
proof (induction us)
  case (Cons u us)
  have "of_bool (passed u) \<le> taken u + of_bool (woken u)" by (cases u) (auto simp: passed_def)
  with Cons show ?case by (auto split: if_splits)
qed simp

section \<open>The end of a run\<close>

text \<open>Steps that a user can still make at most.\<close>

fun sem_left :: "sem_user \<Rightarrow> nat" where
  "sem_left Aq_ready = 4" | "sem_left Aq_add = 3" | "sem_left Aq_listed = 2" | "sem_left Aq_overtaken = 1"
| "sem_left (Aq_suspended b) = 1" | "sem_left Th_acquire = 1" | "sem_left Th_try = 1"
| "sem_left (Rl_release n) = 2 * nat (sint n) + 2" | "sem_left (Rl_wake n k) = 2 * k + 1"
| "sem_left (Rl_one n k) = 2 * k + 2" | "sem_left u = 0"

lemma sem_thread_left: "sem_thread p h u z = Some (u', z') \<Longrightarrow> sem_left u' < sem_left u"
  by (cases u) (auto split: prod.splits if_splits outcome.splits)

lemma sem_resume_left: "sem_resume h u z = Some u' \<Longrightarrow> sem_left u' < sem_left u"
  by (cases u) (auto split: if_splits)

text \<open>Where a user can be when it has no step.\<close>

definition at_rest :: "coro \<Rightarrow> sem_user \<Rightarrow> sem_sys \<Rightarrow> bool" where
  "at_rest h u z \<longleftrightarrow> (case u of
     Aq_admitted \<Rightarrow> True | Aq_suspended b \<Rightarrow> h \<notin> set (sched (s_mem z)) | Aq_resumed b \<Rightarrow> True
   | Th_acquired \<Rightarrow> True | Th_refused \<Rightarrow> True | Th_acquire \<Rightarrow> sem_count_of z \<le> 0
   | Rl_done n \<Rightarrow> True | Rl_release n \<Rightarrow> sint n < 0 \<or> 2 ^ 63 \<le> sem_count_of z + sint n | _ \<Rightarrow> False)"

lemma at_rest_iff: "at_rest h u z \<longleftrightarrow> sem_thread p h u z = None \<and> sem_resume h u z = None"
  by (cases u) (auto simp: at_rest_def sem_count_of_def acquire_def wait_defs has_permit_def take_permit_def
      split: prod.splits if_splits)

interpretation sem_users: awaiting_users "\<lambda>i. sem_thread (addr i) (co i)" "\<lambda>i. sem_resume (co i)" "sem_step addr co"
  sem_left "\<lambda>i. at_rest (co i)" for addr co
proof
  fix us z us' z'
  show "sem_step addr co (us, z) (us', z') \<longleftrightarrow> (\<exists>i u. i < length us \<and> us' = us[i := u]
      \<and> (sem_thread (addr i) (co i) (us ! i) z = Some (u, z') \<or> sem_resume (co i) (us ! i) z = Some u \<and> z' = z))"
    by (auto elim!: sem_stepE intro: sem_step.intros)
qed (auto simp: sem_thread_left sem_resume_left at_rest_iff)

section \<open>Runs by a schedule\<close>

text \<open>A step of a thread, \<open>(True, i)\<close>, or of a coroutine, \<open>(False, i)\<close>.\<close>

fun sem_run :: "(nat \<Rightarrow> uintptr) \<Rightarrow> (nat \<Rightarrow> coro) \<Rightarrow> (bool \<times> nat) list \<Rightarrow> sem_user list \<times> sem_sys \<Rightarrow> (sem_user list \<times> sem_sys) option"
where
  "sem_run addr co [] q = Some q"
| "sem_run addr co ((thr, i) # is) (us, z) =
     (if i < length us then
        case (if thr then sem_thread (addr i) (co i) (us ! i) z else map_option (\<lambda>u. (u, z)) (sem_resume (co i) (us ! i) z)) of
          None \<Rightarrow> None | Some (u, z') \<Rightarrow> sem_run addr co is (us[i := u], z')
      else None)"

lemma sem_run_reach:
  assumes "sem_run addr co is q = Some q'" "sem_reach addr co q0 q"
  shows "sem_reach addr co q0 q'"
  using assms
proof (induction "is" arbitrary: q)
  case (Cons e "is")
  obtain thr i us z where e: "e = (thr, i)" "q = (us, z)" by (cases e, cases q)
  with Cons.prems(1) obtain u z' where st: "i < length us"
    "(if thr then sem_thread (addr i) (co i) (us ! i) z else map_option (\<lambda>u. (u, z)) (sem_resume (co i) (us ! i) z)) = Some (u, z')"
    "sem_run addr co is (us[i := u], z') = Some q'"
    by (auto split: if_splits option.splits)
  have "sem_step addr co q (us[i := u], z')"
    unfolding e using st by (cases thr) (auto intro: sem_step.intros)
  with Cons st(3) show ?case by (blast intro: sem_reach.step)
qed simp

lemmas sem_eval = sem_start_def new_async_semaphore_def new_semaphore_def acquire_ready_def try_acquire_now_simp has_permit_def
  add_acquire_waiter_def add_waiter_def arm_node_def release_def has_waiters_def wake_one_def fire_node_def schedule_call_def
  sample_mem_def new_node_def

text \<open>A coroutine waits, one permit is released, and a thread takes it first.\<close>

lemma over_admitted:
  obtains z where "sem_reach three_nodes three_handles (sem_start 0 [Aq_ready, Rl_release 1, Th_try] sample_mem)
      ([Aq_resumed False, Rl_done 1, Th_acquired], z)"
proof -
  have "\<exists>z. sem_run three_nodes three_handles [(True, 0), (True, 0), (True, 0), (True, 1), (True, 1), (True, 1), (True, 1), (True, Suc (Suc 0)), (False, 0)]
      (sem_start 0 [Aq_ready, Rl_release 1, Th_try] sample_mem) = Some ([Aq_resumed False, Rl_done 1, Th_acquired], z)"
    by (simp add: sem_eval three_nodes_def three_handles_def Let_def)
  with that sem_run_reach [OF _ sem_reach.start] show ?thesis by blast
qed

text \<open>The two steps of \<open>suspend_impl\<close> without a step of anybody else between them.\<close>

lemma suspend_in_two_steps:
  assumes "sem_thread p h Aq_add z = Some (u, z')" "sem_thread p h u z' = Some (u', z'')"
  shows "acquire_suspend p h (s_sem z) (s_mem z) = (s_sem z'', s_mem z'')"
  using assms by (auto simp: acquire_suspend_def split: prod.splits)

text \<open>Two coroutines wait, one permit is released: it stays in the count and one of them is left.\<close>

lemma left_with_permit:
  obtains z where "sem_reach three_nodes three_handles (sem_start 0 [Aq_ready, Aq_ready, Rl_release 1] sample_mem)
      ([Aq_suspended False, Aq_resumed False, Rl_done 1], z)" "sem_count_of z = 1" "sched (s_mem z) = [7]"
proof -
  have "\<exists>z. sem_run three_nodes three_handles [(True, 0), (True, 0), (True, 0), (True, 1), (True, 1), (True, 1),
        (True, Suc (Suc 0)), (True, Suc (Suc 0)), (True, Suc (Suc 0)), (True, Suc (Suc 0)), (False, 1)]
      (sem_start 0 [Aq_ready, Aq_ready, Rl_release 1] sample_mem) = Some ([Aq_suspended False, Aq_resumed False, Rl_done 1], z)
      \<and> sem_count_of z = 1 \<and> sched (s_mem z) = [7]"
    by (simp add: sem_eval three_nodes_def three_handles_def Let_def sem_count_of_def)
  with that sem_run_reach [OF _ sem_reach.start] show ?thesis by blast
qed

section \<open>Properties\<close>

text \<open>
  C16. The books of an asynchronous semaphore, in every state of every interleaving of awaiting and
  blocking users and of releases: the count is the initial count plus what was released minus what
  \<open>try_acquire\<close> and \<open>acquire\<close> took, and is never negative; no coroutine is scheduled twice, none
  goes on without having been scheduled; and since a release both adds its permits and wakes
  coroutines that take none, at most the initial count plus twice the permits released are ever
  let through, instead of the permits alone.
\<close>

theorem async_semaphore_accounts:
  assumes "own_nodes (length us) addr co (sched w)" "0 \<le> sint initial" "\<forall>u \<in> set us. sem_fresh u"
    and "sem_reach addr co (sem_start initial us w) (us', z)"
  shows "sem_count_of z = sint initial + sum_list (map given_back us') - sum_list (map taken us')
    \<and> 0 \<le> sem_count_of z
    \<and> (\<forall>i < length us. count_list (sched (s_mem z)) (co i) \<le> 1 \<and> (woken (us' ! i) \<longrightarrow> co i \<in> set (sched (s_mem z))))
    \<and> int (length (filter passed us')) \<le> sint initial + 2 * sum_list (map given_back us')"
proof -
  have inv: "length us' = length us" "0 \<le> sem_count_of z"
    "sem_count_of z = sint initial + sum_list (map given_back us') - sum_list (map taken us')"
    "sem_queue_inv (length us) addr co (sched w) us' z"
    using sem_inv_reach [OF assms] by (simp_all add: sem_inv_def)
  from inv(4) obtain "is" js where q:
    "await_queue (length us) addr co (sched w) is js (sem_waiters (s_sem z)) (s_mem z)"
    "{i. i < length us \<and> woken (us' ! i)} \<subseteq> set js"
    "int (length js) + sum_list (map wakes_left us') \<le> sum_list (map given_back us')"
    by (auto simp: sem_queue_inv_def)
  have "0 \<le> wakes_left u" for u by (cases u) simp_all
  then have "0 \<le> sum_list (map wakes_left us')" by (intro sum_list_nonneg) auto
  moreover have "length (filter woken us') \<le> length js"
  proof -
    have "card {i. i < length us' \<and> woken (us' ! i)} \<le> card (set js)" using q(2) inv(1) by (intro card_mono) auto
    then show ?thesis using card_length [of js] by (simp add: length_filter_conv_card)
  qed
  ultimately have "int (length (filter passed us')) \<le> sint initial + 2 * sum_list (map given_back us')"
    using passed_taken_or_woken [of us'] q(3) inv(2,3) by linarith
  moreover have "count_list (sched (s_mem z)) (co i) \<le> 1 \<and> (woken (us' ! i) \<longrightarrow> co i \<in> set (sched (s_mem z)))"
    if "i < length us" for i
    using await_queue_scheduled [OF q(1) that] q(2) that by auto
  ultimately show ?thesis using inv(2,3) by simp
qed

text \<open>
  Every run of an asynchronous semaphore ends, and it ends exactly when each user is served,
  refused or through with its release, is suspended without having been scheduled, blocks in
  \<open>acquire\<close> while there is no permit, or would release more than the count can hold.
\<close>

theorem async_semaphore_runs_end:
  "wfp (\<lambda>q' q. sem_step addr co q q')
   \<and> ((\<exists>q. sem_step addr co (us, z) q) \<or> (\<forall>i < length us. at_rest (co i) (us ! i) z))
   \<and> ((\<nexists>q. sem_step addr co (us, z) q) \<or> (\<exists>i < length us. \<not> at_rest (co i) (us ! i) z))"
  using sem_users.runs_end sem_users.stuck_iff by blast

text \<open>
  A release wakes a coroutine without giving it the permit: of two that wait, one goes on without
  having taken a permit, the other stays suspended, and nothing can happen any more although
  there is a permit.
\<close>

theorem permit_left_while_suspended:
  "\<exists>z. sem_reach three_nodes three_handles (sem_start 0 [Aq_ready, Aq_ready, Rl_release 1] sample_mem)
         ([Aq_suspended False, Aq_resumed False, Rl_done 1], z)
     \<and> sem_count_of z = 1 \<and> (\<nexists>q. sem_step three_nodes three_handles ([Aq_suspended False, Aq_resumed False, Rl_done 1], z) q)"
proof -
  obtain z where z: "sem_reach three_nodes three_handles (sem_start 0 [Aq_ready, Aq_ready, Rl_release 1] sample_mem)
      ([Aq_suspended False, Aq_resumed False, Rl_done 1], z)" "sem_count_of z = 1" "sched (s_mem z) = [7]"
    by (rule left_with_permit)
  have "at_rest (three_handles i) ([Aq_suspended False, Aq_resumed False, Rl_done 1] ! i) z" if i: "i < Suc (Suc (Suc 0))" for i
  proof -
    consider "i = 0" | "i = 1" | "i = Suc (Suc 0)" using i by (auto simp: less_Suc_eq)
    then show ?thesis using z(3) by cases (simp_all add: at_rest_def three_handles_def)
  qed
  then have "\<nexists>q. sem_step three_nodes three_handles ([Aq_suspended False, Aq_resumed False, Rl_done 1], z) q"
    using sem_users.stuck_iff by simp
  with z show ?thesis by blast
qed

text \<open>
  The awaiter is used after it may be gone: between the call that puts the node on the list and
  the second \<open>try_acquire\<close> of \<open>suspend_impl\<close>, which reads the member \<open>sem_\<close>, a release can wake the
  coroutine and a worker resume it; it can end, and its frame holds the awaiter.  The second try
  then also takes the permit for a coroutine that has gone on already.
\<close>

theorem suspend_overtaken_by_resume:
  "\<exists>z. sem_reach three_nodes three_handles (sem_start 0 [Aq_ready, Rl_release 1] sample_mem) ([Aq_overtaken, Rl_done 1], z)
     \<and> (\<exists>z'. sem_thread (three_nodes 0) (three_handles 0) Aq_overtaken z = Some (Aq_resumed True, z'))"
proof -
  have "\<exists>z. sem_run three_nodes three_handles [(True, 0), (True, 0), (True, 1), (True, 1), (True, 1), (True, 1), (False, 0)]
      (sem_start 0 [Aq_ready, Rl_release 1] sample_mem) = Some ([Aq_overtaken, Rl_done 1], z)
      \<and> (\<exists>z'. sem_thread (three_nodes 0) (three_handles 0) Aq_overtaken z = Some (Aq_resumed True, z'))"
    by (simp add: sem_eval three_nodes_def three_handles_def Let_def)
  then show ?thesis using sem_run_reach [OF _ sem_reach.start] by blast
qed

section \<open>Witnesses\<close>

theorem async_semaphore_accounts_witness:
  "\<exists>z. sem_reach three_nodes three_handles (sem_start 0 [Aq_ready, Rl_release 1, Th_try] sample_mem)
         ([Aq_resumed False, Rl_done 1, Th_acquired], z)
     \<and> sem_count_of z = 0 \<and> length (filter passed [Aq_resumed False, Rl_done 1, Th_acquired]) = 2"
proof -
  obtain z where r: "sem_reach three_nodes three_handles (sem_start 0 [Aq_ready, Rl_release 1, Th_try] sample_mem)
      ([Aq_resumed False, Rl_done 1, Th_acquired], z)" by (rule over_admitted)
  have "own_nodes (length [Aq_ready, Rl_release 1, Th_try]) three_nodes three_handles (sched sample_mem)"
    using own_three(1) by (simp add: sample_mem_def)
  from async_semaphore_accounts [OF this _ _ r] have "sem_count_of z = 0" by simp
  with r show ?thesis by (intro exI [of _ z]) (simp add: passed_def)
qed

theorem async_semaphore_runs_end_witness:
  "at_rest 5 (Aq_suspended False) \<lparr>s_sem = new_async_semaphore 1, s_mem = sample_mem\<rparr>
   \<and> (\<nexists>q. sem_step three_nodes (\<lambda>i. 5) ([Aq_suspended False], \<lparr>s_sem = new_async_semaphore 1, s_mem = sample_mem\<rparr>) q)"
  using async_semaphore_runs_end [of three_nodes "\<lambda>i. 5" "[Aq_suspended False]" "\<lparr>s_sem = new_async_semaphore 1, s_mem = sample_mem\<rparr>"]
  by (simp add: at_rest_def sample_mem_def)

end
