(* ===== verification/AsyncEvent.thy ===== *)
theory AsyncEvent
  imports Event AwaitQueue
begin

text \<open>
  An \<open>async_event\<close> among its users (\<open>include/shared_state/event.hpp\<close>), with either reset policy:
  coroutines in \<open>co_await wait_async()\<close>, threads in \<open>wait\<close> and \<open>try_wait\<close>, and calls of \<open>set\<close> and
  \<open>reset\<close>.  Each locked section and each call on the waiter list is a step of its own.
\<close>

section \<open>The users\<close>

text \<open>
  \<open>Ew\<close>: \<open>wait_async\<close>; once its node is on the list the user keeps the number of wake-ups that the
  event had made before.  From \<open>Ew_listed\<close> on a worker can resume the coroutine, before
  (\<open>Ew_overtaken\<close>) or after the thread has left \<open>suspend_impl\<close>, whose second look at the event
  has an empty body.
\<close>

datatype event_user = Ew_ready | Ew_passed | Ew_add | Ew_listed nat | Ew_overtaken nat | Ew_suspended nat | Ew_resumed nat
  | Th_wait | Th_try | Th_waited | Th_refused
  | St_set | St_wake | St_done | Rs_reset | Rs_done

record event_sys =
  e_event :: async_event
  e_mem :: async_mem
  e_wakes :: nat

definition set_event :: "event \<Rightarrow> event_sys \<Rightarrow> event_sys" where
  "set_event s z = z\<lparr>e_event := (e_event z)\<lparr>ev_base := s\<rparr>\<rparr>"

fun event_thread :: "reset_policy \<Rightarrow> uintptr \<Rightarrow> coro \<Rightarrow> event_user \<Rightarrow> event_sys \<Rightarrow> (event_user \<times> event_sys) option" where
  "event_thread pol p h Ew_ready z =
     (case wait_ready pol (e_event z) of (b, a) \<Rightarrow> Some (if b then Ew_passed else Ew_add, z\<lparr>e_event := a\<rparr>))"
| "event_thread pol p h Ew_add z =
     (case add_wait_waiter p (e_event z) (arm_node p h 0 (e_mem z)) of
        (a, w) \<Rightarrow> Some (Ew_listed (e_wakes z), z\<lparr>e_event := a, e_mem := w\<rparr>))"
| "event_thread pol p h (Ew_listed k) z = Some (Ew_suspended k, z)"
| "event_thread pol p h (Ew_overtaken k) z = Some (Ew_resumed k, z)"
| "event_thread pol p h Th_wait z =
     (case ev_wait pol (ev_base (e_event z)) of
        Wait c t \<Rightarrow> None
      | Ret s ns r \<Rightarrow> Some (Th_waited, set_event s z))"
| "event_thread pol p h Th_try z =
     (case wait_ready pol (e_event z) of (b, a) \<Rightarrow> Some (if b then Th_waited else Th_refused, z\<lparr>e_event := a\<rparr>))"
| "event_thread pol p h St_set z =
     Some (St_wake, set_event (outcome_state (ev_set pol (ev_base (e_event z))) (ev_base (e_event z))) z)"
| "event_thread pol p h St_wake z =
     (if auto_reset pol
      then (case wake_one (ev_waiters (e_event z)) (e_mem z) of
              (b, head, w) \<Rightarrow> Some (St_done, z\<lparr>e_event := (e_event z)\<lparr>ev_waiters := head\<rparr>, e_mem := w, e_wakes := Suc (e_wakes z)\<rparr>))
      else (case wake_all (ev_waiters (e_event z)) (e_mem z) of
              None \<Rightarrow> None
            | Some (head, w) \<Rightarrow>
                Some (St_done, z\<lparr>e_event := (e_event z)\<lparr>ev_waiters := head\<rparr>, e_mem := w, e_wakes := Suc (e_wakes z)\<rparr>)))"
| "event_thread pol p h Rs_reset z =
     Some (Rs_done, set_event (outcome_state (ev_reset (ev_base (e_event z))) (ev_base (e_event z))) z)"
| "event_thread pol p h u z = None"

fun event_resume :: "coro \<Rightarrow> event_user \<Rightarrow> event_sys \<Rightarrow> event_user option" where
  "event_resume h (Ew_listed k) z = (if h \<in> set (sched (e_mem z)) then Some (Ew_overtaken k) else None)"
| "event_resume h (Ew_suspended k) z = (if h \<in> set (sched (e_mem z)) then Some (Ew_resumed k) else None)"
| "event_resume h u z = None"

inductive event_step ::
  "reset_policy \<Rightarrow> (nat \<Rightarrow> uintptr) \<Rightarrow> (nat \<Rightarrow> coro) \<Rightarrow> event_user list \<times> event_sys \<Rightarrow> event_user list \<times> event_sys \<Rightarrow> bool"
  for pol addr co where
  thread: "i < length us \<Longrightarrow> event_thread pol (addr i) (co i) (us ! i) z = Some (u, z') \<Longrightarrow>
    event_step pol addr co (us, z) (us[i := u], z')"
| resume: "i < length us \<Longrightarrow> event_resume (co i) (us ! i) z = Some u \<Longrightarrow> event_step pol addr co (us, z) (us[i := u], z)"

inductive event_reach ::
  "reset_policy \<Rightarrow> (nat \<Rightarrow> uintptr) \<Rightarrow> (nat \<Rightarrow> coro) \<Rightarrow> event_user list \<times> event_sys \<Rightarrow> event_user list \<times> event_sys \<Rightarrow> bool"
  for pol addr co q0 where
  start: "event_reach pol addr co q0 q0"
| step: "event_reach pol addr co q0 q \<Longrightarrow> event_step pol addr co q q' \<Longrightarrow> event_reach pol addr co q0 q'"

inductive_cases event_stepE: "event_step pol addr co (us, z) q"

fun event_fresh :: "event_user \<Rightarrow> bool" where
  "event_fresh Ew_ready \<longleftrightarrow> True" | "event_fresh Th_wait \<longleftrightarrow> True" | "event_fresh Th_try \<longleftrightarrow> True"
| "event_fresh St_set \<longleftrightarrow> True" | "event_fresh Rs_reset \<longleftrightarrow> True" | "event_fresh u \<longleftrightarrow> False"

definition event_start :: "bool \<Rightarrow> event_user list \<Rightarrow> async_mem \<Rightarrow> event_user list \<times> event_sys" where
  "event_start initial us w = (us, \<lparr>e_event = new_async_event initial, e_mem = w, e_wakes = 0\<rparr>)"

section \<open>The books\<close>

text \<open>Users that found the event set, users that have set it, and those that have woken as well.\<close>

fun found_set :: "event_user \<Rightarrow> nat" where
  "found_set Ew_passed = 1" | "found_set Th_waited = 1" | "found_set u = 0"

fun has_set :: "event_user \<Rightarrow> nat" where
  "has_set St_wake = 1" | "has_set St_done = 1" | "has_set u = 0"

fun has_woken :: "event_user \<Rightarrow> nat" where
  "has_woken St_done = 1" | "has_woken u = 0"

text \<open>When the node of a user was put on the list, and whether its coroutine was resumed.\<close>

fun listed_at :: "event_user \<Rightarrow> nat option" where
  "listed_at (Ew_listed k) = Some k" | "listed_at (Ew_overtaken k) = Some k" | "listed_at (Ew_suspended k) = Some k"
| "listed_at (Ew_resumed k) = Some k" | "listed_at u = None"

fun was_resumed :: "event_user \<Rightarrow> bool" where
  "was_resumed (Ew_overtaken k) \<longleftrightarrow> True" | "was_resumed (Ew_resumed k) \<longleftrightarrow> True" | "was_resumed u \<longleftrightarrow> False"

definition went_on :: "event_user \<Rightarrow> bool" where
  "went_on u \<longleftrightarrow> 0 < found_set u \<or> was_resumed u"

definition is_signaled :: "event_sys \<Rightarrow> nat" where
  "is_signaled z = of_bool (signaled (ev_base (e_event z)))"

lemma wait_ready_effect:
  assumes "wait_ready pol a = (b, a')"
  shows "ev_waiters a' = ev_waiters a \<and> b = signaled (ev_base a)
    \<and> signaled (ev_base a') = (signaled (ev_base a) \<and> pol = Manual_reset)"
  using assms by (cases pol) (auto simp: wait_ready_def try_wait_now_simp auto_reset_def split: if_splits)

text \<open>
  The flag of an automatic event is used up by whoever finds it; a manual one only shows that it
  was set.
\<close>

lemma event_thread_books:
  assumes "event_thread pol p h u z = Some (u', z')"
  shows "(pol = Auto_reset \<longrightarrow> is_signaled z' + found_set u' + has_set u \<le> is_signaled z + found_set u + has_set u')
    \<and> (0 < is_signaled z' + found_set u' \<longrightarrow> 0 < is_signaled z + found_set u + has_set u') \<and> has_set u \<le> has_set u'
    \<and> e_wakes z' + has_woken u = e_wakes z + has_woken u' \<and> has_woken u' \<le> has_set u'
    \<and> was_resumed u' = was_resumed u"
proof (cases u)
  case Th_wait
  with assms show ?thesis
    by (cases pol) (auto simp: is_signaled_def ev_defs set_event_def split: if_splits)
next
  case St_wake
  with assms show ?thesis by (auto simp: is_signaled_def split: if_splits prod.splits option.splits)
next
  case Ew_add
  with assms show ?thesis by (auto simp: is_signaled_def add_wait_waiter_def split: prod.splits)
qed (use assms in \<open>auto simp: is_signaled_def set_event_def ev_set_def ev_reset_def dest!: wait_ready_effect split: prod.splits if_splits\<close>)

text \<open>What a step of a thread does to the waiter list.\<close>

definition parked_in_time :: "reset_policy \<Rightarrow> nat list \<Rightarrow> nat \<Rightarrow> nat \<Rightarrow> nat option \<Rightarrow> bool" where
  "parked_in_time pol js wakes i l \<longleftrightarrow>
     (\<forall>k. l = Some k \<longrightarrow> k \<le> wakes \<and> (pol = Manual_reset \<and> k < wakes \<longrightarrow> i \<in> set js))"

lemma event_thread_queue:
  assumes "await_queue N addr co s0 is js (ev_waiters (e_event z)) (e_mem z)" "i < N"
    and "event_thread pol (addr i) (co i) u z = Some (u', z')" "listed_at u \<noteq> None \<longleftrightarrow> i \<in> set (is @ js)"
  shows "\<exists>is' js'. await_queue N addr co s0 is' js' (ev_waiters (e_event z')) (e_mem z')
    \<and> set (is' @ js') = (if listed_at u' = None then set (is @ js) else insert i (set (is @ js))) \<and> set js \<subseteq> set js'
    \<and> (js' \<noteq> js \<longrightarrow> 0 < e_wakes z') \<and> (pol = Auto_reset \<longrightarrow> length js' + e_wakes z \<le> length js + e_wakes z')
    \<and> (listed_at u' = listed_at u \<or> listed_at u = None \<and> listed_at u' = Some (e_wakes z') \<and> e_wakes z' = e_wakes z)
    \<and> (pol = Manual_reset \<and> e_wakes z' \<noteq> e_wakes z \<longrightarrow> set js' = set (is @ js)) \<and> e_wakes z \<le> e_wakes z'"
proof (cases u)
  case Ew_add
  obtain head' w' where add: "add_waiter (addr i) (ev_waiters (e_event z)) (arm_node (addr i) (co i) 0 (e_mem z)) = (head', w')"
    by fastforce
  have "await_queue N addr co s0 (i # is) js head' w'"
    by (rule await_queue_add [OF assms(1,2) _ add]) (use assms(4) Ew_add in simp)
  with assms(3) Ew_add add show ?thesis
    by (intro two_lists [of _ "i # is" js]) (auto simp: add_wait_waiter_def)
next
  case St_wake
  show ?thesis
  proof (cases pol)
    case Manual_reset
    obtain w' where wk: "wake_all (ev_waiters (e_event z)) (e_mem z) = Some (0, w')"
      and q: "await_queue N addr co s0 [] (js @ is) 0 w'" by (rule await_queue_wake_all [OF assms(1)])
    from assms(3) St_wake Manual_reset wk q show ?thesis
      by (intro two_lists [of _ "[]" "js @ is"]) (auto simp: auto_reset_def)
  next
    case Auto_reset
    show ?thesis
    proof (cases "is")
      case Nil
      with await_queue_wake_one(1) [OF assms(1)]
      have "wake_one (ev_waiters (e_event z)) (e_mem z) = (False, ev_waiters (e_event z), e_mem z)" by simp
      with assms St_wake Auto_reset show ?thesis by (intro two_lists [of _ "is" js]) (auto simp: auto_reset_def)
    next
      case (Cons j is')
      obtain b head' w' where wk: "wake_one (ev_waiters (e_event z)) (e_mem z) = (b, head', w')"
        by (cases "wake_one (ev_waiters (e_event z)) (e_mem z)")
      have "await_queue N addr co s0 is' (js @ [j]) head' w'" by (rule await_queue_wake_one(2) [OF assms(1) Cons wk])
      with assms(3) St_wake Auto_reset wk Cons show ?thesis
        by (intro two_lists [of _ is' "js @ [j]"]) (auto simp: auto_reset_def)
    qed
  qed
next
  case Th_wait
  with assms show ?thesis
    by (intro two_lists [of _ "is" js]) (auto simp: set_event_def split: outcome.splits)
qed ((intro two_lists [of _ "is" js], insert assms,
      force simp: set_event_def dest!: wait_ready_effect split: prod.splits if_splits)+)

section \<open>The invariant\<close>

definition event_queue_inv where
  "event_queue_inv pol N addr co s0 us z \<longleftrightarrow> (\<exists>is js.
     await_queue N addr co s0 is js (ev_waiters (e_event z)) (e_mem z)
     \<and> set (is @ js) = {i. i < N \<and> listed_at (us ! i) \<noteq> None} \<and> {i. i < N \<and> was_resumed (us ! i)} \<subseteq> set js
     \<and> (js \<noteq> [] \<longrightarrow> 0 < e_wakes z) \<and> (pol = Auto_reset \<longrightarrow> length js \<le> e_wakes z)
     \<and> (\<forall>i < N. parked_in_time pol js (e_wakes z) i (listed_at (us ! i))))"

definition event_inv where
  "event_inv pol initial N addr co s0 q \<longleftrightarrow> (case q of (us, z) \<Rightarrow>
     length us = N
     \<and> (pol = Auto_reset \<longrightarrow> is_signaled z + sum_list (map found_set us) \<le> of_bool initial + sum_list (map has_set us))
     \<and> (0 < is_signaled z + sum_list (map found_set us) \<longrightarrow> 0 < of_bool initial + sum_list (map has_set us))
     \<and> e_wakes z = sum_list (map has_woken us)
     \<and> event_queue_inv pol N addr co s0 us z)"

lemma event_queue_thread:
  assumes "event_queue_inv pol N addr co s0 us z" "length us = N" "i < N"
    and "event_thread pol (addr i) (co i) (us ! i) z = Some (u, z')"
  shows "event_queue_inv pol N addr co s0 (us[i := u]) z'"
proof -
  obtain "is" js where q: "await_queue N addr co s0 is js (ev_waiters (e_event z)) (e_mem z)"
    "set (is @ js) = {i. i < N \<and> listed_at (us ! i) \<noteq> None}" "{i. i < N \<and> was_resumed (us ! i)} \<subseteq> set js"
    "js \<noteq> [] \<longrightarrow> 0 < e_wakes z" "pol = Auto_reset \<longrightarrow> length js \<le> e_wakes z"
    "\<forall>i < N. parked_in_time pol js (e_wakes z) i (listed_at (us ! i))"
    using assms(1) by (auto simp: event_queue_inv_def)
  have "listed_at (us ! i) \<noteq> None \<longleftrightarrow> i \<in> set (is @ js)" using q(2) assms(3) by simp
  from event_thread_queue [OF q(1) assms(3,4) this] obtain is' js' where
    q': "await_queue N addr co s0 is' js' (ev_waiters (e_event z')) (e_mem z')"
    "set (is' @ js') = (if listed_at u = None then set (is @ js) else insert i (set (is @ js)))" "set js \<subseteq> set js'"
    "js' \<noteq> js \<longrightarrow> 0 < e_wakes z'" "pol = Auto_reset \<longrightarrow> length js' + e_wakes z \<le> length js + e_wakes z'"
    "listed_at u = listed_at (us ! i) \<or> listed_at (us ! i) = None \<and> listed_at u = Some (e_wakes z') \<and> e_wakes z' = e_wakes z"
    "pol = Manual_reset \<and> e_wakes z' \<noteq> e_wakes z \<longrightarrow> set js' = set (is @ js)" "e_wakes z \<le> e_wakes z'"
    by (elim exE conjE) (rule that)
  have same: "us[i := u] ! j = (if j = i then u else us ! j)" if "j < N" for j using that assms(2,3) by auto
  have wr: "was_resumed u = was_resumed (us ! i)" using event_thread_books [OF assms(4)] by blast
  have "set (is' @ js') = {j. j < N \<and> listed_at (us[i := u] ! j) \<noteq> None}"
    using q'(2,6) q(2) assms(3) by (auto simp: same split: if_splits)
  moreover have "{j. j < N \<and> was_resumed (us[i := u] ! j)} \<subseteq> set js'"
    using q(3) q'(3) wr assms(3) by (auto simp: same split: if_splits)
  moreover have "parked_in_time pol js' (e_wakes z') j (listed_at (us[i := u] ! j))" if j: "j < N" for j
  proof -
    have old: "parked_in_time pol js (e_wakes z) j (listed_at (us ! j))" using q(6) j by simp
    have "parked_in_time pol js' (e_wakes z') j (listed_at (us ! j))"
      unfolding parked_in_time_def
    proof (intro allI impI)
      fix k assume k: "listed_at (us ! j) = Some k"
      then have "j \<in> set (is @ js)" "k \<le> e_wakes z" "pol = Manual_reset \<and> k < e_wakes z \<longrightarrow> j \<in> set js"
        using q(2) j old by (auto simp: parked_in_time_def)
      then show "k \<le> e_wakes z' \<and> (pol = Manual_reset \<and> k < e_wakes z' \<longrightarrow> j \<in> set js')"
        using q'(3,7,8) by (cases "e_wakes z' = e_wakes z") auto
    qed
    then show ?thesis
    proof (cases "j = i \<and> listed_at u \<noteq> listed_at (us ! i)")
      case True
      with q'(6) have "listed_at u = Some (e_wakes z')" by auto
      then show ?thesis using True same [OF j] by (simp add: parked_in_time_def)
    next
      case False
      then have "listed_at (us[i := u] ! j) = listed_at (us ! j)" using same [OF j] by auto
      then show ?thesis
        using \<open>parked_in_time pol js' (e_wakes z') j (listed_at (us ! j))\<close> by simp
    qed
  qed
  moreover have "js' \<noteq> [] \<longrightarrow> 0 < e_wakes z'"
    using q(4) q'(4,8) by (metis less_le_trans)
  moreover have "pol = Auto_reset \<longrightarrow> length js' \<le> e_wakes z'"
    using q(5) q'(5) by (intro impI) (drule (1) mp, drule (1) mp, linarith)
  ultimately show ?thesis using q'(1) unfolding event_queue_inv_def by (intro two_lists [of _ is' js']) simp
qed

lemma event_resume_user:
  assumes "event_resume h u z = Some u'"
  shows "listed_at u' = listed_at u \<and> found_set u' = found_set u \<and> has_set u' = has_set u \<and> has_woken u' = has_woken u
    \<and> h \<in> set (sched (e_mem z))"
  using assms by (cases u) (auto split: if_splits)

lemma event_queue_resume:
  assumes "event_queue_inv pol N addr co s0 us z" "length us = N" "i < N" "event_resume (co i) (us ! i) z = Some u"
  shows "event_queue_inv pol N addr co s0 (us[i := u]) z"
proof -
  obtain "is" js where q: "await_queue N addr co s0 is js (ev_waiters (e_event z)) (e_mem z)"
    "set (is @ js) = {i. i < N \<and> listed_at (us ! i) \<noteq> None}" "{i. i < N \<and> was_resumed (us ! i)} \<subseteq> set js"
    "js \<noteq> [] \<longrightarrow> 0 < e_wakes z" "pol = Auto_reset \<longrightarrow> length js \<le> e_wakes z"
    "\<forall>i < N. parked_in_time pol js (e_wakes z) i (listed_at (us ! i))"
    using assms(1) by (auto simp: event_queue_inv_def)
  note u = event_resume_user [OF assms(4)]
  have same: "us[i := u] ! j = (if j = i then u else us ! j)" if "j < N" for j using that assms(2,3) by auto
  have "i \<in> set js" using await_queue_scheduled(1) [OF q(1) assms(3)] u by simp
  then have "{j. j < N \<and> was_resumed (us[i := u] ! j)} \<subseteq> set js" using q(3) by (auto simp: same split: if_splits)
  moreover have at: "listed_at (us[i := u] ! j) = listed_at (us ! j)" if "j < N" for j using u that by (simp add: same)
  moreover have "{j. j < N \<and> listed_at (us[i := u] ! j) \<noteq> None} = {j. j < N \<and> listed_at (us ! j) \<noteq> None}"
    using at by auto
  ultimately show ?thesis
    using q unfolding event_queue_inv_def by (intro two_lists [of _ "is" js]) simp
qed

text \<open>The flags that the books count, when one user moves.\<close>

lemma event_books_move:
  fixes F S W :: nat
  assumes "(auto \<longrightarrow> sg + F \<le> i0 + S) \<and> (0 < sg + F \<longrightarrow> 0 < i0 + S) \<and> wk = W"
    and "(auto \<longrightarrow> sg' + f' + s \<le> sg + f + s') \<and> (0 < sg' + f' \<longrightarrow> 0 < sg + f + s') \<and> s \<le> s' \<and> wk' + w = wk + w'"
    and "F' + f = F + f'" "S' + s = S + s'" "W' + w = W + w'" "f \<le> F" "s' \<le> S'"
  shows "(auto \<longrightarrow> sg' + F' \<le> i0 + S') \<and> (0 < sg' + F' \<longrightarrow> 0 < i0 + S') \<and> wk' = (W' :: nat)"
proof (intro conjI impI)
  assume "auto"
  with assms show "sg' + F' \<le> i0 + S'" by linarith
next
  assume pos: "0 < sg' + F'"
  have up: "S \<le> S'" using assms(2,4) by linarith
  consider "0 < sg + F" | "0 < s'" | "sg + F = 0" "s' = 0" by linarith
  then show "0 < i0 + S'"
  proof cases
    case 3
    then have "sg' + f' = 0" using assms(2,6) by linarith
    then have "sg' + F' = 0" using 3 assms(3) by linarith
    with pos show ?thesis by simp
  qed (use assms up in linarith)+
qed (use assms in linarith)

lemma sum_list_member: "i < length us \<Longrightarrow> f (us ! i) \<le> sum_list (map f us)" for f :: "'a \<Rightarrow> nat"
  by (intro member_le_sum_list) auto

lemma event_inv_step:
  assumes "event_step pol addr co q q'" "event_inv pol initial N addr co s0 q"
  shows "event_inv pol initial N addr co s0 q'"
  using assms(1)
proof cases
  case (thread i us z u z')
  have inv: "length us = N" "event_queue_inv pol N addr co s0 us z"
    and old: "(pol = Auto_reset \<longrightarrow> is_signaled z + sum_list (map found_set us) \<le> of_bool initial + sum_list (map has_set us))
     \<and> (0 < is_signaled z + sum_list (map found_set us) \<longrightarrow> 0 < of_bool initial + sum_list (map has_set us))
     \<and> e_wakes z = sum_list (map has_woken us)"
    using assms(2) unfolding thread(1) event_inv_def prod.case by simp_all
  have "event_queue_inv pol N addr co s0 (us[i := u]) z'"
    by (rule event_queue_thread [OF inv(2,1) _ thread(4)]) (use thread(3) inv in simp)
  moreover have "(pol = Auto_reset \<longrightarrow> is_signaled z' + sum_list (map found_set (us[i := u])) \<le> of_bool initial + sum_list (map has_set (us[i := u])))
     \<and> (0 < is_signaled z' + sum_list (map found_set (us[i := u])) \<longrightarrow> 0 < of_bool initial + sum_list (map has_set (us[i := u])))
     \<and> e_wakes z' = sum_list (map has_woken (us[i := u]))"
  proof (rule event_books_move [OF old _ sum_list_map_update [OF thread(3), of found_set u]
      sum_list_map_update [OF thread(3), of has_set u] sum_list_map_update [OF thread(3), of has_woken u]
      sum_list_member [OF thread(3)]])
    show "has_set u \<le> sum_list (map has_set (us[i := u]))"
      using sum_list_member [of i "us[i := u]" has_set] thread(3) by simp
  qed (insert event_thread_books [OF thread(4)], elim conjE, intro conjI; assumption)
  ultimately show ?thesis unfolding thread(2) event_inv_def prod.case length_list_update using inv(1) by simp
next
  case (resume i us z u)
  have inv: "length us = N" "event_queue_inv pol N addr co s0 us z" using assms(2) resume by (simp_all add: event_inv_def)
  have "event_queue_inv pol N addr co s0 (us[i := u]) z"
    by (rule event_queue_resume [OF inv(2,1) _ resume(4)]) (use resume(3) inv in simp)
  moreover have "sum_list (map found_set (us[i := u])) = sum_list (map found_set us)"
    "sum_list (map has_set (us[i := u])) = sum_list (map has_set us)"
    "sum_list (map has_woken (us[i := u])) = sum_list (map has_woken us)"
    using event_resume_user [OF resume(4)] sum_list_map_update [OF resume(3), of found_set u]
      sum_list_map_update [OF resume(3), of has_set u] sum_list_map_update [OF resume(3), of has_woken u] by linarith+
  ultimately show ?thesis using assms(2) unfolding resume(1,2) event_inv_def prod.case length_list_update by simp
qed

lemma fresh_event_books:
  assumes "\<forall>u \<in> set us. event_fresh u"
  shows "sum_list (map found_set us) = 0 \<and> sum_list (map has_set us) = 0 \<and> sum_list (map has_woken us) = 0
    \<and> (\<forall>u \<in> set us. listed_at u = None \<and> \<not> was_resumed u)"
proof -
  have f: "found_set u = 0 \<and> has_set u = 0 \<and> has_woken u = 0 \<and> listed_at u = None \<and> \<not> was_resumed u"
    if "event_fresh u" for u using that by (cases u) simp_all
  show ?thesis using assms by (induction us) (auto simp: f)
qed

lemma event_inv_start:
  assumes "own_nodes (length us) addr co (sched w)" "\<forall>u \<in> set us. event_fresh u"
  shows "event_inv pol initial (length us) addr co (sched w) (event_start initial us w)"
proof -
  have "event_queue_inv pol (length us) addr co (sched w) us \<lparr>e_event = new_async_event initial, e_mem = w, e_wakes = 0\<rparr>"
    unfolding event_queue_inv_def
    using await_queue_new [OF assms(1)] fresh_event_books [OF assms(2)]
    by (intro two_lists [of _ "[]" "[]"]) (auto simp: new_async_event_def parked_in_time_def)
  then show ?thesis using fresh_event_books [OF assms(2)]
    by (simp add: event_inv_def event_start_def is_signaled_def new_async_event_def del: sum_list_eq_0_iff)
qed

lemma event_inv_reach:
  assumes "own_nodes (length us) addr co (sched w)" "\<forall>u \<in> set us. event_fresh u"
    and "event_reach pol addr co (event_start initial us w) q"
  shows "event_inv pol initial (length us) addr co (sched w) q"
  using assms(3) by induction (use event_inv_start [OF assms(1,2)] event_inv_step in blast)+

lemma went_on_found_or_resumed:
  "length (filter went_on us) \<le> sum_list (map found_set us) + length (filter was_resumed us)"
proof (induction us)
  case (Cons u us)
  have "of_bool (went_on u) \<le> found_set u + of_bool (was_resumed u)" by (cases u) (auto simp: went_on_def)
  with Cons show ?case by (auto split: if_splits)
qed simp

lemma woken_at_most_set: "sum_list (map has_woken us) \<le> sum_list (map has_set us)"
proof (induction us)
  case (Cons u us)
  have "has_woken u \<le> has_set u" by (cases u) simp_all
  with Cons show ?case by simp
qed simp

section \<open>The end of a run\<close>

fun event_left :: "event_user \<Rightarrow> nat" where
  "event_left Ew_ready = 4" | "event_left Ew_add = 3" | "event_left (Ew_listed k) = 2" | "event_left (Ew_overtaken k) = 1"
| "event_left (Ew_suspended k) = 1" | "event_left Th_wait = 1" | "event_left Th_try = 1" | "event_left St_set = 2"
| "event_left St_wake = 1" | "event_left Rs_reset = 1" | "event_left u = 0"

text \<open>Where a user has no step; the last case, a waiter list that runs into itself, does not occur.\<close>

definition event_at_rest :: "reset_policy \<Rightarrow> coro \<Rightarrow> event_user \<Rightarrow> event_sys \<Rightarrow> bool" where
  "event_at_rest pol h u z \<longleftrightarrow> (case u of
     Ew_passed \<Rightarrow> True | Ew_suspended k \<Rightarrow> h \<notin> set (sched (e_mem z)) | Ew_resumed k \<Rightarrow> True
   | Th_wait \<Rightarrow> is_signaled z = 0 | Th_waited \<Rightarrow> True | Th_refused \<Rightarrow> True | St_done \<Rightarrow> True | Rs_done \<Rightarrow> True
   | St_wake \<Rightarrow> pol = Manual_reset \<and> wake_all (ev_waiters (e_event z)) (e_mem z) = None
   | _ \<Rightarrow> False)"

lemma event_at_rest_iff:
  "event_at_rest pol h u z \<longleftrightarrow> event_thread pol p h u z = None \<and> event_resume h u z = None"
  by (cases u; cases pol) (auto simp: event_at_rest_def is_signaled_def ev_defs split: prod.splits if_splits option.splits)

lemma event_thread_left: "event_thread pol p h u z = Some (u', z') \<Longrightarrow> event_left u' < event_left u"
  by (cases u) (auto split: prod.splits if_splits outcome.splits option.splits)

lemma event_resume_left: "event_resume h u z = Some u' \<Longrightarrow> event_left u' < event_left u"
  by (cases u) (auto split: if_splits)

interpretation event_users: awaiting_users "\<lambda>i. event_thread pol (addr i) (co i)" "\<lambda>i. event_resume (co i)"
  "event_step pol addr co" event_left "\<lambda>i. event_at_rest pol (co i)" for pol addr co
proof
  fix us z us' z'
  show "event_step pol addr co (us, z) (us', z') \<longleftrightarrow> (\<exists>i u. i < length us \<and> us' = us[i := u]
      \<and> (event_thread pol (addr i) (co i) (us ! i) z = Some (u, z') \<or> event_resume (co i) (us ! i) z = Some u \<and> z' = z))"
    by (auto elim!: event_stepE intro: event_step.intros)
qed (auto simp: event_thread_left event_resume_left event_at_rest_iff)

section \<open>Properties\<close>

text \<open>
  C23. What an asynchronous event admits, in every state of every interleaving of coroutines and
  threads that wait, of calls of \<open>set\<close> and of \<open>reset\<close>: nobody goes on unless the event was set at
  the start or by a call of \<open>set\<close>; no coroutine is scheduled twice, and none is resumed without
  having been scheduled; with automatic reset at most one user goes on for the initial state and
  two for each \<open>set\<close>, one who finds the flag and one who is woken, since the wake-up does not use
  up the flag; with manual reset a coroutine whose node was on the list when a \<open>set\<close> woke the list
  is scheduled.
\<close>

theorem async_event_admits:
  assumes "own_nodes (length us) addr co (sched w)" "\<forall>u \<in> set us. event_fresh u"
    and "event_reach pol addr co (event_start initial us w) (us', z)"
  shows "(0 < length (filter went_on us') \<longrightarrow> initial \<or> 0 < sum_list (map has_set us'))
    \<and> (\<forall>i < length us. count_list (sched (e_mem z)) (co i) \<le> 1 \<and> (was_resumed (us' ! i) \<longrightarrow> co i \<in> set (sched (e_mem z))))
    \<and> (pol = Auto_reset \<longrightarrow> length (filter went_on us') \<le> of_bool initial + 2 * sum_list (map has_set us'))
    \<and> (\<forall>i < length us. \<forall>k. pol = Manual_reset \<and> listed_at (us' ! i) = Some k \<and> k < sum_list (map has_woken us')
         \<longrightarrow> co i \<in> set (sched (e_mem z)))"
proof -
  have inv: "length us' = length us" "e_wakes z = sum_list (map has_woken us')"
    "pol = Auto_reset \<longrightarrow> is_signaled z + sum_list (map found_set us') \<le> of_bool initial + sum_list (map has_set us')"
    "0 < is_signaled z + sum_list (map found_set us') \<longrightarrow> 0 < of_bool initial + sum_list (map has_set us')"
    "event_queue_inv pol (length us) addr co (sched w) us' z"
    using event_inv_reach [OF assms] by (simp_all add: event_inv_def)
  from inv(5) obtain "is" js where q:
    "await_queue (length us) addr co (sched w) is js (ev_waiters (e_event z)) (e_mem z)"
    "{i. i < length us \<and> was_resumed (us' ! i)} \<subseteq> set js" "js \<noteq> [] \<longrightarrow> 0 < e_wakes z"
    "pol = Auto_reset \<longrightarrow> length js \<le> e_wakes z"
    "\<forall>i < length us. parked_in_time pol js (e_wakes z) i (listed_at (us' ! i))"
    by (auto simp: event_queue_inv_def)
  have resumed: "length (filter was_resumed us') \<le> length js"
  proof -
    have "card {i. i < length us' \<and> was_resumed (us' ! i)} \<le> card (set js)" using q(2) inv(1) by (intro card_mono) auto
    then show ?thesis using card_length [of js] by (simp add: length_filter_conv_card)
  qed
  have a: "0 < length (filter went_on us') \<longrightarrow> initial \<or> 0 < sum_list (map has_set us')"
  proof
    assume "0 < length (filter went_on us')"
    then consider "0 < sum_list (map found_set us')" | "0 < length js"
      using went_on_found_or_resumed [of us'] resumed by linarith
    then have "0 < of_bool initial + sum_list (map has_set us')"
    proof cases
      case 2
      then have "0 < sum_list (map has_woken us')" using q(3) inv(2) by auto
      then show ?thesis using woken_at_most_set [of us'] by linarith
    qed (use inv(4) in linarith)
    then show "initial \<or> 0 < sum_list (map has_set us')" by (cases initial) simp_all
  qed
  have b: "count_list (sched (e_mem z)) (co i) \<le> 1 \<and> (was_resumed (us' ! i) \<longrightarrow> co i \<in> set (sched (e_mem z)))"
    if "i < length us" for i
    using await_queue_scheduled [OF q(1) that] q(2) that by auto
  have c: "length (filter went_on us') \<le> of_bool initial + 2 * sum_list (map has_set us')" if "pol = Auto_reset"
  proof -
    have "length js \<le> sum_list (map has_set us')" using q(4) that inv(2) woken_at_most_set [of us'] by simp
    moreover have "sum_list (map found_set us') \<le> of_bool initial + sum_list (map has_set us')" using inv(3) that by simp
    ultimately show ?thesis using went_on_found_or_resumed [of us'] resumed by linarith
  qed
  have d: "co i \<in> set (sched (e_mem z))"
    if "i < length us" "pol = Manual_reset" "listed_at (us' ! i) = Some k" "k < sum_list (map has_woken us')" for i k
    using q(5) that inv(2) await_queue_scheduled(1) [OF q(1) that(1)] by (simp add: parked_in_time_def)
  show ?thesis using a b c d by simp
qed

text \<open>
  C37. A run of an asynchronous event with manual reset ends, and a coroutine that is left suspended
  then put its node on the list after the wake-ups of all calls of \<open>set\<close>: there is no other way to
  be left behind.
\<close>

theorem async_event_leaves_late_only:
  assumes "own_nodes (length us) addr co (sched w)" "\<forall>u \<in> set us. event_fresh u"
    and "event_reach Manual_reset addr co (event_start initial us w) (us', z)"
    and "\<nexists>q. event_step Manual_reset addr co (us', z) q" "i < length us"
  shows "wfp (\<lambda>q' q. event_step Manual_reset addr co q q')
    \<and> event_at_rest Manual_reset (co i) (us' ! i) z \<and> us' ! i \<noteq> St_wake
    \<and> (\<forall>k. us' ! i = Ew_suspended k \<longrightarrow> k = sum_list (map has_set us'))"
proof -
  have inv: "length us' = length us" "e_wakes z = sum_list (map has_woken us')"
    "event_queue_inv Manual_reset (length us) addr co (sched w) us' z"
    using event_inv_reach [OF assms(1-3)] by (simp_all add: event_inv_def)
  from inv(3) obtain "is" js where q:
    "await_queue (length us) addr co (sched w) is js (ev_waiters (e_event z)) (e_mem z)"
    "\<forall>i < length us. parked_in_time Manual_reset js (e_wakes z) i (listed_at (us' ! i))"
    by (auto simp: event_queue_inv_def)
  have rest: "\<forall>i < length us. event_at_rest Manual_reset (co i) (us' ! i) z"
    using event_users.stuck_iff [where pol = Manual_reset and addr = addr and co = co and us = us' and z = z] assms(4) inv(1) by simp
  obtain w' where wk: "wake_all (ev_waiters (e_event z)) (e_mem z) = Some (0, w')"
    by (rule await_queue_wake_all [OF q(1)])
  have no_wake: "u \<noteq> St_wake \<and> u \<noteq> St_set" if "u \<in> set us'" for u
    using that rest wk inv(1) by (auto simp: in_set_conv_nth event_at_rest_def)
  have "has_woken u = has_set u" if "u \<in> set us'" for u
    using no_wake [OF that] by (cases u) simp_all
  then have sums: "sum_list (map has_woken us') = sum_list (map has_set us')" by (metis map_cong)
  have "k = sum_list (map has_set us')" if "us' ! i = Ew_suspended k" for k
  proof -
    have "co i \<notin> set (sched (e_mem z))" using rest assms(5) that by (auto simp: event_at_rest_def)
    then have "i \<notin> set js" using await_queue_scheduled(1) [OF q(1) assms(5)] by simp
    then show ?thesis using q(2) assms(5) that inv(2) sums by (auto simp: parked_in_time_def)
  qed
  then show ?thesis using event_users.runs_end rest assms(5) no_wake inv(1) by (metis nth_mem)
qed

section \<open>Runs by a schedule\<close>

text \<open>A step of a thread, \<open>(True, i)\<close>, or of a coroutine, \<open>(False, i)\<close>.\<close>

fun event_run ::
  "reset_policy \<Rightarrow> (nat \<Rightarrow> uintptr) \<Rightarrow> (nat \<Rightarrow> coro) \<Rightarrow> (bool \<times> nat) list \<Rightarrow> event_user list \<times> event_sys
     \<Rightarrow> (event_user list \<times> event_sys) option"
where
  "event_run pol addr co [] q = Some q"
| "event_run pol addr co ((thr, i) # is) (us, z) =
     (if i < length us then
        case (if thr then event_thread pol (addr i) (co i) (us ! i) z
              else map_option (\<lambda>u. (u, z)) (event_resume (co i) (us ! i) z)) of
          None \<Rightarrow> None | Some (u, z') \<Rightarrow> event_run pol addr co is (us[i := u], z')
      else None)"

lemma event_run_reach:
  assumes "event_run pol addr co is q = Some q'" "event_reach pol addr co q0 q"
  shows "event_reach pol addr co q0 q'"
  using assms
proof (induction "is" arbitrary: q)
  case (Cons e "is")
  obtain thr i us z where e: "e = (thr, i)" "q = (us, z)" by (cases e, cases q)
  with Cons.prems(1) obtain u z' where st: "i < length us"
    "(if thr then event_thread pol (addr i) (co i) (us ! i) z
      else map_option (\<lambda>u. (u, z)) (event_resume (co i) (us ! i) z)) = Some (u, z')"
    "event_run pol addr co is (us[i := u], z') = Some q'"
    by (auto split: if_splits option.splits)
  have "event_step pol addr co q (us[i := u], z')"
    unfolding e using st by (cases thr) (auto intro: event_step.intros)
  with Cons st(3) show ?case by (blast intro: event_reach.step)
qed simp

lemmas event_eval = event_start_def new_async_event_def wait_ready_def try_wait_now_simp auto_reset_def
  add_wait_waiter_def add_waiter_def arm_node_def ev_set_def set_event_def wake_one_def wake_all_def wake_walk.simps
  fire_node_def schedule_call_def sample_mem_def new_node_def Let_def

text \<open>One \<open>set\<close> of an automatic event wakes a coroutine and lets a thread through as well.\<close>

lemma event_over_admitted:
  obtains z where "event_reach Auto_reset three_nodes three_handles (event_start False [Ew_ready, St_set, Th_try] sample_mem)
      ([Ew_resumed 0, St_done, Th_waited], z)"
proof -
  have "\<exists>z. event_run Auto_reset three_nodes three_handles
        [(True, 0), (True, 0), (True, 0), (True, 1), (True, 1), (True, Suc (Suc 0)), (False, 0)]
        (event_start False [Ew_ready, St_set, Th_try] sample_mem) = Some ([Ew_resumed 0, St_done, Th_waited], z)"
    by (simp add: event_eval three_nodes_def three_handles_def)
  with that event_run_reach [OF _ event_reach.start] show ?thesis by blast
qed

text \<open>A coroutine sees the event not set, then it is set, then the coroutine goes on the list.\<close>

lemma event_left_behind:
  obtains z where "event_reach Manual_reset three_nodes three_handles (event_start False [Ew_ready, St_set] sample_mem)
      ([Ew_suspended 1, St_done], z)" "sched (e_mem z) = []"
proof -
  have "\<exists>z. event_run Manual_reset three_nodes three_handles [(True, 0), (True, 1), (True, 1), (True, 0), (True, 0)]
        (event_start False [Ew_ready, St_set] sample_mem) = Some ([Ew_suspended 1, St_done], z) \<and> sched (e_mem z) = []"
    by (simp add: event_eval three_nodes_def three_handles_def)
  with that event_run_reach [OF _ event_reach.start] show ?thesis by blast
qed

section \<open>Witnesses\<close>

theorem async_event_admits_witness:
  "\<exists>z. event_reach Auto_reset three_nodes three_handles (event_start False [Ew_ready, St_set, Th_try] sample_mem)
         ([Ew_resumed 0, St_done, Th_waited], z)
     \<and> 5 \<in> set (sched (e_mem z)) \<and> length (filter went_on [Ew_resumed 0, St_done, Th_waited]) = 2"
proof -
  obtain z where r: "event_reach Auto_reset three_nodes three_handles (event_start False [Ew_ready, St_set, Th_try] sample_mem)
      ([Ew_resumed 0, St_done, Th_waited], z)" by (rule event_over_admitted)
  have own: "own_nodes (length [Ew_ready, St_set, Th_try]) three_nodes three_handles (sched sample_mem)"
    using own_three by (simp add: sample_mem_def)
  from async_event_admits [OF own _ r]
  have "\<forall>i < 3. was_resumed ([Ew_resumed 0, St_done, Th_waited] ! i) \<longrightarrow> three_handles i \<in> set (sched (e_mem z))" by simp
  then have "three_handles 0 \<in> set (sched (e_mem z))" by (rule allE [of _ 0]) simp
  with r show ?thesis by (intro exI [of _ z]) (simp add: went_on_def three_handles_def)
qed

theorem async_event_leaves_late_only_witness:
  "\<exists>z. event_reach Manual_reset three_nodes three_handles (event_start False [Ew_ready, St_set] sample_mem)
         ([Ew_suspended 1, St_done], z) \<and> event_at_rest Manual_reset 5 (Ew_suspended 1) z"
proof -
  obtain z where r: "event_reach Manual_reset three_nodes three_handles (event_start False [Ew_ready, St_set] sample_mem)
      ([Ew_suspended 1, St_done], z)" "sched (e_mem z) = []" by (rule event_left_behind)
  have own: "own_nodes (length [Ew_ready, St_set]) three_nodes three_handles (sched sample_mem)"
    using own_three by (simp add: sample_mem_def)
  have stuck: "\<nexists>q. event_step Manual_reset three_nodes three_handles ([Ew_suspended 1, St_done], z) q"
    unfolding event_users.stuck_iff using r(2) by (auto simp: event_at_rest_def less_Suc_eq)
  from async_event_leaves_late_only [OF own _ r(1) stuck, of 0] r(1) show ?thesis
    by (intro exI [of _ z]) (simp add: three_handles_def)
qed

end
