(* ===== verification/AsyncValue.thy ===== *)
theory AsyncValue
  imports SharedValue AwaitQueue
begin

text \<open>
  An \<open>async_shared_value\<close> among its users (\<open>include/shared_state/shared_value.hpp\<close>): coroutines in
  \<open>co_await wait_for_change_async(since)\<close> and calls of all operations of the value.  Each locked
  section, each look at the version and each call on the waiter list is a step of its own.
\<close>

section \<open>The users\<close>

text \<open>
  \<open>Vw\<close>: \<open>wait_for_change_async\<close>; once its node is on the list the user keeps the number of
  wake-ups before.  The second look at the version in \<open>suspend_impl\<close> has an empty body; the
  coroutine can be resumed before it (\<open>Vw_overtaken\<close>).  \<open>Vw_load\<close>: at \<open>resume_impl\<close>.  \<open>Op\<close>: a call,
  with the \<open>wake_all\<close> after it if there is one.  A timed wait that times out changes nothing and
  is left out here.
\<close>

datatype ('a, 'b) value_user = Vw_ready u64 | Vw_add | Vw_listed nat | Vw_overtaken nat | Vw_suspended nat
  | Vw_load "nat option" | Vw_done "nat option" 'a
  | Op_call "('a, 'b) sv_op" | Op_wake | Op_done

text \<open>\<open>v_log\<close>: the operations so far with their answers, the last one first.\<close>

record ('a, 'b) value_sys =
  v_value :: "'a async_value"
  v_mem :: async_mem
  v_wakes :: nat
  v_log :: "(('a, 'b) sv_op \<times> ('a, 'b) sv_result) list"

text \<open>
  The operations that \<open>async_shared_value\<close> overrides to wake the list; the others are inherited.
\<close>

fun wakes_waiters :: "('a, 'b) sv_op \<Rightarrow> ('a, 'b) sv_result \<Rightarrow> bool" where
  "wakes_waiters (Store v) r \<longleftrightarrow> True"
| "wakes_waiters (Exchange v) r \<longleftrightarrow> True"
| "wakes_waiters (Modify f) r \<longleftrightarrow> True"
| "wakes_waiters (Compare_exchange e d) r \<longleftrightarrow> (case r of Sv_cas success e' \<Rightarrow> success | _ \<Rightarrow> False)"
| "wakes_waiters x r \<longleftrightarrow> False"

fun value_thread ::
  "uintptr \<Rightarrow> coro \<Rightarrow> ('a, 'b) value_user \<Rightarrow> ('a, 'b) value_sys \<Rightarrow> (('a, 'b) value_user \<times> ('a, 'b) value_sys) option"
where
  "value_thread p h (Vw_ready since) z =
     Some (if change_ready since (v_value z) then Vw_load None else Vw_add, z)"
| "value_thread p h Vw_add z =
     (case add_change_waiter p (v_value z) (arm_node p h 0 (v_mem z)) of
        (a, w) \<Rightarrow> Some (Vw_listed (v_wakes z), z\<lparr>v_value := a, v_mem := w\<rparr>))"
| "value_thread p h (Vw_listed k) z = Some (Vw_suspended k, z)"
| "value_thread p h (Vw_overtaken k) z = Some (Vw_load (Some k), z)"
| "value_thread p h (Vw_load l) z =
     Some (Vw_done l (change_resume (v_value z)), z\<lparr>v_log := (Load, Sv_value (change_resume (v_value z))) # v_log z\<rparr>)"
| "value_thread p h (Op_call x) z =
     (case sv_exec x (av_base (v_value z)) of
        Wait c t \<Rightarrow> None
      | Ret s ns r \<Rightarrow> Some (if wakes_waiters x r then Op_wake else Op_done,
          z\<lparr>v_value := (v_value z)\<lparr>av_base := s\<rparr>, v_log := (x, r) # v_log z\<rparr>))"
| "value_thread p h Op_wake z =
     (case wake_all (av_waiters (v_value z)) (v_mem z) of
        None \<Rightarrow> None
      | Some (head, w) \<Rightarrow> Some (Op_done, z\<lparr>v_value := (v_value z)\<lparr>av_waiters := head\<rparr>, v_mem := w, v_wakes := Suc (v_wakes z)\<rparr>))"
| "value_thread p h u z = None"

fun value_resume :: "coro \<Rightarrow> ('a, 'b) value_user \<Rightarrow> ('a, 'b) value_sys \<Rightarrow> ('a, 'b) value_user option" where
  "value_resume h (Vw_listed k) z = (if h \<in> set (sched (v_mem z)) then Some (Vw_overtaken k) else None)"
| "value_resume h (Vw_suspended k) z = (if h \<in> set (sched (v_mem z)) then Some (Vw_load (Some k)) else None)"
| "value_resume h u z = None"

inductive value_step ::
  "(nat \<Rightarrow> uintptr) \<Rightarrow> (nat \<Rightarrow> coro) \<Rightarrow> ('a, 'b) value_user list \<times> ('a, 'b) value_sys
     \<Rightarrow> ('a, 'b) value_user list \<times> ('a, 'b) value_sys \<Rightarrow> bool"
  for addr co where
  thread: "i < length us \<Longrightarrow> value_thread (addr i) (co i) (us ! i) z = Some (u, z') \<Longrightarrow>
    value_step addr co (us, z) (us[i := u], z')"
| resume: "i < length us \<Longrightarrow> value_resume (co i) (us ! i) z = Some u \<Longrightarrow> value_step addr co (us, z) (us[i := u], z)"

inductive value_reach ::
  "(nat \<Rightarrow> uintptr) \<Rightarrow> (nat \<Rightarrow> coro) \<Rightarrow> ('a, 'b) value_user list \<times> ('a, 'b) value_sys
     \<Rightarrow> ('a, 'b) value_user list \<times> ('a, 'b) value_sys \<Rightarrow> bool"
  for addr co q0 where
  start: "value_reach addr co q0 q0"
| step: "value_reach addr co q0 q \<Longrightarrow> value_step addr co q q' \<Longrightarrow> value_reach addr co q0 q'"

inductive_cases value_stepE: "value_step addr co (us, z) q"

fun value_fresh :: "('a, 'b) value_user \<Rightarrow> bool" where
  "value_fresh (Vw_ready since) \<longleftrightarrow> True" | "value_fresh (Op_call x) \<longleftrightarrow> True" | "value_fresh u \<longleftrightarrow> False"

definition value_start ::
  "'a \<Rightarrow> ('a, 'b) value_user list \<Rightarrow> async_mem \<Rightarrow> ('a, 'b) value_user list \<times> ('a, 'b) value_sys" where
  "value_start v0 us w = (us, \<lparr>v_value = new_async_value v0, v_mem = w, v_wakes = 0, v_log = []\<rparr>)"

section \<open>The invariant\<close>

text \<open>When the node of a user was put on the list, whether its coroutine was resumed from it.\<close>

fun listed_at :: "('a, 'b) value_user \<Rightarrow> nat option" where
  "listed_at (Vw_listed k) = Some k" | "listed_at (Vw_overtaken k) = Some k" | "listed_at (Vw_suspended k) = Some k"
| "listed_at (Vw_load l) = l" | "listed_at (Vw_done l v) = l" | "listed_at u = None"

fun was_resumed :: "('a, 'b) value_user \<Rightarrow> bool" where
  "was_resumed (Vw_overtaken k) \<longleftrightarrow> True" | "was_resumed (Vw_load l) \<longleftrightarrow> l \<noteq> None"
| "was_resumed (Vw_done l v) \<longleftrightarrow> l \<noteq> None" | "was_resumed u \<longleftrightarrow> False"

text \<open>Calls that have changed the value and still have to wake the list.\<close>

fun wake_owed :: "('a, 'b) value_user \<Rightarrow> nat" where
  "wake_owed Op_wake = 1" | "wake_owed u = 0"

definition waking :: "(('a, 'b) sv_op \<times> ('a, 'b) sv_result) list \<Rightarrow> nat" where
  "waking l = length (filter (\<lambda>(x, r). wakes_waiters x r) l)"

text \<open>A value that was returned was loaded.\<close>

fun loaded :: "(('a, 'b) sv_op \<times> ('a, 'b) sv_result) list \<Rightarrow> ('a, 'b) value_user \<Rightarrow> bool" where
  "loaded log (Vw_done l v) \<longleftrightarrow> (Load, Sv_value v) \<in> set log" | "loaded log u \<longleftrightarrow> True"

lemma loaded_mono: "loaded log u \<Longrightarrow> set log \<subseteq> set log' \<Longrightarrow> loaded log' u"
  by (cases u) auto

text \<open>What a step of a thread does to the register and to the log.\<close>

lemma value_thread_register:
  assumes "value_thread p h u z = Some (u', z')" "is_register v0 (av_base (v_value z)) (v_log z)"
  shows "is_register v0 (av_base (v_value z')) (v_log z')"
proof (cases u)
  case (Vw_load l)
  with assms show ?thesis
    by (auto simp: change_resume_def intro!: is_register_snoc)
next
  case (Op_call x)
  then obtain s ns r where ex: "sv_exec x (av_base (v_value z)) = Ret s ns r"
    and z': "z' = z\<lparr>v_value := (v_value z)\<lparr>av_base := s\<rparr>, v_log := (x, r) # v_log z\<rparr>"
    using assms(1) by (auto split: outcome.splits)
  have "is_register v0 s ((x, r) # v_log z)" by (rule is_register_exec [OF assms(2) ex])
  then show ?thesis by (simp add: z')
next
  case Vw_add
  with assms show ?thesis by (auto simp: add_change_waiter_def split: prod.splits)
qed (use assms in \<open>auto split: prod.splits option.splits\<close>)

lemma value_thread_log:
  assumes "value_thread p h u z = Some (u', z')"
  shows "set (v_log z) \<subseteq> set (v_log z') \<and> loaded (v_log z') u'
    \<and> v_wakes z' + wake_owed u' + waking (v_log z) = v_wakes z + wake_owed u + waking (v_log z')
    \<and> was_resumed u' = was_resumed u"
  using assms
  by (cases u) (auto simp: waking_def split: prod.splits option.splits outcome.splits if_splits)

text \<open>What a step of a thread does to the waiter list.\<close>

lemma value_thread_queue:
  assumes "await_queue N addr co s0 is js (av_waiters (v_value z)) (v_mem z)" "i < N"
    and "value_thread (addr i) (co i) u z = Some (u', z')" "listed_at u \<noteq> None \<longleftrightarrow> i \<in> set (is @ js)"
  shows "\<exists>is' js'. await_queue N addr co s0 is' js' (av_waiters (v_value z')) (v_mem z')
    \<and> set (is' @ js') = (if listed_at u' = None then set (is @ js) else insert i (set (is @ js))) \<and> set js \<subseteq> set js'
    \<and> (listed_at u' = listed_at u \<or> listed_at u = None \<and> listed_at u' = Some (v_wakes z'))
    \<and> v_wakes z \<le> v_wakes z' \<and> (v_wakes z' \<noteq> v_wakes z \<longrightarrow> set js' = set (is @ js))"
proof (cases u)
  case Vw_add
  obtain head' w' where add: "add_waiter (addr i) (av_waiters (v_value z)) (arm_node (addr i) (co i) 0 (v_mem z)) = (head', w')"
    by fastforce
  have "await_queue N addr co s0 (i # is) js head' w'"
    by (rule await_queue_add [OF assms(1,2) _ add]) (use assms(4) Vw_add in simp)
  with assms(3) Vw_add add show ?thesis
    by (intro two_lists [of _ "i # is" js]) (auto simp: add_change_waiter_def)
next
  case Op_wake
  obtain w' where wk: "wake_all (av_waiters (v_value z)) (v_mem z) = Some (0, w')"
    and q: "await_queue N addr co s0 [] (js @ is) 0 w'" by (rule await_queue_wake_all [OF assms(1)])
  from assms(3) Op_wake wk q show ?thesis
    by (intro two_lists [of _ "[]" "js @ is"]) auto
next
  case (Op_call x)
  with assms show ?thesis by (intro two_lists [of _ "is" js]) (auto split: outcome.splits if_splits)
qed ((intro two_lists [of _ "is" js], insert assms, force split: prod.splits if_splits)+)

definition value_queue_inv where
  "value_queue_inv N addr co s0 us z \<longleftrightarrow> (\<exists>is js.
     await_queue N addr co s0 is js (av_waiters (v_value z)) (v_mem z)
     \<and> set (is @ js) = {i. i < N \<and> listed_at (us ! i) \<noteq> None} \<and> {i. i < N \<and> was_resumed (us ! i)} \<subseteq> set js
     \<and> (\<forall>i < N. in_time js (v_wakes z) i (listed_at (us ! i))))"

definition value_inv where
  "value_inv v0 N addr co s0 q \<longleftrightarrow> (case q of (us, z) \<Rightarrow>
     length us = N \<and> is_register v0 (av_base (v_value z)) (v_log z) \<and> (\<forall>u \<in> set us. loaded (v_log z) u)
     \<and> v_wakes z + sum_list (map wake_owed us) = waking (v_log z)
     \<and> value_queue_inv N addr co s0 us z)"

lemma value_queue_thread:
  assumes "value_queue_inv N addr co s0 us z" "length us = N" "i < N"
    and "value_thread (addr i) (co i) (us ! i) z = Some (u, z')"
  shows "value_queue_inv N addr co s0 (us[i := u]) z'"
proof -
  obtain "is" js where q: "await_queue N addr co s0 is js (av_waiters (v_value z)) (v_mem z)"
    "set (is @ js) = {i. i < N \<and> listed_at (us ! i) \<noteq> None}" "{i. i < N \<and> was_resumed (us ! i)} \<subseteq> set js"
    "\<forall>i < N. in_time js (v_wakes z) i (listed_at (us ! i))"
    using assms(1) by (auto simp: value_queue_inv_def)
  have "listed_at (us ! i) \<noteq> None \<longleftrightarrow> i \<in> set (is @ js)" using q(2) assms(3) by simp
  from value_thread_queue [OF q(1) assms(3,4) this] obtain is' js' where
    q': "await_queue N addr co s0 is' js' (av_waiters (v_value z')) (v_mem z')"
    "set (is' @ js') = (if listed_at u = None then set (is @ js) else insert i (set (is @ js)))" "set js \<subseteq> set js'"
    "listed_at u = listed_at (us ! i) \<or> listed_at (us ! i) = None \<and> listed_at u = Some (v_wakes z')"
    "v_wakes z \<le> v_wakes z'" "v_wakes z' \<noteq> v_wakes z \<longrightarrow> set js' = set (is @ js)"
    by (elim exE conjE) (rule that)
  have same: "us[i := u] ! j = (if j = i then u else us ! j)" if "j < N" for j using that assms(2,3) by auto
  have wr: "was_resumed u = was_resumed (us ! i)" using value_thread_log [OF assms(4)] by blast
  have "set (is' @ js') = {j. j < N \<and> listed_at (us[i := u] ! j) \<noteq> None}"
    using q'(2,4) q(2) assms(3) by (auto simp: same split: if_splits)
  moreover have "{j. j < N \<and> was_resumed (us[i := u] ! j)} \<subseteq> set js'"
    using q(3) q'(3) wr assms(3) by (auto simp: same split: if_splits)
  moreover have "in_time js' (v_wakes z') j (listed_at (us[i := u] ! j))" if j: "j < N" for j
  proof -
    have "in_time js' (v_wakes z') j (listed_at (us ! j))"
      by (rule in_time_mono [OF _ _ q'(3,5,6)]) (use q(2,4) j in auto)
    then show ?thesis using q'(4) by (auto simp: same [OF j])
  qed
  ultimately show ?thesis using q'(1) unfolding value_queue_inv_def by (intro two_lists [of _ is' js']) simp
qed

lemma value_resume_user:
  assumes "value_resume h u z = Some u'"
  shows "listed_at u' = listed_at u \<and> wake_owed u' = wake_owed u \<and> loaded log u' \<and> h \<in> set (sched (v_mem z))"
  using assms by (cases u) (auto split: if_splits)

lemma value_queue_resume:
  assumes "value_queue_inv N addr co s0 us z" "length us = N" "i < N" "value_resume (co i) (us ! i) z = Some u"
  shows "value_queue_inv N addr co s0 (us[i := u]) z"
proof -
  obtain "is" js where q: "await_queue N addr co s0 is js (av_waiters (v_value z)) (v_mem z)"
    "set (is @ js) = {i. i < N \<and> listed_at (us ! i) \<noteq> None}" "{i. i < N \<and> was_resumed (us ! i)} \<subseteq> set js"
    "\<forall>i < N. in_time js (v_wakes z) i (listed_at (us ! i))"
    using assms(1) by (auto simp: value_queue_inv_def)
  note u = value_resume_user [OF assms(4)]
  have same: "us[i := u] ! j = (if j = i then u else us ! j)" if "j < N" for j using that assms(2,3) by auto
  have "i \<in> set js" using await_queue_scheduled(1) [OF q(1) assms(3)] u by simp
  then have "{j. j < N \<and> was_resumed (us[i := u] ! j)} \<subseteq> set js" using q(3) by (auto simp: same split: if_splits)
  moreover have at: "listed_at (us[i := u] ! j) = listed_at (us ! j)" if "j < N" for j using u that by (simp add: same)
  moreover have "{j. j < N \<and> listed_at (us[i := u] ! j) \<noteq> None} = {j. j < N \<and> listed_at (us ! j) \<noteq> None}"
    using at by auto
  ultimately show ?thesis using q unfolding value_queue_inv_def by (intro two_lists [of _ "is" js]) simp
qed

lemma loaded_update:
  assumes "\<forall>u \<in> set us. loaded log u" "set log \<subseteq> set log'" "loaded log' u"
  shows "\<forall>v \<in> set (us[i := u]). loaded log' v"
  using assms set_update_subset_insert [of us i u] loaded_mono by blast

lemma value_inv_step:
  assumes "value_step addr co q q'" "value_inv v0 N addr co s0 q"
  shows "value_inv v0 N addr co s0 q'"
  using assms(1)
proof cases
  case (thread i us z u z')
  have inv: "length us = N" "is_register v0 (av_base (v_value z)) (v_log z)" "\<forall>u \<in> set us. loaded (v_log z) u"
    "v_wakes z + sum_list (map wake_owed us) = waking (v_log z)" "value_queue_inv N addr co s0 us z"
    using assms(2) by (simp_all add: thread(1) value_inv_def)
  note log = value_thread_log [OF thread(4)]
  have "value_queue_inv N addr co s0 (us[i := u]) z'"
    by (rule value_queue_thread [OF inv(5,1) _ thread(4)]) (use thread(3) inv in simp)
  moreover have "\<forall>v \<in> set (us[i := u]). loaded (v_log z') v"
    using loaded_update [OF inv(3)] log by blast
  moreover have "v_wakes z' + sum_list (map wake_owed (us[i := u])) = waking (v_log z')"
    using log inv(4) sum_list_map_update [OF thread(3), of wake_owed u] by linarith
  ultimately show ?thesis
    using value_thread_register [OF thread(4) inv(2)] inv(1) by (simp add: thread(2) value_inv_def)
next
  case (resume i us z u)
  have inv: "length us = N" "is_register v0 (av_base (v_value z)) (v_log z)" "\<forall>u \<in> set us. loaded (v_log z) u"
    "v_wakes z + sum_list (map wake_owed us) = waking (v_log z)" "value_queue_inv N addr co s0 us z"
    using assms(2) by (simp_all add: resume(1) value_inv_def)
  note u = value_resume_user [OF resume(4)]
  have "value_queue_inv N addr co s0 (us[i := u]) z"
    by (rule value_queue_resume [OF inv(5,1) _ resume(4)]) (use resume(3) inv in simp)
  moreover have "\<forall>v \<in> set (us[i := u]). loaded (v_log z) v"
    using loaded_update [OF inv(3) subset_refl] u by blast
  moreover have "sum_list (map wake_owed (us[i := u])) = sum_list (map wake_owed us)"
    using u sum_list_map_update [OF resume(3), of wake_owed u] by simp
  ultimately show ?thesis using inv by (simp add: resume(2) value_inv_def)
qed

lemma value_inv_start:
  assumes "own_nodes (length us) addr co (sched w)" "\<forall>u \<in> set us. value_fresh u"
  shows "value_inv v0 (length us) addr co (sched w) (value_start v0 us w)"
proof -
  have f: "listed_at u = None \<and> \<not> was_resumed u \<and> wake_owed u = 0 \<and> loaded log u" if "value_fresh u"
    for u :: "('a, 'b) value_user" and log using that by (cases u) simp_all
  have owed: "sum_list (map wake_owed us) = 0" using assms(2) f by (induction us) auto
  have "value_queue_inv (length us) addr co (sched w) us (snd (value_start v0 us w))"
    unfolding value_queue_inv_def
    using await_queue_new [OF assms(1)] f assms(2)
    by (intro two_lists [of _ "[]" "[]"]) (auto simp: value_start_def new_async_value_def)
  then show ?thesis using owed f assms(2)
    by (simp add: value_inv_def value_start_def new_async_value_def waking_def is_register_def new_shared_value_def
        del: sum_list_eq_0_iff)
qed

lemma value_inv_reach:
  assumes "own_nodes (length us) addr co (sched w)" "\<forall>u \<in> set us. value_fresh u"
    and "value_reach addr co (value_start v0 us w) q"
  shows "value_inv v0 (length us) addr co (sched w) q"
  using assms(3)
proof induction
  case start
  show ?case by (rule value_inv_start [OF assms(1,2)])
next
  case (step q q')
  show ?case by (rule value_inv_step [OF step.hyps(2) step.IH])
qed

section \<open>The end of a run\<close>

fun value_left :: "('a, 'b) value_user \<Rightarrow> nat" where
  "value_left (Vw_ready since) = 5" | "value_left Vw_add = 4" | "value_left (Vw_listed k) = 3"
| "value_left (Vw_overtaken k) = 2" | "value_left (Vw_suspended k) = 2" | "value_left (Vw_load l) = 1"
| "value_left (Op_call x) = 2" | "value_left Op_wake = 1" | "value_left u = 0"

definition value_at_rest :: "coro \<Rightarrow> ('a, 'b) value_user \<Rightarrow> ('a, 'b) value_sys \<Rightarrow> bool" where
  "value_at_rest h u z \<longleftrightarrow> (case u of
     Vw_suspended k \<Rightarrow> h \<notin> set (sched (v_mem z)) | Vw_done l v \<Rightarrow> True | Op_done \<Rightarrow> True
   | Op_call x \<Rightarrow> (\<exists>c t. sv_exec x (av_base (v_value z)) = Wait c t)
   | Op_wake \<Rightarrow> wake_all (av_waiters (v_value z)) (v_mem z) = None
   | _ \<Rightarrow> False)"

lemma value_at_rest_iff: "value_at_rest h u z \<longleftrightarrow> value_thread p h u z = None \<and> value_resume h u z = None"
  by (cases u) (auto simp: value_at_rest_def split: prod.splits if_splits option.splits outcome.splits)

lemma value_thread_left: "value_thread p h u z = Some (u', z') \<Longrightarrow> value_left u' < value_left u"
  by (cases u) (auto split: prod.splits if_splits outcome.splits option.splits)

lemma value_resume_left: "value_resume h u z = Some u' \<Longrightarrow> value_left u' < value_left u"
  by (cases u) (auto split: if_splits)

interpretation value_users: awaiting_users "\<lambda>i. value_thread (addr i) (co i)" "\<lambda>i. value_resume (co i)"
  "value_step addr co" value_left "\<lambda>i. value_at_rest (co i)" for addr co
proof
  fix us z us' z'
  show "value_step addr co (us, z) (us', z') \<longleftrightarrow> (\<exists>i u. i < length us \<and> us' = us[i := u]
      \<and> (value_thread (addr i) (co i) (us ! i) z = Some (u, z') \<or> value_resume (co i) (us ! i) z = Some u \<and> z' = z))"
    by (auto elim!: value_stepE intro: value_step.intros)
qed (auto simp: value_thread_left value_resume_left value_at_rest_iff)

section \<open>Runs by a schedule\<close>

text \<open>A step of a thread, \<open>(True, i)\<close>, or of a coroutine, \<open>(False, i)\<close>.\<close>

fun value_run ::
  "(nat \<Rightarrow> uintptr) \<Rightarrow> (nat \<Rightarrow> coro) \<Rightarrow> (bool \<times> nat) list \<Rightarrow> ('a, 'b) value_user list \<times> ('a, 'b) value_sys
     \<Rightarrow> (('a, 'b) value_user list \<times> ('a, 'b) value_sys) option"
where
  "value_run addr co [] q = Some q"
| "value_run addr co ((thr, i) # is) (us, z) =
     (if i < length us then
        case (if thr then value_thread (addr i) (co i) (us ! i) z
              else map_option (\<lambda>u. (u, z)) (value_resume (co i) (us ! i) z)) of
          None \<Rightarrow> None | Some (u, z') \<Rightarrow> value_run addr co is (us[i := u], z')
      else None)"

lemma value_run_reach:
  assumes "value_run addr co is q = Some q'" "value_reach addr co q0 q"
  shows "value_reach addr co q0 q'"
  using assms
proof (induction "is" arbitrary: q)
  case (Cons e "is")
  obtain thr i us z where e: "e = (thr, i)" "q = (us, z)" by (cases e, cases q)
  with Cons.prems(1) obtain u z' where st: "i < length us"
    "(if thr then value_thread (addr i) (co i) (us ! i) z
      else map_option (\<lambda>u. (u, z)) (value_resume (co i) (us ! i) z)) = Some (u, z')"
    "value_run addr co is (us[i := u], z') = Some q'"
    by (auto split: if_splits option.splits)
  have "value_step addr co q (us[i := u], z')"
    unfolding e using st by (cases thr) (auto intro: value_step.intros)
  with Cons st(3) show ?case by (blast intro: value_reach.step)
qed simp

lemmas value_eval = value_start_def new_async_value_def new_shared_value_def change_ready_def change_resume_def
  add_change_waiter_def add_waiter_def arm_node_def wake_all_def wake_walk.simps fire_node_def schedule_call_def
  sample_mem_def new_node_def sv_defs

text \<open>A store has raised the version to 1 and not yet woken the list when a coroutine waits for the next change.\<close>

lemma early_waiter:
  obtains z where "value_reach three_nodes three_handles (value_start 0 [Op_call (Store (7 :: nat)), Vw_ready 1] sample_mem)
      ([Op_done :: (nat, unit) value_user, Vw_done (Some 0) 7], z)" "sv_version (av_base (v_value z)) = 1"
proof -
  have "\<exists>z. value_run three_nodes three_handles [(True, 0), (True, 1), (True, 1), (True, 1), (True, 0), (False, 1), (True, 1)]
        (value_start 0 [Op_call (Store (7 :: nat)), Vw_ready 1] sample_mem)
      = Some ([Op_done :: (nat, unit) value_user, Vw_done (Some 0) 7], z) \<and> sv_version (av_base (v_value z)) = 1"
    by (simp add: value_eval three_nodes_def three_handles_def)
  with that value_run_reach [OF _ value_reach.start] show ?thesis by blast
qed

text \<open>A coroutine sees version 0, then a store wakes the empty list, then the coroutine goes on the list.\<close>

lemma value_left_behind:
  obtains z where "value_reach three_nodes three_handles (value_start 0 [Vw_ready 0, Op_call (Store (7 :: nat))] sample_mem)
      ([Vw_suspended 1 :: (nat, unit) value_user, Op_done], z)" "sched (v_mem z) = []"
proof -
  have "\<exists>z. value_run three_nodes three_handles [(True, 0), (True, 1), (True, 1), (True, 0), (True, 0)]
        (value_start 0 [Vw_ready 0, Op_call (Store (7 :: nat))] sample_mem)
      = Some ([Vw_suspended 1 :: (nat, unit) value_user, Op_done], z) \<and> sched (v_mem z) = []"
    by (simp add: value_eval three_nodes_def three_handles_def)
  with that value_run_reach [OF _ value_reach.start] show ?thesis by blast
qed

section \<open>Properties\<close>

text \<open>
  C19. An asynchronous value stays an atomic register with a change counter when coroutines wait
  for it: in every state of every interleaving each operation gave the answer of the register
  that the operations before it left, and the value that an awaiting coroutine returns is one of
  the loads among them.  No coroutine is scheduled twice or goes on from the list unscheduled, and
  whoever was on the list at a wake-up is scheduled.
\<close>

theorem async_value_is_register:
  fixes us :: "('a, 'b) value_user list"
  assumes "own_nodes (length us) addr co (sched w)" "\<forall>u \<in> set us. value_fresh u"
    and "value_reach addr co (value_start v0 us w) (us', z)"
  shows "(case register v0 (v_log z) of (u, n) \<Rightarrow>
        sv_value (av_base (v_value z)) = u \<and> sv_version (av_base (v_value z)) = of_nat n)
    \<and> (\<forall>h2 x r h1. v_log z = h2 @ (x, r) # h1 \<longrightarrow> (case register v0 h1 of (u, n) \<Rightarrow> answers x u (of_nat n) r))
    \<and> (\<forall>l v. Vw_done l v \<in> set us' \<longrightarrow> (Load, Sv_value v) \<in> set (v_log z))
    \<and> (\<forall>i < length us. count_list (sched (v_mem z)) (co i) \<le> 1
        \<and> (was_resumed (us' ! i) \<longrightarrow> co i \<in> set (sched (v_mem z)))
        \<and> (\<forall>k. listed_at (us' ! i) = Some k \<and> k < v_wakes z \<longrightarrow> co i \<in> set (sched (v_mem z))))"
proof -
  have inv: "is_register v0 (av_base (v_value z)) (v_log z)" "\<forall>u \<in> set us'. loaded (v_log z) u"
    "value_queue_inv (length us) addr co (sched w) us' z"
    using value_inv_reach [OF assms] by (simp_all add: value_inv_def)
  from inv(3) obtain "is" js where q:
    "await_queue (length us) addr co (sched w) is js (av_waiters (v_value z)) (v_mem z)"
    "{i. i < length us \<and> was_resumed (us' ! i)} \<subseteq> set js"
    "\<forall>i < length us. in_time js (v_wakes z) i (listed_at (us' ! i))"
    by (auto simp: value_queue_inv_def)
  have "count_list (sched (v_mem z)) (co i) \<le> 1 \<and> (was_resumed (us' ! i) \<longrightarrow> co i \<in> set (sched (v_mem z)))
      \<and> (\<forall>k. listed_at (us' ! i) = Some k \<and> k < v_wakes z \<longrightarrow> co i \<in> set (sched (v_mem z)))" if "i < length us" for i
    using await_queue_scheduled [OF q(1) that] q(2,3) that by (auto simp: in_time_def)
  moreover have "\<forall>l v. Vw_done l v \<in> set us' \<longrightarrow> (Load, Sv_value v) \<in> set (v_log z)" using inv(2) by fastforce
  ultimately show ?thesis using inv(1) unfolding is_register_def by simp
qed

text \<open>
  C33. A run of an asynchronous value ends, and a coroutine that is left suspended then put its node
  on the list after the wake-ups of all changes that wake it: of all calls but \<open>modify_and_get\<close>
  and \<open>try_store\<close>, which it inherits.
\<close>

theorem async_value_leaves_late_only:
  fixes us :: "('a, 'b) value_user list"
  assumes "own_nodes (length us) addr co (sched w)" "\<forall>u \<in> set us. value_fresh u"
    and "value_reach addr co (value_start v0 us w) (us', z)"
    and "\<nexists>q. value_step addr co (us', z) q" "i < length us"
  shows "wfp (\<lambda>q' q :: ('a, 'b) value_user list \<times> ('a, 'b) value_sys. value_step addr co q q')
    \<and> value_at_rest (co i) (us' ! i) z \<and> us' ! i \<noteq> Op_wake
    \<and> (\<forall>k. us' ! i = Vw_suspended k \<longrightarrow> k = waking (v_log z))"
proof -
  have inv: "length us' = length us" "v_wakes z + sum_list (map wake_owed us') = waking (v_log z)"
    "value_queue_inv (length us) addr co (sched w) us' z"
    using value_inv_reach [OF assms(1-3)] by (simp_all add: value_inv_def)
  from inv(3) obtain "is" js where q:
    "await_queue (length us) addr co (sched w) is js (av_waiters (v_value z)) (v_mem z)"
    "\<forall>i < length us. in_time js (v_wakes z) i (listed_at (us' ! i))"
    by (auto simp: value_queue_inv_def)
  have rest: "\<forall>i < length us. value_at_rest (co i) (us' ! i) z"
    using value_users.stuck_iff [where addr = addr and co = co and us = us' and z = z] assms(4) inv(1) by simp
  obtain w' where wk: "wake_all (av_waiters (v_value z)) (v_mem z) = Some (0, w')"
    by (rule await_queue_wake_all [OF q(1)])
  have no_wake: "u \<noteq> Op_wake" if "u \<in> set us'" for u
    using that rest wk inv(1) by (auto simp: in_set_conv_nth value_at_rest_def)
  then have "wake_owed u = 0" if "u \<in> set us'" for u using that by (cases u) auto
  then have "sum_list (map wake_owed us') = 0" by (induction us') auto
  then have wakes: "v_wakes z = waking (v_log z)" using inv(2) by linarith
  have "k = waking (v_log z)" if "us' ! i = Vw_suspended k" for k
  proof -
    have "co i \<notin> set (sched (v_mem z))" using rest assms(5) that by (auto simp: value_at_rest_def)
    then have "i \<notin> set js" using await_queue_scheduled(1) [OF q(1) assms(5)] by simp
    then show ?thesis using q(2) assms(5) that wakes by (auto simp: in_time_def)
  qed
  then show ?thesis using value_users.runs_end rest assms(5) no_wake inv(1) by (metis nth_mem)
qed

text \<open>
  A coroutine that waits for a change can go on without one: a store raises the version before it
  wakes the list, so a coroutine that has read the new version and waits for the next is woken by
  the change it knows, and returns with the version unchanged.
\<close>

theorem change_wait_returns_unchanged:
  "\<exists>z. value_reach three_nodes three_handles (value_start 0 [Op_call (Store (7 :: nat)), Vw_ready 1] sample_mem)
        ([Op_done :: (nat, unit) value_user, Vw_done (Some 0) 7], z)
     \<and> sv_version (av_base (v_value z)) = 1"
  using early_waiter by blast

section \<open>Witnesses\<close>

theorem async_value_is_register_witness:
  "\<exists>z. value_reach three_nodes three_handles (value_start 0 [Op_call (Store (7 :: nat)), Vw_ready 1] sample_mem)
        ([Op_done :: (nat, unit) value_user, Vw_done (Some 0) 7], z)
     \<and> (Load, Sv_value 7) \<in> set (v_log z) \<and> 7 \<in> set (sched (v_mem z))"
proof -
  obtain z where r: "value_reach three_nodes three_handles (value_start 0 [Op_call (Store (7 :: nat)), Vw_ready 1] sample_mem)
      ([Op_done :: (nat, unit) value_user, Vw_done (Some 0) 7], z)" by (rule early_waiter)
  have own: "own_nodes (length [Op_call (Store (7 :: nat)) :: (nat, unit) value_user, Vw_ready 1])
      three_nodes three_handles (sched sample_mem)"
    using own_three by (simp add: sample_mem_def)
  note reg = async_value_is_register [OF own _ r]
  have "(Load, Sv_value 7) \<in> set (v_log z)" using reg by auto
  moreover have "three_handles (Suc 0) \<in> set (sched (v_mem z))" using reg by fastforce
  ultimately show ?thesis using r by (intro exI [of _ z]) (simp add: three_handles_def)
qed

theorem async_value_leaves_late_only_witness:
  "\<exists>z. value_reach three_nodes three_handles (value_start 0 [Vw_ready 0, Op_call (Store (7 :: nat))] sample_mem)
        ([Vw_suspended 1 :: (nat, unit) value_user, Op_done], z) \<and> waking (v_log z) = 1"
proof -
  obtain z where r: "value_reach three_nodes three_handles (value_start 0 [Vw_ready 0, Op_call (Store (7 :: nat))] sample_mem)
      ([Vw_suspended 1 :: (nat, unit) value_user, Op_done], z)" "sched (v_mem z) = []" by (rule value_left_behind)
  have own: "own_nodes (length [Vw_ready 0 :: (nat, unit) value_user, Op_call (Store 7)])
      three_nodes three_handles (sched sample_mem)"
    using own_three by (simp add: sample_mem_def)
  have stuck: "\<nexists>q. value_step three_nodes three_handles ([Vw_suspended 1 :: (nat, unit) value_user, Op_done], z) q"
    unfolding value_users.stuck_iff using r(2) by (auto simp: value_at_rest_def less_Suc_eq)
  have "waking (v_log z) = 1"
    using async_value_leaves_late_only [OF own _ r(1) stuck, of 0] by simp
  with r(1) show ?thesis by blast
qed

end
