(* ===== verification/Deadline.thy ===== *)
theory Deadline
  imports Sleep TimedAwaiter
begin

text \<open>
  Timeouts: the calls that take a duration (\<open>sleep\<close> in \<open>include/sleep.hpp\<close>,
  \<open>receive_async_for\<close> and \<open>send_async_for\<close> in \<open>include/shared_state/channel.hpp\<close>,
  \<open>wait_async_for\<close> in \<open>include/shared_state/event.hpp\<close>, \<open>acquire_async_for\<close> in
  \<open>include/shared_state/semaphore.hpp\<close>) add it to the reading of the clock.  The other theories
  take the deadline as an integer; here the arithmetic is done at its width.
\<close>

section \<open>Durations and the clock\<close>

text \<open>
  The clock and every duration count in signed 64-bit integers: the clock in nanoseconds, a
  duration in periods of a whole number of them (1000 for microseconds, 3600000000000 for
  hours).  A product or a sum is the word that the machine computes; where that differs from
  the product or the sum of the numbers, the signed arithmetic has overflowed and its result
  is not defined: \<open>None\<close>.
\<close>

type_synonym ticks = "64 word"

definition mul_ticks :: "ticks \<Rightarrow> ticks \<Rightarrow> ticks option" where
  "mul_ticks a b = (let r = a * b in if sint r = sint a * sint b then Some r else None)"

definition add_ticks :: "ticks \<Rightarrow> ticks \<Rightarrow> ticks option" where
  "add_ticks a b = (let r = a + b in if sint r = sint a + sint b then Some r else None)"

text \<open>The conversion of a duration to nanoseconds, and \<open>steady_clock::now() + duration\<close>.\<close>

definition to_nanoseconds :: "ticks \<Rightarrow> ticks \<Rightarrow> ticks option" where
  "to_nanoseconds period n = mul_ticks n period"

definition deadline_after :: "ticks \<Rightarrow> ticks \<Rightarrow> ticks \<Rightarrow> ticks option" where
  "deadline_after now period n =
     (case to_nanoseconds period n of None \<Rightarrow> None | Some d \<Rightarrow> add_ticks now d)"

section \<open>The calls\<close>

definition sleep_duration :: "ticks \<Rightarrow> ticks \<Rightarrow> ticks \<Rightarrow> uintptr \<Rightarrow> uintptr \<Rightarrow> sleep_awaiter option" where
  "sleep_duration now period n tok g =
     map_option (\<lambda>d. sleep_until (sint d) tok g) (deadline_after now period n)"

text \<open>
  The asynchronous calls up to their \<open>await_ready\<close>, which reads the clock again, at \<open>now'\<close>; the
  deadline stays in the awaiter.
\<close>

definition receive_async_for ::
  "ticks \<Rightarrow> ticks \<Rightarrow> ticks \<Rightarrow> boundedness \<Rightarrow> int \<Rightarrow> 'a async_channel \<Rightarrow>
   (int \<times> bool \<times> 'a option \<times> 'a async_channel) option" where
  "receive_async_for now period n b now' a =
     map_option (\<lambda>d. (sint d, timed_receive_ready b now' (sint d) a)) (deadline_after now period n)"

definition send_async_for ::
  "ticks \<Rightarrow> ticks \<Rightarrow> ticks \<Rightarrow> ('a \<Rightarrow> 'a) \<Rightarrow> boundedness \<Rightarrow> int \<Rightarrow> 'a \<Rightarrow> 'a async_channel \<Rightarrow>
   (int \<times> bool \<times> 'a send_awaiter \<times> 'a async_channel) option" where
  "send_async_for now period n moved b now' v a =
     map_option (\<lambda>d. (sint d, timed_send_ready moved b now' (sint d) \<lparr>sa_value = v, sa_sent = False\<rparr> a))
       (deadline_after now period n)"

definition wait_async_for ::
  "ticks \<Rightarrow> ticks \<Rightarrow> ticks \<Rightarrow> reset_policy \<Rightarrow> int \<Rightarrow> async_event \<Rightarrow> (int \<times> bool \<times> async_event) option" where
  "wait_async_for now period n rp now' a =
     map_option (\<lambda>d. (sint d, timed_wait_ready rp now' (sint d) a)) (deadline_after now period n)"

definition acquire_async_for ::
  "ticks \<Rightarrow> ticks \<Rightarrow> ticks \<Rightarrow> int \<Rightarrow> async_semaphore \<Rightarrow> (int \<times> bool \<times> async_semaphore) option" where
  "acquire_async_for now period n now' a =
     map_option (\<lambda>d. (sint d, timed_acquire_ready now' (sint d) a)) (deadline_after now period n)"

text \<open>A product or a sum has a value exactly if the number is in range.\<close>

definition fits_ticks :: "int \<Rightarrow> bool" where
  "fits_ticks x \<longleftrightarrow> - (2 ^ 63) \<le> x \<and> x < 2 ^ 63"

lemma sint_fits: "sint (w :: ticks) = signed_take_bit 63 x \<Longrightarrow> sint w = x \<longleftrightarrow> fits_ticks x"
  by (simp add: signed_take_bit_int_eq_self_iff fits_ticks_def)

lemma sint_times: "sint (a * b :: ticks) = signed_take_bit 63 (sint a * sint b)"
  by (simp add: sint_word_ariths)

lemma sint_plus: "sint (a + b :: ticks) = signed_take_bit 63 (sint a + sint b)"
  by (simp add: sint_word_ariths)

lemma ticks_eqI: "sint a = sint b \<Longrightarrow> a = (b :: ticks)"
  by (rule signed_word_eqI)

lemma mul_ticks_iff:
  "mul_ticks a b = Some r \<longleftrightarrow> sint r = sint a * sint b \<and> fits_ticks (sint a * sint b)"
  using sint_fits [OF sint_times [of a b]] ticks_eqI [of "a * b" r]
  by (auto simp: mul_ticks_def Let_def)

lemma add_ticks_iff:
  "add_ticks a b = Some r \<longleftrightarrow> sint r = sint a + sint b \<and> fits_ticks (sint a + sint b)"
  using sint_fits [OF sint_plus [of a b]] ticks_eqI [of "a + b" r]
  by (auto simp: add_ticks_def Let_def)

lemma fits_word: "fits_ticks x \<Longrightarrow> \<exists>w :: ticks. sint w = x"
  by (rule exI [of _ "word_of_int x"]) (simp add: fits_ticks_def signed_of_int signed_take_bit_int_eq_self)

lemma deadline_after_iff:
  "deadline_after now period n = Some d \<longleftrightarrow>
     sint d = sint now + sint n * sint period \<and> fits_ticks (sint n * sint period) \<and> fits_ticks (sint d)"
proof (cases "to_nanoseconds period n")
  case None
  have "\<not> fits_ticks (sint n * sint period)"
  proof
    assume fit: "fits_ticks (sint n * sint period)"
    then obtain w :: ticks where "sint w = sint n * sint period" using fits_word by blast
    with fit have "mul_ticks n period = Some w" by (simp add: mul_ticks_iff)
    with None show False by (simp add: to_nanoseconds_def)
  qed
  with None show ?thesis by (simp add: deadline_after_def)
next
  case (Some w)
  then have w: "sint w = sint n * sint period" "fits_ticks (sint n * sint period)"
    by (simp_all add: to_nanoseconds_def mul_ticks_iff)
  with Some show ?thesis by (auto simp: deadline_after_def add_ticks_iff)
qed

text \<open>Within the range the deadline is the one of the ideal arithmetic.\<close>

lemma sleep_duration_ideal:
  assumes "sleep_duration now period n tok g = Some a"
  shows "a = sleep_for (sint now) (sint n * sint period) tok g \<and> fits_ticks (za_deadline a)"
proof -
  obtain d where d: "deadline_after now period n = Some d" "a = sleep_until (sint d) tok g"
    using assms by (auto simp: sleep_duration_def)
  have s: "sint d = sint now + sint n * sint period" "fits_ticks (sint d)"
    using d(1) unfolding deadline_after_iff by blast+
  show ?thesis unfolding d(2) sleep_for_def sleep_until_def using s by simp
qed

section \<open>Properties\<close>

text \<open>
  The four asynchronous calls use the same exact deadline, and one that cannot be served at
  once suspends exactly if the deadline has not passed.
\<close>

theorem async_timeouts_agree:
  assumes "deadline_after now period n = Some d"
  shows "(\<exists>r. receive_async_for now period n b now' a = Some (sint d, r)
        \<and> (buffer (ch_base a) = [] \<and> \<not> is_closed (ch_base a) \<longrightarrow> (fst r \<longleftrightarrow> sint d \<le> now')))
    \<and> (\<exists>r. send_async_for now period n moved b now' v a = Some (sint d, r))
    \<and> (\<exists>r. wait_async_for now period n rp now' e = Some (sint d, r)
        \<and> (\<not> signaled (ev_base e) \<longrightarrow> (fst r \<longleftrightarrow> sint d \<le> now')))
    \<and> (\<exists>r. acquire_async_for now period n now' s = Some (sint d, r)
        \<and> (\<not> has_permit (sem_base s) \<longrightarrow> (fst r \<longleftrightarrow> sint d \<le> now')))
    \<and> sint d = sint now + sint n * sint period \<and> fits_ticks (sint d)"
proof -
  have "\<exists>r. receive_async_for now period n b now' a = Some (sint d, r)
      \<and> (buffer (ch_base a) = [] \<and> \<not> is_closed (ch_base a) \<longrightarrow> (fst r \<longleftrightarrow> sint d \<le> now'))"
    using assms by (simp add: receive_async_for_def timed_receive_ready_def try_receive_now_simp split: list.split)
  moreover have "\<exists>r. send_async_for now period n moved b now' v a = Some (sint d, r)"
    using assms by (cases "timed_send_ready moved b now' (sint d) \<lparr>sa_value = v, sa_sent = False\<rparr> a" rule: prod_cases3)
      (simp add: send_async_for_def)
  moreover have "\<exists>r. wait_async_for now period n rp now' e = Some (sint d, r)
      \<and> (\<not> signaled (ev_base e) \<longrightarrow> (fst r \<longleftrightarrow> sint d \<le> now'))"
    using assms by (simp add: wait_async_for_def timed_wait_ready_def wait_ready_def try_wait_now_simp)
  moreover have "\<exists>r. acquire_async_for now period n now' s = Some (sint d, r)
      \<and> (\<not> has_permit (sem_base s) \<longrightarrow> (fst r \<longleftrightarrow> sint d \<le> now'))"
    using assms by (simp add: acquire_async_for_def timed_acquire_ready_def acquire_ready_def try_acquire_now_simp)
  ultimately show ?thesis using assms unfolding deadline_after_iff by blast
qed

text \<open>
  A timeout that is meant to be endless, the greatest duration, has no defined deadline once
  the clock has left 0; on a machine that wraps around, the deadline lies in the past and the
  sleep is over at once.
\<close>

theorem endless_timeout_overflows:
  assumes "0 < sint now"
  shows "deadline_after now 1 (2 ^ 63 - 1) = None
    \<and> sint (now + (2 ^ 63 - 1)) < 0
    \<and> sleep_ready (sint now) cs (sleep_until (sint (now + (2 ^ 63 - 1))) tok g)"
proof -
  have m: "sint (2 ^ 63 - 1 :: ticks) = 2 ^ 63 - 1" by simp
  have b: "sint now < 2 ^ 63" using sint_bounds [of now] by simp
  have fit: "sint (word_of_int k :: ticks) = k" if "- (2 ^ 63) \<le> k" "k < 2 ^ 63" for k :: int
    using that by (simp add: signed_of_int signed_take_bit_int_eq_self)
  have eq: "now + (2 ^ 63 - 1) = word_of_int (sint now + (2 ^ 63 - 1) - 2 ^ 64)"
    by (simp add: word_of_int_eq_iff)
  have w: "sint (now + (2 ^ 63 - 1)) = sint now + (2 ^ 63 - 1) - 2 ^ 64"
    unfolding eq by (rule fit) (use assms b in simp_all)
  with assms b have "sint (now + (2 ^ 63 - 1)) < 0" by simp
  moreover have "deadline_after now 1 (2 ^ 63 - 1) = None"
  proof (rule ccontr)
    assume "deadline_after now 1 (2 ^ 63 - 1) \<noteq> None"
    then obtain d where "deadline_after now 1 (2 ^ 63 - 1) = Some d" by blast
    then have "sint d = sint now + (2 ^ 63 - 1)" using m by (simp add: deadline_after_iff)
    with assms sint_bounds [of d] show False by simp
  qed
  ultimately show ?thesis using assms by (simp add: sleep_ready_def sleep_until_def)
qed

section \<open>Witnesses\<close>

text \<open>Two hours, 5 nanoseconds after the clock has started.\<close>

theorem async_timeouts_agree_witness:
  "deadline_after 5 3600000000000 2 = Some 7200000000005
   \<and> (\<exists>r. wait_async_for 5 3600000000000 2 Auto_reset 6 (new_async_event False) = Some (7200000000005, r))"
proof -
  have d: "deadline_after 5 3600000000000 2 = Some 7200000000005"
    by (simp add: deadline_after_def to_nanoseconds_def mul_ticks_def add_ticks_def)
  from async_timeouts_agree [OF d, where rp = Auto_reset and now' = 6 and e = "new_async_event False"
      and b = None and a = "new_async_channel :: nat async_channel" and moved = id and v = 0 and s = "new_async_semaphore 0"] d show ?thesis by auto
qed

theorem endless_timeout_overflows_witness: "deadline_after 5 1 (2 ^ 63 - 1) = None"
  using endless_timeout_overflows [of 5] by simp

end
