(* ===== verification/Platform.thy ===== *)
theory Platform
  imports TaskScheduler
begin

text \<open>
  \<open>get_cache_line_size\<close> (\<open>src/task_scheduler.cpp\<close>) on the platforms that the preprocessor
  tells apart.  What the system answers (\<open>sysconf\<close>, \<open>GetLogicalProcessorInformation\<close>) is an
  argument.
\<close>

section \<open>Windows\<close>

type_synonym dword = "32 word"

text \<open>
  The parts of \<open>SYSTEM_LOGICAL_PROCESSOR_INFORMATION\<close> that the code reads; an element has 32
  bytes.  The system call is given the length of the buffer and answers with its success, the
  elements it has written and the length it has stored.
\<close>

datatype relationship = Relation_processor_core | Relation_numa_node | Relation_cache | Relation_package

record processor_information =
  relationship :: relationship
  cache_level :: nat
  cache_line :: dword

definition information_size :: dword where "information_size = 32"

type_synonym processor_query = "dword \<Rightarrow> bool \<times> processor_information list \<times> dword"

text \<open>
  The loop over the elements; \<open>None\<close>: it reads element \<open>i\<close> beyond the end of the buffer, which
  has \<open>room\<close> bytes.
\<close>

fun first_level_line :: "nat \<Rightarrow> nat \<Rightarrow> nat \<Rightarrow> processor_information list \<Rightarrow> dword option" where
  "first_level_line room 0 i infos = Some 0"
| "first_level_line room (Suc k) i infos =
     (if (i + 1) * unat information_size \<le> room \<and> i < length infos
      then if relationship (infos ! i) = Relation_cache \<and> cache_level (infos ! i) = 1
           then Some (cache_line (infos ! i))
           else first_level_line room k (i + 1) infos
      else None)"

text \<open>\<open>buffer\<close> is an array of four \<open>DWORD\<close>s: 16 bytes.\<close>

definition windows_cache_line_size :: "processor_query \<Rightarrow> u64 option" where
  "windows_cache_line_size get_information =
     (let (ok, infos, buffer_size) = get_information 0;
          found = (if ok \<and> buffer_size > 0
                   then first_level_line 16 (unat (buffer_size div information_size)) 0 infos
                   else Some 0)
      in map_option (\<lambda>line. if line = 0 then DEFAULT_CACHE_LINE_SIZE else ucast line) found)"

section \<open>All platforms\<close>

datatype platform = Mingw | Windows processor_query | Linux_musl | Linux_gnu "64 word" | Other

fun platform_cache_line_size :: "platform \<Rightarrow> u64 option" where
  "platform_cache_line_size Mingw = Some DEFAULT_CACHE_LINE_SIZE"
| "platform_cache_line_size (Windows q) = windows_cache_line_size q"
| "platform_cache_line_size Linux_musl = Some DEFAULT_CACHE_LINE_SIZE"
| "platform_cache_line_size (Linux_gnu r) = Some (get_cache_line_size r)"
| "platform_cache_line_size Other = Some DEFAULT_CACHE_LINE_SIZE"

section \<open>Properties\<close>

text \<open>
  The documented behaviour of the system call: it fails if the buffer is shorter than the
  information, which is never empty.
\<close>

definition query_contract :: "processor_query \<Rightarrow> bool" where
  "query_contract q \<longleftrightarrow> (\<exists>needed > 0. \<forall>len. fst (q len) \<longrightarrow> needed \<le> len)"

text \<open>
  The line size of a thread is never 0, whatever the platform and the answer of the system, so
  a thread that has set it can always split a batch.  On Windows it is the default whatever
  the processor: the length is 0 at the call, so the call fails and its answer is not used
  (if it succeeded, the loop would read beyond its buffer).
\<close>

theorem cache_line_size_usable:
  assumes "\<And>q. p = Windows q \<Longrightarrow> query_contract q"
  shows "\<exists>line. platform_cache_line_size p = Some line \<and> line \<noteq> 0
    \<and> (n \<noteq> 0 \<longrightarrow> batch_ranges N n line sz \<noteq> Inl Division_by_zero)
    \<and> ((\<exists>q. p = Windows q) \<longrightarrow> line = DEFAULT_CACHE_LINE_SIZE)"
proof -
  have "\<exists>line. platform_cache_line_size p = Some line \<and> line \<noteq> 0
    \<and> ((\<exists>q. p = Windows q) \<longrightarrow> line = DEFAULT_CACHE_LINE_SIZE)"
  proof (cases p)
    case (Windows q)
    then have "\<not> fst (q 0)" using assms by (fastforce simp: query_contract_def)
    then show ?thesis using Windows
      by (auto simp: windows_cache_line_size_def DEFAULT_CACHE_LINE_SIZE_def split: prod.split)
  qed (auto simp: get_cache_line_size_def DEFAULT_CACHE_LINE_SIZE_def)
  then show ?thesis using batch_division_by_zero by metis
qed

text \<open>A call that did succeed makes the loop read beyond the buffer.\<close>

theorem windows_buffer_overrun:
  assumes "q 0 = (True, infos, len)" "32 \<le> unat len"
  shows "windows_cache_line_size q = None"
proof -
  have "unat (len div information_size) = unat len div 32" by (simp add: unat_div information_size_def)
  then have "unat (len div information_size) \<noteq> 0" using assms(2) by simp
  then obtain k where k: "unat (len div information_size) = Suc k" by (cases "unat (len div information_size)") auto
  have "len > 0" using assms(2) by (auto simp: word_less_nat_alt)
  then show ?thesis using assms(1) k by (simp add: windows_cache_line_size_def information_size_def)
qed

section \<open>Witnesses\<close>

text \<open>A processor with a line of 128 bytes, whose information needs 32 bytes.\<close>

definition query_128 :: processor_query where
  "query_128 len = (if len < 32 then (False, [], 32)
     else (True, [\<lparr>relationship = Relation_cache, cache_level = 1, cache_line = 128\<rparr>], 32))"

theorem cache_line_size_usable_witness: "platform_cache_line_size (Windows query_128) = Some 64"
proof -
  have c: "query_contract q" if "Windows query_128 = Windows q" for q
    using that by (auto simp: query_contract_def query_128_def not_less intro!: exI [of _ 32] split: if_splits)
  from cache_line_size_usable [of "Windows query_128", OF c] show ?thesis
    by (auto simp: DEFAULT_CACHE_LINE_SIZE_def)
qed

theorem windows_buffer_overrun_witness:
  "windows_cache_line_size (\<lambda>len. (True, [], 32)) = None"
  by (rule windows_buffer_overrun [of _ "[]" 32]) simp_all

end
