(* ===== verification/Spec2Isabelle.thy ===== *)
theory Spec2Isabelle
  imports
    Prelude
    Handoff
    WsDeque
    WsDequeConc
    WaiterList
    WaiterConc
    Monitor
    Semaphore
    Event
    Barrier
    SharedValue
    Channel
    BinaryHeap
    TimerService
    CancelState
    CancelNested
    Sleep
    CoroTask
    TaskScheduler
    CoroScheduler
    TimedAwaiter
    Select
    BlockingCall
    Runtime
    IoUring
    LockPolicy
    CoroVoid
    BlockingVoid
    Structured
    Lifecycle
    Allocator
    ResultHolder
    SleepRuntime
    AsyncBarrier
    BarrierReuse
    AsyncChannel
    AsyncSemaphore
    AsyncEvent
    AsyncValue
    Deadline
    Platform
begin

section \<open>The program\<close>

text \<open>
  ethreads is a C++20 library for coroutines and tasks on a pool of threads.  This
  development models its own logic, part by part, from the sources under \<open>src/\<close>; paths below
  are relative to that directory.

  A task (\<open>coro_task\<close>) is a coroutine with a shared state for its result.  Whoever ends last,
  the task or the coroutine that awaits it, resumes the latter: they meet in one atomic word
  (\<open>continuation_handoff\<close>).  Everything that has to resume a coroutine calls
  \<open>schedule_coro_handle\<close>, which puts its handle in the queue of the coroutine workers: a
  final awaiter, the waiter lists of the asynchronous primitives (semaphore, event, barrier,
  shared value, channel), the timer thread for \<open>sleep\<close> and for timeouts, a cancellation, the
  task pool at the end of a blocking call, and the completion threads of io_uring.  An
  awaiter that more than one of these may resume carries a gate, a flag which the one that
  resumes it has to set first.  The blocking primitives are built on a mutex and condition
  variables (\<open>sync_primitive_base\<close>), the asynchronous ones extend them by waiter lists
  (\<open>async_primitive_base\<close>).  The global scheduler owns the pool, the coroutine workers, the
  timer service and the rings; its constructor starts and its destructor stops them.
\<close>

section \<open>The theories and the code they model\<close>

text \<open>
  \<^item> \<open>Prelude\<close>: machine types (\<open>u64\<close>, \<open>ptrdiff\<close>, handles and addresses as 64-bit words), the
    collections \<open>step_defs\<close> and \<open>inv_intros\<close>, facts on lists and words.
  \<^item> \<open>Handoff\<close>: \<open>include/shared_state/continuation_handoff.hpp\<close>, \<open>set_ready\<close> and
    \<open>set_continuation\<close> access by access for any number of callers.
  \<^item> \<open>WsDeque\<close>, \<open>WsDequeConc\<close>: \<open>include/ws_deque.hpp\<close>, the Chase-Lev deque as operations of
    one thread over its ring and access by access with any number of thieves.
  \<^item> \<open>WaiterList\<close>, \<open>WaiterConc\<close>: \<open>waiter_node\<close> and \<open>async_primitive_base\<close> of
    \<open>include/shared_state/crtp_base.hpp\<close>: nodes in a store of addresses, gates, and the log
    of the handles scheduled; once by calls, once access by access.
  \<^item> \<open>Monitor\<close>: \<open>sync_primitive_base\<close> of the same file; an operation is a function to an
    outcome (returned with notifications, or waiting), \<open>mon_reach\<close> interleaves the calls of
    any number of threads.
  \<^item> \<open>Semaphore\<close>, \<open>Event\<close>, \<open>Barrier\<close>, \<open>SharedValue\<close>, \<open>Channel\<close>: the files of these names under
    \<open>include/shared_state/\<close>, the blocking class and the asynchronous one with its awaiter
    (\<open>ready_impl\<close>, \<open>suspend_impl\<close>, \<open>resume_impl\<close> are \<open>_ready\<close>, \<open>_suspend\<close>, \<open>_resume\<close> here).
    \<open>AsyncBarrier\<close>: \<open>arrive_and_wait_async\<close> among its participants, once; \<open>BarrierReuse\<close>:
    again and again on one barrier; \<open>AsyncChannel\<close>: the asynchronous channel among awaiting and blocking senders and receivers; \<open>AsyncSemaphore\<close>,
    \<open>AsyncEvent\<close>, \<open>AsyncValue\<close>: the same for \<open>semaphore.hpp\<close>, \<open>event.hpp\<close> and
    \<open>shared_value.hpp\<close>, over \<open>AwaitQueue\<close>, a waiter list
    described by who is on it and who was scheduled from it.
  \<^item> \<open>LockPolicy\<close>: \<open>include/shared_state/policies.hpp\<close>.  \<open>ResultHolder\<close>: \<open>result_holder\<close> of
    \<open>crtp_base.hpp\<close>.
  \<^item> \<open>BinaryHeap\<close>: \<open>std::push_heap\<close> and \<open>std::pop_heap\<close>, as \<open>TimerService\<close> uses them.
    \<open>TimerService\<close>: \<open>include/timer_service.hpp\<close>, \<open>src/timer_service.cpp\<close>.
  \<^item> \<open>CancelState\<close>: \<open>include/cancellation.hpp\<close>; \<open>CancelNested\<close>: with callbacks that make calls
    of their own.  \<open>Sleep\<close>: \<open>include/sleep.hpp\<close>.
    \<open>TimedAwaiter\<close>: \<open>include/shared_state/timed_awaiter.hpp\<close>.  \<open>Deadline\<close>: the durations these
    are given, in the words the machine computes.  \<open>Select\<close>: \<open>include/select.hpp\<close>, both forms.
  \<^item> \<open>CoroTask\<close>, \<open>CoroVoid\<close>: \<open>include/coro_task.hpp\<close>, the template and its specialisation.
  \<^item> \<open>TaskScheduler\<close>: \<open>add_task\<close>, \<open>add_batch_task\<close> (\<open>include/task_scheduler.hpp\<close>),
    \<open>schedule_task\<close> and the pool (\<open>src/task_scheduler.cpp\<close>).  \<open>Platform\<close>: its
    \<open>get_cache_line_size\<close> on every platform.
  \<^item> \<open>CoroScheduler\<close>: \<open>src/coro_scheduler.cpp\<close>, the workers, \<open>schedule_coro_handle\<close> and the
    shutdown.  \<open>SleepRuntime\<close>: \<open>Sleep\<close> composed with it.  \<open>Lifecycle\<close>: the constructor and the
    destructor of the whole (\<open>src/task_scheduler.cpp\<close>) with all services and the threads of
    the pool.
  \<^item> \<open>BlockingCall\<close>, \<open>BlockingVoid\<close>: \<open>include/coro_awaiter.hpp\<close> and the cancellable awaiter of
    \<open>include/async_runtime.hpp\<close>.  \<open>Runtime\<close>, \<open>Structured\<close>: \<open>run\<close>, \<open>spawn_detached\<close>,
    \<open>when_all\<close>, \<open>when_any\<close> of \<open>include/async_runtime.hpp\<close>, \<open>add_coro\<close>, \<open>include/yield.hpp\<close>.
  \<^item> \<open>IoUring\<close>: \<open>include/io_uring_service.hpp\<close>, \<open>include/io_uring_ops.hpp\<close>,
    \<open>src/io_uring_service.cpp\<close>.  \<open>Allocator\<close>: \<open>include/allocator.hpp\<close>, \<open>src/allocator.cpp\<close>.

  In every theory an object is a \<open>record\<close> with the members of the class, an operation is a
  definition with the name of the function, an exception, a failed assertion, an undefined
  access and a loop that does not end are values (a sum, an outcome, or \<open>None\<close>), and a part
  that several threads run is a step function over the places in its code (\<open>..._pc\<close>) with an
  inductive relation that interleaves the steps.
\<close>

section \<open>What is shown\<close>

text \<open>
  \<^item> Exactly once.  For each place where a coroutine could be resumed twice or not at all, in
    all interleavings: the handoff, the deque, the waiter lists, the task protocol, the
    scheduler, timers, callbacks, timed awaiters, \<open>select\<close>, blocking calls, \<open>sleep\<close>; and for a
    sleeping coroutine through all of these parts together (\<open>SleepRuntime\<close>).
  \<^item> Abstract specifications.  The deque is a list with two ends, the waiter list a stack, the
    channel a queue, the shared value a register with a counter, the heap a priority queue,
    a semaphore its permits, a barrier the number of arrivals; the specialisations for
    \<open>void\<close> are bisimilar to their templates, the variadic \<open>select\<close> is equivalent to the other.
  \<^item> Progress.  No wake-up of a blocking call is lost, the timer thread never oversleeps,
    calls return within bounded steps, nothing that can go on is stuck.
  \<^item> Where the code does not do this, a theorem exhibits the run: lost wake-ups of the
    asynchronous awaiters and of the workers, a shutdown that hangs or drops coroutines,
    permits taken twice, values moved out and lost, stale nodes and timers, a barrier that lets
    a participant through early, a callback that deadlocks, overflow, and others.

  The laws a component relies on are locales: \<open>monitor_cv\<close> with \<open>counted_cv\<close> and
  \<open>broadcast_cv\<close> (what a primitive promises so that no wake-up is lost), interpreted on all
  blocking primitives; \<open>waiting_primitive\<close> (what a timed awaiter needs of a waiter list) on
  the four asynchronous ones; \<open>awaiting_users\<close> (steps that come to an end) on the users of the
  semaphore, the event and the value; \<open>work_stealing_deque\<close>, \<open>priority_queue\<close> and \<open>lock_policy\<close> on
  the deque, the heap and the spinlock.
\<close>

section \<open>Bounds and fuel\<close>

text \<open>
  \<^item> Sequence numbers of the deque are 64-bit words; its theorems assume fewer than 2 to the
    63 pushes in all (\<open>push_budget\<close>), beyond which \<open>bottom\<close> overflows.
  \<^item> \<open>wake_walk\<close> is a partial function: \<open>None\<close> is a walk that never ends, and it ends exactly
    if the list is a chain (\<open>wake_all_defined\<close>).
  \<^item> \<open>run_rounds n\<close> makes at most \<open>n\<close> rounds of the timer thread; the length of the heap is
    enough.  \<open>any_loop n\<close> makes at most \<open>n\<close> rounds of the loop of \<open>when_any\<close>, each with the
    tasks that are ready by then; it returns in the first round with one.  \<open>run_call\<close> takes
    four steps, as many as a call of \<open>schedule_coro_handle\<close> has before it runs a coroutine or
    notifies.  \<open>send_all\<close> consumes one reply of the ring per round; the replies of a peer that
    accepts at least one byte each time are as many as there are bytes at most.
  \<^item> Concurrent calls have explicit measures: \<open>steps_left\<close> of a worker, six steps per call on
    a cancellation, six per participant of a barrier, at most six per call on the deque;
    \<open>sem_left\<close>, \<open>event_left\<close>, \<open>value_left\<close> of a user of an asynchronous primitive.
  \<^item> The number of workers is below 2 to the 64, of participants below 2 to the 63, sizes of
    batches are 64-bit words.  The clock is an integer except in \<open>Deadline\<close>.
\<close>

section \<open>Not modelled\<close>

text \<open>
  \<^item> \<open>include/shared_state/concepts.hpp\<close>, \<open>include/shared_state.hpp\<close>, \<open>include/task.hpp\<close>: concepts
    and includes, nothing runs.  The tests and benchmarks under \<open>builds/\<close> use the library.
  \<^item> Memory orders: all atomic accesses are sequentially consistent.  A mutex and a condition
    variable of the standard library are the ones of \<open>Monitor\<close>, with spurious wake-ups.
  \<^item> liburing, mimalloc and the operating system: what their functions return is an argument,
    what is called is recorded; where a property relies on their documentation a hypothesis
    says so (\<open>query_contract\<close> in \<open>Platform\<close>, the replies of the ring in \<open>IoUring\<close>).
  \<^item> The values of the template parameters are arbitrary types; what a move leaves behind is
    an argument (\<open>moved\<close>).  Reference counts of shared pointers are not counted: a state
    shared by them lives as long as it is used.
  \<^item> In \<open>Lifecycle\<close> the coroutine workers and the threads of the pool are joined one by one;
    \<open>shutdown_timer_service\<close> is one step, without the timer thread beside it, and the joins of
    that thread and of the completion threads are taken to return.  Where joins may not return
    is a theorem of their own parts.
  \<^item> Callbacks of a cancellation are recorded and not run, except in \<open>CancelNested\<close>; they do not
    throw.  A cancellable blocking call has the only callback of its token, and \<open>await_resume\<close>
    reads what the task left in one step.  A task is awaited by one coroutine, once.
  \<^item> Steps that are coarser than the code: \<open>select\<close> registers on all its channels in one;
    \<open>wake_one\<close> and \<open>wake_all\<close> are one in the theories over \<open>AwaitQueue\<close> and the barriers, where
    each user makes one call (a participant of \<open>BarrierReuse\<close> any number), and access by access
    in \<open>WaiterConc\<close>, which has the ABA case.  Timed calls that time out are in \<open>TimedAwaiter\<close> and
    \<open>Monitor\<close>, not in the theories over \<open>AwaitQueue\<close>.  A timed awaiter and a \<open>select\<close> are shown
    right for a gate whose address nobody else uses; \<open>stale_timer_fires\<close> is what happens
    otherwise.
  \<^item> \<open>operator==\<close> of a shared value is equality, and functions of the caller do not throw.
    \<open>send_all\<close> does not distinguish sends with and without a timeout.
  \<^item> \<open>SleepRuntime\<close> composes the scheduler with \<open>sleep\<close>; the other awaiters are related to it
    by the log of scheduled handles only.
\<close>

end
